(* ===== verification/Goim_Prelude.thy ===== *)
theory Goim_Prelude
  imports Main "HOL-Library.Word" "HOL-Library.While_Combinator"
begin

text \<open>
  The vocabulary shared by every component: bytes and Go's fixed-width integers, the errors
  the modelled packages return, the outcome of running a piece of Go code, and the lemmas on
  lists, slices and loops the component proofs use.

  A Go call ends in one of three ways. It returns (\<open>Ret\<close>), it panics (\<open>Panic\<close>),
  or it loops for ever (\<open>Spin\<close>). An error value is part of what a call returns: a
  function of result type \<open>(T, error)\<close> is modelled with the result
  \<open>gerr + 'a\<close>, the left summand being a non-nil error.
\<close>

section \<open>Integers and bytes\<close>

type_synonym byte = "8 word"
type_synonym i16 = "16 word"
type_synonym i32 = "32 word"
type_synonym i64 = "64 word"

text \<open>The name of an object that the code reaches through pointers; \<open>nil\<close> is \<open>None\<close> of a \<open>ref option\<close>.\<close>

type_synonym ref = nat

section \<open>Errors\<close>

text \<open>
  The error values of the modelled packages, by the name of the variable that holds them;
  \<open>IOErr\<close> stands for an error value handed up by a network connection and
  \<open>Text\<close> for one built with \<open>errors.New\<close> or \<open>fmt.Errorf\<close> in place, \<open>Wrapped\<close> for one that \<open>fmt.Errorf\<close>
  wraps around another.
\<close>

datatype gerr =
    EOF | ErrClosed | ErrShortWrite | ErrNoProgress
  | ErrNegativeCount | ErrBufferFull
  | ErrProtoPackLen | ErrProtoHeaderLen
  | ErrMessageClose | ErrMessageMaxRead
  | ErrRingEmpty | ErrRingFull | ErrSignalFullMsgDropped | ErrRoomDroped
  | ErrClockMovedBack | ErrInvalidMachine
  | IOErr nat | Text string | Wrapped string gerr

section \<open>Outcomes of Go code\<close>

datatype 'a exec = Ret 'a | Panic string | Spin

primrec exec_bind :: "'a exec \<Rightarrow> ('a \<Rightarrow> 'b exec) \<Rightarrow> 'b exec" where
  "exec_bind (Ret x) f = f x"
| "exec_bind (Panic s) f = Panic s"
| "exec_bind Spin f = Spin"

text \<open>A loop whose body can panic: it runs while it has returned and the guard holds.\<close>

definition exec_loop :: "('s \<Rightarrow> bool) \<Rightarrow> ('s \<Rightarrow> 's exec) \<Rightarrow> 's \<Rightarrow> 's exec" where
  "exec_loop g body s =
     (case while_option (\<lambda>x. case x of Ret t \<Rightarrow> g t | _ \<Rightarrow> False)
             (\<lambda>x. exec_bind x body) (Ret s) of
        None \<Rightarrow> Spin
      | Some x \<Rightarrow> x)"

named_theorems go_simps \<open>equations that run the outcome and error plumbing of the models\<close>

lemmas exec_bind_simps [go_simps] = exec_bind.simps

lemma exec_bind_Ret [simp, go_simps]: "exec_bind m Ret = m"
  by (cases m) auto

lemma exec_bind_assoc: "exec_bind (exec_bind m f) g = exec_bind m (\<lambda>x. exec_bind (f x) g)"
  by (cases m) auto

lemma exec_bind_eq_Ret_iff:
  "exec_bind m f = Ret y \<longleftrightarrow> (\<exists>x. m = Ret x \<and> f x = Ret y)"
  by (cases m) auto

lemma exec_loop_unfold:
  "exec_loop g body s = (if g s then exec_bind (body s) (exec_loop g body) else Ret s)"
proof (cases "g s")
  case False
  then show ?thesis by (simp add: exec_loop_def while_option_unfold)
next
  case True
  show ?thesis
  proof (cases "body s")
    case (Ret t)
    with True show ?thesis
      by (subst exec_loop_def, subst while_option_unfold) (simp add: exec_loop_def)
  next
    case (Panic m)
    with True show ?thesis
      by (subst exec_loop_def, subst while_option_unfold)
        (simp add: while_option_unfold [of _ _ "Panic m"])
  next
    case Spin
    with True show ?thesis
      by (subst exec_loop_def, subst while_option_unfold)
        (simp add: while_option_unfold [of _ _ "Spin"])
  qed
qed

text \<open>
  Total correctness of such a loop: a body that keeps \<open>I\<close>, returns, and lowers a
  natural-number measure brings the loop to a state where the guard fails.
\<close>

lemma exec_loop_total:
  assumes "I s"
    and "\<And>t. I t \<Longrightarrow> g t \<Longrightarrow> \<exists>u. body t = Ret u \<and> I u \<and> f u < (f t :: nat)"
  shows "\<exists>u. exec_loop g body s = Ret u \<and> I u \<and> \<not> g u"
  using assms(1)
proof (induction "f s" arbitrary: s rule: less_induct)
  case less
  show ?case
  proof (cases "g s")
    case True
    with assms(2) less.prems obtain u where "body s = Ret u" "I u" "f u < f s" by blast
    with True less.hyps [of u] show ?thesis by (subst exec_loop_unfold) simp
  next
    case False
    with less.prems show ?thesis by (subst exec_loop_unfold) simp
  qed
qed

text \<open>The same for a property that relates the final state to the first one.\<close>

lemma exec_loop_total_rel:
  assumes "I s" and "R s s"
    and "\<And>t. I t \<Longrightarrow> R s t \<Longrightarrow> g t \<Longrightarrow> \<exists>u. body t = Ret u \<and> I u \<and> R s u \<and> f u < (f t :: nat)"
  shows "\<exists>u. exec_loop g body s = Ret u \<and> I u \<and> R s u \<and> \<not> g u"
proof -
  have "\<exists>u. exec_loop g body s = Ret u \<and> (I u \<and> R s u) \<and> \<not> g u"
    by (rule exec_loop_total [where f = f]) (use assms in auto)
  then show ?thesis by auto
qed

text \<open>A body that always returns to states where the guard holds never ends.\<close>

lemma exec_loop_spin:
  assumes "I s" and "\<And>t. I t \<Longrightarrow> g t \<and> (\<exists>u. body t = Ret u \<and> I u)"
  shows "exec_loop g body s = Spin"
proof (cases "while_option (\<lambda>x. case x of Ret t \<Rightarrow> g t | _ \<Rightarrow> False) (\<lambda>x. exec_bind x body) (Ret s)")
  case None
  then show ?thesis by (simp add: exec_loop_def)
next
  case (Some x)
  have "\<exists>t. x = Ret t \<and> I t"
    by (rule while_option_rule [OF _ Some]) (use assms in auto)
  with while_option_stop [OF Some] assms(2) show ?thesis by auto
qed

text \<open>Go's \<open>if err != nil { return }\<close>: the rest runs only on the value of a call that
  reported no error; the state is threaded through.\<close>

definition ok_bind ::
    "((gerr + 'a) \<times> 's) exec \<Rightarrow> ('a \<Rightarrow> 's \<Rightarrow> ((gerr + 'b) \<times> 's) exec) \<Rightarrow> ((gerr + 'b) \<times> 's) exec" where
  "ok_bind m f = exec_bind m (\<lambda>(r, s). case r of Inl e \<Rightarrow> Ret (Inl e, s) | Inr x \<Rightarrow> f x s)"

lemma ok_bind_simps [simp, go_simps]:
  "ok_bind (Ret (Inr x, s)) f = f x s"
  "ok_bind (Ret (Inl e, s)) f = Ret (Inl e, s)"
  "ok_bind (Panic m) f = Panic m"
  "ok_bind Spin f = Spin"
  by (simp_all add: ok_bind_def)

text \<open>What a body keeps whenever it returns holds of the state the loop returns.\<close>

lemma exec_loop_inv:
  assumes "exec_loop g body s = Ret u" and "I s"
    and "\<And>t t'. I t \<Longrightarrow> g t \<Longrightarrow> body t = Ret t' \<Longrightarrow> I t'"
  shows "I u"
proof -
  obtain x where x: "while_option (\<lambda>x. case x of Ret t \<Rightarrow> g t | _ \<Rightarrow> False)
      (\<lambda>x. exec_bind x body) (Ret s) = Some x" "x = Ret u"
    using assms(1) by (auto simp: exec_loop_def split: option.splits)
  have "case x of Ret t \<Rightarrow> I t | _ \<Rightarrow> True"
  proof (rule while_option_rule [OF _ x(1)])
    fix y assume "case y of Ret t \<Rightarrow> I t | _ \<Rightarrow> True" "case y of Ret t \<Rightarrow> g t | _ \<Rightarrow> False"
    then obtain t where "y = Ret t" "I t" "g t" by (cases y) auto
    with assms(3) [of t] show "case exec_bind y body of Ret t \<Rightarrow> I t | _ \<Rightarrow> True"
      by (cases "body t") auto
  qed (use assms(2) in simp)
  with x(2) show ?thesis by simp
qed

text \<open>A loop that returns has come to a state where the guard fails.\<close>

lemma exec_loop_stop: "exec_loop g body s = Ret u \<Longrightarrow> \<not> g u"
  by (auto simp: exec_loop_def split: option.splits dest: while_option_stop)

section \<open>Words\<close>

lemma unat_2p:
  assumes "k < LENGTH('a)"
  shows "unat (2 ^ k :: 'a::len word) = 2 ^ k"
proof -
  have "(2 :: nat) ^ k < 2 ^ LENGTH('a)" using assms by simp
  then have "unat (of_nat (2 ^ k) :: 'a word) = 2 ^ k"
    by (simp add: unsigned_of_nat take_bit_nat_eq_self del: of_nat_power of_nat_numeral)
  then show ?thesis by simp
qed

lemma of_nat_word_eq_0:
  assumes "n < 2 ^ LENGTH('a)"
  shows "(of_nat n :: 'a::len word) = 0 \<longleftrightarrow> n = 0"
proof -
  have "unat (of_nat n :: 'a word) = n"
    using assms by (simp add: unsigned_of_nat take_bit_nat_eq_self)
  then show ?thesis by (cases "n = 0") (auto dest: arg_cong [of _ _ unat])
qed

lemma unat_pos: "w \<noteq> 0 \<Longrightarrow> 0 < unat (w :: 'a::len word)"
  by (metis unat_eq_zero not_gr_zero)

section \<open>Lists and slices\<close>

text \<open>\<open>overwrite\<close> is the effect of Go's \<open>copy(buf[at:], data)\<close> on \<open>buf\<close>: as many
  bytes as fit are written, and the length of \<open>buf\<close> never changes.\<close>

definition overwrite :: "nat \<Rightarrow> 'a list \<Rightarrow> 'a list \<Rightarrow> 'a list" where
  "overwrite at data buf =
     take at buf @ take (length buf - at) data @ drop (at + length data) buf"

lemma length_overwrite [simp]: "at \<le> length buf \<Longrightarrow> length (overwrite at data buf) = length buf"
  by (auto simp: overwrite_def min_def)

lemma overwrite_Nil [simp]: "overwrite at [] buf = buf"
  by (simp add: overwrite_def)

lemma take_overwrite [simp]: "at \<le> length buf \<Longrightarrow> take at (overwrite at data buf) = take at buf"
  by (simp add: overwrite_def min_def)

lemma take_overwrite_le:
  "k \<le> at \<Longrightarrow> at \<le> length buf \<Longrightarrow> take k (overwrite at data buf) = take k buf"
  by (simp add: overwrite_def min_def)

lemma take_overwrite_all:
  "at + length data \<le> length buf \<Longrightarrow>
     take (at + length data) (overwrite at data buf) = take at buf @ data"
  by (cases data) (auto simp: overwrite_def min_def)

lemma overwrite_same_length:
  "length data = length buf \<Longrightarrow> overwrite 0 data buf = data"
  by (simp add: overwrite_def)

text \<open>The bytes \<open>buf[lo:hi]\<close> of a slice.\<close>

definition sub_slice :: "nat \<Rightarrow> nat \<Rightarrow> 'a list \<Rightarrow> 'a list" where
  "sub_slice lo hi buf = take (hi - lo) (drop lo buf)"

lemma length_sub_slice [simp]: "hi \<le> length buf \<Longrightarrow> length (sub_slice lo hi buf) = hi - lo"
  by (simp add: sub_slice_def)

lemma sub_slice_same [simp]: "sub_slice lo lo buf = []"
  by (simp add: sub_slice_def)

lemma sub_slice_append_drop: "lo \<le> hi \<Longrightarrow> sub_slice lo hi buf @ drop hi buf = drop lo buf"
  by (simp add: sub_slice_def) (metis append_take_drop_id drop_drop le_add_diff_inverse2)

lemma sub_slice_split:
  assumes "lo \<le> mid" "mid \<le> hi"
  shows "sub_slice lo hi buf = sub_slice lo mid buf @ sub_slice mid hi buf"
proof -
  have "take ((mid - lo) + (hi - mid)) (drop lo buf)
      = take (mid - lo) (drop lo buf) @ take (hi - mid) (drop (mid - lo) (drop lo buf))"
    by (rule take_add)
  moreover have "(mid - lo) + (hi - mid) = hi - lo" "(mid - lo) + lo = mid"
    using assms by auto
  ultimately show ?thesis by (simp add: sub_slice_def add.commute)
qed

lemma sub_slice_0: "sub_slice 0 hi buf = take hi buf"
  by (simp add: sub_slice_def)

lemma sub_slice_all: "hi = length buf \<Longrightarrow> sub_slice lo hi buf = drop lo buf"
  by (simp add: sub_slice_def)

lemma take_add_drop_take: "take n xs @ take m (drop n xs) = take (n + m) xs"
  by (simp add: take_add)

end
