(* ===== verification/Endian.thy ===== *)
theory Endian
  imports Goim_Prelude
begin

unbundle bit_operations_syntax

text \<open>
  Big-endian integers in byte slices: the methods of \<open>pkg/encoding/binary/endian.go\<close>
  (Int8, PutInt8, Int16, PutInt16, Int32, PutInt32), which index the slice and panic when it is
  too short, and the standard library's \<open>encoding/binary\<close> big-endian unsigned integers
  (\<open>put_be\<close> and \<open>get_be\<close>), which \<open>api/protocol/message.go\<close> and
  \<open>pkg/websocket/conn.go\<close> use. A writer returns the slice it has updated. The lemmas are the
  round trips, and that the two families put the same bytes.
\<close>

section \<open>The methods of pkg/encoding/binary\<close>

definition out_of_range :: string where
  "out_of_range = ''index out of range''"

definition Int8 :: "byte list \<Rightarrow> byte exec" where
  "Int8 b = (if length b < 1 then Panic out_of_range else Ret (b ! 0))"

definition PutInt8 :: "byte list \<Rightarrow> byte \<Rightarrow> byte list exec" where
  "PutInt8 b v = (if length b < 1 then Panic out_of_range else Ret (b[0 := v]))"

definition Int16 :: "byte list \<Rightarrow> i16 exec" where
  "Int16 b = (if length b < 2 then Panic out_of_range
     else Ret (ucast (b ! 1) OR push_bit 8 (ucast (b ! 0))))"

definition PutInt16 :: "byte list \<Rightarrow> i16 \<Rightarrow> byte list exec" where
  "PutInt16 b v = (if length b < 2 then Panic out_of_range
     else Ret (b[0 := ucast (signed_drop_bit 8 v), 1 := ucast v]))"

definition Int32 :: "byte list \<Rightarrow> i32 exec" where
  "Int32 b = (if length b < 4 then Panic out_of_range
     else Ret (ucast (b ! 3) OR push_bit 8 (ucast (b ! 2))
             OR push_bit 16 (ucast (b ! 1)) OR push_bit 24 (ucast (b ! 0))))"

definition PutInt32 :: "byte list \<Rightarrow> i32 \<Rightarrow> byte list exec" where
  "PutInt32 b v = (if length b < 4 then Panic out_of_range
     else Ret (b[0 := ucast (signed_drop_bit 24 v), 1 := ucast (signed_drop_bit 16 v),
                 2 := ucast (signed_drop_bit 8 v), 3 := ucast v]))"

section \<open>The standard library's big-endian integers\<close>

text \<open>\<open>put_be k w\<close> is the low \<open>k\<close> bytes of \<open>w\<close>, the most significant first;
  \<open>get_be\<close> reads all the bytes it is given.\<close>

fun put_be :: "nat \<Rightarrow> 'a::len word \<Rightarrow> byte list" where
  "put_be 0 w = []"
| "put_be (Suc k) w = ucast (drop_bit (8 * k) w) # put_be k w"

fun get_be_from :: "'a::len word \<Rightarrow> byte list \<Rightarrow> 'a word" where
  "get_be_from acc [] = acc"
| "get_be_from acc (b # bs) = get_be_from (push_bit 8 acc OR ucast b) bs"

definition get_be :: "byte list \<Rightarrow> 'a::len word" where
  "get_be bs = get_be_from 0 bs"

abbreviation PutUint16 :: "i16 \<Rightarrow> byte list" where "PutUint16 \<equiv> put_be 2"
abbreviation PutUint32 :: "i32 \<Rightarrow> byte list" where "PutUint32 \<equiv> put_be 4"
abbreviation PutUint64 :: "i64 \<Rightarrow> byte list" where "PutUint64 \<equiv> put_be 8"
abbreviation Uint16 :: "byte list \<Rightarrow> i16" where "Uint16 \<equiv> get_be"
abbreviation Uint32 :: "byte list \<Rightarrow> i32" where "Uint32 \<equiv> get_be"
abbreviation Uint64 :: "byte list \<Rightarrow> i64" where "Uint64 \<equiv> get_be"

lemma length_put_be [simp]: "length (put_be k w) = k"
  by (induction k) auto

lemma put_be_step:
  fixes w :: "'a::len word"
  shows "push_bit 8 (drop_bit (8 * Suc k) w) OR ucast (ucast (drop_bit (8 * k) w) :: byte)
       = drop_bit (8 * k) w"
proof (rule bit_word_eqI)
  fix n
  assume "n < LENGTH('a)"
  then show "bit (push_bit 8 (drop_bit (8 * Suc k) w) OR ucast (ucast (drop_bit (8 * k) w) :: byte)) n
       = bit (drop_bit (8 * k) w) n"
    by (cases "n < 8") (auto simp: bit_simps)
qed

lemma get_be_from_put_be:
  "get_be_from (drop_bit (8 * k) w) (put_be k w) = w"
proof (induction k)
  case (Suc k)
  then show ?case by (simp only: put_be.simps get_be_from.simps put_be_step)
qed simp

lemma get_be_put_be:
  fixes w :: "'a::len word"
  assumes "LENGTH('a) \<le> 8 * k"
  shows "get_be (put_be k w) = w"
proof -
  have "drop_bit (8 * k) w = 0"
    using assms by (intro bit_word_eqI) (auto simp: bit_simps dest: bit_imp_le_length)
  with get_be_from_put_be [of k w] show ?thesis by (simp add: get_be_def)
qed

lemma Uint16_PutUint16 [simp]: "Uint16 (PutUint16 w) = w"
  by (rule get_be_put_be) simp

lemma Uint32_PutUint32 [simp]: "Uint32 (PutUint32 w) = w"
  by (rule get_be_put_be) simp

lemma Uint64_PutUint64 [simp]: "Uint64 (PutUint64 w) = w"
  by (rule get_be_put_be) simp

text \<open>Reading then writing also gives back the bytes, where the word has room for them.\<close>

lemma drop_bit_get_be_from:
  fixes acc :: "'a::len word"
  assumes "8 * length bs \<le> LENGTH('a)"
  shows "drop_bit (8 * length bs) (get_be_from acc bs)
       = take_bit (LENGTH('a) - 8 * length bs) acc"
  using assms
proof (induction bs arbitrary: acc)
  case Nil
  then show ?case by (simp add: take_bit_word_eq_self)
next
  case (Cons b bs)
  let ?m = "LENGTH('a) - 8 * length bs"
  have "drop_bit (8 * length (b # bs)) (get_be_from acc (b # bs))
      = drop_bit 8 (drop_bit (8 * length bs) (get_be_from (push_bit 8 acc OR ucast b) bs))"
    by (simp add: drop_bit_drop_bit add.commute)
  also have "\<dots> = drop_bit 8 (take_bit ?m (push_bit 8 acc OR ucast b))"
    using Cons by simp
  also have "\<dots> = take_bit (?m - 8) acc"
    using Cons.prems
    by (intro bit_word_eqI) (auto simp: bit_simps dest: bit_imp_le_length)
  finally show ?case by (simp add: add.commute)
qed

lemma put_be_get_be_from:
  fixes acc :: "'a::len word"
  assumes "8 * length bs \<le> LENGTH('a)"
  shows "put_be (length bs) (get_be_from acc bs) = bs"
  using assms
proof (induction bs arbitrary: acc)
  case (Cons b bs)
  let ?acc = "push_bit 8 acc OR ucast b :: 'a word"
  have "drop_bit (8 * length bs) (get_be_from ?acc bs)
      = take_bit (LENGTH('a) - 8 * length bs) ?acc"
    using Cons.prems by (intro drop_bit_get_be_from) simp
  moreover have "ucast (take_bit (LENGTH('a) - 8 * length bs) ?acc) = b"
    using Cons.prems
    by (intro bit_word_eqI) (auto simp: bit_simps)
  ultimately show ?case using Cons by simp
qed simp

lemma put_be_get_be:
  fixes bs :: "byte list"
  assumes "length bs = k" "8 * k \<le> LENGTH('a)"
  shows "put_be k (get_be bs :: 'a::len word) = bs"
  using assms put_be_get_be_from by (auto simp: get_be_def)

section \<open>The two families agree\<close>

lemma signed_byte_eq [simp]:
  fixes v :: "'a::len word"
  assumes "8 * k + 8 \<le> LENGTH('a)"
  shows "(ucast (signed_drop_bit (8 * k) v) :: byte) = ucast (drop_bit (8 * k) v)"
  using assms by (intro bit_word_eqI) (auto simp: bit_simps)

lemma PutInt16_put_be:
  assumes "length b = 2"
  shows "PutInt16 b v = Ret (put_be 2 v)"
proof -
  obtain x y where "b = [x, y]"
    using assms by (auto simp: length_Suc_conv numeral_2_eq_2)
  then show ?thesis
    using signed_byte_eq [of 1 v] by (simp add: PutInt16_def numeral_2_eq_2)
qed

lemma PutInt32_put_be:
  assumes "length b = 4"
  shows "PutInt32 b v = Ret (put_be 4 v)"
proof -
  obtain x y z t where "b = [x, y, z, t]"
    using assms by (auto simp: length_Suc_conv eval_nat_numeral)
  then show ?thesis
    using signed_byte_eq [of 1 v] signed_byte_eq [of 2 v] signed_byte_eq [of 3 v]
    by (simp add: PutInt32_def eval_nat_numeral)
qed

lemma Int16_get_be:
  assumes "length b = 2"
  shows "Int16 b = Ret (get_be b)"
proof -
  obtain x y where "b = [x, y]"
    using assms by (auto simp: length_Suc_conv numeral_2_eq_2)
  then show ?thesis by (simp add: Int16_def get_be_def or.commute)
qed

lemma Int32_get_be:
  assumes "length b = 4"
  shows "Int32 b = Ret (get_be b)"
proof -
  obtain x y z t where "b = [x, y, z, t]"
    using assms by (auto simp: length_Suc_conv eval_nat_numeral)
  then show ?thesis
    by (simp add: Int32_def get_be_def push_bit_or ac_simps)
qed

lemma Int16_PutInt16: "length b = 2 \<Longrightarrow> exec_bind (PutInt16 b v) Int16 = Ret v"
  by (simp add: PutInt16_put_be Int16_get_be get_be_put_be)

lemma Int32_PutInt32: "length b = 4 \<Longrightarrow> exec_bind (PutInt32 b v) Int32 = Ret v"
  by (simp add: PutInt32_put_be Int32_get_be get_be_put_be)

text \<open>Only the first bytes of a longer slice are read, and only they are written.\<close>

lemma PutInt16_prefix:
  "2 \<le> length b \<Longrightarrow> PutInt16 b v = Ret (put_be 2 v @ drop 2 b)"
proof -
  assume "2 \<le> length b"
  then obtain x y r where "b = x # y # r"
    by (metis One_nat_def Suc_1 Suc_le_length_iff)
  then show ?thesis
    using signed_byte_eq [of 1 v] by (simp add: PutInt16_def numeral_2_eq_2)
qed

lemma PutInt32_prefix:
  "4 \<le> length b \<Longrightarrow> PutInt32 b v = Ret (put_be 4 v @ drop 4 b)"
proof -
  assume "4 \<le> length b"
  then obtain x y z t r where "b = x # y # z # t # r"
    by (auto simp: Suc_le_length_iff eval_nat_numeral)
  then show ?thesis
    using signed_byte_eq [of 1 v] signed_byte_eq [of 2 v] signed_byte_eq [of 3 v]
    by (simp add: PutInt32_def eval_nat_numeral)
qed

lemma Int16_prefix: "2 \<le> length b \<Longrightarrow> Int16 b = Ret (get_be (take 2 b))"
  using Int16_get_be [of "take 2 b"] by (simp add: Int16_def)

lemma Int32_prefix: "4 \<le> length b \<Longrightarrow> Int32 b = Ret (get_be (take 4 b))"
  using Int32_get_be [of "take 4 b"] by (simp add: Int32_def)

end
