(* ===== verification/Conn.thy ===== *)
theory Conn
  imports Goim_Prelude
begin

text \<open>
  What the buffered I/O of \<open>pkg/bufio\<close> relies on below it: Go's \<open>io.Reader\<close> and
  \<open>io.Writer\<close>, as locales that state their documented contracts, and the TCP connection of
  the standard library that the comet server passes in, as a model on which both locales are
  interpreted.

  A \<open>Read(p)\<close> call is given the contents of \<open>p\<close> and returns its new contents, the count, the
  error and the reader's next state; the bytes beyond the count may have been used as scratch
  space. A \<open>Write(p)\<close> call returns the count, the error and the next state.
\<close>

section \<open>The interfaces\<close>

type_synonym 'io rd_fun = "'io \<Rightarrow> byte list \<Rightarrow> (byte list \<times> int \<times> gerr option \<times> 'io) exec"
type_synonym 'io wr_fun = "'io \<Rightarrow> byte list \<Rightarrow> (nat \<times> gerr option \<times> 'io) exec"

text \<open>\<open>stream\<close> is what the reader has still to deliver.\<close>

locale io_reader =
  fixes rd :: "'io rd_fun" and stream :: "'io \<Rightarrow> byte list" and io_inv :: "'io \<Rightarrow> bool"
  assumes rd_contract: "io_inv io \<Longrightarrow>
    \<exists>p' n e io'. rd io p = Ret (p', n, e, io') \<and> io_inv io' \<and> length p' = length p
      \<and> 0 \<le> n \<and> n \<le> int (length p) \<and> stream io = take (nat n) p' @ stream io'"

text \<open>A reader that, while it has something to deliver, delivers some of it without an error.\<close>

locale live_reader = io_reader +
  assumes rd_live: "io_inv io \<Longrightarrow> p \<noteq> [] \<Longrightarrow> stream io \<noteq> [] \<Longrightarrow>
    rd io p = Ret (p', n, e, io') \<Longrightarrow> 0 < n \<and> e = None"

locale io_writer =
  fixes wr :: "'io wr_fun" and sent :: "'io \<Rightarrow> byte list"
  assumes wr_contract:
    "\<exists>n e io'. wr io p = Ret (n, e, io') \<and> n \<le> length p \<and> (n < length p \<longrightarrow> e \<noteq> None)
      \<and> sent io' = sent io @ take n p"

text \<open>A writer that, in the states \<open>healthy\<close>, takes all it is given.\<close>

locale live_writer = io_writer +
  fixes healthy :: "'a \<Rightarrow> bool"
  assumes wr_live: "healthy io \<Longrightarrow> wr io p = Ret (n, e, io') \<Longrightarrow> e = None \<and> healthy io'"

section \<open>A TCP connection\<close>

text \<open>
  The bytes that will arrive, cut into the segments that successive reads find; the error that
  ends the stream (\<open>io.EOF\<close> when the peer closes, another for a reset); the bytes the peer
  has been sent; how many more it will take before the connection breaks (\<open>None\<close>: no
  limit); and whether this side has closed the connection.
\<close>

record tcp_conn =
  tc_in :: "byte list list"
  tc_end :: gerr
  tc_out :: "byte list"
  tc_room :: "nat option"
  tc_closed :: bool

definition tcp_read :: "tcp_conn rd_fun" where
  "tcp_read c p =
     (if tc_closed c then Ret (p, 0, Some ErrClosed, c)
      else if p = [] then Ret (p, 0, None, c)
      else case tc_in c of
        [] \<Rightarrow> Ret (p, 0, Some (tc_end c), c)
      | seg # segs \<Rightarrow>
          let n = min (length p) (length seg);
              rest = drop n seg
          in Ret (overwrite 0 (take n seg) p, int n, None,
                  c\<lparr>tc_in := (if rest = [] then segs else rest # segs)\<rparr>))"

definition tcp_write :: "tcp_conn wr_fun" where
  "tcp_write c p =
     (if tc_closed c then Ret (0, Some ErrClosed, c)
      else case tc_room c of
        None \<Rightarrow> Ret (length p, None, c\<lparr>tc_out := tc_out c @ p\<rparr>)
      | Some k \<Rightarrow>
          if length p \<le> k
          then Ret (length p, None, c\<lparr>tc_out := tc_out c @ p, tc_room := Some (k - length p)\<rparr>)
          else Ret (k, Some (IOErr 0), c\<lparr>tc_out := tc_out c @ take k p, tc_room := Some 0\<rparr>))"

definition tcp_close :: "tcp_conn \<Rightarrow> tcp_conn" where
  "tcp_close c = c\<lparr>tc_closed := True\<rparr>"

definition tcp_stream :: "tcp_conn \<Rightarrow> byte list" where
  "tcp_stream c = (if tc_closed c then [] else concat (tc_in c))"

definition tcp_ok :: "tcp_conn \<Rightarrow> bool" where
  "tcp_ok c \<longleftrightarrow> [] \<notin> set (tc_in c)"

lemma tcp_read_contract:
  assumes "tcp_ok c"
  shows "\<exists>p' n e c'. tcp_read c p = Ret (p', n, e, c') \<and> tcp_ok c' \<and> length p' = length p
    \<and> 0 \<le> n \<and> n \<le> int (length p) \<and> tcp_stream c = take (nat n) p' @ tcp_stream c'"
proof (cases "tc_closed c \<or> p = [] \<or> tc_in c = []")
  case True
  then have "\<exists>e. tcp_read c p = Ret (p, 0, e, c)"
    by (cases "tc_closed c"; cases "p = []") (auto simp: tcp_read_def)
  then obtain e where "tcp_read c p = Ret (p, 0, e, c)" ..
  with assms show ?thesis by simp
next
  case False
  then obtain seg segs where "tc_in c = seg # segs" by (auto simp: neq_Nil_conv)
  with False assms show ?thesis
    by (auto simp: tcp_read_def tcp_stream_def tcp_ok_def Let_def overwrite_def min_def)
qed

lemma tcp_read_live:
  assumes "tcp_ok c" "p \<noteq> []" "tcp_stream c \<noteq> []" "tcp_read c p = Ret (p', n, e, c')"
  shows "0 < n \<and> e = None"
  using assms
  by (auto simp: tcp_read_def tcp_stream_def tcp_ok_def Let_def split: list.splits if_splits)

interpretation tcp_rd: live_reader tcp_read tcp_stream tcp_ok
  by unfold_locales (use tcp_read_contract tcp_read_live in blast)+

definition tcp_healthy :: "tcp_conn \<Rightarrow> bool" where
  "tcp_healthy c \<longleftrightarrow> \<not> tc_closed c \<and> tc_room c = None"

interpretation tcp_wr: live_writer tcp_write tc_out tcp_healthy
proof
  fix c p n e c'
  show "tcp_healthy c \<Longrightarrow> tcp_write c p = Ret (n, e, c') \<Longrightarrow> e = None \<and> tcp_healthy c'"
    by (auto simp: tcp_healthy_def tcp_write_def)
  show "\<exists>n e c'. tcp_write c p = Ret (n, e, c') \<and> n \<le> length p
      \<and> (n < length p \<longrightarrow> e \<noteq> None) \<and> tc_out c' = tc_out c @ take n p"
    by (cases "tc_room c") (auto simp: tcp_write_def)
qed

end
