(* ===== verification/Buf_Reader.thy ===== *)
theory Buf_Reader
  imports Conn
begin

text \<open>
  The buffered reader of \<open>pkg/bufio/bufio.go\<close> over any underlying \<open>io.Reader\<close> \<open>rd\<close>: its
  state (the buffer, the read and write positions, a pending error) and every operation,
  panics included. \<open>r_tail\<close> is the memory between the length and the capacity of the
  buffer slice: no operation here touches it, but a caller that reslices a returned slice can
  reach it.

  The abstraction is \<open>pending\<close>, the bytes buffered and not yet consumed followed by what
  the underlying reader has still to deliver. Filling never changes it, and consuming takes
  bytes off its front.
\<close>

section \<open>State\<close>

record 'io bufr =
  r_buf :: "byte list"
  r_tail :: "byte list"
  r_rd :: 'io
  r_r :: nat
  r_w :: nat
  r_err :: "gerr option"

definition minReadBufferSize :: nat where
  "minReadBufferSize = 16"

definition maxConsecutiveEmptyReads :: nat where
  "maxConsecutiveEmptyReads = 100"

definition r_reset :: "byte list \<Rightarrow> byte list \<Rightarrow> 'io \<Rightarrow> 'io bufr" where
  "r_reset buf tail rd0 =
     \<lparr>r_buf = buf, r_tail = tail, r_rd = rd0, r_r = 0, r_w = 0, r_err = None\<rparr>"

text \<open>The case of an underlying reader that is no \<open>bufio.Reader\<close> itself.\<close>

definition bufio_NewReaderSize :: "'io \<Rightarrow> int \<Rightarrow> 'io bufr" where
  "bufio_NewReaderSize rd0 sz =
     (let sz' = (if sz < int minReadBufferSize then minReadBufferSize else nat sz)
      in r_reset (replicate sz' 0) [] rd0)"

definition r_Reset :: "'io bufr \<Rightarrow> 'io \<Rightarrow> 'io bufr" where
  "r_Reset b rd0 = r_reset (r_buf b) (r_tail b) rd0"

definition r_ResetBuffer :: "'io bufr \<Rightarrow> 'io \<Rightarrow> byte list \<Rightarrow> byte list \<Rightarrow> 'io bufr" where
  "r_ResetBuffer b rd0 buf tail = r_reset buf tail rd0"

section \<open>Operations\<close>

fun r_fill_tries :: "'io rd_fun \<Rightarrow> nat \<Rightarrow> 'io bufr \<Rightarrow> 'io bufr exec" where
  "r_fill_tries rd 0 b = Ret (b\<lparr>r_err := Some ErrNoProgress\<rparr>)"
| "r_fill_tries rd (Suc i) b =
     exec_bind (rd (r_rd b) (drop (r_w b) (r_buf b))) (\<lambda>(p, n, err, io').
       if n < 0 then Panic ''bufio: reader returned negative count from Read''
       else let b1 = b\<lparr>r_buf := take (r_w b) (r_buf b) @ p, r_w := r_w b + nat n, r_rd := io'\<rparr>
            in case err of
                 Some e \<Rightarrow> Ret (b1\<lparr>r_err := Some e\<rparr>)
               | None \<Rightarrow> if 0 < n then Ret b1 else r_fill_tries rd i b1)"

definition r_fill :: "'io rd_fun \<Rightarrow> 'io bufr \<Rightarrow> 'io bufr exec" where
  "r_fill rd b =
     (let b1 = (if 0 < r_r b
                then b\<lparr>r_buf := overwrite 0 (sub_slice (r_r b) (r_w b) (r_buf b)) (r_buf b),
                       r_w := r_w b - r_r b, r_r := 0\<rparr>
                else b)
      in if length (r_buf b1) \<le> r_w b1 then Panic ''bufio: tried to fill full buffer''
         else r_fill_tries rd maxConsecutiveEmptyReads b1)"

definition r_readErr :: "'io bufr \<Rightarrow> gerr option \<times> 'io bufr" where
  "r_readErr b = (r_err b, b\<lparr>r_err := None\<rparr>)"

definition r_Buffered :: "'io bufr \<Rightarrow> nat" where
  "r_Buffered b = r_w b - r_r b"

definition r_Peek :: "'io rd_fun \<Rightarrow> 'io bufr \<Rightarrow> int \<Rightarrow> (byte list \<times> gerr option \<times> 'io bufr) exec" where
  "r_Peek rd b0 n =
     (if n < 0 then Ret ([], Some ErrNegativeCount, b0)
      else if int (length (r_buf b0)) < n then Ret ([], Some ErrBufferFull, b0)
      else exec_bind
        (exec_loop (\<lambda>b. r_w b - r_r b < nat n \<and> r_err b = None) (r_fill rd) b0)
        (\<lambda>b. let avail = r_w b - r_r b
             in if avail < nat n
                then let (err, b') = r_readErr b;
                         err' = (if err = None then Some ErrBufferFull else err)
                     in Ret (sub_slice (r_r b') (r_r b' + avail) (r_buf b'), err', b')
                else Ret (sub_slice (r_r b) (r_r b + nat n) (r_buf b), None, b)))"

definition r_Pop :: "'io rd_fun \<Rightarrow> 'io bufr \<Rightarrow> int \<Rightarrow> ((gerr + byte list) \<times> 'io bufr) exec" where
  "r_Pop rd b n =
     exec_bind (r_Peek rd b n) (\<lambda>(d, err, b').
       case err of
         None \<Rightarrow> Ret (Inr d, b'\<lparr>r_r := r_r b' + nat n\<rparr>)
       | Some e \<Rightarrow> Ret (Inl e, b'))"

text \<open>The loop of \<open>Discard\<close> runs its body before it first tests anything, so the state carries
  whether the last turn asked to stop.\<close>

definition r_Discard_step ::
    "'io rd_fun \<Rightarrow> 'io bufr \<times> nat \<times> bool \<Rightarrow> ('io bufr \<times> nat \<times> bool) exec" where
  "r_Discard_step rd = (\<lambda>(b, remain, stop).
     exec_bind (if r_Buffered b = 0 then r_fill rd b else Ret b) (\<lambda>b1.
       let skip = min (r_Buffered b1) remain;
           b2 = b1\<lparr>r_r := r_r b1 + skip\<rparr>;
           remain' = remain - skip
       in Ret (b2, remain', remain' = 0 \<or> r_err b2 \<noteq> None)))"

definition r_Discard :: "'io rd_fun \<Rightarrow> 'io bufr \<Rightarrow> int \<Rightarrow> (int \<times> gerr option \<times> 'io bufr) exec" where
  "r_Discard rd b0 n =
     (if n < 0 then Ret (0, Some ErrNegativeCount, b0)
      else if n = 0 then Ret (0, None, b0)
      else exec_bind
        (exec_loop (\<lambda>(b, remain, stop). \<not> stop) (r_Discard_step rd) (b0, nat n, False))
        (\<lambda>(b, remain, _).
           if remain = 0 then Ret (n, None, b)
           else let (err, b') = r_readErr b in Ret (n - int remain, err, b')))"

text \<open>\<open>Read\<close> into a slice \<open>p\<close>: its new contents, the count and the error.\<close>

definition r_Read ::
    "'io rd_fun \<Rightarrow> 'io bufr \<Rightarrow> byte list \<Rightarrow> (byte list \<times> int \<times> gerr option \<times> 'io bufr) exec" where
  "r_Read rd b p =
     (if p = [] then (let (err, b') = r_readErr b in Ret (p, 0, err, b'))
      else if r_r b = r_w b then
        (if r_err b \<noteq> None then (let (err, b') = r_readErr b in Ret (p, 0, err, b'))
         else if length (r_buf b) \<le> length p then
           exec_bind (rd (r_rd b) p) (\<lambda>(p', n, err, io').
             if n < 0 then Panic ''bufio: reader returned negative count from Read''
             else let (e, b') = r_readErr (b\<lparr>r_err := err, r_rd := io'\<rparr>) in Ret (p', n, e, b'))
         else exec_bind (r_fill rd b) (\<lambda>b1.
           if r_r b1 = r_w b1 then (let (err, b') = r_readErr b1 in Ret (p, 0, err, b'))
           else let n = min (length p) (r_w b1 - r_r b1)
                in Ret (overwrite 0 (sub_slice (r_r b1) (r_w b1) (r_buf b1)) p, int n, None,
                        b1\<lparr>r_r := r_r b1 + n\<rparr>)))
      else let n = min (length p) (r_w b - r_r b)
           in Ret (overwrite 0 (sub_slice (r_r b) (r_w b) (r_buf b)) p, int n, None,
                   b\<lparr>r_r := r_r b + n\<rparr>))"

definition r_ReadByte :: "'io rd_fun \<Rightarrow> 'io bufr \<Rightarrow> ((gerr + byte) \<times> 'io bufr) exec" where
  "r_ReadByte rd b0 =
     exec_bind (exec_loop (\<lambda>b. r_r b = r_w b \<and> r_err b = None) (r_fill rd) b0) (\<lambda>b.
       if r_r b = r_w b
       then (case r_readErr b of
               (Some e, b') \<Rightarrow> Ret (Inl e, b')
             | (None, b') \<Rightarrow> Spin)
       else Ret (Inr (r_buf b ! r_r b), b\<lparr>r_r := r_r b + 1\<rparr>))"

text \<open>The first index of a byte, as \<open>bytes.IndexByte\<close> gives it.\<close>

fun IndexByte :: "byte list \<Rightarrow> byte \<Rightarrow> nat option" where
  "IndexByte [] c = None"
| "IndexByte (x # xs) c = (if x = c then Some 0 else map_option Suc (IndexByte xs c))"

definition r_ReadSlice_step ::
    "'io rd_fun \<Rightarrow> byte \<Rightarrow> 'io bufr \<times> (byte list \<times> gerr option) option
       \<Rightarrow> ('io bufr \<times> (byte list \<times> gerr option) option) exec" where
  "r_ReadSlice_step rd delim = (\<lambda>(b, _).
     case IndexByte (sub_slice (r_r b) (r_w b) (r_buf b)) delim of
       Some i \<Rightarrow>
         Ret (b\<lparr>r_r := r_r b + i + 1\<rparr>,
              Some (sub_slice (r_r b) (r_r b + i + 1) (r_buf b), None))
     | None \<Rightarrow>
         if r_err b \<noteq> None then
           let line = sub_slice (r_r b) (r_w b) (r_buf b);
               (err, b') = r_readErr (b\<lparr>r_r := r_w b\<rparr>)
           in Ret (b', Some (line, err))
         else if length (r_buf b) \<le> r_Buffered b then
           Ret (b\<lparr>r_r := r_w b\<rparr>, Some (r_buf b, Some ErrBufferFull))
         else exec_bind (r_fill rd b) (\<lambda>b'. Ret (b', None)))"

definition r_ReadSlice ::
    "'io rd_fun \<Rightarrow> 'io bufr \<Rightarrow> byte \<Rightarrow> (byte list \<times> gerr option \<times> 'io bufr) exec" where
  "r_ReadSlice rd b0 delim =
     exec_bind (exec_loop (\<lambda>(b, res). res = None) (r_ReadSlice_step rd delim) (b0, None))
       (\<lambda>(b, res). case res of Some (line, err) \<Rightarrow> Ret (line, err, b) | None \<Rightarrow> Spin)"

definition r_ReadLine ::
    "'io rd_fun \<Rightarrow> 'io bufr \<Rightarrow> (byte list \<times> bool \<times> gerr option \<times> 'io bufr) exec" where
  "r_ReadLine rd b0 =
     exec_bind (r_ReadSlice rd b0 10) (\<lambda>(line, err, b).
       if err = Some ErrBufferFull then
         (if line \<noteq> [] \<and> last line = 13 then
            (if r_r b = 0 then Panic ''bufio: tried to rewind past start of buffer''
             else Ret (butlast line, True, None, b\<lparr>r_r := r_r b - 1\<rparr>))
          else Ret (line, True, None, b))
       else if line = [] then Ret ([], False, err, b)
       else if last line = 10 then
         (let drop' = (if 1 < length line \<and> line ! (length line - 2) = 13 then 2 else 1)
          in Ret (take (length line - drop') line, False, None, b))
       else Ret (line, False, None, b))"

section \<open>Well-formedness and the pending stream\<close>

definition r_window :: "'io bufr \<Rightarrow> byte list" where
  "r_window b = sub_slice (r_r b) (r_w b) (r_buf b)"

definition r_ok :: "'io bufr \<Rightarrow> bool" where
  "r_ok b \<longleftrightarrow> r_r b \<le> r_w b \<and> r_w b \<le> length (r_buf b)"

lemma r_ok_reset [simp]: "r_ok (r_reset buf tail rd0)"
  by (simp add: r_ok_def r_reset_def)

lemma length_window: "r_ok b \<Longrightarrow> length (r_window b) = r_w b - r_r b"
  by (simp add: r_ok_def r_window_def)

lemma window_take:
  "r_ok b \<Longrightarrow> n \<le> r_w b - r_r b \<Longrightarrow> sub_slice (r_r b) (r_r b + n) (r_buf b) = take n (r_window b)"
  by (simp add: r_ok_def r_window_def sub_slice_def min_def)

lemma window_advance:
  "r_ok b \<Longrightarrow> n \<le> r_w b - r_r b \<Longrightarrow>
     r_ok (b\<lparr>r_r := r_r b + n\<rparr>) \<and> r_window (b\<lparr>r_r := r_r b + n\<rparr>) = drop n (r_window b)"
  by (auto simp: r_ok_def r_window_def sub_slice_def drop_take add.commute)

section \<open>The reader over any \<open>io.Reader\<close>\<close>

text \<open>
  \<open>grown\<close> relates a reader to a later state in which it has only read ahead: the same
  bytes are pending, and what was buffered is still the front of what is buffered.
\<close>

locale buffered_reader = io_reader
begin

definition pending :: "'a bufr \<Rightarrow> byte list" where
  "pending b = r_window b @ stream (r_rd b)"

definition rd_ok :: "'a bufr \<Rightarrow> bool" where
  "rd_ok b \<longleftrightarrow> r_ok b \<and> io_inv (r_rd b)"

definition same_buf :: "'a bufr \<Rightarrow> 'a bufr \<Rightarrow> bool" where
  "same_buf b b' \<longleftrightarrow> rd_ok b' \<and> length (r_buf b') = length (r_buf b) \<and> r_tail b' = r_tail b"

definition grown :: "'a bufr \<Rightarrow> 'a bufr \<Rightarrow> bool" where
  "grown b b' \<longleftrightarrow> same_buf b b' \<and> pending b' = pending b \<and> (\<exists>more. r_window b' = r_window b @ more)"

lemma grown_refl: "rd_ok b \<Longrightarrow> grown b b"
  by (simp add: grown_def same_buf_def)

lemma grown_trans: "grown a b \<Longrightarrow> grown b c \<Longrightarrow> grown a c"
  by (auto simp: grown_def same_buf_def)

lemma grown_ok: "grown b b' \<Longrightarrow> rd_ok b'"
  by (simp add: grown_def same_buf_def)

lemma grown_Buffered:
  assumes "rd_ok b" "grown b b'" shows "r_w b - r_r b \<le> r_w b' - r_r b'"
proof -
  obtain more where more: "r_window b' = r_window b @ more"
    using assms(2) by (auto simp: grown_def)
  have "r_ok b" "r_ok b'" using assms by (auto simp: grown_def same_buf_def rd_ok_def)
  with length_window [of b] length_window [of b'] more show ?thesis by simp
qed

lemma grown_readErr: "grown b b' \<Longrightarrow> grown b (b'\<lparr>r_err := e\<rparr>)"
  by (simp add: grown_def same_buf_def pending_def rd_ok_def r_ok_def r_window_def)

lemma rd_ok_upd_err [simp]: "rd_ok (b\<lparr>r_err := e\<rparr>) \<longleftrightarrow> rd_ok b"
  by (simp add: rd_ok_def r_ok_def)

lemma pending_upd_err [simp]: "pending (b\<lparr>r_err := e\<rparr>) = pending b"
  by (simp add: pending_def r_window_def)

text \<open>One read of the underlying reader into the free part of the buffer.\<close>

lemma fill_read:
  assumes "rd_ok b" "rd (r_rd b) (drop (r_w b) (r_buf b)) = Ret (p, n, e, io')"
    and "io_inv io'" "length p = length (drop (r_w b) (r_buf b))"
    and "0 \<le> n" "n \<le> int (length (drop (r_w b) (r_buf b)))"
    and "stream (r_rd b) = take (nat n) p @ stream io'"
  shows "grown b (b\<lparr>r_buf := take (r_w b) (r_buf b) @ p, r_w := r_w b + nat n, r_rd := io', r_err := e'\<rparr>)"
proof -
  have le: "r_r b \<le> r_w b" "r_w b \<le> length (r_buf b)"
    using assms(1) by (auto simp: rd_ok_def r_ok_def)
  have "sub_slice (r_r b) (r_w b + nat n) (take (r_w b) (r_buf b) @ p)
      = sub_slice (r_r b) (r_w b) (r_buf b) @ take (nat n) p"
    using le sub_slice_split [of "r_r b" "r_w b" "r_w b + nat n" "take (r_w b) (r_buf b) @ p"]
    by (simp add: sub_slice_def drop_take)
  then show ?thesis
    using assms le
    by (auto simp: grown_def same_buf_def rd_ok_def r_ok_def pending_def r_window_def)
qed

lemma fill_tries_spec:
  assumes "rd_ok b" "r_err b = None"
  shows "\<exists>b'. r_fill_tries rd i b = Ret b' \<and> grown b b' \<and> r_r b' = r_r b
    \<and> (r_err b' = None \<longrightarrow> r_w b < r_w b')"
  using assms
proof (induction i arbitrary: b)
  case 0
  then show ?case using grown_readErr [OF grown_refl [OF 0(1)]] by simp
next
  case (Suc i)
  let ?q = "drop (r_w b) (r_buf b)"
  have inv: "io_inv (r_rd b)" using Suc.prems by (simp add: rd_ok_def)
  obtain p n e io' where run: "rd (r_rd b) ?q = Ret (p, n, e, io')"
    and sp: "io_inv io'" "length p = length ?q" "0 \<le> n" "n \<le> int (length ?q)"
      "stream (r_rd b) = take (nat n) p @ stream io'"
    using rd_contract [OF inv, of ?q] by blast
  let ?b1 = "b\<lparr>r_buf := take (r_w b) (r_buf b) @ p, r_w := r_w b + nat n, r_rd := io'\<rparr>"
  have g: "grown b (?b1\<lparr>r_err := e'\<rparr>)" for e'
    using fill_read [OF Suc.prems(1) run sp] by simp
  have g1: "grown b ?b1" using g [of "r_err ?b1"] by simp
  show ?case
  proof (cases "e = None \<and> n = 0")
    case True
    then have "rd_ok ?b1" "r_err ?b1 = None" using grown_ok [OF g1] Suc.prems by auto
    from Suc.IH [OF this] obtain b' where
      "r_fill_tries rd i ?b1 = Ret b' \<and> grown ?b1 b' \<and> r_r b' = r_r ?b1
        \<and> (r_err b' = None \<longrightarrow> r_w ?b1 < r_w b')" ..
    with True run grown_trans [OF g1, of b'] show ?thesis by auto
  next
    case False
    with run sp(3) g g1 Suc.prems(2) show ?thesis by (cases e) auto
  qed
qed

lemma shift_grown:
  assumes "rd_ok b"
  shows "grown b (b\<lparr>r_buf := overwrite 0 (sub_slice (r_r b) (r_w b) (r_buf b)) (r_buf b),
                    r_w := r_w b - r_r b, r_r := 0\<rparr>)"
proof -
  have "length (sub_slice (r_r b) (r_w b) (r_buf b)) \<le> length (r_buf b)"
    using assms by (auto simp: rd_ok_def r_ok_def)
  moreover have "length (sub_slice (r_r b) (r_w b) (r_buf b)) = r_w b - r_r b"
    using assms by (auto simp: rd_ok_def r_ok_def)
  ultimately show ?thesis
    using assms take_overwrite_all [of 0 "sub_slice (r_r b) (r_w b) (r_buf b)" "r_buf b"]
    by (auto simp: grown_def same_buf_def rd_ok_def r_ok_def pending_def r_window_def sub_slice_0)
qed

lemma fill_spec:
  assumes "rd_ok b" "r_err b = None" "r_w b - r_r b < length (r_buf b)"
  shows "\<exists>b'. r_fill rd b = Ret b' \<and> grown b b' \<and> r_r b' = 0
    \<and> (r_err b' = None \<longrightarrow> r_w b - r_r b < r_w b' - r_r b')"
proof -
  define b1 where "b1 = (if 0 < r_r b
      then b\<lparr>r_buf := overwrite 0 (sub_slice (r_r b) (r_w b) (r_buf b)) (r_buf b),
             r_w := r_w b - r_r b, r_r := 0\<rparr> else b)"
  have g: "grown b b1"
    using shift_grown [OF assms(1)] grown_refl [OF assms(1)] by (simp add: b1_def)
  have b1: "r_err b1 = None" "r_w b1 = r_w b - r_r b" "r_r b1 = 0" "length (r_buf b1) = length (r_buf b)"
    using assms g by (auto simp: b1_def grown_def same_buf_def)
  obtain b' where b': "r_fill_tries rd maxConsecutiveEmptyReads b1 = Ret b' \<and> grown b1 b'
      \<and> r_r b' = r_r b1 \<and> (r_err b' = None \<longrightarrow> r_w b1 < r_w b')"
    using fill_tries_spec [OF grown_ok [OF g] b1(1)] ..
  have run: "r_fill rd b = r_fill_tries rd maxConsecutiveEmptyReads b1"
    unfolding r_fill_def b1_def [symmetric] Let_def using b1 assms(3) by simp
  have gb: "grown b b'" by (rule grown_trans [OF g conjunct1 [OF conjunct2 [OF b']]])
  have "r_r b' = 0" "r_err b' = None \<longrightarrow> r_w b - r_r b < r_w b' - r_r b'"
    using b' b1(2,3) by simp_all
  with gb b' run show ?thesis by (intro exI [of _ b']) simp
qed

lemma fill_until:
  assumes "rd_ok b" and short: "\<And>c. rd_ok c \<Longrightarrow> length (r_buf c) = length (r_buf b) \<Longrightarrow> P c
      \<Longrightarrow> r_w c - r_r c < length (r_buf c)"
  shows "\<exists>b'. exec_loop (\<lambda>c. P c \<and> r_err c = None) (r_fill rd) b = Ret b' \<and> grown b b'
    \<and> \<not> (P b' \<and> r_err b' = None)"
proof -
  have "\<exists>u. exec_loop (\<lambda>c. P c \<and> r_err c = None) (r_fill rd) b = Ret u
      \<and> grown b u \<and> \<not> (P u \<and> r_err u = None)"
  proof (rule exec_loop_total [where I = "grown b"
        and f = "\<lambda>c. 2 * (length (r_buf b) - (r_w c - r_r c)) + (if r_err c = None then 1 else 0)"])
    fix c assume c: "grown b c" "P c \<and> r_err c = None"
    have ok: "rd_ok c" and len: "length (r_buf c) = length (r_buf b)"
      using c(1) by (auto simp: grown_def same_buf_def)
    have sh: "r_w c - r_r c < length (r_buf c)" using short ok len c(2) by blast
    obtain u where u: "r_fill rd c = Ret u \<and> grown c u \<and> r_r u = 0
        \<and> (r_err u = None \<longrightarrow> r_w c - r_r c < r_w u - r_r u)"
      using fill_spec [OF ok conjunct2 [OF c(2)] sh] ..
    have "r_w c - r_r c \<le> r_w u - r_r u" using grown_Buffered [OF ok] u by blast
    with u c sh len grown_trans [OF c(1), of u]
    show "\<exists>u. r_fill rd c = Ret u \<and> grown b u
        \<and> 2 * (length (r_buf b) - (r_w u - r_r u)) + (if r_err u = None then 1 else 0)
        < 2 * (length (r_buf b) - (r_w c - r_r c)) + (if r_err c = None then 1 else 0)"
      by (intro exI [of _ u]) auto
  qed (rule grown_refl [OF assms(1)])
  then show ?thesis .
qed

lemma Peek_spec:
  assumes "rd_ok b" "0 \<le> n" "n \<le> int (length (r_buf b))"
  shows "\<exists>d e b'. r_Peek rd b n = Ret (d, e, b') \<and> grown b b'
    \<and> (case e of None \<Rightarrow> d = take (nat n) (pending b) \<and> length d = nat n \<and> nat n \<le> r_w b' - r_r b'
       | Some _ \<Rightarrow> d = r_window b' \<and> length d < nat n)"
proof -
  obtain c where c: "exec_loop (\<lambda>b. r_w b - r_r b < nat n \<and> r_err b = None) (r_fill rd) b = Ret c
      \<and> grown b c \<and> \<not> (r_w c - r_r c < nat n \<and> r_err c = None)"
    using fill_until [OF assms(1), of "\<lambda>b. r_w b - r_r b < nat n"] assms by force
  have ok: "r_ok c" and pc: "pending c = pending b"
    using c by (auto simp: grown_def same_buf_def rd_ok_def)
  show ?thesis
  proof (cases "r_w c - r_r c < nat n")
    case True
    with c obtain e where e: "r_err c = Some e" by auto
    have "r_r c + (r_w c - r_r c) = r_w c" using ok by (simp add: r_ok_def)
    then show ?thesis
      using True c e assms ok grown_readErr [of b c None] length_window [OF ok]
      by (simp add: r_Peek_def r_readErr_def Let_def r_window_def)
  next
    case False
    then have "sub_slice (r_r c) (r_r c + nat n) (r_buf c) = take (nat n) (r_window c)"
      using window_take [OF ok] by simp
    moreover have "take (nat n) (pending c) = take (nat n) (r_window c)"
      using False length_window [OF ok] by (simp add: pending_def)
    ultimately show ?thesis
      using False c assms ok pc length_window [OF ok]
      by (simp add: r_Peek_def Let_def)
  qed
qed

text \<open>\<open>consumed\<close>: the first \<open>k\<close> pending bytes have been taken off.\<close>

definition consumed :: "nat \<Rightarrow> 'a bufr \<Rightarrow> 'a bufr \<Rightarrow> bool" where
  "consumed k b b' \<longleftrightarrow> same_buf b b' \<and> k \<le> length (pending b) \<and> pending b' = drop k (pending b)"

lemma consumed_0: "grown b b' \<Longrightarrow> consumed 0 b b'"
  by (simp add: grown_def consumed_def)

lemma consumed_advance:
  assumes "rd_ok b" "k \<le> r_w b - r_r b"
  shows "consumed k b (b\<lparr>r_r := r_r b + k\<rparr>)"
  using assms window_advance [of b k] length_window [of b]
  by (auto simp: consumed_def same_buf_def rd_ok_def pending_def)

lemma consumed_trans:
  "consumed k a b \<Longrightarrow> consumed l b c \<Longrightarrow> consumed (k + l) a c"
  by (auto simp: consumed_def same_buf_def add.commute)

lemma consumed_ok: "consumed k b b' \<Longrightarrow> rd_ok b'"
  by (simp add: consumed_def same_buf_def)

lemma grown_consumed: "grown a b \<Longrightarrow> consumed k b c \<Longrightarrow> consumed k a c"
  using consumed_trans [OF consumed_0, of a b k c] by simp

lemma Pop_spec:
  assumes "rd_ok b" "0 \<le> n" "n \<le> int (length (r_buf b))"
  shows "\<exists>r b'. r_Pop rd b n = Ret (r, b')
    \<and> (case r of Inr d \<Rightarrow> d = take (nat n) (pending b) \<and> consumed (nat n) b b'
       | Inl _ \<Rightarrow> grown b b')"
proof -
  obtain d e c where c: "r_Peek rd b n = Ret (d, e, c)" "grown b c"
    "(case e of None \<Rightarrow> d = take (nat n) (pending b) \<and> length d = nat n \<and> nat n \<le> r_w c - r_r c
       | Some _ \<Rightarrow> d = r_window c \<and> length d < nat n)"
    using Peek_spec [OF assms] by blast
  have "e = None \<Longrightarrow> consumed (nat n) b (c\<lparr>r_r := r_r c + nat n\<rparr>)"
    using c grown_consumed [OF c(2)] consumed_advance [OF grown_ok [OF c(2)], of "nat n"] by simp
  with c show ?thesis by (cases e) (auto simp: r_Pop_def)
qed

lemma Pop_nat:
  assumes "rd_ok b" "k \<le> length (r_buf b)"
  obtains r b' where "r_Pop rd b (int k) = Ret (r, b')"
    "case r of Inr d \<Rightarrow> d = take k (pending b) \<and> consumed k b b' | Inl _ \<Rightarrow> grown b b'"
proof -
  have "0 \<le> int k" "int k \<le> int (length (r_buf b))" using assms(2) by simp_all
  from Pop_spec [OF assms(1) this] show ?thesis
    unfolding nat_int by (elim exE conjE) (rule that)
qed

lemma Pop_out_of_range:
  "n < 0 \<Longrightarrow> r_Pop rd b n = Ret (Inl ErrNegativeCount, b)"
  "int (length (r_buf b)) < n \<Longrightarrow> r_Pop rd b n = Ret (Inl ErrBufferFull, b)"
  by (auto simp: r_Pop_def r_Peek_def)

lemma hd_window:
  assumes "rd_ok b" "r_r b \<noteq> r_w b"
  shows "pending b \<noteq> [] \<and> hd (pending b) = r_buf b ! r_r b"
proof -
  have le: "r_r b < r_w b" "r_w b \<le> length (r_buf b)"
    using assms by (auto simp: rd_ok_def r_ok_def)
  then have "r_window b = r_buf b ! r_r b # sub_slice (Suc (r_r b)) (r_w b) (r_buf b)"
    by (simp add: r_window_def sub_slice_def take_Cons' flip: Cons_nth_drop_Suc)
  then show ?thesis by (simp add: pending_def)
qed

lemma ReadByte_spec:
  assumes "rd_ok b" "0 < length (r_buf b)"
  shows "\<exists>r b'. r_ReadByte rd b = Ret (r, b')
    \<and> (case r of Inr x \<Rightarrow> consumed 1 b b' \<and> pending b = x # pending b'
       | Inl _ \<Rightarrow> grown b b' \<and> r_window b' = [])"
proof -
  obtain c where c: "exec_loop (\<lambda>b. r_r b = r_w b \<and> r_err b = None) (r_fill rd) b = Ret c
      \<and> grown b c \<and> \<not> (r_r c = r_w c \<and> r_err c = None)"
    using fill_until [OF assms(1), of "\<lambda>b. r_r b = r_w b"] assms(2) by force
  note g = conjunct1 [OF conjunct2 [OF c]]
  have ok: "rd_ok c" by (rule grown_ok [OF g])
  show ?thesis
  proof (cases "r_r c = r_w c")
    case True
    with c obtain e where "r_err c = Some e" by auto
    with True c grown_readErr [OF g, of None] show ?thesis
      by (simp add: r_ReadByte_def r_readErr_def r_window_def)
  next
    case False
    let ?d = "c\<lparr>r_r := r_r c + 1\<rparr>"
    have le: "1 \<le> r_w c - r_r c" using False ok by (auto simp: rd_ok_def r_ok_def)
    have k: "consumed 1 b ?d" by (rule grown_consumed [OF g consumed_advance [OF ok le]])
    have "pending c = pending b" using g by (simp add: grown_def)
    then have "pending b = r_buf c ! r_r c # pending ?d"
      using hd_window [OF ok False] k by (cases "pending b") (auto simp: consumed_def)
    with False c k show ?thesis by (simp add: r_ReadByte_def)
  qed
qed

lemma ReadByte_stuck:
  assumes "length (r_buf b) = 0" "rd_ok b" "r_err b = None"
  shows "r_ReadByte rd b = Panic ''bufio: tried to fill full buffer''"
proof -
  have "r_r b = 0" "r_w b = 0" using assms by (auto simp: rd_ok_def r_ok_def)
  with assms show ?thesis
    by (subst r_ReadByte_def, subst exec_loop_unfold) (simp add: r_fill_def)
qed

text \<open>Discarding: every turn takes bytes off, or ends the loop.\<close>

lemma Discard_step_spec:
  assumes "rd_ok b" "0 < length (r_buf b)" "r_err b = None \<or> r_w b \<noteq> r_r b" "0 < m"
  shows "\<exists>b' m' stop. r_Discard_step rd (b, m, st) = Ret (b', m', stop) \<and> m' \<le> m
    \<and> consumed (m - m') b b' \<and> (stop \<longleftrightarrow> m' = 0 \<or> r_err b' \<noteq> None) \<and> (m' = m \<longrightarrow> stop)"
proof -
  obtain c where c: "(if r_Buffered b = 0 then r_fill rd b else Ret b) = Ret c" "grown b c"
    "r_Buffered c = 0 \<longrightarrow> r_err c \<noteq> None"
  proof (cases "r_Buffered b = 0")
    case True
    then have e: "r_err b = None"
      using assms by (auto simp: r_Buffered_def rd_ok_def r_ok_def)
    have "r_w b - r_r b < length (r_buf b)" using True assms by (simp add: r_Buffered_def)
    from fill_spec [OF assms(1) e this] obtain u where u: "r_fill rd b = Ret u \<and> grown b u
        \<and> r_r u = 0 \<and> (r_err u = None \<longrightarrow> r_w b - r_r b < r_w u - r_r u)" ..
    with True show ?thesis by (intro that [of u]) (auto simp: r_Buffered_def)
  next
    case False
    with grown_refl [OF assms(1)] show ?thesis by (intro that [of b]) auto
  qed
  let ?k = "min (r_Buffered c) m"
  have k: "consumed ?k b (c\<lparr>r_r := r_r c + ?k\<rparr>)"
    by (rule grown_consumed [OF c(2) consumed_advance [OF grown_ok [OF c(2)]]])
      (simp add: r_Buffered_def)
  have "m - (m - ?k) = ?k" by simp
  with c k assms(4) show ?thesis
    by (auto simp: r_Discard_step_def Let_def)
qed

lemma Discard_spec:
  assumes "rd_ok b" "0 < length (r_buf b)" "r_err b = None \<or> r_w b \<noteq> r_r b" "0 \<le> n"
  shows "\<exists>k e b'. r_Discard rd b n = Ret (int k, e, b') \<and> consumed k b b'
    \<and> (e = None \<longrightarrow> int k = n) \<and> int k \<le> n"
proof (cases "n = 0")
  case True
  then show ?thesis
    using consumed_0 [OF grown_refl [OF assms(1)]]
    by (intro exI [of _ 0] exI [of _ None] exI [of _ b]) (simp add: r_Discard_def)
next
  case False
  let ?I = "\<lambda>(c, m, stop). m \<le> nat n \<and> consumed (nat n - m) b c
      \<and> (stop \<longleftrightarrow> m = 0 \<or> r_err c \<noteq> None \<and> m \<noteq> nat n \<or> stop)
      \<and> (\<not> stop \<longrightarrow> 0 < m \<and> (r_err c = None \<or> r_w c \<noteq> r_r c)) \<and> (stop \<longrightarrow> m = 0 \<or> r_err c \<noteq> None)"
  have "\<exists>u. exec_loop (\<lambda>(b, remain, stop). \<not> stop) (r_Discard_step rd) (b, nat n, False) = Ret u
      \<and> ?I u \<and> \<not> (\<lambda>(b, remain, stop). \<not> stop) u"
  proof (rule exec_loop_total [where f = "\<lambda>(c, m, stop). m + (if stop then 0 else 1)"], goal_cases)
    case 1
    then show ?case
      using consumed_0 [OF grown_refl [OF assms(1)]] assms False by auto
  next
    case (2 t)
    obtain c m st where t: "t = (c, m, st)" by (cases t) auto
    from 2 t have st: "\<not> st" and m: "0 < m" "m \<le> nat n" and ce: "r_err c = None \<or> r_w c \<noteq> r_r c"
      and kc: "consumed (nat n - m) b c" by auto
    have len: "0 < length (r_buf c)" using kc assms(2) by (simp add: consumed_def same_buf_def)
    obtain d m' stop where d: "r_Discard_step rd (c, m, st) = Ret (d, m', stop)" "m' \<le> m"
      "consumed (m - m') c d" "stop \<longleftrightarrow> m' = 0 \<or> r_err d \<noteq> None" "m' = m \<longrightarrow> stop"
      using Discard_step_spec [OF consumed_ok [OF kc] len ce m(1)] by blast
    have "consumed (nat n - m') b d"
      using consumed_trans [OF kc d(3)] d(2) m(2) by simp
    with d m st show ?case unfolding t by auto
  qed
  then obtain c m stop where loop:
    "exec_loop (\<lambda>(b, remain, stop). \<not> stop) (r_Discard_step rd) (b, nat n, False) = Ret (c, m, stop)"
    and post: "m \<le> nat n" "consumed (nat n - m) b c" "m = 0 \<or> r_err c \<noteq> None"
    by auto
  show ?thesis
  proof (cases "m = 0")
    case True
    with loop post False assms(4) show ?thesis
      by (intro exI [of _ "nat n"] exI [of _ None] exI [of _ c]) (simp add: r_Discard_def)
  next
    case mn: False
    have "consumed (nat n - m) b (c\<lparr>r_err := None\<rparr>)"
      using post(2) by (simp add: consumed_def same_buf_def)
    with mn loop post False assms(4) show ?thesis
      by (intro exI [of _ "nat n - m"] exI [of _ "r_err c"] exI [of _ "c\<lparr>r_err := None\<rparr>"])
        (auto simp: r_Discard_def r_readErr_def)
  qed
qed

text \<open>\<open>Read\<close>: the copy out of a non-empty window.\<close>

lemma copy_out:
  assumes "rd_ok b" "r_r b \<noteq> r_w b" and n: "n = min (length p) (r_w b - r_r b)"
  shows "length (overwrite 0 (sub_slice (r_r b) (r_w b) (r_buf b)) p) = length p"
    and "consumed n b (b\<lparr>r_r := r_r b + n\<rparr>)"
    and "pending b = take n (overwrite 0 (sub_slice (r_r b) (r_w b) (r_buf b)) p)
           @ pending (b\<lparr>r_r := r_r b + n\<rparr>)"
proof -
  let ?w = "sub_slice (r_r b) (r_w b) (r_buf b)"
  have len: "length ?w = r_w b - r_r b"
    using assms(1) by (auto simp: rd_ok_def r_ok_def)
  show "length (overwrite 0 ?w p) = length p" by simp
  show k: "consumed n b (b\<lparr>r_r := r_r b + n\<rparr>)"
    by (rule consumed_advance [OF assms(1)]) (simp add: n)
  have "take n (overwrite 0 ?w p) = take n (r_window b)"
    using len n by (simp add: overwrite_def r_window_def)
  moreover have "take n (r_window b) = take n (pending b)"
    using len n by (simp add: pending_def r_window_def)
  ultimately show "pending b = take n (overwrite 0 ?w p) @ pending (b\<lparr>r_r := r_r b + n\<rparr>)"
    using k by (simp add: consumed_def)
qed

definition read_post :: "'a bufr \<Rightarrow> byte list \<Rightarrow> (byte list \<times> int \<times> gerr option \<times> 'a bufr) exec \<Rightarrow> bool" where
  "read_post b p res \<longleftrightarrow> (\<exists>p' n e b'. res = Ret (p', n, e, b') \<and> length p' = length p \<and> 0 \<le> n
     \<and> n \<le> int (length p) \<and> same_buf b b' \<and> pending b = take (nat n) p' @ pending b')"

lemma read_post_err: "grown b c \<Longrightarrow> read_post b p (let (err, b') = r_readErr c in Ret (p, 0, err, b'))"
  using grown_readErr [of b c None]
  by (auto simp: read_post_def r_readErr_def grown_def)

lemma read_post_copy:
  assumes "rd_ok b" "r_r b \<noteq> r_w b"
  shows "read_post b p (let n = min (length p) (r_w b - r_r b)
           in Ret (overwrite 0 (sub_slice (r_r b) (r_w b) (r_buf b)) p, int n, None,
                   b\<lparr>r_r := r_r b + n\<rparr>))"
  using copy_out [OF assms refl, of p] by (auto simp: read_post_def Let_def consumed_def)

lemma read_post_grown: "grown b c \<Longrightarrow> read_post c p res \<Longrightarrow> read_post b p res"
  by (fastforce simp: read_post_def grown_def same_buf_def)

lemma Read_spec:
  assumes "rd_ok b" "0 < length (r_buf b)"
  shows "read_post b p (r_Read rd b p)"
proof -
  consider "p = [] \<or> r_r b = r_w b \<and> r_err b \<noteq> None"
    | "p \<noteq> []" "r_r b = r_w b" "r_err b = None" "length (r_buf b) \<le> length p"
    | "p \<noteq> []" "r_r b = r_w b" "r_err b = None" "length p < length (r_buf b)"
    | "p \<noteq> []" "r_r b \<noteq> r_w b"
    by linarith
  then show ?thesis
  proof cases
    case 1
    then have "r_Read rd b p = (let (err, b') = r_readErr b in Ret (p, 0, err, b'))"
      by (auto simp: r_Read_def)
    then show ?thesis by (simp only: read_post_err [OF grown_refl [OF assms(1)]])
  next
    case 2
    have "io_inv (r_rd b)" using assms(1) by (simp add: rd_ok_def)
    from rd_contract [OF this, of p] obtain p' n e io' where "rd (r_rd b) p = Ret (p', n, e, io')"
      "io_inv io'" "length p' = length p" "0 \<le> n" "n \<le> int (length p)"
      "stream (r_rd b) = take (nat n) p' @ stream io'" by blast
    with 2 assms(1) show ?thesis
      by (simp add: r_Read_def read_post_def r_readErr_def same_buf_def rd_ok_def r_ok_def
          pending_def r_window_def)
  next
    case 3
    then have "r_w b - r_r b < length (r_buf b)" using assms by simp
    from fill_spec [OF assms(1) 3(3) this] obtain c where c: "r_fill rd b = Ret c \<and> grown b c
        \<and> r_r c = 0 \<and> (r_err c = None \<longrightarrow> r_w b - r_r b < r_w c - r_r c)" ..
    note g = conjunct1 [OF conjunct2 [OF c]]
    have run: "r_Read rd b p = (if r_r c = r_w c
        then (let (err, b') = r_readErr c in Ret (p, 0, err, b'))
        else let n = min (length p) (r_w c - r_r c)
             in Ret (overwrite 0 (sub_slice (r_r c) (r_w c) (r_buf c)) p, int n, None,
                     c\<lparr>r_r := r_r c + n\<rparr>))"
      using 3 c unfolding r_Read_def by simp
    show ?thesis
      unfolding run
      using read_post_err [OF g] read_post_grown [OF g read_post_copy [OF grown_ok [OF g]]] by simp
  next
    case 4
    then have "r_Read rd b p = (let n = min (length p) (r_w b - r_r b)
           in Ret (overwrite 0 (sub_slice (r_r b) (r_w b) (r_buf b)) p, int n, None,
                   b\<lparr>r_r := r_r b + n\<rparr>))"
      by (simp add: r_Read_def)
    then show ?thesis by (simp only: read_post_copy [OF assms(1) 4(2)])
  qed
qed

lemma ReadSlice_step_grow:
  assumes "rd_ok b" "0 < length (r_buf b)"
  shows "\<exists>b' res k. r_ReadSlice_step rd delim (b, r0) = Ret (b', res) \<and> consumed k b b'
    \<and> (case res of
         None \<Rightarrow> k = 0 \<and> grown b b' \<and> (r_err b' = None \<longrightarrow> r_Buffered b < r_Buffered b') \<and> r_err b = None
       | Some (line, err) \<Rightarrow> line = take k (pending b) \<and> length line = k
           \<and> (err = None \<longrightarrow> line \<noteq> [] \<and> last line = delim))"
proof -
  have idx: "IndexByte xs d = Some i \<Longrightarrow> i < length xs \<and> xs ! i = d" for xs d i
    by (induction xs arbitrary: i) (auto split: if_splits)
  have ok: "r_ok b" and le: "r_r b \<le> r_w b" "r_w b \<le> length (r_buf b)"
    using assms(1) by (auto simp: rd_ok_def r_ok_def)
  have lenw: "length (r_window b) = r_w b - r_r b" by (rule length_window [OF ok])
  have all: "consumed (r_w b - r_r b) b (b\<lparr>r_r := r_w b\<rparr>)"
    using consumed_advance [OF assms(1), of "r_w b - r_r b"] le by simp
  have pend: "k \<le> r_w b - r_r b \<Longrightarrow> take k (pending b) = take k (r_window b)" for k
    using lenw by (simp add: pending_def)
  show ?thesis
  proof (cases "IndexByte (r_window b) delim")
    case (Some i)
    have i: "i < r_w b - r_r b" "r_window b ! i = delim" using idx [OF Some] lenw by auto
    have line: "sub_slice (r_r b) (r_r b + i + 1) (r_buf b) = take (i + 1) (pending b)"
      using window_take [OF ok, of "i + 1"] pend [of "i + 1"] i by simp
    have "last (take (i + 1) (pending b)) = delim"
      using i lenw pend [of "i + 1"] by (simp add: take_Suc_conv_app_nth)
    with Some i line lenw show ?thesis
      using consumed_advance [OF assms(1), of "i + 1"] pend [of "i + 1"]
      by (intro exI [of _ "b\<lparr>r_r := r_r b + i + 1\<rparr>"] exI [of _ "i + 1"])
        (auto simp: r_ReadSlice_step_def r_window_def [symmetric] simp flip: length_greater_0_conv)
  next
    case None
    consider e where "r_err b = Some e"
      | "r_err b = None" "length (r_buf b) \<le> r_Buffered b"
      | "r_err b = None" "r_w b - r_r b < length (r_buf b)"
      unfolding r_Buffered_def by (cases "r_err b") (metis not_le, simp)
    then show ?thesis
    proof cases
      case 1
      with None lenw pend [of "r_w b - r_r b"] all show ?thesis
        by (intro exI [of _ "b\<lparr>r_r := r_w b, r_err := None\<rparr>"] exI [of _ "r_w b - r_r b"])
          (simp add: r_ReadSlice_step_def r_readErr_def r_window_def [symmetric] consumed_def same_buf_def)
    next
      case 2
      then have "r_r b = 0" "r_w b = length (r_buf b)" using le by (auto simp: r_Buffered_def)
      with 2 None lenw pend [of "r_w b - r_r b"] all show ?thesis
        by (intro exI [of _ "b\<lparr>r_r := r_w b\<rparr>"] exI [of _ "r_w b - r_r b"])
          (simp add: r_ReadSlice_step_def r_window_def sub_slice_0)
    next
      case 3
      from fill_spec [OF assms(1) 3] obtain c where c: "r_fill rd b = Ret c \<and> grown b c
        \<and> r_r c = 0 \<and> (r_err c = None \<longrightarrow> r_w b - r_r b < r_w c - r_r c)" ..
      with 3 None consumed_0 [of b c] show ?thesis
        by (intro exI [of _ c] exI [of _ 0])
          (auto simp add: r_ReadSlice_step_def r_window_def [symmetric] r_Buffered_def)
    qed
  qed
qed

lemma ReadSlice_spec:
  assumes "rd_ok b" "0 < length (r_buf b)"
  shows "\<exists>line err b'. r_ReadSlice rd b delim = Ret (line, err, b') \<and> consumed (length line) b b'
    \<and> line = take (length line) (pending b) \<and> (err = None \<longrightarrow> line \<noteq> [] \<and> last line = delim)"
proof -
  let ?P = "\<lambda>c line err. consumed (length line) b c \<and> line = take (length line) (pending b)
    \<and> (err = None \<longrightarrow> line \<noteq> [] \<and> last line = delim)"
  let ?I = "\<lambda>(c, res). case res of None \<Rightarrow> grown b c | Some (line, err) \<Rightarrow> ?P c line err"
  let ?f = "\<lambda>(c, res). 3 * (length (r_buf b) - r_Buffered c) + (if r_err c = None then 1 else 0)
    + (if res = None then 3 * length (r_buf b) + 3 else 0)"
  have "\<exists>u. exec_loop (\<lambda>(b, res). res = None) (r_ReadSlice_step rd delim) (b, None) = Ret u
      \<and> ?I u \<and> \<not> (\<lambda>(b, res). res = None) u"
  proof (rule exec_loop_total [where f = ?f], goal_cases)
    case 1
    then show ?case using grown_refl [OF assms(1)] by simp
  next
    case (2 t)
    then obtain c where t: "t = (c, None)" and g: "grown b c" by (cases t) auto
    have len: "length (r_buf c) = length (r_buf b)" using g by (simp add: grown_def same_buf_def)
    have pc: "pending c = pending b" using g by (simp add: grown_def)
    have "0 < length (r_buf c)" using len assms(2) by simp
    note step = ReadSlice_step_grow [OF grown_ok [OF g] this, of delim None]
    obtain d res k where d: "r_ReadSlice_step rd delim (c, None) = Ret (d, res)" "consumed k c d"
      and post: "(case res of
         None \<Rightarrow> k = 0 \<and> grown c d \<and> (r_err d = None \<longrightarrow> r_Buffered c < r_Buffered d) \<and> r_err c = None
       | Some (line, err) \<Rightarrow> line = take k (pending c) \<and> length line = k
           \<and> (err = None \<longrightarrow> line \<noteq> [] \<and> last line = delim))"
      using step by (elim exE conjE) (rule that)
    have kb: "consumed k b d" by (rule grown_consumed [OF g d(2)])
    show ?case
    proof (cases res)
      case None
      with post have n: "grown c d" "r_err d = None \<longrightarrow> r_Buffered c < r_Buffered d" "r_err c = None"
        by auto
      have "r_Buffered c \<le> r_Buffered d"
        using grown_Buffered [OF grown_ok [OF g] n(1)] by (simp add: r_Buffered_def)
      moreover have "r_Buffered d \<le> length (r_buf b)"
        using grown_ok [OF n(1)] n(1) len
        by (auto simp: r_Buffered_def rd_ok_def r_ok_def grown_def same_buf_def)
      ultimately show ?thesis
        using d n None grown_trans [OF g n(1)] unfolding t by auto
    next
      case (Some le)
      obtain line err where "le = (line, err)" by (cases le)
      with Some post d kb pc show ?thesis
        unfolding t by (auto simp: r_Buffered_def)
    qed
  qed
  then obtain u where u:
    "exec_loop (\<lambda>(b, res). res = None) (r_ReadSlice_step rd delim) (b, None) = Ret u
      \<and> ?I u \<and> \<not> (\<lambda>(b, res). res = None) u" ..
  obtain c line err where c: "u = (c, Some (line, err))" using u by (cases u) auto
  have "r_ReadSlice rd b delim = Ret (line, err, c)"
    unfolding r_ReadSlice_def conjunct1 [OF u] by (simp add: c)
  with u c show ?thesis by simp
qed

end

text \<open>A buffered reader is itself an \<open>io.Reader\<close> that delivers the pending bytes.\<close>

sublocale buffered_reader \<subseteq> as_reader: io_reader "r_Read rd" pending
    "\<lambda>b. rd_ok b \<and> 0 < length (r_buf b)"
proof
  fix b p
  assume "rd_ok b \<and> 0 < length (r_buf b)"
  then have "read_post b p (r_Read rd b p)" "0 < length (r_buf b)"
    using Read_spec by blast+
  then show "\<exists>p' n e b'. r_Read rd b p = Ret (p', n, e, b') \<and> (rd_ok b' \<and> 0 < length (r_buf b'))
      \<and> length p' = length p \<and> 0 \<le> n \<and> n \<le> int (length p) \<and> pending b = take (nat n) p' @ pending b'"
    by (fastforce simp: read_post_def same_buf_def)
qed

section \<open>Over a reader that makes progress\<close>

text \<open>
  Over a live reader a pending error means that nothing more will come, so an operation that
  asks for bytes that are there gets them.
\<close>

locale live_buffered_reader = live_reader

sublocale live_buffered_reader \<subseteq> buffered_reader by unfold_locales

context live_buffered_reader
begin

definition live_ok :: "'a bufr \<Rightarrow> bool" where
  "live_ok b \<longleftrightarrow> rd_ok b \<and> (r_err b \<noteq> None \<longrightarrow> stream (r_rd b) = [])"

lemma grown_stream_Nil: "grown b b' \<Longrightarrow> stream (r_rd b) = [] \<Longrightarrow> stream (r_rd b') = []"
  by (auto simp: grown_def pending_def)

lemma fill_tries_live:
  assumes "rd_ok b" "r_w b < length (r_buf b)" "stream (r_rd b) \<noteq> []"
    "r_fill_tries rd (Suc i) b = Ret b'" "r_err b = None"
  shows "r_err b' = None"
proof -
  let ?q = "drop (r_w b) (r_buf b)"
  have inv: "io_inv (r_rd b)" using assms by (simp add: rd_ok_def)
  obtain p n e io' where run: "rd (r_rd b) ?q = Ret (p, n, e, io')"
    using rd_contract [OF inv, of ?q] by blast
  moreover have "0 < n \<and> e = None"
    by (rule rd_live [OF inv _ assms(3) run]) (use assms(2) in simp)
  ultimately show ?thesis using assms(4,5) by auto
qed

lemma fill_live:
  assumes "live_ok b" "r_err b = None" "r_w b - r_r b < length (r_buf b)" "r_fill rd b = Ret b'"
  shows "live_ok b'"
proof -
  have ok: "rd_ok b" using assms(1) by (simp add: live_ok_def)
  have g: "grown b b'" using fill_spec [OF ok assms(2,3)] assms(4) by auto
  show ?thesis
  proof (cases "stream (r_rd b) = []")
    case True
    with grown_ok [OF g] grown_stream_Nil [OF g] show ?thesis by (simp add: live_ok_def)
  next
    case False
    define b1 where "b1 = (if 0 < r_r b
        then b\<lparr>r_buf := overwrite 0 (sub_slice (r_r b) (r_w b) (r_buf b)) (r_buf b),
               r_w := r_w b - r_r b, r_r := 0\<rparr> else b)"
    have ok1: "rd_ok b1"
      using grown_ok [OF shift_grown [OF ok]] ok by (simp add: b1_def)
    have b1: "r_w b1 < length (r_buf b1)" "stream (r_rd b1) \<noteq> []" "r_err b1 = None"
      using assms(2,3) False ok by (auto simp: b1_def rd_ok_def r_ok_def)
    have "r_fill_tries rd (Suc 99) b1 = Ret b'"
      using assms(4) b1(1) unfolding r_fill_def b1_def [symmetric] Let_def
      by (simp add: maxConsecutiveEmptyReads_def eval_nat_numeral del: r_fill_tries.simps)
    then have "r_err b' = None" by (rule fill_tries_live [OF ok1 b1(1,2) _ b1(3)])
    with grown_ok [OF g] show ?thesis by (simp add: live_ok_def)
  qed
qed

lemma fill_until_live:
  assumes "live_ok b"
    and short: "\<And>c. rd_ok c \<Longrightarrow> length (r_buf c) = length (r_buf b) \<Longrightarrow> P c
      \<Longrightarrow> r_w c - r_r c < length (r_buf c)"
  shows "\<exists>c. exec_loop (\<lambda>c. P c \<and> r_err c = None) (r_fill rd) b = Ret c \<and> grown b c
    \<and> live_ok c \<and> (P c \<longrightarrow> pending b = r_window c)"
proof -
  have ok: "rd_ok b" using assms(1) by (simp add: live_ok_def)
  have "\<exists>c. exec_loop (\<lambda>c. P c \<and> r_err c = None) (r_fill rd) b = Ret c \<and> grown b c
      \<and> \<not> (P c \<and> r_err c = None)"
    by (rule fill_until [OF ok]) (rule short)
  then obtain c where c: "exec_loop (\<lambda>c. P c \<and> r_err c = None) (r_fill rd) b = Ret c" "grown b c"
    "\<not> (P c \<and> r_err c = None)" by blast
  have "live_ok c \<and> length (r_buf c) = length (r_buf b)"
  proof (rule exec_loop_inv [OF c(1)])
    show "live_ok b \<and> length (r_buf b) = length (r_buf b)" using assms(1) by simp
    fix t t'
    assume t: "live_ok t \<and> length (r_buf t) = length (r_buf b)" "P t \<and> r_err t = None"
      "r_fill rd t = Ret t'"
    then have okt: "rd_ok t" by (simp add: live_ok_def)
    have sp: "r_w t - r_r t < length (r_buf t)" using short [OF okt] t by simp
    have "grown t t'" using fill_spec [OF okt conjunct2 [OF t(2)] sp] t(3) by auto
    with fill_live [OF conjunct1 [OF t(1)] conjunct2 [OF t(2)] sp t(3)] t(1)
    show "live_ok t' \<and> length (r_buf t') = length (r_buf b)"
      by (simp add: grown_def same_buf_def)
  qed
  then have lc: "live_ok c" ..
  have "P c \<longrightarrow> pending b = r_window c"
  proof
    assume "P c"
    with c(3) lc have "stream (r_rd c) = []" by (simp add: live_ok_def)
    then have "pending c = r_window c" by (simp add: pending_def)
    with c(2) show "pending b = r_window c" by (simp add: grown_def)
  qed
  with c lc show ?thesis by blast
qed

lemma Peek_live:
  assumes "live_ok b" "0 \<le> n" "n \<le> int (length (r_buf b))" "nat n \<le> length (pending b)"
  shows "\<exists>b'. r_Peek rd b n = Ret (take (nat n) (pending b), None, b') \<and> grown b b' \<and> live_ok b'
    \<and> nat n \<le> r_w b' - r_r b'"
proof -
  have "\<exists>c. exec_loop (\<lambda>b. r_w b - r_r b < nat n \<and> r_err b = None) (r_fill rd) b = Ret c \<and> grown b c
      \<and> live_ok c \<and> (r_w c - r_r c < nat n \<longrightarrow> pending b = r_window c)"
    by (rule fill_until_live [OF assms(1)]) (use assms(2,3) in auto)
  then obtain c where c: "exec_loop (\<lambda>b. r_w b - r_r b < nat n \<and> r_err b = None) (r_fill rd) b = Ret c"
    "grown b c" "live_ok c" "r_w c - r_r c < nat n \<longrightarrow> pending b = r_window c" by blast
  have okc: "r_ok c" and pc: "pending c = pending b"
    using c by (auto simp: grown_def same_buf_def rd_ok_def)
  have enough: "\<not> r_w c - r_r c < nat n"
    using c(4) assms(4) length_window [OF okc] by auto
  then have "sub_slice (r_r c) (r_r c + nat n) (r_buf c) = take (nat n) (r_window c)"
    using window_take [OF okc] by simp
  moreover have "take (nat n) (pending c) = take (nat n) (r_window c)"
    using enough length_window [OF okc] by (simp add: pending_def)
  ultimately show ?thesis
    using c assms(2,3) enough pc by (simp add: r_Peek_def Let_def)
qed

lemma ReadByte_live:
  assumes "live_ok b" "pending b = x # rest" "0 < length (r_buf b)"
  shows "\<exists>b'. r_ReadByte rd b = Ret (Inr x, b') \<and> live_ok b' \<and> consumed 1 b b'"
proof -
  have "\<exists>c. exec_loop (\<lambda>b. r_r b = r_w b \<and> r_err b = None) (r_fill rd) b = Ret c \<and> grown b c
      \<and> live_ok c \<and> (r_r c = r_w c \<longrightarrow> pending b = r_window c)"
    by (rule fill_until_live [OF assms(1)]) (use assms(3) in auto)
  then obtain c where c: "exec_loop (\<lambda>b. r_r b = r_w b \<and> r_err b = None) (r_fill rd) b = Ret c"
    "grown b c" "live_ok c" "r_r c = r_w c \<longrightarrow> pending b = r_window c" by blast
  have ok: "rd_ok c" and pc: "pending c = pending b"
    using c by (auto simp: grown_def same_buf_def)
  have ne: "r_r c \<noteq> r_w c"
    using c(4) assms(2) by (auto simp: r_window_def)
  then have le: "1 \<le> r_w c - r_r c" using ok by (auto simp: rd_ok_def r_ok_def)
  let ?d = "c\<lparr>r_r := r_r c + 1\<rparr>"
  have k: "consumed 1 b ?d" by (rule grown_consumed [OF c(2) consumed_advance [OF ok le]])
  have "r_buf c ! r_r c = x" using hd_window [OF ok ne] pc assms(2) by simp
  moreover have "live_ok ?d" using consumed_ok [OF k] c(3) by (simp add: live_ok_def)
  ultimately show ?thesis using c(1) ne k by (simp add: r_ReadByte_def)
qed

lemma Pop_live:
  assumes "live_ok b" "0 \<le> n" "n \<le> int (length (r_buf b))" "nat n \<le> length (pending b)"
  shows "\<exists>b'. r_Pop rd b n = Ret (Inr (take (nat n) (pending b)), b') \<and> live_ok b'
    \<and> consumed (nat n) b b' \<and> nat n \<le> r_r b'"
proof -
  obtain c where c: "r_Peek rd b n = Ret (take (nat n) (pending b), None, c) \<and> grown b c
      \<and> live_ok c \<and> nat n \<le> r_w c - r_r c"
    using Peek_live [OF assms] ..
  then have g: "grown b c" and le: "nat n \<le> r_w c - r_r c" and lc: "live_ok c" by auto
  let ?d = "c\<lparr>r_r := r_r c + nat n\<rparr>"
  have k: "consumed (nat n) b ?d"
    by (rule grown_consumed [OF g consumed_advance [OF grown_ok [OF g] le]])
  moreover have "live_ok ?d" using consumed_ok [OF k] lc by (simp add: live_ok_def)
  ultimately show ?thesis using c by (simp add: r_Pop_def)
qed

lemma live_ok_reset: "io_inv io \<Longrightarrow> live_ok (r_reset buf tail io)"
  by (simp add: live_ok_def rd_ok_def r_reset_def r_ok_def)

lemma pending_reset: "pending (r_reset buf tail io) = stream io"
  by (simp add: pending_def r_reset_def r_window_def)

end

section \<open>The reader of a TCP connection\<close>

interpretation tcp_br: live_buffered_reader tcp_read tcp_stream tcp_ok
  by unfold_locales

end
