(* ===== verification/Byte_Writer.thy ===== *)
theory Byte_Writer
  imports Endian
begin

text \<open>
  The growing buffer of \<open>pkg/bytes/writer.go\<close> and the buffer pool of \<open>pkg/bytes/buffer.go\<close>.

  \<open>Peek\<close> hands the caller a slice of the writer's own buffer, which the caller then fills:
  the model returns the offset of that region, and \<open>poke\<close> stores into it. The pool hands
  out references to buffers; the model keeps the buffers in a store, with the free list as a
  chain of references through it, as the code does.
\<close>

section \<open>Writer\<close>

record bwriter =
  bw_n :: nat
  bw_buf :: "byte list"

definition NewWriterSize :: "nat \<Rightarrow> bwriter" where
  "NewWriterSize n = \<lparr>bw_n = 0, bw_buf = replicate n 0\<rparr>"

definition bw_Len :: "bwriter \<Rightarrow> nat" where
  "bw_Len w = bw_n w"

definition bw_Size :: "bwriter \<Rightarrow> nat" where
  "bw_Size w = length (bw_buf w)"

definition bw_Reset :: "bwriter \<Rightarrow> bwriter" where
  "bw_Reset w = w\<lparr>bw_n := 0\<rparr>"

definition bw_Buffer :: "bwriter \<Rightarrow> byte list" where
  "bw_Buffer w = take (bw_n w) (bw_buf w)"

definition bw_grow :: "bwriter \<Rightarrow> nat \<Rightarrow> bwriter" where
  "bw_grow w n =
     (if bw_n w + n < length (bw_buf w) then w
      else w\<lparr>bw_buf := overwrite 0 (take (bw_n w) (bw_buf w))
                        (replicate (2 * length (bw_buf w) + n) 0)\<rparr>)"

definition bw_Peek :: "bwriter \<Rightarrow> nat \<Rightarrow> nat \<times> bwriter" where
  "bw_Peek w n =
     (let w1 = bw_grow w n in (bw_n w1, w1\<lparr>bw_n := bw_n w1 + n\<rparr>))"

definition bw_Write :: "bwriter \<Rightarrow> byte list \<Rightarrow> bwriter" where
  "bw_Write w p =
     (let w1 = bw_grow w (length p)
      in w1\<lparr>bw_buf := overwrite (bw_n w1) p (bw_buf w1),
            bw_n := bw_n w1 + min (length (bw_buf w1) - bw_n w1) (length p)\<rparr>)"

text \<open>Filling a region that \<open>Peek\<close> returned.\<close>

definition bw_poke :: "bwriter \<Rightarrow> nat \<Rightarrow> byte list \<Rightarrow> bwriter" where
  "bw_poke w off data = w\<lparr>bw_buf := overwrite off data (bw_buf w)\<rparr>"

definition bw_region :: "bwriter \<Rightarrow> nat \<Rightarrow> nat \<Rightarrow> byte list" where
  "bw_region w off n = sub_slice off (off + n) (bw_buf w)"

definition bw_ok :: "bwriter \<Rightarrow> bool" where
  "bw_ok w \<longleftrightarrow> bw_n w \<le> length (bw_buf w)"

lemma bw_ok_New [simp]: "bw_ok (NewWriterSize n)"
  by (simp add: bw_ok_def NewWriterSize_def)

lemma bw_Buffer_New [simp]: "bw_Buffer (NewWriterSize n) = []"
  by (simp add: bw_Buffer_def NewWriterSize_def)

lemma bw_ok_Reset [simp]: "bw_ok (bw_Reset w)"
  by (simp add: bw_ok_def bw_Reset_def)

lemma bw_grow_spec:
  assumes "bw_ok w"
  shows "bw_ok (bw_grow w n)" "bw_n (bw_grow w n) = bw_n w"
    "bw_Buffer (bw_grow w n) = bw_Buffer w"
    "bw_n w + n \<le> length (bw_buf (bw_grow w n))"
  using assms by (auto simp: bw_ok_def bw_grow_def bw_Buffer_def overwrite_def)

lemma bw_Write_spec:
  assumes "bw_ok w"
  shows "bw_ok (bw_Write w p)" "bw_Buffer (bw_Write w p) = bw_Buffer w @ p"
    "bw_Len (bw_Write w p) = bw_Len w + length p"
proof -
  let ?w = "bw_grow w (length p)"
  note g = bw_grow_spec [OF assms, of "length p"]
  have m: "min (length (bw_buf ?w) - bw_n ?w) (length p) = length p"
    using g(2,4) by auto
  have fits: "bw_n ?w + length p \<le> length (bw_buf ?w)" using g(2,4) by simp
  show "bw_ok (bw_Write w p)" using g(1) fits m by (simp add: bw_ok_def bw_Write_def Let_def)
  show "bw_Buffer (bw_Write w p) = bw_Buffer w @ p"
    using g(3) m take_overwrite_all [OF fits] by (simp add: bw_Buffer_def bw_Write_def Let_def)
  show "bw_Len (bw_Write w p) = bw_Len w + length p"
    using g(2) m by (simp add: bw_Len_def bw_Write_def Let_def)
qed

lemma bw_Peek_poke_spec:
  assumes "bw_ok w" "bw_Peek w n = (off, w')" "length data = n"
  shows "bw_ok w'" "length (bw_region w' off n) = n" "bw_ok (bw_poke w' off data)"
    "bw_Buffer (bw_poke w' off data) = bw_Buffer w @ data"
    "bw_Len (bw_poke w' off data) = bw_Len w + n"
proof -
  let ?w = "bw_grow w n"
  note g = bw_grow_spec [OF assms(1), of n]
  have w': "w' = ?w\<lparr>bw_n := bw_n w + n\<rparr>" "off = bw_n w"
    using assms(2) g(2) by (auto simp: bw_Peek_def Let_def)
  have fits: "bw_n w + length data \<le> length (bw_buf ?w)" using g(4) assms(3) by simp
  have keep: "take (bw_n w) (bw_buf ?w) = bw_Buffer w" using g(2,3) by (simp add: bw_Buffer_def)
  show "bw_ok w'" using g(4) w' by (simp add: bw_ok_def)
  show "length (bw_region w' off n) = n" using g(4) w' by (simp add: bw_region_def)
  show "bw_ok (bw_poke w' off data)" using g(4) w' by (simp add: bw_ok_def bw_poke_def)
  show "bw_Buffer (bw_poke w' off data) = bw_Buffer w @ data"
    using take_overwrite_all [OF fits] keep w' assms(3) by (simp add: bw_Buffer_def bw_poke_def)
  show "bw_Len (bw_poke w' off data) = bw_Len w + n"
    using w' by (simp add: bw_Len_def bw_poke_def)
qed

section \<open>Destinations of frames\<close>

text \<open>
  What writing a protocol frame needs of its destination: \<open>Peek\<close> reserves a region whose
  contents the caller replaces, \<open>Write\<close> appends, and both act on one logical output,
  \<open>s_out\<close>. An operation reports an error when it could not do all of its work; then
  the output has grown by a prefix of the data, or by nothing.
\<close>

type_synonym 's peek_fun = "'s \<Rightarrow> nat \<Rightarrow> ((gerr + nat) \<times> 's) exec"
type_synonym 's write_fun = "'s \<Rightarrow> byte list \<Rightarrow> (nat \<times> gerr option \<times> 's) exec"

locale frame_sink =
  fixes s_peek :: "'s peek_fun"
    and s_region :: "'s \<Rightarrow> nat \<Rightarrow> nat \<Rightarrow> byte list"
    and s_poke :: "'s \<Rightarrow> nat \<Rightarrow> byte list \<Rightarrow> 's"
    and s_write :: "'s write_fun"
    and s_out :: "'s \<Rightarrow> byte list"
    and s_ok :: "'s \<Rightarrow> bool"
  assumes peek_law: "s_ok s \<Longrightarrow> \<exists>r s'. s_peek s n = Ret (r, s') \<and> s_ok s'
      \<and> (case r of
           Inl e \<Rightarrow> s_out s' = s_out s
         | Inr off \<Rightarrow> length (s_region s' off n) = n \<and>
             (\<forall>data. length data = n \<longrightarrow>
                s_ok (s_poke s' off data) \<and> s_out (s_poke s' off data) = s_out s @ data))"
    and write_law: "s_ok s \<Longrightarrow> \<exists>k e s'. s_write s p = Ret (k, e, s') \<and> s_ok s' \<and> k \<le> length p
      \<and> s_out s' = s_out s @ take k p \<and> (e = None \<longrightarrow> k = length p)"

text \<open>The growing buffer never reports an error.\<close>

definition bw_peek_fun :: "bwriter peek_fun" where
  "bw_peek_fun w n = (let (off, w') = bw_Peek w n in Ret (Inr off, w'))"

definition bw_write_fun :: "bwriter write_fun" where
  "bw_write_fun w p = Ret (length p, None, bw_Write w p)"

interpretation bw: frame_sink bw_peek_fun bw_region bw_poke bw_write_fun bw_Buffer bw_ok
proof
  fix w :: bwriter and n :: nat and p :: "byte list"
  assume ok: "bw_ok w"
  obtain off w' where pk: "bw_Peek w n = (off, w')" by (cases "bw_Peek w n")
  note sp = bw_Peek_poke_spec [OF ok pk]
  have "length (replicate n (0::byte)) = n" by simp
  note len = sp(2) [OF this] and ok' = sp(1) [OF this]
  from pk len ok' sp(3,4) show "\<exists>r s'. bw_peek_fun w n = Ret (r, s') \<and> bw_ok s'
      \<and> (case r of
           Inl e \<Rightarrow> bw_Buffer s' = bw_Buffer w
         | Inr off \<Rightarrow> length (bw_region s' off n) = n \<and>
             (\<forall>data. length data = n \<longrightarrow>
                bw_ok (bw_poke s' off data) \<and> bw_Buffer (bw_poke s' off data) = bw_Buffer w @ data))"
    by (simp add: bw_peek_fun_def)
  show "\<exists>k e s'. bw_write_fun w p = Ret (k, e, s') \<and> bw_ok s' \<and> k \<le> length p
      \<and> bw_Buffer s' = bw_Buffer w @ take k p \<and> (e = None \<longrightarrow> k = length p)"
    using bw_Write_spec [OF ok, of p] by (simp add: bw_write_fun_def)
qed

end
