(* ===== verification/Buf_Writer.thy ===== *)
theory Buf_Writer
  imports Conn Byte_Writer
begin

text \<open>
  The buffered writer of \<open>pkg/bufio/bufio.go\<close>: its state (a sticky error, the buffer, the fill
  count, the underlying writer) and every operation on it, over any underlying \<open>io.Writer\<close>
  \<open>wr\<close>. The loops of \<open>Write\<close>, \<open>Peek\<close> and \<open>WriteString\<close> are kept as loops, so whether
  they end is a theorem and not an artefact of the model.

  The abstraction is the byte stream the writer has accepted, \<open>accepted\<close>: what the
  underlying writer was sent followed by what is buffered. Flushing never changes it and
  writing appends to it, errors and short writes included. The locale \<open>frame_sink\<close> states
  what the protocol layer needs of a destination, and both the writer over a TCP connection and
  the buffer of \<open>pkg/bytes\<close> provide it.
\<close>

section \<open>State\<close>

record 'io bufw =
  w_err :: "gerr option"
  w_buf :: "byte list"
  w_n :: nat
  w_wr :: 'io

definition defaultBufSize :: nat where
  "defaultBufSize = 4096"

text \<open>The case of an underlying writer that is no \<open>bufio.Writer\<close> itself.\<close>

definition bufio_NewWriterSize :: "'io \<Rightarrow> int \<Rightarrow> 'io bufw" where
  "bufio_NewWriterSize w sz =
     (let sz' = (if sz \<le> 0 then defaultBufSize else nat sz)
      in \<lparr>w_err = None, w_buf = replicate sz' 0, w_n = 0, w_wr = w\<rparr>)"

definition bufio_NewWriter :: "'io \<Rightarrow> 'io bufw" where
  "bufio_NewWriter w = bufio_NewWriterSize w (int defaultBufSize)"

definition w_Reset :: "'io bufw \<Rightarrow> 'io \<Rightarrow> 'io bufw" where
  "w_Reset b w = b\<lparr>w_err := None, w_n := 0, w_wr := w\<rparr>"

definition w_ResetBuffer :: "'io bufw \<Rightarrow> 'io \<Rightarrow> byte list \<Rightarrow> 'io bufw" where
  "w_ResetBuffer b w buf = b\<lparr>w_buf := buf, w_err := None, w_n := 0, w_wr := w\<rparr>"

definition w_Available :: "'io bufw \<Rightarrow> nat" where
  "w_Available b = length (w_buf b) - w_n b"

definition w_Buffered :: "'io bufw \<Rightarrow> nat" where
  "w_Buffered b = w_n b"

section \<open>Operations\<close>

definition w_flush :: "'io wr_fun \<Rightarrow> 'io bufw \<Rightarrow> (gerr option \<times> 'io bufw) exec" where
  "w_flush wr b =
     (case w_err b of
        Some e \<Rightarrow> Ret (Some e, b)
      | None \<Rightarrow>
          if w_n b = 0 then Ret (None, b)
          else exec_bind (wr (w_wr b) (take (w_n b) (w_buf b))) (\<lambda>(n, err0, io').
            let err = (if n < w_n b \<and> err0 = None then Some ErrShortWrite else err0)
            in case err of
                 Some e \<Rightarrow>
                   Ret (Some e,
                        b\<lparr>w_buf := (if 0 < n \<and> n < w_n b
                                     then overwrite 0 (sub_slice n (w_n b) (w_buf b)) (w_buf b)
                                     else w_buf b),
                          w_n := w_n b - n, w_err := Some e, w_wr := io'\<rparr>)
               | None \<Rightarrow> Ret (None, b\<lparr>w_n := 0, w_wr := io'\<rparr>)))"

definition w_Flush :: "'io wr_fun \<Rightarrow> 'io bufw \<Rightarrow> (gerr option \<times> 'io bufw) exec" where
  "w_Flush wr b = w_flush wr b"

text \<open>One turn of the loop of \<open>Write\<close>: the state is the writer, the count \<open>nn\<close> and the rest of \<open>p\<close>.\<close>

definition w_Write_step ::
    "'io wr_fun \<Rightarrow> 'io bufw \<times> nat \<times> byte list \<Rightarrow> ('io bufw \<times> nat \<times> byte list) exec" where
  "w_Write_step wr = (\<lambda>(b, nn, p).
     if w_Buffered b = 0
     then exec_bind (wr (w_wr b) p) (\<lambda>(n, err, io').
            Ret (b\<lparr>w_err := err, w_wr := io'\<rparr>, nn + n, drop n p))
     else let n = min (w_Available b) (length p);
              b1 = b\<lparr>w_buf := overwrite (w_n b) p (w_buf b), w_n := w_n b + n\<rparr>
          in exec_bind (w_flush wr b1) (\<lambda>(_, b2). Ret (b2, nn + n, drop n p)))"

definition w_Write ::
    "'io wr_fun \<Rightarrow> 'io bufw \<Rightarrow> byte list \<Rightarrow> (nat \<times> gerr option \<times> 'io bufw) exec" where
  "w_Write wr b0 p0 =
     exec_bind
       (exec_loop (\<lambda>(b, nn, p). w_Available b < length p \<and> w_err b = None)
          (w_Write_step wr) (b0, 0, p0))
       (\<lambda>(b, nn, p).
          case w_err b of
            Some e \<Rightarrow> Ret (nn, Some e, b)
          | None \<Rightarrow>
              let n = min (w_Available b) (length p)
              in Ret (nn + n, None,
                      b\<lparr>w_buf := overwrite (w_n b) p (w_buf b), w_n := w_n b + n\<rparr>))"

definition w_WriteRaw ::
    "'io wr_fun \<Rightarrow> 'io bufw \<Rightarrow> byte list \<Rightarrow> (nat \<times> gerr option \<times> 'io bufw) exec" where
  "w_WriteRaw wr b p =
     (case w_err b of
        Some e \<Rightarrow> Ret (0, Some e, b)
      | None \<Rightarrow>
          if w_Buffered b = 0
          then exec_bind (wr (w_wr b) p) (\<lambda>(nn, err, io').
                 Ret (nn, err, b\<lparr>w_err := err, w_wr := io'\<rparr>))
          else w_Write wr b p)"

text \<open>\<open>Peek\<close> returns a slice of the buffer, here the offset where it starts.\<close>

definition w_Peek :: "'io wr_fun \<Rightarrow> 'io bufw \<Rightarrow> int \<Rightarrow> ((gerr + nat) \<times> 'io bufw) exec" where
  "w_Peek wr b0 n =
     (if n < 0 then Ret (Inl ErrNegativeCount, b0)
      else if int (length (w_buf b0)) < n then Ret (Inl ErrBufferFull, b0)
      else exec_bind
        (exec_loop (\<lambda>b. w_Available b < nat n \<and> w_err b = None)
           (\<lambda>b. exec_bind (w_flush wr b) (\<lambda>(_, b'). Ret b')) b0)
        (\<lambda>b. case w_err b of
           Some e \<Rightarrow> Ret (Inl e, b)
         | None \<Rightarrow> Ret (Inr (w_n b), b\<lparr>w_n := w_n b + nat n\<rparr>)))"

definition w_poke :: "'io bufw \<Rightarrow> nat \<Rightarrow> byte list \<Rightarrow> 'io bufw" where
  "w_poke b off data = b\<lparr>w_buf := overwrite off data (w_buf b)\<rparr>"

definition w_WriteString ::
    "'io wr_fun \<Rightarrow> 'io bufw \<Rightarrow> byte list \<Rightarrow> (nat \<times> gerr option \<times> 'io bufw) exec" where
  "w_WriteString wr b0 s0 =
     exec_bind
       (exec_loop (\<lambda>(b, nn, s). w_Available b < length s \<and> w_err b = None)
          (\<lambda>(b, nn, s).
             let n = min (w_Available b) (length s);
                 b1 = b\<lparr>w_buf := overwrite (w_n b) s (w_buf b), w_n := w_n b + n\<rparr>
             in exec_bind (w_flush wr b1) (\<lambda>(_, b2). Ret (b2, nn + n, drop n s)))
          (b0, 0, s0))
       (\<lambda>(b, nn, s).
          case w_err b of
            Some e \<Rightarrow> Ret (nn, Some e, b)
          | None \<Rightarrow>
              let n = min (w_Available b) (length s)
              in Ret (nn + n, None,
                      b\<lparr>w_buf := overwrite (w_n b) s (w_buf b), w_n := w_n b + n\<rparr>))"

section \<open>Well-formedness and the accepted stream\<close>

definition w_ok :: "'io bufw \<Rightarrow> bool" where
  "w_ok b \<longleftrightarrow> w_n b \<le> length (w_buf b)"

definition buffered :: "'io bufw \<Rightarrow> byte list" where
  "buffered b = take (w_n b) (w_buf b)"

lemma w_ok_new [simp]: "w_ok (bufio_NewWriterSize w sz)"
  by (simp add: w_ok_def bufio_NewWriterSize_def Let_def)

lemma w_ok_ResetBuffer [simp]: "w_ok (w_ResetBuffer b w buf)"
  by (simp add: w_ok_def w_ResetBuffer_def)

text \<open>Copying into the free part of the buffer: the last step of \<open>Write\<close> and the body of its loop.\<close>

definition w_store :: "'io bufw \<Rightarrow> byte list \<Rightarrow> 'io bufw" where
  "w_store b p = b\<lparr>w_buf := overwrite (w_n b) p (w_buf b),
                     w_n := w_n b + min (w_Available b) (length p)\<rparr>"

lemma w_store_spec:
  assumes "w_ok b"
  shows "w_ok (w_store b p)" "w_err (w_store b p) = w_err b" "w_wr (w_store b p) = w_wr b"
    "length (w_buf (w_store b p)) = length (w_buf b)"
    "buffered (w_store b p) = buffered b @ take (w_Available b) p"
  using assms
  by (auto simp: w_ok_def w_store_def w_Available_def buffered_def overwrite_def min_def)

definition w_region :: "'io bufw \<Rightarrow> nat \<Rightarrow> nat \<Rightarrow> byte list" where
  "w_region b off n = sub_slice off (off + n) (w_buf b)"

text \<open>Filling the region that a successful \<open>Peek\<close> reserved.\<close>

lemma w_poke_spec:
  assumes "w_n b + length data \<le> length (w_buf b)"
  shows "w_ok (w_poke (b\<lparr>w_n := w_n b + length data\<rparr>) (w_n b) data)"
    "buffered (w_poke (b\<lparr>w_n := w_n b + length data\<rparr>) (w_n b) data) = buffered b @ data"
  using assms take_overwrite_all [OF assms]
  by (auto simp: w_ok_def w_poke_def buffered_def)

locale buffered_writer = io_writer +
  fixes accepted :: "'a bufw \<Rightarrow> byte list"
  assumes accepted_def: "accepted b = sent (w_wr b) @ buffered b"
begin

lemma accepted_store:
  "w_ok b \<Longrightarrow> accepted (w_store b p) = accepted b @ take (w_Available b) p"
  by (simp add: accepted_def w_store_spec)

lemma flush_spec:
  assumes "w_ok b"
  shows "\<exists>e b'. w_flush wr b = Ret (e, b') \<and> w_ok b' \<and> accepted b' = accepted b
    \<and> length (w_buf b') = length (w_buf b) \<and> w_err b' = e
    \<and> (e = None \<longrightarrow> w_n b' = 0 \<and> w_err b = None)"
proof (cases "w_err b")
  case (Some e)
  with assms show ?thesis by (simp add: w_flush_def)
next
  case None
  have L: "length (buffered b) = w_n b" using assms by (simp add: w_ok_def buffered_def)
  obtain n err io' where wr: "wr (w_wr b) (buffered b) = Ret (n, err, io')"
    and "n \<le> length (buffered b)" and "n < length (buffered b) \<longrightarrow> err \<noteq> None"
    and sent: "sent io' = sent (w_wr b) @ take n (buffered b)"
    using wr_contract [of "w_wr b" "buffered b"] by blast
  with L have n: "n \<le> w_n b" and short: "n < w_n b \<longrightarrow> err \<noteq> None" by auto
  have split: "buffered b = take n (buffered b) @ sub_slice n (w_n b) (w_buf b)"
    using n by (simp add: buffered_def sub_slice_def min_def) (metis append_take_drop_id
        drop_take take_take min.absorb1)
  have len: "length (sub_slice n (w_n b) (w_buf b)) = w_n b - n"
    using assms by (simp add: w_ok_def)
  show ?thesis
  proof (cases "w_n b = 0")
    case True
    with None assms show ?thesis by (simp add: w_flush_def)
  next
    case nz: False
    show ?thesis
    proof (cases err)
      case e: None
      with short n have "n = w_n b" by auto
      with None e nz wr sent show ?thesis
        by (simp add: w_flush_def w_ok_def accepted_def buffered_def)
    next
      case e: (Some e)
      let ?buf = "if 0 < n \<and> n < w_n b
        then overwrite 0 (sub_slice n (w_n b) (w_buf b)) (w_buf b) else w_buf b"
      have "take (w_n b - n) ?buf = sub_slice n (w_n b) (w_buf b)"
        using n len assms
        by (auto simp: overwrite_def w_ok_def sub_slice_def min_def)
      with None e nz wr sent split assms n show ?thesis
        by (auto simp: w_flush_def w_ok_def accepted_def buffered_def)
    qed
  qed
qed

text \<open>The loop of \<open>Write\<close> keeps the stream in step with what it has taken from \<open>p0\<close>.\<close>

definition write_inv :: "'a bufw \<Rightarrow> byte list \<Rightarrow> 'a bufw \<times> nat \<times> byte list \<Rightarrow> bool" where
  "write_inv b0 p0 = (\<lambda>(b, nn, p). w_ok b \<and> nn \<le> length p0 \<and> p = drop nn p0
     \<and> length (w_buf b) = length (w_buf b0) \<and> accepted b = accepted b0 @ take nn p0)"

lemma write_inv_grow:
  assumes "write_inv b0 p0 (b, nn, p)" "n \<le> length p" "w_ok b'"
    "length (w_buf b') = length (w_buf b)" "accepted b' = accepted b @ take n p"
  shows "write_inv b0 p0 (b', nn + n, drop n p)"
proof -
  have "take (nn + n) p0 = take nn p0 @ take n (drop nn p0)" by (rule take_add)
  moreover have "drop n (drop nn p0) = drop (nn + n) p0" by (simp add: add.commute)
  ultimately show ?thesis using assms by (auto simp: write_inv_def)
qed

lemma write_step_spec:
  assumes "write_inv b0 p0 (b, nn, p)" "w_Available b < length p" "w_err b = None"
  shows "\<exists>b' n. w_Write_step wr (b, nn, p) = Ret (b', nn + n, drop n p) \<and> n \<le> length p
    \<and> write_inv b0 p0 (b', nn + n, drop n p)
    \<and> (w_err b' = None \<longrightarrow> w_n b' = 0 \<and> (w_n b = 0 \<longrightarrow> n = length p))"
proof (cases "w_n b = 0")
  case True
  from wr_contract [of "w_wr b" p] obtain n err io' where
    wr: "wr (w_wr b) p = Ret (n, err, io')" and n: "n \<le> length p"
    and short: "n < length p \<longrightarrow> err \<noteq> None" and sent: "sent io' = sent (w_wr b) @ take n p"
    by auto
  let ?b = "b\<lparr>w_err := err, w_wr := io'\<rparr>"
  from assms(1) True sent have "write_inv b0 p0 (?b, nn + n, drop n p)"
    by (intro write_inv_grow [OF assms(1) n])
      (auto simp: write_inv_def w_ok_def accepted_def buffered_def)
  with True wr n short show ?thesis
    by (auto simp: w_Write_step_def w_Buffered_def)
next
  case False
  from assms have ok: "w_ok b" by (simp add: write_inv_def)
  let ?n = "w_Available b"
  from flush_spec [OF w_store_spec(1) [OF ok, of p]] obtain e b' where
    fl: "w_flush wr (w_store b p) = Ret (e, b')" and ok': "w_ok b'"
    and acc: "accepted b' = accepted (w_store b p)"
    and len: "length (w_buf b') = length (w_buf (w_store b p))" and err: "w_err b' = e"
    and none: "e = None \<longrightarrow> w_n b' = 0"
    by auto
  have "write_inv b0 p0 (b', nn + ?n, drop ?n p)"
    using assms(2) ok ok' acc len
    by (intro write_inv_grow [OF assms(1)]) (simp_all add: accepted_store w_store_spec)
  with False fl err none assms(2) show ?thesis
    by (auto simp: w_Write_step_def w_Buffered_def w_store_def Let_def)
qed

lemma Write_spec:
  assumes "w_ok b0"
  shows "\<exists>nn e b'. w_Write wr b0 p0 = Ret (nn, e, b') \<and> w_ok b' \<and> nn \<le> length p0
    \<and> accepted b' = accepted b0 @ take nn p0 \<and> length (w_buf b') = length (w_buf b0)
    \<and> w_err b' = e \<and> (e = None \<longrightarrow> nn = length p0)"
proof -
  let ?g = "\<lambda>(b, nn, p). w_Available b < length p \<and> w_err b = None"
  let ?f = "\<lambda>(b, nn, p). if w_err b \<noteq> None then 0
              else 1 + 2 * length p + (if w_n b = 0 then 0 else 1)"
  have "\<exists>u. exec_loop ?g (w_Write_step wr) (b0, 0, p0) = Ret u \<and> write_inv b0 p0 u \<and> \<not> ?g u"
  proof (rule exec_loop_total [where f = ?f])
    show "write_inv b0 p0 (b0, 0, p0)" using assms by (simp add: write_inv_def)
  next
    fix t assume inv: "write_inv b0 p0 t" and g: "?g t"
    obtain b nn p where t: "t = (b, nn, p)" by (cases t)
    with inv g have i: "write_inv b0 p0 (b, nn, p)" "w_Available b < length p" "w_err b = None"
      by auto
    from write_step_spec [OF i] obtain b' n where
      st: "w_Write_step wr (b, nn, p) = Ret (b', nn + n, drop n p)" "n \<le> length p"
        "write_inv b0 p0 (b', nn + n, drop n p)"
      and fin: "w_err b' = None \<longrightarrow> w_n b' = 0 \<and> (w_n b = 0 \<longrightarrow> n = length p)"
      by (elim exE conjE) (rule that)
    have "?f (b', nn + n, drop n p) < ?f (b, nn, p)"
      using i fin st(2) by auto
    with st t show "\<exists>u. w_Write_step wr t = Ret u \<and> write_inv b0 p0 u \<and> ?f u < ?f t"
      by blast
  qed
  then obtain b nn p where loop: "exec_loop ?g (w_Write_step wr) (b0, 0, p0) = Ret (b, nn, p)"
    and inv: "write_inv b0 p0 (b, nn, p)" and ng: "\<not> ?g (b, nn, p)"
    by auto
  show ?thesis
  proof (cases "w_err b")
    case (Some e)
    with loop inv show ?thesis by (auto simp: w_Write_def write_inv_def)
  next
    case None
    with ng have fit: "length p \<le> w_Available b" by simp
    from inv have ok: "w_ok b" by (simp add: write_inv_def)
    have "w_Write wr b0 p0 = Ret (nn + length p, None, w_store b p)"
      using loop None fit
      by (simp only: w_Write_def) (simp add: w_store_def Let_def min_absorb2)
    moreover have "accepted (w_store b p) = accepted b0 @ take (nn + length p) p0"
      using inv fit by (simp add: accepted_store write_inv_def)
    ultimately show ?thesis
      using inv ok None by (auto simp: w_store_spec write_inv_def)
  qed
qed

lemma WriteRaw_spec:
  assumes "w_ok b"
  shows "\<exists>nn e b'. w_WriteRaw wr b p = Ret (nn, e, b') \<and> w_ok b' \<and> nn \<le> length p
    \<and> accepted b' = accepted b @ take nn p \<and> length (w_buf b') = length (w_buf b)
    \<and> w_err b' = e \<and> (e = None \<longrightarrow> nn = length p)"
proof (cases "w_err b = None \<and> w_n b = 0")
  case True
  with wr_contract [of "w_wr b" p] assms show ?thesis
    by (fastforce simp: w_WriteRaw_def w_Buffered_def w_ok_def accepted_def buffered_def)
next
  case False
  with Write_spec [OF assms, of p] assms show ?thesis
    by (cases "w_err b") (auto simp: w_WriteRaw_def w_Buffered_def)
qed

lemma Peek_spec:
  assumes "w_ok b0" "0 \<le> n"
  shows "\<exists>r b'. w_Peek wr b0 n = Ret (r, b') \<and> w_ok b' \<and> length (w_buf b') = length (w_buf b0)
    \<and> (case r of
         Inl e \<Rightarrow> accepted b' = accepted b0
           \<and> (int (length (w_buf b0)) < n \<and> e = ErrBufferFull \<or> w_err b' = Some e)
       | Inr off \<Rightarrow> w_err b' = None \<and> w_err b0 = None \<and> length (w_region b' off (nat n)) = nat n \<and>
           (\<forall>data. length data = nat n \<longrightarrow>
              w_ok (w_poke b' off data) \<and> w_err (w_poke b' off data) = None
              \<and> length (w_buf (w_poke b' off data)) = length (w_buf b0)
              \<and> accepted (w_poke b' off data) = accepted b0 @ data))"
proof (cases "int (length (w_buf b0)) < n")
  case True
  with assms show ?thesis by (simp add: w_Peek_def)
next
  case False
  let ?g = "\<lambda>b. w_Available b < nat n \<and> w_err b = None"
  let ?body = "\<lambda>b. exec_bind (w_flush wr b) (\<lambda>(_, b'). Ret b')"
  let ?I = "\<lambda>b. w_ok b \<and> length (w_buf b) = length (w_buf b0) \<and> accepted b = accepted b0
    \<and> (w_err b = None \<longrightarrow> w_err b0 = None)"
  have "\<exists>u. exec_loop ?g ?body b0 = Ret u \<and> ?I u \<and> \<not> ?g u"
  proof (rule exec_loop_total [where f = "\<lambda>b. if w_err b \<noteq> None \<or> w_n b = 0 then 0 else 1"])
    fix t assume I: "?I t" and g: "?g t"
    then have "w_n t \<noteq> 0" using False assms(2) by (auto simp: w_Available_def)
    moreover from flush_spec [of t] I obtain e b' where "w_flush wr t = Ret (e, b')" "?I b'"
      "w_err b' = e" "e = None \<longrightarrow> w_n b' = 0"
      using g by auto
    ultimately show "\<exists>u. ?body t = Ret u \<and> ?I u
        \<and> (if w_err u \<noteq> None \<or> w_n u = 0 then 0 else 1)
          < (if w_err t \<noteq> None \<or> w_n t = 0 then 0 else (1::nat))"
      using g by auto
  qed (use assms in simp)
  then obtain b where run: "exec_loop ?g ?body b0 = Ret b \<and> ?I b \<and> \<not> ?g b" ..
  note loop = conjunct1 [OF run] and I = conjunct1 [OF conjunct2 [OF run]]
    and ng = conjunct2 [OF conjunct2 [OF run]]
  show ?thesis
  proof (cases "w_err b")
    case (Some e)
    with loop I False assms show ?thesis by (auto simp: w_Peek_def)
  next
    case None
    with ng I assms(2) have fit: "w_n b + nat n \<le> length (w_buf b)"
      by (auto simp: w_Available_def w_ok_def)
    have "w_Peek wr b0 n = Ret (Inr (w_n b), b\<lparr>w_n := w_n b + nat n\<rparr>)"
      using loop None False assms(2) by (simp add: w_Peek_def)
    moreover have "accepted (w_poke (b\<lparr>w_n := w_n b + nat n\<rparr>) (w_n b) data) = accepted b0 @ data"
      if "length data = nat n" for data
      using w_poke_spec(2) [of b data] fit that I by (simp add: accepted_def w_poke_def)
    moreover have "w_ok (b\<lparr>w_n := w_n b + nat n\<rparr>)" using fit by (simp add: w_ok_def)
    moreover have "w_ok (w_poke (b\<lparr>w_n := w_n b + nat n\<rparr>) (w_n b) data)"
      if "length data = nat n" for data
      using w_poke_spec(1) [of b data] fit that by simp
    moreover have "length (w_region (b\<lparr>w_n := w_n b + nat n\<rparr>) (w_n b) (nat n)) = nat n"
      using fit by (simp add: w_region_def)
    ultimately show ?thesis
      using I None fit by (simp add: w_poke_def)
  qed
qed

lemma sink_laws:
  "frame_sink (\<lambda>b n. w_Peek wr b (int n)) w_region w_poke (w_Write wr) accepted w_ok"
proof
  fix b :: "'a bufw" and n :: nat and p :: "byte list"
  assume ok: "w_ok b"
  from Peek_spec [OF ok, of "int n"] show "\<exists>r s'. w_Peek wr b (int n) = Ret (r, s') \<and> w_ok s'
      \<and> (case r of
           Inl e \<Rightarrow> accepted s' = accepted b
         | Inr off \<Rightarrow> length (w_region s' off n) = n \<and>
             (\<forall>data. length data = n \<longrightarrow>
                w_ok (w_poke s' off data) \<and> accepted (w_poke s' off data) = accepted b @ data))"
    by (fastforce split: sum.splits)
  from Write_spec [OF ok, of p] show "\<exists>k e s'. w_Write wr b p = Ret (k, e, s') \<and> w_ok s'
      \<and> k \<le> length p \<and> accepted s' = accepted b @ take k p \<and> (e = None \<longrightarrow> k = length p)"
    by fastforce
qed

text \<open>
  \<open>WriteString\<close> has no short cut past the buffer: with an empty buffer its loop copies nothing
  and flushes nothing, and never ends; with a buffer it behaves as \<open>Write\<close> does.
\<close>

lemma WriteString_spec:
  assumes "w_ok b0" "w_buf b0 \<noteq> []"
  shows "\<exists>nn e b'. w_WriteString wr b0 s0 = Ret (nn, e, b') \<and> w_ok b' \<and> nn \<le> length s0
    \<and> accepted b' = accepted b0 @ take nn s0 \<and> length (w_buf b') = length (w_buf b0)
    \<and> w_err b' = e \<and> (e = None \<longrightarrow> nn = length s0)"
proof -
  let ?g = "\<lambda>(b, nn, s). w_Available b < length s \<and> w_err b = None"
  let ?body = "\<lambda>(b, nn, s).
             let n = min (w_Available b) (length s);
                 b1 = b\<lparr>w_buf := overwrite (w_n b) s (w_buf b), w_n := w_n b + n\<rparr>
             in exec_bind (w_flush wr b1) (\<lambda>(_, b2). Ret (b2, nn + n, drop n s))"
  let ?f = "\<lambda>(b, nn, s). if w_err b \<noteq> None then 0
              else 1 + 2 * length s + (if w_Available b = 0 then 1 else 0)"
  have "\<exists>u. exec_loop ?g ?body (b0, 0, s0) = Ret u \<and> write_inv b0 s0 u \<and> \<not> ?g u"
  proof (rule exec_loop_total [where f = ?f])
    show "write_inv b0 s0 (b0, 0, s0)" using assms by (simp add: write_inv_def)
  next
    fix t assume inv: "write_inv b0 s0 t" and g: "?g t"
    obtain b nn s where t: "t = (b, nn, s)" by (cases t)
    with inv g have i: "write_inv b0 s0 (b, nn, s)" "w_Available b < length s" "w_err b = None"
      by auto
    then have ok: "w_ok b" and ne: "length (w_buf b) > 0" using assms(2) by (auto simp: write_inv_def)
    from flush_spec [OF w_store_spec(1) [OF ok, of s]] obtain e b' where
      fl: "w_flush wr (w_store b s) = Ret (e, b')" and ok': "w_ok b'"
      and acc: "accepted b' = accepted (w_store b s)"
      and len: "length (w_buf b') = length (w_buf (w_store b s))" and err: "w_err b' = e"
      and none: "e = None \<longrightarrow> w_n b' = 0"
      by auto
    let ?n = "w_Available b"
    have st: "?body t = Ret (b', nn + ?n, drop ?n s)"
      using fl t i(2) by (simp add: w_store_def Let_def min_absorb1)
    have "write_inv b0 s0 (b', nn + ?n, drop ?n s)"
      using i(2) ok ok' acc len
      by (intro write_inv_grow [OF i(1)]) (simp_all add: accepted_store w_store_spec)
    moreover have "?f (b', nn + ?n, drop ?n s) < ?f t"
      using i ne len err none t ok by (auto simp: w_Available_def w_store_spec)
    ultimately show "\<exists>u. ?body t = Ret u \<and> write_inv b0 s0 u \<and> ?f u < ?f t"
      using st by blast
  qed
  then obtain u where run: "exec_loop ?g ?body (b0, 0, s0) = Ret u \<and> write_inv b0 s0 u \<and> \<not> ?g u" ..
  obtain b nn s where u: "u = (b, nn, s)" by (cases u)
  note loop = conjunct1 [OF run, unfolded u] and inv = conjunct1 [OF conjunct2 [OF run], unfolded u]
    and ng = conjunct2 [OF conjunct2 [OF run], unfolded u]
  from inv have ok: "w_ok b" by (simp add: write_inv_def)
  show ?thesis
  proof (cases "w_err b")
    case (Some e)
    with loop inv show ?thesis by (auto simp: w_WriteString_def write_inv_def)
  next
    case None
    with ng have fit: "length s \<le> w_Available b" by simp
    have "w_WriteString wr b0 s0 = Ret (nn + length s, None, w_store b s)"
      using None fit
      by (simp only: w_WriteString_def loop) (simp add: w_store_def Let_def min_absorb2)
    moreover have "accepted (w_store b s) = accepted b0 @ take (nn + length s) s0"
      using inv fit by (simp add: accepted_store write_inv_def)
    ultimately show ?thesis
      using inv ok None by (auto simp: w_store_spec write_inv_def)
  qed
qed

lemma WriteString_no_buffer:
  assumes "w_buf b0 = []" "w_n b0 = 0" "w_err b0 = None" "s0 \<noteq> []"
  shows "w_WriteString wr b0 s0 = Spin"
proof -
  let ?I = "\<lambda>(b :: 'a bufw, nn :: nat, s :: byte list).
    w_buf b = [] \<and> w_n b = 0 \<and> w_err b = None \<and> s \<noteq> []"
  have "exec_loop (\<lambda>(b, nn, s). w_Available b < length s \<and> w_err b = None)
          (\<lambda>(b, nn, s).
             let n = min (w_Available b) (length s);
                 b1 = b\<lparr>w_buf := overwrite (w_n b) s (w_buf b), w_n := w_n b + n\<rparr>
             in exec_bind (w_flush wr b1) (\<lambda>(_, b2). Ret (b2, nn + n, drop n s)))
          (b0, 0, s0) = Spin"
    by (rule exec_loop_spin [where I = ?I])
      (use assms in \<open>auto simp: w_Available_def w_flush_def overwrite_def Let_def\<close>)
  then show ?thesis by (simp add: w_WriteString_def)
qed

end

sublocale buffered_writer \<subseteq> sink: frame_sink "\<lambda>b n. w_Peek wr b (int n)" w_region w_poke
    "w_Write wr" accepted w_ok
  by (rule sink_laws)

section \<open>Over a writer that takes everything\<close>

locale live_buffered_writer = buffered_writer + live_writer
begin

definition w_live :: "'a bufw \<Rightarrow> bool" where
  "w_live b \<longleftrightarrow> w_ok b \<and> w_err b = None \<and> healthy (w_wr b)"

lemma flush_live:
  assumes "w_live b" "w_flush wr b = Ret (e, b')"
  shows "w_live b' \<and> e = None"
proof -
  have ok: "w_ok b" and e0: "w_err b = None" and h: "healthy (w_wr b)"
    using assms(1) by (auto simp: w_live_def)
  obtain n e1 io' where wr: "wr (w_wr b) (take (w_n b) (w_buf b)) = Ret (n, e1, io')"
    and sp: "n < length (take (w_n b) (w_buf b)) \<longrightarrow> e1 \<noteq> None"
    using wr_contract [of "w_wr b" "take (w_n b) (w_buf b)"] by blast
  have l: "e1 = None \<and> healthy io'" by (rule wr_live [OF h wr])
  have "w_n b \<le> length (w_buf b)" using ok by (simp add: w_ok_def)
  with l sp wr ok e0 h assms(2) show ?thesis
    by (auto simp: w_flush_def w_live_def w_ok_def Let_def split: if_splits)
qed

lemma store_live: "w_live b \<Longrightarrow> w_live (w_store b p)"
  by (simp add: w_live_def w_store_spec)

lemma Write_step_live:
  assumes "w_live b" "w_Write_step wr (b, nn, p) = Ret (b', nn', p')"
  shows "w_live b'"
proof (cases "w_Buffered b = 0")
  case True
  obtain n e io' where wr: "wr (w_wr b) p = Ret (n, e, io')"
    using wr_contract [of "w_wr b" p] by blast
  have "healthy (w_wr b)" using assms(1) by (simp add: w_live_def)
  from wr_live [OF this wr] True wr assms show ?thesis
    by (auto simp: w_Write_step_def w_live_def w_ok_def)
next
  case False
  then have "exec_bind (w_flush wr (w_store b p))
      (\<lambda>(_, b2). Ret (b2, nn + min (w_Available b) (length p), drop (min (w_Available b) (length p)) p))
      = Ret (b', nn', p')"
    using assms(2) by (simp add: w_Write_step_def w_store_def Let_def)
  then obtain e where "w_flush wr (w_store b p) = Ret (e, b')"
    by (auto simp: exec_bind_eq_Ret_iff)
  from flush_live [OF store_live [OF assms(1)] this] show ?thesis ..
qed

lemma Write_live:
  assumes "w_live b"
  shows "\<exists>b'. w_Write wr b p = Ret (length p, None, b') \<and> w_live b'
    \<and> accepted b' = accepted b @ p \<and> length (w_buf b') = length (w_buf b)"
proof -
  have ok: "w_ok b" using assms by (simp add: w_live_def)
  obtain nn e b' where run: "w_Write wr b p = Ret (nn, e, b')" and sp: "w_ok b'"
    "accepted b' = accepted b @ take nn p" "length (w_buf b') = length (w_buf b)" "w_err b' = e"
    "e = None \<longrightarrow> nn = length p"
    using Write_spec [OF ok, of p] by (elim exE conjE) (rule that)
  let ?loop = "exec_loop (\<lambda>(b, nn, p). w_Available b < length p \<and> w_err b = None)
          (w_Write_step wr) (b, 0, p)"
  obtain c m q where loop: "?loop = Ret (c, m, q)"
    using run by (cases ?loop) (auto simp: w_Write_def)
  have "case (c, m, q) of (c, m, q) \<Rightarrow> w_live c"
    by (rule exec_loop_inv [OF loop]) (use assms in \<open>auto dest: Write_step_live\<close>)
  then have c: "w_live c" by simp
  then have "w_Write wr b p = Ret (m + min (w_Available c) (length q), None, w_store c q)"
    by (simp add: w_Write_def loop w_live_def w_store_def Let_def)
  with run have "e = None" "b' = w_store c q" by auto
  with store_live [OF c, of q] sp run show ?thesis by auto
qed

lemma WriteRaw_live:
  assumes "w_live b"
  shows "\<exists>b'. w_WriteRaw wr b p = Ret (length p, None, b') \<and> w_live b'
    \<and> accepted b' = accepted b @ p \<and> length (w_buf b') = length (w_buf b)"
proof (cases "w_Buffered b = 0")
  case True
  obtain n e io' where wr: "wr (w_wr b) p = Ret (n, e, io')"
    and sp: "n \<le> length p" "n < length p \<longrightarrow> e \<noteq> None" "sent io' = sent (w_wr b) @ take n p"
    using wr_contract [of "w_wr b" p] by blast
  have "healthy (w_wr b)" using assms by (simp add: w_live_def)
  from wr_live [OF this wr] have "e = None" "healthy io'" by auto
  with True wr sp assms show ?thesis
    by (auto simp: w_WriteRaw_def w_live_def w_ok_def accepted_def buffered_def w_Buffered_def)
next
  case False
  with Write_live [OF assms, of p] assms show ?thesis by (simp add: w_WriteRaw_def w_live_def)
qed

lemma Peek_live:
  assumes "w_live b" "0 \<le> n" "n \<le> int (length (w_buf b))" "length data = nat n"
  shows "\<exists>off b'. w_Peek wr b n = Ret (Inr off, b') \<and> length (w_region b' off (nat n)) = nat n
    \<and> w_live (w_poke b' off data) \<and> accepted (w_poke b' off data) = accepted b @ data
    \<and> length (w_buf (w_poke b' off data)) = length (w_buf b)"
proof -
  have ok: "w_ok b" using assms by (simp add: w_live_def)
  obtain r b' where run: "w_Peek wr b n = Ret (r, b')"
    and sp: "case r of
         Inl e \<Rightarrow> accepted b' = accepted b
           \<and> (int (length (w_buf b)) < n \<and> e = ErrBufferFull \<or> w_err b' = Some e)
       | Inr off \<Rightarrow> w_err b' = None \<and> w_err b = None \<and> length (w_region b' off (nat n)) = nat n \<and>
           (\<forall>data. length data = nat n \<longrightarrow>
              w_ok (w_poke b' off data) \<and> w_err (w_poke b' off data) = None
              \<and> length (w_buf (w_poke b' off data)) = length (w_buf b)
              \<and> accepted (w_poke b' off data) = accepted b @ data)"
    using Peek_spec [OF ok assms(2)] by blast
  let ?loop = "exec_loop (\<lambda>b. w_Available b < nat n \<and> w_err b = None)
           (\<lambda>b. exec_bind (w_flush wr b) (\<lambda>(_, b'). Ret b')) b"
  obtain c where loop: "?loop = Ret c"
    using run assms(2,3) by (cases ?loop) (auto simp: w_Peek_def)
  have c: "w_live c"
    by (rule exec_loop_inv [OF loop, where I = w_live])
      (use assms(1) in \<open>auto simp: exec_bind_eq_Ret_iff dest: flush_live split: prod.splits\<close>)
  then have "r = Inr (w_n c)" "b' = c\<lparr>w_n := w_n c + nat n\<rparr>"
    using run assms(2,3) by (auto simp: w_Peek_def loop w_live_def)
  with sp c run assms(4) show ?thesis
    by (auto simp: w_live_def w_poke_def)
qed

end

section \<open>The writer over a TCP connection\<close>

definition tcp_accepted :: "tcp_conn bufw \<Rightarrow> byte list" where
  "tcp_accepted b = tc_out (w_wr b) @ buffered b"

interpretation tcp_bw: live_buffered_writer tcp_write tc_out tcp_accepted tcp_healthy
  by unfold_locales (simp add: tcp_accepted_def)

end
