(* ===== verification/Wire_Proto.thy ===== *)
theory Wire_Proto
  imports Endian Buf_Reader Buf_Writer
begin

text \<open>
  The binary protocol of \<open>api/protocol/protocol.go\<close> and the operation codes of
  \<open>api/protocol/operation.go\<close>: the 16-byte header, writing a packet to a growing buffer or to
  a connection, and reading one from a connection.

  \<open>put_frame\<close> is the part the writers share, over the operations of any destination;
  its lemmas are proved in the locale \<open>frame_sink\<close> and reach the growing buffer and the
  connection by their interpretations.
\<close>

section \<open>Packets\<close>

text \<open>\<open>Body\<close> is a byte slice, which Go distinguishes from \<open>nil\<close> when it is empty.\<close>

record proto =
  Ver :: i32
  Op :: i32
  Seq :: i32
  Body :: "byte list option"

definition body_bytes :: "proto \<Rightarrow> byte list" where
  "body_bytes p = (case Body p of None \<Rightarrow> [] | Some d \<Rightarrow> d)"

section \<open>Operation codes\<close>

definition OpHandshake :: i32 where "OpHandshake = 0"
definition OpHandshakeReply :: i32 where "OpHandshakeReply = 1"
definition OpHeartbeat :: i32 where "OpHeartbeat = 2"
definition OpHeartbeatReply :: i32 where "OpHeartbeatReply = 3"
definition OpSendMsg :: i32 where "OpSendMsg = 4"
definition OpSendMsgReply :: i32 where "OpSendMsgReply = 5"
definition OpDisconnectReply :: i32 where "OpDisconnectReply = 6"
definition OpAuth :: i32 where "OpAuth = 7"
definition OpAuthReply :: i32 where "OpAuthReply = 8"
definition OpRaw :: i32 where "OpRaw = 9"
definition OpProtoReady :: i32 where "OpProtoReady = 10"
definition OpProtoFinish :: i32 where "OpProtoFinish = 11"
definition OpChangeRoom :: i32 where "OpChangeRoom = 12"
definition OpChangeRoomReply :: i32 where "OpChangeRoomReply = 13"
definition OpSub :: i32 where "OpSub = 14"
definition OpSubReply :: i32 where "OpSubReply = 15"
definition OpUnsub :: i32 where "OpUnsub = 16"
definition OpUnsubReply :: i32 where "OpUnsubReply = 17"
definition OpSendMsgAck :: i32 where "OpSendMsgAck = 18"
definition OpPushMsgAck :: i32 where "OpPushMsgAck = 19"
definition OpSyncReq :: i32 where "OpSyncReq = 20"
definition OpSyncReply :: i32 where "OpSyncReply = 21"
definition OpKickConnection :: i32 where "OpKickConnection = 22"

section \<open>Sizes\<close>

definition MaxBodySize :: i32 where "MaxBodySize = push_bit 12 1"

definition rawHeaderSize :: nat where "rawHeaderSize = 4 + 2 + 2 + 4 + 4"
definition heartSize :: nat where "heartSize = 4"
definition maxPackSize :: i32 where "maxPackSize = MaxBodySize + of_nat rawHeaderSize"

lemma rawHeaderSize_eq [simp]: "rawHeaderSize = 16"
  by (simp add: rawHeaderSize_def)

lemma maxPackSize_eq: "maxPackSize = 4112"
  by (simp add: maxPackSize_def MaxBodySize_def)

section \<open>Writing\<close>

text \<open>\<open>Put(buf[off:], v)\<close> on a slice \<open>buf\<close>.\<close>

definition put_at :: "nat \<Rightarrow> (byte list \<Rightarrow> 'v \<Rightarrow> byte list exec) \<Rightarrow> 'v \<Rightarrow> byte list \<Rightarrow> byte list exec" where
  "put_at off put v buf = exec_bind (put (drop off buf) v) (\<lambda>s. Ret (take off buf @ s))"

definition put_header :: "i32 \<Rightarrow> proto \<Rightarrow> byte list \<Rightarrow> byte list exec" where
  "put_header packLen p buf =
     exec_bind (put_at 0 PutInt32 packLen buf) (\<lambda>b1.
     exec_bind (put_at 4 PutInt16 (of_nat rawHeaderSize) b1) (\<lambda>b2.
     exec_bind (put_at 6 PutInt16 (ucast (Ver p)) b2) (\<lambda>b3.
     exec_bind (put_at 8 PutInt32 (Op p) b3) (\<lambda>b4.
                put_at 12 PutInt32 (Seq p) b4))))"

text \<open>Reserve a region, fill it, and append the body when there is one.\<close>

definition put_frame ::
    "'s peek_fun \<Rightarrow> ('s \<Rightarrow> nat \<Rightarrow> nat \<Rightarrow> byte list) \<Rightarrow> ('s \<Rightarrow> nat \<Rightarrow> byte list \<Rightarrow> 's) \<Rightarrow>
     's write_fun \<Rightarrow> i32 \<Rightarrow> proto \<Rightarrow> byte list option \<Rightarrow> 's \<Rightarrow> (gerr option \<times> 's) exec" where
  "put_frame s_peek s_region s_poke s_write packLen p body s =
     exec_bind (s_peek s rawHeaderSize) (\<lambda>(r, s1).
       case r of
         Inl e \<Rightarrow> Ret (Some e, s1)
       | Inr off \<Rightarrow>
           exec_bind (put_header packLen p (s_region s1 off rawHeaderSize)) (\<lambda>h.
             let s2 = s_poke s1 off h
             in case body of
                  None \<Rightarrow> Ret (None, s2)
                | Some d \<Rightarrow> exec_bind (s_write s2 d) (\<lambda>(_, err, s3). Ret (err, s3))))"

definition pack_len :: "proto \<Rightarrow> i32" where
  "pack_len p = of_nat rawHeaderSize + of_nat (length (body_bytes p))"

text \<open>\<open>WriteTo\<close> ignores what the writer returns, which is never an error.\<close>

definition WriteTo :: "proto \<Rightarrow> bwriter \<Rightarrow> bwriter exec" where
  "WriteTo p b =
     exec_bind (put_frame bw_peek_fun bw_region bw_poke bw_write_fun (pack_len p) p (Body p) b)
       (\<lambda>(_, b'). Ret b')"

definition WriteTCP :: "'io wr_fun \<Rightarrow> proto \<Rightarrow> 'io bufw \<Rightarrow> (gerr option \<times> 'io bufw) exec" where
  "WriteTCP wr p b =
     (if Op p = OpRaw
      then exec_bind (w_WriteRaw wr b (body_bytes p)) (\<lambda>(_, err, b'). Ret (err, b'))
      else put_frame (\<lambda>b n. w_Peek wr b (int n)) w_region w_poke (w_Write wr) (pack_len p) p (Body p) b)"

definition put_heart :: "proto \<Rightarrow> i32 \<Rightarrow> byte list \<Rightarrow> byte list exec" where
  "put_heart p online buf =
     exec_bind (put_header (of_nat (rawHeaderSize + heartSize)) p buf) (\<lambda>h.
       put_at 16 PutInt32 online h)"

definition WriteTCPHeart ::
    "'io wr_fun \<Rightarrow> proto \<Rightarrow> 'io bufw \<Rightarrow> i32 \<Rightarrow> (gerr option \<times> 'io bufw) exec" where
  "WriteTCPHeart wr p b online =
     exec_bind (w_Peek wr b (int (rawHeaderSize + heartSize))) (\<lambda>(r, b1).
       case r of
         Inl e \<Rightarrow> Ret (Some e, b1)
       | Inr off \<Rightarrow>
           exec_bind (put_heart p online (w_region b1 off (rawHeaderSize + heartSize))) (\<lambda>h.
             Ret (None, w_poke b1 off h)))"

section \<open>Reading\<close>

definition ReadTCP :: "'io rd_fun \<Rightarrow> proto \<Rightarrow> 'io bufr \<Rightarrow> (gerr option \<times> proto \<times> 'io bufr) exec" where
  "ReadTCP rd p rr =
     exec_bind (r_Pop rd rr (int rawHeaderSize)) (\<lambda>(r, rr1).
       case r of
         Inl e \<Rightarrow> Ret (Some e, p, rr1)
       | Inr buf \<Rightarrow>
           exec_bind (Int32 (sub_slice 0 4 buf)) (\<lambda>packLen.
           exec_bind (Int16 (sub_slice 4 6 buf)) (\<lambda>headerLen.
           exec_bind (Int16 (sub_slice 6 8 buf)) (\<lambda>ver.
           exec_bind (Int32 (sub_slice 8 12 buf)) (\<lambda>op.
           exec_bind (Int32 (drop 12 buf)) (\<lambda>seq.
             let p1 = p\<lparr>Ver := scast ver, Op := op, Seq := seq\<rparr>
             in if maxPackSize <s packLen then Ret (Some ErrProtoPackLen, p1, rr1)
                else if headerLen \<noteq> of_nat rawHeaderSize then Ret (Some ErrProtoHeaderLen, p1, rr1)
                else let bodyLen = sint (packLen - scast headerLen)
                     in if 0 < bodyLen
                        then exec_bind (r_Pop rd rr1 bodyLen) (\<lambda>(r2, rr2).
                               case r2 of
                                 Inl e \<Rightarrow> Ret (Some e, p1\<lparr>Body := None\<rparr>, rr2)
                               | Inr d \<Rightarrow> Ret (None, p1\<lparr>Body := Some d\<rparr>, rr2))
                        else Ret (None, p1\<lparr>Body := None\<rparr>, rr1)))))))"

section \<open>The frame of a packet\<close>

definition proto_header :: "i32 \<Rightarrow> proto \<Rightarrow> byte list" where
  "proto_header packLen p =
     put_be 4 packLen @ put_be 2 (16 :: i16) @ put_be 2 (ucast (Ver p) :: i16)
       @ put_be 4 (Op p) @ put_be 4 (Seq p)"

definition proto_frame :: "proto \<Rightarrow> byte list" where
  "proto_frame p = proto_header (pack_len p) p @ body_bytes p"

text \<open>What a packet looks like after a trip over the wire: the version has 16 bits there, and an
  empty body is read back as none.\<close>

definition on_wire :: "proto \<Rightarrow> proto" where
  "on_wire p = p\<lparr>Ver := scast (ucast (Ver p) :: i16),
                 Body := (if body_bytes p = [] then None else Body p)\<rparr>"

definition frame_ok :: "proto \<Rightarrow> bool" where
  "frame_ok p \<longleftrightarrow> length (body_bytes p) \<le> 4096"

lemma length_proto_header [simp]: "length (proto_header l p) = 16"
  by (simp add: proto_header_def)

lemma length_proto_frame [simp]: "length (proto_frame p) = 16 + length (body_bytes p)"
  by (simp add: proto_frame_def)

lemma put_at_16:
  "off + 2 \<le> length buf \<Longrightarrow>
     put_at off PutInt16 v buf = Ret (take off buf @ put_be 2 v @ drop (off + 2) buf)"
  by (simp add: put_at_def PutInt16_prefix add.commute)

lemma put_at_32:
  "off + 4 \<le> length buf \<Longrightarrow>
     put_at off PutInt32 v buf = Ret (take off buf @ put_be 4 v @ drop (off + 4) buf)"
  by (simp add: put_at_def PutInt32_prefix add.commute)

lemma put_header_spec:
  assumes "16 \<le> length buf"
  shows "put_header l p buf = Ret (proto_header l p @ drop 16 buf)"
  using assms by (simp add: put_header_def put_at_16 put_at_32 proto_header_def)

lemma put_header_16: "length buf = 16 \<Longrightarrow> put_header l p buf = Ret (proto_header l p)"
  by (simp add: put_header_spec)

lemma put_heart_spec:
  assumes "length buf = 20"
  shows "put_heart p online buf = Ret (proto_header 20 p @ put_be 4 online)"
  using assms by (simp add: put_heart_def put_header_spec heartSize_def put_at_32)

section \<open>Writers\<close>

context frame_sink
begin

lemma put_frame_spec:
  assumes "s_ok s"
  shows "\<exists>e s'. put_frame s_peek s_region s_poke s_write l p body s = Ret (e, s') \<and> s_ok s'
    \<and> (\<exists>k \<le> 16 + (case body of None \<Rightarrow> 0 | Some d \<Rightarrow> length d).
          s_out s' = s_out s @ take k (proto_header l p @ (case body of None \<Rightarrow> [] | Some d \<Rightarrow> d)))
    \<and> (e = None \<longrightarrow> s_out s' = s_out s @ proto_header l p @ (case body of None \<Rightarrow> [] | Some d \<Rightarrow> d))"
proof -
  obtain r s1 where pk: "s_peek s rawHeaderSize = Ret (r, s1)" and ok1: "s_ok s1"
    and law: "case r of
           Inl e \<Rightarrow> s_out s1 = s_out s
         | Inr off \<Rightarrow> length (s_region s1 off rawHeaderSize) = rawHeaderSize \<and>
             (\<forall>data. length data = rawHeaderSize \<longrightarrow>
                s_ok (s_poke s1 off data) \<and> s_out (s_poke s1 off data) = s_out s @ data)"
    using peek_law [OF assms, of rawHeaderSize] by blast
  show ?thesis
  proof (cases r)
    case (Inl e)
    with pk ok1 law show ?thesis by (simp add: put_frame_def) (metis append_Nil2 le0 take0)
  next
    case (Inr off)
    let ?s2 = "s_poke s1 off (proto_header l p)"
    have h: "put_header l p (s_region s1 off 16) = Ret (proto_header l p)"
      using law Inr by (simp add: put_header_16)
    have ok2: "s_ok ?s2" and out2: "s_out ?s2 = s_out s @ proto_header l p"
      using law Inr by auto
    show ?thesis
    proof (cases body)
      case None
      with pk Inr h ok2 out2 show ?thesis
        by (auto simp: put_frame_def intro!: exI [of _ 16])
    next
      case (Some d)
      obtain k e s3 where "s_write ?s2 d = Ret (k, e, s3)" "s_ok s3" "k \<le> length d"
        "s_out s3 = s_out ?s2 @ take k d" "e = None \<longrightarrow> k = length d"
        using write_law [OF ok2, of d] by blast
      with pk Inr h ok2 out2 Some show ?thesis
        by (auto simp: put_frame_def Let_def intro!: exI [of _ "16 + k"])
    qed
  qed
qed

end

lemma body_case: "(case Body p of None \<Rightarrow> [] | Some d \<Rightarrow> d) = body_bytes p"
  by (simp add: body_bytes_def)

lemma WriteTo_spec:
  assumes "bw_ok w"
  shows "\<exists>w'. WriteTo p w = Ret w' \<and> bw_ok w' \<and> bw_Buffer w' = bw_Buffer w @ proto_frame p"
proof -
  have noerr: "put_frame bw_peek_fun bw_region bw_poke bw_write_fun l p b w = Ret (Some e, s') \<Longrightarrow> False"
    for l b e s'
    by (auto simp: put_frame_def bw_peek_fun_def bw_write_fun_def exec_bind_eq_Ret_iff Let_def
        split: option.splits prod.splits)
  obtain e s' where run: "put_frame bw_peek_fun bw_region bw_poke bw_write_fun (pack_len p) p (Body p) w
      = Ret (e, s')" and ok: "bw_ok s'"
    and out: "e = None \<longrightarrow> bw_Buffer s' = bw_Buffer w @ proto_header (pack_len p) p @ body_bytes p"
    using bw.put_frame_spec [OF assms, of "pack_len p" p "Body p"] unfolding body_case by blast
  have "e = None" using run noerr by (cases e) auto
  with run ok out show ?thesis by (simp add: WriteTo_def proto_frame_def)
qed

text \<open>What a packet puts on a connection: its frame, or its body as it is for \<open>OpRaw\<close>.\<close>

definition tcp_frame :: "proto \<Rightarrow> byte list" where
  "tcp_frame p = (if Op p = OpRaw then body_bytes p else proto_frame p)"

definition heart_frame :: "proto \<Rightarrow> i32 \<Rightarrow> byte list" where
  "heart_frame p online = proto_header 20 p @ put_be 4 online"

context buffered_writer
begin

lemma WriteTCP_spec:
  assumes "w_ok b"
  shows "\<exists>e b' k. WriteTCP wr p b = Ret (e, b') \<and> w_ok b'
    \<and> accepted b' = accepted b @ take k (tcp_frame p) \<and> (e = None \<longrightarrow> k \<ge> length (tcp_frame p))"
proof (cases "Op p = OpRaw")
  case True
  obtain nn e b' where "w_WriteRaw wr b (body_bytes p) = Ret (nn, e, b')" "w_ok b'"
    "accepted b' = accepted b @ take nn (body_bytes p)" "e = None \<longrightarrow> nn = length (body_bytes p)"
    using WriteRaw_spec [OF assms, of "body_bytes p"] by (elim exE conjE) (rule that)
  with True show ?thesis by (auto simp: WriteTCP_def tcp_frame_def)
next
  case False
  obtain e b' k where run: "put_frame (\<lambda>b n. w_Peek wr b (int n)) w_region w_poke (w_Write wr)
      (pack_len p) p (Body p) b = Ret (e, b')" and ok: "w_ok b'"
    and k: "k \<le> 16 + (case Body p of None \<Rightarrow> 0 | Some d \<Rightarrow> length d)"
      "accepted b' = accepted b @ take k (proto_frame p)"
    and fin: "e = None \<longrightarrow> accepted b' = accepted b @ proto_frame p"
    using sink.put_frame_spec [OF assms, of "pack_len p" p "Body p"]
    unfolding body_case proto_frame_def by blast
  show ?thesis
  proof (cases "e = None")
    case True
    with False run ok fin show ?thesis
      by (auto simp: WriteTCP_def tcp_frame_def intro!: exI [of _ "length (proto_frame p)"])
  next
    case notdone: False
    with False run ok k show ?thesis by (auto simp: WriteTCP_def tcp_frame_def)
  qed
qed

lemma WriteTCPHeart_spec:
  assumes "w_ok b"
  shows "\<exists>e b'. WriteTCPHeart wr p b online = Ret (e, b') \<and> w_ok b'
    \<and> accepted b' = accepted b @ (if e = None then heart_frame p online else [])"
proof -
  obtain r b1 where pk: "w_Peek wr b (int 20) = Ret (r, b1)" and ok1: "w_ok b1"
    and law: "case r of
           Inl e \<Rightarrow> accepted b1 = accepted b
         | Inr off \<Rightarrow> length (w_region b1 off 20) = 20 \<and>
             (\<forall>data. length data = 20 \<longrightarrow>
                w_ok (w_poke b1 off data) \<and> accepted (w_poke b1 off data) = accepted b @ data)"
    using sink.peek_law [OF assms, of 20] by blast
  show ?thesis
  proof (cases r)
    case (Inl e)
    with pk ok1 law show ?thesis by (simp add: WriteTCPHeart_def heartSize_def)
  next
    case (Inr off)
    then have h: "put_heart p online (w_region b1 off 20) = Ret (heart_frame p online)"
      using law by (simp add: put_heart_spec heart_frame_def)
    have "length (heart_frame p online) = 20" by (simp add: heart_frame_def)
    with pk Inr law h show ?thesis by (simp add: WriteTCPHeart_def heartSize_def)
  qed
qed

end

text \<open>On a healthy connection nothing fails, provided that the buffer holds a header.\<close>

context live_buffered_writer
begin

lemma WriteTCP_live:
  assumes "w_live b" "16 \<le> length (w_buf b)"
  shows "\<exists>b'. WriteTCP wr p b = Ret (None, b') \<and> w_live b' \<and> length (w_buf b') = length (w_buf b)
    \<and> accepted b' = accepted b @ tcp_frame p"
proof (cases "Op p = OpRaw")
  case True
  with WriteRaw_live [OF assms(1), of "body_bytes p"] show ?thesis
    by (auto simp: WriteTCP_def tcp_frame_def)
next
  case False
  let ?h = "proto_header (pack_len p) p"
  obtain off b1 where pk: "w_Peek wr b 16 = Ret (Inr off, b1)"
    and len: "length (w_region b1 off 16) = 16" and lv: "w_live (w_poke b1 off ?h)"
    and acc: "accepted (w_poke b1 off ?h) = accepted b @ ?h"
    and lb: "length (w_buf (w_poke b1 off ?h)) = length (w_buf b)"
    using Peek_live [OF assms(1), of 16 ?h] assms(2) by auto
  show ?thesis
  proof (cases "Body p")
    case None
    with False pk len lv acc lb show ?thesis
      by (simp add: WriteTCP_def put_frame_def put_header_16 tcp_frame_def proto_frame_def body_bytes_def)
  next
    case (Some d)
    obtain b' where "w_Write wr (w_poke b1 off ?h) d = Ret (length d, None, b')" "w_live b'"
      "accepted b' = accepted (w_poke b1 off ?h) @ d" "length (w_buf b') = length (w_buf (w_poke b1 off ?h))"
      using Write_live [OF lv, of d] by blast
    with Some False pk len acc lb show ?thesis
      by (simp add: WriteTCP_def put_frame_def put_header_16 tcp_frame_def proto_frame_def body_bytes_def)
  qed
qed

lemma WriteTCPHeart_live:
  assumes "w_live b" "20 \<le> length (w_buf b)"
  shows "\<exists>b'. WriteTCPHeart wr p b online = Ret (None, b') \<and> w_live b'
    \<and> length (w_buf b') = length (w_buf b) \<and> accepted b' = accepted b @ heart_frame p online"
proof -
  have "length (heart_frame p online) = nat 20" by (simp add: heart_frame_def)
  then obtain off b1 where "w_Peek wr b 20 = Ret (Inr off, b1)" "length (w_region b1 off 20) = 20"
    "w_live (w_poke b1 off (heart_frame p online))"
    "accepted (w_poke b1 off (heart_frame p online)) = accepted b @ heart_frame p online"
    "length (w_buf (w_poke b1 off (heart_frame p online))) = length (w_buf b)"
    using Peek_live [OF assms(1), of 20 "heart_frame p online"] assms(2) by auto
  then show ?thesis
    by (simp add: WriteTCPHeart_def heartSize_def put_heart_spec flip: heart_frame_def)
qed

end

section \<open>The reader\<close>

text \<open>The fields of a frame, read back from its 16 header bytes.\<close>

definition hdr_len :: "byte list \<Rightarrow> i32" where "hdr_len h = get_be (sub_slice 0 4 h)"
definition hdr_hlen :: "byte list \<Rightarrow> i16" where "hdr_hlen h = get_be (sub_slice 4 6 h)"
definition hdr_into :: "byte list \<Rightarrow> proto \<Rightarrow> proto" where
  "hdr_into h p = p\<lparr>Ver := scast (get_be (sub_slice 6 8 h) :: i16), Op := get_be (sub_slice 8 12 h),
                    Seq := get_be (sub_slice 12 16 h)\<rparr>"

lemma hdr_fields [simp]:
  "hdr_len (proto_header l p) = l" "hdr_hlen (proto_header l p) = 16"
  "hdr_into (proto_header l p) q =
     q\<lparr>Ver := scast (ucast (Ver p) :: i16), Op := Op p, Seq := Seq p\<rparr>"
  by (simp_all add: hdr_len_def hdr_hlen_def hdr_into_def proto_header_def sub_slice_def get_be_put_be)

definition body_len :: "byte list \<Rightarrow> int" where
  "body_len h = sint (hdr_len h - 16)"

lemma ReadTCP_header:
  assumes "r_Pop rd rr 16 = Ret (Inr h, rr1)" "length h = 16"
  shows "ReadTCP rd p rr =
    (if maxPackSize <s hdr_len h then Ret (Some ErrProtoPackLen, hdr_into h p, rr1)
     else if hdr_hlen h \<noteq> 16 then Ret (Some ErrProtoHeaderLen, hdr_into h p, rr1)
     else if 0 < body_len h
     then exec_bind (r_Pop rd rr1 (body_len h)) (\<lambda>(r2, rr2).
            case r2 of
              Inl e \<Rightarrow> Ret (Some e, (hdr_into h p)\<lparr>Body := None\<rparr>, rr2)
            | Inr d \<Rightarrow> Ret (None, (hdr_into h p)\<lparr>Body := Some d\<rparr>, rr2))
     else Ret (None, (hdr_into h p)\<lparr>Body := None\<rparr>, rr1))"
proof -
  have "Int32 (sub_slice 0 4 h) = Ret (hdr_len h)" "Int16 (sub_slice 4 6 h) = Ret (hdr_hlen h)"
    "Int16 (sub_slice 6 8 h) = Ret (get_be (sub_slice 6 8 h))"
    "Int32 (sub_slice 8 12 h) = Ret (get_be (sub_slice 8 12 h))"
    using assms(2) by (simp_all add: Int32_get_be Int16_get_be hdr_len_def hdr_hlen_def)
  moreover have "Int32 (drop 12 h) = Ret (get_be (sub_slice 12 16 h))"
    using assms(2) by (simp add: Int32_get_be sub_slice_all)
  ultimately show ?thesis
    using assms(1) unfolding ReadTCP_def hdr_into_def body_len_def Let_def by simp
qed

lemma wire_body_len:
  assumes "frame_ok p"
  shows "\<not> maxPackSize <s pack_len p" "sint (pack_len p - 16) = int (length (body_bytes p))"
proof -
  let ?n = "length (body_bytes p)"
  have n: "?n \<le> 4096" using assms by (simp add: frame_ok_def)
  have s: "sint (of_nat m :: i32) = int m" if "m \<le> 5000" for m
    using that signed_take_bit_int_eq_self [of 31 "int m"] by (simp add: signed_of_nat)
  have "pack_len p = of_nat (?n + 16)" by (simp add: pack_len_def)
  with s [of "?n + 16"] n show "\<not> maxPackSize <s pack_len p"
    by (simp add: word_sless_alt maxPackSize_eq del: of_nat_add)
  have "pack_len p - 16 = of_nat ?n" by (simp add: pack_len_def)
  with s [of ?n] n show "sint (pack_len p - 16) = int ?n" by simp
qed

text \<open>
  Within the length check the body is at most 4096 bytes, unless the 32-bit subtraction wraps
  around, which makes the length at least \<open>2 ^ 31 - 16\<close>.
\<close>

lemma body_len_bound:
  assumes "\<not> maxPackSize <s hdr_len h"
  shows "body_len h \<le> 4096 \<or> 2 ^ 31 - 16 \<le> body_len h"
proof -
  let ?l = "sint (hdr_len h)"
  have le: "?l \<le> 4112" using assms by (simp add: word_sless_alt maxPackSize_eq)
  have ge: "- (2 ^ 31) \<le> ?l"
    using sint_greater_eq [of "hdr_len h"] by simp
  have b: "body_len h = signed_take_bit 31 (?l - 16)"
    by (simp add: body_len_def sint_word_ariths)
  show ?thesis
  proof (cases "- (2 ^ 31) \<le> ?l - 16")
    case True
    with le have "signed_take_bit 31 (?l - 16) = ?l - 16"
      by (intro signed_take_bit_int_eq_self) simp_all
    with b le show ?thesis by simp
  next
    case False
    then have "?l - 16 + 2 ^ Suc 31 \<le> signed_take_bit 31 (?l - 16)"
      by (intro signed_take_bit_int_greater_eq) simp
    with b ge show ?thesis by simp
  qed
qed

context buffered_reader
begin

definition tcp_read_post :: "'a bufr \<Rightarrow> (gerr option \<times> proto \<times> 'a bufr) exec \<Rightarrow> bool" where
  "tcp_read_post rr res \<longleftrightarrow> (\<exists>e p' rr' k. res = Ret (e, p', rr') \<and> consumed k rr rr'
     \<and> (e = None \<longrightarrow> k = 16 + length (body_bytes p')
          \<and> body_bytes p' = sub_slice 16 k (pending rr)
          \<and> p' = (hdr_into (take 16 (pending rr)) p')\<lparr>Body := Body p'\<rparr>
          \<and> (length (r_buf rr) < 2 ^ 31 - 16 \<longrightarrow> length (body_bytes p') \<le> 4096)))"

lemma ReadTCP_total:
  assumes ok: "rd_ok rr" and room: "16 \<le> length (r_buf rr)"
  shows "tcp_read_post rr (ReadTCP rd q rr)"
proof -
  obtain r rr1 where pop1: "r_Pop rd rr 16 = Ret (r, rr1)"
    and post1: "case r of Inr d \<Rightarrow> d = take 16 (pending rr) \<and> consumed 16 rr rr1
       | Inl _ \<Rightarrow> grown rr rr1"
    using Pop_nat [OF ok room] by auto
  show ?thesis
  proof (cases r)
    case (Inl e)
    with pop1 post1 consumed_0 show ?thesis
      by (auto simp: tcp_read_post_def ReadTCP_def)
  next
    case (Inr h)
    then have h: "h = take 16 (pending rr)" and c1: "consumed 16 rr rr1" using post1 by auto
    have lh: "length h = 16" using c1 h by (simp add: consumed_def)
    have len1: "length (r_buf rr1) = length (r_buf rr)" using c1 by (simp add: consumed_def same_buf_def)
    note run = ReadTCP_header [OF pop1 [unfolded Inr] lh, of q]
    have fields: "(hdr_into h q)\<lparr>Body := b\<rparr> = (hdr_into h ((hdr_into h q)\<lparr>Body := b\<rparr>))\<lparr>Body := b\<rparr>" for b
      by (simp add: hdr_into_def)
    consider "maxPackSize <s hdr_len h \<or> hdr_hlen h \<noteq> 16"
      | "\<not> maxPackSize <s hdr_len h" "hdr_hlen h = 16" "body_len h \<le> 0"
      | "\<not> maxPackSize <s hdr_len h" "hdr_hlen h = 16" "0 < body_len h" "int (length (r_buf rr)) < body_len h"
      | "\<not> maxPackSize <s hdr_len h" "hdr_hlen h = 16" "0 < body_len h" "body_len h \<le> int (length (r_buf rr))"
      by linarith
    then show ?thesis
    proof cases
      case 1
      with run c1 show ?thesis by (auto simp: tcp_read_post_def)
    next
      case 2
      with run c1 fields [of None] show ?thesis
        by (simp add: tcp_read_post_def body_bytes_def sub_slice_same flip: h)
    next
      case 3
      with run c1 Pop_out_of_range(2) [of rr1 "body_len h"] len1 show ?thesis
        by (auto simp: tcp_read_post_def)
    next
      case 4
      obtain r2 rr2 where pop2: "r_Pop rd rr1 (body_len h) = Ret (r2, rr2)"
        and post2: "case r2 of Inr d \<Rightarrow> d = take (nat (body_len h)) (pending rr1)
            \<and> consumed (nat (body_len h)) rr1 rr2
          | Inl _ \<Rightarrow> grown rr1 rr2"
      proof (rule Pop_nat [OF consumed_ok [OF c1], of "nat (body_len h)"])
        show "nat (body_len h) \<le> length (r_buf rr1)" using 4 len1 by simp
      qed (use 4 that in simp)
      show ?thesis
      proof (cases r2)
        case (Inl e)
        with run 4 pop2 post2 consumed_trans [OF c1 consumed_0] show ?thesis
          by (auto simp: tcp_read_post_def)
      next
        case (Inr d)
        then have d: "d = take (nat (body_len h)) (pending rr1)" and c2: "consumed (nat (body_len h)) rr1 rr2"
          using post2 by auto
        have ld: "length d = nat (body_len h)" using c2 d by (simp add: consumed_def)
        have "d = sub_slice 16 (16 + length d) (pending rr)"
          using d c1 ld by (simp add: sub_slice_def consumed_def)
        moreover have "length (r_buf rr) < 2 ^ 31 - 16 \<Longrightarrow> length d \<le> 4096"
          using body_len_bound [OF 4(1)] 4(4) ld by auto
        moreover have "consumed (16 + length d) rr rr2" using consumed_trans [OF c1 c2] ld by simp
        ultimately show ?thesis
          using run 4 pop2 Inr fields [of "Some d"]
          by (auto simp: tcp_read_post_def body_bytes_def simp flip: h)
      qed
    qed
  qed
qed

end

context live_buffered_reader
begin

lemma ReadTCP_frame:
  assumes ok: "live_ok rr" and pend: "pending rr = proto_frame p @ rest"
    and fo: "frame_ok p" and room: "4096 \<le> length (r_buf rr)"
  shows "\<exists>rr'. ReadTCP rd q rr = Ret (None, on_wire p, rr') \<and> live_ok rr'
    \<and> pending rr' = rest \<and> length (r_buf rr') = length (r_buf rr)"
proof -
  let ?h = "proto_header (pack_len p) p"
  have "nat 16 \<le> length (pending rr)" using pend by simp
  then obtain rr1 where pop1: "r_Pop rd rr 16 = Ret (Inr (take 16 (pending rr)), rr1)"
    and ok1: "live_ok rr1" and c1: "consumed 16 rr rr1"
    using Pop_live [OF ok, of 16] room by auto
  have h: "take 16 (pending rr) = ?h" and p1: "pending rr1 = body_bytes p @ rest"
    using c1 by (simp_all add: pend proto_frame_def consumed_def)
  have len1: "length (r_buf rr1) = length (r_buf rr)" using c1 by (simp add: consumed_def same_buf_def)
  have hb: "body_len ?h = int (length (body_bytes p))"
    using wire_body_len(2) [OF fo] by (simp add: body_len_def)
  note run = ReadTCP_header [OF pop1 [unfolded h] length_proto_header, of q]
  have into: "(hdr_into ?h q)\<lparr>Body := b\<rparr> = on_wire p"
    if "b = (if body_bytes p = [] then None else Body p)" for b
    using that by (simp add: on_wire_def)
  show ?thesis
  proof (cases "body_bytes p = []")
    case True
    with run hb wire_body_len(1) [OF fo] ok1 p1 len1 into [of None] show ?thesis by simp
  next
    case False
    obtain d where d: "Body p = Some d" "body_bytes p = d"
      using False by (cases "Body p") (auto simp: body_bytes_def)
    have "nat (int (length d)) \<le> length (pending rr1)" "int (length d) \<le> int (length (r_buf rr1))"
      using p1 d fo room len1 by (simp_all add: frame_ok_def)
    then obtain rr2 where "r_Pop rd rr1 (int (length d)) = Ret (Inr (take (length d) (pending rr1)), rr2)"
      "live_ok rr2" "consumed (length d) rr1 rr2"
      using Pop_live [OF ok1, of "int (length d)"] by auto
    moreover from this(3) have "pending rr2 = rest" "length (r_buf rr2) = length (r_buf rr)"
      using p1 d len1 by (simp_all add: consumed_def same_buf_def)
    ultimately show ?thesis
      using run hb wire_body_len(1) [OF fo] d p1 False into [of "Some d"] by simp
  qed
qed

end

section \<open>Sequences of packets\<close>

text \<open>The write loop of a connection (packets, then a flush) and its read loop.\<close>

fun write_all :: "'io wr_fun \<Rightarrow> proto list \<Rightarrow> 'io bufw \<Rightarrow> (gerr option \<times> 'io bufw) exec" where
  "write_all wr [] b = w_Flush wr b"
| "write_all wr (p # ps) b =
     exec_bind (WriteTCP wr p b) (\<lambda>(e, b'). case e of
       Some err \<Rightarrow> Ret (Some err, b')
     | None \<Rightarrow> write_all wr ps b')"

fun read_all ::
    "'io rd_fun \<Rightarrow> nat \<Rightarrow> proto \<Rightarrow> 'io bufr \<Rightarrow> (proto list \<times> gerr option \<times> 'io bufr) exec" where
  "read_all rd 0 q rr = Ret ([], None, rr)"
| "read_all rd (Suc n) q rr =
     exec_bind (ReadTCP rd q rr) (\<lambda>(e, p, rr'). case e of
       Some err \<Rightarrow> Ret ([], Some err, rr')
     | None \<Rightarrow> exec_bind (read_all rd n q rr') (\<lambda>(ps, e', rr''). Ret (p # ps, e', rr'')))"

context live_buffered_writer
begin

lemma write_all_live:
  assumes "w_live b" "16 \<le> length (w_buf b)"
  shows "\<exists>b'. write_all wr ps b = Ret (None, b') \<and> w_live b'
    \<and> sent (w_wr b') = accepted b @ concat (map tcp_frame ps)"
  using assms
proof (induction ps arbitrary: b)
  case Nil
  then have "w_ok b" by (simp add: w_live_def)
  from flush_spec [OF this] obtain e b' where f: "w_flush wr b = Ret (e, b')" "w_ok b'"
    "accepted b' = accepted b" "e = None \<longrightarrow> w_n b' = 0 \<and> w_err b = None"
    by (elim exE conjE) (rule that)
  from flush_live [OF Nil(1) f(1)] f show ?case
    by (simp add: w_Flush_def accepted_def [of b'] buffered_def)
next
  case (Cons p ps)
  obtain b1 where b1: "WriteTCP wr p b = Ret (None, b1)" "w_live b1"
    "length (w_buf b1) = length (w_buf b)" "accepted b1 = accepted b @ tcp_frame p"
    using WriteTCP_live [OF Cons.prems, of p] by blast
  from Cons.IH [OF b1(2)] b1 Cons.prems show ?case by auto
qed

end

context live_buffered_reader
begin

lemma read_all_frames:
  assumes "live_ok rr" "4096 \<le> length (r_buf rr)" "\<forall>p \<in> set ps. frame_ok p"
    "pending rr = concat (map proto_frame ps) @ rest"
  shows "\<exists>rr'. read_all rd (length ps) q rr = Ret (map on_wire ps, None, rr') \<and> live_ok rr'
    \<and> pending rr' = rest"
  using assms
proof (induction ps arbitrary: rr)
  case Nil
  then show ?case by simp
next
  case (Cons p ps)
  have "frame_ok p" "pending rr = proto_frame p @ (concat (map proto_frame ps) @ rest)"
    using Cons.prems by simp_all
  from ReadTCP_frame [OF Cons.prems(1) this(2,1) Cons.prems(2), of q]
  obtain r1 where r1: "ReadTCP rd q rr = Ret (None, on_wire p, r1)" "live_ok r1"
    "pending r1 = concat (map proto_frame ps) @ rest" "length (r_buf r1) = length (r_buf rr)" by blast
  from Cons.IH [OF r1(2) _ _ r1(3)] r1 Cons.prems show ?case by auto
qed

end

section \<open>Properties\<close>

text \<open>A reader set up on a connection from which the bytes arrive in the segments \<open>segs\<close>.\<close>

definition arriving :: "byte list list \<Rightarrow> tcp_conn" where
  "arriving segs = \<lparr>tc_in = segs, tc_end = EOF, tc_out = [], tc_room = None, tc_closed = False\<rparr>"

lemma tcp_stream_arriving [simp]: "tcp_stream (arriving segs) = concat segs"
  by (simp add: tcp_stream_def arriving_def)

lemma tcp_ok_arriving: "tcp_ok (arriving segs) \<longleftrightarrow> [] \<notin> set segs"
  by (simp add: tcp_ok_def arriving_def)

text \<open>Property C1. End to end over TCP: packets written one after the other with \<open>WriteTCP\<close> and
  flushed are read back by \<open>ReadTCP\<close> one by one, in order, each with its fields and body, and
  nothing is left over, however the network cuts the bytes into segments and whatever the
  buffers held before.\<close>

theorem tcp_wire_roundtrip:
  assumes "\<forall>p \<in> set ps. frame_ok p \<and> Op p \<noteq> OpRaw"
    and "tcp_healthy c" "tc_out c = []" "16 \<le> length wbuf"
    and "4096 \<le> length rbuf"
  shows "\<exists>b. write_all tcp_write ps (w_ResetBuffer b0 c wbuf) = Ret (None, b)
    \<and> (\<forall>segs. [] \<notin> set segs \<longrightarrow> concat segs = tc_out (w_wr b) \<longrightarrow>
         (\<exists>rr. read_all tcp_read (length ps) q (r_reset rbuf tail (arriving segs))
                 = Ret (map on_wire ps, None, rr)
             \<and> r_window rr = [] \<and> tcp_stream (r_rd rr) = []))"
proof -
  let ?b0 = "w_ResetBuffer b0 c wbuf"
  have live: "tcp_bw.w_live ?b0" "tcp_accepted ?b0 = []"
    using assms(2,3) by (simp_all add: tcp_bw.w_live_def w_ResetBuffer_def w_ok_def tcp_accepted_def buffered_def)
  have len: "16 \<le> length (w_buf ?b0)" using assms(4) by (simp add: w_ResetBuffer_def)
  obtain b where b: "write_all tcp_write ps ?b0 = Ret (None, b)"
    "tc_out (w_wr b) = concat (map tcp_frame ps)"
    using tcp_bw.write_all_live [OF live(1) len, of ps] live(2) by auto
  have frames: "concat (map tcp_frame ps) = concat (map proto_frame ps)"
    using assms(1) by (induction ps) (auto simp: tcp_frame_def)
  have "\<exists>rr. read_all tcp_read (length ps) q (r_reset rbuf tail (arriving segs)) = Ret (map on_wire ps, None, rr)
      \<and> r_window rr = [] \<and> tcp_stream (r_rd rr) = []"
    if "[] \<notin> set segs" "concat segs = tc_out (w_wr b)" for segs
  proof -
    let ?rr = "r_reset rbuf tail (arriving segs)"
    have "tcp_br.live_ok ?rr"
      by (rule tcp_br.live_ok_reset) (use that tcp_ok_arriving in auto)
    moreover have "tcp_br.pending ?rr = concat (map proto_frame ps) @ []"
      using that b frames by (simp add: tcp_br.pending_reset)
    ultimately obtain rr where "read_all tcp_read (length ps) q ?rr = Ret (map on_wire ps, None, rr)"
      "tcp_br.pending rr = []"
      using tcp_br.read_all_frames [of ?rr ps "[]" q] assms(1,5) by (auto simp: r_reset_def)
    then show ?thesis by (auto simp: tcp_br.pending_def)
  qed
  with b show ?thesis by auto
qed

definition sample_packet :: proto where
  "sample_packet = \<lparr>Ver = 1, Op = OpSendMsg, Seq = 7, Body = Some [104, 105]\<rparr>"

theorem tcp_wire_roundtrip_witness:
  "\<exists>b. write_all tcp_write [sample_packet]
        (w_ResetBuffer (bufio_NewWriter (arriving [])) (arriving []) (replicate 16 0)) = Ret (None, b)
    \<and> (\<forall>segs. [] \<notin> set segs \<longrightarrow> concat segs = tc_out (w_wr b) \<longrightarrow>
         (\<exists>rr. read_all tcp_read (length [sample_packet]) sample_packet
                  (r_reset (replicate 4096 0) [] (arriving segs))
                 = Ret (map on_wire [sample_packet], None, rr)
             \<and> r_window rr = [] \<and> tcp_stream (r_rd rr) = []))"
  by (rule tcp_wire_roundtrip)
    (simp_all add: sample_packet_def frame_ok_def body_bytes_def OpSendMsg_def OpRaw_def
      tcp_healthy_def arriving_def)

text \<open>Property C2. \<open>ReadTCP\<close> on any bytes whatsoever (malformed, truncated or hostile): it always
  returns, consumes a prefix of the stream, and when it reports no error it has consumed exactly
  the 16 header bytes and the body, the packet holds what those bytes say, and the body has at
  most 4096 bytes, the 32-bit wrap-around of a negative length included.\<close>

theorem ReadTCP_any_input:
  assumes "[] \<notin> set segs" "16 \<le> length buf"
  shows "\<exists>e p rr k. ReadTCP tcp_read q (r_reset buf tail (arriving segs)) = Ret (e, p, rr)
    \<and> k \<le> length (concat segs) \<and> r_window rr @ tcp_stream (r_rd rr) = drop k (concat segs)
    \<and> (e = None \<longrightarrow> k = 16 + length (body_bytes p) \<and> body_bytes p = sub_slice 16 k (concat segs)
         \<and> p = (hdr_into (take 16 (concat segs)) p)\<lparr>Body := Body p\<rparr>
         \<and> (length buf < 2 ^ 31 - 16 \<longrightarrow> length (body_bytes p) \<le> 4096))"
proof -
  let ?rr = "r_reset buf tail (arriving segs)"
  have ok: "tcp_br.live_ok ?rr"
    by (rule tcp_br.live_ok_reset) (use assms(1) tcp_ok_arriving in auto)
  have "tcp_br.rd_ok ?rr" using ok by (simp add: tcp_br.live_ok_def)
  moreover have len: "length (r_buf ?rr) = length buf" by (simp add: r_reset_def)
  ultimately have "tcp_br.tcp_read_post ?rr (ReadTCP tcp_read q ?rr)"
    using tcp_br.ReadTCP_total [of ?rr q] assms(2) by simp
  then obtain e p rr k where "ReadTCP tcp_read q ?rr = Ret (e, p, rr) \<and> tcp_br.consumed k ?rr rr
      \<and> (e = None \<longrightarrow> k = 16 + length (body_bytes p)
          \<and> body_bytes p = sub_slice 16 k (concat segs)
          \<and> p = (hdr_into (take 16 (concat segs)) p)\<lparr>Body := Body p\<rparr>
          \<and> (length buf < 2 ^ 31 - 16 \<longrightarrow> length (body_bytes p) \<le> 4096))"
    unfolding tcp_br.tcp_read_post_def tcp_br.pending_reset tcp_stream_arriving len by blast
  note post = conjunct1 [OF this] conjunct1 [OF conjunct2 [OF this]] conjunct2 [OF conjunct2 [OF this]]
  from post(2) have "k \<le> length (concat segs)"
    "r_window rr @ tcp_stream (r_rd rr) = drop k (concat segs)"
    unfolding tcp_br.consumed_def tcp_br.pending_reset tcp_stream_arriving
    by (simp_all add: tcp_br.pending_def)
  with post(1,3) show ?thesis by blast
qed

theorem ReadTCP_any_input_witness:
  "\<exists>e p rr k. ReadTCP tcp_read sample_packet (r_reset (replicate 16 0) [] (arriving [[0, 1], [2]])) = Ret (e, p, rr)
    \<and> k \<le> length (concat [[0, 1], [2 :: byte]])
    \<and> r_window rr @ tcp_stream (r_rd rr) = drop k (concat [[0, 1], [2]])
    \<and> (e = None \<longrightarrow> k = 16 + length (body_bytes p) \<and> body_bytes p = sub_slice 16 k (concat [[0, 1], [2]])
         \<and> p = (hdr_into (take 16 (concat [[0, 1], [2]])) p)\<lparr>Body := Body p\<rparr>
         \<and> (length (replicate 16 (0 :: byte)) < 2 ^ 31 - 16 \<longrightarrow> length (body_bytes p) \<le> 4096))"
  by (rule ReadTCP_any_input) simp_all

end
