(* ===== verification/Websocket.thy ===== *)
theory Websocket
  imports Wire_Proto
begin

text \<open>
  The WebSocket connection of \<open>pkg/websocket/conn.go\<close> and the packet methods of
  \<open>api/protocol/protocol.go\<close> that use it: writing and parsing frames, masking, the assembly of
  fragmented messages, and packets carried one per message.

  A connection's two directions are the reader and the writer of its buffered streams. The
  payload of a message is a Go slice: its bytes, and the memory behind it up to its capacity
  (\<open>sl_spare\<close>), which a caller can reach by reslicing. For a single frame that memory is
  the rest of the reader's own buffer; for an assembled message it is what the runtime's
  \<open>append\<close> allocated in reserve, whose size the parameter \<open>room\<close> gives and which is zeroed.
\<close>

section \<open>State\<close>

record ('r, 'w) ws_conn =
  ws_r :: "'r bufr"
  ws_w :: "'w bufw"
  ws_key :: "byte list"

definition newConn :: "'r bufr \<Rightarrow> 'w bufw \<Rightarrow> ('r, 'w) ws_conn" where
  "newConn r w = \<lparr>ws_r = r, ws_w = w, ws_key = replicate 4 0\<rparr>"

record slice =
  sl_data :: "byte list"
  sl_spare :: "byte list"

definition nil_slice :: slice where
  "nil_slice = \<lparr>sl_data = [], sl_spare = []\<rparr>"

text \<open>\<open>s[lo:hi]\<close> on a slice: the upper bound may reach up to the capacity.\<close>

definition reslice :: "nat \<Rightarrow> nat \<Rightarrow> slice \<Rightarrow> byte list exec" where
  "reslice lo hi s =
     (if lo \<le> hi \<and> hi \<le> length (sl_data s) + length (sl_spare s)
      then Ret (sub_slice lo hi (sl_data s @ sl_spare s))
      else Panic ''slice bounds out of range'')"

definition finBit :: byte where "finBit = 0x80"
definition rsvBits :: byte where "rsvBits = 0x70"
definition opBit :: byte where "opBit = 0x0f"
definition maskBit :: byte where "maskBit = 0x80"
definition lenBit :: byte where "lenBit = 0x7f"
definition continuationFrame :: nat where "continuationFrame = 0"
definition continuationFrameMaxRead :: nat where "continuationFrameMaxRead = 100"
definition TextMessage :: nat where "TextMessage = 1"
definition BinaryMessage :: nat where "BinaryMessage = 2"
definition CloseMessage :: nat where "CloseMessage = 8"
definition PingMessage :: nat where "PingMessage = 9"
definition PongMessage :: nat where "PongMessage = 10"

lemmas ws_consts = finBit_def rsvBits_def opBit_def maskBit_def lenBit_def continuationFrame_def
  continuationFrameMaxRead_def TextMessage_def BinaryMessage_def CloseMessage_def
  PingMessage_def PongMessage_def

section \<open>Writing\<close>

text \<open>\<open>Peek\<close> some bytes of the writer's buffer and fill them.\<close>

definition peek_put :: "'io wr_fun \<Rightarrow> byte list \<Rightarrow> 'io bufw \<Rightarrow> (gerr option \<times> 'io bufw) exec" where
  "peek_put wr data b =
     exec_bind (w_Peek wr b (int (length data))) (\<lambda>(r, b1). case r of
       Inl e \<Rightarrow> Ret (Some e, b1)
     | Inr off \<Rightarrow> Ret (None, w_poke b1 off data))"

definition err_then ::
    "(gerr option \<times> 's) exec \<Rightarrow> ('s \<Rightarrow> (gerr option \<times> 's) exec) \<Rightarrow> (gerr option \<times> 's) exec" where
  "err_then m f = exec_bind m (\<lambda>(e, s). case e of Some err \<Rightarrow> Ret (Some err, s) | None \<Rightarrow> f s)"

lemma err_then_simps [simp, go_simps]:
  "err_then (Ret (None, s)) f = f s"
  "err_then (Ret (Some e, s)) f = Ret (Some e, s)"
  by (simp_all add: err_then_def)

definition WriteHeader :: "'io wr_fun \<Rightarrow> nat \<Rightarrow> nat \<Rightarrow> 'io bufw \<Rightarrow> (gerr option \<times> 'io bufw) exec" where
  "WriteHeader wr msgType len b =
     (let b0 = finBit OR of_nat msgType in
      if len \<le> 125 then peek_put wr [b0, of_nat len] b
      else if len < 65536
      then err_then (peek_put wr [b0, 126] b) (peek_put wr (PutUint16 (of_nat len)))
      else err_then (peek_put wr [b0, 127] b) (peek_put wr (PutUint64 (of_nat len))))"

definition WriteBody :: "'io wr_fun \<Rightarrow> byte list \<Rightarrow> 'io bufw \<Rightarrow> (gerr option \<times> 'io bufw) exec" where
  "WriteBody wr d b =
     (if d \<noteq> [] then exec_bind (w_Write wr b d) (\<lambda>(_, e, b'). Ret (e, b')) else Ret (None, b))"

definition WriteMessage ::
    "'io wr_fun \<Rightarrow> nat \<Rightarrow> byte list \<Rightarrow> 'io bufw \<Rightarrow> (gerr option \<times> 'io bufw) exec" where
  "WriteMessage wr msgType msg b =
     err_then (WriteHeader wr msgType (length msg) b) (WriteBody wr msg)"

section \<open>Reading\<close>

text \<open>The unmasked bytes and the key position for the bytes that follow.\<close>

fun maskBytes :: "byte list \<Rightarrow> nat \<Rightarrow> byte list \<Rightarrow> byte list \<times> nat" where
  "maskBytes key pos [] = ([], pos mod 4)"
| "maskBytes key pos (x # xs) =
     (let (ys, p) = maskBytes key (Suc pos) xs in ((x XOR key ! (pos mod 4)) # ys, p))"

definition frame_len :: "'r rd_fun \<Rightarrow> byte \<Rightarrow> 'r bufr \<Rightarrow> ((gerr + i64) \<times> 'r bufr) exec" where
  "frame_len rd b1 rr =
     (let l = b1 AND lenBit in
      if l = 126 then ok_bind (r_Pop rd rr 2) (\<lambda>p rr'. Ret (Inr (ucast (Uint16 p)), rr'))
      else if l = 127 then ok_bind (r_Pop rd rr 8) (\<lambda>p rr'. Ret (Inr (Uint64 p), rr'))
      else Ret (Inr (ucast l), rr))"

text \<open>\<open>readFrame\<close> on the reader and the cached masking key, in three parts: the header, the key
  and the payload. The payload is unmasked in place, inside the reader's buffer.\<close>

definition with_key :: "'k \<Rightarrow> ('a \<times> 's) exec \<Rightarrow> ('a \<times> 's \<times> 'k) exec" where
  "with_key key m = exec_bind m (\<lambda>(r, rr). Ret (r, rr, key))"

lemma with_key_simps [simp, go_simps]:
  "with_key key (Ret (r, rr)) = Ret (r, rr, key)"
  "with_key key (Panic m) = Panic m"
  "with_key key Spin = Spin"
  by (simp_all add: with_key_def)

type_synonym 'r frame_exec = "((gerr + bool \<times> nat \<times> slice) \<times> 'r bufr \<times> byte list) exec"

definition frame_key ::
    "'r rd_fun \<Rightarrow> bool \<Rightarrow> 'r bufr \<Rightarrow> byte list \<Rightarrow> ((gerr + unit) \<times> 'r bufr \<times> byte list) exec" where
  "frame_key rd masked rr key =
     (if masked
      then ok_bind (with_key key (r_Pop rd rr 4)) (\<lambda>k (rr, key).
             Ret (Inr (), rr, overwrite 0 k (if key = [] then replicate 4 0 else key)))
      else Ret (Inr (), rr, key))"

definition frame_payload ::
    "'r rd_fun \<Rightarrow> bool \<Rightarrow> nat \<Rightarrow> bool \<Rightarrow> i64 \<Rightarrow> 'r bufr \<Rightarrow> byte list \<Rightarrow> 'r frame_exec" where
  "frame_payload rd fin op masked payloadLen rr key =
     (if 0 < sint payloadLen
      then ok_bind (with_key key (r_Pop rd rr (sint payloadLen))) (\<lambda>d (rr, key).
             let d' = (if masked then fst (maskBytes key 0 d) else d);
                 rr' = rr\<lparr>r_buf := overwrite (r_r rr - length d) d' (r_buf rr)\<rparr>
             in Ret (Inr (fin, op, \<lparr>sl_data = d', sl_spare = drop (r_r rr') (r_buf rr') @ r_tail rr'\<rparr>),
                     rr', key))
      else Ret (Inr (fin, op, nil_slice), rr, key))"

definition readFrame :: "'r rd_fun \<Rightarrow> 'r bufr \<times> byte list \<Rightarrow> 'r frame_exec" where
  "readFrame rd = (\<lambda>(rr, key).
     ok_bind (with_key key (r_ReadByte rd rr)) (\<lambda>b0 (rr, key).
       let fin = (b0 AND finBit \<noteq> 0); op = unat (b0 AND opBit) in
       if b0 AND rsvBits \<noteq> 0 then Ret (Inl (Text ''unexpected reserved bits''), rr, key)
       else ok_bind (with_key key (r_ReadByte rd rr)) (\<lambda>b1 (rr, key).
         let masked = (b1 AND maskBit \<noteq> 0) in
         ok_bind (with_key key (frame_len rd b1 rr)) (\<lambda>payloadLen (rr, key).
           ok_bind (frame_key rd masked rr key) (\<lambda>_ (rr, key).
             frame_payload rd fin op masked payloadLen rr key)))))"

text \<open>The loop of \<open>ReadMessage\<close>: the count of frames, the first frame's code, what has been
  assembled, and the answer once there is one.\<close>

record ('r, 'w) rm_state =
  rm_n :: nat
  rm_finOp :: nat
  rm_payload :: slice
  rm_conn :: "('r, 'w) ws_conn"
  rm_res :: "(gerr + nat \<times> slice) option"

definition append_slice :: "(nat \<Rightarrow> nat \<Rightarrow> nat) \<Rightarrow> slice \<Rightarrow> byte list \<Rightarrow> slice" where
  "append_slice room s d =
     (if length d \<le> length (sl_spare s)
      then \<lparr>sl_data = sl_data s @ d, sl_spare = drop (length d) (sl_spare s)\<rparr>
      else \<lparr>sl_data = sl_data s @ d,
            sl_spare = replicate (room (length (sl_data s)) (length d)) 0\<rparr>)"

definition rm_count :: "('r, 'w) rm_state \<Rightarrow> ('r, 'w) rm_state" where
  "rm_count s =
     (if continuationFrameMaxRead < rm_n s then s\<lparr>rm_res := Some (Inl ErrMessageMaxRead)\<rparr>
      else s\<lparr>rm_n := rm_n s + 1\<rparr>)"

definition ReadMessage_step ::
    "'r rd_fun \<Rightarrow> 'w wr_fun \<Rightarrow> (nat \<Rightarrow> nat \<Rightarrow> nat) \<Rightarrow> ('r, 'w) rm_state \<Rightarrow> ('r, 'w) rm_state exec" where
  "ReadMessage_step rd wr room s =
     exec_bind (readFrame rd (ws_r (rm_conn s), ws_key (rm_conn s))) (\<lambda>(r, rr, key).
       let c = (rm_conn s)\<lparr>ws_r := rr, ws_key := key\<rparr>; s1 = s\<lparr>rm_conn := c\<rparr> in
       case r of
         Inl e \<Rightarrow> Ret (s1\<lparr>rm_res := Some (Inl e)\<rparr>)
       | Inr (fin, op, part) \<Rightarrow>
           if op = BinaryMessage \<or> op = TextMessage \<or> op = continuationFrame then
             (if fin \<and> sl_data (rm_payload s) = [] then Ret (s1\<lparr>rm_res := Some (Inr (op, part))\<rparr>)
              else
                let s2 = s1\<lparr>rm_payload := append_slice room (rm_payload s) (sl_data part),
                            rm_finOp := (if op \<noteq> continuationFrame then op else rm_finOp s)\<rparr>
                in if fin then Ret (s2\<lparr>rm_res := Some (Inr (rm_finOp s2, rm_payload s2))\<rparr>)
                   else Ret (rm_count s2))
           else if op = PingMessage then
             exec_bind (WriteMessage wr PongMessage (sl_data part) (ws_w c)) (\<lambda>(e, w).
               let s2 = s1\<lparr>rm_conn := c\<lparr>ws_w := w\<rparr>\<rparr>
               in case e of Some err \<Rightarrow> Ret (s2\<lparr>rm_res := Some (Inl err)\<rparr>) | None \<Rightarrow> Ret (rm_count s2))
           else if op = PongMessage then Ret (rm_count s1)
           else if op = CloseMessage then Ret (s1\<lparr>rm_res := Some (Inl ErrMessageClose)\<rparr>)
           else Ret (s1\<lparr>rm_res := Some (Inl (Text ''unknown control message''))\<rparr>))"

definition ReadMessage ::
    "'r rd_fun \<Rightarrow> 'w wr_fun \<Rightarrow> (nat \<Rightarrow> nat \<Rightarrow> nat) \<Rightarrow> ('r, 'w) ws_conn \<Rightarrow>
     ((gerr + nat \<times> slice) \<times> ('r, 'w) ws_conn) exec" where
  "ReadMessage rd wr room c0 =
     exec_bind
       (exec_loop (\<lambda>s. rm_res s = None) (ReadMessage_step rd wr room)
          \<lparr>rm_n = 0, rm_finOp = 0, rm_payload = nil_slice, rm_conn = c0, rm_res = None\<rparr>)
       (\<lambda>s. case rm_res s of Some r \<Rightarrow> Ret (r, rm_conn s) | None \<Rightarrow> Spin)"

section \<open>Packets\<close>

definition ReadWebsocket ::
    "'r rd_fun \<Rightarrow> 'w wr_fun \<Rightarrow> (nat \<Rightarrow> nat \<Rightarrow> nat) \<Rightarrow> proto \<Rightarrow> ('r, 'w) ws_conn \<Rightarrow>
     (gerr option \<times> proto \<times> ('r, 'w) ws_conn) exec" where
  "ReadWebsocket rd wr room p c0 =
     exec_bind (ReadMessage rd wr room c0) (\<lambda>(r, c). case r of
       Inl e \<Rightarrow> Ret (Some e, p, c)
     | Inr (_, sl) \<Rightarrow>
         let buf = sl_data sl in
         if length buf < rawHeaderSize then Ret (Some ErrProtoPackLen, p, c)
         else
           exec_bind (Int32 (sub_slice 0 4 buf)) (\<lambda>packLen.
           exec_bind (Int16 (sub_slice 4 6 buf)) (\<lambda>headerLen.
           exec_bind (Int16 (sub_slice 6 8 buf)) (\<lambda>ver.
           exec_bind (Int32 (sub_slice 8 12 buf)) (\<lambda>op.
           exec_bind (Int32 (drop 12 buf)) (\<lambda>seq.
             let p1 = p\<lparr>Ver := scast ver, Op := op, Seq := seq\<rparr> in
             if packLen <s 0 \<or> maxPackSize <s packLen then Ret (Some ErrProtoPackLen, p1, c)
             else if headerLen \<noteq> of_nat rawHeaderSize then Ret (Some ErrProtoHeaderLen, p1, c)
             else let bodyLen = sint (packLen - scast headerLen)
                  in if 0 < bodyLen
                     then exec_bind (reslice (unat headerLen) (unat packLen) sl) (\<lambda>d.
                            Ret (None, p1\<lparr>Body := Some d\<rparr>, c))
                     else Ret (None, p1\<lparr>Body := None\<rparr>, c)))))))"

definition ws_put_header ::
    "'io wr_fun \<Rightarrow> i32 \<Rightarrow> proto \<Rightarrow> 'io bufw \<Rightarrow> (gerr option \<times> 'io bufw) exec" where
  "ws_put_header wr packLen p b =
     put_frame (\<lambda>b n. w_Peek wr b (int n)) w_region w_poke (w_Write wr) packLen p None b"

definition WriteWebsocket :: "'io wr_fun \<Rightarrow> proto \<Rightarrow> 'io bufw \<Rightarrow> (gerr option \<times> 'io bufw) exec" where
  "WriteWebsocket wr p b =
     (if Op p = OpRaw \<and> rawHeaderSize < length (body_bytes p)
      then let data = drop rawHeaderSize (body_bytes p);
               packLen = rawHeaderSize + length data
           in err_then (WriteHeader wr BinaryMessage packLen b) (\<lambda>b1.
              err_then (ws_put_header wr (of_nat packLen) p b1) (WriteBody wr data))
      else let packLen = rawHeaderSize + length (body_bytes p)
           in err_then (WriteHeader wr BinaryMessage packLen b) (\<lambda>b1.
              err_then (ws_put_header wr (of_nat packLen) p b1) (\<lambda>b2.
                case Body p of None \<Rightarrow> Ret (None, b2) | Some d \<Rightarrow> WriteBody wr d b2)))"

definition WriteWebsocketHeart ::
    "'io wr_fun \<Rightarrow> proto \<Rightarrow> 'io bufw \<Rightarrow> i32 \<Rightarrow> (gerr option \<times> 'io bufw) exec" where
  "WriteWebsocketHeart wr p b online =
     err_then (WriteHeader wr BinaryMessage (rawHeaderSize + heartSize) b) (\<lambda>b1.
       WriteTCPHeart wr p b1 online)"

section \<open>Frames\<close>

definition len_code :: "nat \<Rightarrow> byte" where
  "len_code n = (if n \<le> 125 then of_nat n else if n < 65536 then 126 else 127)"

definition len_ext :: "nat \<Rightarrow> byte list" where
  "len_ext n = (if n \<le> 125 then [] else if n < 65536 then PutUint16 (of_nat n) else PutUint64 (of_nat n))"

text \<open>A frame as either side sends it; \<open>key\<close> is empty in an unmasked one.\<close>

definition ws_frame :: "bool \<Rightarrow> nat \<Rightarrow> byte list \<Rightarrow> byte list \<Rightarrow> byte list" where
  "ws_frame fin op key d =
     ((if fin then finBit else 0) OR of_nat op)
     # ((if key = [] then 0 else maskBit) OR len_code (length d))
     # len_ext (length d) @ key @ (if key = [] then d else fst (maskBytes key 0 d))"

lemma length_maskBytes [simp]: "length (fst (maskBytes key pos d)) = length d"
  by (induction key pos d rule: maskBytes.induct) (auto split: prod.splits)

lemma maskBytes_involution: "fst (maskBytes key pos (fst (maskBytes key pos d))) = d"
  by (induction key pos d rule: maskBytes.induct)
    (auto split: prod.splits simp: xor.assoc)

lemma maskBytes_append:
  "maskBytes key pos (d @ e) =
    (let (x, p) = maskBytes key pos d; (y, q) = maskBytes key p e in (x @ y, q))"
proof (induction key pos d rule: maskBytes.induct)
  case (1 key pos)
  have "maskBytes key (pos mod 4) e = maskBytes key pos e"
  proof (induction e arbitrary: pos)
    case (Cons a e)
    from Cons [of "Suc (pos mod 4)"] Cons [of "Suc pos"] show ?case by (simp add: mod_Suc_eq)
  qed simp
  then show ?case by (simp split: prod.splits)
next
  case (2 key pos x xs)
  then show ?case by (simp split: prod.splits)
qed

section \<open>The header bytes\<close>

lemma op_byte:
  assumes "op < 16"
  shows "((if fin then finBit else 0) OR of_nat op) AND finBit \<noteq> 0 \<longleftrightarrow> fin"
    "((if fin then finBit else 0) OR of_nat op) AND rsvBits = 0"
    "unat (((if fin then finBit else 0) OR of_nat op) AND opBit) = op"
proof -
  have "op \<in> {0, 1, 2, 3, 4, 5, 6, 7, 8, 9, 10, 11, 12, 13, 14, 15}"
    unfolding insert_iff empty_iff using assms by presburger
  then show "((if fin then finBit else 0) OR of_nat op) AND finBit \<noteq> 0 \<longleftrightarrow> fin"
    "((if fin then finBit else 0) OR of_nat op) AND rsvBits = 0"
    "unat (((if fin then finBit else 0) OR of_nat op) AND opBit) = op"
    by (elim insertE; simp add: ws_consts)+
qed

lemma len_code_low: "take_bit 7 (len_code n) = len_code n"
proof -
  have "take_bit 7 (of_nat n :: byte) = of_nat n" if "n \<le> 125"
    using that by (simp add: take_bit_of_nat take_bit_nat_eq_self)
  then show ?thesis by (simp add: len_code_def)
qed

lemma len_byte:
  "((if m then maskBit else 0) OR len_code n) AND maskBit \<noteq> 0 \<longleftrightarrow> m"
  "((if m then maskBit else 0) OR len_code n) AND lenBit = len_code n"
proof -
  have l: "lenBit = mask 7" by (simp add: lenBit_def mask_eq_exp_minus_1)
  have e: "maskBit = 2 ^ 7" by (simp add: maskBit_def)
  have "\<not> bit (len_code n) 7"
    using len_code_low [of n] by (metis bit_take_bit_iff less_irrefl)
  then have "len_code n AND maskBit = 0" unfolding e by (simp only: and_exp_eq_0_iff_not_bit not_False_eq_True)
  moreover have "maskBit AND maskBit \<noteq> 0" "maskBit AND lenBit = 0"
    by (simp_all add: maskBit_def lenBit_def)
  moreover have "len_code n AND lenBit = len_code n"
    using len_code_low [of n] by (simp add: l flip: take_bit_eq_mask)
  ultimately show "((if m then maskBit else 0) OR len_code n) AND maskBit \<noteq> 0 \<longleftrightarrow> m"
    "((if m then maskBit else 0) OR len_code n) AND lenBit = len_code n"
    by (simp_all add: bit.conj_disj_distrib2)
qed

lemma len_code_cases:
  "len_code n = 126 \<longleftrightarrow> 125 < n \<and> n < 65536" "len_code n = 127 \<longleftrightarrow> 65536 \<le> n"
proof -
  have "unat (of_nat n :: byte) = n" if "n \<le> 125"
    using that by (simp add: unsigned_of_nat take_bit_nat_eq_self)
  then have "n \<le> 125 \<Longrightarrow> (of_nat n :: byte) \<noteq> 126 \<and> (of_nat n :: byte) \<noteq> 127"
    by (auto dest!: arg_cong [of _ _ unat])
  then show "len_code n = 126 \<longleftrightarrow> 125 < n \<and> n < 65536" "len_code n = 127 \<longleftrightarrow> 65536 \<le> n"
    by (auto simp: len_code_def)
qed

section \<open>Writing frames\<close>

context live_buffered_writer
begin

lemma peek_put_live:
  assumes "w_live b" "length data \<le> length (w_buf b)"
  shows "\<exists>b'. peek_put wr data b = Ret (None, b') \<and> w_live b'
    \<and> length (w_buf b') = length (w_buf b) \<and> accepted b' = accepted b @ data"
proof -
  have "0 \<le> int (length data)" "int (length data) \<le> int (length (w_buf b))"
    "length data = nat (int (length data))" using assms(2) by simp_all
  from Peek_live [OF assms(1) this] show ?thesis by (auto simp: peek_put_def)
qed

lemma err_then_live:
  assumes "\<exists>b'. m = Ret (None, b') \<and> w_live b' \<and> length (w_buf b') = k \<and> accepted b' = x"
    and "\<And>b'. w_live b' \<Longrightarrow> length (w_buf b') = k \<Longrightarrow> accepted b' = x \<Longrightarrow>
      \<exists>b''. f b' = Ret (None, b'') \<and> w_live b'' \<and> length (w_buf b'') = k \<and> accepted b'' = y"
  shows "\<exists>b''. err_then m f = Ret (None, b'') \<and> w_live b'' \<and> length (w_buf b'') = k \<and> accepted b'' = y"
  using assms by fastforce

lemma WriteHeader_live:
  assumes "w_live b" "8 \<le> length (w_buf b)"
  shows "\<exists>b'. WriteHeader wr op n b = Ret (None, b') \<and> w_live b'
    \<and> length (w_buf b') = length (w_buf b)
    \<and> accepted b' = accepted b @ (finBit OR of_nat op) # len_code n # len_ext n"
proof -
  have two: "\<exists>b''. err_then (peek_put wr [c0, c1] b) (peek_put wr ext) = Ret (None, b'') \<and> w_live b''
      \<and> length (w_buf b'') = length (w_buf b) \<and> accepted b'' = accepted b @ c0 # c1 # ext"
    if "length ext \<le> 8" for c0 c1 ext
  proof (rule err_then_live)
    show "\<exists>b'. peek_put wr [c0, c1] b = Ret (None, b') \<and> w_live b'
        \<and> length (w_buf b') = length (w_buf b) \<and> accepted b' = accepted b @ [c0, c1]"
      using peek_put_live [OF assms(1), of "[c0, c1]"] assms(2) by simp
    fix b1
    assume "w_live b1" "length (w_buf b1) = length (w_buf b)" "accepted b1 = accepted b @ [c0, c1]"
    with peek_put_live [of b1 ext] that assms(2)
    show "\<exists>b''. peek_put wr ext b1 = Ret (None, b'') \<and> w_live b''
        \<and> length (w_buf b'') = length (w_buf b) \<and> accepted b'' = accepted b @ c0 # c1 # ext" by simp
  qed
  have one: "\<exists>b'. peek_put wr [c0, c1] b = Ret (None, b') \<and> w_live b'
      \<and> length (w_buf b') = length (w_buf b) \<and> accepted b' = accepted b @ [c0, c1]" for c0 c1
    using peek_put_live [OF assms(1), of "[c0, c1]"] assms(2) by simp
  show ?thesis
    using one [of "finBit OR of_nat op" "of_nat n"]
      two [of "PutUint16 (of_nat n)" "finBit OR of_nat op" 126]
      two [of "PutUint64 (of_nat n)" "finBit OR of_nat op" 127]
    by (simp add: WriteHeader_def Let_def len_code_def len_ext_def)
qed

lemma WriteBody_live:
  assumes "w_live b"
  shows "\<exists>b'. WriteBody wr d b = Ret (None, b') \<and> w_live b'
    \<and> length (w_buf b') = length (w_buf b) \<and> accepted b' = accepted b @ d"
  using Write_live [OF assms, of d] assms by (auto simp: WriteBody_def)

lemma ws_put_header_live:
  assumes "w_live b" "16 \<le> length (w_buf b)"
  shows "\<exists>b'. ws_put_header wr l p b = Ret (None, b') \<and> w_live b'
    \<and> length (w_buf b') = length (w_buf b) \<and> accepted b' = accepted b @ proto_header l p"
proof -
  obtain off b1 where "w_Peek wr b 16 = Ret (Inr off, b1)" "length (w_region b1 off 16) = 16"
    "w_live (w_poke b1 off (proto_header l p))"
    "accepted (w_poke b1 off (proto_header l p)) = accepted b @ proto_header l p"
    "length (w_buf (w_poke b1 off (proto_header l p))) = length (w_buf b)"
    using Peek_live [OF assms(1), of 16 "proto_header l p"] assms(2) by auto
  then show ?thesis by (simp add: ws_put_header_def put_frame_def put_header_16)
qed

lemma WriteMessage_live:
  assumes "w_live b" "8 \<le> length (w_buf b)"
  shows "\<exists>b'. WriteMessage wr op d b = Ret (None, b') \<and> w_live b'
    \<and> length (w_buf b') = length (w_buf b) \<and> accepted b' = accepted b @ ws_frame True op [] d"
  unfolding WriteMessage_def
  by (rule err_then_live [OF WriteHeader_live [OF assms]])
    (use WriteBody_live in \<open>fastforce simp: ws_frame_def\<close>)

end

section \<open>Parsing frames\<close>

text \<open>The frames that follow the first one of a fragmented message.\<close>

fun cont_frames :: "(byte list \<times> byte list) list \<Rightarrow> byte list" where
  "cont_frames [] = []"
| "cont_frames [(mk, d)] = ws_frame True continuationFrame mk d"
| "cont_frames ((mk, d) # x # xs) = ws_frame False continuationFrame mk d @ cont_frames (x # xs)"

definition frag_ok :: "nat \<Rightarrow> byte list \<times> byte list \<Rightarrow> bool" where
  "frag_ok k = (\<lambda>(mk, d). length d \<le> k \<and> length d < 2 ^ 63 \<and> (mk = [] \<or> length mk = 4))"

lemma sint_of_nat64: "n < 2 ^ 63 \<Longrightarrow> sint (of_nat n :: i64) = int n"
  using signed_take_bit_int_eq_self [of 63 "int n"] by (simp add: signed_of_nat)

context live_buffered_reader
begin

text \<open>\<open>at k t s rr\<close>: a reader with a buffer of \<open>k\<close> bytes from which \<open>s\<close> will be read.\<close>

definition at :: "nat \<Rightarrow> byte list \<Rightarrow> byte list \<Rightarrow> 'a bufr \<Rightarrow> bool" where
  "at k t s rr \<longleftrightarrow> live_ok rr \<and> length (r_buf rr) = k \<and> r_tail rr = t \<and> pending rr = s"

lemma at_ReadByte:
  assumes "at k t (x # rest) rr" "0 < k"
  obtains rr' where "r_ReadByte rd rr = Ret (Inr x, rr')" "at k t rest rr'"
  using ReadByte_live [of rr x rest] assms
  by (fastforce simp: at_def consumed_def same_buf_def)

lemma at_Pop:
  assumes "at k t (d @ rest) rr" "length d \<le> k" "n = int (length d)"
  obtains rr' where "r_Pop rd rr n = Ret (Inr d, rr')" "at k t rest rr'" "length d \<le> r_r rr'"
proof -
  have "live_ok rr" "0 \<le> n" "n \<le> int (length (r_buf rr))" "nat n \<le> length (pending rr)"
    using assms by (auto simp: at_def)
  from Pop_live [OF this] obtain rr' where "r_Pop rd rr n = Ret (Inr (take (nat n) (pending rr)), rr')"
    "live_ok rr'" "consumed (nat n) rr rr'" "nat n \<le> r_r rr'" by blast
  with assms that [of rr'] show ?thesis by (auto simp: at_def consumed_def same_buf_def)
qed

lemma at_overwrite:
  assumes "at k t s rr" "length d \<le> r_r rr"
  shows "at k t s (rr\<lparr>r_buf := overwrite (r_r rr - length d) d (r_buf rr)\<rparr>)"
    "drop (r_r rr) (overwrite (r_r rr - length d) d (r_buf rr)) = drop (r_r rr) (r_buf rr)"
proof -
  have le: "r_r rr \<le> r_w rr" "r_w rr \<le> length (r_buf rr)"
    using assms(1) by (auto simp: at_def live_ok_def rd_ok_def r_ok_def)
  show d: "drop (r_r rr) (overwrite (r_r rr - length d) d (r_buf rr)) = drop (r_r rr) (r_buf rr)"
    using assms(2) le by (simp add: overwrite_def)
  show "at k t s (rr\<lparr>r_buf := overwrite (r_r rr - length d) d (r_buf rr)\<rparr>)"
    using assms le d
    by (simp add: at_def live_ok_def rd_ok_def r_ok_def pending_def r_window_def sub_slice_def)
qed

lemma frame_len_live:
  assumes "at k t (len_ext n @ rest) rr" "8 \<le> k" "n < 2 ^ 63"
  obtains w rr' where "frame_len rd ((if m then maskBit else 0) OR len_code n) rr = Ret (Inr w, rr')"
    "sint w = int n" "at k t rest rr'"
proof -
  consider "n \<le> 125" | "125 < n" "n < 65536" | "65536 \<le> n" by linarith
  then show ?thesis
  proof cases
    case 1
    then have "frame_len rd ((if m then maskBit else 0) OR len_code n) rr = Ret (Inr (of_nat n), rr)"
      using len_code_cases [of n]
      by (simp add: frame_len_def Let_def len_byte)
        (simp add: len_code_def unsigned_of_nat take_bit_nat_eq_self)
    with that [of "of_nat n" rr] 1 assms show ?thesis by (simp add: sint_of_nat64 len_ext_def)
  next
    case 2
    with assms(1) have "at k t (PutUint16 (of_nat n) @ rest) rr" by (simp add: len_ext_def)
    then obtain rr' where "r_Pop rd rr 2 = Ret (Inr (PutUint16 (of_nat n)), rr')" "at k t rest rr'"
      by (rule at_Pop [where n = 2]) (use assms(2) in simp_all)
    with that [of "of_nat n" rr'] 2 assms(3) show ?thesis
      using len_code_cases [of n]
      by (simp add: frame_len_def Let_def len_byte sint_of_nat64 unsigned_of_nat take_bit_nat_eq_self)
  next
    case 3
    with assms(1) have "at k t (PutUint64 (of_nat n) @ rest) rr" by (simp add: len_ext_def)
    then obtain rr' where "r_Pop rd rr 8 = Ret (Inr (PutUint64 (of_nat n)), rr')" "at k t rest rr'"
      by (rule at_Pop [where n = 8]) (use assms(2) in simp_all)
    with that [of "of_nat n" rr'] 3 assms(3) show ?thesis
      using len_code_cases [of n]
      by (simp add: frame_len_def Let_def len_byte sint_of_nat64)
  qed
qed

text \<open>A frame is parsed back, masked or not; the memory behind its payload is the rest of the
  reader's buffer.\<close>

lemma readFrame_live:
  assumes pend: "at k t (ws_frame fin op mk d @ rest) rr"
    and k: "8 \<le> k" "length d \<le> k" and op: "op < 16" and n: "length d < 2 ^ 63"
    and mk: "mk = [] \<or> length mk = 4" and key: "length key = 4"
  obtains rr' key' sl where "readFrame rd (rr, key) = Ret (Inr (fin, op, sl), rr', key')"
    "at k t rest rr'" "length key' = 4" "sl_data sl = d"
    "d \<noteq> [] \<longrightarrow> sl_spare sl = drop (r_r rr') (r_buf rr') @ r_tail rr'"
proof -
  let ?b0 = "(if fin then finBit else 0) OR of_nat op"
  let ?m = "mk \<noteq> []"
  let ?b1 = "(if ?m then maskBit else 0) OR len_code (length d)"
  define d' where "d' = (if ?m then fst (maskBytes mk 0 d) else d)"
  have ld': "length d' = length d" by (simp add: d'_def)
  have "at k t (?b0 # ?b1 # len_ext (length d) @ mk @ d' @ rest) rr"
    using pend by (auto simp: ws_frame_def d'_def)
  then obtain r1 where r1: "r_ReadByte rd rr = Ret (Inr ?b0, r1)"
    "at k t (?b1 # len_ext (length d) @ mk @ d' @ rest) r1"
    by (rule at_ReadByte) (use k in simp)
  obtain r2 where r2: "r_ReadByte rd r1 = Ret (Inr ?b1, r2)"
    "at k t (len_ext (length d) @ mk @ d' @ rest) r2"
    by (rule at_ReadByte [OF r1(2)]) (use k in simp)
  obtain w r3 where r3: "frame_len rd ?b1 r2 = Ret (Inr w, r3)" "sint w = int (length d)"
    "at k t (mk @ d' @ rest) r3"
    by (rule frame_len_live [OF r2(2) k(1) n])
  obtain r4 where r4: "?m \<Longrightarrow> r_Pop rd r3 4 = Ret (Inr mk, r4)" "\<not> ?m \<Longrightarrow> r4 = r3"
    "at k t (d' @ rest) r4"
  proof (cases ?m)
    case True
    show ?thesis
      by (rule at_Pop [OF r3(3), of 4]) (use True mk k that in auto)
  next
    case False
    with r3(3) that [of r3] show ?thesis by simp
  qed
  define key' where "key' = (if ?m then overwrite 0 mk key else key)"
  have key': "length key' = 4" "?m \<Longrightarrow> key' = mk"
    using key mk by (auto simp: key'_def overwrite_same_length)
  have ne: "key \<noteq> []" using key by auto
  have fk: "frame_key rd ?m r3 key = Ret (Inr (), r4, key')"
    using r4(1,2) ne by (cases ?m) (simp_all add: frame_key_def key'_def)
  have upto: "readFrame rd (rr, key) = frame_payload rd fin op ?m w r4 key'"
    unfolding readFrame_def by (simp only: prod.case r1(1) with_key_simps ok_bind_simps Let_def
      op_byte [OF op] r2(1) r3(1) len_byte fk not_True_eq_False if_False simp_thms)
  show ?thesis
  proof (cases "d = []")
    case True
    with upto r3(2) r4(3) key' ld' that [of nil_slice r4 key'] show ?thesis
      by (simp add: nil_slice_def frame_payload_def)
  next
    case False
    then have pos: "0 < sint w" using r3(2) by simp
    obtain r5 where r5: "r_Pop rd r4 (sint w) = Ret (Inr d', r5)" "at k t rest r5" "length d' \<le> r_r r5"
      by (rule at_Pop [OF r4(3), of "sint w"]) (use ld' k r3(2) in auto)
    let ?y = "if ?m then fst (maskBytes key' 0 d') else d'"
    have y: "?y = d" using key' by (auto simp: d'_def maskBytes_involution)
    have run: "readFrame rd (rr, key) =
        Ret (Inr (fin, op, \<lparr>sl_data = d, sl_spare = drop (r_r r5) (r_buf r5) @ r_tail r5\<rparr>),
             r5\<lparr>r_buf := overwrite (r_r r5 - length d) d (r_buf r5)\<rparr>, key')"
      using upto pos r5 y at_overwrite(2) [OF r5(2), of d] ld'
      by (simp add: frame_payload_def Let_def)
    show ?thesis
      by (rule that [OF run at_overwrite(1) [OF r5(2)] key'(1)])
        (use r5(3) ld' at_overwrite(2) [OF r5(2), of d] in simp_all)
  qed
qed

section \<open>Messages\<close>

text \<open>A connection whose reader is at \<open>s\<close>.\<close>

definition ws_at :: "nat \<Rightarrow> byte list \<Rightarrow> byte list \<Rightarrow> ('a, 'w) ws_conn \<Rightarrow> bool" where
  "ws_at k t s c \<longleftrightarrow> at k t s (ws_r c) \<and> length (ws_key c) = 4"

lemma step_frame:
  assumes "ws_at k t (ws_frame fin op mk d @ rest) (rm_conn s)"
    and "8 \<le> k" "length d \<le> k" "op < 16" "length d < 2 ^ 63" "mk = [] \<or> length mk = 4"
  obtains rr key sl where
    "readFrame rd (ws_r (rm_conn s), ws_key (rm_conn s)) = Ret (Inr (fin, op, sl), rr, key)"
    "ws_at k t rest ((rm_conn s)\<lparr>ws_r := rr, ws_key := key\<rparr>)" "sl_data sl = d"
    "d \<noteq> [] \<longrightarrow> sl_spare sl = drop (r_r rr) (r_buf rr) @ r_tail rr"
proof -
  have a: "at k t (ws_frame fin op mk d @ rest) (ws_r (rm_conn s))" "length (ws_key (rm_conn s)) = 4"
    using assms(1) by (simp_all add: ws_at_def)
  show ?thesis
    by (rule readFrame_live [OF a(1) assms(2,3,4,5,6) a(2)]) (rule that, simp_all add: ws_at_def)
qed

lemma ReadMessage_single:
  assumes "ws_at k t (ws_frame True op mk d @ rest) c" "op = TextMessage \<or> op = BinaryMessage"
    and "8 \<le> k" "length d \<le> k" "length d < 2 ^ 63" "mk = [] \<or> length mk = 4"
  obtains sl c' where "ReadMessage rd wr room c = Ret (Inr (op, sl), c')" "ws_at k t rest c'"
    "sl_data sl = d" "d \<noteq> [] \<longrightarrow> sl_spare sl = drop (r_r (ws_r c')) (r_buf (ws_r c')) @ r_tail (ws_r c')"
    "ws_w c' = ws_w c"
proof -
  let ?s = "\<lparr>rm_n = 0, rm_finOp = 0, rm_payload = nil_slice, rm_conn = c, rm_res = None\<rparr>"
  have a: "ws_at k t (ws_frame True op mk d @ rest) (rm_conn ?s)" "op < 16"
    using assms(1,2) by (auto simp: ws_consts)
  obtain rr key sl where f:
    "readFrame rd (ws_r (rm_conn ?s), ws_key (rm_conn ?s)) = Ret (Inr (True, op, sl), rr, key)"
    "ws_at k t rest ((rm_conn ?s)\<lparr>ws_r := rr, ws_key := key\<rparr>)" "sl_data sl = d"
    "d \<noteq> [] \<longrightarrow> sl_spare sl = drop (r_r rr) (r_buf rr) @ r_tail rr"
    by (rule step_frame [OF a(1) assms(3,4) a(2) assms(5,6)])
  have "ReadMessage_step rd wr room ?s
      = Ret (?s\<lparr>rm_conn := c\<lparr>ws_r := rr, ws_key := key\<rparr>, rm_res := Some (Inr (op, sl))\<rparr>)"
    using f(1) assms(2) by (auto simp: ReadMessage_step_def nil_slice_def)
  then have "ReadMessage rd wr room c = Ret (Inr (op, sl), c\<lparr>ws_r := rr, ws_key := key\<rparr>)"
    unfolding ReadMessage_def by (subst exec_loop_unfold, simp, subst exec_loop_unfold, simp)
  with f that [of sl "c\<lparr>ws_r := rr, ws_key := key\<rparr>"] show ?thesis by simp
qed

lemma append_slice_data [simp]: "sl_data (append_slice room s d) = sl_data s @ d"
  by (simp add: append_slice_def)

lemma assemble:
  assumes "ws_at k t (cont_frames fs @ rest) (rm_conn s)" "fs \<noteq> []" "\<forall>f \<in> set fs. frag_ok k f"
    and "8 \<le> k" "sl_data (rm_payload s) \<noteq> []" "rm_res s = None" "rm_n s + length fs \<le> 102"
  shows "\<exists>s' sl. exec_loop (\<lambda>s. rm_res s = None) (ReadMessage_step rd wr room) s = Ret s'
    \<and> rm_res s' = Some (Inr (rm_finOp s, sl)) \<and> sl_data sl = sl_data (rm_payload s) @ concat (map snd fs)
    \<and> ws_at k t rest (rm_conn s') \<and> ws_w (rm_conn s') = ws_w (rm_conn s)"
  using assms
proof (induction fs arbitrary: s rule: cont_frames.induct)
  case 1
  then show ?case by simp
next
  case (2 mk d)
  have a: "ws_at k t (ws_frame True continuationFrame mk d @ rest) (rm_conn s)"
    "length d \<le> k" "length d < 2 ^ 63" "mk = [] \<or> length mk = 4" "continuationFrame < 16"
    using 2 by (auto simp: frag_ok_def ws_consts)
  obtain rr key sl where f:
    "readFrame rd (ws_r (rm_conn s), ws_key (rm_conn s)) = Ret (Inr (True, continuationFrame, sl), rr, key)"
    "ws_at k t rest ((rm_conn s)\<lparr>ws_r := rr, ws_key := key\<rparr>)" "sl_data sl = d"
    by (rule step_frame [OF a(1) 2(4) a(2,5,3,4)])
  let ?s2 = "s\<lparr>rm_conn := (rm_conn s)\<lparr>ws_r := rr, ws_key := key\<rparr>,
    rm_payload := append_slice room (rm_payload s) d\<rparr>"
  have "ReadMessage_step rd wr room s
      = Ret (?s2\<lparr>rm_res := Some (Inr (rm_finOp s, append_slice room (rm_payload s) d))\<rparr>)"
    using f(1,3) 2(5) by (simp add: ReadMessage_step_def Let_def)
  with 2 f(2) show ?case by (subst exec_loop_unfold, simp, subst exec_loop_unfold, simp)
next
  case (3 mk d x xs)
  have a: "ws_at k t (ws_frame False continuationFrame mk d @ cont_frames (x # xs) @ rest) (rm_conn s)"
    "length d \<le> k" "length d < 2 ^ 63" "mk = [] \<or> length mk = 4" "continuationFrame < 16"
    using 3 by (auto simp: frag_ok_def ws_consts)
  obtain rr key sl where f:
    "readFrame rd (ws_r (rm_conn s), ws_key (rm_conn s)) = Ret (Inr (False, continuationFrame, sl), rr, key)"
    "ws_at k t (cont_frames (x # xs) @ rest) ((rm_conn s)\<lparr>ws_r := rr, ws_key := key\<rparr>)" "sl_data sl = d"
    by (rule step_frame [OF a(1) 3(5) a(2,5,3,4)])
  let ?s2 = "s\<lparr>rm_conn := (rm_conn s)\<lparr>ws_r := rr, ws_key := key\<rparr>,
    rm_payload := append_slice room (rm_payload s) d, rm_n := rm_n s + 1\<rparr>"
  have n: "\<not> continuationFrameMaxRead < rm_n s" using 3(8) by (simp add: continuationFrameMaxRead_def)
  have step: "ReadMessage_step rd wr room s = Ret ?s2"
    using f(1,3) n by (simp add: ReadMessage_step_def Let_def rm_count_def)
  have "\<exists>s' sl. exec_loop (\<lambda>s. rm_res s = None) (ReadMessage_step rd wr room) ?s2 = Ret s'
    \<and> rm_res s' = Some (Inr (rm_finOp ?s2, sl))
    \<and> sl_data sl = sl_data (rm_payload ?s2) @ concat (map snd (x # xs))
    \<and> ws_at k t rest (rm_conn s') \<and> ws_w (rm_conn s') = ws_w (rm_conn ?s2)"
    by (rule "3.IH") (use 3 f(2) in auto)
  with step 3(7) show ?case by (subst exec_loop_unfold) simp
qed

text \<open>A message in several frames, the first not empty, at most 102 in all.\<close>

lemma ReadMessage_fragments:
  assumes "ws_at k t (ws_frame False op mk d @ cont_frames fs @ rest) c"
    and "op = TextMessage \<or> op = BinaryMessage" "d \<noteq> []" "fs \<noteq> []"
    and "frag_ok k (mk, d)" "\<forall>f \<in> set fs. frag_ok k f" "8 \<le> k" "length fs \<le> 101"
  shows "\<exists>sl c'. ReadMessage rd wr room c = Ret (Inr (op, sl), c') \<and> ws_at k t rest c'
    \<and> sl_data sl = d @ concat (map snd fs) \<and> ws_w c' = ws_w c"
proof -
  let ?s = "\<lparr>rm_n = 0, rm_finOp = 0, rm_payload = nil_slice, rm_conn = c, rm_res = None\<rparr>"
  have a: "ws_at k t (ws_frame False op mk d @ cont_frames fs @ rest) (rm_conn ?s)" "op < 16"
    "length d \<le> k" "length d < 2 ^ 63" "mk = [] \<or> length mk = 4"
    using assms(1,2,5) by (auto simp: ws_consts frag_ok_def)
  obtain rr key sl where f:
    "readFrame rd (ws_r (rm_conn ?s), ws_key (rm_conn ?s)) = Ret (Inr (False, op, sl), rr, key)"
    "ws_at k t (cont_frames fs @ rest) ((rm_conn ?s)\<lparr>ws_r := rr, ws_key := key\<rparr>)" "sl_data sl = d"
    by (rule step_frame [OF a(1) assms(7) a(3,2,4,5)])
  let ?s2 = "\<lparr>rm_n = Suc 0, rm_finOp = op, rm_payload = append_slice room nil_slice d,
    rm_conn = c\<lparr>ws_r := rr, ws_key := key\<rparr>, rm_res = None\<rparr>"
  have step: "ReadMessage_step rd wr room ?s = Ret ?s2"
    using f(1,3) assms(2)
    by (auto simp: ReadMessage_step_def Let_def rm_count_def ws_consts)
  have "\<exists>s' sl. exec_loop (\<lambda>s. rm_res s = None) (ReadMessage_step rd wr room) ?s2 = Ret s'
    \<and> rm_res s' = Some (Inr (rm_finOp ?s2, sl)) \<and> sl_data sl = sl_data (rm_payload ?s2) @ concat (map snd fs)
    \<and> ws_at k t rest (rm_conn s') \<and> ws_w (rm_conn s') = ws_w (rm_conn ?s2)"
    by (rule assemble) (use assms f(2) in \<open>auto simp: nil_slice_def\<close>)
  then obtain s' sl' where s': "exec_loop (\<lambda>s. rm_res s = None) (ReadMessage_step rd wr room) ?s2 = Ret s'"
    "rm_res s' = Some (Inr (op, sl'))" "sl_data sl' = d @ concat (map snd fs)"
    "ws_at k t rest (rm_conn s')" "ws_w (rm_conn s') = ws_w c"
    by (auto simp: nil_slice_def)
  have "ReadMessage rd wr room c = Ret (Inr (op, sl'), rm_conn s')"
    unfolding ReadMessage_def by (subst exec_loop_unfold) (simp add: step s'(1,2))
  with s' show ?thesis by blast
qed

text \<open>When the first frame of a fragmented message is empty its code is lost: the message is
  returned with the code of the continuation frame.\<close>

lemma ReadMessage_empty_first:
  assumes "ws_at k t (ws_frame False op mk [] @ ws_frame True continuationFrame mk d @ rest) c"
    and "op = TextMessage \<or> op = BinaryMessage" "frag_ok k (mk, d)" "8 \<le> k"
  shows "\<exists>sl c'. ReadMessage rd wr room c = Ret (Inr (continuationFrame, sl), c') \<and> sl_data sl = d"
proof -
  let ?s = "\<lparr>rm_n = 0, rm_finOp = 0, rm_payload = nil_slice, rm_conn = c, rm_res = None\<rparr>"
  have a: "ws_at k t (ws_frame False op mk [] @ ws_frame True continuationFrame mk d @ rest) (rm_conn ?s)"
    "op < 16" "length d \<le> k" "length d < 2 ^ 63" "mk = [] \<or> length mk = 4" "continuationFrame < 16"
    using assms by (auto simp: ws_consts frag_ok_def)
  have z: "length ([] :: byte list) \<le> k" "length ([] :: byte list) < 2 ^ 63" by simp_all
  obtain rr key sl where f:
    "readFrame rd (ws_r (rm_conn ?s), ws_key (rm_conn ?s)) = Ret (Inr (False, op, sl), rr, key)"
    "ws_at k t (ws_frame True continuationFrame mk d @ rest) ((rm_conn ?s)\<lparr>ws_r := rr, ws_key := key\<rparr>)"
    "sl_data sl = []"
    by (rule step_frame [OF a(1) assms(4) z(1) a(2) z(2) a(5)])
  let ?s2 = "\<lparr>rm_n = Suc 0, rm_finOp = op, rm_payload = append_slice room nil_slice [],
    rm_conn = c\<lparr>ws_r := rr, ws_key := key\<rparr>, rm_res = None\<rparr>"
  have step: "ReadMessage_step rd wr room ?s = Ret ?s2"
    using f(1,3) assms(2) by (auto simp: ReadMessage_step_def Let_def rm_count_def ws_consts)
  have b: "ws_at k t (ws_frame True continuationFrame mk d @ rest) (rm_conn ?s2)" using f(2) by simp
  obtain rr2 key2 sl2 where g:
    "readFrame rd (ws_r (rm_conn ?s2), ws_key (rm_conn ?s2)) = Ret (Inr (True, continuationFrame, sl2), rr2, key2)"
    "sl_data sl2 = d"
    by (rule step_frame [OF b assms(4) a(3,6,4,5)])
  have step2: "ReadMessage_step rd wr room ?s2 = Ret (?s2\<lparr>rm_conn := (rm_conn ?s2)\<lparr>ws_r := rr2, ws_key := key2\<rparr>,
      rm_res := Some (Inr (continuationFrame, sl2))\<rparr>)"
    using g(1) by (simp add: ReadMessage_step_def nil_slice_def)
  have "ReadMessage rd wr room c = Ret (Inr (continuationFrame, sl2),
      (rm_conn ?s2)\<lparr>ws_r := rr2, ws_key := key2\<rparr>)"
    unfolding ReadMessage_def
    by (subst exec_loop_unfold) (simp add: step, subst exec_loop_unfold, simp add: step2,
        subst exec_loop_unfold, simp)
  with g(2) show ?thesis by blast
qed

text \<open>A 64-bit length with its top bit set reads as a negative number: the frame is taken to be
  empty and what follows is read as the next frame.\<close>

lemma readFrame_negative_length:
  assumes "at k t (0x82 # 0x7f # PutUint64 n @ rest) rr" "8 \<le> k" "sint n \<le> 0"
  shows "\<exists>rr'. readFrame rd (rr, key) = Ret (Inr (True, BinaryMessage, nil_slice), rr', key)
    \<and> at k t rest rr'"
proof -
  obtain r1 where r1: "r_ReadByte rd rr = Ret (Inr 0x82, r1)" "at k t (0x7f # PutUint64 n @ rest) r1"
    by (rule at_ReadByte [OF assms(1)]) (use assms(2) in simp)
  obtain r2 where r2: "r_ReadByte rd r1 = Ret (Inr 0x7f, r2)" "at k t (PutUint64 n @ rest) r2"
    by (rule at_ReadByte [OF r1(2)]) (use assms(2) in simp)
  obtain r3 where r3: "r_Pop rd r2 8 = Ret (Inr (PutUint64 n), r3)" "at k t rest r3"
    by (rule at_Pop [OF r2(2), of 8]) (use assms(2) in simp_all)
  have "frame_len rd 0x7f r2 = Ret (Inr n, r3)"
    using r3(1) by (simp add: frame_len_def lenBit_def)
  with r1 r2 r3 assms(3) show ?thesis
    by (simp add: readFrame_def frame_key_def frame_payload_def ws_consts)
qed

end

section \<open>Packets in messages\<close>

text \<open>Of a batch of packets sent with \<open>OpRaw\<close>, a WebSocket client gets the first body behind a
  header that carries the code \<open>OpRaw\<close>, followed by the other packets whole; a TCP client gets
  every packet whole.\<close>

lemma ReadWebsocket_message:
  assumes "ReadMessage rd wr room c0 = Ret (Inr (op, sl), c)" "16 \<le> length (sl_data sl)"
    and h: "h = take 16 (sl_data sl)"
  shows "ReadWebsocket rd wr room p c0 =
    (if hdr_len h <s 0 \<or> maxPackSize <s hdr_len h then Ret (Some ErrProtoPackLen, hdr_into h p, c)
     else if hdr_hlen h \<noteq> 16 then Ret (Some ErrProtoHeaderLen, hdr_into h p, c)
     else if 0 < body_len h
     then exec_bind (reslice 16 (unat (hdr_len h)) sl) (\<lambda>d.
            Ret (None, (hdr_into h p)\<lparr>Body := Some d\<rparr>, c))
     else Ret (None, (hdr_into h p)\<lparr>Body := None\<rparr>, c))"
proof -
  have tk: "sub_slice lo hi (sl_data sl) = sub_slice lo hi h" if "hi \<le> 16" for lo hi
    using that by (simp add: h sub_slice_def drop_take min_def)
  have lh: "length h = 16" using assms(2) h by simp
  have "Int32 (sub_slice 0 4 (sl_data sl)) = Ret (hdr_len h)"
    "Int16 (sub_slice 4 6 (sl_data sl)) = Ret (hdr_hlen h)"
    "Int16 (sub_slice 6 8 (sl_data sl)) = Ret (get_be (sub_slice 6 8 h))"
    "Int32 (sub_slice 8 12 (sl_data sl)) = Ret (get_be (sub_slice 8 12 h))"
    using lh by (simp_all add: tk Int32_get_be Int16_get_be hdr_len_def hdr_hlen_def)
  moreover have "Int32 (drop 12 (sl_data sl)) = Ret (get_be (sub_slice 12 16 h))"
    using assms(2) tk [of 16 12] by (simp add: Int32_prefix sub_slice_def)
  ultimately show ?thesis
    using assms(1,2) unfolding ReadWebsocket_def hdr_into_def body_len_def Let_def by simp
qed

lemma Body_body_bytes: "body_bytes p \<noteq> [] \<Longrightarrow> Body p = Some (body_bytes p)"
  by (cases "Body p") (simp_all add: body_bytes_def)

definition ws_payload :: "proto \<Rightarrow> byte list" where
  "ws_payload p =
     (if Op p = OpRaw \<and> 16 < length (body_bytes p)
      then proto_header (of_nat (length (body_bytes p))) p @ drop 16 (body_bytes p)
      else proto_frame p)"

lemma ws_payload_batch:
  assumes "Op p = OpRaw" "Body p = Some (proto_frame p1 @ rest)" "body_bytes p1 @ rest \<noteq> []"
  shows "ws_payload p = proto_header (16 + of_nat (length (body_bytes p1 @ rest))) p @ body_bytes p1 @ rest"
    and "tcp_frame p = proto_frame p1 @ rest"
  using assms
  by (auto simp: ws_payload_def tcp_frame_def proto_frame_def body_bytes_def add.assoc)

lemma length_ws_payload:
  "length (ws_payload p) =
     (if Op p = OpRaw \<and> 16 < length (body_bytes p) then length (body_bytes p)
      else 16 + length (body_bytes p))"
  by (simp add: ws_payload_def)

context live_buffered_writer
begin

lemma WriteWebsocket_live:
  assumes "w_live b" "16 \<le> length (w_buf b)"
  shows "\<exists>b'. WriteWebsocket wr p b = Ret (None, b') \<and> w_live b' \<and> length (w_buf b') = length (w_buf b)
    \<and> accepted b' = accepted b @ ws_frame True BinaryMessage [] (ws_payload p)"
proof -
  have frame: "\<exists>b'. err_then (WriteHeader wr BinaryMessage (16 + length d) b) (\<lambda>b1.
        err_then (ws_put_header wr l p b1) rest) = Ret (None, b') \<and> w_live b'
      \<and> length (w_buf b') = length (w_buf b)
      \<and> accepted b' = accepted b @ ws_frame True BinaryMessage [] (proto_header l p @ d)"
    if rest: "\<And>b2. w_live b2 \<Longrightarrow> \<exists>b'. rest b2 = Ret (None, b') \<and> w_live b'
      \<and> length (w_buf b') = length (w_buf b2) \<and> accepted b' = accepted b2 @ d" for d l rest
  proof (rule err_then_live [OF WriteHeader_live [OF assms(1)]])
    show "8 \<le> length (w_buf b)" using assms(2) by simp
    fix b1
    assume b1: "w_live b1" "length (w_buf b1) = length (w_buf b)" "accepted b1 =
      accepted b @ (finBit OR of_nat BinaryMessage) # len_code (16 + length d) # len_ext (16 + length d)"
    have "16 \<le> length (w_buf b1)" using b1(2) assms(2) by simp
    from ws_put_header_live [OF b1(1) this, of l p]
    obtain b2 where b2: "ws_put_header wr l p b1 = Ret (None, b2)" "w_live b2"
      "length (w_buf b2) = length (w_buf b1)" "accepted b2 = accepted b1 @ proto_header l p" by blast
    from rest [OF b2(2)] b2 b1 show "\<exists>b'. err_then (ws_put_header wr l p b1) rest = Ret (None, b')
        \<and> w_live b' \<and> length (w_buf b') = length (w_buf b)
        \<and> accepted b' = accepted b @ ws_frame True BinaryMessage [] (proto_header l p @ d)"
      by (auto simp: ws_frame_def)
  qed
  show ?thesis
  proof (cases "Op p = OpRaw \<and> 16 < length (body_bytes p)")
    case True
    then have "16 + length (drop 16 (body_bytes p)) = length (body_bytes p)" by simp
    with frame [of "WriteBody wr (drop 16 (body_bytes p))" "drop 16 (body_bytes p)"
        "of_nat (length (body_bytes p))"] WriteBody_live True
    show ?thesis by (simp add: WriteWebsocket_def ws_payload_def Let_def)
  next
    case False
    have wp: "ws_payload p = proto_header (pack_len p) p @ body_bytes p"
      using False by (auto simp: ws_payload_def proto_frame_def)
    let ?rest = "\<lambda>b2. case Body p of None \<Rightarrow> Ret (None, b2) | Some d \<Rightarrow> WriteBody wr d b2"
    have "\<exists>b'. ?rest b2 = Ret (None, b') \<and> w_live b' \<and> length (w_buf b') = length (w_buf b2)
        \<and> accepted b' = accepted b2 @ body_bytes p" if "w_live b2" for b2
      using WriteBody_live [OF that] that by (cases "Body p") (simp_all add: body_bytes_def)
    from frame [OF this, of "pack_len p"] False show ?thesis
      unfolding WriteWebsocket_def Let_def if_not_P [OF False] rawHeaderSize_eq
      by (simp add: wp pack_len_def)
  qed
qed

end

context live_buffered_reader
begin

lemma ReadWebsocket_live:
  assumes "ws_at k t (ws_frame True BinaryMessage mk (proto_frame p) @ rest) c"
    and "frame_ok p" "4112 \<le> k" "mk = [] \<or> length mk = 4"
  shows "\<exists>c'. ReadWebsocket rd wr room q c = Ret (None, on_wire p, c') \<and> ws_at k t rest c'
    \<and> ws_w c' = ws_w c"
proof -
  have lp: "length (proto_frame p) \<le> 4112" using assms(2) by (simp add: frame_ok_def)
  obtain sl c' where m: "ReadMessage rd wr room c = Ret (Inr (BinaryMessage, sl), c')" "ws_at k t rest c'"
    "sl_data sl = proto_frame p" "ws_w c' = ws_w c"
    by (rule ReadMessage_single [OF assms(1), of wr room]) (use assms(3,4) lp in auto)
  let ?h = "proto_header (pack_len p) p"
  have h: "?h = take 16 (sl_data sl)" using m(3) by (simp add: proto_frame_def)
  have pl: "pack_len p = of_nat (16 + length (body_bytes p))" by (simp add: pack_len_def)
  have s: "sint (pack_len p) = 16 + int (length (body_bytes p))"
    using assms(2) signed_take_bit_int_eq_self [of 31 "int (16 + length (body_bytes p))"]
    by (simp add: pl frame_ok_def signed_of_nat del: of_nat_add)
  have u: "unat (pack_len p) = 16 + length (body_bytes p)"
    using assms(2)
    by (simp add: pl frame_ok_def unsigned_of_nat take_bit_nat_eq_self del: of_nat_add)
  have "\<not> pack_len p <s 0" using s by (simp add: word_sless_alt)
  moreover have "\<not> maxPackSize <s pack_len p" "body_len ?h = int (length (body_bytes p))"
    using wire_body_len [OF assms(2)] by (simp_all add: body_len_def)
  moreover have "reslice 16 (unat (pack_len p)) sl = Ret (body_bytes p)"
    using m(3) u by (simp add: reslice_def sub_slice_def proto_frame_def)
  ultimately have "ReadWebsocket rd wr room q c = Ret (None, on_wire p, c')"
    using ReadWebsocket_message [OF m(1) _ h, of q] m(3) Body_body_bytes [of p]
    by (cases "body_bytes p = []") (simp_all add: on_wire_def)
  with m show ?thesis by blast
qed

end

section \<open>Properties\<close>

lemma ws_at_arriving:
  assumes "[] \<notin> set segs" "concat segs = s"
  shows "tcp_br.ws_at (length buf) tail s (newConn (r_reset buf tail (arriving segs)) w)"
  using assms tcp_ok_arriving [of segs] tcp_br.live_ok_reset [of "arriving segs" buf tail]
  by (simp add: tcp_br.ws_at_def tcp_br.at_def newConn_def tcp_br.pending_reset)
    (simp add: r_reset_def)

text \<open>A packet written with \<open>WriteWebsocket\<close> and flushed goes out as one unmasked binary
  frame around the 16-byte header and the body; for an \<open>OpRaw\<close> packet the first 16 bytes of the
  body are replaced by the packet's own header.\<close>

theorem WriteWebsocket_wire:
  assumes "tcp_healthy c" "tc_out c = []" "16 \<le> length wbuf"
  shows "\<exists>b. err_then (WriteWebsocket tcp_write p (w_ResetBuffer b0 c wbuf)) (w_Flush tcp_write)
      = Ret (None, b) \<and> tc_out (w_wr b) = ws_frame True BinaryMessage [] (ws_payload p)"
proof -
  let ?b0 = "w_ResetBuffer b0 c wbuf"
  have live: "tcp_bw.w_live ?b0" "tcp_accepted ?b0 = []"
    using assms(1,2)
    by (simp_all add: tcp_bw.w_live_def w_ResetBuffer_def w_ok_def tcp_accepted_def buffered_def)
  have len: "16 \<le> length (w_buf ?b0)" using assms(3) by (simp add: w_ResetBuffer_def)
  obtain b where b: "WriteWebsocket tcp_write p ?b0 = Ret (None, b)" "tcp_bw.w_live b"
    "tcp_accepted b = ws_frame True BinaryMessage [] (ws_payload p)"
    using tcp_bw.WriteWebsocket_live [OF live(1) len, of p] live(2) by auto
  from tcp_bw.write_all_live [OF b(2), of "[]"] b(3)
    tcp_bw.WriteWebsocket_live [OF live(1) len, of p] b(1) len
  have "\<exists>b'. w_Flush tcp_write b = Ret (None, b')
      \<and> tc_out (w_wr b') = ws_frame True BinaryMessage [] (ws_payload p)" by auto
  with b(1) show ?thesis by auto
qed

theorem WriteWebsocket_wire_witness:
  "\<exists>b. err_then (WriteWebsocket tcp_write sample_packet
        (w_ResetBuffer (bufio_NewWriter (arriving [])) (arriving []) (replicate 16 0))) (w_Flush tcp_write)
      = Ret (None, b) \<and> tc_out (w_wr b) = ws_frame True BinaryMessage [] (ws_payload sample_packet)"
  by (rule WriteWebsocket_wire) (simp_all add: arriving_def tcp_healthy_def)

text \<open>A packet that a client sends in one binary frame, masked with any key or unmasked
  and cut into segments in any way, is read back with its fields and body, and nothing of what
  follows it is consumed.\<close>

theorem ReadWebsocket_client:
  assumes "[] \<notin> set segs" "concat segs = ws_frame True BinaryMessage mk (proto_frame p) @ rest"
    and "frame_ok p" "mk = [] \<or> length mk = 4" "4112 \<le> length buf"
  shows "\<exists>c. ReadWebsocket tcp_read tcp_write room q (newConn (r_reset buf tail (arriving segs)) w)
      = Ret (None, on_wire p, c) \<and> r_window (ws_r c) @ tcp_stream (r_rd (ws_r c)) = rest
      \<and> ws_w c = w"
proof -
  note a = ws_at_arriving [OF assms(1,2), of buf tail w]
  obtain c where "ReadWebsocket tcp_read tcp_write room q (newConn (r_reset buf tail (arriving segs)) w)
      = Ret (None, on_wire p, c)" "tcp_br.ws_at (length buf) tail rest c" "ws_w c = w"
    using tcp_br.ReadWebsocket_live [OF a assms(3,5,4), of tcp_write room q] by (auto simp: newConn_def)
  then show ?thesis by (auto simp: tcp_br.ws_at_def tcp_br.at_def tcp_br.pending_def)
qed

theorem ReadWebsocket_client_witness:
  "\<exists>c. ReadWebsocket tcp_read tcp_write (\<lambda>_ _. 0) sample_packet
      (newConn (r_reset (replicate 4112 0) []
        (arriving [ws_frame True BinaryMessage [1, 2, 3, 4] (proto_frame sample_packet) @ [0x82]]))
        (bufio_NewWriter (arriving [])))
    = Ret (None, on_wire sample_packet, c) \<and> r_window (ws_r c) @ tcp_stream (r_rd (ws_r c)) = [0x82]
      \<and> ws_w c = bufio_NewWriter (arriving [])"
  by (rule ReadWebsocket_client [where mk = "[1, 2, 3, 4]"])
    (simp_all add: ws_frame_def frame_ok_def sample_packet_def body_bytes_def)

text \<open>A message cut into up to 102 frames, whatever their masks and the segments they
  arrive in, is assembled in order, with the code of its first frame, when that frame is not
  empty.\<close>

theorem ReadMessage_fragmented:
  assumes "[] \<notin> set segs" "concat segs = ws_frame False op mk d @ cont_frames fs @ rest"
    and "op = TextMessage \<or> op = BinaryMessage" "d \<noteq> []" "fs \<noteq> []" "length fs \<le> 101"
    and "frag_ok (length buf) (mk, d)" "\<forall>f \<in> set fs. frag_ok (length buf) f" "8 \<le> length buf"
  shows "\<exists>sl c. ReadMessage tcp_read tcp_write room (newConn (r_reset buf tail (arriving segs)) w)
      = Ret (Inr (op, sl), c) \<and> sl_data sl = d @ concat (map snd fs)
      \<and> r_window (ws_r c) @ tcp_stream (r_rd (ws_r c)) = rest"
proof -
  note a = ws_at_arriving [OF assms(1,2), of buf tail w]
  obtain sl c where
    "ReadMessage tcp_read tcp_write room (newConn (r_reset buf tail (arriving segs)) w) = Ret (Inr (op, sl), c)"
    "tcp_br.ws_at (length buf) tail rest c" "sl_data sl = d @ concat (map snd fs)"
    using tcp_br.ReadMessage_fragments [OF a assms(3,4,5,7,8,9,6), of tcp_write room] by blast
  then show ?thesis by (auto simp: tcp_br.ws_at_def tcp_br.at_def tcp_br.pending_def)
qed

theorem ReadMessage_fragmented_witness:
  "\<exists>sl c. ReadMessage tcp_read tcp_write (\<lambda>_ _. 0) (newConn (r_reset (replicate 8 0) []
        (arriving [ws_frame False TextMessage [] [104], cont_frames [([9, 9, 9, 9], [105])]]))
        (bufio_NewWriter (arriving [])))
      = Ret (Inr (TextMessage, sl), c) \<and> sl_data sl = [104] @ concat (map snd [([9 :: byte, 9, 9, 9], [105 :: byte])])
      \<and> r_window (ws_r c) @ tcp_stream (r_rd (ws_r c)) = []"
  by (rule ReadMessage_fragmented [where mk = "[]" and fs = "[([9, 9, 9, 9], [105])]"])
    (simp_all add: ws_frame_def frag_ok_def)



end
