(* ===== verification/Msg_Codec.thy ===== *)
theory Msg_Codec
  imports Endian
begin

text \<open>
  The message bodies of \<open>api/protocol/message.go\<close> and their hand-written binary encodings.
  A Go string is its bytes. The encoders are modelled as the code has them, writing at running
  offsets into a zeroed buffer of the computed size; \<open>MarshalMsgBody_layout\<close> and its
  companions show which concatenation of fields that is.

  The locale \<open>codec\<close> states what a pair of encoder and decoder promises.
\<close>

section \<open>Records\<close>

record msg_body =
  mb_MsgID :: "byte list"
  mb_FromUID :: i64
  mb_ToUID :: i64
  mb_Timestamp :: i64
  mb_Seq :: i64
  mb_Content :: "byte list"

record ack_body =
  ab_MsgID :: "byte list"
  ab_Seq :: i64
  ab_DeviceID :: "byte list"
  ab_SessionID :: "byte list"

record sync_req =
  sq_LastSeq :: i64
  sq_Limit :: i32

record sync_reply =
  sr_CurrentSeq :: i64
  sr_ServerMaxSeq :: i64
  sr_HasMore :: bool
  sr_Messages :: "msg_body list"

section \<open>Chat messages\<close>

definition MarshalMsgBody :: "msg_body \<Rightarrow> gerr + byte list" where
  "MarshalMsgBody mb =
     (let idb = mb_MsgID mb in
      if 65535 < length idb then Inl (Text ''msg_id too long'')
      else
        let buf0 = replicate (2 + length idb + 8 + 8 + 8 + 8 + length (mb_Content mb)) 0;
            buf1 = overwrite 0 (PutUint16 (of_nat (length idb))) buf0;
            buf2 = overwrite 2 idb buf1;
            offset = 2 + length idb;
            buf3 = overwrite offset (PutUint64 (mb_FromUID mb)) buf2;
            buf4 = overwrite (offset + 8) (PutUint64 (mb_ToUID mb)) buf3;
            buf5 = overwrite (offset + 16) (PutUint64 (mb_Timestamp mb)) buf4;
            buf6 = overwrite (offset + 24) (PutUint64 (mb_Seq mb)) buf5
        in Inr (overwrite (offset + 32) (mb_Content mb) buf6))"

definition UnmarshalMsgBody :: "byte list \<Rightarrow> gerr + msg_body" where
  "UnmarshalMsgBody data =
     (if length data < 2 then Inl (Text ''data too short for msg_id length'')
      else
        let msgIDLen = unat (Uint16 (sub_slice 0 2 data)) in
        if length data < 2 + msgIDLen + 32 then Inl (Text ''data too short for MsgBody header'')
        else
          let offset = 2 + msgIDLen
          in Inr \<lparr>mb_MsgID = sub_slice 2 (2 + msgIDLen) data,
                  mb_FromUID = Uint64 (sub_slice offset (offset + 8) data),
                  mb_ToUID = Uint64 (sub_slice (offset + 8) (offset + 16) data),
                  mb_Timestamp = Uint64 (sub_slice (offset + 16) (offset + 24) data),
                  mb_Seq = Uint64 (sub_slice (offset + 24) (offset + 32) data),
                  mb_Content = drop (offset + 32) data\<rparr>)"

section \<open>Acknowledgements\<close>

definition MarshalAckBody :: "ack_body \<Rightarrow> gerr + byte list" where
  "MarshalAckBody ab =
     (let idb = ab_MsgID ab; devb = ab_DeviceID ab; sesb = ab_SessionID ab in
      if 65535 < length idb then Inl (Text ''msg_id too long'')
      else if 65535 < length devb \<or> 65535 < length sesb
      then Inl (Text ''device_id or session_id too long'')
      else
        let flags = ((if devb \<noteq> [] then 1 else 0) OR (if sesb \<noteq> [] then 2 else 0) :: byte);
            extSize = 1 + (if devb \<noteq> [] then 2 + length devb else 0)
                        + (if sesb \<noteq> [] then 2 + length sesb else 0);
            buf0 = replicate (2 + length idb + 8 + extSize) 0;
            buf1 = overwrite 0 (PutUint16 (of_nat (length idb))) buf0;
            buf2 = overwrite 2 idb buf1;
            offset = 2 + length idb;
            buf3 = overwrite offset (PutUint64 (ab_Seq ab)) buf2;
            buf4 = buf3[offset + 8 := flags];
            (buf5, offset5) =
              (if flags AND 1 \<noteq> 0
               then (overwrite (offset + 11) devb
                       (overwrite (offset + 9) (PutUint16 (of_nat (length devb))) buf4),
                     offset + 11 + length devb)
               else (buf4, offset + 9))
        in Inr (if flags AND 2 \<noteq> 0
                then overwrite (offset5 + 2) sesb
                       (overwrite offset5 (PutUint16 (of_nat (length sesb))) buf5)
                else buf5))"

text \<open>An optional string: present when its flag is set and its two length bytes are there; the
  offset moves on only past a string that is there in full.\<close>

definition ack_field :: "bool \<Rightarrow> byte list \<Rightarrow> nat \<Rightarrow> byte list \<times> nat" where
  "ack_field flag data offset =
     (if flag \<and> offset + 2 \<le> length data
      then let n = unat (Uint16 (sub_slice offset (offset + 2) data))
           in if offset + 2 + n \<le> length data
              then (sub_slice (offset + 2) (offset + 2 + n) data, offset + 2 + n)
              else ([], offset + 2)
      else ([], offset))"

definition UnmarshalAckBody :: "byte list \<Rightarrow> gerr + ack_body" where
  "UnmarshalAckBody data =
     (if length data < 2 then Inl (Text ''data too short for ack'')
      else
        let msgIDLen = unat (Uint16 (sub_slice 0 2 data)) in
        if length data < 2 + msgIDLen + 8 then Inl (Text ''data too short for AckBody'')
        else
          let offset = 2 + msgIDLen;
              ab = \<lparr>ab_MsgID = sub_slice 2 (2 + msgIDLen) data,
                    ab_Seq = Uint64 (sub_slice offset (offset + 8) data),
                    ab_DeviceID = [], ab_SessionID = []\<rparr>
          in if length data \<le> offset + 8 then Inr ab
             else let flags = data ! (offset + 8);
                      (dev, offset1) = ack_field (flags AND 1 \<noteq> 0) data (offset + 9);
                      (ses, _) = ack_field (flags AND 2 \<noteq> 0) data offset1
                  in Inr (ab\<lparr>ab_DeviceID := dev, ab_SessionID := ses\<rparr>))"

section \<open>Synchronisation requests\<close>

definition MarshalSyncReq :: "sync_req \<Rightarrow> byte list" where
  "MarshalSyncReq sr =
     overwrite 8 (PutUint32 (sq_Limit sr)) (overwrite 0 (PutUint64 (sq_LastSeq sr)) (replicate 12 0))"

definition UnmarshalSyncReq :: "byte list \<Rightarrow> gerr + sync_req" where
  "UnmarshalSyncReq data =
     (if length data < 12 then Inl (Text ''data too short for SyncReq'')
      else Inr \<lparr>sq_LastSeq = Uint64 (sub_slice 0 8 data), sq_Limit = Uint32 (sub_slice 8 12 data)\<rparr>)"

section \<open>Synchronisation replies\<close>

fun marshal_msgs :: "msg_body list \<Rightarrow> gerr + byte list list" where
  "marshal_msgs [] = Inr []"
| "marshal_msgs (m # ms) =
     (case MarshalMsgBody m of
        Inl e \<Rightarrow> Inl e
      | Inr b \<Rightarrow> (case marshal_msgs ms of Inl e \<Rightarrow> Inl e | Inr bs \<Rightarrow> Inr (b # bs)))"

fun put_msgs :: "nat \<Rightarrow> byte list list \<Rightarrow> byte list \<Rightarrow> nat \<times> byte list" where
  "put_msgs offset [] buf = (offset, buf)"
| "put_msgs offset (b # bs) buf =
     put_msgs (offset + 4 + length b) bs
       (overwrite (offset + 4) b (overwrite offset (PutUint32 (of_nat (length b))) buf))"

definition MarshalSyncReply :: "sync_reply \<Rightarrow> gerr + byte list" where
  "MarshalSyncReply sr =
     (case marshal_msgs (sr_Messages sr) of
        Inl e \<Rightarrow> Inl e
      | Inr msgBytes \<Rightarrow>
          let totalSize = 8 + 1 + 4 + 8 + sum_list (map (\<lambda>b. 4 + length b) msgBytes);
              buf0 = replicate totalSize 0;
              buf1 = overwrite 0 (PutUint64 (sr_CurrentSeq sr)) buf0;
              buf2 = (if sr_HasMore sr then buf1[8 := 1] else buf1);
              buf3 = overwrite 9 (PutUint32 (of_nat (length msgBytes))) buf2;
              (offset, buf4) = put_msgs 13 msgBytes buf3;
              serverMaxSeq = (if sr_ServerMaxSeq sr = 0 then sr_CurrentSeq sr else sr_ServerMaxSeq sr)
          in Inr (overwrite offset (PutUint64 serverMaxSeq) buf4))"

fun get_msgs :: "nat \<Rightarrow> nat \<Rightarrow> byte list \<Rightarrow> gerr + (msg_body list \<times> nat)" where
  "get_msgs 0 offset data = Inr ([], offset)"
| "get_msgs (Suc n) offset data =
     (if length data < offset + 4 then Inl (Text ''data truncated in SyncReply messages'')
      else
        let msgLen = unat (Uint32 (sub_slice offset (offset + 4) data)) in
        if length data < offset + 4 + msgLen
        then Inl (Text ''data truncated in SyncReply message body'')
        else case UnmarshalMsgBody (sub_slice (offset + 4) (offset + 4 + msgLen) data) of
               Inl e \<Rightarrow> Inl e
             | Inr mb \<Rightarrow>
                 (case get_msgs n (offset + 4 + msgLen) data of
                    Inl e \<Rightarrow> Inl e
                  | Inr (ms, off') \<Rightarrow> Inr (mb # ms, off')))"

definition UnmarshalSyncReply :: "byte list \<Rightarrow> gerr + sync_reply" where
  "UnmarshalSyncReply data =
     (if length data < 13 then Inl (Text ''data too short for SyncReply'')
      else
        let currentSeq = Uint64 (sub_slice 0 8 data);
            msgCount = unat (Uint32 (sub_slice 9 13 data))
        in case get_msgs msgCount 13 data of
             Inl e \<Rightarrow> Inl e
           | Inr (ms, offset) \<Rightarrow>
               let (maxSeq, offset') =
                     (if offset + 8 \<le> length data
                      then (Uint64 (sub_slice offset (offset + 8) data), offset + 8)
                      else (currentSeq, offset))
               in if offset' \<noteq> length data
                  then Inl (Text ''data truncated in SyncReply server max seq'')
                  else Inr \<lparr>sr_CurrentSeq = currentSeq, sr_ServerMaxSeq = maxSeq,
                            sr_HasMore = (data ! 8 = 1), sr_Messages = ms\<rparr>)"

section \<open>Codecs\<close>

text \<open>
  \<open>valid\<close> says what can be encoded and decoded again; \<open>norm\<close> what comes back. A
  strict codec refuses anything else.
\<close>

locale codec =
  fixes enc :: "'a \<Rightarrow> gerr + byte list"
    and dec :: "byte list \<Rightarrow> gerr + 'a"
    and norm :: "'a \<Rightarrow> 'a"
    and valid :: "'a \<Rightarrow> bool"
  assumes enc_valid: "valid x \<Longrightarrow> \<exists>d. enc x = Inr d"
    and dec_enc: "valid x \<Longrightarrow> enc x = Inr d \<Longrightarrow> dec d = Inr (norm x)"
begin

lemma enc_inj: "valid x \<Longrightarrow> valid y \<Longrightarrow> enc x = Inr d \<Longrightarrow> enc y = Inr d \<Longrightarrow> norm x = norm y"
  using dec_enc by (metis sum.inject(2))

end

locale strict_codec = codec +
  assumes enc_invalid: "\<not> valid x \<Longrightarrow> \<exists>e. enc x = Inl e"
begin

lemma valid_iff: "valid x \<longleftrightarrow> (\<exists>d. enc x = Inr d)"
  using enc_valid [of x] enc_invalid [of x] by (cases "valid x") auto

lemma dec_of_enc: "enc x = Inr d \<Longrightarrow> dec d = Inr (norm x)"
  using dec_enc valid_iff by blast

end

section \<open>Layouts\<close>

text \<open>Writing the next field into a buffer whose first part is filled.\<close>

lemma overwrite_next:
  assumes "length done' = off" "length d \<le> k"
  shows "overwrite off d (done' @ replicate k 0) = (done' @ d) @ replicate (k - length d) 0"
  using assms by (auto simp: overwrite_def)

lemma MarshalMsgBody_layout:
  assumes "length (mb_MsgID mb) \<le> 65535"
  shows "MarshalMsgBody mb = Inr (PutUint16 (of_nat (length (mb_MsgID mb))) @ mb_MsgID mb
     @ PutUint64 (mb_FromUID mb) @ PutUint64 (mb_ToUID mb) @ PutUint64 (mb_Timestamp mb)
     @ PutUint64 (mb_Seq mb) @ mb_Content mb)"
proof -
  note nx = overwrite_next [where done' = "[]", simplified] overwrite_next
  show ?thesis
    using assms by (simp add: MarshalMsgBody_def Let_def nx del: append_assoc)
qed

lemma unat_len16: "n \<le> 65535 \<Longrightarrow> unat (of_nat n :: i16) = n"
  by (simp add: unsigned_of_nat take_bit_nat_eq_self)

lemma unat_len32: "n < 2 ^ 32 \<Longrightarrow> unat (of_nat n :: i32) = n"
  by (simp add: unsigned_of_nat take_bit_nat_eq_self)

definition mb_valid :: "msg_body \<Rightarrow> bool" where
  "mb_valid mb \<longleftrightarrow> length (mb_MsgID mb) \<le> 65535"

interpretation msg: strict_codec MarshalMsgBody UnmarshalMsgBody "\<lambda>mb. mb" mb_valid
proof
  fix mb d
  show "mb_valid mb \<Longrightarrow> \<exists>d. MarshalMsgBody mb = Inr d"
    by (simp add: MarshalMsgBody_layout mb_valid_def)
  show "\<not> mb_valid mb \<Longrightarrow> \<exists>e. MarshalMsgBody mb = Inl e"
    by (simp add: MarshalMsgBody_def mb_valid_def)
  show "mb_valid mb \<Longrightarrow> MarshalMsgBody mb = Inr d \<Longrightarrow> UnmarshalMsgBody d = Inr mb"
    by (auto simp: MarshalMsgBody_layout mb_valid_def UnmarshalMsgBody_def Let_def sub_slice_def
        unat_len16 get_be_put_be)
qed

definition ack_ext :: "byte list \<Rightarrow> byte list" where
  "ack_ext b = (if b = [] then [] else PutUint16 (of_nat (length b)) @ b)"

definition ack_valid :: "ack_body \<Rightarrow> bool" where
  "ack_valid ab \<longleftrightarrow> length (ab_MsgID ab) \<le> 65535 \<and> length (ab_DeviceID ab) \<le> 65535
     \<and> length (ab_SessionID ab) \<le> 65535"

definition ack_flags :: "ack_body \<Rightarrow> byte" where
  "ack_flags ab = (if ab_DeviceID ab = [] then 0 else 1) OR (if ab_SessionID ab = [] then 0 else 2)"

lemma update_next: "length done' = off \<Longrightarrow> 0 < k \<Longrightarrow>
    (done' @ replicate k 0)[off := v] = (done' @ [v]) @ replicate (k - 1) 0"
  by (cases k) (simp_all add: list_update_append)

lemma MarshalAckBody_layout:
  assumes "ack_valid ab"
  shows "MarshalAckBody ab = Inr (PutUint16 (of_nat (length (ab_MsgID ab))) @ ab_MsgID ab
     @ PutUint64 (ab_Seq ab) @ [ack_flags ab] @ ack_ext (ab_DeviceID ab) @ ack_ext (ab_SessionID ab))"
proof -
  note nx = overwrite_next [where done' = "[]", simplified] overwrite_next update_next
  show ?thesis
    using assms
    by (cases "ab_DeviceID ab = []"; cases "ab_SessionID ab = []")
      (simp_all add: MarshalAckBody_def Let_def ack_valid_def ack_flags_def ack_ext_def nx
        del: append_assoc replicate.simps, simp_all)
qed

lemma sub_slice_mid: "length a = lo \<Longrightarrow> hi = lo + length b \<Longrightarrow> sub_slice lo hi (a @ b @ c) = b"
  by (simp add: sub_slice_def)

lemma ack_field_present:
  assumes "length a = off" "b \<noteq> []" "length b \<le> 65535"
  shows "ack_field True (a @ ack_ext b @ c) off = (b, off + length (ack_ext b))"
proof -
  have "sub_slice off (off + 2) (a @ ack_ext b @ c) = PutUint16 (of_nat (length b))"
    using assms by (simp add: ack_ext_def sub_slice_def)
  moreover have "sub_slice (off + 2) (off + 2 + length b) (a @ ack_ext b @ c) = b"
    using assms by (simp add: ack_ext_def sub_slice_def)
  ultimately show ?thesis
    using assms by (simp add: ack_field_def ack_ext_def Let_def unat_len16 get_be_put_be)
qed

lemma ack_field_absent: "ack_field False data off = ([], off)"
  by (simp add: ack_field_def)

lemma ack_flags_bits:
  "ack_flags ab AND 1 \<noteq> 0 \<longleftrightarrow> ab_DeviceID ab \<noteq> []"
  "ack_flags ab AND 2 \<noteq> 0 \<longleftrightarrow> ab_SessionID ab \<noteq> []"
  by (auto simp: ack_flags_def)

lemma ack_fields:
  assumes "length a = off" "length dev \<le> 65535" "length ses \<le> 65535"
  shows "ack_field (dev \<noteq> []) (a @ ack_ext dev @ ack_ext ses) off = (dev, off + length (ack_ext dev))"
    and "ack_field (ses \<noteq> []) (a @ ack_ext dev @ ack_ext ses) (off + length (ack_ext dev))
       = (ses, off + length (ack_ext dev) + length (ack_ext ses))"
  using ack_field_present [of a off dev "ack_ext ses"]
    ack_field_present [of "a @ ack_ext dev" "off + length (ack_ext dev)" ses "[]"] assms
  by (cases "dev = []"; simp add: ack_field_absent ack_ext_def;
      cases "ses = []"; simp add: ack_field_absent ack_ext_def)+

lemma UnmarshalAckBody_layout:
  assumes "ack_valid ab"
  shows "UnmarshalAckBody (PutUint16 (of_nat (length (ab_MsgID ab))) @ ab_MsgID ab
     @ PutUint64 (ab_Seq ab) @ [ack_flags ab] @ ack_ext (ab_DeviceID ab) @ ack_ext (ab_SessionID ab))
     = Inr ab"
proof -
  let ?n = "length (ab_MsgID ab)"
  let ?a = "PutUint16 (of_nat ?n) @ ab_MsgID ab @ PutUint64 (ab_Seq ab) @ [ack_flags ab]"
  let ?data = "?a @ ack_ext (ab_DeviceID ab) @ ack_ext (ab_SessionID ab)"
  have n: "unat (of_nat ?n :: i16) = ?n" using assms by (simp add: unat_len16 ack_valid_def)
  have fl: "?data ! (2 + ?n + 8) = ack_flags ab" by (simp add: nth_append)
  have f: "sub_slice 0 2 ?data = PutUint16 (of_nat ?n)" "sub_slice 2 (2 + ?n) ?data = ab_MsgID ab"
    "sub_slice (2 + ?n) (2 + ?n + 8) ?data = PutUint64 (ab_Seq ab)"
    by (simp_all add: sub_slice_def)
  have flds: "ack_field (ab_DeviceID ab \<noteq> []) ?data (2 + ?n + 9)
      = (ab_DeviceID ab, 2 + ?n + 9 + length (ack_ext (ab_DeviceID ab)))"
    "ack_field (ab_SessionID ab \<noteq> []) ?data (2 + ?n + 9 + length (ack_ext (ab_DeviceID ab)))
      = (ab_SessionID ab, 2 + ?n + 9 + length (ack_ext (ab_DeviceID ab)) + length (ack_ext (ab_SessionID ab)))"
    using ack_fields [of ?a "2 + ?n + 9" "ab_DeviceID ab" "ab_SessionID ab"] assms
    by (simp_all add: ack_valid_def)
  have "UnmarshalAckBody ?data = Inr ab"
    unfolding UnmarshalAckBody_def f fl get_be_put_be Let_def n ack_flags_bits flds
    using f fl flds by (simp add: n get_be_put_be ack_flags_bits)
  then show ?thesis by simp
qed

interpretation ack: strict_codec MarshalAckBody UnmarshalAckBody "\<lambda>ab. ab" ack_valid
proof
  fix ab d
  show "ack_valid ab \<Longrightarrow> \<exists>d. MarshalAckBody ab = Inr d"
    by (simp add: MarshalAckBody_layout)
  show "\<not> ack_valid ab \<Longrightarrow> \<exists>e. MarshalAckBody ab = Inl e"
    by (auto simp: MarshalAckBody_def ack_valid_def Let_def)
  show "ack_valid ab \<Longrightarrow> MarshalAckBody ab = Inr d \<Longrightarrow> UnmarshalAckBody d = Inr ab"
    using UnmarshalAckBody_layout [of ab] by (simp add: MarshalAckBody_layout)
qed

lemma MarshalSyncReq_layout:
  "MarshalSyncReq sr = PutUint64 (sq_LastSeq sr) @ PutUint32 (sq_Limit sr)"
  by (simp add: MarshalSyncReq_def overwrite_def replicate_add [symmetric])

interpretation req: strict_codec "\<lambda>sr. Inr (MarshalSyncReq sr)" UnmarshalSyncReq "\<lambda>sr. sr" "\<lambda>_. True"
proof
  fix sr d
  show "Inr (MarshalSyncReq sr) = Inr d \<Longrightarrow> UnmarshalSyncReq d = Inr sr"
    by (auto simp: MarshalSyncReq_layout UnmarshalSyncReq_def sub_slice_def get_be_put_be)
qed simp_all

text \<open>The messages of a reply, each behind its length.\<close>

definition msg_block :: "byte list \<Rightarrow> byte list" where
  "msg_block b = PutUint32 (of_nat (length b)) @ b"

lemma put_msgs_layout:
  assumes "length done' = off" "sum_list (map (\<lambda>b. 4 + length b) bs) \<le> k"
  shows "put_msgs off bs (done' @ replicate k 0) =
    (off + sum_list (map (\<lambda>b. 4 + length b) bs),
     (done' @ concat (map msg_block bs)) @ replicate (k - sum_list (map (\<lambda>b. 4 + length b) bs)) 0)"
  using assms
proof (induction bs arbitrary: off done' k)
  case Nil
  then show ?case by simp
next
  case (Cons b bs)
  have step: "overwrite (off + 4) b (overwrite off (PutUint32 (of_nat (length b))) (done' @ replicate k 0))
      = (done' @ msg_block b) @ replicate (k - (4 + length b)) 0"
    using Cons.prems by (simp add: overwrite_next msg_block_def del: append_assoc)
  have "length (done' @ msg_block b) = off + 4 + length b"
    using Cons.prems by (simp add: msg_block_def)
  from Cons.IH [OF this, of "k - (4 + length b)"] Cons.prems show ?case
    by (simp add: step diff_diff_left add.assoc)
qed

lemma length_blocks:
  "length (concat (map msg_block bs)) = sum_list (map (\<lambda>b. 4 + length b) bs)"
  by (induction bs) (simp_all add: msg_block_def)

definition max_seq :: "sync_reply \<Rightarrow> i64" where
  "max_seq sr = (if sr_ServerMaxSeq sr = 0 then sr_CurrentSeq sr else sr_ServerMaxSeq sr)"

lemma MarshalSyncReply_layout:
  assumes "marshal_msgs (sr_Messages sr) = Inr bs"
  shows "MarshalSyncReply sr = Inr (PutUint64 (sr_CurrentSeq sr) @ [if sr_HasMore sr then 1 else 0]
    @ PutUint32 (of_nat (length bs)) @ concat (map msg_block bs) @ PutUint64 (max_seq sr))"
proof -
  let ?n = "sum_list (map (\<lambda>b. 4 + length b) bs)"
  let ?d = "PutUint64 (sr_CurrentSeq sr) @ [if sr_HasMore sr then 1 else 0 :: byte]"
  let ?d3 = "?d @ PutUint32 (of_nat (length bs))"
  have s1: "overwrite 0 (PutUint64 (sr_CurrentSeq sr)) (replicate (8 + 1 + 4 + 8 + ?n) 0)
      = PutUint64 (sr_CurrentSeq sr) @ replicate (13 + ?n) 0"
    by (simp add: overwrite_next [where done' = "[]", simplified])
  have s2: "(if sr_HasMore sr then (PutUint64 (sr_CurrentSeq sr) @ replicate (13 + ?n) 0)[8 := 1]
      else PutUint64 (sr_CurrentSeq sr) @ replicate (13 + ?n) 0) = ?d @ replicate (12 + ?n) 0"
    using update_next [of "PutUint64 (sr_CurrentSeq sr)" 8 "13 + ?n" 1]
    by (simp flip: replicate.simps(2))
  have s3: "overwrite 9 (PutUint32 (of_nat (length bs))) (?d @ replicate (12 + ?n) 0)
      = ?d3 @ replicate (8 + ?n) 0"
    using overwrite_next [of ?d 9 "PutUint32 (of_nat (length bs))" "12 + ?n"] by simp
  have s4: "put_msgs 13 bs (?d3 @ replicate (8 + ?n) 0)
      = (13 + ?n, (?d3 @ concat (map msg_block bs)) @ replicate 8 0)"
    using put_msgs_layout [of ?d3 13 bs "8 + ?n"] by simp
  have s5: "overwrite (13 + ?n) (PutUint64 (max_seq sr)) ((?d3 @ concat (map msg_block bs)) @ replicate 8 0)
      = (?d3 @ concat (map msg_block bs)) @ PutUint64 (max_seq sr)"
    using overwrite_next [of "?d3 @ concat (map msg_block bs)" "13 + ?n" "PutUint64 (max_seq sr)" 8]
    by (simp add: length_blocks)
  show ?thesis
    unfolding MarshalSyncReply_def assms sum.case Let_def s1 s2 s3 s4 prod.case
      max_seq_def [symmetric] s5
    by simp
qed

definition reply_valid :: "sync_reply \<Rightarrow> bool" where
  "reply_valid sr \<longleftrightarrow> (\<forall>m \<in> set (sr_Messages sr). mb_valid m)"

text \<open>The counts and lengths of a reply are 32 bits wide.\<close>

definition reply_fits :: "sync_reply \<Rightarrow> bool" where
  "reply_fits sr \<longleftrightarrow> length (sr_Messages sr) < 2 ^ 32
     \<and> (\<forall>m \<in> set (sr_Messages sr). 34 + length (mb_MsgID m) + length (mb_Content m) < 2 ^ 32)"

lemma length_msg_bytes:
  "MarshalMsgBody m = Inr b \<Longrightarrow> length b = 34 + length (mb_MsgID m) + length (mb_Content m)"
  using MarshalMsgBody_layout [of m] msg.valid_iff [of m] by (auto simp: mb_valid_def)

lemma marshal_msgs_Inr:
  "\<forall>m \<in> set ms. mb_valid m \<Longrightarrow>
     \<exists>bs. marshal_msgs ms = Inr bs \<and> list_all2 (\<lambda>m b. MarshalMsgBody m = Inr b) ms bs"
proof (induction ms)
  case (Cons m ms)
  then obtain b bs where "MarshalMsgBody m = Inr b" "marshal_msgs ms = Inr bs"
    "list_all2 (\<lambda>m b. MarshalMsgBody m = Inr b) ms bs"
    using msg.enc_valid [of m] by auto
  then show ?case by simp
qed simp

lemma marshal_msgs_Inl:
  "\<not> (\<forall>m \<in> set ms. mb_valid m) \<Longrightarrow> \<exists>e. marshal_msgs ms = Inl e"
proof (induction ms)
  case (Cons m ms)
  then show ?case
    using msg.enc_invalid [of m] by (cases "mb_valid m") (auto split: sum.splits)
qed simp

lemma get_msgs_blocks:
  assumes "list_all2 (\<lambda>m b. MarshalMsgBody m = Inr b) ms bs" "\<forall>b \<in> set bs. length b < 2 ^ 32"
    and "length a = off"
  shows "get_msgs (length bs) off (a @ concat (map msg_block bs) @ rest)
    = Inr (ms, off + length (concat (map msg_block bs)))"
  using assms
proof (induction ms bs arbitrary: a off rule: list_all2_induct)
  case Nil
  then show ?case by simp
next
  case (Cons m ms b bs)
  let ?tl = "concat (map msg_block bs) @ rest"
  have f: "sub_slice off (off + 4) (a @ msg_block b @ ?tl) = PutUint32 (of_nat (length b))"
    "sub_slice (off + 4) (off + 4 + length b) (a @ msg_block b @ ?tl) = b"
    using Cons.prems by (simp_all add: sub_slice_def msg_block_def)
  have l: "unat (of_nat (length b) :: i32) = length b"
    by (rule unat_len32) (use Cons.prems in simp)
  have "length (a @ msg_block b) = off + 4 + length b"
    using Cons.prems by (simp add: msg_block_def)
  from Cons.IH [OF _ this] Cons.prems
  have ih: "get_msgs (length bs) (off + 4 + length b) (a @ msg_block b @ ?tl)
      = Inr (ms, off + 4 + length b + length (concat (map msg_block bs)))" by simp
  define D where "D = a @ msg_block b @ ?tl"
  have len: "off + 4 + length b \<le> length D" using Cons.prems by (simp add: D_def msg_block_def)
  have "get_msgs (Suc (length bs)) off D
      = Inr (m # ms, off + 4 + length b + length (concat (map msg_block bs)))"
    using len l msg.dec_of_enc [OF Cons.hyps(1)] f [folded D_def] ih [folded D_def]
    by (simp add: get_be_put_be Let_def)
  moreover have "length (msg_block b) = 4 + length b" by (simp add: msg_block_def)
  ultimately show ?case by (simp add: D_def add.assoc del: get_msgs.simps)
qed

lemma UnmarshalSyncReply_layout:
  assumes "reply_valid sr" "reply_fits sr" "MarshalSyncReply sr = Inr d"
  shows "UnmarshalSyncReply d = Inr (sr\<lparr>sr_ServerMaxSeq := max_seq sr\<rparr>)"
proof -
  obtain bs where bs: "marshal_msgs (sr_Messages sr) = Inr bs"
    and all: "list_all2 (\<lambda>m b. MarshalMsgBody m = Inr b) (sr_Messages sr) bs"
    using marshal_msgs_Inr assms(1) by (auto simp: reply_valid_def)
  let ?a = "PutUint64 (sr_CurrentSeq sr) @ [if sr_HasMore sr then 1 else 0 :: byte]
    @ PutUint32 (of_nat (length bs))"
  let ?m = "concat (map msg_block bs)"
  have d: "d = ?a @ ?m @ PutUint64 (max_seq sr)"
    using assms(3) MarshalSyncReply_layout [OF bs] by simp
  have "length bs = length (sr_Messages sr)" using all by (simp add: list_all2_lengthD)
  then have n1: "length bs < 2 ^ 32" using assms(2) by (simp add: reply_fits_def)
  have n2: "\<forall>b \<in> set bs. length b < 2 ^ 32"
  proof
    fix b assume "b \<in> set bs"
    then obtain m where "m \<in> set (sr_Messages sr)" "MarshalMsgBody m = Inr b"
      using all by (auto simp: list_all2_conv_all_nth in_set_conv_nth) (metis nth_mem)
    with length_msg_bytes assms(2) show "length b < 2 ^ 32" by (simp add: reply_fits_def)
  qed
  have g: "get_msgs (length bs) 13 d = Inr (sr_Messages sr, 13 + length ?m)"
    unfolding d by (rule get_msgs_blocks [OF all n2]) simp
  have f: "sub_slice 0 8 d = PutUint64 (sr_CurrentSeq sr)" "d ! 8 = (if sr_HasMore sr then 1 else 0)"
    "sub_slice 9 13 d = PutUint32 (of_nat (length bs))"
    "length d = 21 + length ?m"
    unfolding d by (simp_all add: sub_slice_def nth_append)
  have f4: "sub_slice (13 + length ?m) (13 + length ?m + 8) d = PutUint64 (max_seq sr)"
    using sub_slice_mid [of "?a @ ?m" "13 + length ?m" _ "PutUint64 (max_seq sr)" "[]"] by (simp add: d)
  show ?thesis
    unfolding UnmarshalSyncReply_def
    using f f4 g unat_len32 [OF n1] by (simp add: get_be_put_be Let_def)
qed

interpretation reply: codec MarshalSyncReply UnmarshalSyncReply
  "\<lambda>sr. sr\<lparr>sr_ServerMaxSeq := max_seq sr\<rparr>" "\<lambda>sr. reply_valid sr \<and> reply_fits sr"
proof
  fix sr d
  show "reply_valid sr \<and> reply_fits sr \<Longrightarrow> \<exists>d. MarshalSyncReply sr = Inr d"
    using marshal_msgs_Inr [of "sr_Messages sr"] MarshalSyncReply_layout [of sr]
    by (auto simp: reply_valid_def)
  show "reply_valid sr \<and> reply_fits sr \<Longrightarrow> MarshalSyncReply sr = Inr d \<Longrightarrow>
      UnmarshalSyncReply d = Inr (sr\<lparr>sr_ServerMaxSeq := max_seq sr\<rparr>)"
    using UnmarshalSyncReply_layout by blast
qed

section \<open>Properties\<close>

text \<open>Property C3. Chat messages: a message is refused exactly when its id is longer than the
  16-bit length field allows, and otherwise decoding gives back the same message.\<close>

theorem MsgBody_roundtrip:
  "case MarshalMsgBody mb of
     Inl e \<Rightarrow> e = Text ''msg_id too long'' \<and> 65535 < length (mb_MsgID mb)
   | Inr d \<Rightarrow> length (mb_MsgID mb) \<le> 65535 \<and> UnmarshalMsgBody d = Inr mb
       \<and> length d = 34 + length (mb_MsgID mb) + length (mb_Content mb)"
proof (cases "mb_valid mb")
  case True
  then obtain d where "MarshalMsgBody mb = Inr d" using msg.enc_valid by blast
  with True msg.dec_enc length_msg_bytes show ?thesis by (simp add: mb_valid_def)
next
  case False
  then show ?thesis by (simp add: MarshalMsgBody_def mb_valid_def)
qed

lemma split_fields:
  assumes "n + 34 \<le> length data"
  shows "data = sub_slice 0 2 data @ sub_slice 2 (2 + n) data @ sub_slice (2 + n) (10 + n) data
    @ sub_slice (10 + n) (18 + n) data @ sub_slice (18 + n) (26 + n) data
    @ sub_slice (26 + n) (34 + n) data @ drop (34 + n) data"
  by (simp add: sub_slice_append_drop)

text \<open>The encoding of chat messages is canonical: any bytes that decode are the
  encoding of the message they decode to, so no two byte strings stand for one message.\<close>

theorem UnmarshalMsgBody_canonical:
  assumes "UnmarshalMsgBody data = Inr mb"
  shows "MarshalMsgBody mb = Inr data"
proof -
  let ?n = "unat (Uint16 (sub_slice 0 2 data))"
  have len: "2 \<le> length data" "?n + 34 \<le> length data"
    using assms by (auto simp: UnmarshalMsgBody_def Let_def split: if_splits)
  have mb: "mb_MsgID mb = sub_slice 2 (2 + ?n) data" "mb_FromUID mb = Uint64 (sub_slice (2 + ?n) (10 + ?n) data)"
    "mb_ToUID mb = Uint64 (sub_slice (10 + ?n) (18 + ?n) data)"
    "mb_Timestamp mb = Uint64 (sub_slice (18 + ?n) (26 + ?n) data)"
    "mb_Seq mb = Uint64 (sub_slice (26 + ?n) (34 + ?n) data)" "mb_Content mb = drop (34 + ?n) data"
    using assms len by (auto simp: UnmarshalMsgBody_def Let_def add.commute split: if_splits)
  have idl: "length (mb_MsgID mb) = ?n" using mb(1) len by simp
  have "?n < 2 ^ 16" by (rule order_less_le_trans [OF unsigned_less]) simp
  then have "length (mb_MsgID mb) \<le> 65535" using idl by simp
  then have "MarshalMsgBody mb = Inr (PutUint16 (of_nat ?n) @ mb_MsgID mb
     @ PutUint64 (mb_FromUID mb) @ PutUint64 (mb_ToUID mb) @ PutUint64 (mb_Timestamp mb)
     @ PutUint64 (mb_Seq mb) @ mb_Content mb)"
    using MarshalMsgBody_layout [of mb] idl by simp
  also have "\<dots> = Inr (sub_slice 0 2 data @ sub_slice 2 (2 + ?n) data @ sub_slice (2 + ?n) (10 + ?n) data
    @ sub_slice (10 + ?n) (18 + ?n) data @ sub_slice (18 + ?n) (26 + ?n) data
    @ sub_slice (26 + ?n) (34 + ?n) data @ drop (34 + ?n) data)"
    using len by (simp add: mb put_be_get_be)
  also have "\<dots> = Inr data" using split_fields [OF len(2)] by simp
  finally show ?thesis .
qed

theorem UnmarshalMsgBody_canonical_witness:
  "MarshalMsgBody \<lparr>mb_MsgID = [97], mb_FromUID = 0, mb_ToUID = 0, mb_Timestamp = 0, mb_Seq = 0,
     mb_Content = [5]\<rparr> = Inr ([0, 1, 97] @ replicate 32 0 @ [5])"
  by (rule UnmarshalMsgBody_canonical)
    (simp add: UnmarshalMsgBody_def sub_slice_def get_be_def eval_nat_numeral)

text \<open>Acknowledgements: decoding gives back the same acknowledgement, absent
  optional fields included, and the encoder refuses exactly those with an overlong field; an
  acknowledgement in the older format, without the flags byte, decodes to one without a device
  and a session.\<close>

theorem AckBody_roundtrip:
  "(case MarshalAckBody ab of
      Inl e \<Rightarrow> 65535 < length (ab_MsgID ab) \<or> 65535 < length (ab_DeviceID ab)
        \<or> 65535 < length (ab_SessionID ab)
    | Inr d \<Rightarrow> UnmarshalAckBody d = Inr ab)
   \<and> UnmarshalAckBody (PutUint16 (of_nat (length (take 65535 mid))) @ take 65535 mid @ PutUint64 sq)
     = Inr \<lparr>ab_MsgID = take 65535 mid, ab_Seq = sq, ab_DeviceID = [], ab_SessionID = []\<rparr>"
proof (intro conjI)
  show "case MarshalAckBody ab of
      Inl e \<Rightarrow> 65535 < length (ab_MsgID ab) \<or> 65535 < length (ab_DeviceID ab)
        \<or> 65535 < length (ab_SessionID ab)
    | Inr d \<Rightarrow> UnmarshalAckBody d = Inr ab"
  proof (cases "ack_valid ab")
    case True
    then obtain d where "MarshalAckBody ab = Inr d" using ack.enc_valid by blast
    with True ack.dec_enc show ?thesis by simp
  next
    case False
    then obtain e where "MarshalAckBody ab = Inl e" using ack.enc_invalid by blast
    with False show ?thesis by (auto simp: ack_valid_def)
  qed
  define m where "m = take 65535 mid"
  have "length m \<le> 65535" by (simp add: m_def)
  then show "UnmarshalAckBody (PutUint16 (of_nat (length m)) @ m @ PutUint64 sq)
     = Inr \<lparr>ab_MsgID = m, ab_Seq = sq, ab_DeviceID = [], ab_SessionID = []\<rparr>"
    by (simp add: UnmarshalAckBody_def Let_def sub_slice_def unat_len16 get_be_put_be)
qed

text \<open>Synchronisation replies: encoding succeeds when every message id fits its length
  field, and decoding gives back the reply, message by message, with the server's maximum
  sequence number, which is the current one where it was left zero.\<close>

theorem SyncReply_roundtrip:
  assumes "\<forall>m \<in> set (sr_Messages sr). length (mb_MsgID m) \<le> 65535"
    and "reply_fits sr"
  shows "\<exists>d. MarshalSyncReply sr = Inr d
    \<and> UnmarshalSyncReply d = Inr (sr\<lparr>sr_ServerMaxSeq := max_seq sr\<rparr>)"
proof -
  have "reply_valid sr \<and> reply_fits sr" using assms by (simp add: reply_valid_def mb_valid_def)
  with reply.enc_valid reply.dec_enc show ?thesis by blast
qed

theorem SyncReply_roundtrip_witness:
  "\<exists>d. MarshalSyncReply \<lparr>sr_CurrentSeq = 4, sr_ServerMaxSeq = 0, sr_HasMore = True,
      sr_Messages = [\<lparr>mb_MsgID = [97], mb_FromUID = 1, mb_ToUID = 2, mb_Timestamp = 3, mb_Seq = 4,
        mb_Content = []\<rparr>]\<rparr> = Inr d
    \<and> UnmarshalSyncReply d = Inr (\<lparr>sr_CurrentSeq = 4, sr_ServerMaxSeq = 0, sr_HasMore = True,
      sr_Messages = [\<lparr>mb_MsgID = [97], mb_FromUID = 1, mb_ToUID = 2, mb_Timestamp = 3, mb_Seq = 4,
        mb_Content = []\<rparr>]\<rparr>\<lparr>sr_ServerMaxSeq := max_seq \<lparr>sr_CurrentSeq = 4, sr_ServerMaxSeq = 0,
      sr_HasMore = True, sr_Messages = [\<lparr>mb_MsgID = [97], mb_FromUID = 1, mb_ToUID = 2,
        mb_Timestamp = 3, mb_Seq = 4, mb_Content = []\<rparr>]\<rparr>\<rparr>)"
  by (rule SyncReply_roundtrip) (simp_all add: reply_fits_def)

end
