(* ===== verification/Comet_Queues.thy ===== *)
theory Comet_Queues
  imports Wire_Proto
begin

text \<open>
  The queues of a client connection: the ring of received packets (\<open>internal/comet/ring.go\<close>)
  and the two-level queue of packets to send (\<open>internal/comet/priority_queue.go\<close>), built on
  Go's buffered channels. The locale \<open>bounded_fifo\<close> states what a queue with a capacity
  promises; the ring and the channel both satisfy it.

  A ring hands out pointers to its slots: the producer asks for one (\<open>Set\<close>), fills it and
  advances (\<open>SetAdv\<close>); the consumer does the same with \<open>Get\<close> and \<open>GetAdv\<close>. The model returns the
  slot's index. The positions are 64-bit counters that wrap around.
\<close>

section \<open>Bounded queues\<close>

locale bounded_fifo =
  fixes enq :: "'q \<Rightarrow> 'a \<Rightarrow> 'q option"
    and deq :: "'q \<Rightarrow> ('a \<times> 'q) option"
    and items :: "'q \<Rightarrow> 'a list"
    and capacity :: "'q \<Rightarrow> nat"
    and q_ok :: "'q \<Rightarrow> bool"
  assumes enq_full: "q_ok q \<Longrightarrow> enq q x = None \<longleftrightarrow> capacity q \<le> length (items q)"
    and enq_items: "q_ok q \<Longrightarrow> enq q x = Some q' \<Longrightarrow>
      q_ok q' \<and> items q' = items q @ [x] \<and> capacity q' = capacity q"
    and deq_empty: "q_ok q \<Longrightarrow> deq q = None \<longleftrightarrow> items q = []"
    and deq_items: "q_ok q \<Longrightarrow> deq q = Some (x, q') \<Longrightarrow>
      q_ok q' \<and> items q = x # items q' \<and> capacity q' = capacity q"
    and bounded: "q_ok q \<Longrightarrow> length (items q) \<le> capacity q"
begin

fun enq_all :: "'q \<Rightarrow> 'a list \<Rightarrow> 'q option" where
  "enq_all q [] = Some q"
| "enq_all q (x # xs) = (case enq q x of None \<Rightarrow> None | Some q' \<Rightarrow> enq_all q' xs)"

fun drain :: "nat \<Rightarrow> 'q \<Rightarrow> 'a list \<times> 'q" where
  "drain 0 q = ([], q)"
| "drain (Suc n) q =
     (case deq q of None \<Rightarrow> ([], q) | Some (x, q') \<Rightarrow> (let (xs, q'') = drain n q' in (x # xs, q'')))"

lemma enq_all_spec:
  assumes "q_ok q" "length (items q) + length xs \<le> capacity q"
  shows "\<exists>q'. enq_all q xs = Some q' \<and> q_ok q' \<and> items q' = items q @ xs \<and> capacity q' = capacity q"
  using assms
proof (induction xs arbitrary: q)
  case (Cons x xs)
  obtain q1 where q1: "enq q x = Some q1"
    using enq_full [OF Cons.prems(1), of x] Cons.prems(2) by (cases "enq q x") auto
  with enq_items [OF Cons.prems(1)] have "q_ok q1" "items q1 = items q @ [x]" "capacity q1 = capacity q"
    by blast+
  with Cons.IH [of q1] Cons.prems q1 show ?case by auto
qed simp

lemma drain_spec:
  assumes "q_ok q"
  shows "\<exists>q'. drain n q = (take n (items q), q') \<and> q_ok q' \<and> items q' = drop n (items q)"
  using assms
proof (induction n arbitrary: q)
  case (Suc n)
  show ?case
  proof (cases "deq q")
    case None
    with Suc.prems deq_empty [OF Suc.prems] show ?thesis by simp
  next
    case (Some xq)
    then obtain x q1 where q1: "deq q = Some (x, q1)" by (cases xq) auto
    with deq_items [OF Suc.prems] have "q_ok q1" "items q = x # items q1" by blast+
    with Suc.IH [of q1] q1 show ?thesis by auto
  qed
qed simp

text \<open>First in, first out: what is put into an empty queue comes out in the same order.\<close>

lemma fifo:
  assumes "q_ok q" "items q = []" "length xs \<le> capacity q"
  shows "\<exists>q1 q2. enq_all q xs = Some q1 \<and> drain (length xs) q1 = (xs, q2) \<and> items q2 = []"
proof -
  obtain q1 where "enq_all q xs = Some q1" "q_ok q1" "items q1 = xs"
    using enq_all_spec [OF assms(1), of xs] assms by auto
  with drain_spec [of q1 "length xs"] show ?thesis by auto
qed

end

text \<open>Any interleaving of puts and takes, on a queue and on a plain list.\<close>

datatype 'a qop = Put 'a | Take
datatype 'a qres = Accepted | Refused | Got 'a | Nothing

fun q_run :: "('q \<Rightarrow> 'a \<Rightarrow> 'q option) \<Rightarrow> ('q \<Rightarrow> ('a \<times> 'q) option) \<Rightarrow> 'a qop list \<Rightarrow> 'q \<Rightarrow> 'a qres list \<times> 'q" where
  "q_run enq deq [] q = ([], q)"
| "q_run enq deq (Put x # ops) q =
     (case enq q x of
        None \<Rightarrow> (let (rs, q') = q_run enq deq ops q in (Refused # rs, q'))
      | Some q1 \<Rightarrow> (let (rs, q') = q_run enq deq ops q1 in (Accepted # rs, q')))"
| "q_run enq deq (Take # ops) q =
     (case deq q of
        None \<Rightarrow> (let (rs, q') = q_run enq deq ops q in (Nothing # rs, q'))
      | Some (x, q1) \<Rightarrow> (let (rs, q') = q_run enq deq ops q1 in (Got x # rs, q')))"

fun list_run :: "nat \<Rightarrow> 'a qop list \<Rightarrow> 'a list \<Rightarrow> 'a qres list \<times> 'a list" where
  "list_run n [] xs = ([], xs)"
| "list_run n (Put x # ops) xs =
     (if length xs < n
      then (let (rs, ys) = list_run n ops (xs @ [x]) in (Accepted # rs, ys))
      else (let (rs, ys) = list_run n ops xs in (Refused # rs, ys)))"
| "list_run n (Take # ops) xs =
     (case xs of
        [] \<Rightarrow> (let (rs, ys) = list_run n ops [] in (Nothing # rs, ys))
      | x # xs' \<Rightarrow> (let (rs, ys) = list_run n ops xs' in (Got x # rs, ys)))"

context bounded_fifo
begin

lemma run_refines:
  assumes "q_ok q"
  shows "\<exists>q'. q_run enq deq ops q = (fst (list_run (capacity q) ops (items q)), q') \<and> q_ok q'
    \<and> items q' = snd (list_run (capacity q) ops (items q)) \<and> capacity q' = capacity q"
  using assms
proof (induction ops arbitrary: q)
  case Nil
  then show ?case by simp
next
  case (Cons op ops)
  show ?case
  proof (cases op)
    case (Put x)
    show ?thesis
    proof (cases "enq q x")
      case None
      with enq_full [OF Cons.prems] have "\<not> length (items q) < capacity q" by auto
      with Cons.IH [OF Cons.prems] None Put show ?thesis by (auto split: prod.splits)
    next
      case (Some q1)
      with enq_full [OF Cons.prems, of x] have "length (items q) < capacity q" by auto
      moreover have "q_ok q1" "items q1 = items q @ [x]" "capacity q1 = capacity q"
        using enq_items [OF Cons.prems Some] by auto
      ultimately show ?thesis using Cons.IH [of q1] Some Put by (auto split: prod.splits)
    qed
  next
    case Take
    show ?thesis
    proof (cases "deq q")
      case None
      with deq_empty [OF Cons.prems] have "items q = []" by auto
      with Cons.IH [OF Cons.prems] None Take show ?thesis by (auto split: prod.splits)
    next
      case (Some xq)
      then obtain x q1 where q1: "deq q = Some (x, q1)" by (cases xq) auto
      with deq_items [OF Cons.prems q1] Cons.IH [of q1] Take show ?thesis
        by (auto split: prod.splits)
    qed
  qed
qed

end

section \<open>Go's buffered channels\<close>

record 'a gochan =
  gc_items :: "'a list"
  gc_cap :: nat

definition make_chan :: "nat \<Rightarrow> 'a gochan" where
  "make_chan n = \<lparr>gc_items = [], gc_cap = n\<rparr>"

text \<open>A send or a receive that can go ahead; \<open>None\<close> where it would block.\<close>

definition chan_send :: "'a gochan \<Rightarrow> 'a \<Rightarrow> 'a gochan option" where
  "chan_send c x =
     (if length (gc_items c) < gc_cap c then Some (c\<lparr>gc_items := gc_items c @ [x]\<rparr>) else None)"

definition chan_recv :: "'a gochan \<Rightarrow> ('a \<times> 'a gochan) option" where
  "chan_recv c = (case gc_items c of [] \<Rightarrow> None | x # xs \<Rightarrow> Some (x, c\<lparr>gc_items := xs\<rparr>))"

definition chan_ok :: "'a gochan \<Rightarrow> bool" where
  "chan_ok c \<longleftrightarrow> length (gc_items c) \<le> gc_cap c"

interpretation gochan: bounded_fifo chan_send chan_recv gc_items gc_cap chan_ok
  by unfold_locales (auto simp: chan_send_def chan_recv_def chan_ok_def split: if_splits list.splits)

section \<open>The ring\<close>

record 'a ring =
  rg_rp :: i64
  rg_num :: i64
  rg_mask :: i64
  rg_wp :: i64
  rg_data :: "'a list"

function clear_low_bits :: "i64 \<Rightarrow> i64" where
  "clear_low_bits num = (if num AND (num - 1) \<noteq> 0 then clear_low_bits (num AND (num - 1)) else num)"
  by auto
termination
proof (relation "measure unat", simp)
  fix num :: i64
  assume "num AND (num - 1) \<noteq> 0"
  then have "num \<noteq> 0" by auto
  have "num AND (num - 1) \<noteq> num"
  proof
    assume "num AND (num - 1) = num"
    then have "num \<le> num - 1" by (metis word_and_le1)
    then have "unat num \<le> unat num - 1"
      using \<open>num \<noteq> 0\<close> by (simp add: word_le_nat_alt unat_minus_one)
    moreover have "unat num \<noteq> 0" using \<open>num \<noteq> 0\<close> by (simp add: unat_eq_zero)
    ultimately show False by simp
  qed
  moreover have "num AND (num - 1) \<le> num" by (rule word_and_le2)
  ultimately have "num AND (num - 1) < num" by simp
  then show "(num AND (num - 1), num) \<in> measure unat" by (simp add: word_less_nat_alt)
qed

declare clear_low_bits.simps [simp del]

definition normalizeRingSize :: "i64 \<Rightarrow> i64" where
  "normalizeRingSize num0 =
     (let num = (if num0 = 0 then 1 else num0)
      in if num AND (num - 1) \<noteq> 0 then push_bit 1 (clear_low_bits num) else num)"

text \<open>\<open>Reset\<close>: a fresh array when the size changes, else the old one with every slot cleared.\<close>

definition ring_Reset :: "'a \<Rightarrow> 'a ring \<Rightarrow> i64 \<Rightarrow> 'a ring" where
  "ring_Reset zero r sz =
     (let num = normalizeRingSize sz
      in r\<lparr>rg_rp := 0, rg_wp := 0,
           rg_data := (if of_nat (length (rg_data r)) \<noteq> num then replicate (unat num) zero
                       else map (\<lambda>_. zero) (rg_data r)),
           rg_num := num, rg_mask := num - 1\<rparr>)"

definition NewRing :: "'a \<Rightarrow> i64 \<Rightarrow> 'a ring" where
  "NewRing zero num =
     ring_Reset zero \<lparr>rg_rp = 0, rg_num = 0, rg_mask = 0, rg_wp = 0, rg_data = []\<rparr> num"

text \<open>The index of a slot, or the error, or the panic of an index out of range.\<close>

definition slot :: "'a ring \<Rightarrow> i64 \<Rightarrow> (gerr + nat) exec" where
  "slot r i = (if unat i < length (rg_data r) then Ret (Inr (unat i)) else Panic ''index out of range'')"

definition ring_Get :: "'a ring \<Rightarrow> (gerr + nat) exec" where
  "ring_Get r = (if rg_rp r = rg_wp r then Ret (Inl ErrRingEmpty) else slot r (rg_rp r AND rg_mask r))"

definition ring_GetAdv :: "'a ring \<Rightarrow> 'a ring" where
  "ring_GetAdv r = r\<lparr>rg_rp := rg_rp r + 1\<rparr>"

definition ring_Set :: "'a ring \<Rightarrow> (gerr + nat) exec" where
  "ring_Set r =
     (if rg_num r \<le> rg_wp r - rg_rp r then Ret (Inl ErrRingFull) else slot r (rg_wp r AND rg_mask r))"

definition ring_SetAdv :: "'a ring \<Rightarrow> 'a ring" where
  "ring_SetAdv r = r\<lparr>rg_wp := rg_wp r + 1\<rparr>"

text \<open>How the producer and the consumer of a connection use it.\<close>

definition ring_enq :: "'a ring \<Rightarrow> 'a \<Rightarrow> 'a ring option" where
  "ring_enq r x =
     (case ring_Set r of
        Ret (Inr i) \<Rightarrow> Some (ring_SetAdv (r\<lparr>rg_data := (rg_data r)[i := x]\<rparr>))
      | _ \<Rightarrow> None)"

definition ring_deq :: "'a ring \<Rightarrow> ('a \<times> 'a ring) option" where
  "ring_deq r =
     (case ring_Get r of
        Ret (Inr i) \<Rightarrow> Some (rg_data r ! i, ring_GetAdv r)
      | _ \<Rightarrow> None)"

definition ring_items :: "'a ring \<Rightarrow> 'a list" where
  "ring_items r =
     map (\<lambda>i. rg_data r ! unat ((rg_rp r + of_nat i) AND rg_mask r)) [0..<unat (rg_wp r - rg_rp r)]"

definition ring_ok :: "'a ring \<Rightarrow> bool" where
  "ring_ok r \<longleftrightarrow> (\<exists>k<64. rg_num r = 2 ^ k \<and> length (rg_data r) = 2 ^ k)
     \<and> rg_mask r = rg_num r - 1 \<and> rg_wp r - rg_rp r \<le> rg_num r"

section \<open>The size of a ring\<close>

lemma nat_bit_top: "2 ^ k \<le> n \<Longrightarrow> n < 2 ^ Suc k \<Longrightarrow> bit (n :: nat) k"
proof -
  assume n: "2 ^ k \<le> n" "n < 2 ^ Suc k"
  then have "n div 2 ^ k = 1"
    by (intro div_nat_eqI) simp_all
  then show ?thesis by (simp add: bit_iff_odd)
qed

lemma clear_step:
  assumes "2 ^ k \<le> unat num" "unat num < 2 ^ Suc k"
  shows "num AND (num - 1) \<noteq> 0 \<longleftrightarrow> unat num \<noteq> 2 ^ k"
    and "unat num \<noteq> 2 ^ k \<Longrightarrow> 2 ^ k \<le> unat (num AND (num - 1))"
    and "unat (num AND (num - 1)) < 2 ^ Suc k"
proof -
  have nz: "num \<noteq> 0" using assms(1) by auto
  have u: "unat (num - 1) = unat num - 1" using nz by (simp add: unat_minus_one)
  have b: "unat (num AND (num - 1)) = unat num AND (unat num - 1)" by (simp add: unsigned_and_eq u)
  show top: "2 ^ k \<le> unat (num AND (num - 1))" if "unat num \<noteq> 2 ^ k"
  proof -
    have "bit (unat num) k" "bit (unat num - 1) k"
      using nat_bit_top assms that by (auto intro!: nat_bit_top)
    then have "bit (unat (num AND (num - 1))) k" by (simp add: b bit_and_iff)
    then show ?thesis by (metis bit_imp_possible_bit bit_iff_odd div_less even_zero not_le)
  qed
  have zero: "num AND (num - 1) = 0" if "unat num = 2 ^ k"
  proof -
    have "unat num AND (unat num - 1) = 0"
      by (simp only: that mask_eq_exp_minus_1 [symmetric] take_bit_eq_mask [symmetric]) simp
    with b show ?thesis by (simp add: unat_eq_zero)
  qed
  show "num AND (num - 1) \<noteq> 0 \<longleftrightarrow> unat num \<noteq> 2 ^ k"
    using top zero by (metis unsigned_0 not_le zero_less_numeral zero_less_power)
  have "num AND (num - 1) \<le> num" by (rule word_and_le2)
  with assms(2) show "unat (num AND (num - 1)) < 2 ^ Suc k" by (simp add: word_le_nat_alt)
qed

lemma clear_low_bits_top:
  "2 ^ k \<le> unat num \<Longrightarrow> unat num < 2 ^ Suc k \<Longrightarrow> unat (clear_low_bits num) = 2 ^ k"
proof (induction num rule: clear_low_bits.induct)
  case (1 num)
  show ?case
  proof (cases "unat num = 2 ^ k")
    case True
    with clear_step(1) [OF 1(2,3)] show ?thesis by (subst clear_low_bits.simps) simp
  next
    case False
    with clear_step [OF 1(2,3)] 1(1) show ?thesis by (subst clear_low_bits.simps) simp
  qed
qed

text \<open>Up to \<open>2 ^ 63\<close> the size is the least power of two that is at least the requested one.\<close>

lemma normalizeRingSize_power:
  assumes "unat num \<le> 2 ^ 63"
  shows "\<exists>k<64. normalizeRingSize num = 2 ^ k \<and> unat num \<le> 2 ^ k
    \<and> (\<forall>j. unat num \<le> 2 ^ j \<longrightarrow> k \<le> j)"
proof (cases "num = 0")
  case True
  then show ?thesis by (intro exI [of _ 0]) (simp add: normalizeRingSize_def)
next
  case nz: False
  then have pos: "0 < unat num" by (rule unat_pos)
  obtain k where k: "2 ^ k \<le> unat num" "unat num < 2 ^ Suc k"
    using ex_power_ivl1 [of 2 "unat num"] pos by auto
  have k64: "k < 64"
  proof (rule ccontr)
    assume "\<not> k < 64"
    then have "(2 :: nat) ^ 64 \<le> 2 ^ k" by (intro power_increasing) auto
    with k(1) assms show False by simp
  qed
  show ?thesis
  proof (cases "unat num = 2 ^ k")
    case True
    with clear_step(1) [OF k] nz have "normalizeRingSize num = num"
      by (simp add: normalizeRingSize_def)
    moreover have "num = 2 ^ k" using True k64 by (simp add: word_eq_iff_unsigned [where 'a = nat] unat_2p)
    ultimately show ?thesis using True k64 by (intro exI [of _ k]) simp
  next
    case False
    have k63: "k < 63"
    proof (rule ccontr)
      assume "\<not> k < 63"
      then have "k = 63" using k64 by simp
      with k False assms show False by simp
    qed
    have "unat (clear_low_bits num) = 2 ^ k" by (rule clear_low_bits_top [OF k])
    then have "clear_low_bits num = 2 ^ k" using k64 by (simp add: word_eq_iff_unsigned [where 'a = nat] unat_2p)
    then have "normalizeRingSize num = 2 ^ Suc k"
      using clear_step(1) [OF k] False nz by (simp add: normalizeRingSize_def push_bit_eq_mult)
    moreover have "\<forall>j. unat num \<le> 2 ^ j \<longrightarrow> Suc k \<le> j"
    proof (intro allI impI)
      fix j assume "unat num \<le> 2 ^ j"
      with k False have "(2 :: nat) ^ k < 2 ^ j" by linarith
      then show "Suc k \<le> j" by (simp add: Suc_le_eq)
    qed
    ultimately show ?thesis using k(2) k63 by (intro exI [of _ "Suc k"]) simp
  qed
qed

lemma ring_ok_Reset:
  assumes "unat sz \<le> 2 ^ 63" "length (rg_data r) < 2 ^ 64"
  shows "ring_ok (ring_Reset zero r sz)" "ring_items (ring_Reset zero r sz) = []"
proof -
  obtain k where k: "k < 64" "normalizeRingSize sz = 2 ^ k"
    using normalizeRingSize_power [OF assms(1)] by blast
  have l: "of_nat (length (rg_data r)) = (2 ^ k :: i64) \<Longrightarrow> length (rg_data r) = 2 ^ k"
    using assms(2) k(1)
    by (simp add: word_eq_iff_unsigned [where 'a = nat] unat_2p unsigned_of_nat take_bit_nat_eq_self)
  have u: "unat (2 ^ k :: i64) = 2 ^ k" using k(1) by (simp add: unat_2p)
  show "ring_ok (ring_Reset zero r sz)"
    unfolding ring_ok_def ring_Reset_def Let_def k(2) using k(1) u
    by (auto dest: l)
  show "ring_items (ring_Reset zero r sz) = []"
    by (simp add: ring_items_def ring_Reset_def Let_def)
qed

section \<open>The ring is a queue\<close>

definition ring_len :: "'a ring \<Rightarrow> nat" where
  "ring_len r = unat (rg_wp r - rg_rp r)"

lemma ring_items_len: "length (ring_items r) = ring_len r"
  by (simp add: ring_items_def ring_len_def)

lemma ring_index:
  assumes "k < 64" "m = (2 ^ k :: i64) - 1"
  shows "unat ((rp + of_nat i) AND m) = (unat rp + i) mod 2 ^ k"
proof -
  have "(rp + of_nat i) AND m = take_bit k (rp + of_nat i)"
    by (simp add: assms(2) take_bit_eq_mask mask_eq_exp_minus_1)
  then have "unat ((rp + of_nat i) AND m) = take_bit k (unat (rp + of_nat i))"
    by (simp add: unsigned_take_bit_eq)
  also have "rp + of_nat i = of_nat (unat rp + i)" by simp
  then have "take_bit k (unat (rp + of_nat i)) = take_bit k (take_bit 64 (unat rp + i))"
    by (simp only: unsigned_of_nat) simp
  also have "\<dots> = (unat rp + i) mod 2 ^ k"
    unfolding take_bit_take_bit using assms(1) by (simp add: min_def take_bit_eq_mod)
  finally show ?thesis .
qed

lemma ring_okE:
  assumes "ring_ok r"
  obtains k where "k < 64" "rg_num r = 2 ^ k" "length (rg_data r) = 2 ^ k" "rg_mask r = 2 ^ k - 1"
    "ring_len r \<le> 2 ^ k" "unat (rg_num r) = 2 ^ k"
  using assms by (auto simp: ring_ok_def ring_len_def word_le_nat_alt unat_2p)

lemma ring_wp: "rg_wp r = rg_rp r + of_nat (ring_len r)"
  by (simp add: ring_len_def)

lemma mod_slots_distinct:
  assumes "i < n" "n < (m :: nat)" shows "(a + i) mod m \<noteq> (a + n) mod m"
proof
  assume "(a + i) mod m = (a + n) mod m"
  then have "m dvd n - i" using assms by (metis add_diff_cancel_left diff_is_0_eq mod_eq_dvd_iff_nat
      add_le_mono1 le_add1 nat_add_left_cancel_le less_imp_le diff_add_inverse)
  with assms show False by (auto dest: dvd_imp_le)
qed

lemma slot_in: "length (rg_data r) = 2 ^ k \<Longrightarrow> unat i < 2 ^ k \<Longrightarrow> slot r i = Ret (Inr (unat i))"
  by (simp add: slot_def)

lemma ring_enq_eq:
  assumes "ring_ok r"
  shows "ring_enq r x =
    (if unat (rg_num r) \<le> ring_len r then None
     else Some (r\<lparr>rg_data := (rg_data r)[unat (rg_wp r AND rg_mask r) := x], rg_wp := rg_wp r + 1\<rparr>))"
proof -
  obtain k where k: "k < 64" "length (rg_data r) = 2 ^ k" "rg_mask r = 2 ^ k - 1"
    using assms by (rule ring_okE)
  have "unat (rg_wp r AND rg_mask r) < 2 ^ k"
    using ring_index [OF k(1,3), of "rg_wp r" 0] by simp
  then have "ring_Set r = (if rg_num r \<le> rg_wp r - rg_rp r then Ret (Inl ErrRingFull)
      else Ret (Inr (unat (rg_wp r AND rg_mask r))))"
    using slot_in [OF k(2)] by (simp add: ring_Set_def)
  then show ?thesis
    by (simp add: ring_enq_def ring_SetAdv_def ring_len_def word_le_nat_alt)
qed

lemma ring_deq_eq:
  assumes "ring_ok r"
  shows "ring_deq r =
    (if ring_len r = 0 then None
     else Some (rg_data r ! unat (rg_rp r AND rg_mask r), r\<lparr>rg_rp := rg_rp r + 1\<rparr>))"
proof -
  obtain k where k: "k < 64" "length (rg_data r) = 2 ^ k" "rg_mask r = 2 ^ k - 1"
    using assms by (rule ring_okE)
  have "unat (rg_rp r AND rg_mask r) < 2 ^ k"
    using ring_index [OF k(1,3), of "rg_rp r" 0] by simp
  then have "ring_Get r = (if rg_rp r = rg_wp r then Ret (Inl ErrRingEmpty)
      else Ret (Inr (unat (rg_rp r AND rg_mask r))))"
    using slot_in [OF k(2)] by (simp add: ring_Get_def)
  then show ?thesis
    by (auto simp: ring_deq_def ring_GetAdv_def ring_len_def unat_eq_zero)
qed

lemma ring_enq_spec:
  assumes ok: "ring_ok r" and enq: "ring_enq r x = Some r'"
  shows "ring_ok r'" "ring_items r' = ring_items r @ [x]" "rg_num r' = rg_num r"
proof -
  obtain k where k: "k < 64" "rg_num r = 2 ^ k" "length (rg_data r) = 2 ^ k" "rg_mask r = 2 ^ k - 1"
    "ring_len r \<le> 2 ^ k" "unat (rg_num r) = 2 ^ k"
    using ok by (rule ring_okE)
  let ?n = "ring_len r"
  have lt: "?n < 2 ^ k" and r': "r' = r\<lparr>rg_data := (rg_data r)[unat (rg_wp r AND rg_mask r) := x],
      rg_wp := rg_wp r + 1\<rparr>"
    using enq k(6) by (auto simp: ring_enq_eq [OF ok] split: if_splits)
  have "(2 :: nat) ^ k < 2 ^ 64" by (rule power_strict_increasing) (use k(1) in auto)
  then have "Suc ?n < 2 ^ 64" using lt by linarith
  moreover have "rg_wp r' - rg_rp r' = of_nat (Suc ?n)" using r' ring_wp [of r] by simp
  ultimately have n': "ring_len r' = Suc ?n"
    by (simp add: ring_len_def [of r'] unsigned_of_nat take_bit_nat_eq_self del: of_nat_Suc)
  then show "ring_ok r'"
    using ok k r' lt by (auto simp: ring_ok_def ring_len_def word_le_nat_alt)
  show "rg_num r' = rg_num r" using r' by simp
  have wpi: "unat (rg_wp r AND rg_mask r) = (unat (rg_rp r) + ?n) mod 2 ^ k"
    unfolding ring_wp [of r] by (rule ring_index [OF k(1,4)])
  have old: "rg_data r' ! unat ((rg_rp r + of_nat i) AND rg_mask r)
      = rg_data r ! unat ((rg_rp r + of_nat i) AND rg_mask r)" if "i < ?n" for i
    using mod_slots_distinct [OF that lt, THEN not_sym, of "unat (rg_rp r)"] r' wpi ring_index [OF k(1,4)] by simp
  have new: "rg_data r' ! unat ((rg_rp r + of_nat ?n) AND rg_mask r) = x"
    using r' wpi ring_index [OF k(1,4)] k(3) by simp
  have "ring_items r' = map (\<lambda>i. rg_data r' ! unat ((rg_rp r + of_nat i) AND rg_mask r)) [0..<?n] @ [x]"
    using n' r' new by (simp add: ring_items_def ring_len_def)
  also have "\<dots> = ring_items r @ [x]"
    using old by (simp add: ring_items_def ring_len_def)
  finally show "ring_items r' = ring_items r @ [x]" .
qed

lemma ring_deq_spec:
  assumes ok: "ring_ok r" and deq: "ring_deq r = Some (x, r')"
  shows "ring_ok r'" "ring_items r = x # ring_items r'" "rg_num r' = rg_num r"
proof -
  obtain k where k: "k < 64" "rg_num r = 2 ^ k" "length (rg_data r) = 2 ^ k" "rg_mask r = 2 ^ k - 1"
    "ring_len r \<le> 2 ^ k" "unat (rg_num r) = 2 ^ k"
    using ok by (rule ring_okE)
  have ne: "ring_len r \<noteq> 0" and x: "x = rg_data r ! unat (rg_rp r AND rg_mask r)"
    and r': "r' = r\<lparr>rg_rp := rg_rp r + 1\<rparr>"
    using deq by (auto simp: ring_deq_eq [OF ok] split: if_splits)
  then obtain m where m: "ring_len r = Suc m" by (cases "ring_len r") auto
  have "Suc m < 2 ^ 64" using unsigned_less [of "rg_wp r - rg_rp r", where ?'a = nat] m
    by (simp add: ring_len_def)
  moreover have "rg_wp r' - rg_rp r' = of_nat m" using r' ring_wp [of r] m by simp
  ultimately have n': "ring_len r' = m"
    by (simp add: ring_len_def [of r'] unsigned_of_nat take_bit_nat_eq_self)
  then show "ring_ok r'"
    using ok k r' m by (auto simp: ring_ok_def ring_len_def word_le_nat_alt)
  show "rg_num r' = rg_num r" using r' by simp
  have "ring_items r = map (\<lambda>i. rg_data r ! unat ((rg_rp r + of_nat i) AND rg_mask r)) [0..<Suc m]"
    using m by (simp add: ring_items_def ring_len_def)
  also have "\<dots> = x # map (\<lambda>i. rg_data r ! unat ((rg_rp r + of_nat (Suc i)) AND rg_mask r)) [0..<m]"
    using x by (simp add: upt_conv_Cons map_Suc_upt [symmetric] comp_def del: upt_Suc)
  also have "\<dots> = x # ring_items r'"
    using n' r' by (simp add: ring_items_def ring_len_def algebra_simps)
  finally show "ring_items r = x # ring_items r'" .
qed

interpretation ring: bounded_fifo ring_enq ring_deq ring_items "\<lambda>r. unat (rg_num r)" ring_ok
proof
  fix r r' :: "'a ring" and x :: 'a
  assume ok: "ring_ok r"
  show "ring_enq r x = None \<longleftrightarrow> unat (rg_num r) \<le> length (ring_items r)"
    by (simp add: ring_enq_eq [OF ok] ring_items_len)
  show "ring_enq r x = Some r' \<Longrightarrow>
      ring_ok r' \<and> ring_items r' = ring_items r @ [x] \<and> unat (rg_num r') = unat (rg_num r)"
    using ring_enq_spec [OF ok] by metis
  show "ring_deq r = None \<longleftrightarrow> ring_items r = []"
    using ring_items_len [of r] by (auto simp: ring_deq_eq [OF ok])
  show "ring_deq r = Some (x, r') \<Longrightarrow>
      ring_ok r' \<and> ring_items r = x # ring_items r' \<and> unat (rg_num r') = unat (rg_num r)"
    using ring_deq_spec [OF ok] by metis
  show "length (ring_items r) \<le> unat (rg_num r)"
    using ok by (elim ring_okE) (simp add: ring_items_len)
qed

section \<open>The two-level queue\<close>

record pqueue =
  pq_high :: "proto gochan"
  pq_normal :: "proto gochan"

definition pq_Reset :: "int \<Rightarrow> int \<Rightarrow> pqueue" where
  "pq_Reset highCap normalCap =
     \<lparr>pq_high = make_chan (if highCap \<le> 0 then 1 else nat highCap),
      pq_normal = make_chan (if normalCap \<le> 0 then 1 else nat normalCap)\<rparr>"

definition NewPriorityQueue :: "int \<Rightarrow> int \<Rightarrow> pqueue" where
  "NewPriorityQueue highCap normalCap = pq_Reset highCap normalCap"

definition isHighPriority :: "i32 \<Rightarrow> bool" where
  "isHighPriority op \<longleftrightarrow>
     op = OpProtoReady \<or> op = OpProtoFinish \<or> op = OpHeartbeatReply \<or> op = OpPushMsgAck
     \<or> op = OpSyncReply \<or> op = OpSendMsgAck"

definition pq_Push :: "pqueue \<Rightarrow> proto \<Rightarrow> gerr option \<times> pqueue" where
  "pq_Push pq p =
     (if isHighPriority (Op p)
      then (case chan_send (pq_high pq) p of
              Some c \<Rightarrow> (None, pq\<lparr>pq_high := c\<rparr>)
            | None \<Rightarrow> (Some ErrSignalFullMsgDropped, pq))
      else (case chan_send (pq_normal pq) p of
              Some c \<Rightarrow> (None, pq\<lparr>pq_normal := c\<rparr>)
            | None \<Rightarrow> (Some ErrSignalFullMsgDropped, pq)))"

text \<open>\<open>Pop\<close> with nobody else sending meanwhile; \<open>None\<close> where it would block.\<close>

definition pq_Pop :: "pqueue \<Rightarrow> (proto \<times> pqueue) option" where
  "pq_Pop pq =
     (case chan_recv (pq_high pq) of
        Some (p, c) \<Rightarrow> Some (p, pq\<lparr>pq_high := c\<rparr>)
      | None \<Rightarrow>
          (case chan_recv (pq_normal pq) of
             Some (p, c) \<Rightarrow> Some (p, pq\<lparr>pq_normal := c\<rparr>)
           | None \<Rightarrow> None))"

definition pq_Len :: "pqueue \<Rightarrow> nat" where
  "pq_Len pq = length (gc_items (pq_high pq)) + length (gc_items (pq_normal pq))"

definition ProtoReady :: proto where
  "ProtoReady = \<lparr>Ver = 0, Op = OpProtoReady, Seq = 0, Body = None\<rparr>"

definition ProtoFinish :: proto where
  "ProtoFinish = \<lparr>Ver = 0, Op = OpProtoFinish, Seq = 0, Body = None\<rparr>"

text \<open>A blocking send of the internal signal.\<close>

definition pq_Close :: "pqueue \<Rightarrow> pqueue option" where
  "pq_Close pq = map_option (\<lambda>c. pq\<lparr>pq_high := c\<rparr>) (chan_send (pq_high pq) ProtoFinish)"

definition pq_ok :: "pqueue \<Rightarrow> bool" where
  "pq_ok pq \<longleftrightarrow> chan_ok (pq_high pq) \<and> chan_ok (pq_normal pq)
     \<and> 0 < gc_cap (pq_high pq) \<and> 0 < gc_cap (pq_normal pq)"

lemma pq_ok_Reset [simp]: "pq_ok (pq_Reset h n)"
  by (simp add: pq_ok_def pq_Reset_def chan_ok_def make_chan_def)

lemma pq_ok_Push [simp]: "pq_ok pq \<Longrightarrow> pq_ok (snd (pq_Push pq p))"
  by (auto simp: pq_ok_def pq_Push_def chan_send_def chan_ok_def)

fun pq_push_all :: "pqueue \<Rightarrow> proto list \<Rightarrow> proto list \<times> pqueue" where
  "pq_push_all pq [] = ([], pq)"
| "pq_push_all pq (p # ps) =
     (let (e, pq1) = pq_Push pq p; (dropped, pq2) = pq_push_all pq1 ps
      in (if e = None then dropped else p # dropped, pq2))"

fun pq_drain :: "nat \<Rightarrow> pqueue \<Rightarrow> proto list \<times> pqueue" where
  "pq_drain 0 pq = ([], pq)"
| "pq_drain (Suc n) pq =
     (case pq_Pop pq of
        None \<Rightarrow> ([], pq)
      | Some (p, pq1) \<Rightarrow> (let (ps, pq2) = pq_drain n pq1 in (p # ps, pq2)))"

lemma pq_push_all_items:
  assumes "pq_ok pq"
    and "length (gc_items (pq_high pq)) + length (filter (\<lambda>p. isHighPriority (Op p)) ps) \<le> gc_cap (pq_high pq)"
    and "length (gc_items (pq_normal pq)) + length (filter (\<lambda>p. \<not> isHighPriority (Op p)) ps) \<le> gc_cap (pq_normal pq)"
  shows "fst (pq_push_all pq ps) = []
    \<and> gc_items (pq_high (snd (pq_push_all pq ps))) = gc_items (pq_high pq) @ filter (\<lambda>p. isHighPriority (Op p)) ps
    \<and> gc_items (pq_normal (snd (pq_push_all pq ps))) = gc_items (pq_normal pq) @ filter (\<lambda>p. \<not> isHighPriority (Op p)) ps"
  using assms
proof (induction ps arbitrary: pq)
  case (Cons p ps)
  have ok: "pq_ok (snd (pq_Push pq p))" using Cons.prems(1) by simp
  show ?case
    using Cons.IH [OF ok] Cons.prems
    by (cases "isHighPriority (Op p)") (auto simp: pq_Push_def chan_send_def split: prod.splits)
qed simp

lemma pq_drain_items:
  "pq_Len pq \<le> n \<Longrightarrow> fst (pq_drain n pq) = gc_items (pq_high pq) @ gc_items (pq_normal pq)"
proof (induction n arbitrary: pq)
  case (Suc n)
  show ?case
  proof (cases "gc_items (pq_high pq)")
    case Nil
    show ?thesis
    proof (cases "gc_items (pq_normal pq)")
      case (Cons y ys)
      with Suc Nil Suc.IH [of "pq\<lparr>pq_normal := (pq_normal pq)\<lparr>gc_items := ys\<rparr>\<rparr>"] show ?thesis
        by (simp add: pq_Pop_def chan_recv_def pq_Len_def case_prod_beta Let_def)
    qed (simp add: Nil pq_Pop_def chan_recv_def)
  next
    case (Cons y ys)
    with Suc Suc.IH [of "pq\<lparr>pq_high := (pq_high pq)\<lparr>gc_items := ys\<rparr>\<rparr>"] show ?thesis
      by (simp add: pq_Pop_def chan_recv_def pq_Len_def case_prod_beta Let_def)
  qed
qed (simp add: pq_Len_def)

section \<open>Properties\<close>

text \<open>The size of a ring: for every requested size up to \<open>2 ^ 63\<close> the ring has the least
  power of two that is at least that size.\<close>

theorem ring_size_least_power:
  assumes "unat num \<le> 2 ^ 63"
  shows "\<exists>k<64. normalizeRingSize num = 2 ^ k \<and> unat num \<le> 2 ^ k
    \<and> (\<forall>j. unat num \<le> 2 ^ j \<longrightarrow> k \<le> j)"
  using assms by (rule normalizeRingSize_power)

theorem ring_size_least_power_witness:
  "\<exists>k<64. normalizeRingSize 5 = 2 ^ k \<and> unat (5 :: i64) \<le> 2 ^ k
    \<and> (\<forall>j. unat (5 :: i64) \<le> 2 ^ j \<longrightarrow> k \<le> j)"
  by (rule ring_size_least_power) simp

text \<open>Property C5. The ring refines a bounded list: through any sequence of puts and takes, from any
  positions of its 64-bit counters, wrap-around included, it accepts, refuses and delivers
  exactly what a list of that capacity does.\<close>

theorem ring_refines_bounded_list:
  assumes "ring_ok r"
  shows "\<exists>r'. q_run ring_enq ring_deq ops r
      = (fst (list_run (unat (rg_num r)) ops (ring_items r)), r')
    \<and> ring_ok r' \<and> ring_items r' = snd (list_run (unat (rg_num r)) ops (ring_items r))"
  using ring.run_refines [OF assms, of ops] by blast

text \<open>A ring of two slots whose counters are about to wrap around.\<close>

definition wrapping_ring :: "nat ring" where
  "wrapping_ring = \<lparr>rg_rp = - 1, rg_num = 2, rg_mask = 1, rg_wp = - 1, rg_data = [0, 0]\<rparr>"

theorem ring_refines_bounded_list_witness:
  "\<exists>r'. q_run ring_enq ring_deq [Put 5, Put 6, Put 7, Take, Take, Take] wrapping_ring
      = (fst (list_run (unat (rg_num wrapping_ring)) [Put 5, Put 6, Put 7, Take, Take, Take]
          (ring_items wrapping_ring)), r')
    \<and> ring_ok r' \<and> ring_items r' = snd (list_run (unat (rg_num wrapping_ring))
        [Put 5, Put 6, Put 7, Take, Take, Take] (ring_items wrapping_ring))"
  by (rule ring_refines_bounded_list)
    (auto simp: wrapping_ring_def ring_ok_def intro!: exI [of _ 1])

text \<open>The two-level queue delivers every control packet before any other, and each class
  in the order it was pushed; nothing is dropped while its own class has room.\<close>

theorem priority_order:
  assumes "length (filter (\<lambda>p. isHighPriority (Op p)) ps) \<le> nat h" "0 < h"
    and "length (filter (\<lambda>p. \<not> isHighPriority (Op p)) ps) \<le> nat n" "0 < n"
  shows "\<exists>pq. pq_push_all (NewPriorityQueue h n) ps = ([], pq)
    \<and> fst (pq_drain (length ps) pq) =
        filter (\<lambda>p. isHighPriority (Op p)) ps @ filter (\<lambda>p. \<not> isHighPriority (Op p)) ps"
proof -
  let ?pq = "NewPriorityQueue h n"
  have "fst (pq_push_all ?pq ps) = []
    \<and> gc_items (pq_high (snd (pq_push_all ?pq ps))) = filter (\<lambda>p. isHighPriority (Op p)) ps
    \<and> gc_items (pq_normal (snd (pq_push_all ?pq ps))) = filter (\<lambda>p. \<not> isHighPriority (Op p)) ps"
    using pq_push_all_items [of ?pq ps] assms
    by (simp add: NewPriorityQueue_def pq_Reset_def make_chan_def pq_ok_def chan_ok_def)
  moreover have "length (filter (\<lambda>p. isHighPriority (Op p)) ps)
      + length (filter (\<lambda>p. \<not> isHighPriority (Op p)) ps) = length ps"
    by (rule sum_length_filter_compl)
  ultimately show ?thesis
    using pq_drain_items [of "snd (pq_push_all ?pq ps)" "length ps"]
    by (cases "pq_push_all ?pq ps") (simp add: pq_Len_def)
qed

theorem priority_order_witness:
  "\<exists>pq. pq_push_all (NewPriorityQueue 2 2) [sample_packet, ProtoReady, sample_packet, ProtoFinish] = ([], pq)
    \<and> fst (pq_drain (length [sample_packet, ProtoReady, sample_packet, ProtoFinish]) pq) =
        filter (\<lambda>p. isHighPriority (Op p)) [sample_packet, ProtoReady, sample_packet, ProtoFinish]
        @ filter (\<lambda>p. \<not> isHighPriority (Op p)) [sample_packet, ProtoReady, sample_packet, ProtoFinish]"
  by (rule priority_order)
    (simp_all add: sample_packet_def ProtoReady_def ProtoFinish_def isHighPriority_def OpSendMsg_def
      OpProtoReady_def OpProtoFinish_def OpHeartbeatReply_def OpPushMsgAck_def OpSyncReply_def OpSendMsgAck_def)

text \<open>A push is dropped as soon as the queue of its own class is full, whatever room the other has.\<close>

lemma push_dropped_own_class:
  "fst (pq_Push pq p) = Some ErrSignalFullMsgDropped \<longleftrightarrow>
     (if isHighPriority (Op p) then gc_cap (pq_high pq) \<le> length (gc_items (pq_high pq))
      else gc_cap (pq_normal pq) \<le> length (gc_items (pq_normal pq)))"
  by (auto simp: pq_Push_def chan_send_def)

end
