(* ===== verification/Room_Bucket.thy ===== *)
theory Room_Bucket
  imports Comet_Queues
begin

text \<open>
  Client connections, rooms and buckets of the comet server (\<open>internal/comet/channel.go\<close>,
  \<open>room.go\<close> and \<open>bucket.go\<close>). Channels and rooms are objects that the code links to each other by
  pointers, so the model keeps them in a store: a room's members are a doubly linked list
  threaded through the channels. A send on a full queue that nobody empties blocks the caller
  for ever; it is the outcome \<open>Spin\<close> here.

  \<open>room_list\<close> says which list of channels a room's pointers make, and \<open>bucket_inv\<close> ties the
  lists of all rooms to the bucket's tables; every operation is shown to keep them.
\<close>

section \<open>State\<close>

record chan =
  ch_Room :: "ref option"
  ch_Next :: "ref option"
  ch_Prev :: "ref option"
  ch_sig :: pqueue
  ch_Mid :: i64
  ch_Key :: string
  ch_IP :: string
  ch_watchOps :: "i32 set"

record room =
  ro_ID :: string
  ro_next :: "ref option"
  ro_drop :: bool
  ro_Online :: i32
  ro_AllOnline :: i32

record store =
  st_chan :: "ref \<Rightarrow> chan"
  st_room :: "ref \<Rightarrow> room"
  st_fresh :: ref

record bucket =
  bk_chs :: "string \<Rightarrow> ref option"
  bk_rooms :: "string \<Rightarrow> ref option"
  bk_ipCnts :: "string \<Rightarrow> i32 option"
  bk_st :: store

definition upd_chan :: "ref \<Rightarrow> (chan \<Rightarrow> chan) \<Rightarrow> store \<Rightarrow> store" where
  "upd_chan c f st = st\<lparr>st_chan := (st_chan st)(c := f (st_chan st c))\<rparr>"

definition upd_room :: "ref \<Rightarrow> (room \<Rightarrow> room) \<Rightarrow> store \<Rightarrow> store" where
  "upd_room r f st = st\<lparr>st_room := (st_room st)(r := f (st_room st r))\<rparr>"

lemma upd_chan_simps [simp]:
  "st_room (upd_chan c f st) = st_room st" "st_fresh (upd_chan c f st) = st_fresh st"
  "st_chan (upd_chan c f st) = (st_chan st)(c := f (st_chan st c))"
  by (simp_all add: upd_chan_def)

lemma upd_room_simps [simp]:
  "st_chan (upd_room r f st) = st_chan st" "st_fresh (upd_room r f st) = st_fresh st"
  "st_room (upd_room r f st) = (st_room st)(r := f (st_room st r))"
  by (simp_all add: upd_room_def)

section \<open>Channels\<close>

text \<open>\<open>Reset\<close> of a channel object, fresh or from the pool.\<close>

definition Channel_Reset :: "int \<Rightarrow> chan \<Rightarrow> chan" where
  "Channel_Reset svr c =
     c\<lparr>ch_Room := None, ch_sig := pq_Reset svr (svr * 8), ch_Next := None, ch_Prev := None,
       ch_Mid := 0, ch_Key := [], ch_IP := [], ch_watchOps := {}\<rparr>"

definition Channel_Watch :: "i32 list \<Rightarrow> chan \<Rightarrow> chan" where
  "Channel_Watch accepts c = c\<lparr>ch_watchOps := ch_watchOps c \<union> set accepts\<rparr>"

definition Channel_UnWatch :: "i32 list \<Rightarrow> chan \<Rightarrow> chan" where
  "Channel_UnWatch accepts c = c\<lparr>ch_watchOps := ch_watchOps c - set accepts\<rparr>"

definition Channel_NeedPush :: "i32 \<Rightarrow> chan \<Rightarrow> bool" where
  "Channel_NeedPush op c \<longleftrightarrow> op \<in> ch_watchOps c"

definition Channel_Push :: "proto \<Rightarrow> ref \<Rightarrow> store \<Rightarrow> gerr option \<times> store" where
  "Channel_Push p c st =
     (let (e, q) = pq_Push (ch_sig (st_chan st c)) p in (e, upd_chan c (ch_sig_update (\<lambda>_. q)) st))"

definition Channel_send_high :: "proto \<Rightarrow> ref \<Rightarrow> store \<Rightarrow> store exec" where
  "Channel_send_high p c st =
     (case chan_send (pq_high (ch_sig (st_chan st c))) p of
        None \<Rightarrow> Spin
      | Some q \<Rightarrow> Ret (upd_chan c (ch_sig_update (pq_high_update (\<lambda>_. q))) st))"

definition Channel_Signal :: "ref \<Rightarrow> store \<Rightarrow> store exec" where
  "Channel_Signal = Channel_send_high ProtoReady"

definition Channel_Close :: "ref \<Rightarrow> store \<Rightarrow> store exec" where
  "Channel_Close = Channel_send_high ProtoFinish"

section \<open>Rooms\<close>

definition NewRoom :: "string \<Rightarrow> room" where
  "NewRoom rid = \<lparr>ro_ID = rid, ro_next = None, ro_drop = False, ro_Online = 0, ro_AllOnline = 0\<rparr>"

definition Room_Put :: "ref \<Rightarrow> ref \<Rightarrow> store \<Rightarrow> gerr option \<times> store" where
  "Room_Put r c st =
     (if \<not> ro_drop (st_room st r)
      then let nx = ro_next (st_room st r);
               st1 = (case nx of None \<Rightarrow> st | Some n \<Rightarrow> upd_chan n (ch_Prev_update (\<lambda>_. Some c)) st);
               st2 = upd_chan c (\<lambda>ch. ch\<lparr>ch_Next := nx, ch_Prev := None\<rparr>) st1
           in (None, upd_room r (\<lambda>ro. ro\<lparr>ro_next := Some c, ro_Online := ro_Online ro + 1\<rparr>) st2)
      else (Some ErrRoomDroped, st))"

definition Room_Del :: "ref \<Rightarrow> ref \<Rightarrow> store \<Rightarrow> bool \<times> store" where
  "Room_Del r c st =
     (let nx = ch_Next (st_chan st c);
          st1 = (case nx of
                   None \<Rightarrow> st
                 | Some n \<Rightarrow> upd_chan n (ch_Prev_update (\<lambda>_. ch_Prev (st_chan st c))) st);
          st2 = (case ch_Prev (st_chan st1 c) of
                   Some p \<Rightarrow> upd_chan p (ch_Next_update (\<lambda>_. ch_Next (st_chan st1 c))) st1
                 | None \<Rightarrow> upd_room r (ro_next_update (\<lambda>_. ch_Next (st_chan st1 c))) st1);
          st3 = upd_chan c (\<lambda>ch. ch\<lparr>ch_Next := None, ch_Prev := None\<rparr>) st2;
          online = ro_Online (st_room st3 r) - 1;
          st4 = upd_room r (\<lambda>ro. ro\<lparr>ro_Online := online, ro_drop := (online = 0)\<rparr>) st3
      in (online = 0, st4))"

text \<open>The walk along a room's list, one channel a turn.\<close>

definition Room_walk :: "(ref \<Rightarrow> store \<Rightarrow> store exec) \<Rightarrow> ref \<Rightarrow> store \<Rightarrow> store exec" where
  "Room_walk f r st =
     exec_bind
       (exec_loop (\<lambda>(cur, st). cur \<noteq> None)
          (\<lambda>(cur, st). case cur of
             None \<Rightarrow> Ret (None, st)
           | Some c \<Rightarrow> exec_bind (f c st) (\<lambda>st'. Ret (ch_Next (st_chan st' c), st')))
          (ro_next (st_room st r), st))
       (\<lambda>(_, st'). Ret st')"

definition push_one :: "proto \<Rightarrow> ref \<Rightarrow> store \<Rightarrow> store exec" where
  "push_one p c st =
     (let (e, st1) = Channel_Push p c st in if e \<noteq> None then Ret st1 else Channel_Signal c st1)"

definition Room_Push :: "proto \<Rightarrow> ref \<Rightarrow> store \<Rightarrow> store exec" where
  "Room_Push p r st = Room_walk (push_one p) r st"

definition Room_Close :: "ref \<Rightarrow> store \<Rightarrow> store exec" where
  "Room_Close r st = Room_walk Channel_Close r st"

definition Room_OnlineNum :: "room \<Rightarrow> i32" where
  "Room_OnlineNum ro = (if 0 <s ro_AllOnline ro then ro_AllOnline ro else ro_Online ro)"

section \<open>Buckets\<close>

definition Bucket_ChannelCount :: "bucket \<Rightarrow> nat" where
  "Bucket_ChannelCount b = card (dom (bk_chs b))"

definition Bucket_RoomCount :: "bucket \<Rightarrow> nat" where
  "Bucket_RoomCount b = card (dom (bk_rooms b))"

definition Bucket_RoomsCount :: "bucket \<Rightarrow> string \<Rightarrow> i32 option" where
  "Bucket_RoomsCount b rid =
     (case bk_rooms b rid of
        None \<Rightarrow> None
      | Some r \<Rightarrow> if 0 <s ro_Online (st_room (bk_st b) r) then Some (ro_Online (st_room (bk_st b) r)) else None)"

definition Bucket_Rooms :: "bucket \<Rightarrow> string set" where
  "Bucket_Rooms b = {rid. \<exists>r. bk_rooms b rid = Some r \<and> 0 <s ro_Online (st_room (bk_st b) r)}"

definition Bucket_Channel :: "bucket \<Rightarrow> string \<Rightarrow> ref option" where
  "Bucket_Channel b key = bk_chs b key"

definition Bucket_Room :: "bucket \<Rightarrow> string \<Rightarrow> ref option" where
  "Bucket_Room b rid = bk_rooms b rid"

definition Bucket_IPCount :: "bucket \<Rightarrow> string set" where
  "Bucket_IPCount b = dom (bk_ipCnts b)"

definition Bucket_UpRoomsCount :: "(string \<Rightarrow> i32 option) \<Rightarrow> bucket \<Rightarrow> bucket" where
  "Bucket_UpRoomsCount m b =
     b\<lparr>bk_st := (bk_st b)\<lparr>st_room := (\<lambda>r. let ro = st_room (bk_st b) r in
        if bk_rooms b (ro_ID ro) = Some r
        then ro\<lparr>ro_AllOnline := (case m (ro_ID ro) of None \<Rightarrow> 0 | Some n \<Rightarrow> n)\<rparr> else ro)\<rparr>\<rparr>"

definition Bucket_DelRoom :: "ref \<Rightarrow> bucket \<Rightarrow> bucket exec" where
  "Bucket_DelRoom r b =
     (let b1 = b\<lparr>bk_rooms := (bk_rooms b)(ro_ID (st_room (bk_st b) r) := None)\<rparr>
      in exec_bind (Room_Close r (bk_st b1)) (\<lambda>st. Ret (b1\<lparr>bk_st := st\<rparr>)))"

text \<open>The room of an id, made when there is none.\<close>

definition get_room :: "string \<Rightarrow> bucket \<Rightarrow> ref \<times> bucket" where
  "get_room rid b =
     (case bk_rooms b rid of
        Some r \<Rightarrow> (r, b)
      | None \<Rightarrow>
          let r = st_fresh (bk_st b)
          in (r, b\<lparr>bk_rooms := (bk_rooms b)(rid \<mapsto> r),
                   bk_st := (upd_room r (\<lambda>_. NewRoom rid) (bk_st b))\<lparr>st_fresh := Suc r\<rparr>\<rparr>))"

definition leave_room :: "ref option \<Rightarrow> ref \<Rightarrow> bucket \<Rightarrow> bucket exec" where
  "leave_room oroom c b =
     (case oroom of
        None \<Rightarrow> Ret b
      | Some r \<Rightarrow>
          let (dropped, st) = Room_Del r c (bk_st b); b1 = b\<lparr>bk_st := st\<rparr>
          in if dropped then Bucket_DelRoom r b1 else Ret b1)"

definition Bucket_ChangeRoom :: "string \<Rightarrow> ref \<Rightarrow> bucket \<Rightarrow> (gerr option \<times> bucket) exec" where
  "Bucket_ChangeRoom nrid c b =
     (let oroom = ch_Room (st_chan (bk_st b) c) in
      if nrid = []
      then exec_bind (leave_room oroom c b) (\<lambda>b1.
             Ret (None, b1\<lparr>bk_st := upd_chan c (ch_Room_update (\<lambda>_. None)) (bk_st b1)\<rparr>))
      else
        let (nroom, b1) = get_room nrid b
        in exec_bind (leave_room oroom c b1) (\<lambda>b2.
             let (e, st) = Room_Put nroom c (bk_st b2); b3 = b2\<lparr>bk_st := st\<rparr>
             in case e of
                  Some err \<Rightarrow> Ret (Some err, b3)
                | None \<Rightarrow> Ret (None, b3\<lparr>bk_st := upd_chan c (ch_Room_update (\<lambda>_. Some nroom)) st\<rparr>)))"

definition ip_inc :: "string \<Rightarrow> (string \<Rightarrow> i32 option) \<Rightarrow> string \<Rightarrow> i32 option" where
  "ip_inc ip m = m(ip \<mapsto> (case m ip of None \<Rightarrow> 0 | Some n \<Rightarrow> n) + 1)"

definition ip_dec :: "string \<Rightarrow> (string \<Rightarrow> i32 option) \<Rightarrow> string \<Rightarrow> i32 option" where
  "ip_dec ip m =
     (case m ip of
        Some n \<Rightarrow> if 1 <s n then m(ip \<mapsto> n - 1) else m(ip := None)
      | None \<Rightarrow> m(ip := None))"

definition Bucket_Put :: "string \<Rightarrow> ref \<Rightarrow> bucket \<Rightarrow> (gerr option \<times> bucket) exec" where
  "Bucket_Put rid c b =
     (let key = ch_Key (st_chan (bk_st b) c); ip = ch_IP (st_chan (bk_st b) c) in
      exec_bind (case bk_chs b key of
                   None \<Rightarrow> Ret (bk_st b)
                 | Some dch \<Rightarrow> Channel_Close dch (bk_st b)) (\<lambda>st1.
        let b1 = b\<lparr>bk_st := st1, bk_chs := (bk_chs b)(key \<mapsto> c)\<rparr> in
        if rid = [] then Ret (None, b1\<lparr>bk_ipCnts := ip_inc ip (bk_ipCnts b1)\<rparr>)
        else
          let (r, b2) = get_room rid b1;
              b3 = b2\<lparr>bk_st := upd_chan c (ch_Room_update (\<lambda>_. Some r)) (bk_st b2),
                      bk_ipCnts := ip_inc ip (bk_ipCnts b2)\<rparr>;
              (e, st) = Room_Put r c (bk_st b3)
          in Ret (e, b3\<lparr>bk_st := st\<rparr>)))"

definition Bucket_Del :: "ref \<Rightarrow> bucket \<Rightarrow> bucket exec" where
  "Bucket_Del dch b =
     (let room = ch_Room (st_chan (bk_st b) dch);
          key = ch_Key (st_chan (bk_st b) dch);
          b1 = (case bk_chs b key of
                  None \<Rightarrow> b
                | Some ch \<Rightarrow>
                    b\<lparr>bk_chs := (if ch = dch then (bk_chs b)(key := None) else bk_chs b),
                      bk_ipCnts := ip_dec (ch_IP (st_chan (bk_st b) ch)) (bk_ipCnts b)\<rparr>)
      in leave_room room dch b1)"

text \<open>The order in which Go visits the channels of the table is not fixed: it is the argument \<open>cs\<close>.\<close>

fun Bucket_Broadcast :: "proto \<Rightarrow> i32 \<Rightarrow> ref list \<Rightarrow> store \<Rightarrow> store exec" where
  "Bucket_Broadcast p op [] st = Ret st"
| "Bucket_Broadcast p op (c # cs) st =
     (if \<not> Channel_NeedPush op (st_chan st c) then Bucket_Broadcast p op cs st
      else exec_bind (push_one p c st) (Bucket_Broadcast p op cs))"

definition roomproc_step :: "bucket \<Rightarrow> string \<Rightarrow> proto \<Rightarrow> bucket exec" where
  "roomproc_step b rid p =
     (case Bucket_Room b rid of
        None \<Rightarrow> Ret b
      | Some r \<Rightarrow> exec_bind (Room_Push p r (bk_st b)) (\<lambda>st. Ret (b\<lparr>bk_st := st\<rparr>)))"

section \<open>The list of a room\<close>

text \<open>A doubly linked segment: its first pointer and the \<open>Prev\<close> of its first channel, the
  channels, the last channel (or what came before) and the pointer that leaves it.\<close>

fun dseg :: "(ref \<Rightarrow> chan) \<Rightarrow> ref option \<Rightarrow> ref option \<Rightarrow> ref list \<Rightarrow> ref option \<Rightarrow> ref option \<Rightarrow> bool" where
  "dseg h p n [] q m \<longleftrightarrow> n = m \<and> p = q"
| "dseg h p n (c # cs) q m \<longleftrightarrow>
     n = Some c \<and> ch_Prev (h c) = p \<and> dseg h (Some c) (ch_Next (h c)) cs q m"

definition room_list :: "store \<Rightarrow> ref \<Rightarrow> ref list \<Rightarrow> bool" where
  "room_list st r cs \<longleftrightarrow> (\<exists>q. dseg (st_chan st) None (ro_next (st_room st r)) cs q None)
     \<and> distinct cs \<and> ro_Online (st_room st r) = of_nat (length cs)"

lemma dseg_append:
  "dseg h p n (xs @ ys) q m \<longleftrightarrow> (\<exists>a b. dseg h p n xs a b \<and> dseg h a b ys q m)"
  by (induction xs arbitrary: p n) auto

lemma dseg_frame:
  "(\<And>c. c \<in> set cs \<Longrightarrow> ch_Next (h' c) = ch_Next (h c) \<and> ch_Prev (h' c) = ch_Prev (h c)) \<Longrightarrow>
     dseg h' p n cs q m = dseg h p n cs q m"
  by (induction cs arbitrary: p n) auto

lemma dseg_last: "dseg h p n cs q m \<Longrightarrow> q = (if cs = [] then p else Some (last cs))"
  by (induction cs arbitrary: p n) auto

lemma dseg_first: "dseg h p n cs q m \<Longrightarrow> n = (if cs = [] then m else Some (hd cs))"
  by (cases cs) auto

lemma dseg_set_next:
  assumes "dseg h p n cs q m" "cs \<noteq> []" "distinct cs"
  shows "dseg (h(last cs := ch_Next_update (\<lambda>_. m') (h (last cs)))) p n cs q m'"
  using assms
proof (induction cs arbitrary: p n)
  case (Cons c cs)
  show ?case
  proof (cases "cs = []")
    case False
    then have "last cs \<noteq> c" using Cons.prems(3) last_in_set by fastforce
    with False Cons show ?thesis by auto
  qed (use Cons.prems in simp)
qed simp

lemma dseg_set_prev:
  assumes "dseg h p n (c # cs) q m" "distinct (c # cs)"
  shows "dseg (h(c := ch_Prev_update (\<lambda>_. p') (h c))) p' n (c # cs) q m"
proof -
  have "dseg (h(c := ch_Prev_update (\<lambda>_. p') (h c))) (Some c) (ch_Next (h c)) cs q m
      = dseg h (Some c) (ch_Next (h c)) cs q m"
    by (rule dseg_frame) (use assms(2) in auto)
  with assms(1) show ?thesis by simp
qed

lemma room_list_frame:
  assumes "room_list st r cs" "st_room st' r = st_room st r"
    and "\<And>c. c \<in> set cs \<Longrightarrow> ch_Next (st_chan st' c) = ch_Next (st_chan st c)
      \<and> ch_Prev (st_chan st' c) = ch_Prev (st_chan st c)"
  shows "room_list st' r cs"
  using assms dseg_frame [of cs "st_chan st'" "st_chan st"] by (auto simp: room_list_def)

lemma Room_Put_list:
  assumes "room_list st r cs" "c \<notin> set cs" "\<not> ro_drop (st_room st r)"
  shows "\<exists>st'. Room_Put r c st = (None, st') \<and> room_list st' r (c # cs)
    \<and> ro_drop (st_room st' r) = False \<and> ro_ID (st_room st' r) = ro_ID (st_room st r)
    \<and> st_fresh st' = st_fresh st
    \<and> (\<forall>r'. r' \<noteq> r \<longrightarrow> st_room st' r' = st_room st r')
    \<and> (\<forall>x. x \<notin> insert c (set cs) \<longrightarrow> st_chan st' x = st_chan st x)
    \<and> (\<forall>x. ch_Room (st_chan st' x) = ch_Room (st_chan st x))"
proof (cases cs)
  case Nil
  with assms show ?thesis by (simp add: Room_Put_def room_list_def Let_def)
next
  case (Cons n ns)
  obtain q where q: "dseg (st_chan st) None (ro_next (st_room st r)) (n # ns) q None"
    and d: "distinct (n # ns)" and o: "ro_Online (st_room st r) = of_nat (length (n # ns))"
    using assms(1) Cons by (auto simp: room_list_def)
  have nx: "ro_next (st_room st r) = Some n" using q by simp
  let ?h = "(st_chan st)(n := ch_Prev_update (\<lambda>_. Some c) (st_chan st n))"
  have "dseg ?h (Some c) (Some n) (n # ns) q None"
    using dseg_set_prev [OF q d, of "Some c"] nx by simp
  moreover have "dseg (?h(c := (st_chan st c)\<lparr>ch_Next := Some n, ch_Prev := None\<rparr>)) (Some c) (Some n) (n # ns) q None
      = dseg ?h (Some c) (Some n) (n # ns) q None"
    by (rule dseg_frame) (use assms(2) Cons in auto)
  moreover have "c \<noteq> n" using assms(2) Cons by auto
  ultimately show ?thesis
    using assms Cons nx d o by (auto simp: Room_Put_def room_list_def Let_def)
qed

lemma Room_Put_dropped: "ro_drop (st_room st r) \<Longrightarrow> Room_Put r c st = (Some ErrRoomDroped, st)"
  by (simp add: Room_Put_def)

lemma Room_Del_list:
  assumes "room_list st r (xs @ c # ys)" "length (xs @ ys) < 2 ^ 31"
  shows "\<exists>st'. Room_Del r c st = (xs @ ys = [], st') \<and> room_list st' r (xs @ ys)
    \<and> ro_drop (st_room st' r) = (xs @ ys = []) \<and> ro_ID (st_room st' r) = ro_ID (st_room st r)
    \<and> st_fresh st' = st_fresh st
    \<and> (\<forall>r'. r' \<noteq> r \<longrightarrow> st_room st' r' = st_room st r')
    \<and> (\<forall>x. x \<notin> set (xs @ c # ys) \<longrightarrow> st_chan st' x = st_chan st x)
    \<and> (\<forall>x. ch_Room (st_chan st' x) = ch_Room (st_chan st x))"
proof -
  let ?h = "st_chan st" and ?n = "ro_next (st_room st r)" and ?nx = "ch_Next (st_chan st c)"
  obtain q a where xs: "dseg ?h None ?n xs a (Some c)" and pv: "ch_Prev (?h c) = a"
    and ys: "dseg ?h (Some c) ?nx ys q None"
    and d: "distinct (xs @ c # ys)" and o: "ro_Online (st_room st r) = of_nat (length (xs @ c # ys))"
    using assms(1) by (auto simp: room_list_def dseg_append)
  have a: "a = (if xs = [] then None else Some (last xs))" using dseg_last [OF xs] by simp
  have nx: "?nx = (if ys = [] then None else Some (hd ys))" using dseg_first [OF ys] by simp
  define h1 where "h1 = (if ys = [] then ?h else ?h(hd ys := ch_Prev_update (\<lambda>_. a) (?h (hd ys))))"
  define h2 where "h2 = (if xs = [] then h1 else h1(last xs := ch_Next_update (\<lambda>_. ?nx) (h1 (last xs))))"
  define n' where "n' = (if xs = [] then ?nx else ?n)"
  have "\<exists>q. dseg h1 a ?nx ys q None"
    using dseg_set_prev [of ?h "Some c" ?nx "hd ys" "tl ys" q None a] ys nx d
    by (cases ys) (auto simp: h1_def)
  then obtain q' where q': "dseg h1 a ?nx ys q' None" ..
  have ys2: "dseg h2 a ?nx ys q' None"
  proof -
    have "last xs \<notin> set ys" if "xs \<noteq> []" using that d by (auto dest: last_in_set)
    then have "dseg h2 a ?nx ys q' None = dseg h1 a ?nx ys q' None"
      by (intro dseg_frame) (auto simp: h2_def)
    with q' show ?thesis by simp
  qed
  have xs1: "dseg h1 None ?n xs a (Some c)"
  proof -
    have "hd ys \<notin> set xs" if "ys \<noteq> []" using that d by (cases ys) auto
    then have "dseg h1 None ?n xs a (Some c) = dseg ?h None ?n xs a (Some c)"
      by (intro dseg_frame) (auto simp: h1_def)
    with xs show ?thesis by simp
  qed
  have xs2: "dseg h2 None n' xs a ?nx"
    using dseg_set_next [OF xs1, of ?nx] d a by (auto simp: h2_def n'_def)
  let ?h3 = "h2(c := (h2 c)\<lparr>ch_Next := None, ch_Prev := None\<rparr>)"
  have "dseg h2 None n' (xs @ ys) q' None" using xs2 ys2 by (auto simp: dseg_append)
  moreover have "dseg ?h3 None n' (xs @ ys) q' None = dseg h2 None n' (xs @ ys) q' None"
    by (rule dseg_frame) (use d in auto)
  ultimately have fin: "dseg ?h3 None n' (xs @ ys) q' None" by simp
  have on: "ro_Online (st_room st r) - 1 = of_nat (length (xs @ ys))" using o by simp
  have z: "of_nat (length (xs @ ys)) = (0 :: i32) \<longleftrightarrow> xs @ ys = []"
    using of_nat_word_eq_0 [of "length (xs @ ys)", where 'a = 32] assms(2) by simp
  have on0: "(ro_Online (st_room st r) - 1 = 0) = (xs @ ys = [])" by (simp only: on z)
  then have on1: "(ro_Online (st_room st r) = 1) = (xs @ ys = [])" by simp
  let ?st = "st\<lparr>st_chan := ?h3, st_room := (st_room st)(r := (st_room st r)\<lparr>ro_next := n',
      ro_Online := of_nat (length (xs @ ys)), ro_drop := (xs @ ys = [])\<rparr>)\<rparr>"
  have mem: "ys \<noteq> [] \<Longrightarrow> hd ys \<in> set ys" "xs \<noteq> [] \<Longrightarrow> last xs \<in> set xs" by simp_all
  have cn: "ys \<noteq> [] \<Longrightarrow> hd ys \<noteq> c" "xs \<noteq> [] \<Longrightarrow> last xs \<noteq> c"
    using d by (cases ys, auto dest: last_in_set)
  have run: "Room_Del r c st = (xs @ ys = [], ?st)"
    using a nx pv on on1 z cn
    by (cases "xs = []"; cases "ys = []")
      (simp_all add: Room_Del_def Let_def h1_def h2_def n'_def upd_chan_def upd_room_def)
  have "room_list ?st r (xs @ ys)" using fin d by (auto simp: room_list_def)
  moreover have "\<forall>x. x \<notin> set (xs @ c # ys) \<longrightarrow> st_chan ?st x = st_chan st x"
  proof (intro allI impI)
    fix x assume x: "x \<notin> set (xs @ c # ys)"
    then have "x \<noteq> c" "ys \<noteq> [] \<longrightarrow> x \<noteq> hd ys" "xs \<noteq> [] \<longrightarrow> x \<noteq> last xs" using mem by auto
    then show "st_chan ?st x = st_chan st x" by (simp add: h2_def h1_def)
  qed
  moreover have "ch_Room (st_chan ?st x) = ch_Room (st_chan st x)" for x
  proof -
    have "ch_Room (h1 x) = ch_Room (?h x)" for x by (simp add: h1_def)
    moreover have "ch_Room (h2 x) = ch_Room (h1 x)" for x by (simp add: h2_def)
    ultimately show ?thesis by simp
  qed
  ultimately show ?thesis using run by (intro exI [of _ ?st]) simp
qed

section \<open>Walking a room\<close>

fun exec_fold :: "('a \<Rightarrow> 's \<Rightarrow> 's exec) \<Rightarrow> 'a list \<Rightarrow> 's \<Rightarrow> 's exec" where
  "exec_fold f [] s = Ret s"
| "exec_fold f (x # xs) s = exec_bind (f x s) (exec_fold f xs)"

definition keeps_links :: "(ref \<Rightarrow> store \<Rightarrow> store exec) \<Rightarrow> bool" where
  "keeps_links f \<longleftrightarrow> (\<forall>c st st'. f c st = Ret st' \<longrightarrow> st_room st' = st_room st \<and> st_fresh st' = st_fresh st
     \<and> (\<forall>x. ch_Next (st_chan st' x) = ch_Next (st_chan st x) \<and> ch_Prev (st_chan st' x) = ch_Prev (st_chan st x)
          \<and> ch_Room (st_chan st' x) = ch_Room (st_chan st x) \<and> ch_Key (st_chan st' x) = ch_Key (st_chan st x)
          \<and> ch_IP (st_chan st' x) = ch_IP (st_chan st x)))"

lemma walk_segment:
  assumes "keeps_links f" "dseg (st_chan st) p n cs q None"
  shows "exec_bind
      (exec_loop (\<lambda>(cur, st). cur \<noteq> None)
         (\<lambda>(cur, st). case cur of
            None \<Rightarrow> Ret (None, st)
          | Some c \<Rightarrow> exec_bind (f c st) (\<lambda>st'. Ret (ch_Next (st_chan st' c), st')))
         (n, st))
      (\<lambda>(_, st'). Ret st') = exec_fold f cs st"
  using assms(2)
proof (induction cs arbitrary: p n st)
  case Nil
  then show ?case by (subst exec_loop_unfold) simp
next
  case (Cons c cs)
  then have n: "n = Some c" and seg: "dseg (st_chan st) (Some c) (ch_Next (st_chan st c)) cs q None"
    by simp_all
  show ?case
  proof (cases "f c st")
    case (Ret st1)
    with assms(1) have l: "\<And>x. ch_Next (st_chan st1 x) = ch_Next (st_chan st x)
        \<and> ch_Prev (st_chan st1 x) = ch_Prev (st_chan st x)"
      unfolding keeps_links_def by blast
    then have "dseg (st_chan st1) (Some c) (ch_Next (st_chan st1 c)) cs q None"
      using seg dseg_frame [of cs "st_chan st1" "st_chan st"] by simp
    from Cons.IH [OF this] Ret n show ?thesis by (subst exec_loop_unfold) simp
  qed (use n in \<open>(subst exec_loop_unfold, simp)+\<close>)
qed

lemma Room_walk_list:
  assumes "keeps_links f" "room_list st r cs"
  shows "Room_walk f r st = exec_fold f cs st"
  using assms(2) walk_segment [OF assms(1)] by (auto simp: Room_walk_def room_list_def)

lemma keeps_send_high: "keeps_links (Channel_send_high p)"
  by (auto simp: keeps_links_def Channel_send_high_def split: option.splits)

lemma keeps_push_one: "keeps_links (push_one p)"
  unfolding keeps_links_def
proof (intro allI impI)
  fix c st st'
  assume "push_one p c st = Ret st'"
  then show "st_room st' = st_room st \<and> st_fresh st' = st_fresh st
     \<and> (\<forall>x. ch_Next (st_chan st' x) = ch_Next (st_chan st x) \<and> ch_Prev (st_chan st' x) = ch_Prev (st_chan st x)
          \<and> ch_Room (st_chan st' x) = ch_Room (st_chan st x) \<and> ch_Key (st_chan st' x) = ch_Key (st_chan st x)
          \<and> ch_IP (st_chan st' x) = ch_IP (st_chan st x))"
    by (auto simp: push_one_def Channel_Push_def Channel_Signal_def Channel_send_high_def Let_def
        split: option.splits prod.splits if_splits)
qed

text \<open>What one push does to the queue of a channel: the packet and the wake-up signal, nothing when
  the packet's class is full, no return when the signal finds no room.\<close>

definition deliver :: "proto \<Rightarrow> pqueue \<Rightarrow> pqueue option" where
  "deliver p q =
     (case pq_Push q p of
        (Some e, _) \<Rightarrow> Some q
      | (None, q') \<Rightarrow> map_option (\<lambda>h. q'\<lparr>pq_high := h\<rparr>) (chan_send (pq_high q') ProtoReady))"

lemma push_one_deliver:
  "push_one p c st =
     (case deliver p (ch_sig (st_chan st c)) of
        None \<Rightarrow> Spin
      | Some q \<Rightarrow> Ret (upd_chan c (ch_sig_update (\<lambda>_. q)) st))"
proof -
  obtain e q where q: "pq_Push (ch_sig (st_chan st c)) p = (e, q)"
    by (cases "pq_Push (ch_sig (st_chan st c)) p")
  show ?thesis
  proof (cases e)
    case None
    with q show ?thesis
      by (auto simp: push_one_def deliver_def Channel_Push_def Channel_Signal_def
          Channel_send_high_def Let_def upd_chan_def comp_def split: option.splits)
  next
    case (Some err)
    then have "q = ch_sig (st_chan st c)"
      using q by (auto simp: pq_Push_def split: option.splits if_splits)
    with q Some show ?thesis
      by (simp add: push_one_def deliver_def Channel_Push_def upd_chan_def)
  qed
qed

lemma fold_deliver:
  assumes "distinct cs"
  shows "exec_fold (push_one p) cs st =
    (if \<forall>c \<in> set cs. deliver p (ch_sig (st_chan st c)) \<noteq> None
     then Ret (st\<lparr>st_chan := (\<lambda>c. if c \<in> set cs
             then ch_sig_update (\<lambda>_. the (deliver p (ch_sig (st_chan st c)))) (st_chan st c)
             else st_chan st c)\<rparr>)
     else Spin)"
  using assms
proof (induction cs arbitrary: st)
  case (Cons c cs)
  show ?case
  proof (cases "deliver p (ch_sig (st_chan st c))")
    case (Some q)
    let ?st = "upd_chan c (ch_sig_update (\<lambda>_. q)) st"
    have same: "st_chan ?st x = st_chan st x" if "x \<in> set cs" for x
      using that Cons.prems by auto
    have "(\<lambda>x. if x \<in> set cs then ch_sig_update (\<lambda>_. the (deliver p (ch_sig (st_chan ?st x)))) (st_chan ?st x)
             else st_chan ?st x)
        = (\<lambda>x. if x \<in> set (c # cs) then ch_sig_update (\<lambda>_. the (deliver p (ch_sig (st_chan st x)))) (st_chan st x)
             else st_chan st x)"
      using Cons.prems Some same by (auto simp: fun_eq_iff)
    with Cons Some same show ?thesis
      by (simp add: push_one_deliver)
  qed (simp add: push_one_deliver)
qed simp

section \<open>Buckets and their rooms\<close>

text \<open>\<open>M\<close> gives the members of every room, in the order of its list.\<close>

definition bucket_inv :: "bucket \<Rightarrow> (ref \<Rightarrow> ref list) \<Rightarrow> bool" where
  "bucket_inv b M \<longleftrightarrow>
     (\<forall>r < st_fresh (bk_st b). room_list (bk_st b) r (M r))
   \<and> (\<forall>r. st_fresh (bk_st b) \<le> r \<longrightarrow> M r = [])
   \<and> (\<forall>r r' c. c \<in> set (M r) \<longrightarrow> c \<in> set (M r') \<longrightarrow> r = r')
   \<and> (\<forall>rid r. bk_rooms b rid = Some r \<longrightarrow> r < st_fresh (bk_st b)
        \<and> ro_ID (st_room (bk_st b) r) = rid \<and> \<not> ro_drop (st_room (bk_st b) r))
   \<and> (\<forall>r. M r \<noteq> [] \<longrightarrow> bk_rooms b (ro_ID (st_room (bk_st b) r)) = Some r)
   \<and> (\<forall>r. length (M r) < 2 ^ 31)"

lemma bucket_invD:
  assumes "bucket_inv b M"
  shows "r < st_fresh (bk_st b) \<Longrightarrow> room_list (bk_st b) r (M r)"
    and "st_fresh (bk_st b) \<le> r \<Longrightarrow> M r = []"
    and "c \<in> set (M r) \<Longrightarrow> c \<in> set (M r') \<Longrightarrow> r = r'"
    and "bk_rooms b rid = Some r \<Longrightarrow> r < st_fresh (bk_st b)"
    and "bk_rooms b rid = Some r \<Longrightarrow> ro_ID (st_room (bk_st b) r) = rid"
    and "bk_rooms b rid = Some r \<Longrightarrow> \<not> ro_drop (st_room (bk_st b) r)"
    and "M r \<noteq> [] \<Longrightarrow> bk_rooms b (ro_ID (st_room (bk_st b) r)) = Some r"
    and "length (M r) < 2 ^ 31"
    and "M r \<noteq> [] \<Longrightarrow> r < st_fresh (bk_st b)"
  using assms unfolding bucket_inv_def by (blast, blast, blast, blast, blast, blast, blast, blast, meson not_le)

lemma bucket_invI:
  assumes st: "bk_st b = st" and rm: "bk_rooms b = rm"
    and 1: "\<And>r. r < st_fresh st \<Longrightarrow> room_list st r (M r)"
    and 2: "\<And>r. st_fresh st \<le> r \<Longrightarrow> M r = []"
    and 3: "\<And>c r r'. c \<in> set (M r) \<Longrightarrow> c \<in> set (M r') \<Longrightarrow> r = r'"
    and 4: "\<And>rid r. rm rid = Some r \<Longrightarrow> r < st_fresh st
        \<and> ro_ID (st_room st r) = rid \<and> \<not> ro_drop (st_room st r)"
    and 5: "\<And>r. M r \<noteq> [] \<Longrightarrow> rm (ro_ID (st_room st r)) = Some r"
    and 6: "\<And>r. length (M r) < 2 ^ 31"
  shows "bucket_inv b M"
proof -
  have "\<forall>r < st_fresh st. room_list st r (M r)" "\<forall>r. st_fresh st \<le> r \<longrightarrow> M r = []"
    using 1 2 by blast+
  moreover have "\<forall>r r' c. c \<in> set (M r) \<longrightarrow> c \<in> set (M r') \<longrightarrow> r = r'" using 3 by blast
  moreover have "\<forall>rid r. rm rid = Some r \<longrightarrow> r < st_fresh st
      \<and> ro_ID (st_room st r) = rid \<and> \<not> ro_drop (st_room st r)" using 4 by blast
  moreover have "\<forall>r. M r \<noteq> [] \<longrightarrow> rm (ro_ID (st_room st r)) = Some r" using 5 by blast
  moreover have "\<forall>r. length (M r) < 2 ^ 31" using 6 by blast
  ultimately show ?thesis unfolding bucket_inv_def st rm by (intro conjI)
qed

text \<open>A change of the store that keeps the links and the rooms keeps the invariant.\<close>

lemma bucket_inv_links:
  assumes "bucket_inv b M" "st_room st' = st_room (bk_st b)" "st_fresh st' = st_fresh (bk_st b)"
    and "\<And>x. ch_Next (st_chan st' x) = ch_Next (st_chan (bk_st b) x)
      \<and> ch_Prev (st_chan st' x) = ch_Prev (st_chan (bk_st b) x)"
  shows "bucket_inv (b\<lparr>bk_st := st'\<rparr>) M"
proof -
  have "room_list st' r (M r)" if "r < st_fresh (bk_st b)" for r
    by (rule room_list_frame [OF bucket_invD(1) [OF assms(1) that]]) (simp_all add: assms(2,4))
  with assms(1,2,3) show ?thesis by (simp add: bucket_inv_def)
qed

lemma get_room_inv:
  assumes "bucket_inv b M"
  shows "\<exists>r b'. get_room rid b = (r, b') \<and> bucket_inv b' M \<and> bk_rooms b' rid = Some r
    \<and> (\<forall>x. x \<noteq> rid \<longrightarrow> bk_rooms b' x = bk_rooms b x) \<and> bk_chs b' = bk_chs b \<and> bk_ipCnts b' = bk_ipCnts b
    \<and> st_chan (bk_st b') = st_chan (bk_st b) \<and> st_fresh (bk_st b) \<le> st_fresh (bk_st b')
    \<and> (\<forall>x < st_fresh (bk_st b). st_room (bk_st b') x = st_room (bk_st b) x)
    \<and> (bk_rooms b rid = None \<longrightarrow> M r = [])"
proof (cases "bk_rooms b rid")
  case (Some r)
  with assms show ?thesis by (auto simp: get_room_def)
next
  case None
  let ?r = "st_fresh (bk_st b)"
  let ?b = "b\<lparr>bk_rooms := (bk_rooms b)(rid \<mapsto> ?r),
              bk_st := (upd_room ?r (\<lambda>_. NewRoom rid) (bk_st b))\<lparr>st_fresh := Suc ?r\<rparr>\<rparr>"
  note D = bucket_invD [OF assms]
  have "room_list (bk_st ?b) r (M r)" if "r < Suc ?r" for r
  proof (cases "r = ?r")
    case True
    with D(2) [of r] show ?thesis by (simp add: room_list_def NewRoom_def)
  next
    case False
    with that have "r < ?r" by simp
    from D(1) [OF this] show ?thesis by (rule room_list_frame) (use False in auto)
  qed
  moreover have "(if x = rid then Some ?r else bk_rooms b x) = Some r \<Longrightarrow>
      r < Suc ?r \<and> ro_ID (st_room (bk_st ?b) r) = x \<and> \<not> ro_drop (st_room (bk_st ?b) r)" for x r
    using D(4,5,6) by (cases "x = rid") (auto simp: NewRoom_def less_Suc_eq)
  moreover have "bk_rooms ?b (ro_ID (st_room (bk_st ?b) r)) = Some r" if "M r \<noteq> []" for r
    using D(7) [OF that] D(9) [OF that] None by auto
  ultimately have "bucket_inv ?b M"
    unfolding bucket_inv_def using D(2,3,8) by auto
  moreover have "get_room rid b = (?r, ?b)" by (simp add: get_room_def None Let_def)
  ultimately show ?thesis using D(2) [of ?r] by auto
qed

text \<open>Taking a channel out of its room.\<close>

lemma DelRoom_empty:
  assumes "room_list (bk_st b) r []"
  shows "Bucket_DelRoom r b = Ret (b\<lparr>bk_rooms := (bk_rooms b)(ro_ID (st_room (bk_st b) r) := None)\<rparr>)"
  using Room_walk_list [OF keeps_send_high assms, of ProtoFinish]
  by (simp add: Bucket_DelRoom_def Room_Close_def Channel_Close_def Let_def)

lemma leave_room_inv:
  assumes "bucket_inv b M" "c \<in> set (M r)"
  shows "\<exists>b'. leave_room (Some r) c b = Ret b' \<and> bucket_inv b' (M(r := remove1 c (M r)))
    \<and> bk_rooms b' = (if M r = [c] then (bk_rooms b)(ro_ID (st_room (bk_st b) r) := None) else bk_rooms b)
    \<and> ro_drop (st_room (bk_st b') r) = (M r = [c])
    \<and> bk_chs b' = bk_chs b \<and> bk_ipCnts b' = bk_ipCnts b
    \<and> (\<forall>x. ch_Room (st_chan (bk_st b') x) = ch_Room (st_chan (bk_st b) x))"
proof -
  note D = bucket_invD [OF assms(1)]
  have ne: "M r \<noteq> []" using assms(2) by auto
  note rl = D(9) [OF ne] and reg = D(7) [OF ne]
  have l: "room_list (bk_st b) r (M r)" by (rule D(1) [OF rl])
  obtain xs ys where M: "M r = xs @ c # ys" using split_list [OF assms(2)] by blast
  have d: "c \<notin> set xs" using l M by (simp add: room_list_def)
  have rem: "remove1 c (M r) = xs @ ys" using M d by (simp add: remove1_append)
  have len: "length (xs @ ys) < 2 ^ 31" using D(8) [of r] M by simp
  obtain st' where st': "Room_Del r c (bk_st b) = (xs @ ys = [], st')" "room_list st' r (xs @ ys)"
    "ro_drop (st_room st' r) = (xs @ ys = [])" "ro_ID (st_room st' r) = ro_ID (st_room (bk_st b) r)"
    "st_fresh st' = st_fresh (bk_st b)" "\<And>r'. r' \<noteq> r \<Longrightarrow> st_room st' r' = st_room (bk_st b) r'"
    "\<And>x. x \<notin> set (xs @ c # ys) \<Longrightarrow> st_chan st' x = st_chan (bk_st b) x"
    "\<And>x. ch_Room (st_chan st' x) = ch_Room (st_chan (bk_st b) x)"
    using Room_Del_list [OF l [unfolded M] len] by blast
  let ?M = "M(r := remove1 c (M r))"
  let ?b1 = "b\<lparr>bk_st := st'\<rparr>"
  let ?rooms = "if M r = [c] then (bk_rooms b)(ro_ID (st_room (bk_st b) r) := None) else bk_rooms b"
  let ?b' = "?b1\<lparr>bk_rooms := ?rooms\<rparr>"
  have single: "xs @ ys = [] \<longleftrightarrow> M r = [c]" using M by (cases xs) auto
  have run: "leave_room (Some r) c b = Ret ?b'"
    using st'(1,2,4) DelRoom_empty [of ?b1 r] single by (auto simp: leave_room_def Let_def)
  have i1: "room_list st' x (?M x)" if x: "x < st_fresh st'" for x
  proof (cases "x = r")
    case False
    have "y \<notin> set (xs @ c # ys)" if "y \<in> set (M x)" for y
      using that False D(3) [of y x r] unfolding M by blast
    then have "room_list st' x (M x)"
      by (intro room_list_frame [OF D(1) [OF x [unfolded st'(5)]]]) (simp_all only: False st'(6,7) not_False_eq_True)
    with False show ?thesis by simp
  qed (use st'(2) rem in simp)
  have i4: "x < st_fresh st' \<and> ro_ID (st_room st' x) = rid \<and> \<not> ro_drop (st_room st' x)"
    if "?rooms rid = Some x" for rid x
  proof -
    have old: "bk_rooms b rid = Some x" using that by (auto split: if_splits)
    have "\<not> (x = r \<and> M r = [c])" using that D(5) [OF old] by auto
    then show ?thesis
      using D(4,5,6) [OF old] st'(3,4,5,6) single by (cases "x = r") auto
  qed
  have i5: "?rooms (ro_ID (st_room st' x)) = Some x" if "?M x \<noteq> []" for x
  proof (cases "x = r")
    case True
    with that rem single reg st'(4) show ?thesis by auto
  next
    case False
    then have "M x \<noteq> []" using that by simp
    with D(7) [OF this] False st'(6) reg show ?thesis by auto
  qed
  have i3: "c' \<in> set (?M x) \<Longrightarrow> c' \<in> set (?M y) \<Longrightarrow> x = y" for c' x y
    using D(3) [of c' x y] set_remove1_subset [of c "M r"] by (auto split: if_splits)
  have i2: "?M x = []" if "st_fresh st' \<le> x" for x
    using that D(2) [of x] rl st'(5) by auto
  have i6: "length (?M x) < 2 ^ 31" for x using D(8) [of x] len rem by simp
  have "bucket_inv ?b' ?M"
    by (rule bucket_invI [of _ st' ?rooms]) (simp, simp, fact i1, fact i2, fact i3, fact i4, fact i5, fact i6)
  with run single st' show ?thesis by (intro exI [of _ ?b']) auto
qed

lemma Room_Put_inv:
  assumes "bucket_inv b M" "bk_rooms b rid = Some r" "\<And>r. c \<notin> set (M r)" "length (M r) < 2 ^ 31 - 1"
  shows "\<exists>st'. Room_Put r c (bk_st b) = (None, st') \<and> bucket_inv (b\<lparr>bk_st := st'\<rparr>) (M(r := c # M r))
    \<and> (\<forall>x. ch_Room (st_chan st' x) = ch_Room (st_chan (bk_st b) x))
    \<and> st_fresh st' = st_fresh (bk_st b)"
proof -
  note D = bucket_invD [OF assms(1)]
  obtain st' where st': "Room_Put r c (bk_st b) = (None, st')" "room_list st' r (c # M r)"
    "ro_drop (st_room st' r) = False" "ro_ID (st_room st' r) = ro_ID (st_room (bk_st b) r)"
    "st_fresh st' = st_fresh (bk_st b)" "\<And>r'. r' \<noteq> r \<Longrightarrow> st_room st' r' = st_room (bk_st b) r'"
    "\<And>x. x \<notin> insert c (set (M r)) \<Longrightarrow> st_chan st' x = st_chan (bk_st b) x"
    "\<And>x. ch_Room (st_chan st' x) = ch_Room (st_chan (bk_st b) x)"
    using Room_Put_list [OF D(1) [OF D(4) [OF assms(2)]] assms(3) D(6) [OF assms(2)]] by blast
  let ?M = "M(r := c # M r)"
  have i1: "room_list st' x (?M x)" if x: "x < st_fresh st'" for x
  proof (cases "x = r")
    case False
    have "y \<notin> insert c (set (M r))" if "y \<in> set (M x)" for y
      using that False D(3) [of y x r] assms(3) [of x] by auto
    then have "room_list st' x (M x)"
      by (intro room_list_frame [OF D(1) [OF x [unfolded st'(5)]]]) (simp_all add: False st'(6,7))
    with False show ?thesis by simp
  qed (use st'(2) in simp)
  have i4: "x < st_fresh st' \<and> ro_ID (st_room st' x) = rid' \<and> \<not> ro_drop (st_room st' x)"
    if "bk_rooms b rid' = Some x" for rid' x
    using D(4,5,6) [OF that] st'(3,4,5,6) by (cases "x = r") auto
  have i5: "bk_rooms b (ro_ID (st_room st' x)) = Some x" if "?M x \<noteq> []" for x
    using that D(5) [OF assms(2)] assms(2) D(7) [of x] st'(4,6) by (cases "x = r") auto
  have i3: "c' \<in> set (?M x) \<Longrightarrow> c' \<in> set (?M y) \<Longrightarrow> x = y" for c' x y
    using D(3) [of c' x y] assms(3) by (auto split: if_splits)
  have i2: "?M x = []" if "st_fresh st' \<le> x" for x
    using that D(2) [of x] D(4) [OF assms(2)] st'(5) by auto
  have i6: "length (?M x) < 2 ^ 31" for x using D(8) [of x] assms(4) by simp
  have "bucket_inv (b\<lparr>bk_st := st'\<rparr>) ?M"
    by (rule bucket_invI [of _ st' "bk_rooms b"])
      (simp, simp, fact i1, fact i2, fact i3, fact i4, fact i5, fact i6)
  with st' show ?thesis by blast
qed

section \<open>Properties\<close>

text \<open>A channel's room pointer and the room lists agree.\<close>

definition placed :: "bucket \<Rightarrow> (ref \<Rightarrow> ref list) \<Rightarrow> ref \<Rightarrow> bool" where
  "placed b M c \<longleftrightarrow> (\<forall>r. c \<in> set (M r) \<longleftrightarrow> ch_Room (st_chan (bk_st b) c) = Some r)"

lemma set_ch_room_inv:
  assumes "bucket_inv b M"
  shows "bucket_inv (b\<lparr>bk_st := upd_chan c (ch_Room_update (\<lambda>_. x)) (bk_st b)\<rparr>) M"
  by (rule bucket_inv_links [OF assms]) simp_all

lemma leave_placed:
  assumes "bucket_inv b M" "placed b M c"
  shows "\<exists>b' M'. leave_room (ch_Room (st_chan (bk_st b) c)) c b = Ret b' \<and> bucket_inv b' M'
    \<and> (\<forall>r. c \<notin> set (M' r)) \<and> (\<forall>r x. x \<noteq> c \<longrightarrow> x \<in> set (M' r) \<longleftrightarrow> x \<in> set (M r))
    \<and> (\<forall>r. length (M' r) \<le> length (M r))
    \<and> (\<forall>rid r. bk_rooms b rid = Some r \<longrightarrow> M r \<noteq> [c] \<longrightarrow> bk_rooms b' rid = Some r)
    \<and> bk_chs b' = bk_chs b \<and> bk_ipCnts b' = bk_ipCnts b
    \<and> (\<forall>x. ch_Room (st_chan (bk_st b') x) = ch_Room (st_chan (bk_st b) x))"
proof (cases "ch_Room (st_chan (bk_st b) c)")
  case None
  with assms show ?thesis
    by (intro exI [of _ b] exI [of _ M]) (simp add: leave_room_def placed_def)
next
  case (Some r)
  then have c: "c \<in> set (M r)" using assms(2) by (simp add: placed_def)
  note D = bucket_invD [OF assms(1)]
  obtain b' where b': "leave_room (Some r) c b = Ret b'" "bucket_inv b' (M(r := remove1 c (M r)))"
    "bk_rooms b' = (if M r = [c] then (bk_rooms b)(ro_ID (st_room (bk_st b) r) := None) else bk_rooms b)"
    "bk_chs b' = bk_chs b" "bk_ipCnts b' = bk_ipCnts b"
    "\<And>x. ch_Room (st_chan (bk_st b') x) = ch_Room (st_chan (bk_st b) x)"
    using leave_room_inv [OF assms(1) c] by blast
  have ne: "M r \<noteq> []" using c by auto
  have fresh: "r < st_fresh (bk_st b)" by (rule D(9) [OF ne])
  have dist: "distinct (M r)" using D(1) [OF fresh] by (simp add: room_list_def)
  let ?M = "M(r := remove1 c (M r))"
  have gone: "c \<notin> set (?M r')" for r'
  proof (cases "r' = r")
    case False
    with D(3) [OF c, of r'] show ?thesis by auto
  qed (use dist in simp)
  have other: "x \<in> set (?M r') \<longleftrightarrow> x \<in> set (M r')" if "x \<noteq> c" for x r'
    using dist that by simp
  have keep: "bk_rooms b' rid = Some x" if a: "bk_rooms b rid = Some x" "M x \<noteq> [c]" for rid x
  proof (cases "M r = [c]")
    case True
    then have "x \<noteq> r" using a(2) by auto
    moreover have "bk_rooms b (ro_ID (st_room (bk_st b) r)) = Some r" by (rule D(7) [OF ne])
    ultimately show ?thesis using b'(3) a(1) True by auto
  qed (use b'(3) a(1) in simp)
  have len: "length (?M x) \<le> length (M x)" for x
    by (simp add: length_remove1)
  show ?thesis
    unfolding Some
    by (intro exI [of _ b'] exI [of _ ?M] conjI allI impI)
      (rule b'(1), rule b'(2), rule gone, erule other, rule len, erule keep, assumption,
       rule b'(4), rule b'(5), rule b'(6))
qed

lemma get_room_ok:
  assumes "bucket_inv b M"
  obtains r b1 where "get_room nrid b = (r, b1)" "bucket_inv b1 M" "bk_rooms b1 nrid = Some r"
    "st_chan (bk_st b1) = st_chan (bk_st b)" "bk_rooms b nrid = None \<longrightarrow> M r = []"
    "bk_rooms b nrid \<noteq> None \<longrightarrow> b1 = b"
proof -
  obtain r b1 where g: "get_room nrid b = (r, b1)" "bucket_inv b1 M" "bk_rooms b1 nrid = Some r"
    "st_chan (bk_st b1) = st_chan (bk_st b)" "bk_rooms b nrid = None \<longrightarrow> M r = []"
    using get_room_inv [OF assms, of nrid] by (elim exE conjE) (rule that)
  have same: "bk_rooms b nrid \<noteq> None \<longrightarrow> b1 = b"
    using g(1) by (auto simp: get_room_def)
  show thesis by (rule that [OF g same])
qed

text \<open>A small bucket for the examples: channels 0 and 1 are in the room \<open>r1\<close>, channel 2 is alone in
  \<open>r2\<close>, and channel 3 has not joined.\<close>

definition demo_chan :: "string \<Rightarrow> ref option \<Rightarrow> ref option \<Rightarrow> ref option \<Rightarrow> chan" where
  "demo_chan key rm nx pv =
     \<lparr>ch_Room = rm, ch_Next = nx, ch_Prev = pv, ch_sig = pq_Reset 2 16, ch_Mid = 0, ch_Key = key,
      ch_IP = ''10.0.0.1'', ch_watchOps = {}\<rparr>"

definition demo_bucket :: bucket where
  "demo_bucket =
     \<lparr>bk_chs = [''k0'' \<mapsto> 0, ''k1'' \<mapsto> 1, ''k2'' \<mapsto> 2], bk_rooms = [''r1'' \<mapsto> 0, ''r2'' \<mapsto> 1],
      bk_ipCnts = [''10.0.0.1'' \<mapsto> 3],
      bk_st = \<lparr>st_chan = (\<lambda>_. demo_chan ''k3'' None None None)
                 (0 := demo_chan ''k0'' (Some 0) None (Some 1), 1 := demo_chan ''k1'' (Some 0) (Some 0) None,
                  2 := demo_chan ''k2'' (Some 1) None None),
               st_room = (\<lambda>_. NewRoom [])
                 (0 := \<lparr>ro_ID = ''r1'', ro_next = Some 1, ro_drop = False, ro_Online = 2, ro_AllOnline = 0\<rparr>,
                  1 := \<lparr>ro_ID = ''r2'', ro_next = Some 2, ro_drop = False, ro_Online = 1, ro_AllOnline = 0\<rparr>),
               st_fresh = 2\<rparr>\<rparr>"

definition demo_members :: "ref \<Rightarrow> ref list" where
  "demo_members = (\<lambda>_. [])(0 := [1, 0], 1 := [2])"

lemma demo_members_less: "length (demo_members r) < 2 ^ 31 - 1"
  by (simp add: demo_members_def)

lemma demo_bucket_inv: "bucket_inv demo_bucket demo_members"
proof (rule bucket_invI [OF refl refl])
  show "room_list (bk_st demo_bucket) r (demo_members r)" if "r < st_fresh (bk_st demo_bucket)" for r
  proof -
    from that have "r = 0 \<or> r = 1" by (auto simp: demo_bucket_def)
    then show ?thesis by (auto simp: room_list_def demo_bucket_def demo_members_def demo_chan_def)
  qed
  show "demo_members r = []" if "st_fresh (bk_st demo_bucket) \<le> r" for r
    using that by (simp add: demo_bucket_def demo_members_def)
  show "r = r'" if "c \<in> set (demo_members r)" "c \<in> set (demo_members r')" for c r r'
    using that by (auto simp: demo_members_def split: if_splits)
  show "r < st_fresh (bk_st demo_bucket) \<and> ro_ID (st_room (bk_st demo_bucket) r) = rid
      \<and> \<not> ro_drop (st_room (bk_st demo_bucket) r)" if "bk_rooms demo_bucket rid = Some r" for rid r
    using that by (auto simp: demo_bucket_def split: if_splits)
  show "bk_rooms demo_bucket (ro_ID (st_room (bk_st demo_bucket) r)) = Some r" if "demo_members r \<noteq> []" for r
    using that by (auto simp: demo_bucket_def demo_members_def split: if_splits)
  show "length (demo_members r) < 2 ^ 31" for r
    using demo_members_less [of r] by simp
qed

lemma demo_placed: "c \<le> 3 \<Longrightarrow> placed demo_bucket demo_members c"
  by (auto simp: placed_def demo_bucket_def demo_members_def demo_chan_def)

text \<open>Changing rooms moves a channel and nothing else: afterwards it is in the list of the
  room it asked for, in no other room, and every other channel is where it was, unless it is
  the only member of that same room.\<close>

theorem ChangeRoom_moves:
  assumes "bucket_inv b M" "placed b M c" "nrid \<noteq> []"
    and "\<forall>r. bk_rooms b nrid = Some r \<longrightarrow> M r \<noteq> [c]" "\<forall>r. length (M r) < 2 ^ 31 - 1"
  shows "\<exists>b' M' r. Bucket_ChangeRoom nrid c b = Ret (None, b') \<and> bucket_inv b' M'
    \<and> bk_rooms b' nrid = Some r \<and> c \<in> set (M' r) \<and> placed b' M' c
    \<and> (\<forall>r x. x \<noteq> c \<longrightarrow> x \<in> set (M' r) \<longleftrightarrow> x \<in> set (M r))"
proof -
  obtain r b1 where g: "get_room nrid b = (r, b1)" "bucket_inv b1 M" "bk_rooms b1 nrid = Some r"
    "st_chan (bk_st b1) = st_chan (bk_st b)" "bk_rooms b nrid = None \<longrightarrow> M r = []"
    "bk_rooms b nrid \<noteq> None \<longrightarrow> b1 = b"
    by (rule get_room_ok [OF assms(1), of nrid])
  have notsole: "M r \<noteq> [c]"
  proof (cases "bk_rooms b nrid")
    case (Some r')
    with g(3,6) have "r' = r" by simp
    with Some assms(4) show ?thesis by simp
  qed (use g(5) in simp)
  have p1: "placed b1 M c" using assms(2) g(4) by (simp add: placed_def)
  obtain b2 M2 where l: "leave_room (ch_Room (st_chan (bk_st b1) c)) c b1 = Ret b2" "bucket_inv b2 M2"
    "\<And>r. c \<notin> set (M2 r)" "\<And>r x. x \<noteq> c \<Longrightarrow> x \<in> set (M2 r) \<longleftrightarrow> x \<in> set (M r)"
    "\<And>r. length (M2 r) \<le> length (M r)" "bk_rooms b2 nrid = Some r"
    using leave_placed [OF g(2) p1] g(3) notsole by blast
  have len: "length (M2 r) < 2 ^ 31 - 1" using l(5) assms(5) le_less_trans by blast
  obtain st' where s: "Room_Put r c (bk_st b2) = (None, st')"
    "bucket_inv (b2\<lparr>bk_st := st'\<rparr>) (M2(r := c # M2 r))"
    using Room_Put_inv [OF l(2,6,3) len] by blast
  let ?M = "M2(r := c # M2 r)"
  let ?b3 = "b2\<lparr>bk_st := st'\<rparr>"
  let ?b4 = "?b3\<lparr>bk_st := upd_chan c (ch_Room_update (\<lambda>_. Some r)) (bk_st ?b3)\<rparr>"
  have run: "Bucket_ChangeRoom nrid c b = Ret (None, ?b4)"
    using assms(3) g(1,4) l(1) s(1) by (simp add: Bucket_ChangeRoom_def Let_def)
  have inv: "bucket_inv ?b4 ?M" by (rule set_ch_room_inv [OF s(2)])
  have pl: "placed ?b4 ?M c" using l(3) by (auto simp: placed_def)
  have oth: "\<forall>r' x. x \<noteq> c \<longrightarrow> x \<in> set (?M r') \<longleftrightarrow> x \<in> set (M r')" using l(4) by auto
  show ?thesis
    by (intro exI [of _ ?b4] exI [of _ ?M] exI [of _ r] conjI)
      (fact run, fact inv, simp add: l(6), simp, fact pl, fact oth)
qed

theorem ChangeRoom_moves_witness:
  "\<exists>b' M' r. Bucket_ChangeRoom ''r2'' 1 demo_bucket = Ret (None, b') \<and> bucket_inv b' M'
    \<and> bk_rooms b' ''r2'' = Some r \<and> 1 \<in> set (M' r) \<and> placed b' M' 1
    \<and> (\<forall>r x. x \<noteq> 1 \<longrightarrow> x \<in> set (M' r) \<longleftrightarrow> x \<in> set (demo_members r))"
proof (rule ChangeRoom_moves [OF demo_bucket_inv demo_placed])
  show "\<forall>r. bk_rooms demo_bucket ''r2'' = Some r \<longrightarrow> demo_members r \<noteq> [1]"
    by (simp add: demo_bucket_def demo_members_def)
qed (use demo_members_less in simp_all)

text \<open>Property C6. The exception is a defect: the only member of a room that asks for the room it is in
  gets an error, is in no room's list afterwards, and its room pointer still leads to the room
  object that has been dropped.\<close>

theorem ChangeRoom_sole_member_lost:
  assumes "bucket_inv b M" "placed b M c" "nrid \<noteq> []" "bk_rooms b nrid = Some r" "M r = [c]"
  shows "\<exists>b' M'. Bucket_ChangeRoom nrid c b = Ret (Some ErrRoomDroped, b') \<and> bucket_inv b' M'
    \<and> bk_rooms b' nrid = None \<and> (\<forall>r. c \<notin> set (M' r))
    \<and> ch_Room (st_chan (bk_st b') c) = Some r \<and> ro_drop (st_room (bk_st b') r)"
proof -
  have c: "c \<in> set (M r)" using assms(5) by simp
  then have r: "ch_Room (st_chan (bk_st b) c) = Some r" using assms(2) unfolding placed_def by blast
  have nrid: "ro_ID (st_room (bk_st b) r) = nrid" by (rule bucket_invD(5) [OF assms(1,4)])
  obtain b2 where l: "leave_room (Some r) c b = Ret b2" "bucket_inv b2 (M(r := remove1 c (M r)))"
    "bk_rooms b2 = (bk_rooms b)(nrid := None)" "ro_drop (st_room (bk_st b2) r)"
    "\<And>x. ch_Room (st_chan (bk_st b2) x) = ch_Room (st_chan (bk_st b) x)"
    using leave_room_inv [OF assms(1) c] assms(5) nrid by auto
  have run: "Bucket_ChangeRoom nrid c b = Ret (Some ErrRoomDroped, b2)"
    using assms(3,4) r l(1,4) by (simp add: Bucket_ChangeRoom_def get_room_def Room_Put_dropped Let_def)
  have gone: "c \<notin> set ((M(r := remove1 c (M r))) r')" for r'
    using bucket_invD(3) [OF assms(1) c, of r'] assms(5) by auto
  show ?thesis
    by (intro exI [of _ b2] exI [of _ "M(r := remove1 c (M r))"])
      (use run l(2,3,4,5) gone r in simp)
qed

theorem ChangeRoom_sole_member_lost_witness:
  "\<exists>b' M'. Bucket_ChangeRoom ''r2'' 2 demo_bucket = Ret (Some ErrRoomDroped, b') \<and> bucket_inv b' M'
    \<and> bk_rooms b' ''r2'' = None \<and> (\<forall>r. 2 \<notin> set (M' r))
    \<and> ch_Room (st_chan (bk_st b') 2) = Some 1 \<and> ro_drop (st_room (bk_st b') 1)"
  by (rule ChangeRoom_sole_member_lost [OF demo_bucket_inv demo_placed])
    (simp_all add: demo_bucket_def demo_members_def)

text \<open>A channel with a new key joins: it is found under its key and is in the list of its
  room, and every other channel is where it was.\<close>

theorem Put_joins:
  assumes "bucket_inv b M" "\<forall>r. c \<notin> set (M r)" "rid \<noteq> []" "\<forall>r. length (M r) < 2 ^ 31 - 1"
    and "bk_chs b (ch_Key (st_chan (bk_st b) c)) = None"
  shows "\<exists>b' M' r. Bucket_Put rid c b = Ret (None, b') \<and> bucket_inv b' M'
    \<and> Bucket_Channel b' (ch_Key (st_chan (bk_st b) c)) = Some c \<and> Bucket_Room b' rid = Some r
    \<and> c \<in> set (M' r) \<and> placed b' M' c
    \<and> (\<forall>r x. x \<noteq> c \<longrightarrow> x \<in> set (M' r) \<longleftrightarrow> x \<in> set (M r))"
proof -
  let ?key = "ch_Key (st_chan (bk_st b) c)" and ?ip = "ch_IP (st_chan (bk_st b) c)"
  let ?b1 = "b\<lparr>bk_st := bk_st b, bk_chs := (bk_chs b)(?key \<mapsto> c)\<rparr>"
  have inv1: "bucket_inv ?b1 M" using assms(1) by (simp add: bucket_inv_def)
  obtain r b2 where g: "get_room rid ?b1 = (r, b2)" "bucket_inv b2 M" "bk_rooms b2 rid = Some r"
    "bk_chs b2 = bk_chs ?b1"
    using get_room_inv [OF inv1, of rid] by auto
  let ?b3 = "b2\<lparr>bk_st := upd_chan c (ch_Room_update (\<lambda>_. Some r)) (bk_st b2), bk_ipCnts := ip_inc ?ip (bk_ipCnts b2)\<rparr>"
  have "bucket_inv (b2\<lparr>bk_st := upd_chan c (ch_Room_update (\<lambda>_. Some r)) (bk_st b2)\<rparr>) M"
    by (rule set_ch_room_inv [OF g(2)])
  then have inv3: "bucket_inv ?b3 M" by (simp add: bucket_inv_def)
  have reg: "bk_rooms ?b3 rid = Some r" using g(3) by simp
  have len: "length (M r) < 2 ^ 31 - 1" using assms(4) by blast
  obtain st' where s: "Room_Put r c (bk_st ?b3) = (None, st')" "bucket_inv (?b3\<lparr>bk_st := st'\<rparr>) (M(r := c # M r))"
    "\<And>x. ch_Room (st_chan st' x) = ch_Room (st_chan (bk_st ?b3) x)"
    using Room_Put_inv [OF inv3 reg _ len, of c] assms(2) by blast
  let ?b4 = "?b3\<lparr>bk_st := st'\<rparr>" and ?M = "M(r := c # M r)"
  have run: "Bucket_Put rid c b = Ret (None, ?b4)"
    using assms(3,5) g(1) s(1) by (simp add: Bucket_Put_def Let_def)
  have "placed ?b4 ?M c" using s(3) [of c] assms(2) by (auto simp: placed_def)
  with run s(2) g(3,4) show ?thesis
    by (intro exI [of _ ?b4] exI [of _ ?M] exI [of _ r])
      (auto simp: Bucket_Channel_def Bucket_Room_def)
qed

theorem Put_joins_witness:
  "\<exists>b' M' r. Bucket_Put ''r1'' 3 demo_bucket = Ret (None, b') \<and> bucket_inv b' M'
    \<and> Bucket_Channel b' (ch_Key (st_chan (bk_st demo_bucket) 3)) = Some 3 \<and> Bucket_Room b' ''r1'' = Some r
    \<and> 3 \<in> set (M' r) \<and> placed b' M' 3
    \<and> (\<forall>r x. x \<noteq> 3 \<longrightarrow> x \<in> set (M' r) \<longleftrightarrow> x \<in> set (demo_members r))"
proof (rule Put_joins [OF demo_bucket_inv])
  show "\<forall>r. 3 \<notin> set (demo_members r)" by (simp add: demo_members_def)
  show "bk_chs demo_bucket (ch_Key (st_chan (bk_st demo_bucket) 3)) = None"
    by (simp add: demo_bucket_def demo_chan_def)
qed (use demo_members_less in simp_all)

text \<open>A departing channel leaves the table and its room, and every other channel stays
  where it was.\<close>

theorem Del_leaves:
  assumes "bucket_inv b M" "placed b M c" "bk_chs b (ch_Key (st_chan (bk_st b) c)) = Some c"
  shows "\<exists>b' M'. Bucket_Del c b = Ret b' \<and> bucket_inv b' M'
    \<and> Bucket_Channel b' (ch_Key (st_chan (bk_st b) c)) = None \<and> (\<forall>r. c \<notin> set (M' r))
    \<and> (\<forall>r x. x \<noteq> c \<longrightarrow> x \<in> set (M' r) \<longleftrightarrow> x \<in> set (M r))"
proof -
  let ?b1 = "b\<lparr>bk_chs := (bk_chs b)(ch_Key (st_chan (bk_st b) c) := None),
      bk_ipCnts := ip_dec (ch_IP (st_chan (bk_st b) c)) (bk_ipCnts b)\<rparr>"
  have inv1: "bucket_inv ?b1 M" using assms(1) by (simp add: bucket_inv_def)
  have p1: "placed ?b1 M c" using assms(2) by (simp add: placed_def)
  obtain b' M' where l: "leave_room (ch_Room (st_chan (bk_st ?b1) c)) c ?b1 = Ret b'" "bucket_inv b' M'"
    "\<And>r. c \<notin> set (M' r)" "\<And>r x. x \<noteq> c \<Longrightarrow> x \<in> set (M' r) \<longleftrightarrow> x \<in> set (M r)" "bk_chs b' = bk_chs ?b1"
    using leave_placed [OF inv1 p1] by blast
  have "Bucket_Del c b = Ret b'" using assms(3) l(1) by (simp add: Bucket_Del_def Let_def)
  with l show ?thesis by (intro exI [of _ b'] exI [of _ M']) (auto simp: Bucket_Channel_def)
qed

theorem Del_leaves_witness:
  "\<exists>b' M'. Bucket_Del 1 demo_bucket = Ret b' \<and> bucket_inv b' M'
    \<and> Bucket_Channel b' (ch_Key (st_chan (bk_st demo_bucket) 1)) = None \<and> (\<forall>r. 1 \<notin> set (M' r))
    \<and> (\<forall>r x. x \<noteq> 1 \<longrightarrow> x \<in> set (M' r) \<longleftrightarrow> x \<in> set (demo_members r))"
  by (rule Del_leaves [OF demo_bucket_inv demo_placed]) (simp_all add: demo_bucket_def demo_chan_def)

text \<open>A push to a room reaches exactly the members of its list: each gets the packet and
  the wake-up signal (nothing when the packet's queue is full), no other channel changes; the
  call does not return when a member's control queue has no place for the signal.\<close>

theorem Room_Push_members:
  assumes "room_list st r cs"
  shows "Room_Push p r st =
    (if \<forall>c \<in> set cs. deliver p (ch_sig (st_chan st c)) \<noteq> None
     then Ret (st\<lparr>st_chan := (\<lambda>c. if c \<in> set cs
             then ch_sig_update (\<lambda>_. the (deliver p (ch_sig (st_chan st c)))) (st_chan st c)
             else st_chan st c)\<rparr>)
     else Spin)"
  using Room_walk_list [OF keeps_push_one assms, of p] fold_deliver [of cs p st] assms
  by (simp add: Room_Push_def room_list_def)

theorem Room_Push_members_witness:
  "Room_Push ProtoReady 0 (bk_st demo_bucket) =
    (if \<forall>c \<in> set [1, 0]. deliver ProtoReady (ch_sig (st_chan (bk_st demo_bucket) c)) \<noteq> None
     then Ret ((bk_st demo_bucket)\<lparr>st_chan := (\<lambda>c. if c \<in> set [1, 0]
             then ch_sig_update (\<lambda>_. the (deliver ProtoReady (ch_sig (st_chan (bk_st demo_bucket) c))))
                    (st_chan (bk_st demo_bucket) c)
             else st_chan (bk_st demo_bucket) c)\<rparr>)
     else Spin)
   \<and> deliver ProtoReady (ch_sig (st_chan (bk_st demo_bucket) 0)) \<noteq> None"
proof -
  have rl: "room_list (bk_st demo_bucket) 0 [1, 0]"
    using bucket_invD(1) [OF demo_bucket_inv, of 0] by (simp add: demo_bucket_def demo_members_def)
  have q: "ch_sig (st_chan (bk_st demo_bucket) 0) = pq_Reset 2 16"
    by (simp add: demo_bucket_def demo_chan_def)
  have "deliver ProtoReady (pq_Reset 2 16) \<noteq> None"
    by (simp add: deliver_def pq_Push_def pq_Reset_def make_chan_def chan_send_def
        isHighPriority_def ProtoReady_def OpSendMsg_def OpProtoReady_def OpHeartbeatReply_def
        OpPushMsgAck_def OpSyncReply_def OpSendMsgAck_def OpProtoFinish_def)
  with Room_Push_members [OF rl, of ProtoReady] q show ?thesis by (simp only: simp_thms)
qed

end
