(* ===== verification/Free_Pool.thy ===== *)
theory Free_Pool
  imports Goim_Prelude
begin

text \<open>
  Pools of reusable objects. The byte-buffer pool of \<open>pkg/bytes/buffer.go\<close>, the timer of
  \<open>pkg/time/timer.go\<close> and the object ring behind them all keep their free objects in a singly linked
  list that \<open>grow\<close> refills with a block of new objects.

  The locale \<open>object_pool\<close> is the contract: what is handed out is in nobody's hands. Its client
  lemma is about whole histories: as long as callers put back only what they hold, no two of
  them ever hold the same object. The byte pool is shown to provide it, and on top of it that
  buffers in different hands never share memory.
\<close>

section \<open>The contract\<close>

text \<open>\<open>owns p U\<close>: the pool is in a good state and the objects \<open>U\<close> are out.\<close>

locale object_pool =
  fixes get :: "'p \<Rightarrow> (ref \<times> 'p) exec" and put :: "ref \<Rightarrow> 'p \<Rightarrow> 'p" and owns :: "'p \<Rightarrow> ref set \<Rightarrow> bool"
  assumes get_new: "owns p U \<Longrightarrow> \<exists>x p'. get p = Ret (x, p') \<and> x \<notin> U \<and> owns p' (insert x U)"
    and put_back: "owns p U \<Longrightarrow> x \<in> U \<Longrightarrow> owns (put x p) (U - {x})"

text \<open>A history: every \<open>Take_out\<close> gives its caller the object it got, every \<open>Put_back k\<close> returns
  the \<open>k\<close>-th object out. The objects out are kept in the order they were taken.\<close>

datatype pool_op = Take_out | Put_back nat

fun pool_run :: "('p \<Rightarrow> (ref \<times> 'p) exec) \<Rightarrow> (ref \<Rightarrow> 'p \<Rightarrow> 'p) \<Rightarrow> pool_op list \<Rightarrow> ref list \<times> 'p
    \<Rightarrow> (ref list \<times> 'p) exec" where
  "pool_run get put [] hp = Ret hp"
| "pool_run get put (Take_out # os) (held, p) =
     exec_bind (get p) (\<lambda>(x, p'). pool_run get put os (held @ [x], p'))"
| "pool_run get put (Put_back k # os) (held, p) =
     (if k < length held
      then pool_run get put os (take k held @ drop (Suc k) held, put (held ! k) p)
      else pool_run get put os (held, p))"

lemma distinct_drop_nth:
  assumes "distinct xs" "k < length xs"
  shows "distinct (take k xs @ drop (Suc k) xs)" "set (take k xs @ drop (Suc k) xs) = set xs - {xs ! k}"
proof -
  have xs: "xs = take k xs @ xs ! k # drop (Suc k) xs" by (rule id_take_nth_drop [OF assms(2)])
  from assms(1) have "distinct (take k xs @ xs ! k # drop (Suc k) xs)" by (subst (asm) xs)
  moreover have "set xs = set (take k xs) \<union> insert (xs ! k) (set (drop (Suc k) xs))"
    by (subst xs) auto
  ultimately show "distinct (take k xs @ drop (Suc k) xs)"
    "set (take k xs @ drop (Suc k) xs) = set xs - {xs ! k}" by auto
qed

context object_pool begin

lemma run_owns:
  assumes "owns p (set held)" "distinct held"
  shows "\<exists>held' p'. pool_run get put os (held, p) = Ret (held', p') \<and> owns p' (set held') \<and> distinct held'"
  using assms
proof (induction os arbitrary: held p)
  case Nil
  then show ?case by simp
next
  case (Cons c os)
  show ?case
  proof (cases c)
    case Take_out
    obtain x p' where "get p = Ret (x, p')" "x \<notin> set held" "owns p' (insert x (set held))"
      using get_new [OF Cons.prems(1)] by blast
    with Cons.IH [of p' "held @ [x]"] Cons.prems(2) Take_out show ?thesis by simp
  next
    case (Put_back k)
    show ?thesis
    proof (cases "k < length held")
      case True
      have "owns (put (held ! k) p) (set held - {held ! k})"
        by (rule put_back [OF Cons.prems(1)]) (use True in simp)
      with Cons.IH [of "put (held ! k) p" "take k held @ drop (Suc k) held"] True Put_back
        distinct_drop_nth [OF Cons.prems(2) True] show ?thesis by simp
    qed (use Cons Put_back in simp)
  qed
qed

end

section \<open>Free lists\<close>

text \<open>The objects on the list that starts at a pointer.\<close>

fun chain :: "(ref \<Rightarrow> ref option) \<Rightarrow> ref option \<Rightarrow> ref list \<Rightarrow> bool" where
  "chain nxt p [] \<longleftrightarrow> p = None"
| "chain nxt p (x # xs) \<longleftrightarrow> p = Some x \<and> chain nxt (nxt x) xs"

lemma chain_frame:
  "(\<And>x. x \<in> set xs \<Longrightarrow> nxt' x = nxt x) \<Longrightarrow> chain nxt' p xs = chain nxt p xs"
  by (induction xs arbitrary: p) auto

lemma chain_None: "chain nxt None xs \<longleftrightarrow> xs = []"
  by (cases xs) auto

lemma chain_Some: "chain nxt (Some x) xs \<longleftrightarrow> (\<exists>ys. xs = x # ys \<and> chain nxt (nxt x) ys)"
  by (cases xs) auto

text \<open>The list that \<open>grow\<close> threads through a block of new objects.\<close>

lemma chain_block:
  assumes "\<And>i. Suc i < n \<Longrightarrow> nxt (b + i) = Some (b + Suc i)" "nxt (b + (n - 1)) = None" "0 < n"
  shows "chain nxt (Some b) [b..<b + n]"
proof -
  have "k < n \<Longrightarrow> chain nxt (Some (b + k)) [b + k..<b + n]" for k
  proof (induction "n - k" arbitrary: k)
    case (Suc m)
    then have up: "[b + k..<b + n] = (b + k) # [b + Suc k..<b + n]" by (simp add: upt_conv_Cons)
    show ?case
    proof (cases "Suc k < n")
      case True
      with Suc.hyps(1) [of "Suc k"] Suc.hyps(2) assms(1) up show ?thesis by simp
    next
      case False
      with Suc.prems have "k = n - 1" by simp
      with assms(2) False up show ?thesis by simp
    qed
  qed simp
  from this [of 0] assms(3) show ?thesis by simp
qed

text \<open>The loop of \<open>grow\<close>: one assignment an object, in order.\<close>

lemma foldl_fun_upd_block:
  "foldl (\<lambda>st i. st(b + i - 1 := f i)) st [1..<n] =
     (\<lambda>x. if b \<le> x \<and> x < b + (n - 1) then f (x - b + 1) else st x)"
proof (induction n)
  case (Suc n)
  show ?case
  proof (cases "n = 0")
    case False
    then show ?thesis using Suc by (auto simp: fun_eq_iff)
  qed (auto simp: fun_eq_iff)
qed (auto simp: fun_eq_iff)

section \<open>The byte-buffer pool\<close>

text \<open>A buffer is a window of one of the arrays the pool has allocated: the array and the
  bounds of the slice \<open>buf[lo:hi]\<close>.\<close>

record region =
  rg_array :: nat
  rg_lo :: int
  rg_hi :: int

record byte_buf =
  bb_buf :: "region option"
  bb_next :: "ref option"

record byte_pool =
  bp_free :: "ref option"
  bp_max :: int
  bp_num :: int
  bp_size :: int
  bp_bufs :: "ref \<Rightarrow> byte_buf"
  bp_fresh :: ref
  bp_arrays :: nat

definition pool_grow :: "byte_pool \<Rightarrow> byte_pool exec" where
  "pool_grow p =
     (if bp_max p < 0 \<or> bp_num p < 0 then Panic ''makeslice: len out of range''
      else if bp_num p = 0 then Panic ''index out of range''
      else
        let a = bp_arrays p; b = bp_fresh p; n = nat (bp_num p); size1 = bp_size p;
            window = (\<lambda>i. Some \<lparr>rg_array = a, rg_lo = (int i - 1) * size1, rg_hi = int i * size1\<rparr>);
            st1 = foldl (\<lambda>st i. st(b + i - 1 := \<lparr>bb_buf = window i, bb_next = Some (b + i)\<rparr>))
                    (bp_bufs p) [1..<n];
            st2 = st1(b + n - 1 := \<lparr>bb_buf = window n, bb_next = None\<rparr>)
        in Ret (p\<lparr>bp_free := Some b, bp_bufs := st2, bp_fresh := b + n, bp_arrays := Suc a\<rparr>))"

definition pool_init :: "int \<Rightarrow> int \<Rightarrow> byte_pool \<Rightarrow> byte_pool exec" where
  "pool_init num size1 p = pool_grow (p\<lparr>bp_num := num, bp_size := size1, bp_max := num * size1\<rparr>)"

definition new_pool :: byte_pool where
  "new_pool = \<lparr>bp_free = None, bp_max = 0, bp_num = 0, bp_size = 0,
     bp_bufs = (\<lambda>_. \<lparr>bb_buf = None, bb_next = None\<rparr>), bp_fresh = 0, bp_arrays = 0\<rparr>"

definition NewPool :: "int \<Rightarrow> int \<Rightarrow> byte_pool exec" where
  "NewPool num size1 = pool_init num size1 new_pool"

definition pool_Get :: "byte_pool \<Rightarrow> (ref \<times> byte_pool) exec" where
  "pool_Get p =
     exec_bind (if bp_free p = None then pool_grow p else Ret p) (\<lambda>p1.
       case bp_free p1 of
         None \<Rightarrow> Panic ''nil pointer dereference''
       | Some b \<Rightarrow> Ret (b, p1\<lparr>bp_free := bb_next (bp_bufs p1 b)\<rparr>))"

definition pool_Put :: "ref \<Rightarrow> byte_pool \<Rightarrow> byte_pool" where
  "pool_Put b p =
     p\<lparr>bp_bufs := (bp_bufs p)(b := bb_next_update (\<lambda>_. bp_free p) (bp_bufs p b)), bp_free := Some b\<rparr>"

definition pool_Bytes :: "byte_pool \<Rightarrow> ref \<Rightarrow> region option" where
  "pool_Bytes p b = bb_buf (bp_bufs p b)"

subsection \<open>Invariant\<close>

text \<open>Two windows with no byte in common.\<close>

definition disjoint_regions :: "region \<Rightarrow> region \<Rightarrow> bool" where
  "disjoint_regions r s \<longleftrightarrow> rg_array r \<noteq> rg_array s \<or> rg_hi r \<le> rg_lo s \<or> rg_hi s \<le> rg_lo r"

definition windows_ok :: "byte_pool \<Rightarrow> bool" where
  "windows_ok p \<longleftrightarrow>
     (\<forall>x < bp_fresh p. \<exists>r. pool_Bytes p x = Some r \<and> rg_array r < bp_arrays p
        \<and> 0 \<le> rg_lo r \<and> rg_hi r = rg_lo r + bp_size p \<and> rg_hi r \<le> bp_max p)
   \<and> (\<forall>x < bp_fresh p. \<forall>y < bp_fresh p. x \<noteq> y \<longrightarrow>
        disjoint_regions (the (pool_Bytes p x)) (the (pool_Bytes p y)))"

definition pool_owns :: "int \<Rightarrow> byte_pool \<Rightarrow> ref set \<Rightarrow> bool" where
  "pool_owns s p U \<longleftrightarrow> 0 < bp_num p \<and> 0 \<le> s \<and> bp_size p = s \<and> bp_max p = bp_num p * bp_size p \<and> windows_ok p
     \<and> (\<exists>fs. chain (\<lambda>x. bb_next (bp_bufs p x)) (bp_free p) fs \<and> distinct fs
          \<and> set fs \<inter> U = {} \<and> set fs \<union> U \<subseteq> {..<bp_fresh p})"

text \<open>What \<open>grow\<close> puts into a new object.\<close>

lemma pool_grow_spec:
  assumes "0 < bp_num p" "0 \<le> bp_max p"
  defines "a \<equiv> bp_arrays p" and "b \<equiv> bp_fresh p" and "n \<equiv> nat (bp_num p)"
  shows "pool_grow p = Ret (p\<lparr>bp_free := Some b,
      bp_bufs := (\<lambda>x. if b \<le> x \<and> x < b + n
         then \<lparr>bb_buf = Some \<lparr>rg_array = a, rg_lo = int (x - b) * bp_size p, rg_hi = (int (x - b) + 1) * bp_size p\<rparr>,
               bb_next = if x - b = n - 1 then None else Some (x + 1)\<rparr>
         else bp_bufs p x),
      bp_fresh := b + n, bp_arrays := Suc a\<rparr>)"
proof -
  let ?f = "\<lambda>i. \<lparr>bb_buf = Some \<lparr>rg_array = a, rg_lo = (int i - 1) * bp_size p, rg_hi = int i * bp_size p\<rparr>,
                bb_next = Some (b + i)\<rparr>"
  have n: "0 < n" using assms(1) n_def by simp
  have "(foldl (\<lambda>st i. st(b + i - 1 := ?f i)) (bp_bufs p) [1..<n])
          (b + n - 1 := \<lparr>bb_buf = Some \<lparr>rg_array = a, rg_lo = (int n - 1) * bp_size p, rg_hi = int n * bp_size p\<rparr>,
                         bb_next = None\<rparr>)
      = (\<lambda>x. if b \<le> x \<and> x < b + n
         then \<lparr>bb_buf = Some \<lparr>rg_array = a, rg_lo = int (x - b) * bp_size p, rg_hi = (int (x - b) + 1) * bp_size p\<rparr>,
               bb_next = if x - b = n - 1 then None else Some (x + 1)\<rparr>
         else bp_bufs p x)" (is "?l = ?r")
  proof
    fix x
    consider "x < b \<or> b + n \<le> x" | "x = b + n - 1" | "b \<le> x" "x < b + (n - 1)" by linarith
    then show "?l x = ?r x"
      unfolding foldl_fun_upd_block by cases (use n in \<open>auto simp: of_nat_diff\<close>)
  qed
  with assms(1,2) show ?thesis
    by (simp add: pool_grow_def Let_def a_def b_def n_def)
qed

lemma windows_block:
  assumes "i \<noteq> j" "0 \<le> s"
  shows "disjoint_regions \<lparr>rg_array = a, rg_lo = i * s, rg_hi = (i + 1) * s\<rparr>
                          \<lparr>rg_array = a, rg_lo = j * s, rg_hi = (j + 1) * s\<rparr>"
proof -
  from assms(1) consider "i + 1 \<le> j" | "j + 1 \<le> i" by linarith
  then have "(i + 1) * s \<le> j * s \<or> (j + 1) * s \<le> i * s"
    using mult_right_mono [OF _ assms(2)] by cases blast+
  then show ?thesis by (auto simp: disjoint_regions_def)
qed

lemma disjoint_regions_sym: "disjoint_regions r s = disjoint_regions s r"
  by (auto simp: disjoint_regions_def)

lemma pool_grow_owns:
  assumes "pool_owns s p U" "bp_free p = None"
  obtains p' where "pool_grow p = Ret p'" "pool_owns s p' U" "bp_free p' = Some (bp_fresh p)"
proof -
  let ?a = "bp_arrays p" and ?b = "bp_fresh p" and ?n = "nat (bp_num p)" and ?s = "bp_size p"
  have P: "0 < bp_num p" "0 \<le> ?s" "bp_max p = bp_num p * ?s" and W: "windows_ok p"
    and U: "U \<subseteq> {..<?b}" and S: "s = ?s"
    using assms(1) by (auto simp: pool_owns_def)
  let ?w = "\<lambda>x. \<lparr>rg_array = ?a, rg_lo = int (x - ?b) * ?s, rg_hi = (int (x - ?b) + 1) * ?s\<rparr>"
  let ?p = "p\<lparr>bp_free := Some ?b,
      bp_bufs := (\<lambda>x. if ?b \<le> x \<and> x < ?b + ?n
         then \<lparr>bb_buf = Some (?w x), bb_next = if x - ?b = ?n - 1 then None else Some (x + 1)\<rparr>
         else bp_bufs p x),
      bp_fresh := ?b + ?n, bp_arrays := Suc ?a\<rparr>"
  have run: "pool_grow p = Ret ?p" by (rule pool_grow_spec) (use P in simp_all)
  have old: "pool_Bytes ?p x = pool_Bytes p x" if "x < ?b" for x
    using that by (simp add: pool_Bytes_def)
  have new: "pool_Bytes ?p x = Some (?w x)" if "?b \<le> x" "x < ?b + ?n" for x
    using that by (simp add: pool_Bytes_def)
  have bound: "0 \<le> int k * ?s \<and> (int k + 1) * ?s \<le> bp_max p" if "k < ?n" for k
    using mult_right_mono [OF _ P(2), of "int k + 1" "bp_num p"] that P by simp
  have each: "\<exists>r. pool_Bytes ?p x = Some r \<and> rg_array r < Suc ?a \<and> 0 \<le> rg_lo r
      \<and> rg_hi r = rg_lo r + ?s \<and> rg_hi r \<le> bp_max p" if "x < ?b + ?n" for x
  proof (cases "x < ?b")
    case True
    with W old show ?thesis unfolding windows_ok_def by (auto intro: less_SucI)
  next
    case False
    with that bound [of "x - ?b"] new [of x] show ?thesis by (auto simp: algebra_simps)
  qed
  have mixed: "disjoint_regions (the (pool_Bytes ?p x)) (the (pool_Bytes ?p y))"
    if "x < ?b" "?b \<le> y" "y < ?b + ?n" for x y
    using W that old [of x] new [of y] by (auto simp: windows_ok_def disjoint_regions_def)
  have apart: "disjoint_regions (the (pool_Bytes ?p x)) (the (pool_Bytes ?p y))"
    if "x < ?b + ?n" "y < ?b + ?n" "x \<noteq> y" for x y
  proof -
    consider "x < ?b" "y < ?b" | "x < ?b" "?b \<le> y" | "y < ?b" "?b \<le> x" | "?b \<le> x" "?b \<le> y" by linarith
    then show ?thesis
    proof cases
      case 1
      with W that(3) old show ?thesis by (simp add: windows_ok_def)
    next
      case 4
      have "int (x - ?b) \<noteq> int (y - ?b)" using 4 that(3) by simp
      from windows_block [OF this P(2), of ?a] 4 that new show ?thesis by simp
    qed (use mixed that disjoint_regions_sym in auto)
  qed
  have "chain (\<lambda>x. bb_next (bp_bufs ?p x)) (bp_free ?p) [?b..<?b + ?n]"
    unfolding byte_pool.simps by (simp, rule chain_block) (use P(1) in auto)
  moreover have "windows_ok ?p" using each apart by (auto simp: windows_ok_def)
  ultimately have "pool_owns s ?p U"
    unfolding pool_owns_def S using P U by (auto intro!: exI [of _ "[?b..<?b + ?n]"])
  with run that show thesis by simp
qed

lemma pool_Get_owns:
  assumes "pool_owns s p U"
  shows "\<exists>x p'. pool_Get p = Ret (x, p') \<and> x \<notin> U \<and> pool_owns s p' (insert x U)"
proof -
  obtain p1 b where p1: "pool_Get p = Ret (b, p1\<lparr>bp_free := bb_next (bp_bufs p1 b)\<rparr>)"
    "pool_owns s p1 U" "bp_free p1 = Some b"
  proof (cases "bp_free p")
    case None
    obtain p' where p': "pool_grow p = Ret p'" "pool_owns s p' U" "bp_free p' = Some (bp_fresh p)"
      by (rule pool_grow_owns [OF assms None])
    show thesis by (rule that [OF _ p'(2,3)]) (simp add: pool_Get_def None p')
  next
    case (Some b)
    show thesis by (rule that [OF _ assms Some]) (simp add: pool_Get_def Some)
  qed
  let ?p = "p1\<lparr>bp_free := bb_next (bp_bufs p1 b)\<rparr>"
  obtain fs where fs: "chain (\<lambda>x. bb_next (bp_bufs p1 x)) (bp_free p1) fs" "distinct fs" "set fs \<inter> U = {}"
    "set fs \<union> U \<subseteq> {..<bp_fresh p1}"
    using p1(2) by (auto simp: pool_owns_def)
  then obtain ys where ys: "fs = b # ys" "chain (\<lambda>x. bb_next (bp_bufs p1 x)) (bb_next (bp_bufs p1 b)) ys"
    using p1(3) by (auto simp: chain_Some)
  have "windows_ok ?p = windows_ok p1" by (simp add: windows_ok_def pool_Bytes_def)
  then have "windows_ok ?p" using p1(2) by (simp add: pool_owns_def)
  moreover have "chain (\<lambda>x. bb_next (bp_bufs ?p x)) (bp_free ?p) ys \<and> distinct ys
      \<and> set ys \<inter> insert b U = {} \<and> set ys \<union> insert b U \<subseteq> {..<bp_fresh ?p}"
    using fs ys by auto
  ultimately have "pool_owns s ?p (insert b U)"
    using p1(2) unfolding pool_owns_def by auto
  moreover have "b \<notin> U" using fs(3) ys(1) by auto
  ultimately show ?thesis using p1(1) by blast
qed

lemma pool_Put_owns:
  assumes "pool_owns s p U" "x \<in> U"
  shows "pool_owns s (pool_Put x p) (U - {x})"
proof -
  obtain fs where fs: "chain (\<lambda>x. bb_next (bp_bufs p x)) (bp_free p) fs" "distinct fs" "set fs \<inter> U = {}"
    "set fs \<union> U \<subseteq> {..<bp_fresh p}"
    using assms(1) by (auto simp: pool_owns_def)
  have x: "x \<notin> set fs" using fs(3) assms(2) by auto
  have "chain (\<lambda>y. bb_next (bp_bufs (pool_Put x p) y)) (bp_free p) fs"
    using fs(1) by (subst chain_frame [where nxt = "\<lambda>y. bb_next (bp_bufs p y)"]) (use x in \<open>auto simp: pool_Put_def\<close>)
  then have "chain (\<lambda>y. bb_next (bp_bufs (pool_Put x p) y)) (bp_free (pool_Put x p)) (x # fs)"
    by (simp add: pool_Put_def)
  moreover have "windows_ok (pool_Put x p)"
    using assms(1) by (auto simp: pool_owns_def windows_ok_def pool_Bytes_def pool_Put_def)
  moreover have "distinct (x # fs) \<and> set (x # fs) \<inter> (U - {x}) = {} \<and> set (x # fs) \<union> (U - {x}) \<subseteq> {..<bp_fresh (pool_Put x p)}"
    using fs x assms(2) by (auto simp: pool_Put_def)
  ultimately show ?thesis
    using assms(1) unfolding pool_owns_def
    by (intro conjI exI [of _ "x # fs"]) (auto simp: pool_Put_def)
qed

interpretation byte_pool: object_pool pool_Get pool_Put "pool_owns s" for s
  by unfold_locales (fact pool_Get_owns, fact pool_Put_owns)

lemma NewPool_owns:
  assumes "0 < num" "0 \<le> size1"
  obtains p where "NewPool num size1 = Ret p" "pool_owns size1 p {}"
proof -
  let ?p = "new_pool\<lparr>bp_num := num, bp_size := size1, bp_max := num * size1\<rparr>"
  have "pool_owns size1 ?p {}"
    using assms by (simp add: pool_owns_def windows_ok_def new_pool_def chain_None)
  moreover have "bp_free ?p = None" by (simp add: new_pool_def)
  ultimately obtain p where "pool_grow ?p = Ret p" "pool_owns size1 p {}" by (rule pool_grow_owns)
  with that show thesis by (simp add: NewPool_def pool_init_def)
qed

section \<open>Properties\<close>

text \<open>Property C7. Whatever the history of takes and returns, a new pool serves it without a panic and the
  buffers in different hands are different objects whose windows have the requested size and
  share no byte.\<close>

theorem pool_buffers_apart:
  assumes "0 < num" "0 \<le> size1"
  shows "\<exists>p held p'. NewPool num size1 = Ret p \<and> pool_run pool_Get pool_Put os ([], p) = Ret (held, p')
    \<and> distinct held
    \<and> (\<forall>x \<in> set held. \<exists>r. pool_Bytes p' x = Some r \<and> rg_hi r - rg_lo r = size1)
    \<and> (\<forall>x \<in> set held. \<forall>y \<in> set held. x \<noteq> y \<longrightarrow>
         disjoint_regions (the (pool_Bytes p' x)) (the (pool_Bytes p' y)))"
proof -
  obtain p where p: "NewPool num size1 = Ret p" "pool_owns size1 p {}"
    by (rule NewPool_owns [OF assms])
  obtain held p' where h: "pool_run pool_Get pool_Put os ([], p) = Ret (held, p')"
    "pool_owns size1 p' (set held)" "distinct held"
    using byte_pool.run_owns [of size1 p "[]" os] p(2) by auto
  have W: "windows_ok p'" "bp_size p' = size1" "\<And>x. x \<in> set held \<Longrightarrow> x < bp_fresh p'"
    using h(2) by (auto simp: pool_owns_def)
  have "\<exists>r. pool_Bytes p' x = Some r \<and> rg_hi r - rg_lo r = size1" if "x \<in> set held" for x
    using W(1,2) W(3) [OF that] by (auto simp: windows_ok_def)
  with p(1) h(1,3) W(1,3) show ?thesis by (auto simp: windows_ok_def)
qed

theorem pool_buffers_apart_witness:
  "\<exists>p held p'. NewPool 2 512 = Ret p
    \<and> pool_run pool_Get pool_Put [Take_out, Take_out, Put_back 0, Take_out, Take_out] ([], p) = Ret (held, p')
    \<and> distinct held
    \<and> (\<forall>x \<in> set held. \<exists>r. pool_Bytes p' x = Some r \<and> rg_hi r - rg_lo r = 512)
    \<and> (\<forall>x \<in> set held. \<forall>y \<in> set held. x \<noteq> y \<longrightarrow>
         disjoint_regions (the (pool_Bytes p' x)) (the (pool_Bytes p' y)))"
  by (rule pool_buffers_apart) simp_all

end
