(* ===== verification/Timer_Heap.thy ===== *)
theory Timer_Heap
  imports Free_Pool "HOL-Library.Multiset"
begin

text \<open>
  The timer of \<open>pkg/time/timer.go\<close>: a binary min-heap of timer objects ordered by expiry time, each
  object knowing its place in the heap, with a free list of objects and one runtime timer (the
  \<open>signal\<close>) armed for the earliest expiry.

  Instants and durations are nanoseconds. An operation gets the instant \<open>now\<close> that its readings of the
  clock return. \<open>tm_wake\<close> is the instant the signal is set for. The callbacks are values of the
  parameter type \<open>'f\<close>; what running one does to the timer is an argument of \<open>tm_expire\<close>. Heap
  positions are natural numbers: the guard \<open>j1 < 0\<close> of \<open>down\<close> concerns heaps of \<open>2 ^ 62\<close> objects.
\<close>

section \<open>State\<close>

record 'f tdata =
  td_Key :: string
  td_expire :: int
  td_fn :: "'f option"
  td_index :: int
  td_next :: "ref option"

record 'f timer =
  tm_free :: "ref option"
  tm_timers :: "ref list"
  tm_num :: int
  tm_wake :: int
  tm_data :: "ref \<Rightarrow> 'f tdata"
  tm_fresh :: ref

definition infiniteDuration :: int where
  "infiniteDuration = 2 ^ 63 - 1"

text \<open>A duration saturates at the bounds of an \<open>int64\<close>.\<close>

definition clamp_duration :: "int \<Rightarrow> int" where
  "clamp_duration d = max (- (2 ^ 63)) (min (2 ^ 63 - 1) d)"

definition td_Delay :: "int \<Rightarrow> 'f tdata \<Rightarrow> int" where
  "td_Delay now td = clamp_duration (td_expire td - now)"

definition zero_td :: "'f tdata" where
  "zero_td = \<lparr>td_Key = [], td_expire = 0, td_fn = None, td_index = 0, td_next = None\<rparr>"

definition upd_td :: "ref \<Rightarrow> ('f tdata \<Rightarrow> 'f tdata) \<Rightarrow> 'f timer \<Rightarrow> 'f timer" where
  "upd_td x f t = t\<lparr>tm_data := (tm_data t)(x := f (tm_data t x))\<rparr>"

lemma upd_td_simps [simp]:
  "tm_free (upd_td x f t) = tm_free t" "tm_timers (upd_td x f t) = tm_timers t"
  "tm_num (upd_td x f t) = tm_num t" "tm_wake (upd_td x f t) = tm_wake t"
  "tm_fresh (upd_td x f t) = tm_fresh t"
  "tm_data (upd_td x f t) = (tm_data t)(x := f (tm_data t x))"
  by (simp_all add: upd_td_def)

section \<open>Operations\<close>

definition tm_grow :: "'f timer \<Rightarrow> 'f timer exec" where
  "tm_grow t =
     (if tm_num t < 0 then Panic ''makeslice: len out of range''
      else if tm_num t = 0 then Panic ''index out of range''
      else
        let b = tm_fresh t; n = nat (tm_num t);
            st0 = (\<lambda>x. if b \<le> x \<and> x < b + n then zero_td else tm_data t x);
            st1 = foldl (\<lambda>st i. st(b + i - 1 := zero_td\<lparr>td_next := Some (b + i)\<rparr>)) st0 [1..<n];
            st2 = st1(b + n - 1 := zero_td\<lparr>td_next := None\<rparr>)
        in Ret (t\<lparr>tm_free := Some b, tm_data := st2, tm_fresh := b + n\<rparr>))"

definition tm_get :: "'f timer \<Rightarrow> (ref \<times> 'f timer) exec" where
  "tm_get t =
     exec_bind (if tm_free t = None then tm_grow t else Ret t) (\<lambda>t1.
       case tm_free t1 of
         None \<Rightarrow> Panic ''nil pointer dereference''
       | Some td \<Rightarrow> Ret (td, t1\<lparr>tm_free := td_next (tm_data t1 td)\<rparr>))"

definition tm_put :: "ref \<Rightarrow> 'f timer \<Rightarrow> 'f timer" where
  "tm_put x t = (upd_td x (\<lambda>td. td\<lparr>td_fn := None, td_next := tm_free t\<rparr>) t)\<lparr>tm_free := Some x\<rparr>"

definition tm_less :: "'f timer \<Rightarrow> nat \<Rightarrow> nat \<Rightarrow> bool" where
  "tm_less t i j \<longleftrightarrow> td_expire (tm_data t (tm_timers t ! i)) < td_expire (tm_data t (tm_timers t ! j))"

definition tm_swap :: "nat \<Rightarrow> nat \<Rightarrow> 'f timer \<Rightarrow> 'f timer" where
  "tm_swap i j t =
     (let ts = (tm_timers t)[i := tm_timers t ! j, j := tm_timers t ! i];
          t1 = t\<lparr>tm_timers := ts\<rparr>;
          t2 = upd_td (ts ! i) (td_index_update (\<lambda>_. int i)) t1
      in upd_td (ts ! j) (td_index_update (\<lambda>_. int j)) t2)"

fun tm_up :: "nat \<Rightarrow> 'f timer \<Rightarrow> 'f timer" where
  "tm_up j t =
     (let i = (j - 1) div 2
      in if i \<ge> j \<or> \<not> tm_less t j i then t else tm_up i (tm_swap i j t))"

function tm_down :: "nat \<Rightarrow> nat \<Rightarrow> 'f timer \<Rightarrow> 'f timer" where
  "tm_down i n t =
     (let j1 = 2 * i + 1
      in if j1 \<ge> n then t
         else let j = (if j1 + 1 < n \<and> \<not> tm_less t j1 (j1 + 1) then j1 + 1 else j1)
              in if \<not> tm_less t j i then t else tm_down j n (tm_swap i j t))"
  by pat_completeness auto
termination
  by (relation "measure (\<lambda>(i, n, t). n - i)") (auto split: if_splits)

declare tm_up.simps [simp del] tm_down.simps [simp del]

definition tm_add :: "int \<Rightarrow> ref \<Rightarrow> 'f timer \<Rightarrow> 'f timer" where
  "tm_add now x t =
     (let k = length (tm_timers t);
          t1 = upd_td x (td_index_update (\<lambda>_. int k)) t;
          t2 = tm_up k (t1\<lparr>tm_timers := tm_timers t1 @ [x]\<rparr>)
      in if td_index (tm_data t2 x) = 0 then t2\<lparr>tm_wake := now + td_Delay now (tm_data t2 x)\<rparr> else t2)"

definition tm_del :: "ref \<Rightarrow> 'f timer \<Rightarrow> 'f timer" where
  "tm_del x t =
     (let i = td_index (tm_data t x); last1 = int (length (tm_timers t)) - 1
      in if i < 0 \<or> i > last1 \<or> tm_timers t ! nat i \<noteq> x then t
         else
           let t1 = (if i \<noteq> last1
                     then tm_up (nat i) (tm_down (nat i) (nat last1) (tm_swap (nat i) (nat last1) t))
                     else t);
               t2 = upd_td (tm_timers t1 ! nat last1) (td_index_update (\<lambda>_. - 1)) t1
           in t2\<lparr>tm_timers := take (nat last1) (tm_timers t2)\<rparr>)"

definition tm_Add :: "int \<Rightarrow> i64 \<Rightarrow> 'f \<Rightarrow> 'f timer \<Rightarrow> (ref \<times> 'f timer) exec" where
  "tm_Add now d fn t =
     exec_bind (tm_get t) (\<lambda>(x, t1).
       Ret (x, tm_add now x (upd_td x (\<lambda>td. td\<lparr>td_expire := now + sint d, td_fn := Some fn\<rparr>) t1)))"

definition tm_Del :: "ref \<Rightarrow> 'f timer \<Rightarrow> 'f timer" where
  "tm_Del x t = tm_put x (tm_del x t)"

definition tm_Set :: "int \<Rightarrow> ref \<Rightarrow> i64 \<Rightarrow> 'f timer \<Rightarrow> 'f timer" where
  "tm_Set now x d t = tm_add now x (upd_td x (td_expire_update (\<lambda>_. now + sint d)) (tm_del x t))"

text \<open>\<open>init\<close>; the first turn of the goroutine it starts is a call of \<open>tm_expire\<close>.\<close>

definition tm_init :: "int \<Rightarrow> int \<Rightarrow> 'f timer \<Rightarrow> 'f timer exec" where
  "tm_init now num t =
     (if num < 0 then Panic ''makeslice: cap out of range''
      else tm_grow (t\<lparr>tm_wake := now + infiniteDuration, tm_timers := [], tm_num := num\<rparr>))"

text \<open>One turn of the loop of \<open>expire\<close>; the list of objects that have expired is kept to speak of it.\<close>

definition tm_expire_step ::
    "('f \<Rightarrow> 'f timer \<Rightarrow> 'f timer exec) \<Rightarrow> ref list \<times> 'f timer \<Rightarrow> (ref list \<times> 'f timer) exec" where
  "tm_expire_step call = (\<lambda>(fired, t).
     let x = tm_timers t ! 0; fn = td_fn (tm_data t x); t1 = tm_del x t
     in case fn of
          None \<Rightarrow> Ret (fired @ [x], t1)
        | Some f \<Rightarrow> exec_bind (call f t1) (\<lambda>t2. Ret (fired @ [x], t2)))"

definition tm_expire ::
    "('f \<Rightarrow> 'f timer \<Rightarrow> 'f timer exec) \<Rightarrow> int \<Rightarrow> 'f timer \<Rightarrow> (ref list \<times> 'f timer) exec" where
  "tm_expire call now t =
     exec_bind
       (exec_loop (\<lambda>(fired, t). tm_timers t \<noteq> [] \<and> td_Delay now (tm_data t (tm_timers t ! 0)) \<le> 0)
          (tm_expire_step call) ([], t))
       (\<lambda>(fired, t). Ret (fired, t\<lparr>tm_wake := now +
          (if tm_timers t = [] then infiniteDuration else td_Delay now (tm_data t (tm_timers t ! 0)))\<rparr>))"

section \<open>The heap\<close>

definition key :: "'f timer \<Rightarrow> nat \<Rightarrow> int" where
  "key t k = td_expire (tm_data t (tm_timers t ! k))"

lemma tm_less_key: "tm_less t i j \<longleftrightarrow> key t i < key t j"
  by (simp add: tm_less_def key_def)

definition parent :: "nat \<Rightarrow> nat" where
  "parent k = (k - 1) div 2"

lemma parent_less [simp]: "0 < k \<Longrightarrow> parent k < k"
  by (auto simp: parent_def)

lemma parent_children: "0 < m \<Longrightarrow> parent m = i \<longleftrightarrow> m = 2 * i + 1 \<or> m = 2 * i + 2"
  unfolding parent_def by (cases m) auto

text \<open>The heap order among the first \<open>n\<close> positions, at the positions in \<open>P\<close>.\<close>

definition ordered_at :: "(nat \<Rightarrow> bool) \<Rightarrow> nat \<Rightarrow> 'f timer \<Rightarrow> bool" where
  "ordered_at P n t \<longleftrightarrow> (\<forall>m < n. 0 < m \<longrightarrow> P m \<longrightarrow> key t (parent m) \<le> key t m)"

abbreviation heap :: "nat \<Rightarrow> 'f timer \<Rightarrow> bool" where
  "heap \<equiv> ordered_at (\<lambda>_. True)"

text \<open>The children of \<open>k\<close> are not below the parent of \<open>k\<close>.\<close>

definition grand_ok :: "nat \<Rightarrow> nat \<Rightarrow> 'f timer \<Rightarrow> bool" where
  "grand_ok k n t \<longleftrightarrow> (\<forall>m < n. 0 < m \<longrightarrow> parent m = k \<longrightarrow> 0 < k \<longrightarrow> key t (parent k) \<le> key t m)"

lemma ordered_atD: "ordered_at P n t \<Longrightarrow> m < n \<Longrightarrow> 0 < m \<Longrightarrow> P m \<Longrightarrow> key t (parent m) \<le> key t m"
  by (simp add: ordered_at_def)

lemma heap_root:
  assumes "heap n t" "k < n"
  shows "key t 0 \<le> key t k"
  using assms(2)
proof (induction k rule: less_induct)
  case (less k)
  show ?case
  proof (cases "k = 0")
    case False
    then have p: "parent k < k" by simp
    with less.prems have "parent k < n" by simp
    from less.IH [OF p this] ordered_atD [OF assms(1) less.prems] False show ?thesis by simp
  qed simp
qed

section \<open>Swapping\<close>

text \<open>Every object in the heap knows its place.\<close>

definition placed_ok :: "'f timer \<Rightarrow> bool" where
  "placed_ok t \<longleftrightarrow> (\<forall>k < length (tm_timers t). td_index (tm_data t (tm_timers t ! k)) = int k)"

text \<open>What sifting does not touch: the objects in the heap as a multiset and everything but the
  places of the objects in the heap.\<close>

definition same_timers :: "'f timer \<Rightarrow> 'f timer \<Rightarrow> bool" where
  "same_timers t t' \<longleftrightarrow> mset (tm_timers t') = mset (tm_timers t)
     \<and> (\<forall>x. tm_data t' x = td_index_update (\<lambda>_. td_index (tm_data t' x)) (tm_data t x))
     \<and> (\<forall>x. x \<notin> set (tm_timers t) \<longrightarrow> tm_data t' x = tm_data t x)
     \<and> tm_free t' = tm_free t \<and> tm_num t' = tm_num t \<and> tm_wake t' = tm_wake t \<and> tm_fresh t' = tm_fresh t"

lemma same_timers_refl: "same_timers t t"
  by (simp add: same_timers_def)

lemma same_timersD:
  assumes "same_timers t t'"
  shows "length (tm_timers t') = length (tm_timers t)" "set (tm_timers t') = set (tm_timers t)"
    "td_expire (tm_data t' x) = td_expire (tm_data t x)" "td_fn (tm_data t' x) = td_fn (tm_data t x)"
    "td_next (tm_data t' x) = td_next (tm_data t x)" "td_Key (tm_data t' x) = td_Key (tm_data t x)"
    "x \<notin> set (tm_timers t) \<Longrightarrow> tm_data t' x = tm_data t x"
    "tm_free t' = tm_free t" "tm_num t' = tm_num t" "tm_wake t' = tm_wake t" "tm_fresh t' = tm_fresh t"
proof -
  have d: "tm_data t' x = td_index_update (\<lambda>_. td_index (tm_data t' x)) (tm_data t x)"
    using assms by (simp add: same_timers_def)
  show "td_expire (tm_data t' x) = td_expire (tm_data t x)" "td_fn (tm_data t' x) = td_fn (tm_data t x)"
    "td_next (tm_data t' x) = td_next (tm_data t x)" "td_Key (tm_data t' x) = td_Key (tm_data t x)"
    by (subst d, simp)+
qed (use assms in \<open>auto simp: same_timers_def dest: mset_eq_length mset_eq_setD\<close>)

lemma same_timers_trans:
  assumes "same_timers t t'" "same_timers t' t''"
  shows "same_timers t t''"
proof -
  have s: "set (tm_timers t') = set (tm_timers t)" by (rule same_timersD(2) [OF assms(1)])
  have d: "tm_data t'' x = td_index_update (\<lambda>_. td_index (tm_data t'' x)) (tm_data t x)" for x
    by (rule tdata.equality) (simp_all add: same_timersD [OF assms(1)] same_timersD [OF assms(2)])
  from assms s d show ?thesis by (auto simp: same_timers_def)
qed


lemma swap_timers:
  assumes ij: "i < length (tm_timers t)" "j < length (tm_timers t)" "i \<noteq> j"
  shows "tm_timers (tm_swap i j t) = (tm_timers t)[i := tm_timers t ! j, j := tm_timers t ! i]"
  by (simp add: tm_swap_def Let_def)

lemma swap_nth:
  assumes ij: "i < length (tm_timers t)" "j < length (tm_timers t)" "i \<noteq> j"
  shows "k < length (tm_timers t) \<Longrightarrow> tm_timers (tm_swap i j t) ! k =
     (if k = i then tm_timers t ! j else if k = j then tm_timers t ! i else tm_timers t ! k)"
  using ij by (auto simp: swap_timers [OF ij] nth_list_update)

lemma swap_data:
  assumes ij: "i < length (tm_timers t)" "j < length (tm_timers t)" "i \<noteq> j"
  shows "tm_data (tm_swap i j t) x =
     (if x = tm_timers t ! i then td_index_update (\<lambda>_. int j) (tm_data t x)
      else if x = tm_timers t ! j then td_index_update (\<lambda>_. int i) (tm_data t x)
      else tm_data t x)"
  using ij by (auto simp: tm_swap_def Let_def nth_list_update)

lemma swap_same:
  assumes ij: "i < length (tm_timers t)" "j < length (tm_timers t)" "i \<noteq> j"
  shows "same_timers t (tm_swap i j t)"
proof -
  have "mset (tm_timers (tm_swap i j t)) = mset (tm_timers t)"
    using ij by (simp add: swap_timers mset_swap)
  moreover have "tm_data (tm_swap i j t) x = tm_data t x" if "x \<notin> set (tm_timers t)" for x
    using that ij nth_mem by (auto simp: swap_data [OF ij])
  moreover have "tm_data (tm_swap i j t) x
      = td_index_update (\<lambda>_. td_index (tm_data (tm_swap i j t) x)) (tm_data t x)" for x
    by (auto simp: swap_data [OF ij])
  ultimately show ?thesis
    by (simp add: same_timers_def) (simp add: tm_swap_def Let_def)
qed

lemma swap_key:
  assumes ij: "i < length (tm_timers t)" "j < length (tm_timers t)" "i \<noteq> j"
  shows "k < length (tm_timers t) \<Longrightarrow>
     key (tm_swap i j t) k = key t (if k = i then j else if k = j then i else k)"
  unfolding key_def same_timersD(3) [OF swap_same [OF ij]] by (simp add: swap_nth [OF ij])

lemma swap_placed:
  assumes ij: "i < length (tm_timers t)" "j < length (tm_timers t)" "i \<noteq> j"
    and "placed_ok t" "distinct (tm_timers t)"
  shows "placed_ok (tm_swap i j t)"
  unfolding placed_ok_def
proof (intro allI impI)
  fix k assume "k < length (tm_timers (tm_swap i j t))"
  then have k: "k < length (tm_timers t)" by (simp add: swap_timers [OF ij])
  consider "k = i" | "k = j" | "k \<noteq> i" "k \<noteq> j" by blast
  then show "td_index (tm_data (tm_swap i j t) (tm_timers (tm_swap i j t) ! k)) = int k"
    using assms ij k
    by cases (auto simp: swap_nth [OF ij] swap_data [OF ij] placed_ok_def nth_eq_iff_index_eq)
qed

lemma same_distinct: "same_timers t t' \<Longrightarrow> distinct (tm_timers t) \<Longrightarrow> distinct (tm_timers t')"
  by (auto simp: same_timers_def dest: mset_eq_imp_distinct_iff)

text \<open>Sifting steps from a heap of distinct objects that know their places lead to such heaps.\<close>

definition sifted :: "'f timer \<Rightarrow> 'f timer \<Rightarrow> bool" where
  "sifted t t' \<longleftrightarrow> same_timers t t' \<and> (placed_ok t \<longrightarrow> distinct (tm_timers t) \<longrightarrow> placed_ok t')"

lemma sifted_refl: "sifted t t"
  by (simp add: sifted_def same_timers_refl)

lemma sifted_trans: "sifted t t' \<Longrightarrow> sifted t' t'' \<Longrightarrow> sifted t t''"
  using same_timers_trans same_distinct unfolding sifted_def by blast

lemma sifted_swap:
  "i < length (tm_timers t) \<Longrightarrow> j < length (tm_timers t) \<Longrightarrow> i \<noteq> j \<Longrightarrow> sifted t (tm_swap i j t)"
  by (simp add: sifted_def swap_same swap_placed)

lemma sifted_length: "sifted t t' \<Longrightarrow> length (tm_timers t') = length (tm_timers t)"
  by (simp add: sifted_def same_timersD(1))

section \<open>Sifting up\<close>

lemma tm_up_sifted:
  "j < length (tm_timers t) \<Longrightarrow> sifted t (tm_up j t)
     \<and> (\<forall>k. j < k \<longrightarrow> k < length (tm_timers t) \<longrightarrow> tm_timers (tm_up j t) ! k = tm_timers t ! k)"
proof (induction j arbitrary: t rule: less_induct)
  case (less j)
  define i where "i = (j - 1) div 2"
  show ?case
  proof (cases "i \<ge> j \<or> \<not> tm_less t j i")
    case True
    then have "tm_up j t = t" by (subst tm_up.simps) (simp add: i_def)
    then show ?thesis by (simp add: sifted_refl)
  next
    case False
    then have i: "i < j" and ij: "i < length (tm_timers t)" "i \<noteq> j" using less.prems by auto
    have up: "tm_up j t = tm_up i (tm_swap i j t)" using False by (subst tm_up.simps) (simp add: Let_def i_def)
    note sw = sifted_swap [OF ij(1) less.prems ij(2)]
    note IH = less.IH [OF i, of "tm_swap i j t"]
    have "tm_timers (tm_swap i j t) ! k = tm_timers t ! k" if "j < k" "k < length (tm_timers t)" for k
      using that i by (simp add: swap_nth [OF ij(1) less.prems ij(2)])
    with IH sifted_trans [OF sw] ij(1) i show ?thesis
      unfolding up by (auto simp: sifted_length [OF sw])
  qed
qed

lemma tm_up_heap:
  assumes "ordered_at (\<lambda>m. m \<noteq> j) n t" "grand_ok j n t" "j < n" "n \<le> length (tm_timers t)"
  shows "heap n (tm_up j t)"
  using assms
proof (induction j arbitrary: t rule: less_induct)
  case (less j)
  define i where "i = (j - 1) div 2"
  note O = ordered_atD [OF less.prems(1)]
  show ?case
  proof (cases "i \<ge> j \<or> \<not> tm_less t j i")
    case True
    then have "key t (parent j) \<le> key t j \<or> j = 0" by (auto simp: tm_less_key parent_def i_def)
    with O have "heap n t" by (fastforce simp: ordered_at_def)
    with True show ?thesis by (subst tm_up.simps) (simp add: i_def)
  next
    case False
    then have i: "i < j" and lt: "key t j < key t i" by (auto simp: tm_less_key)
    let ?t = "tm_swap i j t"
    have ij: "i < length (tm_timers t)" "j < length (tm_timers t)" "i \<noteq> j" using i less.prems by auto
    have j: "0 < j" "parent j = i" using i by (auto simp: parent_def i_def)
    have key: "key ?t m = key t (if m = i then j else if m = j then i else m)" if "m < n" for m
      by (rule swap_key [OF ij]) (use that less.prems(4) in simp)
    have par: "parent m < n" if "m < n" "0 < m" for m
      using parent_less [OF that(2)] that(1) by (rule less_trans)
    have up: "key t i \<le> key t m" if "m < n" "0 < m" "parent m = j" for m
      using less.prems(2) that j by (auto simp: grand_ok_def)
    have ord: "ordered_at (\<lambda>m. m \<noteq> i) n ?t"
      unfolding ordered_at_def
    proof (intro allI impI)
      fix m assume m: "m < n" "0 < m" "m \<noteq> i"
      consider "m = j" | "m \<noteq> j" "parent m = i" | "m \<noteq> j" "parent m = j" | "m \<noteq> j" "parent m \<noteq> i" "parent m \<noteq> j"
        by blast
      then show "key ?t (parent m) \<le> key ?t m"
      proof cases
        case 1
        with j lt m i key [of m] key [of "parent m"] par [OF m(1,2)] show ?thesis by simp
      next
        case 2
        with O [OF m(1,2)] lt m key [of m] key [of "parent m"] par [OF m(1,2)] show ?thesis by simp
      next
        case 3
        with up [OF m(1,2)] m key [of m] key [of "parent m"] par [OF m(1,2)] ij(3) show ?thesis by simp
      next
        case 4
        with O [OF m(1,2)] m key [of m] key [of "parent m"] par [OF m(1,2)] show ?thesis by simp
      qed
    qed
    have grand: "grand_ok i n ?t"
      unfolding grand_ok_def
    proof (intro allI impI)
      fix m assume m: "m < n" "0 < m" "parent m = i" "0 < i"
      have pi: "parent i < i" using m(4) by simp
      have "key t (parent i) \<le> key t i" by (rule O) (use i m less.prems(3) in auto)
      moreover have "m \<noteq> j \<Longrightarrow> key t i \<le> key t m" using O [OF m(1,2)] m(3) by simp
      moreover have "m \<noteq> i" using m(2,3) parent_less [of m] by auto
      ultimately show "key ?t (parent i) \<le> key ?t m"
        using m(1) key [of m] key [of "parent i"] pi i less.prems(3) by auto
    qed
    have up: "tm_up j t = tm_up i ?t" using False by (subst tm_up.simps) (simp add: Let_def i_def)
    have len: "n \<le> length (tm_timers ?t)" using less.prems(4) by (simp add: swap_timers [OF ij])
    show ?thesis unfolding up
      by (rule less.IH [OF i ord grand _ len]) (use i less.prems(3) in simp)
  qed
qed

section \<open>Sifting down\<close>

text \<open>The smaller child of a position, as \<open>down\<close> picks it.\<close>

definition pick :: "'f timer \<Rightarrow> nat \<Rightarrow> nat \<Rightarrow> nat" where
  "pick t i n = (if 2 * i + 2 < n \<and> \<not> tm_less t (2 * i + 1) (2 * i + 2) then 2 * i + 2 else 2 * i + 1)"

lemma tm_down_unfold:
  "tm_down i n t =
     (if n \<le> 2 * i + 1 \<or> \<not> tm_less t (pick t i n) i then t
      else tm_down (pick t i n) n (tm_swap i (pick t i n) t))"
  by (subst tm_down.simps) (simp add: Let_def pick_def)

lemma pick_child:
  assumes "2 * i + 1 < n"
  shows "pick t i n < n" "i < pick t i n" "0 < pick t i n" "parent (pick t i n) = i"
  using assms by (auto simp: pick_def parent_def)

lemma pick_least:
  assumes "m < n" "0 < m" "parent m = i"
  shows "key t (pick t i n) \<le> key t m"
proof -
  have "m = 2 * i + 1 \<or> m = 2 * i + 2" using assms(2,3) by (simp add: parent_children)
  then show ?thesis using assms(1) by (auto simp: pick_def tm_less_key)
qed

lemma tm_down_sifted:
  "n \<le> length (tm_timers t) \<Longrightarrow> i < n \<Longrightarrow> sifted t (tm_down i n t)
     \<and> (\<forall>k. n \<le> k \<longrightarrow> k < length (tm_timers t) \<longrightarrow> tm_timers (tm_down i n t) ! k = tm_timers t ! k)"
proof (induction "n - i" arbitrary: i t rule: less_induct)
  case less
  show ?case
  proof (cases "n \<le> 2 * i + 1 \<or> \<not> tm_less t (pick t i n) i")
    case True
    then show ?thesis by (subst (1 2) tm_down_unfold) (simp add: sifted_refl)
  next
    case False
    let ?j = "pick t i n"
    have "2 * i + 1 < n" using False by simp
    note j = pick_child [OF this, of t]
    have ij: "i < length (tm_timers t)" "?j < length (tm_timers t)" "i \<noteq> ?j"
      using less.prems j by simp_all
    note sw = sifted_swap [OF ij]
    have down: "tm_down i n t = tm_down ?j n (tm_swap i ?j t)" using False by (subst tm_down_unfold) simp
    have "tm_timers (tm_swap i ?j t) ! k = tm_timers t ! k" if "n \<le> k" "k < length (tm_timers t)" for k
      using that less.prems j by (simp add: swap_nth [OF ij])
    with less.hyps [of ?j "tm_swap i ?j t"] sifted_trans [OF sw] less.prems j show ?thesis
      unfolding down by (auto simp: sifted_length [OF sw])
  qed
qed

text \<open>The states between the start at position \<open>a\<close> and the current position \<open>i\<close>.\<close>

definition sinking :: "nat \<Rightarrow> nat \<Rightarrow> nat \<Rightarrow> 'f timer \<Rightarrow> bool" where
  "sinking a i n t \<longleftrightarrow> a \<le> i \<and> i < n \<and> n \<le> length (tm_timers t)
     \<and> ordered_at (\<lambda>m. m \<noteq> a \<and> parent m \<noteq> i) n t \<and> grand_ok i n t
     \<and> (a \<noteq> i \<longrightarrow> 0 < a \<longrightarrow> key t (parent a) \<le> key t a)"

lemma sinking_step:
  assumes s: "sinking a i n t" and go: "2 * i + 1 < n" "tm_less t (pick t i n) i"
  shows "sinking a (pick t i n) n (tm_swap i (pick t i n) t)"
proof -
  let ?j = "pick t i n" and ?t = "tm_swap i (pick t i n) t"
  note j = pick_child [OF go(1), of t]
  have ai: "a \<le> i" "i < n" "n \<le> length (tm_timers t)" and D: "a \<noteq> i \<Longrightarrow> 0 < a \<Longrightarrow> key t (parent a) \<le> key t a"
    using s by (auto simp: sinking_def)
  have O: "key t (parent m) \<le> key t m" if "m < n" "0 < m" "m \<noteq> a" "parent m \<noteq> i" for m
    using s that by (auto simp: sinking_def ordered_at_def)
  have G: "key t (parent i) \<le> key t m" if "m < n" "0 < m" "parent m = i" "0 < i" for m
    using s that by (auto simp: sinking_def grand_ok_def)
  have ij: "i < length (tm_timers t)" "?j < length (tm_timers t)" "i \<noteq> ?j"
    using ai j by simp_all
  have lt: "key t ?j < key t i" using go(2) by (simp add: tm_less_key)
  have key: "key ?t m = key t (if m = i then ?j else if m = ?j then i else m)" if "m < n" for m
    by (rule swap_key [OF ij]) (use that ai in simp)
  have par: "parent m < n" if "m < n" "0 < m" for m
    using parent_less [OF that(2)] that(1) by (rule less_trans)
  have ord: "ordered_at (\<lambda>m. m \<noteq> a \<and> parent m \<noteq> ?j) n ?t"
    unfolding ordered_at_def
  proof (intro allI impI)
    fix m assume m: "m < n" "0 < m" "m \<noteq> a \<and> parent m \<noteq> ?j"
    note k = key [OF m(1)] key [OF par [OF m(1,2)]]
    consider "m = ?j" | "m \<noteq> ?j" "parent m = i" | "m = i" | "m \<noteq> ?j" "m \<noteq> i" "parent m \<noteq> i" by blast
    then show "key ?t (parent m) \<le> key ?t m"
    proof cases
      case 1
      with k j lt ij(3) show ?thesis by simp
    next
      case 2
      have "m \<noteq> i" using 2 parent_less [OF m(2)] by auto
      with 2 k pick_least [OF m(1,2) 2(2), of t] show ?thesis by simp
    next
      case 3
      have "parent i < i" using 3 m(2) by simp
      with 3 k G [OF j(1,3,4)] m ij(3) show ?thesis by simp
    next
      case 4
      with k O [OF m(1,2)] m(3) show ?thesis by simp
    qed
  qed
  have grand: "grand_ok ?j n ?t"
    unfolding grand_ok_def
  proof (intro allI impI)
    fix m assume m: "m < n" "0 < m" "parent m = ?j" "0 < ?j"
    have "?j < m" using m(2,3) parent_less [of m] by simp
    then have "m \<noteq> a" "m \<noteq> i" "m \<noteq> ?j" using ai j by auto
    with O [OF m(1,2)] m(3) j ij(3) key [OF m(1)] key [of i] ai show "key ?t (parent ?j) \<le> key ?t m" by simp
  qed
  have start: "key ?t (parent a) \<le> key ?t a" if "0 < a"
  proof -
    have p: "parent a < a" using that by simp
    have "a = i \<Longrightarrow> key t (parent i) \<le> key t ?j" using G [OF j(1,3,4)] that by simp
    moreover have "key ?t (parent a) = key t (parent a)" using key [of "parent a"] p ai j by simp
    moreover have "key ?t a = key t (if a = i then ?j else a)" using key [of a] ai j by simp
    ultimately show ?thesis using D that by (cases "a = i") simp_all
  qed
  have "n \<le> length (tm_timers ?t)" using ai by (simp add: swap_timers [OF ij])
  with ord grand start ai j show ?thesis by (simp add: sinking_def)
qed

lemma sinking_end:
  assumes s: "sinking a i n t" and stop: "n \<le> 2 * i + 1 \<or> \<not> tm_less t (pick t i n) i"
  shows "ordered_at (\<lambda>m. m \<noteq> a) n t" "grand_ok a n t"
proof -
  have O: "key t (parent m) \<le> key t m" if "m < n" "0 < m" "m \<noteq> a" "parent m \<noteq> i" for m
    using s that by (auto simp: sinking_def ordered_at_def)
  have "key t i \<le> key t m" if m: "m < n" "0 < m" "parent m = i" for m
  proof -
    have "2 * i + 1 < n" using m by (auto simp: parent_children)
    with stop have "key t i \<le> key t (pick t i n)" by (auto simp: tm_less_key)
    with pick_least [OF m, of t] show ?thesis by simp
  qed
  with O show ord: "ordered_at (\<lambda>m. m \<noteq> a) n t" by (auto simp: ordered_at_def)
  show "grand_ok a n t"
  proof (cases "a = i")
    case True
    with s show ?thesis by (simp add: sinking_def)
  next
    case False
    have "key t (parent a) \<le> key t m" if "m < n" "0 < m" "parent m = a" "0 < a" for m
    proof -
      have "m \<noteq> a" using that parent_less [of m] by auto
      with ordered_atD [OF ord that(1,2)] that(3) have "key t a \<le> key t m" by simp
      with s False that(4) show ?thesis by (auto simp: sinking_def)
    qed
    then show ?thesis by (simp add: grand_ok_def)
  qed
qed

lemma tm_down_heap:
  "sinking a i n t \<Longrightarrow> ordered_at (\<lambda>m. m \<noteq> a) n (tm_down i n t) \<and> grand_ok a n (tm_down i n t)"
proof (induction "n - i" arbitrary: i t rule: less_induct)
  case less
  show ?case
  proof (cases "n \<le> 2 * i + 1 \<or> \<not> tm_less t (pick t i n) i")
    case True
    with sinking_end [OF less.prems] show ?thesis by (subst (1 2) tm_down_unfold) simp
  next
    case False
    then have go: "2 * i + 1 < n" "tm_less t (pick t i n) i" by auto
    have "n - pick t i n < n - i" using pick_child [OF go(1), of t] by simp
    from less.hyps [OF this sinking_step [OF less.prems go]] False
    show ?thesis by (subst (1 2) tm_down_unfold) simp
  qed
qed

section \<open>The invariant\<close>

text \<open>The objects \<open>U\<close> are out, among them all that are in the heap; the others are on the free list.\<close>

definition tm_owns :: "'f timer \<Rightarrow> ref set \<Rightarrow> bool" where
  "tm_owns t U \<longleftrightarrow> 0 < tm_num t \<and> heap (length (tm_timers t)) t \<and> placed_ok t \<and> distinct (tm_timers t)
     \<and> set (tm_timers t) \<subseteq> U
     \<and> (\<exists>fs. chain (\<lambda>x. td_next (tm_data t x)) (tm_free t) fs \<and> distinct fs
          \<and> set fs \<inter> U = {} \<and> set fs \<union> U \<subseteq> {..<tm_fresh t})"

text \<open>The signal does not come after the earliest expiry.\<close>

definition armed :: "'f timer \<Rightarrow> bool" where
  "armed t \<longleftrightarrow> (\<forall>x \<in> set (tm_timers t). tm_wake t \<le> td_expire (tm_data t x))"

lemma heap_head_least:
  assumes "heap (length (tm_timers t)) t" "x \<in> set (tm_timers t)"
  shows "td_expire (tm_data t (tm_timers t ! 0)) \<le> td_expire (tm_data t x)"
proof -
  obtain k where "k < length (tm_timers t)" "x = tm_timers t ! k" using assms(2) by (auto simp: in_set_conv_nth)
  with heap_root [OF assms(1)] show ?thesis by (auto simp: key_def)
qed

lemma heap_cong:
  assumes "length (tm_timers t') = length (tm_timers t)"
    and "\<And>k. k < n \<Longrightarrow> key t' k = key t k"
  shows "ordered_at P n t' = ordered_at P n t"
proof -
  have "key t' (parent m) = key t (parent m)" if "m < n" "0 < m" for m
    using assms(2) less_trans [OF parent_less [OF that(2)] that(1)] by blast
  with assms(2) show ?thesis by (simp add: ordered_at_def)
qed

text \<open>Adding an object that is out and not in the heap.\<close>

lemma tm_add_spec:
  assumes "tm_owns t U" "x \<in> U" "x \<notin> set (tm_timers t)"
    and "- (2 ^ 63) \<le> td_expire (tm_data t x) - now" "td_expire (tm_data t x) - now < 2 ^ 63"
  shows "tm_owns (tm_add now x t) U"
    "set (tm_timers (tm_add now x t)) = insert x (set (tm_timers t))"
    "\<And>y. td_expire (tm_data (tm_add now x t) y) = td_expire (tm_data t y)"
    "\<And>y. td_fn (tm_data (tm_add now x t) y) = td_fn (tm_data t y)"
    "armed t \<Longrightarrow> armed (tm_add now x t)"
proof -
  let ?k = "length (tm_timers t)"
  let ?t1 = "upd_td x (td_index_update (\<lambda>_. int ?k)) t"
  let ?t2 = "?t1\<lparr>tm_timers := tm_timers ?t1 @ [x]\<rparr>"
  let ?t3 = "tm_up ?k ?t2"
  have H: "heap ?k t" "placed_ok t" "distinct (tm_timers t)" using assms(1) by (auto simp: tm_owns_def)
  have key: "key ?t2 m = key t m" if "m < ?k" for m
    using that assms(3) nth_mem [OF that] by (auto simp: key_def nth_append)
  have par: "parent m < ?k" if "m < Suc ?k" "0 < m" for m
    using parent_less [OF that(2)] that(1) by linarith
  have ord: "ordered_at (\<lambda>m. m \<noteq> ?k) (Suc ?k) ?t2"
    unfolding ordered_at_def
  proof (intro allI impI)
    fix m assume m: "m < Suc ?k" "0 < m" "m \<noteq> ?k"
    with par [OF m(1,2)] key [of m] key [of "parent m"] ordered_atD [OF H(1), of m]
    show "key ?t2 (parent m) \<le> key ?t2 m" by simp
  qed
  have grand: "grand_ok ?k (Suc ?k) ?t2"
    unfolding grand_ok_def using par less_irrefl by metis
  have heap3: "heap (Suc ?k) ?t3" by (rule tm_up_heap [OF ord grand]) simp_all
  have sift: "sifted ?t2 ?t3" using tm_up_sifted [of ?k ?t2] by simp
  then have same: "same_timers ?t2 ?t3" by (simp add: sifted_def)
  note S = same_timersD [OF same]
  have "placed_ok ?t2"
    using H(2) assms(3) by (auto simp: placed_ok_def nth_append less_Suc_eq dest: nth_mem)
  moreover have d2: "distinct (tm_timers ?t2)" using H(3) assms(3) by simp
  ultimately have pl3: "placed_ok ?t3" using sift by (simp add: sifted_def)
  have d3: "distinct (tm_timers ?t3)" by (rule same_distinct [OF same d2])
  have len3: "length (tm_timers ?t3) = Suc ?k" using S(1) by simp
  have heap3': "heap (length (tm_timers ?t3)) ?t3" using heap3 len3 by simp
  have S3: "td_expire (tm_data ?t3 y) = td_expire (tm_data t y)" for y using S(3) [of y] by simp
  obtain w where w: "tm_add now x t = ?t3\<lparr>tm_wake := w\<rparr>"
    "w = (if td_index (tm_data ?t3 x) = 0 then td_expire (tm_data t x) else tm_wake t)"
    using assms(4,5) S(3) [of x] S(10)
    by (auto simp: tm_add_def Let_def td_Delay_def clamp_duration_def)
  have sets: "set (tm_timers ?t3) = insert x (set (tm_timers t))" using S(2) by simp
  show "set (tm_timers (tm_add now x t)) = insert x (set (tm_timers t))"
    using w(1) sets by simp
  show ex: "td_expire (tm_data (tm_add now x t) y) = td_expire (tm_data t y)" for y
    using w(1) S(3) [of y] by simp
  show "td_fn (tm_data (tm_add now x t) y) = td_fn (tm_data t y)" for y
    using w(1) S(4) [of y] by simp
  obtain fs where fs: "chain (\<lambda>y. td_next (tm_data t y)) (tm_free t) fs" "distinct fs" "set fs \<inter> U = {}"
    "set fs \<union> U \<subseteq> {..<tm_fresh t}" "set (tm_timers t) \<subseteq> U" "0 < tm_num t"
    using assms(1) by (auto simp: tm_owns_def)
  have "td_next (tm_data ?t3 y) = td_next (tm_data t y)" for y using S(5) [of y] by simp
  then have "chain (\<lambda>y. td_next (tm_data (tm_add now x t) y)) (tm_free (tm_add now x t)) fs"
    using fs(1) w(1) S(8) by simp
  moreover have "heap (Suc ?k) (tm_add now x t)"
    using heap3 w(1) by (simp add: ordered_at_def key_def)
  moreover have "placed_ok (tm_add now x t)" using pl3 w(1) by (simp add: placed_ok_def)
  ultimately show "tm_owns (tm_add now x t) U"
    using w(1) d3 len3 sets fs assms(2) S(9,11) by (auto simp: tm_owns_def)
  show "armed (tm_add now x t)" if "armed t"
    unfolding armed_def
  proof
    fix y assume "y \<in> set (tm_timers (tm_add now x t))"
    then have y: "y \<in> set (tm_timers ?t3)" using w(1) by simp
    have head: "td_expire (tm_data t (tm_timers ?t3 ! 0)) \<le> td_expire (tm_data t z)" if "z \<in> set (tm_timers ?t3)" for z
      using heap_head_least [OF heap3' that] by (simp only: S3)
    show "tm_wake (tm_add now x t) \<le> td_expire (tm_data (tm_add now x t) y)"
    proof (cases "td_index (tm_data ?t3 x) = 0")
      case True
      obtain k where k: "k < Suc ?k" "tm_timers ?t3 ! k = x"
        using sets len3 by (metis in_set_conv_nth insertI1)
      with pl3 len3 True have "tm_timers ?t3 ! 0 = x" by (auto simp: placed_ok_def)
      with head [OF y] w True ex [of y] show ?thesis by simp
    next
      case False
      then have "tm_wake (tm_add now x t) = tm_wake t" using w by simp
      moreover have "tm_timers ?t3 ! 0 \<noteq> x"
        using False pl3 len3 by (auto simp: placed_ok_def)
      then have "tm_timers ?t3 ! 0 \<in> set (tm_timers t)"
        using sets len3 nth_mem [of 0 "tm_timers ?t3"] by auto
      then have "tm_wake t \<le> td_expire (tm_data t (tm_timers ?t3 ! 0))"
        using that by (simp add: armed_def)
      ultimately show ?thesis using head [OF y] ex [of y] by simp
    qed
  qed
qed

text \<open>The heap part of a removal: the last position is cut off after \<open>x\<close> has been brought there.\<close>

definition removed_last :: "ref \<Rightarrow> 'f timer \<Rightarrow> 'f timer \<Rightarrow> bool" where
  "removed_last x t t1 \<longleftrightarrow> sifted t t1 \<and> heap (length (tm_timers t) - 1) t1
     \<and> tm_timers t1 ! (length (tm_timers t) - 1) = x"

lemma tm_del_absent: "x \<notin> set (tm_timers t) \<Longrightarrow> tm_del x t = t"
proof -
  assume x: "x \<notin> set (tm_timers t)"
  have "tm_timers t ! nat i \<noteq> x" if "\<not> i < 0" "\<not> int (length (tm_timers t)) - 1 < i" for i
    using x that nth_mem [of "nat i" "tm_timers t"] by auto
  then have "td_index (tm_data t x) < 0 \<or> td_index (tm_data t x) > int (length (tm_timers t)) - 1
      \<or> tm_timers t ! nat (td_index (tm_data t x)) \<noteq> x" by blast
  then show "tm_del x t = t" unfolding tm_del_def Let_def by (rule if_P)
qed

lemma tm_del_sift:
  assumes "heap (length (tm_timers t)) t" "i < length (tm_timers t) - 1"
  shows "removed_last (tm_timers t ! i) t
    (tm_up i (tm_down i (length (tm_timers t) - 1) (tm_swap i (length (tm_timers t) - 1) t)))"
proof -
  let ?n = "length (tm_timers t) - 1"
  let ?t1 = "tm_swap i ?n t" let ?t2 = "tm_down i ?n ?t1" let ?t3 = "tm_up i ?t2"
  have ij: "i < length (tm_timers t)" "?n < length (tm_timers t)" "i \<noteq> ?n" using assms(2) by auto
  have s1: "sifted t ?t1" by (rule sifted_swap [OF ij])
  have l1: "length (tm_timers ?t1) = Suc ?n" using sifted_length [OF s1] ij by simp
  have key: "key ?t1 m = key t (if m = i then ?n else m)" if "m < ?n" for m
    using swap_key [OF ij, of m] that by simp
  have par: "parent m < ?n" if "m < ?n" "0 < m" for m
    using parent_less [OF that(2)] that(1) by (rule less_trans)
  note O = ordered_atD [OF assms(1) _ _ TrueI]
  have ord: "ordered_at (\<lambda>m. m \<noteq> i \<and> parent m \<noteq> i) ?n ?t1"
    using key par O by (auto simp: ordered_at_def)
  have grand: "grand_ok i ?n ?t1"
    unfolding grand_ok_def
  proof (intro allI impI)
    fix m assume m: "m < ?n" "0 < m" "parent m = i" "0 < i"
    have "m \<noteq> i" using m(2,3) parent_less [of m] by auto
    moreover have "key t (parent i) \<le> key t i" "key t i \<le> key t m"
      using O [of i] O [of m] m assms(2) by simp_all
    moreover have "parent i < i" using m(4) by simp
    ultimately show "key ?t1 (parent i) \<le> key ?t1 m"
      using key [OF m(1)] key [of "parent i"] assms(2) by simp
  qed
  have sink: "sinking i i ?n ?t1" using ord grand assms(2) l1 by (simp add: sinking_def)
  have down: "sifted ?t1 ?t2" "tm_timers ?t2 ! ?n = tm_timers ?t1 ! ?n"
    using tm_down_sifted [of ?n ?t1 i] assms(2) l1 by auto
  have l2: "length (tm_timers ?t2) = Suc ?n" using sifted_length [OF down(1)] l1 by simp
  have up: "sifted ?t2 ?t3" "tm_timers ?t3 ! ?n = tm_timers ?t2 ! ?n"
    using tm_up_sifted [of i ?t2] assms(2) l2 by auto
  have "heap ?n ?t3"
    by (rule tm_up_heap) (use tm_down_heap [OF sink] assms(2) l2 in auto)
  moreover have "tm_timers ?t1 ! ?n = tm_timers t ! i" using swap_nth [OF ij, of ?n] ij by simp
  moreover have "sifted t ?t3" by (rule sifted_trans [OF s1 sifted_trans [OF down(1) up(1)]])
  ultimately show ?thesis using down up by (simp add: removed_last_def)
qed

lemma tm_del_present:
  assumes "tm_owns t U" "x \<in> set (tm_timers t)"
  shows "\<exists>t1. removed_last x t t1 \<and> tm_del x t =
    (upd_td x (td_index_update (\<lambda>_. - 1)) t1)\<lparr>tm_timers := take (length (tm_timers t) - 1) (tm_timers t1)\<rparr>"
proof -
  let ?n = "length (tm_timers t) - 1"
  have H: "heap (length (tm_timers t)) t" "placed_ok t" using assms(1) by (auto simp: tm_owns_def)
  obtain i where i: "i < length (tm_timers t)" "tm_timers t ! i = x" using assms(2) by (auto simp: in_set_conv_nth)
  have idx: "td_index (tm_data t x) = int i" using H(2) i by (auto simp: placed_ok_def)
  have n: "int (length (tm_timers t)) - 1 = int ?n" using i by simp
  let ?t1 = "if i \<noteq> ?n then tm_up i (tm_down i ?n (tm_swap i ?n t)) else t"
  have r: "removed_last x t ?t1"
  proof (cases "i = ?n")
    case True
    have "heap ?n t" using H(1) by (auto simp: ordered_at_def)
    with True i show ?thesis by (simp add: removed_last_def sifted_refl)
  next
    case False
    with i have "i < ?n" by simp
    from tm_del_sift [OF H(1) this] False i(2) show ?thesis by simp
  qed
  have "tm_del x t = (upd_td (tm_timers ?t1 ! ?n) (td_index_update (\<lambda>_. - 1)) ?t1)
      \<lparr>tm_timers := take ?n (tm_timers (upd_td (tm_timers ?t1 ! ?n) (td_index_update (\<lambda>_. - 1)) ?t1))\<rparr>"
  proof -
    have "\<not> (int i < 0 \<or> int i > int ?n \<or> tm_timers t ! nat (int i) \<noteq> x)" using i by simp
    then show ?thesis unfolding tm_del_def idx n Let_def by (simp only: if_False nat_int of_nat_eq_iff)
  qed
  moreover have "tm_timers ?t1 ! ?n = x" using r by (simp add: removed_last_def)
  ultimately show ?thesis using r by (intro exI [of _ ?t1]) simp
qed

lemma tm_del_spec:
  assumes "tm_owns t U" "x \<in> U"
  shows "tm_owns (tm_del x t) U"
    "set (tm_timers (tm_del x t)) = set (tm_timers t) - {x}"
    "\<And>y. td_expire (tm_data (tm_del x t) y) = td_expire (tm_data t y)"
    "\<And>y. td_fn (tm_data (tm_del x t) y) = td_fn (tm_data t y)"
    "armed t \<Longrightarrow> armed (tm_del x t)"
    "x \<in> set (tm_timers t) \<Longrightarrow> Suc (length (tm_timers (tm_del x t))) = length (tm_timers t)"
proof -
  have "tm_owns (tm_del x t) U \<and> set (tm_timers (tm_del x t)) = set (tm_timers t) - {x}
    \<and> (\<forall>y. td_expire (tm_data (tm_del x t) y) = td_expire (tm_data t y)
        \<and> td_fn (tm_data (tm_del x t) y) = td_fn (tm_data t y))
    \<and> tm_wake (tm_del x t) = tm_wake t
    \<and> (x \<in> set (tm_timers t) \<longrightarrow> Suc (length (tm_timers (tm_del x t))) = length (tm_timers t))"
  proof (cases "x \<in> set (tm_timers t)")
    case False
    with assms show ?thesis by (simp add: tm_del_absent)
  next
    case True
    let ?n = "length (tm_timers t) - 1"
    obtain t1 where r: "removed_last x t t1" and del: "tm_del x t =
        (upd_td x (td_index_update (\<lambda>_. - 1)) t1)\<lparr>tm_timers := take ?n (tm_timers t1)\<rparr>"
      using tm_del_present [OF assms(1) True] by blast
    have O: "distinct (tm_timers t)" "placed_ok t" "set (tm_timers t) \<subseteq> U" "0 < tm_num t"
      using assms(1) by (auto simp: tm_owns_def)
    obtain fs where fs: "chain (\<lambda>y. td_next (tm_data t y)) (tm_free t) fs" "distinct fs" "set fs \<inter> U = {}"
      "set fs \<union> U \<subseteq> {..<tm_fresh t}"
      using assms(1) by (auto simp: tm_owns_def)
    have same: "same_timers t t1" and pl: "placed_ok t1" and hp: "heap ?n t1" and lst: "tm_timers t1 ! ?n = x"
      using r O by (auto simp: removed_last_def sifted_def)
    note S = same_timersD [OF same]
    have d: "distinct (tm_timers t1)" by (rule same_distinct [OF same O(1)])
    have len: "length (tm_timers t1) = Suc ?n" using S(1) True by (cases "tm_timers t") auto
    have split: "tm_timers t1 = take ?n (tm_timers t1) @ [x]"
      using take_Suc_conv_app_nth [of ?n "tm_timers t1"] len lst by simp
    have notin: "x \<notin> set (take ?n (tm_timers t1))"
      using d by (subst (asm) split) simp
    have sets: "set (take ?n (tm_timers t1)) = set (tm_timers t) - {x}"
      using S(2) notin by (subst (asm) split) auto
    have nth: "tm_timers t1 ! k \<noteq> x" if "k < ?n" for k
      using notin that len by (metis in_set_conv_nth length_take lessI less_imp_le min.absorb2 nth_take)
    have key: "key (tm_del x t) k = key t1 k" if "k < ?n" for k
      using that by (simp add: key_def del)
    have par: "parent m < ?n" if "m < ?n" "0 < m" for m
      using parent_less [OF that(2)] that(1) by (rule less_trans)
    have hp': "heap ?n (tm_del x t)" using hp key par by (simp add: ordered_at_def)
    have pl': "placed_ok (tm_del x t)"
      using pl nth len by (auto simp: placed_ok_def del)
    have len': "length (tm_timers (tm_del x t)) = ?n" using len by (simp add: del)
    have ex: "td_expire (tm_data (tm_del x t) y) = td_expire (tm_data t y)"
      "td_fn (tm_data (tm_del x t) y) = td_fn (tm_data t y)"
      "td_next (tm_data (tm_del x t) y) = td_next (tm_data t y)" for y
      using S(3,4,5) [of y] by (auto simp: del)
    have "chain (\<lambda>y. td_next (tm_data (tm_del x t) y)) (tm_free (tm_del x t)) fs"
      using fs(1) S(8) unfolding ex by (simp add: del)
    moreover have "distinct (tm_timers (tm_del x t))" using d by (simp add: del)
    moreover have "set (tm_timers (tm_del x t)) = set (tm_timers t) - {x}" using sets by (simp add: del)
    moreover have "tm_num (tm_del x t) = tm_num t" "tm_fresh (tm_del x t) = tm_fresh t"
      "tm_wake (tm_del x t) = tm_wake t"
      using S(9,10,11) by (simp_all add: del)
    moreover have "Suc ?n = length (tm_timers t)" using len S(1) by simp
    ultimately show ?thesis
      using hp' pl' len' ex fs O unfolding tm_owns_def by auto
  qed
  then show "tm_owns (tm_del x t) U" "set (tm_timers (tm_del x t)) = set (tm_timers t) - {x}"
    "\<And>y. td_expire (tm_data (tm_del x t) y) = td_expire (tm_data t y)"
    "\<And>y. td_fn (tm_data (tm_del x t) y) = td_fn (tm_data t y)"
    "x \<in> set (tm_timers t) \<Longrightarrow> Suc (length (tm_timers (tm_del x t))) = length (tm_timers t)"
    "armed t \<Longrightarrow> armed (tm_del x t)"
    by (auto simp: armed_def)
qed

section \<open>The free objects\<close>

lemma tm_owns_change:
  assumes "tm_owns t U" "tm_timers t' = tm_timers t" "tm_num t' = tm_num t" "tm_fresh t \<le> tm_fresh t'"
    and "\<And>y. y \<in> set (tm_timers t) \<Longrightarrow> td_expire (tm_data t' y) = td_expire (tm_data t y)
      \<and> td_index (tm_data t' y) = td_index (tm_data t y)"
    and "chain (\<lambda>y. td_next (tm_data t' y)) (tm_free t') fs" "distinct fs" "set fs \<inter> V = {}"
    and "set fs \<subseteq> {..<tm_fresh t'}" "V \<subseteq> {..<tm_fresh t'}" "set (tm_timers t) \<subseteq> V"
  shows "tm_owns t' V"
proof -
  have "heap (length (tm_timers t)) t'"
  proof -
    have "heap (length (tm_timers t)) t" using assms(1) by (simp add: tm_owns_def)
    moreover have "key t' k = key t k" if "k < length (tm_timers t)" for k
      using assms(2,5) nth_mem [OF that] by (simp add: key_def)
    ultimately show ?thesis using heap_cong [of t' t "length (tm_timers t)"] assms(2) by simp
  qed
  moreover have "placed_ok t'"
    using assms(1,2,5) by (simp add: tm_owns_def placed_ok_def)
  ultimately show ?thesis using assms by (auto simp: tm_owns_def)
qed

lemma tm_grow_spec:
  assumes "tm_owns t U" "tm_free t = None"
  shows "\<exists>t'. tm_grow t = Ret t' \<and> tm_owns t' U \<and> tm_free t' = Some (tm_fresh t)
    \<and> tm_timers t' = tm_timers t \<and> tm_wake t' = tm_wake t
    \<and> (\<forall>x < tm_fresh t. tm_data t' x = tm_data t x)"
proof -
  let ?b = "tm_fresh t" and ?n = "nat (tm_num t)"
  have n: "0 < ?n" "0 < tm_num t" using assms(1) by (auto simp: tm_owns_def)
  let ?data = "\<lambda>x. if ?b \<le> x \<and> x < ?b + ?n
      then zero_td\<lparr>td_next := if x - ?b = ?n - 1 then None else Some (x + 1)\<rparr> else tm_data t x"
  let ?st0 = "\<lambda>x. if ?b \<le> x \<and> x < ?b + ?n then zero_td else tm_data t x"
  let ?f = "\<lambda>i. zero_td\<lparr>td_next := Some (?b + i)\<rparr>"
  let ?t = "t\<lparr>tm_free := Some ?b, tm_data := ?data, tm_fresh := ?b + ?n\<rparr>"
  have "(foldl (\<lambda>st i. st(?b + i - 1 := ?f i)) ?st0 [1..<?n])(?b + ?n - 1 := zero_td\<lparr>td_next := None\<rparr>) = ?data"
    (is "?l = _")
  proof
    fix x
    consider "x < ?b \<or> ?b + ?n \<le> x" | "x = ?b + ?n - 1" | "?b \<le> x" "x < ?b + (?n - 1)" by linarith
    then show "?l x = ?data x"
      unfolding foldl_fun_upd_block by cases (use n in auto)
  qed
  then have run: "tm_grow t = Ret ?t" using n by (simp add: tm_grow_def Let_def)
  have U: "U \<subseteq> {..<?b}" "set (tm_timers t) \<subseteq> U" using assms(1) by (auto simp: tm_owns_def)
  have "tm_owns ?t U"
  proof (rule tm_owns_change [OF assms(1)])
    show "chain (\<lambda>y. td_next (tm_data ?t y)) (tm_free ?t) [?b..<?b + ?n]"
      by (simp, rule chain_block) (use n in auto)
  qed (use U n in auto)
  with run show ?thesis by (intro exI [of _ ?t]) simp
qed

lemma tm_get_spec:
  assumes "tm_owns t U"
  shows "\<exists>x t'. tm_get t = Ret (x, t') \<and> x \<notin> U \<and> tm_owns t' (insert x U)
    \<and> tm_timers t' = tm_timers t \<and> tm_wake t' = tm_wake t
    \<and> (\<forall>y \<in> set (tm_timers t). tm_data t' y = tm_data t y)"
proof -
  obtain t1 x where t1: "tm_get t = Ret (x, t1\<lparr>tm_free := td_next (tm_data t1 x)\<rparr>)" "tm_owns t1 U"
    "tm_free t1 = Some x" "tm_timers t1 = tm_timers t" "tm_wake t1 = tm_wake t"
    "\<forall>y \<in> set (tm_timers t). tm_data t1 y = tm_data t y"
  proof (cases "tm_free t")
    case None
    obtain t' where t': "tm_grow t = Ret t'" "tm_owns t' U" "tm_free t' = Some (tm_fresh t)"
      "tm_timers t' = tm_timers t" "tm_wake t' = tm_wake t" "\<forall>x < tm_fresh t. tm_data t' x = tm_data t x"
      using tm_grow_spec [OF assms None] by blast
    have "set (tm_timers t) \<subseteq> {..<tm_fresh t}" using assms by (auto simp: tm_owns_def)
    with t'(6) have "\<forall>y \<in> set (tm_timers t). tm_data t' y = tm_data t y" by auto
    with t' show thesis by (intro that [of "tm_fresh t" t']) (simp_all add: tm_get_def None)
  next
    case (Some x)
    with assms show thesis by (intro that [of x t]) (simp_all add: tm_get_def)
  qed
  let ?t = "t1\<lparr>tm_free := td_next (tm_data t1 x)\<rparr>"
  obtain fs where fs: "chain (\<lambda>y. td_next (tm_data t1 y)) (tm_free t1) fs" "distinct fs" "set fs \<inter> U = {}"
    "set fs \<union> U \<subseteq> {..<tm_fresh t1}" "set (tm_timers t1) \<subseteq> U"
    using t1(2) by (auto simp: tm_owns_def)
  then obtain ys where ys: "fs = x # ys" "chain (\<lambda>y. td_next (tm_data t1 y)) (td_next (tm_data t1 x)) ys"
    using t1(3) by (auto simp: chain_Some)
  have "tm_owns ?t (insert x U)"
    by (rule tm_owns_change [OF t1(2), where fs = ys]) (use fs ys in auto)
  moreover have "x \<notin> U" using fs(3) ys(1) by auto
  ultimately show ?thesis using t1 by simp
qed

lemma tm_put_spec:
  assumes "tm_owns t U" "x \<in> U" "x \<notin> set (tm_timers t)"
  shows "tm_owns (tm_put x t) (U - {x})"
proof -
  obtain fs where fs: "chain (\<lambda>y. td_next (tm_data t y)) (tm_free t) fs" "distinct fs" "set fs \<inter> U = {}"
    "set fs \<union> U \<subseteq> {..<tm_fresh t}" "set (tm_timers t) \<subseteq> U"
    using assms(1) by (auto simp: tm_owns_def)
  have x: "x \<notin> set fs" using fs(3) assms(2) by auto
  have "chain (\<lambda>y. td_next (tm_data (tm_put x t) y)) (tm_free t) fs"
    using fs(1) by (subst chain_frame [where nxt = "\<lambda>y. td_next (tm_data t y)"]) (use x in \<open>auto simp: tm_put_def\<close>)
  then have c: "chain (\<lambda>y. td_next (tm_data (tm_put x t) y)) (tm_free (tm_put x t)) (x # fs)"
    by (simp add: tm_put_def)
  show ?thesis
    by (rule tm_owns_change [OF assms(1) _ _ _ _ c]) (use fs x assms in \<open>auto simp: tm_put_def\<close>)
qed

section \<open>The operations of the interface\<close>

lemma tm_Add_spec:
  assumes "tm_owns t U"
  shows "\<exists>x t'. tm_Add now d fn t = Ret (x, t') \<and> x \<notin> U \<and> tm_owns t' (insert x U)
    \<and> set (tm_timers t') = insert x (set (tm_timers t))
    \<and> td_expire (tm_data t' x) = now + sint d \<and> td_fn (tm_data t' x) = Some fn
    \<and> (\<forall>y \<in> set (tm_timers t). td_expire (tm_data t' y) = td_expire (tm_data t y)
         \<and> td_fn (tm_data t' y) = td_fn (tm_data t y))
    \<and> (armed t \<longrightarrow> armed t')"
proof -
  obtain x t1 where g: "tm_get t = Ret (x, t1)" "x \<notin> U" "tm_owns t1 (insert x U)" "tm_timers t1 = tm_timers t"
    "tm_wake t1 = tm_wake t" "\<forall>y \<in> set (tm_timers t). tm_data t1 y = tm_data t y"
    using tm_get_spec [OF assms] by blast
  let ?t2 = "upd_td x (\<lambda>td. td\<lparr>td_expire := now + sint d, td_fn := Some fn\<rparr>) t1"
  have sub: "set (tm_timers t) \<subseteq> U" using assms by (simp add: tm_owns_def)
  with g(2) have x: "x \<notin> set (tm_timers t)" by auto
  obtain fs where fs: "chain (\<lambda>y. td_next (tm_data t1 y)) (tm_free t1) fs" "distinct fs"
    "set fs \<inter> insert x U = {}" "set fs \<union> insert x U \<subseteq> {..<tm_fresh t1}"
    using g(3) by (auto simp: tm_owns_def)
  have c: "chain (\<lambda>y. td_next (tm_data ?t2 y)) (tm_free ?t2) fs"
    using fs(1) by (subst chain_frame [where nxt = "\<lambda>y. td_next (tm_data t1 y)"]) auto
  have o2: "tm_owns ?t2 (insert x U)"
    by (rule tm_owns_change [OF g(3) _ _ _ _ c]) (use fs x g(4) sub in auto)
  have "- (2 ^ 63) \<le> sint d" "sint d < 2 ^ 63" using sint_ge [of d] sint_lt [of d] by simp_all
  then have rng: "- (2 ^ 63) \<le> td_expire (tm_data ?t2 x) - now" "td_expire (tm_data ?t2 x) - now < 2 ^ 63"
    by simp_all
  have x2: "x \<notin> set (tm_timers ?t2)" using x g(4) by simp
  note A = tm_add_spec [OF o2 insertI1 x2 rng]
  have "armed ?t2" if "armed t" using that x g(4,5,6) by (auto simp: armed_def)
  with g x A show ?thesis by (auto simp: tm_Add_def)
qed

lemma tm_Del_spec:
  assumes "tm_owns t U" "x \<in> U"
  shows "tm_owns (tm_Del x t) (U - {x})" "set (tm_timers (tm_Del x t)) = set (tm_timers t) - {x}"
    "\<And>y. td_expire (tm_data (tm_Del x t) y) = td_expire (tm_data t y)"
    "\<And>y. y \<noteq> x \<Longrightarrow> td_fn (tm_data (tm_Del x t) y) = td_fn (tm_data t y)"
    "armed t \<Longrightarrow> armed (tm_Del x t)"
proof -
  note D = tm_del_spec [OF assms]
  have x: "x \<notin> set (tm_timers (tm_del x t))" using D(2) by simp
  show "tm_owns (tm_Del x t) (U - {x})" unfolding tm_Del_def by (rule tm_put_spec [OF D(1) assms(2) x])
  show set1: "set (tm_timers (tm_Del x t)) = set (tm_timers t) - {x}"
    using D(2) by (simp add: tm_Del_def tm_put_def)
  show ex: "td_expire (tm_data (tm_Del x t) y) = td_expire (tm_data t y)" for y
    using D(3) by (simp add: tm_Del_def tm_put_def)
  show "td_fn (tm_data (tm_Del x t) y) = td_fn (tm_data t y)" if "y \<noteq> x" for y
    using D(4) that by (simp add: tm_Del_def tm_put_def)
  show "armed (tm_Del x t)" if "armed t"
    using D(5) [OF that] x D(2) by (auto simp: armed_def tm_Del_def tm_put_def)
qed

interpretation timer_pool: object_pool "tm_Add now d fn" tm_Del tm_owns for now d fn
proof unfold_locales
  show "\<exists>x t'. tm_Add now d fn t = Ret (x, t') \<and> x \<notin> U \<and> tm_owns t' (insert x U)"
    if "tm_owns t U" for t U
    using tm_Add_spec [OF that] by blast
qed (rule tm_Del_spec)

section \<open>Expiry\<close>

definition due :: "int \<Rightarrow> 'f timer \<Rightarrow> ref set" where
  "due now t = {x \<in> set (tm_timers t). td_expire (tm_data t x) \<le> now}"

text \<open>The states of the loop of \<open>expire\<close> that started from \<open>t\<close>.\<close>

definition expiring :: "int \<Rightarrow> ref set \<Rightarrow> 'f timer \<Rightarrow> ref list \<times> 'f timer \<Rightarrow> bool" where
  "expiring now U t = (\<lambda>(fired, s). tm_owns s U \<and> (\<forall>y. td_expire (tm_data s y) = td_expire (tm_data t y))
     \<and> set (tm_timers s) \<inter> set fired = {} \<and> set (tm_timers s) \<union> set fired = set (tm_timers t)
     \<and> distinct fired \<and> sorted (map (\<lambda>y. td_expire (tm_data t y)) fired)
     \<and> (\<forall>x \<in> set fired. td_expire (tm_data t x) \<le> now)
     \<and> (\<forall>x \<in> set fired. \<forall>y \<in> set (tm_timers s). td_expire (tm_data t x) \<le> td_expire (tm_data t y)))"

lemma td_Delay_le_0: "td_Delay now td \<le> 0 \<longleftrightarrow> td_expire td \<le> now"
  by (auto simp: td_Delay_def clamp_duration_def)

lemma td_Delay_pos: "0 < td_Delay now td \<Longrightarrow> now + td_Delay now td \<le> td_expire td"
  by (auto simp: td_Delay_def clamp_duration_def)

lemma expire_step_expiring:
  assumes inv: "expiring now U t (fired, s)" and quiet: "\<And>f r. call f r = Ret r"
    and ne: "tm_timers s \<noteq> []" and head: "td_expire (tm_data s (tm_timers s ! 0)) \<le> now"
  shows "\<exists>s'. tm_expire_step call (fired, s) = Ret (fired @ [tm_timers s ! 0], s')
    \<and> expiring now U t (fired @ [tm_timers s ! 0], s') \<and> length (tm_timers s') < length (tm_timers s)"
proof -
  let ?x = "tm_timers s ! 0" and ?s = "tm_del (tm_timers s ! 0) s"
  have o: "tm_owns s U" and ex: "\<And>y. td_expire (tm_data s y) = td_expire (tm_data t y)"
    using inv by (auto simp: expiring_def)
  have x: "?x \<in> set (tm_timers s)" using ne by simp
  then have xU: "?x \<in> U" using o by (auto simp: tm_owns_def)
  note D = tm_del_spec [OF o xU]
  have least: "td_expire (tm_data t ?x) \<le> td_expire (tm_data t y)" if "y \<in> set (tm_timers s)" for y
    using heap_head_least [OF _ that] o ex by (simp add: tm_owns_def)
  have run: "tm_expire_step call (fired, s) = Ret (fired @ [?x], ?s)"
    by (simp add: tm_expire_step_def Let_def quiet split: option.split)
  have "expiring now U t (fired @ [?x], ?s)"
    using inv x least head ex D(1,2,3) by (auto simp: expiring_def sorted_append)
  moreover have "length (tm_timers ?s) < length (tm_timers s)" using D(6) [OF x] by simp
  ultimately show ?thesis using run by blast
qed

section \<open>Properties\<close>

text \<open>A timer with room for four, and the same with three entries, for the examples.\<close>

definition demo_timer :: "nat timer" where
  "demo_timer = \<lparr>tm_free = None, tm_timers = [], tm_num = 4, tm_wake = 0, tm_data = (\<lambda>_. zero_td), tm_fresh = 0\<rparr>"

lemma demo_timer_owns: "tm_owns demo_timer {}" and demo_timer_armed: "armed demo_timer"
  by (auto simp: tm_owns_def demo_timer_def ordered_at_def placed_ok_def armed_def chain_None)

definition demo_busy :: "nat timer" where
  "demo_busy = \<lparr>tm_free = None, tm_timers = [2, 0, 1], tm_num = 4, tm_wake = 10,
     tm_data = (\<lambda>_. zero_td)
       (0 := zero_td\<lparr>td_expire := 30, td_fn := Some 7, td_index := 1\<rparr>,
        1 := zero_td\<lparr>td_expire := 20, td_fn := Some 8, td_index := 2\<rparr>,
        2 := zero_td\<lparr>td_expire := 10, td_fn := None, td_index := 0\<rparr>), tm_fresh = 3\<rparr>"

lemma demo_busy_owns: "tm_owns demo_busy {0, 1, 2}" and demo_busy_armed: "armed demo_busy"
proof -
  have three: "k < 3 \<longleftrightarrow> k = 0 \<or> k = 1 \<or> k = 2" for k :: nat by auto
  show "tm_owns demo_busy {0, 1, 2}"
    by (auto simp: tm_owns_def demo_busy_def ordered_at_def placed_ok_def chain_None key_def
        parent_def three zero_td_def nth_Cons')
  show "armed demo_busy" by (simp add: armed_def demo_busy_def)
qed



text \<open>Adding a timer hands out an object nobody holds, schedules it for its time with its
  callback, leaves the other timers as they were, and keeps the signal early enough for all.\<close>

theorem Add_schedules:
  assumes "tm_owns t U" "armed t"
  shows "\<exists>x t'. tm_Add now d fn t = Ret (x, t') \<and> x \<notin> U \<and> tm_owns t' (insert x U) \<and> armed t'
    \<and> set (tm_timers t') = insert x (set (tm_timers t))
    \<and> td_expire (tm_data t' x) = now + sint d \<and> td_fn (tm_data t' x) = Some fn
    \<and> (\<forall>y \<in> set (tm_timers t). td_expire (tm_data t' y) = td_expire (tm_data t y)
         \<and> td_fn (tm_data t' y) = td_fn (tm_data t y))"
  using tm_Add_spec [OF assms(1), of now d fn] assms(2) by blast

theorem Add_schedules_witness:
  "\<exists>x t'. tm_Add 100 5 7 demo_timer = Ret (x, t') \<and> x \<notin> {} \<and> tm_owns t' (insert x {}) \<and> armed t'
    \<and> set (tm_timers t') = insert x (set (tm_timers demo_timer))
    \<and> td_expire (tm_data t' x) = 100 + sint (5 :: i64) \<and> td_fn (tm_data t' x) = Some 7
    \<and> (\<forall>y \<in> set (tm_timers demo_timer). td_expire (tm_data t' y) = td_expire (tm_data demo_timer y)
         \<and> td_fn (tm_data t' y) = td_fn (tm_data demo_timer y))"
  by (rule Add_schedules [OF demo_timer_owns demo_timer_armed])

text \<open>Setting a timer the caller holds moves it, in the heap or not, to its new time and touches no
  other timer.\<close>

theorem Set_reschedules:
  assumes "tm_owns t U" "armed t" "x \<in> U"
  shows "tm_owns (tm_Set now x d t) U \<and> armed (tm_Set now x d t)
    \<and> set (tm_timers (tm_Set now x d t)) = insert x (set (tm_timers t))
    \<and> td_fn \<circ> tm_data (tm_Set now x d t) = td_fn \<circ> tm_data t
    \<and> td_expire \<circ> tm_data (tm_Set now x d t) = (td_expire \<circ> tm_data t)(x := now + sint d)"
proof -
  note D = tm_del_spec [OF assms(1,3)]
  let ?t1 = "tm_del x t" let ?t2 = "upd_td x (td_expire_update (\<lambda>_. now + sint d)) ?t1"
  have x: "x \<notin> set (tm_timers ?t1)" using D(2) by simp
  obtain fs where fs: "chain (\<lambda>y. td_next (tm_data ?t1 y)) (tm_free ?t1) fs" "distinct fs" "set fs \<inter> U = {}"
    "set fs \<union> U \<subseteq> {..<tm_fresh ?t1}" "set (tm_timers ?t1) \<subseteq> U"
    using D(1) by (auto simp: tm_owns_def)
  have c: "chain (\<lambda>y. td_next (tm_data ?t2 y)) (tm_free ?t2) fs"
    using fs(1) by (subst chain_frame [where nxt = "\<lambda>y. td_next (tm_data ?t1 y)"]) auto
  have o2: "tm_owns ?t2 U"
    by (rule tm_owns_change [OF D(1) _ _ _ _ c]) (use fs x in auto)
  have x2: "x \<notin> set (tm_timers ?t2)" using x by simp
  have "- (2 ^ 63) \<le> sint d" "sint d < 2 ^ 63" using sint_ge [of d] sint_lt [of d] by simp_all
  then have rng: "- (2 ^ 63) \<le> td_expire (tm_data ?t2 x) - now" "td_expire (tm_data ?t2 x) - now < 2 ^ 63"
    by simp_all
  note A = tm_add_spec [OF o2 assms(3) x2 rng]
  have a2: "armed ?t2" using D(5) [OF assms(2)] x by (auto simp: armed_def)
  have "set (tm_timers (tm_add now x ?t2)) = insert x (set (tm_timers t))" using A(2) D(2) by auto
  with A(1,3,4) A(5) [OF a2] D(3,4) show ?thesis by (simp add: tm_Set_def fun_eq_iff)
qed

theorem Set_reschedules_witness:
  "tm_owns (tm_Set 5 2 40 demo_busy) {0, 1, 2} \<and> armed (tm_Set 5 2 40 demo_busy)
    \<and> set (tm_timers (tm_Set 5 2 40 demo_busy)) = insert 2 (set (tm_timers demo_busy))
    \<and> td_fn \<circ> tm_data (tm_Set 5 2 40 demo_busy) = td_fn \<circ> tm_data demo_busy
    \<and> td_expire \<circ> tm_data (tm_Set 5 2 40 demo_busy) = (td_expire \<circ> tm_data demo_busy)(2 := 5 + sint (40 :: i64))"
  by (rule Set_reschedules [OF demo_busy_owns demo_busy_armed]) simp

end
