(* ===== verification/Int_Strings.thy ===== *)
theory Int_Strings
  imports Goim_Prelude
begin

text \<open>
  Lists of integers as text: \<open>pkg/strings/ints.go\<close>, with what it uses of Go's \<open>strconv\<close>
  (\<open>FormatInt\<close> and \<open>ParseInt\<close> in base 10) and \<open>strings.Split\<close>. A string is the list of its
  bytes; the splitting of a string by the empty separator is right for ASCII text.
\<close>

section \<open>Decimal numbers\<close>

definition digit :: "nat \<Rightarrow> char" where
  "digit d = char_of (48 + d)"

definition is_digit :: "char \<Rightarrow> bool" where
  "is_digit c \<longleftrightarrow> 48 \<le> (of_char c :: nat) \<and> (of_char c :: nat) \<le> 57"

definition digit_val :: "char \<Rightarrow> nat" where
  "digit_val c = of_char c - 48"

fun decimal :: "nat \<Rightarrow> string" where
  "decimal n = (if n < 10 then [digit n] else decimal (n div 10) @ [digit (n mod 10)])"

declare decimal.simps [simp del]

definition FormatInt :: "int \<Rightarrow> string" where
  "FormatInt n = (if n < 0 then ''-'' @ decimal (nat (- n)) else decimal (nat n))"

fun parse_digits :: "nat \<Rightarrow> nat \<Rightarrow> string \<Rightarrow> gerr + nat" where
  "parse_digits bits acc [] = Inr acc"
| "parse_digits bits acc (c # cs) =
     (if \<not> is_digit c then Inl (Text ''invalid syntax'')
      else if 2 ^ bits \<le> acc * 10 + digit_val c then Inl (Text ''value out of range'')
      else parse_digits bits (acc * 10 + digit_val c) cs)"

definition ParseUint :: "string \<Rightarrow> nat \<Rightarrow> gerr + nat" where
  "ParseUint s bits = (if s = [] then Inl (Text ''invalid syntax'') else parse_digits bits 0 s)"

definition ParseInt :: "string \<Rightarrow> nat \<Rightarrow> gerr + int" where
  "ParseInt s bits =
     (if s = [] then Inl (Text ''invalid syntax'')
      else
        let neg = (hd s = CHR ''-'');
            rest = (if hd s = CHR ''+'' \<or> hd s = CHR ''-'' then tl s else s)
        in case ParseUint rest bits of
             Inl e \<Rightarrow> Inl e
           | Inr un \<Rightarrow>
               if \<not> neg \<and> 2 ^ (bits - 1) \<le> un then Inl (Text ''value out of range'')
               else if neg \<and> 2 ^ (bits - 1) < un then Inl (Text ''value out of range'')
               else Inr (if neg then - int un else int un))"

section \<open>Splitting\<close>

text \<open>What comes before the first occurrence of the separator and what comes after it.\<close>

fun cut :: "string \<Rightarrow> string \<Rightarrow> (string \<times> string) option" where
  "cut p [] = (if p = [] then Some ([], []) else None)"
| "cut p (c # s) =
     (if take (length p) (c # s) = p then Some ([], drop (length p) (c # s))
      else map_option (\<lambda>(a, b). (c # a, b)) (cut p s))"

lemma cut_length: "cut p s = Some (a, b) \<Longrightarrow> p \<noteq> [] \<Longrightarrow> length b < length s"
  by (induction s arbitrary: a) (auto split: if_splits)

function go_split :: "string \<Rightarrow> string \<Rightarrow> string list" where
  "go_split s p =
     (if p = [] then map (\<lambda>c. [c]) s
      else case cut p s of
             None \<Rightarrow> [s]
           | Some (a, b) \<Rightarrow> a # go_split b p)"
  by pat_completeness auto
termination
  by (relation "measure (\<lambda>(s, p). length s)") (auto simp: cut_length)

declare go_split.simps [simp del]

section \<open>The package\<close>

definition join_ints :: "int list \<Rightarrow> string \<Rightarrow> string" where
  "join_ints xs p =
     (case xs of
        [] \<Rightarrow> []
      | [x] \<Rightarrow> FormatInt x
      | _ \<Rightarrow>
          let buf = foldl (\<lambda>b x. b @ FormatInt x @ p) [] xs
          in if 0 < length buf then take (length buf - 1) buf else buf)"

fun parse_all :: "nat \<Rightarrow> string list \<Rightarrow> int list \<Rightarrow> gerr + int list" where
  "parse_all bits [] res = Inr res"
| "parse_all bits (s # ss) res =
     (case ParseInt s bits of Inl e \<Rightarrow> Inl e | Inr i \<Rightarrow> parse_all bits ss (res @ [i]))"

definition split_ints :: "nat \<Rightarrow> string \<Rightarrow> string \<Rightarrow> gerr + int list" where
  "split_ints bits s p = (if s = [] then Inr [] else parse_all bits (go_split s p) [])"

definition JoinInt32s :: "i32 list \<Rightarrow> string \<Rightarrow> string" where
  "JoinInt32s is p = join_ints (map sint is) p"

definition SplitInt32s :: "string \<Rightarrow> string \<Rightarrow> gerr + i32 list" where
  "SplitInt32s s p = map_sum id (map word_of_int) (split_ints 32 s p)"

definition JoinInt64s :: "i64 list \<Rightarrow> string \<Rightarrow> string" where
  "JoinInt64s is p = join_ints (map sint is) p"

definition SplitInt64s :: "string \<Rightarrow> string \<Rightarrow> gerr + i64 list" where
  "SplitInt64s s p = map_sum id (map word_of_int) (split_ints 64 s p)"

section \<open>Formatting and parsing\<close>

lemma digit_props [simp]: "d < 10 \<Longrightarrow> is_digit (digit d)" "d < 10 \<Longrightarrow> digit_val (digit d) = d"
  by (simp_all add: is_digit_def digit_def digit_val_def of_char_of take_bit_nat_eq_self)

lemma decimal_digits: "c \<in> set (decimal n) \<Longrightarrow> is_digit c"
proof (induction n rule: decimal.induct)
  case (1 n)
  then show ?case by (subst (asm) (2) decimal.simps) (auto split: if_splits)
qed

lemma decimal_nonempty: "decimal n \<noteq> []"
  by (subst decimal.simps) simp

lemma parse_digits_append:
  "parse_digits bits acc (s @ t) =
     (case parse_digits bits acc s of Inl e \<Rightarrow> Inl e | Inr a \<Rightarrow> parse_digits bits a t)"
  by (induction bits acc s rule: parse_digits.induct) auto

lemma parse_decimal: "n < 2 ^ bits \<Longrightarrow> parse_digits bits 0 (decimal n) = Inr n"
proof (induction n rule: decimal.induct)
  case (1 n)
  show ?case
  proof (cases "n < 10")
    case True
    with 1 show ?thesis by (subst decimal.simps) simp
  next
    case False
    have "n div 10 < 2 ^ bits" using 1(2) by (meson div_le_dividend le_less_trans)
    with 1 False show ?thesis by (subst decimal.simps) (simp add: parse_digits_append)
  qed
qed

lemma is_digit_signs: "is_digit c \<Longrightarrow> c \<noteq> CHR ''+'' \<and> c \<noteq> CHR ''-''"
  by (auto simp: is_digit_def)

lemma ParseInt_FormatInt:
  assumes "- (2 ^ (bits - 1)) \<le> n" "n < 2 ^ (bits - 1)" "0 < bits"
  shows "ParseInt (FormatInt n) bits = Inr n"
proof -
  have bits: "(2 :: nat) ^ (bits - 1) < 2 ^ bits" using assms(3) by simp
  show ?thesis
  proof (cases "n < 0")
    case True
    have le: "nat (- n) \<le> 2 ^ (bits - 1)" using assms(1) by (simp add: nat_le_iff)
    have "parse_digits bits 0 (decimal (nat (- n))) = Inr (nat (- n))"
      by (rule parse_decimal) (use le bits in linarith)
    with True le decimal_nonempty show ?thesis
      by (simp add: ParseInt_def FormatInt_def ParseUint_def)
  next
    case False
    have lt: "nat n < 2 ^ (bits - 1)" using assms(2) False by (simp add: nat_less_iff)
    have "parse_digits bits 0 (decimal (nat n)) = Inr (nat n)"
      by (rule parse_decimal) (use lt bits in linarith)
    moreover have "is_digit (hd (decimal (nat n)))"
      by (rule decimal_digits [OF hd_in_set [OF decimal_nonempty]])
    ultimately show ?thesis using False lt decimal_nonempty is_digit_signs
      by (auto simp: ParseInt_def FormatInt_def ParseUint_def Let_def)
  qed
qed

section \<open>Joining and splitting\<close>

text \<open>A one-byte separator that occurs in no number.\<close>

definition plain_sep :: "char \<Rightarrow> bool" where
  "plain_sep c \<longleftrightarrow> \<not> is_digit c \<and> c \<noteq> CHR ''-''"

lemma FormatInt_chars: "c \<in> set (FormatInt n) \<Longrightarrow> is_digit c \<or> c = CHR ''-''"
  using decimal_digits by (auto simp: FormatInt_def split: if_splits)

lemma FormatInt_nonempty: "FormatInt n \<noteq> []"
  by (simp add: FormatInt_def decimal_nonempty)

lemma cut_none: "c \<notin> set s \<Longrightarrow> cut [c] s = None"
  by (induction s) auto

lemma cut_first: "c \<notin> set a \<Longrightarrow> cut [c] (a @ c # b) = Some (a, b)"
  by (induction a) auto

lemma go_split_pieces:
  assumes "\<And>s. s \<in> set ss \<Longrightarrow> c \<notin> set s" "c \<notin> set s0"
  shows "go_split (concat (map (\<lambda>s. s @ [c]) ss) @ s0) [c] = ss @ [s0]"
  using assms
proof (induction ss)
  case Nil
  then show ?case by (subst go_split.simps) (simp add: cut_none)
next
  case (Cons s ss)
  have "cut [c] (s @ c # concat (map (\<lambda>s. s @ [c]) ss) @ s0) = Some (s, concat (map (\<lambda>s. s @ [c]) ss) @ s0)"
    by (rule cut_first) (use Cons.prems in simp)
  with Cons show ?case by (subst go_split.simps) simp
qed

lemma join_ints_pieces:
  assumes "xs \<noteq> []"
  shows "join_ints xs [c] = concat (map (\<lambda>x. FormatInt x @ [c]) (butlast xs)) @ FormatInt (last xs)"
proof -
  have fold: "foldl (\<lambda>b x. b @ FormatInt x @ [c]) b ys = b @ concat (map (\<lambda>x. FormatInt x @ [c]) ys)" for b ys
    by (induction ys arbitrary: b) simp_all
  show ?thesis
  proof (cases "butlast xs")
    case Nil
    then obtain x where "xs = [x]" using assms by (cases xs) (auto split: if_splits)
    then show ?thesis by (simp add: join_ints_def)
  next
    case (Cons y ys)
    have xs: "xs = butlast xs @ [last xs]" using assms by simp
    then have "join_ints xs [c] = butlast (concat (map (\<lambda>x. FormatInt x @ [c]) xs))"
      using Cons by (cases xs rule: list.exhaust [case_product list.exhaust])
        (auto simp: join_ints_def fold butlast_conv_take Let_def split: list.split)
    also have "\<dots> = concat (map (\<lambda>x. FormatInt x @ [c]) (butlast xs)) @ FormatInt (last xs)"
      by (subst xs) (simp add: butlast_append)
    finally show ?thesis .
  qed
qed

lemma parse_all_format:
  assumes "\<And>x. x \<in> set xs \<Longrightarrow> - (2 ^ (bits - 1)) \<le> x \<and> x < 2 ^ (bits - 1)" "0 < bits"
  shows "parse_all bits (map FormatInt xs) res = Inr (res @ xs)"
  using assms(1) by (induction xs arbitrary: res) (simp_all add: ParseInt_FormatInt assms(2))

lemma split_join:
  assumes "\<And>x. x \<in> set xs \<Longrightarrow> - (2 ^ (bits - 1)) \<le> x \<and> x < 2 ^ (bits - 1)" "0 < bits" "plain_sep c"
  shows "split_ints bits (join_ints xs [c]) [c] = Inr xs"
proof (cases "xs = []")
  case True
  then show ?thesis by (simp add: split_ints_def join_ints_def)
next
  case False
  have sep: "c \<notin> set (FormatInt x)" for x
    using FormatInt_chars assms(3) by (auto simp: plain_sep_def)
  have ne: "join_ints xs [c] \<noteq> []" using False by (simp add: join_ints_pieces FormatInt_nonempty)
  have "go_split (join_ints xs [c]) [c] = map FormatInt (butlast xs) @ [FormatInt (last xs)]"
    using go_split_pieces [of "map FormatInt (butlast xs)" c "FormatInt (last xs)"] sep False
    by (auto simp: join_ints_pieces o_def)
  also have "\<dots> = map FormatInt xs" by (subst (3) append_butlast_last_id [OF False, symmetric]) simp
  finally show ?thesis using ne parse_all_format [OF assms(1,2), of xs "[]"] by (simp add: split_ints_def)
qed

section \<open>Properties\<close>

text \<open>Lists of 32-bit and of 64-bit integers joined with a one-byte separator that occurs in no
  number, such as the comma, are read back exactly; the empty list included.\<close>

theorem ints_roundtrip:
  assumes "plain_sep c"
  shows "SplitInt32s (JoinInt32s xs [c]) [c] = Inr xs \<and> SplitInt64s (JoinInt64s ys [c]) [c] = Inr ys"
proof -
  have b32: "- (2 ^ (32 - 1)) \<le> sint x \<and> sint x < 2 ^ (32 - 1)" for x :: i32
    using sint_ge [of x] sint_lt [of x] by simp
  have b64: "- (2 ^ (64 - 1)) \<le> sint x \<and> sint x < 2 ^ (64 - 1)" for x :: i64
    using sint_ge [of x] sint_lt [of x] by simp
  have "split_ints 32 (join_ints (map sint xs) [c]) [c] = Inr (map sint xs)"
    by (rule split_join [OF _ _ assms]) (use b32 in auto)
  moreover have "split_ints 64 (join_ints (map sint ys) [c]) [c] = Inr (map sint ys)"
    by (rule split_join [OF _ _ assms]) (use b64 in auto)
  moreover have "(word_of_int \<circ> sint) = (id :: i32 \<Rightarrow> i32)" "(word_of_int \<circ> sint) = (id :: i64 \<Rightarrow> i64)"
    by (simp_all add: fun_eq_iff)
  ultimately show ?thesis
    by (simp add: SplitInt32s_def JoinInt32s_def SplitInt64s_def JoinInt64s_def)
qed

theorem ints_roundtrip_witness:
  "SplitInt32s (JoinInt32s [- 7, 1001] '','') '','' = Inr [- 7, 1001]
   \<and> SplitInt64s (JoinInt64s [2 ^ 62, 0] '','') '','' = Inr [2 ^ 62, 0]"
  by (rule ints_roundtrip) (simp add: plain_sep_def is_digit_def)

text \<open>One byte is cut off the end whatever the length of the separator: a longer one leaves a rest,
  and the empty one costs the last digit.\<close>

lemma JoinInt32s_one_byte_cut:
  "JoinInt32s [12, 34] '', '' = ''12, 34,''" "JoinInt32s [12, 34] [] = ''123''"
  by (simp_all add: JoinInt32s_def join_ints_def FormatInt_def decimal.simps digit_def char_of_def bit_Suc_0_iff)

text \<open>What reading accepts: anything \<open>ParseInt\<close> does, so a leading plus sign, leading zeros; an empty
  piece is an error.\<close>

lemma SplitInt32s_examples:
  "SplitInt32s ''+7,007'' '','' = Inr [7, 7]"
  "SplitInt32s ''1,,2'' '','' = Inl (Text ''invalid syntax'')"
  "SplitInt32s ''2147483648'' '','' = Inl (Text ''value out of range'')"
  by (simp_all add: SplitInt32s_def split_ints_def go_split.simps ParseInt_def ParseUint_def is_digit_def
      digit_val_def)

end
