(* ===== verification/Snowflake.thy ===== *)
theory Snowflake
  imports Int_Strings
begin

text \<open>
  The id generator of \<open>pkg/snowflake/snowflake.go\<close>. The wall clock is an argument: \<open>clk k\<close> is what
  the \<open>k\<close>-th reading of \<open>time.Now().UnixMilli()\<close> returns, and a call is given the number of
  readings made so far. The wait for the next millisecond is a loop over further readings; with
  a clock that stands still it never ends (\<open>Spin\<close>).
\<close>

section \<open>The generator\<close>

definition epoch :: i64 where "epoch = 1704067200000"
definition maxMachineID :: i64 where "maxMachineID = 1023"
definition maxSequence :: i64 where "maxSequence = 4095"
definition machineShift :: nat where "machineShift = 12"
definition timeShift :: nat where "timeShift = 22"

record snowflake =
  sf_machineID :: i64
  sf_sequence :: i64
  sf_lastTime :: i64

definition New :: "i64 \<Rightarrow> gerr + snowflake" where
  "New machineID =
     (if machineID <s 0 \<or> maxMachineID <s machineID then Inl ErrInvalidMachine
      else Inr \<lparr>sf_machineID = machineID, sf_sequence = 0, sf_lastTime = 0\<rparr>)"

definition compose_id :: "i64 \<Rightarrow> i64 \<Rightarrow> i64 \<Rightarrow> i64" where
  "compose_id now machine sequ =
     or (or (push_bit timeShift now) (push_bit machineShift machine)) sequ"

text \<open>The wait: read the clock until it has passed \<open>last\<close>.\<close>

definition wait_next :: "(nat \<Rightarrow> i64) \<Rightarrow> i64 \<Rightarrow> i64 \<times> nat \<Rightarrow> (i64 \<times> nat) exec" where
  "wait_next clk last1 =
     exec_loop (\<lambda>(now, k). now \<le>s last1) (\<lambda>(now, k). Ret (clk k - epoch, Suc k))"

definition Generate :: "(nat \<Rightarrow> i64) \<Rightarrow> nat \<Rightarrow> snowflake \<Rightarrow> ((gerr + i64) \<times> nat \<times> snowflake) exec" where
  "Generate clk k s =
     (let now = clk k - epoch in
      if now <s sf_lastTime s then Ret (Inl ErrClockMovedBack, Suc k, s)
      else
        exec_bind
          (if now = sf_lastTime s
           then let sequ = and (sf_sequence s + 1) maxSequence
                in if sequ = 0
                   then exec_bind (wait_next clk (sf_lastTime s) (now, Suc k)) (\<lambda>(now', k'). Ret (now', k', sequ))
                   else Ret (now, Suc k, sequ)
           else Ret (now, Suc k, 0))
          (\<lambda>(now', k', sequ).
             Ret (Inr (compose_id now' (sf_machineID s) sequ), k',
                  s\<lparr>sf_sequence := sequ, sf_lastTime := now'\<rparr>)))"

text \<open>The digits are written from the end of a 20-byte buffer.\<close>

function its_loop :: "int \<Rightarrow> string \<Rightarrow> string" where
  "its_loop n buf = (if 0 < n then its_loop (n div 10) (digit (nat (n mod 10)) # buf) else buf)"
  by pat_completeness auto
termination
  by (relation "measure (\<lambda>(n, buf). nat n)") auto

declare its_loop.simps [simp del]

definition intToString :: "i64 \<Rightarrow> string" where
  "intToString n =
     (if n = 0 then ''0''
      else
        let negative = (n <s 0); n1 = (if negative then - n else n); buf = its_loop (sint n1) []
        in if negative then CHR ''-'' # buf else buf)"

definition GenerateString :: "(nat \<Rightarrow> i64) \<Rightarrow> nat \<Rightarrow> snowflake \<Rightarrow> ((gerr + string) \<times> nat \<times> snowflake) exec" where
  "GenerateString clk k s =
     exec_bind (Generate clk k s) (\<lambda>(r, k', s').
       Ret (map_sum id intToString r, k', s'))"

section \<open>The layout of an id\<close>

text \<open>The time that fits into the 41 bits above the machine and the sequence number.\<close>

definition in_range :: "i64 \<Rightarrow> bool" where
  "in_range now \<longleftrightarrow> 0 \<le> sint now \<and> sint now < 2 ^ 41"

lemma sint_nonneg_unat:
  assumes "0 \<le> sint (x :: i64)"
  shows "sint x = int (unat x)"
proof -
  have "take_bit LENGTH(64) (sint x) = sint x"
    by (rule take_bit_int_eq_self [OF assms], rule less_trans [OF sint_lt [of x]]) simp
  with uint_sint [of x] have "uint x = sint x" by (rule trans)
  then show ?thesis using uint_nat [of x] by (simp only:)
qed

lemma sint_small_unat:
  assumes "unat (x :: i64) < 2 ^ 63"
  shows "sint x = int (unat x)"
proof -
  have "int (unat x) < 2 ^ 63" using assms by (simp only: of_nat_less_numeral_power_cancel_iff)
  moreover have "- (2 ^ 63) \<le> int (unat x)" by (rule order_trans [OF _ of_nat_0_le_iff]) simp
  ultimately have "signed_take_bit 63 (int (unat x)) = int (unat x)"
    by (intro signed_take_bit_int_eq_self)
  moreover have "sint x = signed_take_bit (LENGTH(64) - 1) (int (unat x))"
    using sint_uint [of x] by (simp only: uint_nat One_nat_def)
  ultimately show ?thesis by simp
qed

lemma bits_below:
  assumes "unat (x :: i64) < 2 ^ k" "bit x j"
  shows "j < k"
proof -
  have "bit (unat x) j" using assms(2) by (simp add: bit_unsigned_iff possible_bit_def bit_imp_le_length)
  moreover have "take_bit k (unat x) = unat x" using assms(1) by (simp add: take_bit_nat_eq_self)
  ultimately show ?thesis by (metis bit_take_bit_iff)
qed

lemma unat_push_bit:
  assumes "unat (x :: i64) < 2 ^ a" "a + k < 64"
  shows "unat (push_bit k x) = unat x * 2 ^ k" "unat (push_bit k x) < 2 ^ (a + k)"
proof -
  have b: "unat x * 2 ^ k < 2 ^ (a + k)" using assms(1) by (simp add: power_add)
  have "(2 :: nat) ^ (a + k) < 2 ^ 64" by (rule power_strict_increasing) (use assms(2) in simp_all)
  with b have "unat x * 2 ^ k < 2 ^ 64" by linarith
  then have "unat x * unat (2 ^ k :: i64) < 2 ^ LENGTH(64)" using assms(2) by (simp add: unat_2p)
  then have "unat (x * 2 ^ k) = unat x * unat (2 ^ k :: i64)" by (simp only: unat_mult_lem)
  then show "unat (push_bit k x) = unat x * 2 ^ k" using assms(2) by (simp add: push_bit_eq_mult unat_2p)
  with b show "unat (push_bit k x) < 2 ^ (a + k)" by simp
qed

lemma unat_or_disjoint:
  assumes "unat x = n * 2 ^ k" "unat (y :: i64) < 2 ^ k" "unat x + unat y < 2 ^ 64"
  shows "unat (or x y) = unat x + unat y"
proof -
  have "\<not> bit x j \<or> \<not> bit y j" for j
  proof (cases "bit y j")
    case True
    then have "j < k" by (rule bits_below [OF assms(2)])
    then have "\<not> bit (push_bit k n) j" by (simp add: bit_push_bit_iff)
    then have "\<not> bit (unat x) j" by (simp add: assms(1) push_bit_eq_mult)
    then show ?thesis by (auto simp: bit_unsigned_iff possible_bit_def dest: bit_imp_le_length)
  qed simp
  then have "or x y = x + y" by (simp add: disjunctive_add)
  moreover have "unat (x + y) = unat x + unat y" using assms(3) by (simp add: unat_add_lem [THEN iffD1])
  ultimately show ?thesis by simp
qed

lemma compose_id_value:
  assumes "in_range now" "unat machine < 2 ^ 10" "unat sequ < 2 ^ 12"
  shows "sint (compose_id now machine sequ) = sint now * 2 ^ 22 + int (unat machine) * 2 ^ 12 + int (unat sequ)"
    "0 \<le> sint (compose_id now machine sequ)"
proof -
  have now: "sint now = int (unat now)"
    using assms(1) sint_nonneg_unat [of now] by (simp add: in_range_def)
  then have "int (unat now) < 2 ^ 41" using assms(1) by (simp add: in_range_def)
  then have lt: "unat now < 2 ^ 41" by (simp only: of_nat_less_numeral_power_cancel_iff)
  note t = unat_push_bit [OF lt, of 22] note m = unat_push_bit [OF assms(2), of 12]
  have o1: "unat (or (push_bit 22 now) (push_bit 12 machine)) = unat now * 2 ^ 22 + unat machine * 2 ^ 12"
    using unat_or_disjoint [of "push_bit 22 now" "unat now" 22 "push_bit 12 machine"] t m by simp
  have "unat (compose_id now machine sequ) = (unat now * 2 ^ 22 + unat machine * 2 ^ 12) + unat sequ"
    using unat_or_disjoint [of "or (push_bit 22 now) (push_bit 12 machine)" "unat now * 2 ^ 10 + unat machine" 12 sequ]
      o1 t m assms(3) by (simp add: compose_id_def timeShift_def machineShift_def)
  moreover from this have "unat (compose_id now machine sequ) < 2 ^ 63" using t m assms(3) lt assms(2) by simp
  then have "sint (compose_id now machine sequ) = int (unat (compose_id now machine sequ))"
    by (rule sint_small_unat)
  moreover from this show "0 \<le> sint (compose_id now machine sequ)" by (simp only: of_nat_0_le_iff)
  ultimately show "sint (compose_id now machine sequ) = sint now * 2 ^ 22 + int (unat machine) * 2 ^ 12 + int (unat sequ)"
    unfolding now by (simp only: of_nat_add of_nat_mult of_nat_power of_nat_numeral)
qed

section \<open>One call\<close>

definition sf_ok :: "snowflake \<Rightarrow> bool" where
  "sf_ok s \<longleftrightarrow> unat (sf_machineID s) < 2 ^ 10 \<and> unat (sf_sequence s) < 2 ^ 12 \<and> 0 \<le> sint (sf_lastTime s)"

text \<open>Where a generator stands: its last millisecond and the sequence number within it.\<close>

definition position :: "snowflake \<Rightarrow> int" where
  "position s = sint (sf_lastTime s) * 2 ^ 12 + int (unat (sf_sequence s))"

text \<open>The clock stays below the year 2093, where the 41 bits end.\<close>

definition clock_fits :: "(nat \<Rightarrow> i64) \<Rightarrow> bool" where
  "clock_fits clk \<longleftrightarrow> (\<forall>k. sint (clk k - epoch) < 2 ^ 41)"

lemma New_ok:
  assumes "New m = Inr s"
  shows "sf_ok s" "sf_machineID s = m"
proof -
  have s: "0 \<le> sint m" "sint m \<le> 1023" "s = \<lparr>sf_machineID = m, sf_sequence = 0, sf_lastTime = 0\<rparr>"
    using assms by (auto simp: New_def word_sless_alt maxMachineID_def split: if_splits)
  then have "int (unat m) \<le> 1023" using sint_nonneg_unat [of m] by (simp only:)
  then have "unat m \<le> 1023" by (simp only: of_nat_le_numeral_iff)
  then have "unat m < 2 ^ 10" by simp
  with s(3) show "sf_ok s" "sf_machineID s = m" by (simp_all add: sf_ok_def)
qed

lemma wait_next_result:
  assumes "wait_next clk last1 (now, k) = Ret (now', k')" "\<exists>j. now = clk j - epoch"
  shows "sint last1 < sint now'" "\<exists>j. now' = clk j - epoch"
proof -
  show "sint last1 < sint now'"
    using exec_loop_stop [OF assms(1) [unfolded wait_next_def]] by (simp add: word_sle_eq)
  have "(\<lambda>(now, k). \<exists>j. now = clk j - epoch) (now', k')"
    by (rule exec_loop_inv [OF assms(1) [unfolded wait_next_def]]) (use assms(2) in auto)
  then show "\<exists>j. now' = clk j - epoch" by simp
qed

lemma wait_next_returns:
  assumes "k \<le> j" "sint last1 < sint (clk j - epoch)"
  shows "\<exists>r. wait_next clk last1 (now, k) = Ret r"
  using assms(1)
proof (induction "j - k" arbitrary: now k)
  case 0
  then have "k = j" by simp
  with assms(2) show ?case
    unfolding wait_next_def
    by (subst exec_loop_unfold) (simp add: word_sle_eq exec_loop_unfold [of _ _ "(clk j - epoch, Suc j)"])
next
  case (Suc n)
  have "\<exists>r. wait_next clk last1 (clk k - epoch, Suc k) = Ret r"
    by (rule Suc.hyps(1)) (use Suc.hyps(2) in simp_all)
  then show ?case
    unfolding wait_next_def by (subst exec_loop_unfold) simp
qed

lemma next_sequence:
  assumes "unat (x :: i64) < 2 ^ 12"
  shows "unat (and (x + 1) maxSequence) = (if unat x = 4095 then 0 else unat x + 1)"
proof -
  have "and (x + 1) maxSequence = take_bit 12 (x + 1)"
    by (simp add: maxSequence_def take_bit_eq_mask mask_eq_exp_minus_1)
  moreover have "unat (take_bit 12 (x + 1)) = take_bit 12 (unat (x + 1))"
    by (simp add: unsigned_take_bit_eq)
  moreover have "unat (x + 1) = unat x + 1" using assms by (simp add: unat_add_lem [THEN iffD1])
  moreover have "take_bit 12 (unat x + 1) = (unat x + 1) mod 2 ^ 12" by (simp add: take_bit_eq_mod)
  ultimately show ?thesis using assms by (auto simp: mod_if)
qed

lemma Generate_result:
  assumes "sf_ok s" "clock_fits clk" "Generate clk k s = Ret (r, k', s')"
  shows "sf_ok s' \<and> sf_machineID s' = sf_machineID s
    \<and> (case r of Inl e \<Rightarrow> s' = s | Inr i \<Rightarrow> position s < position s'
         \<and> sint i = sint (sf_lastTime s') * 2 ^ 22 + int (unat (sf_machineID s')) * 2 ^ 12 + int (unat (sf_sequence s')))"
proof -
  let ?now = "clk k - epoch" and ?last = "sf_lastTime s"
  let ?sq = "and (sf_sequence s + 1) maxSequence"
  have ok: "unat (sf_machineID s) < 2 ^ 10" "unat (sf_sequence s) < 2 ^ 12" "0 \<le> sint ?last"
    using assms(1) by (auto simp: sf_ok_def)
  note sq = next_sequence [OF ok(2)]
  have j: "\<exists>j. ?now = clk j - epoch" by blast
  show ?thesis
  proof (cases "?now <s ?last")
    case True
    with assms show ?thesis by (auto simp: Generate_def)
  next
    case False
    then have ge: "sint ?last \<le> sint ?now" by (simp add: word_sless_alt)
    obtain now' q where st: "r = Inr (compose_id now' (sf_machineID s) q)"
      "s' = s\<lparr>sf_sequence := q, sf_lastTime := now'\<rparr>"
      "\<exists>j. now' = clk j - epoch" "unat q < 2 ^ 12" "0 \<le> sint now'"
      "sint ?last < sint now' \<or> (now' = ?last \<and> unat (sf_sequence s) < unat q)"
    proof (cases "?now = ?last")
      case eq: True
      show thesis
      proof (cases "?sq = 0")
        case True
        with assms(3) False eq obtain now' where w: "wait_next clk ?last (?now, Suc k) = Ret (now', k')"
          "r = Inr (compose_id now' (sf_machineID s) 0)" "s' = s\<lparr>sf_sequence := 0, sf_lastTime := now'\<rparr>"
          by (auto simp: Generate_def Let_def exec_bind_eq_Ret_iff)
        have lt: "sint ?last < sint now'" and j: "\<exists>j. now' = clk j - epoch"
          by (rule wait_next_result [OF w(1)], blast)+
        show thesis by (rule that [OF w(2,3) j]) (use lt ok(3) in simp_all)
      next
        case False
        then have "unat ?sq \<noteq> 0" by (simp add: unat_eq_zero)
        then have up: "unat ?sq = unat (sf_sequence s) + 1" "unat ?sq < 2 ^ 12" using sq ok(2) by (auto split: if_splits)
        have "r = Inr (compose_id ?now (sf_machineID s) ?sq)" "s' = s\<lparr>sf_sequence := ?sq, sf_lastTime := ?now\<rparr>"
          using assms(3) False eq by (auto simp: Generate_def Let_def)
        then show thesis by (rule that [OF _ _ j]) (use up eq ok(3) in simp_all)
      qed
    next
      case neq: False
      then have lt: "sint ?last < sint ?now" using ge by (auto simp: order_le_less dest: signed_word_eqI)
      have "r = Inr (compose_id ?now (sf_machineID s) 0)" "s' = s\<lparr>sf_sequence := 0, sf_lastTime := ?now\<rparr>"
        using assms(3) False neq by (auto simp: Generate_def Let_def)
      then show thesis by (rule that [OF _ _ j]) (use lt ok(3) in simp_all)
    qed
    have "in_range now'" using st(3,5) assms(2) by (auto simp: in_range_def clock_fits_def)
    note val = compose_id_value [OF this ok(1) st(4)]
    have "int (unat (sf_sequence s)) < 2 ^ 12" "int (unat q) < 2 ^ 12"
      using ok(2) st(4) by (simp_all only: of_nat_less_numeral_power_cancel_iff)
    with st(6) have "position s < position s'"
      unfolding position_def st(2) by (auto simp del: of_nat_unat)
    with st ok val show ?thesis by (simp add: sf_ok_def)
  qed
qed

section \<open>Runs\<close>

fun gen_run :: "(nat \<Rightarrow> i64) \<Rightarrow> nat \<Rightarrow> nat \<Rightarrow> snowflake \<Rightarrow> ((gerr + i64) list \<times> nat \<times> snowflake) exec" where
  "gen_run clk 0 k s = Ret ([], k, s)"
| "gen_run clk (Suc n) k s =
     exec_bind (Generate clk k s) (\<lambda>(r, k', s').
       exec_bind (gen_run clk n k' s') (\<lambda>(rs, k'', s''). Ret (r # rs, k'', s'')))"

text \<open>The ids among the results.\<close>

fun ids_of :: "(gerr + i64) list \<Rightarrow> i64 list" where
  "ids_of [] = []"
| "ids_of (Inl e # rs) = ids_of rs"
| "ids_of (Inr i # rs) = i # ids_of rs"

definition id_at :: "snowflake \<Rightarrow> int \<Rightarrow> bool" where
  "id_at s v \<longleftrightarrow> (\<exists>p q. p * 2 ^ 12 + q > position s \<and> 0 \<le> p \<and> 0 \<le> q \<and> q < 2 ^ 12
     \<and> v = p * 2 ^ 22 + int (unat (sf_machineID s)) * 2 ^ 12 + q)"

lemma id_at_mono:
  "id_at s' v \<Longrightarrow> position s \<le> position s' \<Longrightarrow> sf_machineID s' = sf_machineID s \<Longrightarrow> id_at s v"
proof -
  assume v: "id_at s' v" and le: "position s \<le> position s'" and m: "sf_machineID s' = sf_machineID s"
  obtain p q where "position s' < p * 2 ^ 12 + q" "0 \<le> p" "0 \<le> q" "q < 2 ^ 12"
    "v = p * 2 ^ 22 + int (unat (sf_machineID s')) * 2 ^ 12 + q"
    using v unfolding id_at_def by (elim exE conjE) (rule that)
  with le m show "id_at s v" unfolding id_at_def by (intro exI [of _ p] exI [of _ q]) simp
qed

lemma id_order:
  assumes "id_at s' v" "sf_ok s'"
    "w = sint (sf_lastTime s') * 2 ^ 22 + int (unat (sf_machineID s')) * 2 ^ 12 + int (unat (sf_sequence s'))"
  shows "w < v"
proof -
  obtain p q where pq: "p * 2 ^ 12 + q > position s'" "0 \<le> p" "0 \<le> q" "q < (2 :: int) ^ 12"
    "v = p * 2 ^ 22 + int (unat (sf_machineID s')) * 2 ^ 12 + q"
    using assms(1) by (auto simp: id_at_def)
  have sq: "int (unat (sf_sequence s')) < 2 ^ 12" "0 \<le> int (unat (sf_sequence s'))"
    using assms(2) by (simp_all only: sf_ok_def of_nat_less_numeral_power_cancel_iff of_nat_0_le_iff)
  let ?l = "sint (sf_lastTime s')" and ?q = "int (unat (sf_sequence s'))"
  have lex: "?l < p \<or> (?l = p \<and> ?q < q)"
    using pq(1,3,4) sq unfolding position_def by (simp del: of_nat_unat) linarith
  have "?l * 2 ^ 22 + ?q < p * 2 ^ 22 + q"
  proof (cases "?l < p")
    case True
    then have "(?l + 1) * 2 ^ 22 \<le> p * 2 ^ 22" by simp
    with sq(1) pq(3) show ?thesis by (simp add: algebra_simps del: of_nat_unat)
  qed (use lex in \<open>simp del: of_nat_unat\<close>)
  then show ?thesis unfolding assms(3) pq(5) by simp
qed

lemma gen_run_ids:
  assumes "sf_ok s" "clock_fits clk" "gen_run clk n k s = Ret (rs, k', s')"
  shows "sorted_wrt (<) (map sint (ids_of rs)) \<and> (\<forall>v \<in> sint ` set (ids_of rs). id_at s v)"
  using assms(1,3)
proof (induction n arbitrary: k s rs)
  case 0
  then show ?case by simp
next
  case (Suc n)
  obtain r k1 s1 rs1 where g: "Generate clk k s = Ret (r, k1, s1)" "gen_run clk n k1 s1 = Ret (rs1, k', s')" "rs = r # rs1"
    using Suc.prems(2) by (auto simp: exec_bind_eq_Ret_iff)
  note G = Generate_result [OF Suc.prems(1) assms(2) g(1)]
  have ok1: "sf_ok s1" "sf_machineID s1 = sf_machineID s" using G by simp_all
  note IH = Suc.IH [OF ok1(1) g(2)]
  show ?case
  proof (cases r)
    case (Inl e)
    with G IH g(3) show ?thesis by simp
  next
    case (Inr i)
    then have pos: "position s < position s1" and
      i: "sint i = sint (sf_lastTime s1) * 2 ^ 22 + int (unat (sf_machineID s1)) * 2 ^ 12 + int (unat (sf_sequence s1))"
      using G by simp_all
    have sq: "int (unat (sf_sequence s1)) < 2 ^ 12" "0 \<le> int (unat (sf_sequence s1))" "0 \<le> sint (sf_lastTime s1)"
      using ok1(1) by (simp_all only: sf_ok_def of_nat_less_numeral_power_cancel_iff of_nat_0_le_iff)
    have "id_at s (sint i)"
      unfolding id_at_def using pos sq i ok1(2)
      by (intro exI [of _ "sint (sf_lastTime s1)"] exI [of _ "int (unat (sf_sequence s1))"]) (simp only: position_def)
    moreover have "id_at s v" if "id_at s1 v" for v
      using id_at_mono [OF that _ ok1(2)] pos by simp
    moreover have "sint i < v" if "id_at s1 v" for v by (rule id_order [OF that ok1(1) i])
    ultimately show ?thesis using IH Inr g(3) by auto
  qed
qed

section \<open>Properties\<close>

text \<open>A clock for the examples: twice the same millisecond, a step back, then a step forward.\<close>

definition demo_clock :: "nat \<Rightarrow> i64" where
  "demo_clock k = epoch + (if k < 2 then 5 else if k = 2 then 4 else 6)"

definition demo_gen :: "i64 \<Rightarrow> i64 \<Rightarrow> i64 \<Rightarrow> snowflake" where
  "demo_gen m q t = \<lparr>sf_machineID = m, sf_sequence = q, sf_lastTime = t\<rparr>"

lemma demo_clock_fits: "clock_fits demo_clock"
  by (simp add: clock_fits_def demo_clock_def)

lemma demo_steps:
  "Generate demo_clock 0 (demo_gen m 0 0) = Ret (Inr (compose_id 5 m 0), 1, demo_gen m 0 5)"
  "Generate demo_clock 1 (demo_gen m 0 5) = Ret (Inr (compose_id 5 m 1), 2, demo_gen m 1 5)"
  "Generate demo_clock 2 (demo_gen m 1 5) = Ret (Inl ErrClockMovedBack, 3, demo_gen m 1 5)"
  "Generate demo_clock 3 (demo_gen m 1 5) = Ret (Inr (compose_id 6 m 0), 4, demo_gen m 0 6)"
  by (simp_all add: Generate_def demo_clock_def demo_gen_def maxSequence_def word_sless_alt)

lemma demo_run:
  "gen_run demo_clock (Suc (Suc (Suc (Suc 0)))) 0 (demo_gen m 0 0) =
     Ret ([Inr (compose_id 5 m 0), Inr (compose_id 5 m 1), Inl ErrClockMovedBack, Inr (compose_id 6 m 0)],
          4, demo_gen m 0 6)"
  by (simp only: gen_run.simps demo_steps exec_bind.simps prod.case)

text \<open>Whatever the clock does, forward or backward, the ids one generator returns are positive,
  strictly increasing, hence distinct, and carry its machine number in bits 12 to 21.\<close>

theorem ids_increase:
  assumes "New m = Inr s" "clock_fits clk" "gen_run clk n k s = Ret (rs, k', s')"
  shows "sorted_wrt (<) (map sint (ids_of rs))
    \<and> (\<forall>i \<in> set (ids_of rs). 0 < sint i \<and> sint i div 2 ^ 12 mod 2 ^ 10 = sint m)"
proof -
  have ok: "sf_ok s" "sf_machineID s = m" by (rule New_ok [OF assms(1)])+
  have m: "0 \<le> sint m" using assms(1) by (auto simp: New_def word_sless_alt split: if_splits)
  have "0 < v \<and> v div 2 ^ 12 mod 2 ^ 10 = sint m" if v: "id_at s v" for v
  proof -
    have p0: "position s = 0" using assms(1) by (auto simp: New_def position_def split: if_splits)
    obtain p q where pq: "p * 2 ^ 12 + q > (0 :: int)" "0 \<le> p" "0 \<le> q" "q < 2 ^ 12"
      "v = p * 2 ^ 22 + sint m * 2 ^ 12 + q"
      using v ok(2) sint_nonneg_unat [OF m] p0 by (auto simp: id_at_def simp del: of_nat_unat)
    have m10: "sint m < 2 ^ 10"
      using ok sint_nonneg_unat [OF m] by (simp only: sf_ok_def of_nat_less_numeral_power_cancel_iff)
    have "v = q + (p * 2 ^ 10 + sint m) * 2 ^ 12" using pq(5) by simp
    then have "v div 2 ^ 12 = p * 2 ^ 10 + sint m" using pq(3,4) by (simp add: div_mult_self1)
    then have "v div 2 ^ 12 mod 2 ^ 10 = sint m" using m m10 by simp
    moreover have "0 < v" using pq(1,2,3) m unfolding pq(5) by simp
    ultimately show ?thesis by simp
  qed
  with gen_run_ids [OF ok(1) assms(2,3)] show ?thesis by auto
qed

theorem ids_increase_witness:
  "\<exists>rs r. gen_run demo_clock (Suc (Suc (Suc (Suc 0)))) 0 (demo_gen 3 0 0) = Ret (rs, r) \<and> length (ids_of rs) = 3
    \<and> sorted_wrt (<) (map sint (ids_of rs))
    \<and> (\<forall>i \<in> set (ids_of rs). 0 < sint i \<and> sint i div 2 ^ 12 mod 2 ^ 10 = sint (3 :: i64))"
proof -
  have new: "New 3 = Inr (demo_gen 3 0 0)"
    by (simp add: New_def maxMachineID_def word_sless_alt demo_gen_def)
  have "length (ids_of [Inr (compose_id 5 3 0), Inr (compose_id 5 3 1), Inl ErrClockMovedBack, Inr (compose_id 6 3 0)]) = 3"
    by simp
  with ids_increase [OF new demo_clock_fits demo_run] demo_run [of 3] show ?thesis by blast
qed

text \<open>Two generators with different machine numbers never return the same id.\<close>

theorem machines_disjoint:
  assumes "New m1 = Inr s1" "New m2 = Inr s2" "m1 \<noteq> m2" "clock_fits clk1" "clock_fits clk2"
    and "gen_run clk1 n1 k1 s1 = Ret (rs1, t1)" "gen_run clk2 n2 k2 s2 = Ret (rs2, t2)"
  shows "set (ids_of rs1) \<inter> set (ids_of rs2) = {}"
proof -
  have "sint m1 \<noteq> sint m2" using assms(3) by (auto dest: signed_word_eqI)
  moreover have "\<forall>i \<in> set (ids_of rs1). sint i div 2 ^ 12 mod 2 ^ 10 = sint m1"
    by (cases t1) (use ids_increase [OF assms(1,4)] assms(6) in blast)
  moreover have "\<forall>i \<in> set (ids_of rs2). sint i div 2 ^ 12 mod 2 ^ 10 = sint m2"
    by (cases t2) (use ids_increase [OF assms(2,5)] assms(7) in blast)
  ultimately show ?thesis by auto
qed

theorem machines_disjoint_witness:
  "\<exists>rs1 t1 rs2 t2. gen_run demo_clock (Suc (Suc (Suc (Suc 0)))) 0 (demo_gen 3 0 0) = Ret (rs1, t1)
    \<and> gen_run demo_clock (Suc (Suc (Suc (Suc 0)))) 0 (demo_gen 4 0 0) = Ret (rs2, t2)
    \<and> set (ids_of rs1) \<inter> set (ids_of rs2) = {}"
proof -
  have new: "New 3 = Inr (demo_gen 3 0 0)" "New 4 = Inr (demo_gen 4 0 0)" "(3 :: i64) \<noteq> 4"
    by (simp_all add: New_def maxMachineID_def word_sless_alt demo_gen_def)
  from machines_disjoint [OF new demo_clock_fits demo_clock_fits demo_run demo_run] demo_run
  show ?thesis by blast
qed

text \<open>A call returns as soon as the clock gets past the generator's last millisecond.\<close>

theorem Generate_returns:
  assumes "k < j" "sint (sf_lastTime s) < sint (clk j - epoch)"
  shows "\<exists>r k' s'. Generate clk k s = Ret (r, k', s')"
proof -
  obtain now' k' where "wait_next clk (sf_lastTime s) (clk k - epoch, Suc k) = Ret (now', k')"
    using wait_next_returns [of "Suc k" j "sf_lastTime s" clk "clk k - epoch"] assms by auto
  then show ?thesis by (auto simp: Generate_def Let_def)
qed

theorem Generate_returns_witness:
  "\<exists>r k' s'. Generate demo_clock 0 (demo_gen 3 4095 5) = Ret (r, k', s')"
  by (rule Generate_returns [of 0 3]) (simp_all add: demo_clock_def demo_gen_def)

text \<open>The least 64-bit integer, which is no id, comes out as a bare minus sign.\<close>

lemma its_loop_decimal: "0 < n \<Longrightarrow> its_loop (int n) buf = decimal n @ buf"
proof (induction n arbitrary: buf rule: decimal.induct)
  case (1 n)
  have m: "nat (int n mod 10) = n mod 10" "int n div 10 = int (n div 10)"
    by (simp_all add: nat_mod_as_int zdiv_int)
  show ?case
  proof (cases "n < 10")
    case True
    then have "its_loop (int n) buf = its_loop 0 (digit n # buf)"
      using 1(2) by (subst its_loop.simps) (simp add: m)
    then show ?thesis using True by (simp add: its_loop.simps decimal.simps)
  next
    case False
    then show ?thesis using 1 by (subst its_loop.simps, subst decimal.simps) (simp add: m)
  qed
qed

lemma decimal_length: "n < 10 ^ Suc k \<Longrightarrow> length (decimal n) \<le> Suc k"
proof (induction k arbitrary: n)
  case 0
  then show ?case by (subst decimal.simps) simp
next
  case (Suc k)
  have "n div 10 < 10 ^ Suc k" using Suc.prems by (simp add: less_mult_imp_div_less)
  from Suc.IH [OF this] show ?case by (subst decimal.simps) simp
qed

lemma intToString_least: "intToString (- (2 ^ 63)) = ''-''"
  by (simp add: intToString_def Let_def word_sless_alt its_loop.simps)

text \<open>The text of an id is its decimal representation, which fits into the 20 bytes set aside
  for it.\<close>

theorem intToString_decimal:
  assumes "0 \<le> sint n"
  shows "intToString n = FormatInt (sint n) \<and> length (intToString n) \<le> 20"
proof -
  have eq: "intToString n = decimal (nat (sint n))"
  proof (cases "n = 0")
    case True
    then show ?thesis by (simp add: intToString_def decimal.simps digit_def char_of_def bit_Suc_0_iff)
  next
    case False
    then have "sint n \<noteq> 0" using signed_word_eqI [of n 0] by auto
    with assms have "0 < nat (sint n)" "\<not> n <s 0" by (simp_all add: word_sless_alt)
    with its_loop_decimal [of "nat (sint n)" "[]"] False assms show ?thesis
      by (simp add: intToString_def Let_def)
  qed
  have "nat (sint n) < 10 ^ Suc 18" using sint_lt [of n] by (simp add: nat_less_iff)
  with eq assms decimal_length [of "nat (sint n)" 18] show ?thesis by (simp add: FormatInt_def)
qed

theorem intToString_decimal_witness:
  "intToString 1040 = FormatInt (sint (1040 :: i64)) \<and> length (intToString 1040) \<le> 20"
  by (rule intToString_decimal) simp

end
