(* ===== verification/Redis_Store.thy ===== *)
theory Redis_Store
  imports Int_Strings "HOL-Library.List_Lexorder" "HOL-Library.Char_ord" "HOL-Library.Product_Lexorder"
begin

text \<open>
  The Redis server as far as \<open>internal/logic/dao\<close> uses it, and the data access functions of
  \<open>redis.go\<close> and \<open>redis_cursor.go\<close> on it.

  The server keeps hashes, sorted sets and strings under string keys, and the remaining life of
  the keys that have one. A sorted set is the list of its (score, member) pairs in Redis order. The three
  kinds are kept apart; that no key of the program is used for two of them is a theorem below.
  Every round trip to the server has a fate: it is answered, or the request is lost before it
  takes effect, or the reply is lost after it did. The fates to come are part of the state; when
  none are left every round trip is answered. A pipeline (\<open>Send\<close>, \<open>Flush\<close>, \<open>Receive\<close>) and a script are
  one round trip. Scores are integers.
\<close>

section \<open>The server\<close>

type_synonym hash = "string \<Rightarrow> string option"
type_synonym zset = "(int \<times> string) list"

datatype fate = Answered | Request_lost | Reply_lost

text \<open>Two kinds of values are JSON in Redis and kept decoded here: the entries of the state timelines
  of \<open>router/state.go\<close> and the delivery attempts of \<open>router/attempt.go\<close>.\<close>

record StateTransition =
  st_MsgID :: string
  st_From :: string
  st_To :: string
  st_Reason :: string
  st_Timestamp :: int
  st_TraceID :: string

record DeliveryAttempt =
  at_MsgID :: string
  at_AttemptNo :: int
  at_Channel :: string
  at_Status :: string
  at_LatencyMS :: int
  at_Error :: string
  at_Server :: string
  at_CreatedAt :: int

record redis =
  rd_hash :: "string \<Rightarrow> hash"
  rd_zset :: "string \<Rightarrow> zset"
  rd_str :: "string \<Rightarrow> string option"
  rd_list :: "string \<Rightarrow> StateTransition list"
  rd_attempt :: "string \<Rightarrow> DeliveryAttempt option"
  rd_ttl :: "string \<Rightarrow> int option"
  rd_fates :: "fate list"

definition empty_redis :: redis where
  "empty_redis = \<lparr>rd_hash = (\<lambda>_ _. None), rd_zset = (\<lambda>_. []), rd_str = (\<lambda>_. None), rd_list = (\<lambda>_. []),
     rd_attempt = (\<lambda>_. None), rd_ttl = (\<lambda>_. None), rd_fates = []\<rparr>"

definition key_exists :: "string \<Rightarrow> redis \<Rightarrow> bool" where
  "key_exists k r \<longleftrightarrow> rd_hash r k \<noteq> (\<lambda>_. None) \<or> rd_zset r k \<noteq> [] \<or> rd_str r k \<noteq> None
     \<or> rd_list r k \<noteq> [] \<or> rd_attempt r k \<noteq> None"

definition hset :: "string \<Rightarrow> (string \<times> string) list \<Rightarrow> redis \<Rightarrow> redis" where
  "hset k fvs r = r\<lparr>rd_hash := (rd_hash r)(k := foldl (\<lambda>h (f, v). h(f \<mapsto> v)) (rd_hash r k) fvs)\<rparr>"

text \<open>A hash or sorted set that becomes empty takes its key with it.\<close>

definition reap :: "string \<Rightarrow> redis \<Rightarrow> redis" where
  "reap k r = (if key_exists k r then r else r\<lparr>rd_ttl := (rd_ttl r)(k := None)\<rparr>)"

definition hdel :: "string \<Rightarrow> string \<Rightarrow> redis \<Rightarrow> redis" where
  "hdel k f r = reap k (r\<lparr>rd_hash := (rd_hash r)(k := (rd_hash r k)(f := None))\<rparr>)"

definition zadd :: "string \<Rightarrow> int \<Rightarrow> string \<Rightarrow> redis \<Rightarrow> redis" where
  "zadd k s m r = r\<lparr>rd_zset := (rd_zset r)(k := insort (s, m) (filter (\<lambda>p. snd p \<noteq> m) (rd_zset r k)))\<rparr>"

definition zrem :: "string \<Rightarrow> string \<Rightarrow> redis \<Rightarrow> redis" where
  "zrem k m r = reap k (r\<lparr>rd_zset := (rd_zset r)(k := filter (\<lambda>p. snd p \<noteq> m) (rd_zset r k))\<rparr>)"

text \<open>\<open>ZRANGEBYSCORE key (lo +inf LIMIT 0 n\<close>.\<close>

definition zrange_after :: "zset \<Rightarrow> int \<Rightarrow> nat \<Rightarrow> string list" where
  "zrange_after z lo n = map snd (take n (filter (\<lambda>p. lo < fst p) z))"

definition expire :: "string \<Rightarrow> int \<Rightarrow> redis \<Rightarrow> redis" where
  "expire k ms r = (if key_exists k r then r\<lparr>rd_ttl := (rd_ttl r)(k \<mapsto> ms)\<rparr> else r)"

text \<open>\<open>SET\<close> without a life drops the one the key had.\<close>

definition set_str :: "string \<Rightarrow> string \<Rightarrow> int option \<Rightarrow> redis \<Rightarrow> redis" where
  "set_str k v ttl r = r\<lparr>rd_str := (rd_str r)(k \<mapsto> v), rd_ttl := (rd_ttl r)(k := ttl)\<rparr>"

definition del :: "string \<Rightarrow> redis \<Rightarrow> redis" where
  "del k r = r\<lparr>rd_hash := (rd_hash r)(k := (\<lambda>_. None)), rd_zset := (rd_zset r)(k := []),
     rd_str := (rd_str r)(k := None), rd_list := (rd_list r)(k := []), rd_attempt := (rd_attempt r)(k := None),
     rd_ttl := (rd_ttl r)(k := None)\<rparr>"

definition rpush :: "string \<Rightarrow> StateTransition \<Rightarrow> redis \<Rightarrow> redis" where
  "rpush k x r = r\<lparr>rd_list := (rd_list r)(k := rd_list r k @ [x])\<rparr>"

definition set_attempt :: "string \<Rightarrow> DeliveryAttempt \<Rightarrow> int option \<Rightarrow> redis \<Rightarrow> redis" where
  "set_attempt k x ttl r = r\<lparr>rd_attempt := (rd_attempt r)(k \<mapsto> x), rd_ttl := (rd_ttl r)(k := ttl)\<rparr>"

text \<open>One round trip.\<close>

definition rtrip :: "(redis \<Rightarrow> 'a \<times> redis) \<Rightarrow> redis \<Rightarrow> (gerr + 'a) \<times> redis" where
  "rtrip f r =
     (case rd_fates r of
        [] \<Rightarrow> (let (x, r') = f r in (Inr x, r'))
      | Answered # fs \<Rightarrow> (let (x, r') = f (r\<lparr>rd_fates := fs\<rparr>) in (Inr x, r'))
      | Request_lost # fs \<Rightarrow> (Inl (IOErr 0), r\<lparr>rd_fates := fs\<rparr>)
      | Reply_lost # fs \<Rightarrow> (let (x, r') = f (r\<lparr>rd_fates := fs\<rparr>) in (Inl (IOErr 0), r')))"

text \<open>A round trip whose reply can be an error of the server.\<close>

definition rtrip_sum :: "(redis \<Rightarrow> (gerr + 'a) \<times> redis) \<Rightarrow> redis \<Rightarrow> (gerr + 'a) \<times> redis" where
  "rtrip_sum f r = (let (x, r') = rtrip f r in (case x of Inl e \<Rightarrow> Inl e | Inr y \<Rightarrow> y, r'))"

text \<open>A key whose life ends disappears; the environment may do this to any key that has one.\<close>

definition key_dies :: "string \<Rightarrow> redis \<Rightarrow> redis" where
  "key_dies k r = (if rd_ttl r k = None then r else del k r)"

section \<open>Keys\<close>

definition keySession :: "string \<Rightarrow> string" where "keySession sid = ''session:'' @ sid"
definition keyUserSessions :: "int \<Rightarrow> string" where "keyUserSessions uid = ''user_sessions:'' @ FormatInt uid"
definition keyDeviceSession :: "int \<Rightarrow> string \<Rightarrow> string" where
  "keyDeviceSession uid dev = ''device_session:'' @ FormatInt uid @ '':'' @ dev"
definition keyMsgStatus :: "string \<Rightarrow> string" where "keyMsgStatus msgID = ''msg:'' @ msgID"
definition keyUserSeq :: "int \<Rightarrow> string" where "keyUserSeq uid = ''user_seq:'' @ FormatInt uid"
definition keyUserMsgs :: "int \<Rightarrow> string" where "keyUserMsgs uid = ''user_msgs:'' @ FormatInt uid"
definition keyOfflineQueue :: "int \<Rightarrow> string" where "keyOfflineQueue uid = ''offline:'' @ FormatInt uid"
definition keyKeySession :: "string \<Rightarrow> string" where "keyKeySession key = ''key_sid:'' @ key"
definition keyDeviceACKs :: "string \<Rightarrow> string" where "keyDeviceACKs msgID = ''msg_acks:'' @ msgID"
definition keyMsgAttempt :: "string \<Rightarrow> string" where "keyMsgAttempt msgID = ''msg_attempt:'' @ msgID"
definition keyServerOnline :: "string \<Rightarrow> string" where "keyServerOnline key = ''ol_'' @ key"
definition keyDeviceCursor :: "int \<Rightarrow> string \<Rightarrow> string" where
  "keyDeviceCursor uid dev = ''device_cursor:'' @ FormatInt uid @ '':'' @ dev"

definition keyStateTimeline :: "string \<Rightarrow> string" where "keyStateTimeline msgID = ''msg_state_timeline:'' @ msgID"
definition keyAttemptSeq :: "string \<Rightarrow> string" where "keyAttemptSeq msgID = ''attempt_seq:'' @ msgID"
definition keyAttempt :: "string \<Rightarrow> int \<Rightarrow> string" where
  "keyAttempt msgID attemptNo = ''attempt:'' @ msgID @ '':'' @ FormatInt attemptNo"

text \<open>The key an operation means, by kind and arguments.\<close>

datatype rkey =
    Session_key string | User_sessions int | Device_session int string | Msg_status string
  | User_seq int | User_msgs int | Offline_queue int | Key_session string | Device_acks string
  | Msg_attempt string | Server_online string | Device_cursor int string
  | State_timeline string | Attempt_seq string | Attempt string int

fun key_string :: "rkey \<Rightarrow> string" where
  "key_string (Session_key s) = keySession s"
| "key_string (User_sessions u) = keyUserSessions u"
| "key_string (Device_session u d) = keyDeviceSession u d"
| "key_string (Msg_status m) = keyMsgStatus m"
| "key_string (User_seq u) = keyUserSeq u"
| "key_string (User_msgs u) = keyUserMsgs u"
| "key_string (Offline_queue u) = keyOfflineQueue u"
| "key_string (Key_session s) = keyKeySession s"
| "key_string (Device_acks m) = keyDeviceACKs m"
| "key_string (Msg_attempt m) = keyMsgAttempt m"
| "key_string (Server_online s) = keyServerOnline s"
| "key_string (Device_cursor u d) = keyDeviceCursor u d"
| "key_string (State_timeline m) = keyStateTimeline m"
| "key_string (Attempt_seq m) = keyAttemptSeq m"
| "key_string (Attempt m n) = keyAttempt m n"

lemmas key_defs = keySession_def keyUserSessions_def keyDeviceSession_def keyMsgStatus_def keyUserSeq_def
  keyUserMsgs_def keyOfflineQueue_def keyKeySession_def keyDeviceACKs_def keyMsgAttempt_def
  keyServerOnline_def keyDeviceCursor_def keyStateTimeline_def keyAttemptSeq_def keyAttempt_def

section \<open>Message status\<close>

definition week_ms :: int where "week_ms = 7 * 24 * 3600 * 1000"
definition month_ms :: int where "month_ms = 30 * 24 * 3600 * 1000"

definition SetMessageStatus :: "string \<Rightarrow> (string \<times> string) list \<Rightarrow> redis \<Rightarrow> (gerr + unit) \<times> redis" where
  "SetMessageStatus msgID fs =
     rtrip (\<lambda>r. ((), expire (keyMsgStatus msgID) week_ms (hset (keyMsgStatus msgID) fs r)))"

definition TrackMessageAtomic :: "string \<Rightarrow> (string \<times> string) list \<Rightarrow> redis \<Rightarrow> (gerr + bool) \<times> redis" where
  "TrackMessageAtomic msgID fs r =
     (if fs = [] then (Inr False, r)
      else rtrip (\<lambda>r. if key_exists (keyMsgStatus msgID) r then (False, r)
             else (True, expire (keyMsgStatus msgID) week_ms (hset (keyMsgStatus msgID) fs r))) r)"

definition AcquireDeliveryAttemptLock :: "string \<Rightarrow> string \<Rightarrow> int \<Rightarrow> redis \<Rightarrow> (gerr + bool) \<times> redis" where
  "AcquireDeliveryAttemptLock msgID token ttl =
     rtrip (\<lambda>r. if rd_str r (keyMsgAttempt msgID) \<noteq> None then (False, r)
             else (True, set_str (keyMsgAttempt msgID) token (Some (if ttl \<le> 0 then 10000 else ttl)) r))"

definition ReleaseDeliveryAttemptLock :: "string \<Rightarrow> string \<Rightarrow> redis \<Rightarrow> (gerr + unit) \<times> redis" where
  "ReleaseDeliveryAttemptLock msgID token =
     rtrip (\<lambda>r. ((), if rd_str r (keyMsgAttempt msgID) = Some token then del (keyMsgAttempt msgID) r else r))"

definition SetMessageStatusNX :: "string \<Rightarrow> string \<Rightarrow> string \<Rightarrow> redis \<Rightarrow> (gerr + bool) \<times> redis" where
  "SetMessageStatusNX msgID field v =
     rtrip (\<lambda>r. if rd_hash r (keyMsgStatus msgID) field \<noteq> None then (False, r)
             else (True, hset (keyMsgStatus msgID) [(field, v)] r))"

definition GetMessageStatus :: "string \<Rightarrow> redis \<Rightarrow> (gerr + hash) \<times> redis" where
  "GetMessageStatus msgID = rtrip (\<lambda>r. (rd_hash r (keyMsgStatus msgID), r))"

definition BatchGetMessageStatus :: "string list \<Rightarrow> redis \<Rightarrow> (gerr + hash list) \<times> redis" where
  "BatchGetMessageStatus msgIDs r =
     (if msgIDs = [] then (Inr [], r)
      else rtrip (\<lambda>r. (map (\<lambda>m. rd_hash r (keyMsgStatus m)) msgIDs, r)) r)"

definition UpdateMessageStatus :: "int \<Rightarrow> string \<Rightarrow> string \<Rightarrow> redis \<Rightarrow> (gerr + unit) \<times> redis" where
  "UpdateMessageStatus now msgID status =
     rtrip (\<lambda>r. ((), hset (keyMsgStatus msgID) [(''status'', status), (''updated_at'', FormatInt now)] r))"

section \<open>Sequence numbers\<close>

text \<open>A counter: a missing one counts from 0, and an overflow of 64 bits is refused.\<close>

definition incrby :: "string \<Rightarrow> int \<Rightarrow> redis \<Rightarrow> (gerr + int) \<times> redis" where
  "incrby k d r =
     (case (case rd_str r k of None \<Rightarrow> Inr 0 | Some s \<Rightarrow> ParseInt s 64) of
        Inl e \<Rightarrow> (Inl e, r)
      | Inr v \<Rightarrow>
          if v + d < - (2 ^ 63) \<or> 2 ^ 63 \<le> v + d then (Inl (Text ''increment or decrement would overflow''), r)
          else (Inr (v + d), r\<lparr>rd_str := (rd_str r)(k \<mapsto> FormatInt (v + d))\<rparr>))"

definition IncrUserSeqBy :: "int \<Rightarrow> int \<Rightarrow> redis \<Rightarrow> (gerr + int) \<times> redis" where
  "IncrUserSeqBy uid delta = rtrip_sum (incrby (keyUserSeq uid) (if delta \<le> 0 then 1 else delta))"

definition IncrUserSeq :: "int \<Rightarrow> redis \<Rightarrow> (gerr + int) \<times> redis" where
  "IncrUserSeq uid = IncrUserSeqBy uid 1"

definition GetUserMaxSeq :: "int \<Rightarrow> redis \<Rightarrow> (gerr + int) \<times> redis" where
  "GetUserMaxSeq uid = rtrip_sum (\<lambda>r. (case rd_str r (keyUserSeq uid) of None \<Rightarrow> Inr 0 | Some s \<Rightarrow> ParseInt s 64, r))"

definition AddUserMessage :: "int \<Rightarrow> string \<Rightarrow> int \<Rightarrow> redis \<Rightarrow> (gerr + unit) \<times> redis" where
  "AddUserMessage uid msgID sq =
     rtrip (\<lambda>r. ((), expire (keyUserMsgs uid) month_ms
       (zadd (keyUserMsgs uid) sq msgID (hset (keyMsgStatus msgID) [(''seq'', FormatInt sq)] r))))"

definition GetUserMessagesAfterSeq :: "int \<Rightarrow> int \<Rightarrow> int \<Rightarrow> redis \<Rightarrow> (gerr + string list) \<times> redis" where
  "GetUserMessagesAfterSeq uid lastSeq limit =
     rtrip (\<lambda>r. (zrange_after (rd_zset r (keyUserMsgs uid)) lastSeq (if limit \<le> 0 then 100 else nat limit), r))"

section \<open>The offline queue\<close>

text \<open>Two round trips; an error of the second is returned although the message is in the queue.\<close>

definition AddToOfflineQueue :: "int \<Rightarrow> string \<Rightarrow> int \<Rightarrow> redis \<Rightarrow> (gerr + unit) \<times> redis" where
  "AddToOfflineQueue uid msgID sq r =
     (case rtrip (\<lambda>r. ((), zadd (keyOfflineQueue uid) sq msgID r)) r of
        (Inl e, r1) \<Rightarrow> (Inl e, r1)
      | (Inr _, r1) \<Rightarrow> rtrip (\<lambda>r. ((), expire (keyOfflineQueue uid) week_ms r)) r1)"

definition RemoveFromOfflineQueue :: "int \<Rightarrow> string \<Rightarrow> redis \<Rightarrow> (gerr + unit) \<times> redis" where
  "RemoveFromOfflineQueue uid msgID = rtrip (\<lambda>r. ((), zrem (keyOfflineQueue uid) msgID r))"

definition GetOfflineQueue :: "int \<Rightarrow> int \<Rightarrow> int \<Rightarrow> redis \<Rightarrow> (gerr + string list) \<times> redis" where
  "GetOfflineQueue uid lastSeq limit =
     rtrip (\<lambda>r. (zrange_after (rd_zset r (keyOfflineQueue uid)) lastSeq (nat limit), r))"

definition GetOfflineQueueSize :: "int \<Rightarrow> redis \<Rightarrow> (gerr + nat) \<times> redis" where
  "GetOfflineQueueSize uid = rtrip (\<lambda>r. (length (rd_zset r (keyOfflineQueue uid)), r))"

definition RecordDeviceACK :: "string \<Rightarrow> string \<Rightarrow> string \<Rightarrow> int \<Rightarrow> redis \<Rightarrow> (gerr + unit) \<times> redis" where
  "RecordDeviceACK msgID deviceID sessionID ackTime =
     (let q = [CHR 0x22];
          v = ''{'' @ q @ ''session_id'' @ q @ '':'' @ q @ sessionID @ q @ '','' @ q @ ''ack_time'' @ q @ '':''
              @ FormatInt ackTime @ ''}''
      in rtrip (\<lambda>r. ((), expire (keyDeviceACKs msgID) week_ms (hset (keyDeviceACKs msgID) [(deviceID, v)] r))))"

section \<open>Device cursors\<close>

definition the_device :: "string \<Rightarrow> string" where
  "the_device deviceID = (if deviceID = [] then ''default'' else deviceID)"

definition GetDeviceCursor :: "int \<Rightarrow> string \<Rightarrow> redis \<Rightarrow> (gerr + int) \<times> redis" where
  "GetDeviceCursor uid deviceID =
     rtrip_sum (\<lambda>r. (case rd_str r (keyDeviceCursor uid (the_device deviceID)) of
        None \<Rightarrow> Inr 0 | Some s \<Rightarrow> ParseInt s 64, r))"

definition GetOfflineMessagesByDeviceCursor :: "int \<Rightarrow> string \<Rightarrow> int \<Rightarrow> redis \<Rightarrow> (gerr + string list) \<times> redis" where
  "GetOfflineMessagesByDeviceCursor uid deviceID limit r =
     (case GetDeviceCursor uid deviceID r of
        (Inl e, r1) \<Rightarrow> (Inl e, r1)
      | (Inr lastSeq, r1) \<Rightarrow> GetUserMessagesAfterSeq uid lastSeq limit r1)"

text \<open>The reading of the current position ignores its error and takes 0 then.\<close>

definition AdvanceDeviceCursor :: "int \<Rightarrow> string \<Rightarrow> int \<Rightarrow> redis \<Rightarrow> (gerr + unit) \<times> redis" where
  "AdvanceDeviceCursor uid deviceID sq r =
     (let k = keyDeviceCursor uid (the_device deviceID);
          (c, r1) = rtrip_sum (\<lambda>r. (case rd_str r k of None \<Rightarrow> Inr 0 | Some s \<Rightarrow> ParseInt s 64, r)) r;
          current = (case c of Inl _ \<Rightarrow> 0 | Inr v \<Rightarrow> v)
      in if sq \<le> current then (Inr (), r1)
         else rtrip (\<lambda>r. ((), set_str k (FormatInt sq) (Some month_ms) r)) r1)"

section \<open>Sessions\<close>

definition AddSession :: "int \<Rightarrow> int \<Rightarrow> string \<Rightarrow> int \<Rightarrow> string \<Rightarrow> string \<Rightarrow> string \<Rightarrow> string \<Rightarrow> redis
    \<Rightarrow> (gerr + unit) \<times> redis" where
  "AddSession life now sid uid key deviceID platform server =
     rtrip (\<lambda>r.
       let r1 = expire (keySession sid) life (hset (keySession sid)
                  [(''uid'', FormatInt uid), (''key'', key), (''device_id'', deviceID), (''platform'', platform),
                   (''server'', server), (''created_at'', FormatInt now), (''last_hb'', FormatInt now)] r);
           r2 = expire (keyUserSessions uid) life (hset (keyUserSessions uid) [(sid, deviceID @ '':'' @ platform)] r1);
           r3 = set_str (keyDeviceSession uid deviceID) sid (Some life) r2
       in ((), set_str (keyKeySession key) sid (Some life) r3))"

definition GetSession :: "string \<Rightarrow> redis \<Rightarrow> (gerr + hash) \<times> redis" where
  "GetSession sid = rtrip (\<lambda>r. (rd_hash r (keySession sid), r))"

definition str_or_empty :: "string option \<Rightarrow> string" where
  "str_or_empty x = (case x of None \<Rightarrow> [] | Some s \<Rightarrow> s)"

definition GetSessionByKey :: "string \<Rightarrow> redis \<Rightarrow> (gerr + string) \<times> redis" where
  "GetSessionByKey key = rtrip (\<lambda>r. (str_or_empty (rd_str r (keyKeySession key)), r))"

definition GetUserSessions :: "int \<Rightarrow> redis \<Rightarrow> (gerr + hash) \<times> redis" where
  "GetUserSessions uid = rtrip (\<lambda>r. (rd_hash r (keyUserSessions uid), r))"

definition GetDeviceSession :: "int \<Rightarrow> string \<Rightarrow> redis \<Rightarrow> (gerr + string) \<times> redis" where
  "GetDeviceSession uid deviceID = rtrip (\<lambda>r. (str_or_empty (rd_str r (keyDeviceSession uid deviceID)), r))"

definition DelSession :: "string \<Rightarrow> int \<Rightarrow> string \<Rightarrow> string \<Rightarrow> redis \<Rightarrow> (gerr + unit) \<times> redis" where
  "DelSession sid uid deviceID key =
     rtrip (\<lambda>r.
       let r1 = del (keySession sid) r;
           r2 = (if 0 < uid then hdel (keyUserSessions uid) sid r1 else r1);
           r3 = (if deviceID \<noteq> [] then del (keyDeviceSession uid deviceID) r2 else r2)
       in ((), if key \<noteq> [] then del (keyKeySession key) r3 else r3))"

definition ExpireSession :: "int \<Rightarrow> string \<Rightarrow> int \<Rightarrow> redis \<Rightarrow> (gerr + unit) \<times> redis" where
  "ExpireSession life sid uid =
     rtrip (\<lambda>r. let r1 = expire (keySession sid) life r
                in ((), if 0 < uid then expire (keyUserSessions uid) life r1 else r1))"

section \<open>Keys never meet\<close>

lemma decimal_inj: "decimal m = decimal n \<Longrightarrow> m = n"
proof -
  assume e: "decimal m = decimal n"
  have b: "m < 2 ^ (m + n)" "n < 2 ^ (m + n)"
    by (rule le_less_trans [OF _ less_exp], simp)+
  show "m = n" using parse_decimal [OF b(1)] parse_decimal [OF b(2)] unfolding e by (metis sum.inject(2))
qed

lemma FormatInt_inj: "FormatInt m = FormatInt n \<longleftrightarrow> m = n"
proof
  assume e: "FormatInt m = FormatInt n"
  have d: "CHR ''-'' # xs \<noteq> decimal k" for xs k
    using is_digit_signs [OF decimal_digits [OF hd_in_set [OF decimal_nonempty [of k]]]] by (metis list.sel(1))
  then have d': "decimal k \<noteq> CHR ''-'' # xs" for xs k by metis
  have "(m < 0) = (n < 0)"
    using e d d' by (auto simp: FormatInt_def split: if_splits)
  with e show "m = n" by (auto simp: FormatInt_def dest!: decimal_inj split: if_splits)
qed simp

text \<open>A number followed by a colon can be read off the front.\<close>

lemma number_colon_inj:
  assumes "FormatInt m @ CHR '':'' # s = FormatInt n @ CHR '':'' # t"
  shows "m = n \<and> s = t"
proof -
  have "CHR '':'' \<notin> set (FormatInt k)" for k
    using FormatInt_chars [of "CHR '':''" k] by (auto simp: is_digit_def)
  then have "takeWhile (\<lambda>c. c \<noteq> CHR '':'') (FormatInt k @ CHR '':'' # u) = FormatInt k" for k u
    by (subst takeWhile_append2) auto
  from this [of m s] this [of n t] assms show ?thesis by (simp add: FormatInt_inj)
qed

text \<open>A number after a colon can be read off the end.\<close>

lemma colon_number_inj:
  assumes "s @ CHR '':'' # FormatInt m = t @ CHR '':'' # FormatInt n"
  shows "s = t \<and> m = n"
proof -
  have c: "CHR '':'' \<notin> set (rev (FormatInt k))" for k
    using FormatInt_chars [of "CHR '':''" k] by (auto simp: is_digit_def)
  have t: "takeWhile (\<lambda>c. c \<noteq> CHR '':'') (rev (u @ CHR '':'' # FormatInt k)) = rev (FormatInt k)"
    "dropWhile (\<lambda>c. c \<noteq> CHR '':'') (rev (u @ CHR '':'' # FormatInt k)) = CHR '':'' # rev u" for u k
    using c [of k] by (simp_all, subst takeWhile_append2, auto, subst dropWhile_append2, auto)
  have "rev (FormatInt m) = rev (FormatInt n)" "rev s = rev t"
    using t [of s m] t [of t n] assms by auto
  then show ?thesis by (simp add: FormatInt_inj)
qed

lemma colon_number_iff:
  "s @ CHR '':'' # FormatInt m = t @ CHR '':'' # FormatInt n \<longleftrightarrow> s = t \<and> m = n"
  using colon_number_inj by blast

lemma number_colon_iff:
  "FormatInt m @ CHR '':'' # s = FormatInt n @ CHR '':'' # t \<longleftrightarrow> m = n \<and> s = t"
  using number_colon_inj by blast

text \<open>No two operations on different things meet in one key: the keys of all kinds, for all
  arguments, are different strings.\<close>

theorem keys_distinct: "key_string a = key_string b \<longleftrightarrow> a = b"
proof
  assume "key_string a = key_string b"
  then show "a = b"
    by (cases a; cases b) (simp_all add: key_defs FormatInt_inj number_colon_iff colon_number_iff)
qed simp

section \<open>What the server commands do\<close>

lemma foldl_upd_other: "f \<notin> fst ` set fvs \<Longrightarrow> foldl (\<lambda>h (f, v). h(f \<mapsto> v)) h fvs f = h f"
  by (induction fvs arbitrary: h) auto

lemma foldl_upd_dom: "f \<in> fst ` set fvs \<Longrightarrow> foldl (\<lambda>h (f, v). h(f \<mapsto> v)) h fvs f \<noteq> None"
proof (induction fvs arbitrary: h)
  case (Cons p fvs)
  obtain k v where p: "p = (k, v)" by (cases p)
  show ?case
  proof (cases "f \<in> fst ` set fvs")
    case True
    with Cons.IH p show ?thesis by simp
  next
    case False
    then have f: "f = k" using Cons.prems p by simp
    have "foldl (\<lambda>h (f, v). h(f \<mapsto> v)) h (p # fvs) f = (h(k \<mapsto> v)) f"
      using foldl_upd_other [OF False, of "h(k \<mapsto> v)"] p by (simp only: foldl.simps prod.case)
    with f show ?thesis by (simp only: fun_upd_same option.distinct not_False_eq_True)
  qed
qed simp

lemma foldl_upd_map_of:
  "distinct (map fst fvs) \<Longrightarrow> foldl (\<lambda>h (f, v). h(f \<mapsto> v)) h fvs = h ++ map_of fvs"
proof (induction fvs arbitrary: h)
  case (Cons p fvs)
  then have "map_of fvs (fst p) = None" by (simp add: map_of_eq_None_iff)
  with Cons show ?case by (cases p) (auto simp: fun_eq_iff map_add_def split: option.splits)
qed simp

lemmas command_defs = hset_def zadd_def zrem_def expire_def set_str_def del_def hdel_def reap_def rpush_def
  set_attempt_def

lemma command_simps [simp]:
  "rd_hash (hset k fvs r) = (rd_hash r)(k := foldl (\<lambda>h (f, v). h(f \<mapsto> v)) (rd_hash r k) fvs)"
  "rd_zset (hset k fvs r) = rd_zset r" "rd_str (hset k fvs r) = rd_str r" "rd_ttl (hset k fvs r) = rd_ttl r"
  "rd_hash (zadd k s m r) = rd_hash r" "rd_str (zadd k s m r) = rd_str r" "rd_ttl (zadd k s m r) = rd_ttl r"
  "rd_zset (zadd k s m r) = (rd_zset r)(k := insort (s, m) (filter (\<lambda>p. snd p \<noteq> m) (rd_zset r k)))"
  "rd_hash (zrem k m r) = rd_hash r" "rd_str (zrem k m r) = rd_str r"
  "rd_zset (zrem k m r) = (rd_zset r)(k := filter (\<lambda>p. snd p \<noteq> m) (rd_zset r k))"
  "rd_hash (expire k t r) = rd_hash r" "rd_zset (expire k t r) = rd_zset r" "rd_str (expire k t r) = rd_str r"
  "rd_hash (set_str k v l r) = rd_hash r" "rd_zset (set_str k v l r) = rd_zset r"
  "rd_str (set_str k v l r) = (rd_str r)(k \<mapsto> v)" "rd_ttl (set_str k v l r) = (rd_ttl r)(k := l)"
  "rd_hash (del k r) = (rd_hash r)(k := (\<lambda>_. None))" "rd_zset (del k r) = (rd_zset r)(k := [])"
  "rd_str (del k r) = (rd_str r)(k := None)" "rd_ttl (del k r) = (rd_ttl r)(k := None)"
  "rd_hash (hdel k f r) = (rd_hash r)(k := (rd_hash r k)(f := None))"
  "rd_zset (hdel k f r) = rd_zset r" "rd_str (hdel k f r) = rd_str r"
  "rd_hash (rpush k x r) = rd_hash r" "rd_zset (rpush k x r) = rd_zset r" "rd_str (rpush k x r) = rd_str r"
  "rd_hash (set_attempt k y l r) = rd_hash r" "rd_zset (set_attempt k y l r) = rd_zset r"
  "rd_str (set_attempt k y l r) = rd_str r"
  by (simp_all add: command_defs)

lemma list_simps [simp]:
  "rd_list (rpush k x r) = (rd_list r)(k := rd_list r k @ [x])" "rd_list (del k r) = (rd_list r)(k := [])"
  "rd_list (hset k fvs r) = rd_list r" "rd_list (zadd k s m r) = rd_list r" "rd_list (zrem k m r) = rd_list r"
  "rd_list (expire k t r) = rd_list r" "rd_list (set_str k v l r) = rd_list r" "rd_list (hdel k f r) = rd_list r"
  "rd_list (set_attempt k y l r) = rd_list r"
  "rd_attempt (set_attempt k y l r) = (rd_attempt r)(k \<mapsto> y)" "rd_attempt (del k r) = (rd_attempt r)(k := None)"
  "rd_attempt (hset k fvs r) = rd_attempt r" "rd_attempt (zadd k s m r) = rd_attempt r"
  "rd_attempt (zrem k m r) = rd_attempt r" "rd_attempt (expire k t r) = rd_attempt r"
  "rd_attempt (set_str k v l r) = rd_attempt r" "rd_attempt (hdel k f r) = rd_attempt r"
  "rd_attempt (rpush k x r) = rd_attempt r"
  by (simp_all add: command_defs)

lemma fates_simps [simp]:
  "rd_fates (hset k fvs r) = rd_fates r" "rd_fates (zadd k s m r) = rd_fates r" "rd_fates (zrem k m r) = rd_fates r"
  "rd_fates (expire k t r) = rd_fates r" "rd_fates (set_str k v l r) = rd_fates r" "rd_fates (del k r) = rd_fates r"
  "rd_fates (hdel k f r) = rd_fates r" "rd_fates (rpush k x r) = rd_fates r"
  "rd_fates (set_attempt k y l r) = rd_fates r"
  by (simp_all add: command_defs)

text \<open>The server's data, without the fates.\<close>

definition same_data :: "redis \<Rightarrow> redis \<Rightarrow> bool" where
  "same_data r r' \<longleftrightarrow> rd_hash r' = rd_hash r \<and> rd_zset r' = rd_zset r \<and> rd_str r' = rd_str r
     \<and> rd_list r' = rd_list r \<and> rd_attempt r' = rd_attempt r \<and> rd_ttl r' = rd_ttl r"

text \<open>A round trip runs the command or does nothing; it reports success only when it ran.\<close>

lemma rtrip_cases:
  obtains (ran) q x r' where "same_data r q" "f q = (x, r')" "rtrip f r = (Inr x, r')"
    | (unsure) q x r' e where "same_data r q" "f q = (x, r')" "rtrip f r = (Inl e, r')"
    | (lost) q e where "same_data r q" "rtrip f r = (Inl e, q)"
proof (cases "rd_fates r")
  case Nil
  obtain x r' where "f r = (x, r')" by (cases "f r")
  with Nil show thesis by (intro ran [of r x r']) (simp_all add: rtrip_def same_data_def)
next
  case (Cons a fs)
  let ?q = "r\<lparr>rd_fates := fs\<rparr>"
  have d: "same_data r ?q" by (simp add: same_data_def)
  obtain x r' where f: "f ?q = (x, r')" by (cases "f ?q")
  show thesis
  proof (cases a)
    case Answered
    with Cons f show thesis by (intro ran [OF d f]) (simp add: rtrip_def)
  next
    case Request_lost
    with Cons show thesis by (intro lost [OF d]) (simp add: rtrip_def)
  next
    case Reply_lost
    with Cons f show thesis by (intro unsure [OF d f]) (simp add: rtrip_def)
  qed
qed

lemma rtrip_fine [simp]: "rd_fates r = [] \<Longrightarrow> rtrip f r = (let (x, r') = f r in (Inr x, r'))"
  by (simp add: rtrip_def)

text \<open>An invariant of the data that the command keeps is kept by the round trip.\<close>

lemma rtrip_invariant:
  assumes "rtrip f r = (x, r')" "I r" "\<And>q q'. same_data q q' \<Longrightarrow> I q \<Longrightarrow> I q'" "\<And>q. I q \<Longrightarrow> I (snd (f q))"
  shows "I r'"
proof (cases rule: rtrip_cases [of r f])
  case (ran q y r1)
  with assms(1) assms(4) [OF assms(3) [OF ran(1) assms(2)]] show ?thesis by simp
next
  case (unsure q y r1 e)
  with assms(1) assms(4) [OF assms(3) [OF unsure(1) assms(2)]] show ?thesis by simp
next
  case (lost q e)
  with assms(1) assms(3) [OF lost(1) assms(2)] show ?thesis by simp
qed

section \<open>Claims\<close>

text \<open>An operation by which callers compete for something: the first to get a positive answer has it.\<close>

locale exclusive_claim =
  fixes claim :: "'m \<Rightarrow> 'v \<Rightarrow> redis \<Rightarrow> (gerr + bool) \<times> redis" and claimed :: "'m \<Rightarrow> redis \<Rightarrow> bool"
  assumes claim_wins: "claim m v r = (Inr True, r') \<Longrightarrow> \<not> claimed m r \<and> claimed m r'"
    and claim_keeps: "claim m v r = (x, r') \<Longrightarrow> claimed m' r \<Longrightarrow> claimed m' r'"

fun claim_run :: "('m \<Rightarrow> 'v \<Rightarrow> redis \<Rightarrow> (gerr + bool) \<times> redis) \<Rightarrow> ('m \<times> 'v) list \<Rightarrow> redis \<Rightarrow> ('m \<times> (gerr + bool)) list \<times> redis"
  where
  "claim_run claim [] r = ([], r)"
| "claim_run claim ((m, v) # cs) r =
     (let (x, r1) = claim m v r; (xs, r2) = claim_run claim cs r1 in ((m, x) # xs, r2))"

definition winners :: "'m \<Rightarrow> ('m \<times> (gerr + bool)) list \<Rightarrow> nat" where
  "winners m xs = length (filter (\<lambda>p. p = (m, Inr True)) xs)"

context exclusive_claim begin

lemma run_claimed: "claimed m r \<Longrightarrow> winners m (fst (claim_run claim cs r)) = 0"
proof (induction cs arbitrary: r)
  case (Cons c cs)
  obtain k v where c: "c = (k, v)" by (cases c)
  obtain x r1 where x: "claim k v r = (x, r1)" by (cases "claim k v r")
  have "claimed m r1" by (rule claim_keeps [OF x Cons.prems])
  moreover have "k = m \<Longrightarrow> x \<noteq> Inr True" using claim_wins x Cons.prems by blast
  ultimately show ?case using Cons.IH [of r1] c x by (auto simp: winners_def split: prod.splits)
qed (simp add: winners_def)

lemma run_one_winner: "winners m (fst (claim_run claim cs r)) \<le> 1"
proof (induction cs arbitrary: r)
  case (Cons c cs)
  obtain k v where c: "c = (k, v)" by (cases c)
  obtain x r1 where x: "claim k v r = (x, r1)" by (cases "claim k v r")
  show ?case
  proof (cases "k = m \<and> x = Inr True")
    case True
    then have "claimed m r1" using claim_wins x by blast
    from run_claimed [OF this, of cs] show ?thesis using c x by (auto simp: winners_def split: prod.splits)
  next
    case False
    with Cons.IH [of r1] c x show ?thesis by (auto simp: winners_def split: prod.splits)
  qed
qed (simp add: winners_def)

end

lemma hset_key_exists: "fvs \<noteq> [] \<Longrightarrow> key_exists k (hset k fvs r)"
proof -
  assume "fvs \<noteq> []"
  then have "fst (hd fvs) \<in> fst ` set fvs" by simp
  from foldl_upd_dom [OF this, of "rd_hash r k"] show ?thesis by (auto simp: key_exists_def fun_eq_iff)
qed

lemma key_exists_simps [simp]: "key_exists k (expire k' t r) = key_exists k r"
  by (simp add: key_exists_def)

text \<open>A message is tracked when its hash exists; the lock of a message is taken when its key is set.\<close>

abbreviation msg_tracked :: "string \<Rightarrow> redis \<Rightarrow> bool" where
  "msg_tracked m r \<equiv> key_exists (keyMsgStatus m) r"

lemma msg_keys_inj [simp]:
  "keyMsgStatus m = keyMsgStatus m' \<longleftrightarrow> m = m'" "keyMsgAttempt m = keyMsgAttempt m' \<longleftrightarrow> m = m'"
  by (simp_all add: keyMsgStatus_def keyMsgAttempt_def)

lemma hset_keeps_keys: "key_exists k r \<Longrightarrow> key_exists k (hset k' fvs r)"
proof (cases "k = k' \<and> fvs \<noteq> []")
  case False
  then show "key_exists k r \<Longrightarrow> ?thesis" by (cases "k = k'") (auto simp: key_exists_def)
qed (auto intro: hset_key_exists)

lemma same_data_key_exists: "same_data r q \<Longrightarrow> key_exists k q = key_exists k r"
  by (simp add: same_data_def key_exists_def)

text \<open>The general form of a claim: test, and set when the test fails.\<close>

lemma test_and_set_claim:
  assumes f: "f = (\<lambda>r. if claimed m r then (False, r) else (True, set1 r))"
    and data: "\<And>k q q'. same_data q q' \<Longrightarrow> claimed k q' = claimed k q"
    and sets: "\<And>q. claimed m (set1 q)" and keeps: "\<And>k q. claimed k q \<Longrightarrow> claimed k (set1 q)"
    and run: "rtrip f r = (x, r')"
  shows "x = Inr True \<Longrightarrow> \<not> claimed m r \<and> claimed m r'" "claimed k r \<Longrightarrow> claimed k r'"
proof -
  have "(x = Inr True \<longrightarrow> \<not> claimed m r \<and> claimed m r') \<and> (claimed k r \<longrightarrow> claimed k r')"
  proof (cases rule: rtrip_cases [of r f])
    case (ran q y r1)
    with run sets keeps data [OF ran(1)] show ?thesis unfolding f by (auto split: if_splits)
  next
    case (unsure q y r1 e)
    with run keeps data [OF unsure(1)] show ?thesis unfolding f by (auto split: if_splits)
  next
    case (lost q e)
    with run data [OF lost(1)] show ?thesis by auto
  qed
  then show "x = Inr True \<Longrightarrow> \<not> claimed m r \<and> claimed m r'" "claimed k r \<Longrightarrow> claimed k r'" by blast+
qed

lemma TrackMessageAtomic_claim:
  assumes "TrackMessageAtomic m fs r = (x, r')"
  shows "x = Inr True \<Longrightarrow> \<not> msg_tracked m r \<and> msg_tracked m r'" "msg_tracked k r \<Longrightarrow> msg_tracked k r'"
proof -
  let ?set = "\<lambda>r. expire (keyMsgStatus m) week_ms (hset (keyMsgStatus m) fs r)"
  have "(x = Inr True \<longrightarrow> \<not> msg_tracked m r \<and> msg_tracked m r') \<and> (msg_tracked k r \<longrightarrow> msg_tracked k r')"
  proof (cases "fs = []")
    case True
    with assms show ?thesis by (auto simp: TrackMessageAtomic_def)
  next
    case False
    then have run: "rtrip (\<lambda>r. if msg_tracked m r then (False, r) else (True, ?set r)) r = (x, r')"
      using assms by (simp add: TrackMessageAtomic_def)
    note C = test_and_set_claim [of _ "\<lambda>m r. msg_tracked m r", OF refl _ _ _ run]
    have "x = Inr True \<Longrightarrow> \<not> msg_tracked m r \<and> msg_tracked m r'"
      by (rule C(1)) (simp_all add: same_data_key_exists hset_key_exists [OF False] hset_keeps_keys)
    moreover have "msg_tracked k r \<Longrightarrow> msg_tracked k r'"
      by (rule C(2)) (simp_all add: same_data_key_exists hset_key_exists [OF False] hset_keeps_keys)
    ultimately show ?thesis by blast
  qed
  then show "x = Inr True \<Longrightarrow> \<not> msg_tracked m r \<and> msg_tracked m r'" "msg_tracked k r \<Longrightarrow> msg_tracked k r'"
    by blast+
qed

interpretation track: exclusive_claim TrackMessageAtomic msg_tracked
proof unfold_locales
  show "\<not> msg_tracked m r \<and> msg_tracked m r'"
    if "TrackMessageAtomic m fs r = (Inr True, r')" for m fs r r'
    using TrackMessageAtomic_claim(1) [OF that] by simp
  show "msg_tracked m' r'" if "TrackMessageAtomic m fs r = (x, r')" "msg_tracked m' r" for m fs r x r' m'
    by (rule TrackMessageAtomic_claim(2) [OF that])
qed

interpretation status_nx: exclusive_claim "\<lambda>m. SetMessageStatusNX m field" "\<lambda>m r. rd_hash r (keyMsgStatus m) field \<noteq> None"
  for field
proof unfold_locales
  fix m m' v r x r'
  assume "SetMessageStatusNX m field v r = (x, r')"
  then have run: "rtrip (\<lambda>r. if rd_hash r (keyMsgStatus m) field \<noteq> None then (False, r)
      else (True, hset (keyMsgStatus m) [(field, v)] r)) r = (x, r')" by (simp add: SetMessageStatusNX_def)
  note C = test_and_set_claim [of _ "\<lambda>m r. rd_hash r (keyMsgStatus m) field \<noteq> None", OF refl _ _ _ run]
  show "rd_hash r (keyMsgStatus m') field \<noteq> None \<Longrightarrow> rd_hash r' (keyMsgStatus m') field \<noteq> None"
    by (rule C(2)) (auto simp: same_data_def)
next
  fix m v r r'
  assume "SetMessageStatusNX m field v r = (Inr True, r')"
  then have run: "rtrip (\<lambda>r. if rd_hash r (keyMsgStatus m) field \<noteq> None then (False, r)
      else (True, hset (keyMsgStatus m) [(field, v)] r)) r = (Inr True, r')" by (simp add: SetMessageStatusNX_def)
  note C = test_and_set_claim [of _ "\<lambda>m r. rd_hash r (keyMsgStatus m) field \<noteq> None", OF refl _ _ _ run]
  show "\<not> rd_hash r (keyMsgStatus m) field \<noteq> None \<and> rd_hash r' (keyMsgStatus m) field \<noteq> None"
    by (rule C(1)) (auto simp: same_data_def)
qed

abbreviation lock_taken :: "string \<Rightarrow> redis \<Rightarrow> bool" where
  "lock_taken m r \<equiv> rd_str r (keyMsgAttempt m) \<noteq> None"

lemma Acquire_claim:
  assumes "AcquireDeliveryAttemptLock m tok ttl r = (x, r')"
  shows "x = Inr True \<Longrightarrow> \<not> lock_taken m r \<and> lock_taken m r'" "lock_taken k r \<Longrightarrow> lock_taken k r'"
proof -
  have run: "rtrip (\<lambda>r. if lock_taken m r then (False, r)
      else (True, set_str (keyMsgAttempt m) tok (Some (if ttl \<le> 0 then 10000 else ttl)) r)) r = (x, r')"
    using assms by (simp add: AcquireDeliveryAttemptLock_def)
  note C = test_and_set_claim [of _ "\<lambda>m r. lock_taken m r", OF refl _ _ _ run]
  show "x = Inr True \<Longrightarrow> \<not> lock_taken m r \<and> lock_taken m r'"
    by (rule C(1)) (auto simp: same_data_def)
  show "lock_taken k r \<Longrightarrow> lock_taken k r'"
    by (rule C(2)) (auto simp: same_data_def)
qed

interpretation attempt_lock: exclusive_claim "\<lambda>m tok. AcquireDeliveryAttemptLock m tok ttl" lock_taken for ttl
proof unfold_locales
  show "\<not> lock_taken m r \<and> lock_taken m r'"
    if "AcquireDeliveryAttemptLock m tok ttl r = (Inr True, r')" for m tok r r'
    using Acquire_claim(1) [OF that] by simp
  show "lock_taken m' r'" if "AcquireDeliveryAttemptLock m tok ttl r = (x, r')" "lock_taken m' r" for m tok r x r' m'
    by (rule Acquire_claim(2) [OF that])
qed


text \<open>The operations on the lock of a message by others, who use other tokens.\<close>

datatype lock_op = Acquire string int | Release string

fun lock_step :: "string \<Rightarrow> lock_op \<Rightarrow> redis \<Rightarrow> (gerr + bool) \<times> redis" where
  "lock_step m (Acquire tok ttl) r = AcquireDeliveryAttemptLock m tok ttl r"
| "lock_step m (Release tok) r = (let (x, r') = ReleaseDeliveryAttemptLock m tok r in (map_sum id (\<lambda>_. False) x, r'))"

fun lock_run :: "string \<Rightarrow> lock_op list \<Rightarrow> redis \<Rightarrow> (gerr + bool) list \<times> redis" where
  "lock_run m [] r = ([], r)"
| "lock_run m (c # cs) r =
     (let (x, r1) = lock_step m c r; (xs, r2) = lock_run m cs r1 in (x # xs, r2))"

fun op_token :: "lock_op \<Rightarrow> string" where
  "op_token (Acquire tok ttl) = tok"
| "op_token (Release tok) = tok"

definition holds_lock :: "string \<Rightarrow> string \<Rightarrow> redis \<Rightarrow> bool" where
  "holds_lock m tok r \<longleftrightarrow> rd_str r (keyMsgAttempt m) = Some tok"

lemma lock_step_others:
  assumes "holds_lock m t r" "op_token c \<noteq> t" "lock_step m c r = (x, r')"
  shows "holds_lock m t r'" "x \<noteq> Inr True"
proof -
  have "holds_lock m t r' \<and> x \<noteq> Inr True"
  proof (cases c)
    case (Acquire tok ttl)
    let ?f = "\<lambda>r. if lock_taken m r then (False, r)
        else (True, set_str (keyMsgAttempt m) tok (Some (if ttl \<le> 0 then 10000 else ttl)) r)"
    have "rtrip ?f r = (x, r')" using assms(3) Acquire by (simp add: AcquireDeliveryAttemptLock_def)
    then show ?thesis
      using assms(1) by (cases rule: rtrip_cases [of r ?f]) (auto simp: holds_lock_def same_data_def)
  next
    case (Release tok)
    let ?f = "\<lambda>r. ((), if rd_str r (keyMsgAttempt m) = Some tok then del (keyMsgAttempt m) r else r)"
    obtain y where "rtrip ?f r = (y, r')" "x = map_sum id (\<lambda>_. False) y"
      using assms(3) Release by (auto simp: ReleaseDeliveryAttemptLock_def split: prod.splits)
    then show ?thesis
      using assms(1,2) Release by (cases rule: rtrip_cases [of r ?f]) (auto simp: holds_lock_def same_data_def)
  qed
  then show "holds_lock m t r'" "x \<noteq> Inr True" by blast+
qed

text \<open>While the holder of a delivery lock keeps it, nobody with another token gets or frees it,
  whatever they try and whatever happens to their round trips; the holder's own release frees it
  when it is answered.\<close>

theorem lock_excludes:
  assumes "holds_lock m t r" "\<forall>c \<in> set cs. op_token c \<noteq> t"
  shows "Inr True \<notin> set (fst (lock_run m cs r)) \<and> holds_lock m t (snd (lock_run m cs r))
    \<and> (rd_fates r = [] \<longrightarrow> \<not> lock_taken m (snd (ReleaseDeliveryAttemptLock m t r)))"
proof -
  have "Inr True \<notin> set (fst (lock_run m cs r)) \<and> holds_lock m t (snd (lock_run m cs r))"
    using assms
  proof (induction cs arbitrary: r)
    case (Cons c cs)
    obtain x r1 where x: "lock_step m c r = (x, r1)" by (cases "lock_step m c r")
    have t: "op_token c \<noteq> t" using Cons.prems(2) by simp
    note S = lock_step_others [OF Cons.prems(1) t x]
    from Cons.IH [OF S(1)] Cons.prems(2) S(2) x show ?case by (auto split: prod.splits)
  qed simp
  moreover have "rd_fates r = [] \<longrightarrow> \<not> lock_taken m (snd (ReleaseDeliveryAttemptLock m t r))"
    using assms(1) by (simp add: ReleaseDeliveryAttemptLock_def holds_lock_def)
  ultimately show ?thesis by blast
qed

theorem lock_excludes_witness:
  "Inr True \<notin> set (fst (lock_run ''m'' [Acquire ''b'' 0, Release ''b'']
      (snd (AcquireDeliveryAttemptLock ''m'' ''a'' 10000 empty_redis))))
   \<and> \<not> lock_taken ''m'' (snd (ReleaseDeliveryAttemptLock ''m'' ''a''
      (snd (AcquireDeliveryAttemptLock ''m'' ''a'' 10000 empty_redis))))"
proof -
  let ?r = "snd (AcquireDeliveryAttemptLock ''m'' ''a'' 10000 empty_redis)"
  have h: "holds_lock ''m'' ''a'' ?r" "rd_fates ?r = []"
    by (simp_all add: AcquireDeliveryAttemptLock_def empty_redis_def holds_lock_def)
  have t: "\<forall>c \<in> set [Acquire ''b'' 0, Release ''b'']. op_token c \<noteq> ''a''" by simp
  from lock_excludes [OF h(1) t] h(2) show ?thesis by blast
qed

section \<open>The shape of the sorted sets\<close>

text \<open>Every sorted set is in Redis order and has each member once.\<close>

definition zsets_ok :: "redis \<Rightarrow> bool" where
  "zsets_ok r \<longleftrightarrow> (\<forall>k. sorted (rd_zset r k) \<and> distinct (map snd (rd_zset r k)))"

lemma zsets_ok_same: "same_data r q \<Longrightarrow> zsets_ok r \<Longrightarrow> zsets_ok q"
  by (simp add: zsets_ok_def same_data_def)

lemma distinct_insort_snd:
  "snd p \<notin> snd ` set xs \<Longrightarrow> distinct (map snd (insort p xs)) = distinct (map snd xs)"
  by (induction xs) (auto simp: set_insort_key)

lemma zsets_ok_zadd [simp]: "zsets_ok r \<Longrightarrow> zsets_ok (zadd k s m r)"
proof -
  assume "zsets_ok r"
  then have "sorted (filter (\<lambda>p. snd p \<noteq> m) (rd_zset r k))" "distinct (map snd (filter (\<lambda>p. snd p \<noteq> m) (rd_zset r k)))"
    using sorted_filter [of id "rd_zset r k"] by (auto simp: zsets_ok_def distinct_map_filter)
  moreover have "m \<notin> snd ` set (filter (\<lambda>p. snd p \<noteq> m) (rd_zset r k))" by auto
  ultimately show ?thesis
    using \<open>zsets_ok r\<close> by (simp add: zsets_ok_def sorted_insort distinct_insort_snd)
qed

lemma zsets_ok_cmds [simp]:
  "zsets_ok r \<Longrightarrow> zsets_ok (zrem k m r)"
  "zsets_ok r \<Longrightarrow> zsets_ok (hset k fvs r)" "zsets_ok r \<Longrightarrow> zsets_ok (expire k t r)"
  "zsets_ok r \<Longrightarrow> zsets_ok (set_str k v l r)" "zsets_ok r \<Longrightarrow> zsets_ok (del k r)"
  "zsets_ok r \<Longrightarrow> zsets_ok (hdel k f r)"
  "zsets_ok r \<Longrightarrow> zsets_ok (rpush k x r)" "zsets_ok r \<Longrightarrow> zsets_ok (set_attempt k y l r)"
  using sorted_filter [of id, simplified]
  by (auto simp: zsets_ok_def distinct_map_filter)

end
