(* ===== verification/Delivery_State.thy ===== *)
theory Delivery_State
  imports Redis_Store "HOL-Library.Sublist"
begin

text \<open>
  The life of a message: \<open>internal/router/state.go\<close> (the states, the table of legal transitions, the
  recorder that keeps the current state and the timeline of a message in Redis) and
  \<open>internal/router/attempt.go\<close> (the record of delivery attempts). A recorder or attempt log without a
  connection pool is the argument \<open>False\<close>.
\<close>

section \<open>States and transitions\<close>

type_synonym DeliveryState = string

abbreviation (input) StateAccepted :: DeliveryState where "StateAccepted \<equiv> ''accepted''"
abbreviation (input) StateRouted :: DeliveryState where "StateRouted \<equiv> ''routed''"
abbreviation (input) StateDirectSent :: DeliveryState where "StateDirectSent \<equiv> ''direct_sent''"
abbreviation (input) StateDirectFailed :: DeliveryState where "StateDirectFailed \<equiv> ''direct_failed''"
abbreviation (input) StateFallbackQueued :: DeliveryState where "StateFallbackQueued \<equiv> ''fallback_queued''"
abbreviation (input) StateFallbackSent :: DeliveryState where "StateFallbackSent \<equiv> ''fallback_sent''"
abbreviation (input) StateDelivered :: DeliveryState where "StateDelivered \<equiv> ''delivered''"
abbreviation (input) StateOfflineStored :: DeliveryState where "StateOfflineStored \<equiv> ''offline_stored''"
abbreviation (input) StateSynced :: DeliveryState where "StateSynced \<equiv> ''synced''"
abbreviation (input) StateAcked :: DeliveryState where "StateAcked \<equiv> ''acked''"
abbreviation (input) StateExpired :: DeliveryState where "StateExpired \<equiv> ''expired''"
abbreviation (input) StateDLQ :: DeliveryState where "StateDLQ \<equiv> ''dlq''"
abbreviation (input) StateRateLimited :: DeliveryState where "StateRateLimited \<equiv> ''rate_limited''"

definition validTransitions :: "(DeliveryState \<times> DeliveryState list) list" where
  "validTransitions = [
     ([], [StateAccepted, StateRouted, StateDelivered, StateAcked, StateDLQ]),
     (StateAccepted, [StateRouted, StateExpired, StateRateLimited, StateDLQ]),
     (StateRouted, [StateDirectSent, StateDirectFailed, StateOfflineStored, StateFallbackQueued, StateExpired]),
     (StateDirectSent, [StateDelivered]),
     (StateDirectFailed, [StateFallbackQueued, StateDLQ]),
     (StateFallbackQueued, [StateFallbackSent, StateExpired]),
     (StateFallbackSent, [StateDelivered]),
     (StateDelivered, [StateAcked, StateExpired]),
     (StateOfflineStored, [StateSynced, StateExpired]),
     (StateSynced, [StateDelivered]),
     (StateAcked, []),
     (StateExpired, [StateDLQ]),
     (StateDLQ, []),
     (StateRateLimited, [StateAccepted, StateDLQ])]"

definition ValidateTransition :: "DeliveryState \<Rightarrow> DeliveryState \<Rightarrow> bool" where
  "ValidateTransition frm tgt \<longleftrightarrow>
     tgt \<noteq> [] \<and> (case map_of validTransitions frm of None \<Rightarrow> True | Some targets \<Rightarrow> tgt \<in> set targets)"

definition MapToDeliveryState :: "string \<Rightarrow> DeliveryState" where
  "MapToDeliveryState status =
     (if status = ''pending'' then StateAccepted else if status = ''delivered'' then StateDelivered
      else if status = ''acked'' then StateAcked else if status = ''failed'' then StateDLQ else status)"

section \<open>The recorder\<close>

definition RecordState ::
  "bool \<Rightarrow> int \<Rightarrow> string \<Rightarrow> DeliveryState \<Rightarrow> DeliveryState \<Rightarrow> string \<Rightarrow> string \<Rightarrow> redis \<Rightarrow> redis" where
  "RecordState pool now msgID frm tgt reason traceID r =
     (if \<not> pool \<or> msgID = [] then r
      else let t = \<lparr>st_MsgID = msgID, st_From = frm, st_To = tgt, st_Reason = reason, st_Timestamp = now,
                    st_TraceID = traceID\<rparr>
           in snd (rtrip (\<lambda>r.
                let r1 = hset (keyMsgStatus msgID) [(''state'', tgt), (''updated_at'', FormatInt now)] r;
                    r2 = expire (keyMsgStatus msgID) week_ms r1;
                    r3 = rpush (keyStateTimeline msgID) t r2
                in ((), expire (keyStateTimeline msgID) week_ms r3)) r))"

definition GetCurrentState :: "bool \<Rightarrow> string \<Rightarrow> redis \<Rightarrow> (gerr + DeliveryState) \<times> redis" where
  "GetCurrentState pool msgID r =
     (if \<not> pool \<or> msgID = [] then (Inr [], r)
      else rtrip (\<lambda>r. (str_or_empty (rd_hash r (keyMsgStatus msgID) ''state''), r)) r)"

definition GetTimeline :: "bool \<Rightarrow> string \<Rightarrow> redis \<Rightarrow> (gerr + StateTransition list) \<times> redis" where
  "GetTimeline pool msgID r =
     (if \<not> pool \<or> msgID = [] then (Inr [], r) else rtrip (\<lambda>r. (rd_list r (keyStateTimeline msgID), r)) r)"

section \<open>Delivery attempts\<close>

definition nextAttemptNo :: "bool \<Rightarrow> string \<Rightarrow> redis \<Rightarrow> (gerr + int) \<times> redis" where
  "nextAttemptNo pool msgID r =
     (if \<not> pool then (Inr 1, r)
      else case rtrip_sum (incrby (keyAttemptSeq msgID) 1) r of
        (Inl e, r1) \<Rightarrow> (Inl e, r1)
      | (Inr n, r1) \<Rightarrow> (Inr n, snd (rtrip (\<lambda>r. ((), expire (keyAttemptSeq msgID) week_ms r)) r1)))"

definition Attempt_Record ::
  "bool \<Rightarrow> int \<Rightarrow> string \<Rightarrow> string \<Rightarrow> string \<Rightarrow> int \<Rightarrow> string \<Rightarrow> string \<Rightarrow> redis \<Rightarrow> redis" where
  "Attempt_Record pool now msgID channel status latencyMs errStr server r =
     (if \<not> pool \<or> msgID = [] then r
      else case nextAttemptNo pool msgID r of
        (Inl _, r1) \<Rightarrow> r1
      | (Inr n, r1) \<Rightarrow>
          let a = \<lparr>at_MsgID = msgID, at_AttemptNo = n, at_Channel = channel, at_Status = status,
                   at_LatencyMS = latencyMs, at_Error = errStr, at_Server = server, at_CreatedAt = now\<rparr>
          in snd (rtrip (\<lambda>r. ((), set_attempt (keyAttempt msgID n) a (Some week_ms) r)) r1))"

section \<open>Legal lives\<close>

text \<open>A life that the table allows, from a state through a list of states.\<close>

fun legal :: "DeliveryState \<Rightarrow> DeliveryState list \<Rightarrow> bool" where
  "legal s [] \<longleftrightarrow> True"
| "legal s (t # ts) \<longleftrightarrow> s \<in> fst ` set validTransitions \<and> ValidateTransition s t \<and> legal t ts"

text \<open>How many steps are left at most; only the way back from \<open>rate_limited\<close> raises it, by one.\<close>

definition rank_of :: "DeliveryState \<Rightarrow> nat" where
  "rank_of s = (case map_of [([], 9), (StateAccepted, 8), (StateRateLimited, 7), (StateRouted, 6),
     (StateDirectFailed, 5), (StateFallbackQueued, 4), (StateOfflineStored, 4), (StateDirectSent, 3),
     (StateFallbackSent, 3), (StateSynced, 3), (StateDelivered, 2), (StateExpired, 1)] s of
       None \<Rightarrow> 0 | Some n \<Rightarrow> n)"

definition transition_pairs :: "(DeliveryState \<times> DeliveryState) list" where
  "transition_pairs = concat (map (\<lambda>(s, ts). map (Pair s) ts) validTransitions)"

lemma transition_cases:
  assumes "s \<in> fst ` set validTransitions" "ValidateTransition s t"
  shows "(s, t) \<in> set transition_pairs"
proof -
  from assms(1) obtain ts where ts: "map_of validTransitions s = Some ts" using weak_map_of_SomeI by fastforce
  with assms(2) have "t \<in> set ts" by (simp add: ValidateTransition_def)
  with map_of_SomeD [OF ts] show ?thesis by (force simp: transition_pairs_def)
qed

lemma rank_simps:
  "rank_of [] = 9" "rank_of StateAccepted = 8" "rank_of StateRateLimited = 7" "rank_of StateRouted = 6"
  "rank_of StateDirectFailed = 5" "rank_of StateFallbackQueued = 4" "rank_of StateOfflineStored = 4"
  "rank_of StateDirectSent = 3" "rank_of StateFallbackSent = 3" "rank_of StateSynced = 3"
  "rank_of StateDelivered = 2" "rank_of StateExpired = 1" "rank_of StateAcked = 0" "rank_of StateDLQ = 0"
  by (simp_all add: rank_of_def)

lemmas pair_list = transition_pairs_def validTransitions_def list.map concat.simps append.simps prod.case list.pred_inject

lemma all_ranks:
  "list_all (\<lambda>(s, t). rank_of t < rank_of s + 2 * of_bool (s = StateRateLimited)) transition_pairs"
  unfolding pair_list rank_simps by simp

lemma all_known: "list_all (\<lambda>(s, t). t \<in> fst ` set validTransitions) transition_pairs"
  unfolding pair_list by simp

lemma all_final: "list_all (\<lambda>(s, t). s \<notin> {StateAcked, StateDLQ}) transition_pairs"
  unfolding pair_list by simp

lemma all_acked: "list_all (\<lambda>(s, t). t = StateAcked \<longrightarrow> s = [] \<or> s = StateDelivered) transition_pairs"
  unfolding pair_list by simp

lemma transition_facts:
  assumes "s \<in> fst ` set validTransitions" "ValidateTransition s t"
  shows "rank_of t < rank_of s + 2 * of_bool (s = StateRateLimited)"
    and "t \<in> fst ` set validTransitions" and "s \<notin> {StateAcked, StateDLQ}"
    and "t = StateAcked \<Longrightarrow> s = [] \<or> s = StateDelivered"
  using transition_cases [OF assms] all_ranks all_known all_final all_acked unfolding list_all_iff by blast+

lemma known_states: "fst ` set validTransitions = {[], StateAccepted, StateRouted, StateDirectSent, StateDirectFailed,
    StateFallbackQueued, StateFallbackSent, StateDelivered, StateOfflineStored, StateSynced, StateAcked, StateExpired,
    StateDLQ, StateRateLimited}"
  unfolding validTransitions_def by simp

lemmas legal_simps = known_states ValidateTransition_def validTransitions_def

text \<open>Every state of the table can still reach a final one.\<close>

definition way_out :: "DeliveryState \<Rightarrow> DeliveryState list" where
  "way_out s = (case map_of [([], [StateAcked]), (StateAccepted, [StateDLQ]),
     (StateRouted, [StateExpired, StateDLQ]), (StateDirectSent, [StateDelivered, StateAcked]),
     (StateDirectFailed, [StateDLQ]), (StateFallbackQueued, [StateExpired, StateDLQ]),
     (StateFallbackSent, [StateDelivered, StateAcked]), (StateDelivered, [StateAcked]),
     (StateOfflineStored, [StateExpired, StateDLQ]), (StateSynced, [StateDelivered, StateAcked]),
     (StateExpired, [StateDLQ]), (StateRateLimited, [StateDLQ])] s of None \<Rightarrow> [] | Some ts \<Rightarrow> ts)"

lemma all_ways_out:
  "list_all (\<lambda>s. legal s (way_out s) \<and> last (s # way_out s) \<in> {StateAcked, StateDLQ}) (map fst validTransitions)"
  unfolding validTransitions_def by (simp add: way_out_def legal_simps)

lemma legal_bound:
  "legal s ts \<Longrightarrow> length ts + rank_of (last (s # ts)) \<le> rank_of s + 2 * count_list (s # ts) StateRateLimited"
proof (induction ts arbitrary: s)
  case (Cons t ts)
  have t: "s \<in> fst ` set validTransitions" "ValidateTransition s t" "legal t ts" using Cons.prems by simp_all
  show ?case using Cons.IH [OF t(3)] transition_facts(1) [OF t(1,2)] by (auto split: if_splits)
qed simp

lemma legal_append: "legal s (xs @ ys) \<longleftrightarrow> legal s xs \<and> legal (last (s # xs)) ys"
  by (induction xs arbitrary: s) auto

lemma legal_known: "legal s ts \<Longrightarrow> s \<in> fst ` set validTransitions \<Longrightarrow> last (s # ts) \<in> fst ` set validTransitions"
proof (induction ts arbitrary: s)
  case (Cons t ts)
  then show ?case using transition_facts(2) [of s t] by auto
qed simp

text \<open>The life of a message ends: a life that the table of transitions allows has at most nine
  steps and two more for every time the message is rate limited; nothing follows \<open>acked\<close> or \<open>dlq\<close>;
  \<open>acked\<close> comes only at once or right after \<open>delivered\<close>; and whatever its state, a message can still come
  to one of the two final states.\<close>

theorem life_ends:
  assumes "legal [] (xs @ s # ys)"
  shows "length (xs @ s # ys) \<le> 9 + 2 * count_list (xs @ s # ys) StateRateLimited
    \<and> (s \<in> {StateAcked, StateDLQ} \<longrightarrow> ys = [])
    \<and> (s = StateAcked \<longrightarrow> last ([] # xs) \<in> {[], StateDelivered})
    \<and> (\<exists>zs. legal [] (xs @ s # zs) \<and> last (s # zs) \<in> {StateAcked, StateDLQ})"
proof -
  have l: "legal [] xs" "legal (last ([] # xs)) (s # ys)" using assms unfolding legal_append by auto
  then have v: "last ([] # xs) \<in> fst ` set validTransitions" "ValidateTransition (last ([] # xs)) s" "legal s ys" by simp_all
  note F = transition_facts [OF v(1,2)]
  have "rank_of ([]::string) = 9" by (simp add: rank_of_def)
  then have len: "length (xs @ s # ys) \<le> 9 + 2 * count_list (xs @ s # ys) StateRateLimited"
    using legal_bound [OF assms] by simp
  have fin: "s \<in> {StateAcked, StateDLQ} \<longrightarrow> ys = []"
    using v(3) transition_facts(3) by (cases ys) auto
  have "s \<in> set (map fst validTransitions)" using F(2) by simp
  then have "legal s (way_out s) \<and> last (s # way_out s) \<in> {StateAcked, StateDLQ}"
    using all_ways_out unfolding list_all_iff by blast
  then have "\<exists>zs. legal [] (xs @ s # zs) \<and> last (s # zs) \<in> {StateAcked, StateDLQ}"
    using l(1) v by (intro exI [of _ "way_out s"]) (simp add: legal_append)
  with len fin F(4) show ?thesis by blast
qed

theorem life_ends_witness:
  "length ([StateAccepted, StateRateLimited, StateAccepted, StateRouted, StateDirectFailed, StateFallbackQueued,
      StateFallbackSent, StateDelivered] @ StateAcked # ([] :: DeliveryState list)) \<le> 9 + 2 * 1"
proof -
  let ?xs = "[StateAccepted, StateRateLimited, StateAccepted, StateRouted, StateDirectFailed, StateFallbackQueued,
      StateFallbackSent, StateDelivered]"
  have "legal [] (?xs @ StateAcked # [])" by (simp add: legal_simps)
  from life_ends [OF this] show ?thesis by simp
qed

section \<open>What the recorder keeps\<close>

text \<open>A call of the recorder for one message: time, from, to, reason, trace.\<close>

type_synonym state_call = "int \<times> DeliveryState \<times> DeliveryState \<times> string \<times> string"

fun record_run :: "string \<Rightarrow> state_call list \<Rightarrow> redis \<Rightarrow> redis" where
  "record_run m [] r = r"
| "record_run m ((now, frm, tgt, reason, tr) # cs) r = record_run m cs (RecordState True now m frm tgt reason tr r)"

fun entry_of :: "string \<Rightarrow> state_call \<Rightarrow> StateTransition" where
  "entry_of m (now, frm, tgt, reason, tr) =
     \<lparr>st_MsgID = m, st_From = frm, st_To = tgt, st_Reason = reason, st_Timestamp = now, st_TraceID = tr\<rparr>"

definition current_state :: "string \<Rightarrow> redis \<Rightarrow> string" where
  "current_state m r = str_or_empty (rd_hash r (keyMsgStatus m) ''state'')"

lemma RecordState_cases:
  obtains (kept) "rd_list (RecordState True now m frm tgt reason tr r) = rd_list r"
      "rd_hash (RecordState True now m frm tgt reason tr r) = rd_hash r"
    | (written) "rd_list (RecordState True now m frm tgt reason tr r)
        = (rd_list r)(keyStateTimeline m := rd_list r (keyStateTimeline m) @ [entry_of m (now, frm, tgt, reason, tr)])"
      "rd_hash (RecordState True now m frm tgt reason tr r)
        = (rd_hash r)(keyMsgStatus m := (rd_hash r (keyMsgStatus m))(''state'' \<mapsto> tgt, ''updated_at'' \<mapsto> FormatInt now))"
proof -
  let ?f = "\<lambda>r. ((), expire (keyStateTimeline m) week_ms (rpush (keyStateTimeline m) (entry_of m (now, frm, tgt, reason, tr))
      (expire (keyMsgStatus m) week_ms (hset (keyMsgStatus m) [(''state'', tgt), (''updated_at'', FormatInt now)] r))))"
  show thesis
  proof (cases "m = []")
    case True
    then show thesis by (intro kept) (simp_all add: RecordState_def)
  next
    case False
    then have R: "RecordState True now m frm tgt reason tr r = snd (rtrip ?f r)"
      by (simp add: RecordState_def Let_def)
    show thesis
    proof (cases rule: rtrip_cases [of r ?f])
      case (ran q x r')
      then show thesis by (intro written; simp only: R; simp add: same_data_def) (auto simp: fun_eq_iff)
    next
      case (unsure q x r' e)
      then show thesis by (intro written; simp only: R; simp add: same_data_def) (auto simp: fun_eq_iff)
    next
      case (lost q e)
      then show thesis by (intro kept; simp only: R; simp add: same_data_def)
    qed
  qed
qed

lemma RecordState_fine:
  "rd_fates r = [] \<Longrightarrow> rd_fates (RecordState True now m frm tgt reason tr r) = []"
  by (simp add: RecordState_def Let_def)

lemma timeline_step:
  assumes "m \<noteq> []"
  shows "\<exists>cs'. subseq cs' [c] \<and> rd_list (record_run m [c] r) (keyStateTimeline m) = rd_list r (keyStateTimeline m) @ map (entry_of m) cs'
    \<and> current_state m (record_run m [c] r) = (if cs' = [] then current_state m r else fst (snd (snd (last cs'))))
    \<and> (rd_fates r = [] \<longrightarrow> cs' = [c] \<and> rd_fates (record_run m [c] r) = [])"
proof -
  obtain now frm tgt reason tr where c: "c = (now, frm, tgt, reason, tr)" by (cases c)
  show ?thesis
  proof (cases rule: RecordState_cases [of now m frm tgt reason tr r])
    case kept
    have "rd_fates r \<noteq> []"
    proof
      assume f: "rd_fates r = []"
      have "rd_list (RecordState True now m frm tgt reason tr r) (keyStateTimeline m) \<noteq> rd_list r (keyStateTimeline m)"
        using f assms by (simp add: RecordState_def Let_def)
      with kept show False by simp
    qed
    with kept c show ?thesis by (intro exI [of _ "[]"]) (simp add: current_state_def)
  next
    case written
    then show ?thesis
      by (intro exI [of _ "[c]"]) (simp add: c current_state_def str_or_empty_def RecordState_fine)
  qed
qed

lemma record_run_Cons: "record_run m (c # cs) r = record_run m cs (record_run m [c] r)"
  by (cases c) simp



end
