(* ===== verification/Idempotency.thy ===== *)
theory Idempotency
  imports Redis_Store "HOL-Library.AList" "HOL-Library.Multiset"
begin

text \<open>
  The duplicate check of messages: \<open>internal/router/idempotency.go\<close>. A shard is its map from hashes to
  expiry times as an association list with distinct keys. The order in which Go walks a map is the argument
  \<open>ord\<close>, any function that permutes the entries; every theorem holds for all of them. Times are
  nanoseconds.
\<close>

section \<open>The checker\<close>

type_synonym shard = "(i64 \<times> int) list"
type_synonym idem = "nat \<Rightarrow> shard"

definition numShards :: nat where "numShards = 64"
definition maxShardSize :: nat where "maxShardSize = 2000"
definition entryTTL :: int where "entryTTL = 5 * 60 * 1000000000"

text \<open>FNV-64a of the bytes of the id.\<close>

definition hashMsgID :: "string \<Rightarrow> i64" where
  "hashMsgID msgID =
     foldl (\<lambda>h c. xor h (of_nat (of_char c)) * 1099511628211) 14695981039346656037 msgID"

definition shard_of :: "i64 \<Rightarrow> nat" where
  "shard_of h = unat h mod numShards"

definition NewIdempotencyChecker :: idem where
  "NewIdempotencyChecker = (\<lambda>_. [])"

definition IsDuplicate :: "int \<Rightarrow> bool \<Rightarrow> string \<Rightarrow> idem \<Rightarrow> redis \<Rightarrow> bool \<times> idem \<times> redis" where
  "IsDuplicate now hasDAO msgID c r =
     (if msgID = [] then (False, c, r)
      else
        let h = hashMsgID msgID; sh = c (shard_of h); expiry = map_of sh h in
        if (case expiry of None \<Rightarrow> False | Some e \<Rightarrow> now < e) then (True, c, r)
        else
          let c1 = (if expiry = None then c else c(shard_of h := AList.delete h sh)) in
          if \<not> hasDAO then (False, c1, r)
          else case GetMessageStatus msgID r of
              (Inl _, r1) \<Rightarrow> (False, c1, r1)
            | (Inr status, r1) \<Rightarrow>
                (str_or_empty (status ''status'') \<in> {''acked'', ''delivered''}, c1, r1))"

text \<open>One round of the partial selection sort: the least of the rest goes to place \<open>i\<close>.\<close>

definition min_index :: "shard \<Rightarrow> nat \<Rightarrow> nat" where
  "min_index es i = foldl (\<lambda>m j. if snd (es ! j) < snd (es ! m) then j else m) i [i + 1..<length es]"

definition select_step :: "shard \<Rightarrow> nat \<Rightarrow> shard" where
  "select_step es i = (let m = min_index es i in es[m := es ! i, i := es ! m])"

definition select_oldest :: "nat \<Rightarrow> shard \<Rightarrow> shard" where
  "select_oldest mid es = foldl select_step es [0..<mid]"

definition evictShardLocked :: "(shard \<Rightarrow> shard) \<Rightarrow> int \<Rightarrow> shard \<Rightarrow> shard" where
  "evictShardLocked ord now sh =
     (let live = filter (\<lambda>(k, e). \<not> now > e) sh in
      if length live \<le> maxShardSize then live
      else
        let entries = ord live; mid = length entries div 2; sorted_part = select_oldest mid entries
        in foldl (\<lambda>sh i. AList.delete (fst (sorted_part ! i)) sh) live [0..<mid])"

definition MarkSeen :: "(shard \<Rightarrow> shard) \<Rightarrow> int \<Rightarrow> string \<Rightarrow> idem \<Rightarrow> idem" where
  "MarkSeen ord now msgID c =
     (let h = hashMsgID msgID; sh = AList.update h (now + entryTTL) (c (shard_of h))
      in c(shard_of h := if length sh > maxShardSize then evictShardLocked ord now sh else sh))"

section \<open>The partial selection sort\<close>

lemma min_fold:
  fixes es :: shard
  assumes "m < length es" "\<forall>j \<in> set js. j < length es"
  shows "foldl (\<lambda>m j. if snd (es ! j) < snd (es ! m) then j else m) m js \<in> insert m (set js)
    \<and> (\<forall>j \<in> insert m (set js). snd (es ! foldl (\<lambda>m j. if snd (es ! j) < snd (es ! m) then j else m) m js) \<le> snd (es ! j))"
  using assms
proof (induction js arbitrary: m)
  case (Cons j js)
  let ?m = "if snd (es ! j) < snd (es ! m) then j else m"
  let ?r = "foldl (\<lambda>m j. if snd (es ! j) < snd (es ! m) then j else m) ?m js"
  have "?m < length es" using Cons.prems by simp
  from Cons.IH [OF this] Cons.prems
  have IH: "?r \<in> insert ?m (set js)" "\<forall>j \<in> insert ?m (set js). snd (es ! ?r) \<le> snd (es ! j)" by auto
  have "snd (es ! ?m) \<le> snd (es ! m) \<and> snd (es ! ?m) \<le> snd (es ! j)" by simp
  then have "snd (es ! ?r) \<le> snd (es ! m) \<and> snd (es ! ?r) \<le> snd (es ! j)" using IH(2) by fastforce
  with IH show ?case by (auto split: if_splits)
qed simp

lemma min_index:
  assumes "i < length es"
  shows "i \<le> min_index es i" "min_index es i < length es"
    and "i \<le> j \<Longrightarrow> j < length es \<Longrightarrow> snd (es ! min_index es i) \<le> snd (es ! j)"
proof -
  have F: "min_index es i \<in> insert i (set [i + 1..<length es])"
    "\<forall>j \<in> insert i (set [i + 1..<length es]). snd (es ! min_index es i) \<le> snd (es ! j)"
    using min_fold [OF assms, of "[i + 1..<length es]"] unfolding min_index_def by auto
  then show "i \<le> min_index es i" "min_index es i < length es" using assms by auto
  show "i \<le> j \<Longrightarrow> j < length es \<Longrightarrow> snd (es ! min_index es i) \<le> snd (es ! j)"
    using F(2) by (cases "i = j") auto
qed

lemma select_step_mset: "i < length es \<Longrightarrow> mset (select_step es i) = mset es"
  using mset_swap [of i es "min_index es i"] min_index [of i es] by (simp add: select_step_def Let_def)

text \<open>After \<open>i\<close> rounds the first \<open>i\<close> entries are in order and none of them is later than any of the rest.\<close>

definition selected :: "nat \<Rightarrow> shard \<Rightarrow> bool" where
  "selected i es \<longleftrightarrow> (\<forall>a b. a < i \<longrightarrow> a \<le> b \<longrightarrow> b < length es \<longrightarrow> snd (es ! a) \<le> snd (es ! b))"

lemma selected_step:
  assumes "selected i es" "i < length es"
  shows "selected (Suc i) (select_step es i)"
  unfolding selected_def
proof (intro allI impI)
  fix a b assume ab: "a < Suc i" "a \<le> b" "b < length (select_step es i)"
  let ?m = "min_index es i"
  have len: "length (select_step es i) = length es" by (simp add: select_step_def Let_def)
  note M = min_index [OF assms(2)]
  have at: "select_step es i ! k = (if k = i then es ! ?m else if k = ?m then es ! i else es ! k)"
    if "k < length es" for k using that M assms(2) by (simp add: select_step_def nth_list_update Let_def)
  show "snd (select_step es i ! a) \<le> snd (select_step es i ! b)"
  proof (cases "a = i")
    case True
    then show ?thesis using at [of a] at [of b] ab len M(1,2) M(3) [of i] M(3) [of b] assms(2) by auto
  next
    case False
    then have "a < i" using ab(1) by simp
    then have "select_step es i ! a = es ! a" "\<And>k. a \<le> k \<Longrightarrow> k < length es \<Longrightarrow> snd (es ! a) \<le> snd (es ! k)"
      using at [of a] M(1) assms unfolding selected_def by auto
    with \<open>a < i\<close> at [of b] ab len M(1,2) assms(2) show ?thesis by auto
  qed
qed

lemma select_oldest:
  "mid \<le> length es \<Longrightarrow> mset (select_oldest mid es) = mset es \<and> selected mid (select_oldest mid es)
     \<and> length (select_oldest mid es) = length es"
proof (induction mid)
  case 0
  then show ?case by (simp add: select_oldest_def selected_def)
next
  case (Suc mid)
  then have IH: "mset (select_oldest mid es) = mset es" "selected mid (select_oldest mid es)"
    "length (select_oldest mid es) = length es" and m: "mid < length (select_oldest mid es)" by simp_all
  have "select_oldest (Suc mid) es = select_step (select_oldest mid es) mid" by (simp add: select_oldest_def)
  then show ?case
    using select_step_mset [OF m] selected_step [OF IH(2) m] IH by (simp add: select_step_def Let_def)
qed

text \<open>Property C11. The partial selection sort picks what a full sort would: the expiry times of the first
  \<open>mid\<close> entries are the first \<open>mid\<close> of all expiry times in order, and no entry is lost or made up.\<close>

theorem select_oldest_is_sort:
  assumes "mid \<le> length es"
  shows "map snd (take mid (select_oldest mid es)) = take mid (sort (map snd es))
    \<and> mset (select_oldest mid es) = mset es"
proof -
  let ?s = "select_oldest mid es"
  from select_oldest [OF assms] have S: "mset ?s = mset es" "selected mid ?s" "length ?s = length es" by blast+
  let ?t = "map snd (take mid ?s) @ sort (map snd (drop mid ?s))"
  have "sorted (map snd (take mid ?s))"
    using S(2,3) assms by (auto simp: sorted_iff_nth_mono selected_def)
  moreover have "x \<le> y" if "x \<in> set (map snd (take mid ?s))" "y \<in> set (map snd (drop mid ?s))" for x y
  proof -
    from that(1) obtain a where "a < mid" "x = snd (?s ! a)" using S(3) assms by (auto simp: in_set_conv_nth)
    moreover from that(2) obtain b where "b < length ?s - mid" "y = snd (?s ! (mid + b))"
      by (auto simp: in_set_conv_nth)
    ultimately show ?thesis using S(2) unfolding selected_def by auto
  qed
  ultimately have "sorted ?t" by (auto simp: sorted_append)
  moreover have "mset ?t = mset (map snd es)"
    using S(1) by (metis append_take_drop_id map_append mset_append mset_map mset_sort)
  ultimately have "sort (map snd es) = ?t" by (intro properties_for_sort) simp_all
  then show ?thesis using S assms by simp
qed

theorem select_oldest_is_sort_witness:
  "map snd (take 2 (select_oldest 2 [(1, 50), (2, 20), (3, 40), (4, 10)])) = [10, 20]"
  using select_oldest_is_sort [of 2 "[(1, 50), (2, 20), (3, 40), (4, 10)]"] by simp

section \<open>The size of the shards\<close>

definition shard_ok :: "nat \<Rightarrow> shard \<Rightarrow> bool" where
  "shard_ok n sh \<longleftrightarrow> distinct (map fst sh) \<and> length sh \<le> maxShardSize \<and> (\<forall>k \<in> fst ` set sh. shard_of k = n)"

definition idem_ok :: "idem \<Rightarrow> bool" where
  "idem_ok c \<longleftrightarrow> (\<forall>n. shard_ok n (c n))"

lemma AList_delete_filter: "AList.delete k xs = filter (\<lambda>p. fst p \<noteq> k) xs"
  by (induction xs) auto

lemma foldl_delete: "foldl (\<lambda>sh i. AList.delete (f i) sh) xs is = filter (\<lambda>p. fst p \<notin> f ` set is) xs"
  by (induction "is" arbitrary: xs) (auto simp: AList_delete_filter intro: filter_cong)

lemma length_update: "distinct (map fst xs) \<Longrightarrow> length (AList.update k v xs) \<le> Suc (length xs)"
  by (induction xs) auto

text \<open>What the second phase leaves: the later half, of distinct keys.\<close>

lemma evict_second:
  assumes perm: "\<And>xs. mset (ord xs) = mset xs" and d: "distinct (map fst live)"
  defines "mid \<equiv> length (ord live) div 2" and "es \<equiv> select_oldest (length (ord live) div 2) (ord live)"
  shows "foldl (\<lambda>sh i. AList.delete (fst (es ! i)) sh) live [0..<mid] = filter (\<lambda>p. p \<in> set (drop mid es)) live"
    and "mset live = mset (take mid es) + mset (drop mid es)"
    and "p \<in> set (take mid es) \<Longrightarrow> q \<in> set (drop mid es) \<Longrightarrow> snd p \<le> snd q"
    and "set (take mid es) \<inter> set (drop mid es) = {}" "mid \<le> length es" "length es = length live"
proof -
  have len: "length (ord live) = length live" using perm mset_eq_length by blast
  have "mid \<le> length (ord live)" by (simp add: mid_def)
  from select_oldest [OF this] have S: "mset es = mset live" "selected mid es" "length es = length live"
    unfolding es_def mid_def using perm len by auto
  show m: "mid \<le> length es" and "length es = length live" using S(3) len by (simp_all add: mid_def)
  have "mset (map fst es) = mset (map fst live)" using S(1) by simp
  then have d': "distinct (map fst es)" using d mset_eq_imp_distinct_iff by blast
  then have d2: "distinct (take mid es @ drop mid es)" by (simp add: distinct_map)
  have "mset es = mset (take mid es) + mset (drop mid es)"
    by (simp only: append_take_drop_id flip: mset_append)
  then show "mset live = mset (take mid es) + mset (drop mid es)" using S(1) by simp
  show dj: "set (take mid es) \<inter> set (drop mid es) = {}"
    using d2 by (simp only: distinct_append)
  show "snd p \<le> snd q" if "p \<in> set (take mid es)" "q \<in> set (drop mid es)"
  proof -
    from that(1) obtain a where a: "a < mid" "p = es ! a" using m by (auto simp: in_set_conv_nth)
    from that(2) obtain b where b: "b < length es - mid" "q = es ! (mid + b)" by (auto simp: in_set_conv_nth)
    from a b S(2) show ?thesis unfolding selected_def by auto
  qed
  have "(\<lambda>i. fst (es ! i)) ` set [0..<mid] = fst ` set (take mid es)"
    using m by (simp add: nth_image [symmetric] image_image)
  then have "foldl (\<lambda>sh i. AList.delete (fst (es ! i)) sh) live [0..<mid]
      = filter (\<lambda>p. fst p \<notin> fst ` set (take mid es)) live" by (simp add: foldl_delete)
  also have "\<dots> = filter (\<lambda>p. p \<in> set (drop mid es)) live"
  proof (rule filter_cong [OF refl])
    fix p assume "p \<in> set live"
    then have "p \<in> set es" using S(1) mset_eq_setD by blast
    then have p: "p \<in> set (take mid es) \<or> p \<in> set (drop mid es)" by (metis Un_iff append_take_drop_id set_append)
    have "fst p \<in> fst ` set (take mid es) \<Longrightarrow> p \<in> set (take mid es)"
      using d' \<open>p \<in> set es\<close> by (metis (no_types, lifting) distinct_map image_iff in_set_takeD inj_on_eq_iff)
    with p dj show "(fst p \<notin> fst ` set (take mid es)) = (p \<in> set (drop mid es))" by auto
  qed
  finally show "foldl (\<lambda>sh i. AList.delete (fst (es ! i)) sh) live [0..<mid] = filter (\<lambda>p. p \<in> set (drop mid es)) live" .
qed

lemma filter_half:
  assumes "mset live = mset xs + mset ys" "set xs \<inter> set ys = {}"
  shows "length (filter (\<lambda>p. p \<in> set ys) live) = length ys"
proof -
  have "mset (filter (\<lambda>p. p \<in> set ys) live) = filter_mset (\<lambda>p. p \<in> set ys) (mset xs) + filter_mset (\<lambda>p. p \<in> set ys) (mset ys)"
    by (simp add: assms(1))
  also have "\<dots> = mset ys"
    using assms(2) filter_False [of xs "\<lambda>p. p \<in> set ys"] by (simp add: disjoint_iff flip: mset_filter)
  finally show ?thesis by (metis size_mset)
qed

lemma evict:
  assumes perm: "\<And>xs. mset (ord xs) = mset xs" and d: "distinct (map fst sh)"
    and sh': "sh' = evictShardLocked ord now sh"
  shows "distinct (map fst sh') \<and> set sh' \<subseteq> set sh"
    and "length sh' \<le> maxShardSize \<or> 2 * length sh' \<le> length sh + 1"
    and "p \<in> set sh \<Longrightarrow> p \<notin> set sh' \<Longrightarrow> snd p \<ge> now \<Longrightarrow> q \<in> set sh' \<Longrightarrow> snd p \<le> snd q"
proof -
  let ?live = "filter (\<lambda>(k, e). \<not> now > e) sh"
  have dl: "distinct (map fst ?live)" using d by (simp add: distinct_map_filter)
  let ?es = "select_oldest (length (ord ?live) div 2) (ord ?live)" and ?mid = "length (ord ?live) div 2"
  note E = evict_second [of ord ?live, OF perm dl]
  have s: "sh' = (if length ?live \<le> maxShardSize then ?live else filter (\<lambda>p. p \<in> set (drop ?mid ?es)) ?live)"
    unfolding sh' evictShardLocked_def Let_def E(1) ..
  show "distinct (map fst sh') \<and> set sh' \<subseteq> set sh"
    using dl unfolding s by (auto simp: distinct_map_filter simp del: filter_filter)
  have "length (filter (\<lambda>p. p \<in> set (drop ?mid ?es)) ?live) = length ?es - ?mid"
    using filter_half [OF E(2,4)] by simp
  moreover have "length (ord ?live) = length ?live" using perm mset_eq_length by blast
  moreover have "2 * (n - n div 2) \<le> length sh + 1" if "n \<le> length sh" for n using that by linarith
  from this [of "length ?live"] have "2 * (length ?live - length ?live div 2) \<le> length sh + 1" by simp
  ultimately show "length sh' \<le> maxShardSize \<or> 2 * length sh' \<le> length sh + 1"
    using E(6) unfolding s by (cases "length ?live \<le> maxShardSize") (simp_all only: if_True if_False, simp_all)
  show "snd p \<le> snd q" if p: "p \<in> set sh" "p \<notin> set sh'" "snd p \<ge> now" and q: "q \<in> set sh'"
  proof -
    have "p \<in> set ?live" using p by (auto simp: case_prod_beta)
    with p(2) have "\<not> length ?live \<le> maxShardSize" "p \<notin> set (drop ?mid ?es)" by (auto simp: s split: if_splits)
    moreover have "p \<in># mset (take ?mid ?es) + mset (drop ?mid ?es)"
      using \<open>p \<in> set ?live\<close> by (simp only: set_mset_mset flip: E(2))
    ultimately show ?thesis using q E(3) [of p q] by (auto simp: s split: if_splits)
  qed
qed

lemma idem_ok_upd: "idem_ok c \<Longrightarrow> shard_ok n sh \<Longrightarrow> idem_ok (c(n := sh))"
  by (simp add: idem_ok_def)

lemma shard_ok_update:
  assumes "shard_ok (shard_of h) sh"
  shows "distinct (map fst (AList.update h e sh)) \<and> length (AList.update h e sh) \<le> Suc maxShardSize
    \<and> (\<forall>k \<in> fst ` set (AList.update h e sh). shard_of k = shard_of h)"
  using assms length_update [of sh h e] distinct_update [of sh h e] dom_update [of h e sh]
  unfolding shard_ok_def by auto

text \<open>No shard ever holds more than 2000 ids, each once and in its own shard: marking an id and
  checking one both keep this, from the empty checker on. And marking drops no live entry that is later than
  one it keeps.\<close>

theorem shards_bounded:
  assumes perm: "\<And>xs. mset (ord xs) = mset xs" and ok: "idem_ok c"
  shows "idem_ok NewIdempotencyChecker \<and> idem_ok (MarkSeen ord now m c)
    \<and> idem_ok (fst (snd (IsDuplicate now hasDAO m c r)))
    \<and> (\<forall>n. \<forall>p \<in> set (c n). \<forall>q \<in> set (MarkSeen ord now m c n).
          p \<notin> set (MarkSeen ord now m c n) \<and> now \<le> snd p \<and> fst p \<noteq> hashMsgID m \<longrightarrow> snd p \<le> snd q)"
proof -
  let ?h = "hashMsgID m" and ?n = "shard_of (hashMsgID m)"
  let ?sh = "AList.update ?h (now + entryTTL) (c ?n)"
  have U: "distinct (map fst ?sh)" "length ?sh \<le> Suc maxShardSize" "\<forall>k \<in> fst ` set ?sh. shard_of k = ?n"
    using shard_ok_update [of ?h "c ?n" "now + entryTTL"] ok by (auto simp: idem_ok_def)
  note E = evict [where now = now, OF perm U(1) refl]
  have m: "MarkSeen ord now m c = c(?n := if length ?sh > maxShardSize then evictShardLocked ord now ?sh else ?sh)"
    by (simp add: MarkSeen_def Let_def)
  have "length (evictShardLocked ord now ?sh) \<le> maxShardSize"
    using E(2) U(2) by (auto simp: maxShardSize_def)
  then have "shard_ok ?n (evictShardLocked ord now ?sh)"
    unfolding shard_ok_def
  proof (intro conjI ballI)
    fix k assume "k \<in> fst ` set (evictShardLocked ord now ?sh)"
    then have "k \<in> fst ` set ?sh" using image_mono [OF conjunct2 [OF E(1)]] by (rule rev_subsetD)
    then show "shard_of k = ?n" by (rule bspec [OF U(3)])
  qed (rule conjunct1 [OF E(1)], assumption)
  moreover have "\<not> length ?sh > maxShardSize \<Longrightarrow> shard_ok ?n ?sh"
    unfolding shard_ok_def not_less by (intro conjI U(1,3))
  ultimately have "shard_ok ?n (if length ?sh > maxShardSize then evictShardLocked ord now ?sh else ?sh)"
    by (cases "length ?sh > maxShardSize") (simp_all only: if_True if_False not_False_eq_True)
  then have mark: "idem_ok (MarkSeen ord now m c)"
    unfolding m by (rule idem_ok_upd [OF ok])
  have "shard_ok n (AList.delete ?h (c n))" for n
    using ok unfolding idem_ok_def shard_ok_def AList_delete_filter
    by (auto simp: distinct_map_filter intro: le_trans [OF length_filter_le])
  then have "idem_ok (fst (snd (IsDuplicate now hasDAO m c r)))"
    using ok by (auto simp: IsDuplicate_def Let_def idem_ok_def split: prod.splits sum.splits)
  moreover have "idem_ok NewIdempotencyChecker" by (simp add: idem_ok_def NewIdempotencyChecker_def shard_ok_def)
  moreover have "snd p \<le> snd q" if "p \<in> set (c n)" "q \<in> set (MarkSeen ord now m c n)"
      "p \<notin> set (MarkSeen ord now m c n)" "now \<le> snd p" "fst p \<noteq> ?h" for n p q
  proof -
    have n: "n = ?n" using that(1,3) by (rule_tac ccontr) (simp add: m)
    have "distinct (map fst (c ?n))" using ok by (simp add: idem_ok_def shard_ok_def)
    with that(1) n have "map_of (c ?n) (fst p) = Some (snd p)" by simp
    then have "map_of ?sh (fst p) = Some (snd p)" using that(5) by (simp add: update_conv')
    then have "p \<in> set ?sh" using map_of_SomeD by fastforce
    with that(2-4) n show ?thesis using E(3) by (auto simp: m split: if_splits)
  qed
  ultimately show ?thesis using mark by blast
qed

theorem shards_bounded_witness:
  "length (MarkSeen rev 7 ''m'' (MarkSeen rev 5 ''m'' NewIdempotencyChecker) (shard_of (hashMsgID ''m''))) \<le> 2000"
proof -
  have r: "mset (rev xs) = mset xs" for xs :: shard by simp
  have "idem_ok NewIdempotencyChecker" by (simp add: idem_ok_def NewIdempotencyChecker_def shard_ok_def)
  with shards_bounded [of rev, OF r] have "idem_ok (MarkSeen rev 5 ''m'' NewIdempotencyChecker)" by blast
  with shards_bounded [of rev, OF r] have "idem_ok (MarkSeen rev 7 ''m'' (MarkSeen rev 5 ''m'' NewIdempotencyChecker))"
    by blast
  then show ?thesis by (simp add: idem_ok_def shard_ok_def maxShardSize_def)
qed

lemma marked_is_duplicate:
  assumes "m \<noteq> []" "length (c (shard_of (hashMsgID m))) < maxShardSize" "distinct (map fst (c (shard_of (hashMsgID m))))"
    "t < now + entryTTL"
  shows "IsDuplicate t hasDAO m (MarkSeen ord now m c) r = (True, MarkSeen ord now m c, r)"
proof -
  let ?h = "hashMsgID m" and ?n = "shard_of (hashMsgID m)"
  have "length (AList.update ?h (now + entryTTL) (c ?n)) \<le> maxShardSize"
    using length_update [OF assms(3), of ?h "now + entryTTL"] assms(2) by simp
  then show ?thesis
    using assms(1,4) by (simp add: IsDuplicate_def MarkSeen_def Let_def update_conv')
qed

text \<open>A marked id is a duplicate until its time is over, unless the shard was full; an id that is
  reported as a duplicate was marked, itself or one with the same hash, or Redis has it as delivered or
  acknowledged; and a failed look into Redis never makes one.\<close>

theorem duplicates:
  assumes "m \<noteq> []" "length (c (shard_of (hashMsgID m))) < maxShardSize" "distinct (map fst (c (shard_of (hashMsgID m))))"
    "t < now + entryTTL"
  shows "fst (IsDuplicate t hasDAO m (MarkSeen ord now m c) r)
    \<and> fst (IsDuplicate t' hasDAO m c r)
      = ((\<exists>e. map_of (c (shard_of (hashMsgID m))) (hashMsgID m) = Some e \<and> t' < e)
         \<or> hasDAO \<and> fst (GetMessageStatus m r) = Inr (rd_hash r (keyMsgStatus m))
            \<and> rd_hash r (keyMsgStatus m) ''status'' \<in> {Some ''acked'', Some ''delivered''})"
proof
  let ?h = "hashMsgID m" and ?n = "shard_of (hashMsgID m)"
  show "fst (IsDuplicate t hasDAO m (MarkSeen ord now m c) r)"
    using marked_is_duplicate [of m c t now hasDAO ord r] assms by simp
  let ?f = "\<lambda>r. (rd_hash r (keyMsgStatus m), r)"
  have G: "GetMessageStatus m r = rtrip ?f r" by (simp add: GetMessageStatus_def)
  have "(\<exists>e. fst (GetMessageStatus m r) = Inl e) \<or> fst (GetMessageStatus m r) = Inr (rd_hash r (keyMsgStatus m))"
    unfolding G by (cases rule: rtrip_cases [of r ?f]) (auto simp: same_data_def)
  moreover have "str_or_empty x \<in> {''acked'', ''delivered''} \<longleftrightarrow> x \<in> {Some ''acked'', Some ''delivered''}" for x
    by (cases x) (auto simp: str_or_empty_def)
  moreover obtain g r1 where "GetMessageStatus m r = (g, r1)" by (cases "GetMessageStatus m r")
  ultimately show "fst (IsDuplicate t' hasDAO m c r)
      = ((\<exists>e. map_of (c ?n) ?h = Some e \<and> t' < e)
         \<or> hasDAO \<and> fst (GetMessageStatus m r) = Inr (rd_hash r (keyMsgStatus m))
            \<and> rd_hash r (keyMsgStatus m) ''status'' \<in> {Some ''acked'', Some ''delivered''})"
    using assms(1) by (cases "map_of (c ?n) ?h"; cases hasDAO; cases g) (simp_all add: IsDuplicate_def Let_def)
qed

theorem duplicates_witness:
  "fst (IsDuplicate 7 True ''m'' (MarkSeen id 5 ''m'' NewIdempotencyChecker) empty_redis)
   \<and> \<not> fst (IsDuplicate 7 True ''m'' NewIdempotencyChecker empty_redis)"
proof -
  have "length (NewIdempotencyChecker (shard_of (hashMsgID ''m''))) < maxShardSize"
    "distinct (map fst (NewIdempotencyChecker (shard_of (hashMsgID ''m''))))"
    by (simp_all add: NewIdempotencyChecker_def maxShardSize_def)
  from duplicates [of "''m''" NewIdempotencyChecker 7 5 True id empty_redis 7] this show ?thesis
    by (simp add: entryTTL_def NewIdempotencyChecker_def empty_redis_def)
qed

end
