(* ===== verification/Seq_Alloc.thy ===== *)
theory Seq_Alloc
  imports Redis_Store
begin

text \<open>
  Sequence numbers of a user's messages: \<open>internal/logic/service/seq.go\<close>. An allocator takes blocks of
  numbers from a counter it shares with the allocators of other processes and hands them out
  one by one; when a block runs low it fetches the next one in the background.

  The code is modelled twice from the same pieces: as the steps of a system of many allocators, each
  with its callers and its background fetch, in any interleaving; and as the function
  \<open>Allocate\<close> of a caller that is alone. Numbers are integers: the counter refuses to leave the range of
  64 bits, and the bounds below show that nothing else does.
\<close>

section \<open>Ranges and the state of a user\<close>

record seqRange =
  sr_start :: int
  sr_next :: int
  sr_max :: int

definition remaining :: "seqRange option \<Rightarrow> int" where
  "remaining r = (case r of None \<Rightarrow> 0 | Some r \<Rightarrow> if sr_max r < sr_next r then 0 else sr_max r - sr_next r + 1)"

record userSeqState =
  us_current :: "seqRange option"
  us_next :: "seqRange option"
  us_reserving :: bool

definition new_user_state :: userSeqState where
  "new_user_state = \<lparr>us_current = None, us_next = None, us_reserving = False\<rparr>"

record alloc_conf =
  blockSize :: int
  prefetchRemaining :: int
  prefetchPercent :: int

definition defaultSeqBlockSize :: int where "defaultSeqBlockSize = 100"
definition defaultSeqPrefetchRemaining :: int where "defaultSeqPrefetchRemaining = 20"
definition defaultSeqPrefetchPercent :: int where "defaultSeqPrefetchPercent = 90"

definition defaultPrefetchRemaining :: "int \<Rightarrow> int" where
  "defaultPrefetchRemaining bs =
     (if bs \<le> defaultSeqPrefetchRemaining then (let r = bs div 10 in if r < 1 then 1 else r)
      else defaultSeqPrefetchRemaining)"

definition NewSeqAllocatorWithBlockSize :: "int \<Rightarrow> alloc_conf" where
  "NewSeqAllocatorWithBlockSize bs =
     (let b = (if bs \<le> 0 then defaultSeqBlockSize else bs)
      in \<lparr>blockSize = b, prefetchRemaining = defaultPrefetchRemaining b, prefetchPercent = defaultSeqPrefetchPercent\<rparr>)"

definition NewSeqAllocator :: alloc_conf where
  "NewSeqAllocator = NewSeqAllocatorWithBlockSize defaultSeqBlockSize"

section \<open>Under the lock\<close>

definition shouldPrefetchLocked :: "alloc_conf \<Rightarrow> seqRange \<Rightarrow> bool" where
  "shouldPrefetchLocked a r \<longleftrightarrow>
     (let used = sr_next r - sr_start r
      in remaining (Some r) \<le> prefetchRemaining a \<or> used * 100 \<ge> blockSize a * prefetchPercent a)"

text \<open>Says whether the background fetch is started.\<close>

definition maybeStartPrefetchLocked :: "alloc_conf \<Rightarrow> userSeqState \<Rightarrow> bool \<times> userSeqState" where
  "maybeStartPrefetchLocked a st =
     (if us_current st = None \<or> us_next st \<noteq> None \<or> us_reserving st
         \<or> \<not> shouldPrefetchLocked a (the (us_current st)) then (False, st)
      else (True, st\<lparr>us_reserving := True\<rparr>))"

definition exhausted :: "seqRange option \<Rightarrow> bool" where
  "exhausted r \<longleftrightarrow> (case r of None \<Rightarrow> True | Some r \<Rightarrow> sr_max r < sr_next r)"

text \<open>The number, whether a fetch was started, and the new state; nothing when there is no number.\<close>

definition allocateLocked :: "alloc_conf \<Rightarrow> userSeqState \<Rightarrow> (int \<times> bool \<times> userSeqState) option" where
  "allocateLocked a st =
     (if exhausted (us_current st) \<and> us_next st = None then None
      else
        let st1 = (if exhausted (us_current st) then st\<lparr>us_current := us_next st, us_next := None\<rparr> else st);
            cur = the (us_current st1);
            st2 = st1\<lparr>us_current := Some (cur\<lparr>sr_next := sr_next cur + 1\<rparr>)\<rparr>
        in Some (sr_next cur, maybeStartPrefetchLocked a st2))"

definition reserveRange ::
  "(int \<Rightarrow> int \<Rightarrow> 's \<Rightarrow> (gerr + int) \<times> 's) \<Rightarrow> alloc_conf \<Rightarrow> int \<Rightarrow> 's \<Rightarrow> (gerr + seqRange) \<times> 's" where
  "reserveRange incr a uid s =
     (case incr uid (blockSize a) s of
        (Inl e, s1) \<Rightarrow> (Inl e, s1)
      | (Inr end1, s1) \<Rightarrow>
          let start = end1 - blockSize a + 1
          in (Inr \<lparr>sr_start = start, sr_next = start, sr_max = end1\<rparr>, s1))"

text \<open>What a caller and the background fetch do with the answer, again under the lock.\<close>

definition caller_done :: "gerr + seqRange \<Rightarrow> userSeqState \<Rightarrow> userSeqState" where
  "caller_done x st =
     (case x of Inl _ \<Rightarrow> st | Inr r \<Rightarrow> st\<lparr>us_current := Some r\<rparr>)\<lparr>us_reserving := False\<rparr>"

definition prefetch_done :: "gerr + seqRange \<Rightarrow> userSeqState \<Rightarrow> userSeqState" where
  "prefetch_done x st =
     (case x of Inl _ \<Rightarrow> st | Inr r \<Rightarrow> if us_next st = None then st\<lparr>us_next := Some r\<rparr> else st)\<lparr>us_reserving := False\<rparr>"

section \<open>The store\<close>

text \<open>What the allocators need of the store: the numbers a call returns lie above all that were given out
  before, whether the calls that gave them out reported success or not. \<open>high\<close> is the highest number
  given out so far.\<close>

locale seq_store =
  fixes incr :: "int \<Rightarrow> int \<Rightarrow> 's \<Rightarrow> (gerr + int) \<times> 's" and high :: "int \<Rightarrow> 's \<Rightarrow> int" and ok :: "int \<Rightarrow> 's \<Rightarrow> bool"
  assumes incr_fresh: "ok uid s \<Longrightarrow> 0 < d \<Longrightarrow> incr uid d s = (Inr e, s') \<Longrightarrow> high uid s + d \<le> e \<and> e \<le> high uid s'"
    and incr_keeps: "ok uid s \<Longrightarrow> 0 < d \<Longrightarrow> incr uid d s = (x, s') \<Longrightarrow> ok uid s' \<and> high uid s \<le> high uid s'"

section \<open>Many allocators\<close>

text \<open>One process for one user: its state under the lock, and what runs outside the lock. At most one
  reservation is under way; \<open>True\<close> marks that of a caller, \<open>False\<close> the background fetch.\<close>

datatype flight = Nothing | Asking bool | Answered_with bool "gerr + seqRange"

record proc =
  pr_seq :: userSeqState
  pr_flight :: flight

record 's sys =
  sy_store :: 's
  sy_proc :: "nat \<Rightarrow> proc"
  sy_issued :: "(nat \<times> int) list"

abbreviation set_proc :: "nat \<Rightarrow> userSeqState \<Rightarrow> flight \<Rightarrow> 's sys \<Rightarrow> 's sys" where
  "set_proc i st fl s \<equiv> s\<lparr>sy_proc := (sy_proc s)(i := \<lparr>pr_seq = st, pr_flight = fl\<rparr>)\<rparr>"

inductive seq_step ::
  "(int \<Rightarrow> int \<Rightarrow> 's \<Rightarrow> (gerr + int) \<times> 's) \<Rightarrow> (int \<Rightarrow> 's \<Rightarrow> int) \<Rightarrow> (int \<Rightarrow> 's \<Rightarrow> bool) \<Rightarrow> alloc_conf \<Rightarrow> int \<Rightarrow> 's sys \<Rightarrow> 's sys \<Rightarrow> bool"
  for incr :: "int \<Rightarrow> int \<Rightarrow> 's \<Rightarrow> (gerr + int) \<times> 's" and high :: "int \<Rightarrow> 's \<Rightarrow> int" and ok :: "int \<Rightarrow> 's \<Rightarrow> bool"
    and a :: alloc_conf and uid :: int
  where
  issue: "allocateLocked a (pr_seq (sy_proc s i)) = Some (n, pf, st) \<Longrightarrow>
    seq_step incr high ok a uid s
      ((set_proc i st (if pf then Asking False else pr_flight (sy_proc s i)) s)\<lparr>sy_issued := sy_issued s @ [(i, n)]\<rparr>)"
| begin_reserve: "allocateLocked a (pr_seq (sy_proc s i)) = None \<Longrightarrow> \<not> us_reserving (pr_seq (sy_proc s i)) \<Longrightarrow>
    seq_step incr high ok a uid s (set_proc i ((pr_seq (sy_proc s i))\<lparr>us_reserving := True\<rparr>) (Asking True) s)"
| reserve: "pr_flight (sy_proc s i) = Asking c \<Longrightarrow> reserveRange incr a uid (sy_store s) = (x, store') \<Longrightarrow>
    seq_step incr high ok a uid s ((set_proc i (pr_seq (sy_proc s i)) (Answered_with c x) s)\<lparr>sy_store := store'\<rparr>)"
| caller: "pr_flight (sy_proc s i) = Answered_with True x \<Longrightarrow>
    seq_step incr high ok a uid s (set_proc i (caller_done x (pr_seq (sy_proc s i))) Nothing s)"
| prefetch: "pr_flight (sy_proc s i) = Answered_with False x \<Longrightarrow>
    seq_step incr high ok a uid s (set_proc i (prefetch_done x (pr_seq (sy_proc s i))) Nothing s)"
| others: "ok uid store' \<Longrightarrow> high uid (sy_store s) \<le> high uid store' \<Longrightarrow>
    seq_step incr high ok a uid s (s\<lparr>sy_store := store'\<rparr>)"

text \<open>\<open>Allocate\<close> for a caller that is alone and whose context is not cancelled. A background fetch under way
  (\<open>us_reserving\<close>) comes back when the caller waits for it; \<open>fetch_now\<close> is the other case, that it comes
  back between two calls.\<close>

fun alloc_loop ::
  "(int \<Rightarrow> int \<Rightarrow> 's \<Rightarrow> (gerr + int) \<times> 's) \<Rightarrow> alloc_conf \<Rightarrow> int \<Rightarrow> nat \<Rightarrow> userSeqState \<Rightarrow> 's
   \<Rightarrow> ((gerr + int) \<times> userSeqState \<times> 's) option" where
  "alloc_loop incr a uid 0 st s = None"
| "alloc_loop incr a uid (Suc k) st s =
     (case allocateLocked a st of
        Some (n, pf, st1) \<Rightarrow> Some (Inr n, st1, s)
      | None \<Rightarrow>
          let (x, s1) = reserveRange incr a uid s in
          if us_reserving st then alloc_loop incr a uid k (prefetch_done x st) s1
          else case x of
              Inl e \<Rightarrow> Some (Inl e, caller_done x st, s1)
            | Inr _ \<Rightarrow> alloc_loop incr a uid k (caller_done x st) s1)"

definition Allocate ::
  "(int \<Rightarrow> int \<Rightarrow> 's \<Rightarrow> (gerr + int) \<times> 's) \<Rightarrow> alloc_conf \<Rightarrow> int \<Rightarrow> userSeqState \<Rightarrow> 's
   \<Rightarrow> (gerr + int) \<times> userSeqState \<times> 's" where
  "Allocate incr a uid st s = the (alloc_loop incr a uid 3 st s)"

definition fetch_now ::
  "(int \<Rightarrow> int \<Rightarrow> 's \<Rightarrow> (gerr + int) \<times> 's) \<Rightarrow> alloc_conf \<Rightarrow> int \<Rightarrow> userSeqState \<Rightarrow> 's \<Rightarrow> userSeqState \<times> 's" where
  "fetch_now incr a uid st s =
     (if us_reserving st then (let (x, s1) = reserveRange incr a uid s in (prefetch_done x st, s1)) else (st, s))"

definition new_sys :: "'s \<Rightarrow> 's sys" where
  "new_sys store = \<lparr>sy_store = store, sy_proc = (\<lambda>_. \<lparr>pr_seq = new_user_state, pr_flight = Nothing\<rparr>), sy_issued = []\<rparr>"

section \<open>The numbers a process still has\<close>

fun range_list :: "seqRange option \<Rightarrow> int list" where
  "range_list None = []"
| "range_list (Some r) = [sr_next r..sr_max r]"

fun flight_list :: "flight \<Rightarrow> int list" where
  "flight_list (Answered_with c (Inr r)) = range_list (Some r)"
| "flight_list _ = []"

definition pending :: "proc \<Rightarrow> int list" where
  "pending p = range_list (us_current (pr_seq p)) @ range_list (us_next (pr_seq p)) @ flight_list (pr_flight p)"

fun by_caller :: "flight \<Rightarrow> bool" where
  "by_caller (Asking c) = c" | "by_caller (Answered_with c x) = c" | "by_caller Nothing = False"

definition proc_ok :: "proc \<Rightarrow> bool" where
  "proc_ok p \<longleftrightarrow> (us_reserving (pr_seq p) \<longleftrightarrow> pr_flight p \<noteq> Nothing)
     \<and> (pr_flight p \<noteq> Nothing \<longrightarrow> us_next (pr_seq p) = None)
     \<and> (by_caller (pr_flight p) \<longrightarrow> exhausted (us_current (pr_seq p)))
     \<and> (us_next (pr_seq p) \<noteq> None \<longrightarrow> \<not> exhausted (us_next (pr_seq p)))
     \<and> (\<forall>c r. pr_flight p = Answered_with c (Inr r) \<longrightarrow> \<not> exhausted (Some r))"

lemma exhausted_simps [simp]:
  "exhausted None" "exhausted (Some r) \<longleftrightarrow> sr_max r < sr_next r"
  by (simp_all add: exhausted_def)

lemma exhausted_list: "exhausted r \<longleftrightarrow> range_list r = []"
  by (cases r) auto

lemma maybeStart_cases:
  obtains "maybeStartPrefetchLocked a st = (False, st)"
    | "maybeStartPrefetchLocked a st = (True, st\<lparr>us_reserving := True\<rparr>)" "us_next st = None" "\<not> us_reserving st"
proof (cases "us_current st = None \<or> us_next st \<noteq> None \<or> us_reserving st \<or> \<not> shouldPrefetchLocked a (the (us_current st))")
  case True
  then show thesis by (intro that(1)) (simp add: maybeStartPrefetchLocked_def)
next
  case False
  then show thesis by (intro that(2)) (simp_all add: maybeStartPrefetchLocked_def)
qed

lemma not_exhausted: "\<not> exhausted r \<Longrightarrow> r = Some (the r) \<and> sr_next (the r) \<le> sr_max (the r)"
  by (cases r) auto

lemma allocateLocked_pending:
  assumes "proc_ok p" "allocateLocked a (pr_seq p) = Some (n, pf, st)"
  defines "p' \<equiv> \<lparr>pr_seq = st, pr_flight = (if pf then Asking False else pr_flight p)\<rparr>"
  shows "pending p = n # pending p'" "proc_ok p'"
proof -
  define st1 where "st1 = (if exhausted (us_current (pr_seq p)) then (pr_seq p)\<lparr>us_current := us_next (pr_seq p), us_next := None\<rparr>
    else pr_seq p)"
  define cur where "cur = the (us_current st1)"
  define st2 where "st2 = st1\<lparr>us_current := Some (cur\<lparr>sr_next := sr_next cur + 1\<rparr>)\<rparr>"
  have n: "n = sr_next cur" "(pf, st) = maybeStartPrefetchLocked a st2"
    and more: "\<not> (exhausted (us_current (pr_seq p)) \<and> us_next (pr_seq p) = None)"
    using assms(2) by (auto simp: allocateLocked_def Let_def st1_def cur_def st2_def split: if_splits)
  have cur: "us_current st1 = Some cur" "sr_next cur \<le> sr_max cur"
  proof -
    have "\<not> exhausted (us_current st1)"
      using more assms(1) by (auto simp: st1_def proc_ok_def)
    then show "us_current st1 = Some cur" "sr_next cur \<le> sr_max cur" using not_exhausted by (auto simp: cur_def)
  qed
  have nc: "\<not> by_caller (pr_flight p)" using more assms(1) unfolding proc_ok_def
    by (cases "pr_flight p") auto
  have fl: "pr_flight p = Nothing \<or> us_next (pr_seq p) = None" using assms(1) by (auto simp: proc_ok_def)
  have "pending p = range_list (us_current st1) @ range_list (us_next st1) @ flight_list (pr_flight p)"
    by (auto simp: pending_def st1_def exhausted_list)
  also have "\<dots> = n # range_list (us_current st2) @ range_list (us_next st2) @ flight_list (pr_flight p)"
    using cur n(1) by (simp add: st2_def upto_rec1)
  also have "\<dots> = n # pending p'"
  proof (cases rule: maybeStart_cases [of a st2])
    case 1
    then show ?thesis using n(2) by (simp add: p'_def pending_def)
  next
    case 2
    then have "pr_flight p = Nothing" using assms(1) by (auto simp: st2_def st1_def proc_ok_def split: if_splits)
    then show ?thesis using n(2) 2 by (simp add: p'_def pending_def)
  qed
  finally show "pending p = n # pending p'" .
  have "proc_ok \<lparr>pr_seq = st2, pr_flight = pr_flight p\<rparr>"
    using assms(1) nc fl unfolding proc_ok_def by (auto simp: st2_def st1_def)
  then show "proc_ok p'"
    using n(2) by (cases rule: maybeStart_cases [of a st2]) (auto simp: p'_def proc_ok_def)
qed

section \<open>Invariant\<close>

text \<open>What process \<open>i\<close> has given out and what it still has, in order.\<close>

definition issued_by :: "nat \<Rightarrow> 's sys \<Rightarrow> int list" where
  "issued_by i s = map snd (filter (\<lambda>p. fst p = i) (sy_issued s))"

definition line :: "'s sys \<Rightarrow> nat \<Rightarrow> int list" where
  "line s i = issued_by i s @ pending (sy_proc s i)"

definition lines_ok :: "int \<Rightarrow> int \<Rightarrow> (nat \<Rightarrow> int list) \<Rightarrow> bool" where
  "lines_ok lo hi L \<longleftrightarrow> (\<forall>i. sorted_wrt (<) (L i) \<and> (\<forall>n \<in> set (L i). lo < n \<and> n \<le> hi))
     \<and> (\<forall>i j. i \<noteq> j \<longrightarrow> set (L i) \<inter> set (L j) = {})"

lemma lines_ok_mono: "lines_ok lo hi L \<Longrightarrow> hi \<le> hi' \<Longrightarrow> lines_ok lo hi' L"
  unfolding lines_ok_def by fastforce

lemma lines_ok_new:
  assumes "lines_ok lo hi L" "lo \<le> hi" "hi < start" "hi \<le> hi'" "last_n \<le> hi'"
  shows "lines_ok lo hi' (L(i := L i @ [start..last_n]))"
proof -
  have "sorted_wrt (<) [start..last_n]" by (simp add: sorted_wrt_upto)
  moreover have "\<forall>m \<in> set (L i). \<forall>n \<in> set [start..last_n]. m < n"
    using assms(1,3) unfolding lines_ok_def by fastforce
  moreover have "set [start..last_n] \<inter> set (L j) = {}" for j
    using assms(1,3) unfolding lines_ok_def by fastforce
  moreover have "set (L k) \<inter> set (L j) = {}" if "k \<noteq> j" for k j
    using assms(1) that unfolding lines_ok_def by blast
  moreover have "lo < n \<and> n \<le> hi'" if "n \<in> set (L j)" for j n
    using assms(1,4) that unfolding lines_ok_def by fastforce
  moreover have "sorted_wrt (<) (L j)" for j using assms(1) unfolding lines_ok_def by blast
  ultimately show ?thesis
    using assms(2,3,5) unfolding lines_ok_def
    by (auto simp: sorted_wrt_append) blast+
qed

lemma distinct_by_first:
  assumes "\<And>i. distinct (map snd (filter (\<lambda>p. fst p = i) xs))"
    and "\<And>i j n n'. (i, n) \<in> set xs \<Longrightarrow> (j, n') \<in> set xs \<Longrightarrow> i \<noteq> j \<Longrightarrow> n \<noteq> n'"
  shows "distinct (map snd xs)"
  using assms
proof (induction xs)
  case (Cons p xs)
  have "distinct (map snd (filter (\<lambda>p. fst p = i) xs))" for i
    using Cons.prems(1) [of i] by (auto split: if_splits)
  moreover have "n \<noteq> n'" if "(i, n) \<in> set xs" "(j, n') \<in> set xs" "i \<noteq> j" for i j n n'
    using Cons.prems(2) [of i n j n'] that by simp
  ultimately have "distinct (map snd xs)" by (rule Cons.IH)
  moreover have "snd p \<noteq> snd q" if "q \<in> set xs" for q
  proof (cases "fst q = fst p")
    case True
    then show ?thesis using Cons.prems(1) [of "fst p"] that by force
  next
    case False
    then show ?thesis using Cons.prems(2) [of "fst p" "snd p" "fst q" "snd q"] that by simp
  qed
  ultimately show ?case by auto
qed simp

text \<open>A lone caller gets an answer: it waits once at most for the background fetch, and reserves once at most.\<close>

lemma reserved_allocates:
  assumes "0 < blockSize a" "reserveRange incr a uid s = (Inr r, s1)"
  shows "allocateLocked a (caller_done (Inr r) st) \<noteq> None"
  using assms by (auto simp: reserveRange_def Let_def allocateLocked_def caller_done_def split: sum.splits prod.splits)

lemma alloc_loop_idle:
  assumes "0 < blockSize a" "\<not> us_reserving st"
  shows "alloc_loop incr a uid (Suc (Suc k)) st s \<noteq> None"
proof (cases "allocateLocked a st")
  case None
  obtain x s1 where x: "reserveRange incr a uid s = (x, s1)" by (cases "reserveRange incr a uid s")
  show ?thesis
  proof (cases x)
    case (Inr r)
    have "allocateLocked a (caller_done (Inr r) st) \<noteq> None"
      by (rule reserved_allocates [OF assms(1)]) (use x Inr in simp)
    with None x Inr assms(2) show ?thesis by (auto split: prod.splits)
  qed (use None x assms(2) in auto)
qed auto

lemma alloc_loop_returns:
  assumes "0 < blockSize a"
  shows "alloc_loop incr a uid 3 st s \<noteq> None"
proof -
  have three: "(3::nat) = Suc (Suc (Suc 0))" by simp
  show ?thesis
  proof (cases "us_reserving st")
    case True
    then have "\<not> us_reserving (prefetch_done x st)" for x by (simp add: prefetch_done_def)
    from alloc_loop_idle [OF assms this] True show ?thesis unfolding three
      by (auto split: option.splits prod.splits simp del: alloc_loop.simps simp: alloc_loop.simps(2) [of incr a uid "Suc (Suc 0)" st s])
  next
    case False
    then show ?thesis unfolding three by (rule alloc_loop_idle [OF assms])
  qed
qed

text \<open>A step that hands out a number or moves a range keeps every line; a reservation extends one.\<close>

lemma line_same:
  assumes "pending p = pending (sy_proc s i)"
  shows "line (s\<lparr>sy_proc := (sy_proc s)(i := p), sy_store := st\<rparr>) = line s"
  using assms by (auto simp: line_def issued_by_def fun_eq_iff)

lemma line_issue:
  assumes "pending (sy_proc s i) = n # pending p"
  shows "line (s\<lparr>sy_proc := (sy_proc s)(i := p), sy_issued := sy_issued s @ [(i, n)]\<rparr>) = line s"
  using assms by (auto simp: line_def issued_by_def fun_eq_iff)

lemma done_pending:
  assumes "proc_ok p" "pr_flight p = Answered_with c x"
  shows "pending \<lparr>pr_seq = (if c then caller_done x (pr_seq p) else prefetch_done x (pr_seq p)), pr_flight = Nothing\<rparr> = pending p"
    and "proc_ok \<lparr>pr_seq = (if c then caller_done x (pr_seq p) else prefetch_done x (pr_seq p)), pr_flight = Nothing\<rparr>"
  using assms
  by (cases c; cases x; auto simp: pending_def proc_ok_def caller_done_def prefetch_done_def exhausted_list)+

context seq_store begin

definition seq_inv :: "int \<Rightarrow> int \<Rightarrow> 's sys \<Rightarrow> bool" where
  "seq_inv uid lo s \<longleftrightarrow> ok uid (sy_store s) \<and> lo \<le> high uid (sy_store s) \<and> (\<forall>i. proc_ok (sy_proc s i))
     \<and> lines_ok lo (high uid (sy_store s)) (line s)"

lemma seq_inv_new: "ok uid store \<Longrightarrow> seq_inv uid (high uid store) (new_sys store)"
  by (simp add: seq_inv_def new_sys_def proc_ok_def new_user_state_def lines_ok_def line_def issued_by_def pending_def)

lemma seq_inv_step:
  assumes "seq_step incr high ok a uid s s'" "0 < blockSize a" "seq_inv uid lo s"
  shows "seq_inv uid lo s'"
  using assms
proof (induction rule: seq_step.induct)
  case (issue s i n pf st)
  then have P: "proc_ok (sy_proc s i)" by (simp add: seq_inv_def)
  note A = allocateLocked_pending [OF P issue(1)]
  from line_issue [OF A(1)] A(2) issue(3) show ?case by (cases pf) (simp_all add: seq_inv_def)
next
  case (begin_reserve s i)
  let ?p = "\<lparr>pr_seq = (pr_seq (sy_proc s i))\<lparr>us_reserving := True\<rparr>, pr_flight = Asking True\<rparr>"
  have P: "proc_ok (sy_proc s i)" using begin_reserve by (simp add: seq_inv_def)
  with begin_reserve(1,2) have "proc_ok ?p" "pending ?p = pending (sy_proc s i)"
    by (auto simp: proc_ok_def pending_def allocateLocked_def Let_def split: if_splits)
  with line_same [of ?p s i "sy_store s"] begin_reserve(4) show ?case by (simp add: seq_inv_def)
next
  case (reserve s i c x store')
  let ?st = "pr_seq (sy_proc s i)"
  let ?p = "\<lparr>pr_seq = ?st, pr_flight = Answered_with c x\<rparr>"
  have I: "ok uid (sy_store s)" "lo \<le> high uid (sy_store s)" "proc_ok (sy_proc s i)"
    "lines_ok lo (high uid (sy_store s)) (line s)" using reserve(4) by (simp_all add: seq_inv_def)
  obtain y s1 where y: "incr uid (blockSize a) (sy_store s) = (y, s1)" by (cases "incr uid (blockSize a) (sy_store s)")
  then have x: "store' = s1" "x = map_sum id (\<lambda>e. let b = e - blockSize a + 1 in \<lparr>sr_start = b, sr_next = b, sr_max = e\<rparr>) y"
    using reserve(2) by (auto simp: reserveRange_def Let_def split: sum.splits)
  note K = incr_keeps [OF I(1) reserve(3) y]
  show ?case
  proof (cases y)
    case (Inl e)
    then have "pending ?p = pending (sy_proc s i)" "proc_ok ?p"
      using reserve(1) I(3) x by (auto simp: pending_def proc_ok_def)
    with line_same [of ?p s i store'] I K x(1) lines_ok_mono [OF I(4)] reserve(4) show ?thesis
      by (simp add: seq_inv_def)
  next
    case (Inr e)
    let ?b = "e - blockSize a + 1"
    have F: "high uid (sy_store s) < ?b" "e \<le> high uid s1"
      using incr_fresh [OF I(1) reserve(3)] y Inr by force+
    have "proc_ok ?p" using reserve(1,3) I(3) x(2) Inr by (auto simp: proc_ok_def Let_def)
    moreover have "pending ?p = pending (sy_proc s i) @ [?b..e]"
      using reserve(1) x(2) Inr by (simp add: pending_def Let_def)
    then have "line ((set_proc i ?st (Answered_with c x) s)\<lparr>sy_store := store'\<rparr>) = (line s)(i := line s i @ [?b..e])"
      by (auto simp: line_def issued_by_def fun_eq_iff)
    moreover have "lines_ok lo (high uid s1) ((line s)(i := line s i @ [?b..e]))"
      using lines_ok_new [OF I(4,2) F(1) _ F(2)] K by blast
    ultimately show ?thesis using I K x(1) reserve(4) by (simp add: seq_inv_def)
  qed
next
  case (caller s i x)
  then have P: "proc_ok (sy_proc s i)" by (simp add: seq_inv_def)
  note D = done_pending [OF P caller(1), simplified]
  from line_same [OF D(1), where st = "sy_store s"] D(2) caller(3) show ?case by (simp add: seq_inv_def)
next
  case (prefetch s i x)
  then have P: "proc_ok (sy_proc s i)" by (simp add: seq_inv_def)
  note D = done_pending [OF P prefetch(1), simplified]
  from line_same [OF D(1), where st = "sy_store s"] D(2) prefetch(3) show ?case by (simp add: seq_inv_def)
next
  case (others store' s)
  have "line (s\<lparr>sy_store := store'\<rparr>) = line s" by (simp add: line_def issued_by_def fun_eq_iff)
  with others lines_ok_mono [of lo "high uid (sy_store s)" "line s" "high uid store'"] show ?case
    by (simp add: seq_inv_def)
qed

lemma seq_inv_reach:
  assumes "(seq_step incr high ok a uid)\<^sup>*\<^sup>* (new_sys store) s" "0 < blockSize a" "ok uid store"
  shows "seq_inv uid (high uid store) s"
  using assms(1) by induction (auto intro: seq_inv_new [OF assms(3)] seq_inv_step [OF _ assms(2)])

text \<open>Whatever the interleaving, the numbers handed out are new and never repeat, and each process hands
  out its own in increasing order.\<close>

lemma numbers_unique:
  assumes "(seq_step incr high ok a uid)\<^sup>*\<^sup>* (new_sys store) s" "0 < blockSize a" "ok uid store"
  shows "distinct (map snd (sy_issued s)) \<and> (\<forall>i. sorted_wrt (<) (issued_by i s))
    \<and> (\<forall>n \<in> snd ` set (sy_issued s). high uid store < n \<and> n \<le> high uid (sy_store s))"
proof -
  have I: "lines_ok (high uid store) (high uid (sy_store s)) (line s)"
    using seq_inv_reach [OF assms] by (simp add: seq_inv_def)
  have "sorted_wrt (<) (line s i)" for i using I by (simp add: lines_ok_def)
  then have sorted: "sorted_wrt (<) (issued_by i s)" for i by (simp add: line_def sorted_wrt_append)
  have in_line: "n \<in> set (line s i)" if "(i, n) \<in> set (sy_issued s)" for i n
    using that by (force simp: line_def issued_by_def)
  have "distinct (map snd (sy_issued s))"
  proof (rule distinct_by_first)
    show "distinct (map snd (filter (\<lambda>p. fst p = i) (sy_issued s)))" for i
      using sorted [of i] strict_sorted_iff by (auto simp: issued_by_def)
    show "n \<noteq> n'" if "(i, n) \<in> set (sy_issued s)" "(j, n') \<in> set (sy_issued s)" "i \<noteq> j" for i j n n'
      using in_line that I unfolding lines_ok_def by blast
  qed
  moreover have "high uid store < n \<and> n \<le> high uid (sy_store s)" if "(i, n) \<in> set (sy_issued s)" for i n
    using in_line [OF that] I unfolding lines_ok_def by blast
  ultimately show ?thesis using sorted by auto
qed

end

section \<open>The counter in Redis\<close>

definition seq_high :: "int \<Rightarrow> redis \<Rightarrow> int" where
  "seq_high uid r = (case rd_str r (keyUserSeq uid) of None \<Rightarrow> 0
     | Some s \<Rightarrow> (case ParseInt s 64 of Inl _ \<Rightarrow> 0 | Inr v \<Rightarrow> v))"

definition seq_ok :: "int \<Rightarrow> redis \<Rightarrow> bool" where
  "seq_ok uid r \<longleftrightarrow> (case rd_str r (keyUserSeq uid) of None \<Rightarrow> True
     | Some s \<Rightarrow> (\<exists>v. s = FormatInt v \<and> - (2 ^ 63) \<le> v \<and> v < 2 ^ 63))"

lemma incrby_cases:
  assumes "seq_ok uid r" "0 < d"
  obtains "incrby (keyUserSeq uid) d r = (Inl (Text ''increment or decrement would overflow''), r)"
    | r' where "incrby (keyUserSeq uid) d r = (Inr (seq_high uid r + d), r')"
        "seq_ok uid r'" "seq_high uid r' = seq_high uid r + d"
proof -
  have p: "ParseInt (FormatInt v) 64 = Inr v" if "- (2 ^ 63) \<le> v" "v < 2 ^ 63" for v
    using ParseInt_FormatInt [of 64 v] that by simp
  obtain v where v: "- (2 ^ 63) \<le> v" "v < 2 ^ 63" "seq_high uid r = v"
    "(case rd_str r (keyUserSeq uid) of None \<Rightarrow> Inr 0 | Some s \<Rightarrow> ParseInt s 64) = Inr v"
    using assms(1) p by (fastforce simp: seq_ok_def seq_high_def split: option.splits)
  show thesis
  proof (cases "v + d < - (2 ^ 63) \<or> 2 ^ 63 \<le> v + d")
    case True
    then show thesis using v(4) by (intro that(1)) (simp add: incrby_def)
  next
    case False
    let ?r = "r\<lparr>rd_str := (rd_str r)(keyUserSeq uid \<mapsto> FormatInt (v + d))\<rparr>"
    have "incrby (keyUserSeq uid) d r = (Inr (seq_high uid r + d), ?r)"
      using False v by (simp add: incrby_def)
    moreover have "seq_ok uid ?r" using False by (auto simp: seq_ok_def)
    moreover have "seq_high uid ?r = seq_high uid r + d" using False p [of "v + d"] v(3) by (simp add: seq_high_def)
    ultimately show thesis by (rule that(2))
  qed
qed

lemma seq_same_data: "same_data r q \<Longrightarrow> seq_ok uid q = seq_ok uid r \<and> seq_high uid q = seq_high uid r"
  by (simp add: same_data_def seq_ok_def seq_high_def)

lemma IncrUserSeqBy_store:
  assumes "seq_ok uid r" "0 < d" "IncrUserSeqBy uid d r = (x, r')"
  shows "seq_ok uid r' \<and> seq_high uid r \<le> seq_high uid r'
    \<and> (\<forall>e. x = Inr e \<longrightarrow> e = seq_high uid r + d \<and> seq_high uid r' = e)"
proof -
  let ?f = "incrby (keyUserSeq uid) d"
  have run: "rtrip_sum ?f r = (x, r')" using assms(2,3) by (simp add: IncrUserSeqBy_def)
  show ?thesis
  proof (cases rule: rtrip_cases [of r ?f])
    case (ran q y r1)
    have q: "seq_ok uid q" "seq_high uid q = seq_high uid r" using seq_same_data [OF ran(1)] assms(1) by simp_all
    show ?thesis
      using run ran(2,3) q assms(2) by (cases rule: incrby_cases [OF q(1) assms(2)]) (auto simp: rtrip_sum_def)
  next
    case (unsure q y r1 e)
    have q: "seq_ok uid q" "seq_high uid q = seq_high uid r" using seq_same_data [OF unsure(1)] assms(1) by simp_all
    show ?thesis
      using run unsure(2,3) q assms(2) by (cases rule: incrby_cases [OF q(1) assms(2)]) (auto simp: rtrip_sum_def)
  next
    case (lost q e)
    with run seq_same_data [OF lost(1)] assms(1) show ?thesis by (auto simp: rtrip_sum_def)
  qed
qed

interpretation redis_seq: seq_store IncrUserSeqBy seq_high seq_ok
proof unfold_locales
  fix uid r d e r'
  assume "seq_ok uid r" "0 < d" "IncrUserSeqBy uid d r = (Inr e, r')"
  from IncrUserSeqBy_store [OF this] show "seq_high uid r + d \<le> e \<and> e \<le> seq_high uid r'" by simp
next
  fix uid r d x r'
  assume "seq_ok uid r" "0 < d" "IncrUserSeqBy uid d r = (x, r')"
  from IncrUserSeqBy_store [OF this] show "seq_ok uid r' \<and> seq_high uid r \<le> seq_high uid r'" by blast
qed

lemma seq_high_bound: "seq_ok uid r \<Longrightarrow> seq_high uid r < 2 ^ 63"
  using ParseInt_FormatInt [of 64] by (fastforce simp: seq_ok_def seq_high_def split: option.splits sum.splits)

text \<open>Property C12. The sequence numbers of a user are unique: in any number of processes, with any callers and
  background fetches in any interleaving, with lost requests and lost replies, no number is handed out
  twice, each process hands out its own in increasing order, and all of them lie above every number given
  out before the processes started and within 64 bits.\<close>

theorem sequence_numbers_unique:
  assumes "(seq_step IncrUserSeqBy seq_high seq_ok a uid)\<^sup>*\<^sup>* (new_sys r) s" "0 < blockSize a" "seq_ok uid r"
  shows "distinct (map snd (sy_issued s)) \<and> (\<forall>i. sorted_wrt (<) (issued_by i s))
    \<and> (\<forall>n \<in> snd ` set (sy_issued s). seq_high uid r < n \<and> n < 2 ^ 63)"
proof -
  have "seq_ok uid (sy_store s)" using redis_seq.seq_inv_reach [OF assms] by (simp add: redis_seq.seq_inv_def)
  then have "seq_high uid (sy_store s) < 2 ^ 63" by (rule seq_high_bound)
  with redis_seq.numbers_unique [OF assms] show ?thesis by force
qed

text \<open>One process reserves a block and hands out its first number.\<close>

definition first_block :: seqRange where "first_block = \<lparr>sr_start = 1, sr_next = 1, sr_max = 100\<rparr>"

theorem sequence_numbers_unique_witness:
  "\<exists>s. distinct (map snd (sy_issued s)) \<and> sy_issued s = [(0, 1)]
    \<and> (seq_step IncrUserSeqBy seq_high seq_ok NewSeqAllocator 7)\<^sup>*\<^sup>* (new_sys empty_redis) s"
proof -
  let ?step = "seq_step IncrUserSeqBy seq_high seq_ok NewSeqAllocator 7"
  let ?s0 = "new_sys empty_redis"
  let ?st = "new_user_state\<lparr>us_reserving := True\<rparr>"
  define s1 where "s1 = set_proc 0 ?st (Asking True) ?s0"
  obtain r where r: "reserveRange IncrUserSeqBy NewSeqAllocator 7 empty_redis = (Inr first_block, r)"
    by (simp add: reserveRange_def IncrUserSeqBy_def rtrip_sum_def incrby_def empty_redis_def NewSeqAllocator_def
        NewSeqAllocatorWithBlockSize_def defaultSeqBlockSize_def first_block_def)
  define s2 where "s2 = (set_proc 0 ?st (Answered_with True (Inr first_block)) s1)\<lparr>sy_store := r\<rparr>"
  define s3 where "s3 = set_proc 0 (caller_done (Inr first_block) ?st) Nothing s2"
  have 1: "?step ?s0 s1"
    unfolding s1_def using seq_step.begin_reserve [of NewSeqAllocator ?s0 0]
    by (simp add: new_sys_def new_user_state_def allocateLocked_def)
  have 2: "?step s1 s2"
    unfolding s2_def using seq_step.reserve [of s1 0 True IncrUserSeqBy NewSeqAllocator 7 "Inr first_block" r] r
    by (simp add: s1_def new_sys_def)
  have 3: "?step s2 s3"
    unfolding s3_def using seq_step.caller [of s2 0 "Inr first_block"] by (simp add: s2_def)
  obtain st where "allocateLocked NewSeqAllocator (pr_seq (sy_proc s3 0)) = Some (1, False, st)"
    by (simp add: s3_def caller_done_def first_block_def allocateLocked_def maybeStartPrefetchLocked_def
        shouldPrefetchLocked_def remaining_def NewSeqAllocator_def NewSeqAllocatorWithBlockSize_def Let_def
        defaultSeqBlockSize_def defaultPrefetchRemaining_def defaultSeqPrefetchRemaining_def
        defaultSeqPrefetchPercent_def new_user_state_def)
  note issue = seq_step.issue [OF this, of IncrUserSeqBy seq_high seq_ok 7]
  define s4 where "s4 = (set_proc 0 st (if False then Asking False else pr_flight (sy_proc s3 0)) s3)\<lparr>sy_issued := sy_issued s3 @ [(0, 1)]\<rparr>"
  have 4: "?step s3 s4" "sy_issued s4 = sy_issued s3 @ [(0, 1)]"
    unfolding s4_def by (rule issue, simp)
  have run: "?step\<^sup>*\<^sup>* ?s0 s4"
    by (rule rtranclp.rtrancl_into_rtrancl [OF rtranclp.rtrancl_into_rtrancl [OF rtranclp.rtrancl_into_rtrancl
          [OF r_into_rtranclp [of ?step, OF 1] 2] 3] 4(1)])
  have "0 < blockSize NewSeqAllocator" by (simp add: NewSeqAllocator_def NewSeqAllocatorWithBlockSize_def defaultSeqBlockSize_def)
  moreover have "seq_ok 7 empty_redis" by (simp add: seq_ok_def empty_redis_def)
  ultimately have "distinct (map snd (sy_issued s4))" using sequence_numbers_unique [OF run] by blast
  moreover have "sy_issued s4 = [(0, 1)]" using 4(2) by (simp add: s3_def s2_def s1_def new_sys_def)
  ultimately show ?thesis using run by blast
qed

end
