(* ===== verification/World.thy ===== *)
theory World
  imports Delivery_State Idempotency Seq_Alloc "HOL-Library.State_Monad" "HOL-Library.Sublist"
begin

text \<open>
  The surroundings of the services of one process: the Redis server, the clock, the duplicate checker and
  the sequence allocator in memory, the session caches, and what leaves the process by other ways than
  Redis (pushes to Comet nodes, Kafka, the local spool). Such calls are logged with the error they
  returned; the answers are fixed beforehand in \<open>w_replies\<close>, and when none are left every call succeeds.
  The operations of the services are computations in the state monad over this world. Time does not
  pass during an operation; between operations anything may.
\<close>

section \<open>Sessions and routes\<close>

text \<open>\<open>Session\<close> of \<open>internal/logic/service/session.go\<close>; times in milliseconds, \<open>cachedAt\<close> in nanoseconds.\<close>

record Session =
  ss_SID :: string
  ss_UID :: int
  ss_Key :: string
  ss_DeviceID :: string
  ss_Platform :: string
  ss_Server :: string
  ss_CreatedAt :: int
  ss_LastHBAt :: int
  ss_cachedAt :: int

record userNode =
  un_uid :: int
  un_key :: string
  un_server :: string
  un_updatedAt :: int

type_synonym onlineRouter = "nat \<Rightarrow> int \<Rightarrow> userNode option"

section \<open>What leaves the process\<close>

text \<open>A message for the queue: key, bytes and headers. Its bytes are the protobuf encoding of a push message,
  kept as the message itself.\<close>

record PushMsg =
  pm_Type :: nat
  pm_Op :: i32
  pm_Server :: string
  pm_Keys :: "string list"
  pm_Room :: string
  pm_Msg :: "byte list"
  pm_Speed :: i32

record localSpoolRecord =
  sp_MsgID :: string
  sp_ToUID :: int
  sp_Op :: i32
  sp_Body :: "byte list"
  sp_Seq :: int
  sp_Server :: string
  sp_Keys :: "string list"
  sp_Headers :: "(string \<times> string) list"
  sp_Reason :: string
  sp_CreatedAt :: int

datatype event =
    Comet_PushMsg string "string list" i32 "byte list"
  | Comet_Kick string string
  | Comet_BroadcastRoom i32 string "byte list"
  | Comet_BroadcastAll i32 i32 "byte list"
  | Kafka_PublishACK string int string string string string
  | Kafka_PushMsg i32 string "string list" "byte list"
  | Kafka_BroadcastRoomMsg i32 string "byte list"
  | Kafka_BroadcastMsg i32 i32 "byte list"
  | MQ_Topic string int string PushMsg "(string \<times> string) list"
  | MQ_User int string PushMsg "(string \<times> string) list"
  | MQ_Room string PushMsg
  | MQ_Broadcast PushMsg i32
  | Spool_Write localSpoolRecord

record world =
  w_redis :: redis
  w_now :: int
  w_seen :: idem
  w_ord :: "shard \<Rightarrow> shard"
  w_walk :: "hash \<Rightarrow> string list"
  w_alloc :: "int \<Rightarrow> userSeqState"
  w_local :: "int \<Rightarrow> Session list option"
  w_online :: onlineRouter
  w_limits :: "bool list"
  w_limits2 :: "string option list"
  w_ids :: "(gerr + string) list"
  w_direct :: int
  w_kafka :: int
  w_replies :: "gerr option list"
  w_log :: "(event \<times> gerr option) list"

text \<open>A process just started: nothing in memory, an empty Redis, no session ever walked over.\<close>

definition empty_world :: world where
  "empty_world = \<lparr>w_redis = empty_redis, w_now = 1700000000000000000, w_seen = NewIdempotencyChecker, w_ord = id,
     w_walk = (\<lambda>_. []), w_alloc = (\<lambda>_. new_user_state), w_local = (\<lambda>_. None), w_online = (\<lambda>_ _. None),
     w_limits = [], w_limits2 = [], w_ids = [], w_direct = 0, w_kafka = 0, w_replies = [], w_log = []\<rparr>"

type_synonym 'a act = "(world, 'a) state"

abbreviation ret :: "'a \<Rightarrow> 'a act" where "ret \<equiv> State_Monad.return"

definition now_ms :: "world \<Rightarrow> int" where "now_ms w = w_now w div 1000000"

text \<open>A call out of the process.\<close>

definition call :: "event \<Rightarrow> gerr option act" where
  "call ev = State (\<lambda>w. let x = (case w_replies w of [] \<Rightarrow> None | x # _ \<Rightarrow> x)
     in (x, w\<lparr>w_replies := tl (w_replies w), w_log := w_log w @ [(ev, x)]\<rparr>))"

text \<open>An operation of the data access layer.\<close>

definition redis_do :: "(world \<Rightarrow> redis \<Rightarrow> 'a \<times> redis) \<Rightarrow> 'a act" where
  "redis_do f = State (\<lambda>w. let (x, r) = f w (w_redis w) in (x, w\<lparr>w_redis := r\<rparr>))"

definition asks :: "(world \<Rightarrow> 'a) \<Rightarrow> 'a act" where
  "asks f = State (\<lambda>w. (f w, w))"

definition modify :: "(world \<Rightarrow> world) \<Rightarrow> unit act" where
  "modify f = State (\<lambda>w. ((), f w))"

lemma run_call [simp]: "run_state (call ev) w =
    (case w_replies w of [] \<Rightarrow> None | x # _ \<Rightarrow> x,
     w\<lparr>w_replies := tl (w_replies w), w_log := w_log w @ [(ev, case w_replies w of [] \<Rightarrow> None | x # _ \<Rightarrow> x)]\<rparr>)"
  by (simp add: call_def Let_def)

lemma run_redis_do [simp]: "run_state (redis_do f) w = (let (x, r) = f w (w_redis w) in (x, w\<lparr>w_redis := r\<rparr>))"
  by (simp add: redis_do_def)

lemma run_asks [simp]: "run_state (asks f) w = (f w, w)"
  by (simp add: asks_def)

lemma run_modify [simp]: "run_state (modify f) w = ((), f w)"
  by (simp add: modify_def)

text \<open>The duplicate checker and the allocator.\<close>

definition is_duplicate :: "string \<Rightarrow> bool act" where
  "is_duplicate m = State (\<lambda>w. let (b, c, r) = IsDuplicate (w_now w) True m (w_seen w) (w_redis w)
     in (b, w\<lparr>w_seen := c, w_redis := r\<rparr>))"

definition mark_seen :: "string \<Rightarrow> unit act" where
  "mark_seen m = modify (\<lambda>w. w\<lparr>w_seen := MarkSeen (w_ord w) (w_now w) m (w_seen w)\<rparr>)"

definition allocate :: "alloc_conf \<Rightarrow> int \<Rightarrow> (gerr + int) act" where
  "allocate a uid = State (\<lambda>w. let (x, st, r) = Allocate IncrUserSeqBy a uid (w_alloc w uid) (w_redis w)
     in (x, w\<lparr>w_alloc := (w_alloc w)(uid := st), w_redis := r\<rparr>))"

lemma run_is_duplicate [simp]:
  "run_state (is_duplicate m) w = (let (b, c, r) = IsDuplicate (w_now w) True m (w_seen w) (w_redis w)
     in (b, w\<lparr>w_seen := c, w_redis := r\<rparr>))"
  by (simp add: is_duplicate_def)

lemma run_allocate [simp]:
  "run_state (allocate a uid) w = (let (x, st, r) = Allocate IncrUserSeqBy a uid (w_alloc w uid) (w_redis w)
     in (x, w\<lparr>w_alloc := (w_alloc w)(uid := st), w_redis := r\<rparr>))"
  by (simp add: allocate_def)

section \<open>Triples\<close>

text \<open>Started in a world where \<open>P\<close> holds, the computation ends in one where \<open>Q\<close> holds of its result.\<close>

definition triple :: "(world \<Rightarrow> bool) \<Rightarrow> 'a act \<Rightarrow> ('a \<Rightarrow> world \<Rightarrow> bool) \<Rightarrow> bool" where
  "triple P m Q \<longleftrightarrow> (\<forall>w. P w \<longrightarrow> Q (fst (run_state m w)) (snd (run_state m w)))"

abbreviation keeps :: "(world \<Rightarrow> bool) \<Rightarrow> 'a act \<Rightarrow> bool" where
  "keeps P m \<equiv> triple P m (\<lambda>_. P)"

named_theorems triples \<open>triples of the operations\<close>

lemma tripleI: "(\<And>w x w'. P w \<Longrightarrow> run_state m w = (x, w') \<Longrightarrow> Q x w') \<Longrightarrow> triple P m Q"
  unfolding triple_def by (metis prod.collapse)

lemma tripleD: "triple P m Q \<Longrightarrow> P w \<Longrightarrow> run_state m w = (x, w') \<Longrightarrow> Q x w'"
  unfolding triple_def by fastforce

lemma triple_bind: "triple P m R \<Longrightarrow> (\<And>x. triple (R x) (f x) Q) \<Longrightarrow> triple P (State_Monad.bind m f) Q"
  unfolding triple_def by (auto split: prod.splits)

lemma triple_return: "(\<And>w. P w \<Longrightarrow> Q x w) \<Longrightarrow> triple P (ret x) Q"
  by (simp add: triple_def)

lemma triple_conseq: "triple P m Q \<Longrightarrow> (\<And>w. P' w \<Longrightarrow> P w) \<Longrightarrow> (\<And>x w. Q x w \<Longrightarrow> Q' x w) \<Longrightarrow> triple P' m Q'"
  by (simp add: triple_def)

lemma triple_pre: "triple P m Q \<Longrightarrow> (\<And>w. P' w \<Longrightarrow> P w) \<Longrightarrow> triple P' m Q"
  by (simp add: triple_def)

lemma triple_if: "(b \<Longrightarrow> triple P m Q) \<Longrightarrow> (\<not> b \<Longrightarrow> triple P n Q) \<Longrightarrow> triple P (if b then m else n) Q"
  by simp

lemma triple_modify: "(\<And>w. P w \<Longrightarrow> Q () (f w)) \<Longrightarrow> triple P (modify f) Q"
  by (simp add: triple_def)

lemma triple_asks: "(\<And>w. P w \<Longrightarrow> Q (f w) w) \<Longrightarrow> triple P (asks f) Q"
  by (simp add: triple_def)

lemma triple_option: "(x = None \<Longrightarrow> triple P m Q) \<Longrightarrow> (\<And>y. x = Some y \<Longrightarrow> triple P (f y) Q)
    \<Longrightarrow> triple P (case x of None \<Rightarrow> m | Some y \<Rightarrow> f y) Q"
  by (cases x) auto

lemma triple_sum: "(\<And>e. x = Inl e \<Longrightarrow> triple P (f e) Q) \<Longrightarrow> (\<And>y. x = Inr y \<Longrightarrow> triple P (g y) Q)
    \<Longrightarrow> triple P (case x of Inl e \<Rightarrow> f e | Inr y \<Rightarrow> g y) Q"
  by (cases x) auto

lemmas triple_rules = triple_if triple_option triple_sum triple_return

section \<open>The log only grows\<close>

text \<open>A computation that only appends to the log. One that cannot touch it is a special case.\<close>

abbreviation grows :: "'a act \<Rightarrow> bool" where
  "grows m \<equiv> state_io_rel (\<lambda>w w'. prefix (w_log w) (w_log w')) m"

named_theorems growing \<open>computations that only append to the log\<close>

lemma grows_bind [growing]: "grows m \<Longrightarrow> (\<And>x. grows (f x)) \<Longrightarrow> grows (State_Monad.bind m f)"
  unfolding state_io_rel_def by (auto split: prod.splits) (metis prefix_order.trans snd_conv)

lemma grows_basic [growing]:
  "grows (ret x)" "grows (asks g)" "grows (call ev)" "grows (redis_do h)" "grows State_Monad.get"
  "grows (is_duplicate m)" "grows (mark_seen m)" "grows (allocate a uid)"
  by (auto simp: state_io_rel_def mark_seen_def split: prod.splits)

lemma grows_modify [growing]: "(\<And>w. w_log (f w) = w_log w) \<Longrightarrow> grows (modify f)"
  by (simp add: state_io_rel_def)

lemma grows_cases [growing]:
  "grows m \<Longrightarrow> grows n \<Longrightarrow> grows (if b then m else n)"
  "grows m \<Longrightarrow> (\<And>y. grows (f y)) \<Longrightarrow> grows (case z of None \<Rightarrow> m | Some y \<Rightarrow> f y)"
  "(\<And>e. grows (g e)) \<Longrightarrow> (\<And>y. grows (h y)) \<Longrightarrow> grows (case v of Inl e \<Rightarrow> g e | Inr y \<Rightarrow> h y)"
  "(\<And>x y. grows (k x y)) \<Longrightarrow> grows (case p of (x, y) \<Rightarrow> k x y)"
  by (auto split: option.splits sum.splits prod.splits)

lemma growsD: "grows m \<Longrightarrow> run_state m w = (x, w') \<Longrightarrow> prefix (w_log w) (w_log w')"
  by (auto simp: state_io_rel_def dest: spec [of _ w])

lemma triple_grows: "grows m \<Longrightarrow> (\<And>w w'. P w \<Longrightarrow> prefix (w_log w) (w_log w') \<Longrightarrow> P w') \<Longrightarrow> keeps P m"
  unfolding triple_def state_io_rel_def by blast

end
