(* ===== verification/Sessions.thy ===== *)
theory Sessions
  imports World
begin

text \<open>
  Who is connected where: \<open>internal/logic/service/online_router.go\<close> (the routes a process has seen itself) and
  \<open>internal/logic/service/session.go\<close> (sessions in Redis with a cache of a minute).

  The manager's optional parts are the arguments \<open>kicker\<close> and \<open>router\<close>; \<open>life\<close> is the expiry of keys in
  milliseconds. The order in which Go walks over the sessions of a user is \<open>w_walk\<close> of the world.
\<close>

section \<open>The online router\<close>

definition onlineRouterShards :: nat where "onlineRouterShards = 64"
definition onlineRouterTTL :: int where "onlineRouterTTL = 10 * 60 * 1000000000"

definition router_shard :: "int \<Rightarrow> nat" where
  "router_shard uid = nat (uid mod 2 ^ 64) mod onlineRouterShards"

definition NewOnlineRouter :: onlineRouter where
  "NewOnlineRouter = (\<lambda>_ _. None)"

definition OnlineRouter_Set :: "int \<Rightarrow> int \<Rightarrow> string \<Rightarrow> string \<Rightarrow> onlineRouter \<Rightarrow> onlineRouter" where
  "OnlineRouter_Set now uid key server r =
     (if uid \<le> 0 \<or> key = [] \<or> server = [] then r
      else let i = router_shard uid
           in r(i := (r i)(uid \<mapsto> \<lparr>un_uid = uid, un_key = key, un_server = server, un_updatedAt = now\<rparr>)))"

text \<open>The session a route stands for has a user, a key and a server only.\<close>

definition route_session :: "userNode \<Rightarrow> Session" where
  "route_session n = \<lparr>ss_SID = [], ss_UID = un_uid n, ss_Key = un_key n, ss_DeviceID = [], ss_Platform = [],
     ss_Server = un_server n, ss_CreatedAt = 0, ss_LastHBAt = 0, ss_cachedAt = 0\<rparr>"

definition OnlineRouter_Get :: "int \<Rightarrow> int \<Rightarrow> onlineRouter \<Rightarrow> Session option \<times> onlineRouter" where
  "OnlineRouter_Get now uid r =
     (if uid \<le> 0 then (None, r)
      else let i = router_shard uid in
        case r i uid of
          None \<Rightarrow> (None, r)
        | Some n \<Rightarrow>
            if \<not> now - un_updatedAt n > onlineRouterTTL then (Some (route_session n), r)
            else (None, r(i := (r i)(uid := None))))"

definition OnlineRouter_Delete :: "int \<Rightarrow> onlineRouter \<Rightarrow> onlineRouter" where
  "OnlineRouter_Delete uid r =
     (if uid \<le> 0 then r else (let i = router_shard uid in r(i := (r i)(uid := None))))"

definition OnlineRouter_DeleteByServer :: "string \<Rightarrow> onlineRouter \<Rightarrow> onlineRouter" where
  "OnlineRouter_DeleteByServer server r =
     (if server = [] then r
      else (\<lambda>i uid. case r i uid of None \<Rightarrow> None | Some n \<Rightarrow> if un_server n = server then None else Some n))"

definition route_set :: "int \<Rightarrow> string \<Rightarrow> string \<Rightarrow> unit act" where
  "route_set uid key server = modify (\<lambda>w. w\<lparr>w_online := OnlineRouter_Set (w_now w) uid key server (w_online w)\<rparr>)"

definition route_get :: "int \<Rightarrow> Session option act" where
  "route_get uid = State (\<lambda>w. let (x, r) = OnlineRouter_Get (w_now w) uid (w_online w) in (x, w\<lparr>w_online := r\<rparr>))"

definition route_delete :: "int \<Rightarrow> unit act" where
  "route_delete uid = modify (\<lambda>w. w\<lparr>w_online := OnlineRouter_Delete uid (w_online w)\<rparr>)"

section \<open>Reading sessions\<close>

text \<open>\<open>fmt.Sscanf(v, "%d", &x)\<close> into a 64-bit integer that is 0: the digits at the front, 0 when there are
  none or too many.\<close>

definition scan_int :: "string \<Rightarrow> int" where
  "scan_int s =
     (let t = dropWhile (\<lambda>c. c = CHR '' '') s;
          sign = takeWhile (\<lambda>c. c = CHR ''-'' \<or> c = CHR ''+'') (take 1 t);
          digits = takeWhile is_digit (drop (length sign) t)
      in case ParseInt (sign @ digits) 64 of Inl _ \<Rightarrow> 0 | Inr v \<Rightarrow> v)"

definition scan_field :: "hash \<Rightarrow> string \<Rightarrow> int" where
  "scan_field h f = (case h f of None \<Rightarrow> 0 | Some v \<Rightarrow> scan_int v)"

definition session_of :: "string \<Rightarrow> hash \<Rightarrow> Session" where
  "session_of sid h = \<lparr>ss_SID = sid, ss_UID = scan_field h ''uid'', ss_Key = str_or_empty (h ''key''),
     ss_DeviceID = str_or_empty (h ''device_id''), ss_Platform = str_or_empty (h ''platform''),
     ss_Server = str_or_empty (h ''server''), ss_CreatedAt = scan_field h ''created_at'',
     ss_LastHBAt = scan_field h ''last_hb'', ss_cachedAt = 0\<rparr>"

definition sm_GetSession :: "string \<Rightarrow> (gerr + Session option) act" where
  "sm_GetSession sid = do {
     x \<leftarrow> redis_do (\<lambda>w. GetSession sid);
     ret (map_sum id (\<lambda>h. if h = (\<lambda>_. None) then None else Some (session_of sid h)) x)
   }"

fun sm_gather :: "string list \<Rightarrow> Session list act" where
  "sm_gather [] = ret []"
| "sm_gather (sid # sids) = do {
     x \<leftarrow> sm_GetSession sid;
     ss \<leftarrow> sm_gather sids;
     ret (case x of Inr (Some s) \<Rightarrow> s # ss | _ \<Rightarrow> ss)
   }"

definition sm_GetSessions :: "int \<Rightarrow> (gerr + Session list) act" where
  "sm_GetSessions uid = do {
     w \<leftarrow> State_Monad.get;
     let fresh = (case w_local w uid of Some (s # ss) \<Rightarrow> w_now w - ss_cachedAt s < 60 * 1000000000 | _ \<Rightarrow> False);
     if fresh then ret (Inr (the (w_local w uid)))
     else do {
       x \<leftarrow> redis_do (\<lambda>w. GetUserSessions uid);
       case x of
         Inl e \<Rightarrow> ret (Inl (Wrapped ''get user sessions'' e))
       | Inr sidMap \<Rightarrow> do {
           ss \<leftarrow> sm_gather (w_walk w sidMap);
           let ss = map (\<lambda>s. s\<lparr>ss_cachedAt := w_now w\<rparr>) ss;
           modify (\<lambda>w. w\<lparr>w_local := (w_local w)(uid \<mapsto> ss)\<rparr>);
           ret (Inr ss)
         }
     }
   }"

definition sm_IsOnline :: "int \<Rightarrow> (bool \<times> Session list) act" where
  "sm_IsOnline uid = do {
     x \<leftarrow> sm_GetSessions uid;
     ret (case x of Inl _ \<Rightarrow> (False, []) | Inr ss \<Rightarrow> if ss = [] then (False, []) else (True, ss))
   }"

section \<open>Changing sessions\<close>

fun first_route :: "Session list \<Rightarrow> Session option" where
  "first_route [] = None"
| "first_route (s # ss) = (if ss_Key s \<noteq> [] \<and> ss_Server s \<noteq> [] then Some s else first_route ss)"

definition refreshOnlineRouterAfterDelete :: "bool \<Rightarrow> int \<Rightarrow> unit act" where
  "refreshOnlineRouterAfterDelete router uid =
     (if \<not> router \<or> uid \<le> 0 then ret ()
      else do {
        x \<leftarrow> sm_GetSessions uid;
        case (case x of Inl _ \<Rightarrow> None | Inr ss \<Rightarrow> first_route ss) of
          None \<Rightarrow> route_delete uid
        | Some s \<Rightarrow> route_set uid (ss_Key s) (ss_Server s)
      })"

definition sm_Kick :: "bool \<Rightarrow> bool \<Rightarrow> string \<Rightarrow> int \<Rightarrow> string \<Rightarrow> gerr option act" where
  "sm_Kick kicker router sid uid deviceID = do {
     x \<leftarrow> sm_GetSession sid;
     let sess = (case x of Inr (Some s) \<Rightarrow> Some s | _ \<Rightarrow> None);
     let key = (case sess of None \<Rightarrow> [] | Some s \<Rightarrow> ss_Key s);
     y \<leftarrow> redis_do (\<lambda>w. DelSession sid uid deviceID key);
     case y of
       Inl e \<Rightarrow> ret (Some (Wrapped ''del session'' e))
     | Inr _ \<Rightarrow> do {
         modify (\<lambda>w. w\<lparr>w_local := (w_local w)(uid := None)\<rparr>);
         refreshOnlineRouterAfterDelete router uid;
         case sess of
           None \<Rightarrow> ret None
         | Some s \<Rightarrow>
             if kicker \<and> ss_Server s \<noteq> [] \<and> ss_Key s \<noteq> [] then do {
               z \<leftarrow> call (Comet_Kick (ss_Server s) (ss_Key s));
               ret None
             } else ret None
       }
   }"

definition sm_Create :: "bool \<Rightarrow> bool \<Rightarrow> int \<Rightarrow> Session \<Rightarrow> gerr option act" where
  "sm_Create kicker router life sess = do {
     x \<leftarrow> redis_do (\<lambda>w. GetDeviceSession (ss_UID sess) (ss_DeviceID sess));
     let oldSID = (case x of Inl _ \<Rightarrow> [] | Inr s \<Rightarrow> s);
     k \<leftarrow> (if oldSID \<noteq> [] \<and> oldSID \<noteq> ss_SID sess
           then sm_Kick kicker router oldSID (ss_UID sess) (ss_DeviceID sess) else ret None);
     y \<leftarrow> redis_do (\<lambda>w. AddSession life (now_ms w) (ss_SID sess) (ss_UID sess) (ss_Key sess) (ss_DeviceID sess)
            (ss_Platform sess) (ss_Server sess));
     case y of
       Inl e \<Rightarrow> ret (Some (Wrapped ''add session'' e))
     | Inr _ \<Rightarrow> do {
         modify (\<lambda>w. w\<lparr>w_local := (w_local w)(ss_UID sess := None)\<rparr>);
         (if router then route_set (ss_UID sess) (ss_Key sess) (ss_Server sess) else ret ());
         ret None
       }
   }"

definition sm_Heartbeat :: "int \<Rightarrow> string \<Rightarrow> int \<Rightarrow> gerr option act" where
  "sm_Heartbeat life key uid = do {
     x \<leftarrow> redis_do (\<lambda>w. GetSessionByKey key);
     case x of
       Inl e \<Rightarrow> ret (Some e)
     | Inr sid \<Rightarrow>
         if sid = [] then ret None
         else do {
           y \<leftarrow> redis_do (\<lambda>w. ExpireSession life sid uid);
           ret (case y of Inl e \<Rightarrow> Some e | Inr _ \<Rightarrow> None)
         }
   }"

definition sm_Disconnect :: "bool \<Rightarrow> bool \<Rightarrow> int \<Rightarrow> string \<Rightarrow> gerr option act" where
  "sm_Disconnect kicker router uid key = do {
     x \<leftarrow> redis_do (\<lambda>w. GetSessionByKey key);
     case x of
       Inl e \<Rightarrow> ret (Some e)
     | Inr sid \<Rightarrow>
         if sid = [] then ret None
         else do {
           y \<leftarrow> sm_GetSession sid;
           let deviceID = (case y of Inr (Some s) \<Rightarrow> ss_DeviceID s | _ \<Rightarrow> []);
           sm_Kick kicker router sid uid deviceID
         }
   }"

lemma session_growing [growing]:
  "grows (route_set uid key server)" "grows (route_get uid)" "grows (route_delete uid)"
  "grows (sm_GetSession sid)" "grows (sm_gather sids)" "grows (sm_GetSessions uid)" "grows (sm_IsOnline uid)"
proof -
  show r: "grows (route_set uid key server)" "grows (route_get uid)" "grows (route_delete uid)"
    by (auto simp: route_set_def route_get_def route_delete_def state_io_rel_def split: prod.splits)
  show g: "grows (sm_GetSession sid)" for sid unfolding sm_GetSession_def by (intro growing)
  show a: "grows (sm_gather sids)" for sids
    by (induction sids) (auto intro!: growing g)
  show s: "grows (sm_GetSessions uid)" unfolding sm_GetSessions_def Let_def by (intro growing a) simp
  show "grows (sm_IsOnline uid)" unfolding sm_IsOnline_def by (intro growing s)
qed

section \<open>Time and heartbeats\<close>

text \<open>Time passes: keys whose life is over disappear, the others have less of it left.\<close>

definition dead :: "int \<Rightarrow> redis \<Rightarrow> string \<Rightarrow> bool" where
  "dead d r k \<longleftrightarrow> (case rd_ttl r k of None \<Rightarrow> False | Some t \<Rightarrow> t \<le> d)"

definition elapse :: "int \<Rightarrow> redis \<Rightarrow> redis" where
  "elapse d r = r\<lparr>rd_hash := (\<lambda>k. if dead d r k then (\<lambda>_. None) else rd_hash r k),
     rd_zset := (\<lambda>k. if dead d r k then [] else rd_zset r k), rd_str := (\<lambda>k. if dead d r k then None else rd_str r k),
     rd_list := (\<lambda>k. if dead d r k then [] else rd_list r k), rd_attempt := (\<lambda>k. if dead d r k then None else rd_attempt r k),
     rd_ttl := (\<lambda>k. if dead d r k then None else map_option (\<lambda>t. t - d) (rd_ttl r k))\<rparr>"

definition w_elapse :: "int \<Rightarrow> world \<Rightarrow> world" where
  "w_elapse d w = w\<lparr>w_redis := elapse d (w_redis w), w_now := w_now w + d * 1000000\<rparr>"

text \<open>Heartbeats of one connection, each after a pause.\<close>

fun heartbeats :: "int \<Rightarrow> string \<Rightarrow> int \<Rightarrow> int list \<Rightarrow> world \<Rightarrow> world" where
  "heartbeats life key uid [] w = w"
| "heartbeats life key uid (d # ds) w =
     heartbeats life key uid ds (snd (run_state (sm_Heartbeat life key uid) (w_elapse d w)))"

definition hb_inv :: "int \<Rightarrow> string \<Rightarrow> string \<Rightarrow> int \<Rightarrow> redis \<Rightarrow> bool" where
  "hb_inv life key sid e r \<longleftrightarrow>
     (case rd_str r (keyKeySession key) of None \<Rightarrow> True
      | Some s \<Rightarrow> s = sid \<and> e < life \<and> rd_ttl r (keyKeySession key) = Some (life - e))
     \<and> (rd_hash r (keySession sid) = (\<lambda>_. None)
        \<or> (\<exists>t. rd_ttl r (keySession sid) = Some t \<and> 0 < t \<and> t \<le> 2 * life - e))"

lemma hb_inv_same: "same_data r q \<Longrightarrow> hb_inv life key sid e r \<Longrightarrow> hb_inv life key sid e q"
  by (simp add: same_data_def hb_inv_def split: option.splits)

lemma hb_inv_elapse:
  assumes "hb_inv life key sid e r" "0 \<le> d"
  shows "hb_inv life key sid (e + d) (elapse d r)"
  using assms by (auto simp: hb_inv_def elapse_def dead_def split: option.splits)

lemma rd_ttl_expire: "rd_ttl (expire k t r) = (if key_exists k r then (rd_ttl r)(k \<mapsto> t) else rd_ttl r)"
  by (simp add: expire_def)

lemma session_keys_apart [simp]:
  "keySession sid \<noteq> keyKeySession key" "keyKeySession key \<noteq> keySession sid"
  "keyUserSessions uid \<noteq> keyKeySession key" "keyKeySession key \<noteq> keyUserSessions uid"
  "keyUserSessions uid \<noteq> keySession sid" "keySession sid \<noteq> keyUserSessions uid"
  by (simp_all add: key_defs)

lemma hb_inv_expire:
  assumes "hb_inv life key sid e r" "e < life" "0 < life"
  shows "hb_inv life key sid e (expire (keySession sid) life r)"
    and "hb_inv life key sid e (expire (keyUserSessions uid) life r)"
  using assms by (auto simp: hb_inv_def rd_ttl_expire split: option.splits)

lemma hb_inv_heartbeat:
  assumes "hb_inv life key sid e (w_redis w)" "0 < life"
  shows "hb_inv life key sid e (w_redis (snd (run_state (sm_Heartbeat life key uid) w)))"
proof -
  let ?get = "\<lambda>r. (str_or_empty (rd_str r (keyKeySession key)), r)"
  obtain x r1 where g: "GetSessionByKey key (w_redis w) = (x, r1)" by (cases "GetSessionByKey key (w_redis w)")
  have "rtrip ?get (w_redis w) = (x, r1)" using g by (simp add: GetSessionByKey_def)
  then have g': "hb_inv life key sid e r1" "x = Inr s \<Longrightarrow> s = [] \<or> s = sid \<and> e < life" for s
    using assms
    by (cases rule: rtrip_cases [of "w_redis w" ?get];
        auto simp: hb_inv_same hb_inv_def same_data_def str_or_empty_def split: option.splits)+
  show ?thesis
  proof (cases "\<exists>s. x = Inr s \<and> s \<noteq> []")
    case False
    then show ?thesis using g g'(1) by (cases x) (auto simp: sm_Heartbeat_def)
  next
    case True
    then obtain s where s: "x = Inr s" "s \<noteq> []" "s = sid" "e < life" using g'(2) by blast
    let ?f = "\<lambda>r. let r1 = expire (keySession sid) life r
       in ((), if 0 < uid then expire (keyUserSessions uid) life r1 else r1)"
    obtain y r2 where y: "ExpireSession life sid uid r1 = (y, r2)" by (cases "ExpireSession life sid uid r1")
    have "rtrip ?f r1 = (y, r2)" using y by (simp add: ExpireSession_def)
    then have "hb_inv life key sid e r2"
      by (rule rtrip_invariant) (auto simp: Let_def hb_inv_same g'(1) hb_inv_expire s(4) assms(2))
    then show ?thesis using g s y by (simp add: sm_Heartbeat_def)
  qed
qed

lemma hb_inv_run:
  assumes "hb_inv life key sid e (w_redis w)" "\<forall>d \<in> set ds. 0 \<le> d" "0 < life"
  shows "hb_inv life key sid (e + sum_list ds) (w_redis (heartbeats life key uid ds w))"
  using assms
proof (induction ds arbitrary: e w)
  case (Cons d ds)
  have "hb_inv life key sid (e + d) (w_redis (w_elapse d w))"
    using hb_inv_elapse Cons.prems by (simp add: w_elapse_def)
  from Cons.IH [OF hb_inv_heartbeat [OF this Cons.prems(3)]] Cons.prems(2,3) show ?case by (simp add: add.assoc)
qed simp

lemma more_keys_apart [simp]:
  "keyKeySession key \<noteq> keyDeviceSession uid dev" "keyDeviceSession uid dev \<noteq> keyKeySession key"
  "keySession sid \<noteq> keyDeviceSession uid dev" "keyDeviceSession uid dev \<noteq> keySession sid"
  "keyUserSessions uid' \<noteq> keyDeviceSession uid dev" "keyDeviceSession uid dev \<noteq> keyUserSessions uid'"
  by (simp_all add: key_defs)

lemma hb_inv_AddSession:
  assumes "AddSession life now sid uid key dev plat server r = (Inr (), r')" "0 < life"
  shows "hb_inv life key sid 0 r'"
proof -
  let ?f = "\<lambda>r.
       let r1 = expire (keySession sid) life (hset (keySession sid)
                  [(''uid'', FormatInt uid), (''key'', key), (''device_id'', dev), (''platform'', plat),
                   (''server'', server), (''created_at'', FormatInt now), (''last_hb'', FormatInt now)] r);
           r2 = expire (keyUserSessions uid) life (hset (keyUserSessions uid) [(sid, dev @ '':'' @ plat)] r1);
           r3 = set_str (keyDeviceSession uid dev) sid (Some life) r2
       in ((), set_str (keyKeySession key) sid (Some life) r3)"
  have run: "rtrip ?f r = (Inr (), r')" using assms(1) by (simp add: AddSession_def)
  have "hb_inv life key sid 0 (snd (?f q))" for q
    using assms(2) by (simp add: Let_def hb_inv_def rd_ttl_expire hset_key_exists)
  with run show ?thesis by (cases rule: rtrip_cases [of r ?f]) (auto simp del: fun_upd_apply dest: arg_cong [of _ _ snd])
qed

text \<open>Property C13. A connection cannot be kept alive by its heartbeats: they renew the session but not the key by
  which they find it, so once twice the expiry has passed since it was set up its session is gone, however
  often it sent a heartbeat and whatever happened to the round trips.\<close>

theorem heartbeats_in_vain:
  assumes "AddSession life now sid uid key dev plat server r = (Inr (), w_redis w)" "0 < life"
    and "\<forall>d \<in> set ds. 0 \<le> d" "2 * life \<le> sum_list ds"
  shows "rd_hash (w_redis (heartbeats life key uid ds w)) (keySession sid) = (\<lambda>_. None)"
proof -
  have "hb_inv life key sid (0 + sum_list ds) (w_redis (heartbeats life key uid ds w))"
    by (rule hb_inv_run [OF hb_inv_AddSession [OF assms(1,2)] assms(3,2)])
  with assms(4) show ?thesis by (auto simp: hb_inv_def)
qed

theorem heartbeats_in_vain_witness:
  "rd_hash (w_redis (heartbeats 1000 ''k'' 7 [400, 400, 400, 400, 400]
      (empty_world\<lparr>w_redis := snd (AddSession 1000 0 ''s'' 7 ''k'' ''d'' ''web'' ''c1'' empty_redis)\<rparr>))) (keySession ''s'')
    = (\<lambda>_. None)
   \<and> rd_hash (snd (AddSession 1000 0 ''s'' 7 ''k'' ''d'' ''web'' ''c1'' empty_redis)) (keySession ''s'') ''key'' = Some ''k''"
proof
  let ?w = "empty_world\<lparr>w_redis := snd (AddSession 1000 0 ''s'' 7 ''k'' ''d'' ''web'' ''c1'' empty_redis)\<rparr>"
  have "AddSession 1000 0 ''s'' 7 ''k'' ''d'' ''web'' ''c1'' empty_redis = (Inr (), w_redis ?w)"
    by (simp add: AddSession_def empty_redis_def Let_def)
  from heartbeats_in_vain [OF this, of "[400, 400, 400, 400, 400]"]
  show "rd_hash (w_redis (heartbeats 1000 ''k'' 7 [400, 400, 400, 400, 400] ?w)) (keySession ''s'') = (\<lambda>_. None)" by simp
qed (simp add: AddSession_def empty_redis_def Let_def)

section \<open>One session per device\<close>

lemma run_GetSession:
  assumes "rd_fates (w_redis w) = []"
  shows "run_state (sm_GetSession sid) w
    = (Inr (let h = rd_hash (w_redis w) (keySession sid) in if h = (\<lambda>_. None) then None else Some (session_of sid h)), w)"
  using assms by (simp add: sm_GetSession_def GetSession_def Let_def)

lemma run_gather:
  assumes "rd_fates (w_redis w) = []"
  shows "\<exists>ss. run_state (sm_gather sids) w = (ss, w)"
  by (induction sids) (auto simp: run_GetSession [OF assms])

lemma run_GetSessions:
  assumes "rd_fates (w_redis w) = []"
  obtains ss l where "run_state (sm_GetSessions uid) w = (Inr ss, w\<lparr>w_local := l\<rparr>)"
proof -
  let ?fresh = "case w_local w uid of Some (s # ss) \<Rightarrow> w_now w - ss_cachedAt s < 60 * 1000000000 | _ \<Rightarrow> False"
  obtain ss where ss: "run_state (sm_gather (w_walk w (rd_hash (w_redis w) (keyUserSessions uid)))) w = (ss, w)"
    using run_gather [OF assms] by blast
  show thesis
  proof (cases ?fresh)
    case True
    then show thesis by (intro that [of "the (w_local w uid)" "w_local w"]) (simp add: sm_GetSessions_def)
  next
    case False
    have "run_state (sm_GetSessions uid) w
        = (Inr (map (\<lambda>s. s\<lparr>ss_cachedAt := w_now w\<rparr>) ss),
           w\<lparr>w_local := (w_local w)(uid \<mapsto> map (\<lambda>s. s\<lparr>ss_cachedAt := w_now w\<rparr>) ss)\<rparr>)"
      unfolding sm_GetSessions_def using False assms ss by (simp add: GetUserSessions_def Let_def)
    then show thesis by (rule that)
  qed
qed

lemma run_refresh:
  assumes "rd_fates (w_redis w) = []"
  obtains l ol where "run_state (refreshOnlineRouterAfterDelete router uid) w = ((), w\<lparr>w_local := l, w_online := ol\<rparr>)"
proof (cases "router \<and> 0 < uid")
  case False
  then show thesis
    by (intro that [where l = "w_local w" and ol = "w_online w"]) (auto simp: refreshOnlineRouterAfterDelete_def)
next
  case True
  obtain ss l where ss: "run_state (sm_GetSessions uid) w = (Inr ss, w\<lparr>w_local := l\<rparr>)" by (rule run_GetSessions [OF assms])
  show thesis
  proof (cases "first_route ss")
    case None
    with True ss show thesis
      by (intro that [where l = l and ol = "OnlineRouter_Delete uid (w_online w)"])
        (simp add: refreshOnlineRouterAfterDelete_def route_delete_def)
  next
    case (Some s)
    with True ss show thesis
      by (intro that [where l = l and ol = "OnlineRouter_Set (w_now w) uid (ss_Key s) (ss_Server s) (w_online w)"])
        (simp add: refreshOnlineRouterAfterDelete_def route_set_def)
  qed
qed

lemma run_Kick:
  assumes "rd_fates (w_redis w) = []" and s: "rd_hash (w_redis w) (keySession sid) = h" "h \<noteq> (\<lambda>_. None)"
  obtains l ol where "run_state (sm_Kick kicker router sid uid dev) w =
    (None, let r = snd (DelSession sid uid dev (str_or_empty (h ''key'')) (w_redis w));
               w1 = w\<lparr>w_redis := r, w_local := l, w_online := ol\<rparr>
           in if kicker \<and> str_or_empty (h ''server'') \<noteq> [] \<and> str_or_empty (h ''key'') \<noteq> []
              then snd (run_state (call (Comet_Kick (str_or_empty (h ''server'')) (str_or_empty (h ''key'')))) w1) else w1)"
proof -
  let ?key = "str_or_empty (h ''key'')"
  obtain r where d: "DelSession sid uid dev ?key (w_redis w) = (Inr (), r)" "rd_fates r = []"
    using assms(1) by (simp add: DelSession_def Let_def)
  let ?w1 = "w\<lparr>w_redis := r, w_local := (w_local w)(uid := None)\<rparr>"
  obtain l ol where R: "run_state (refreshOnlineRouterAfterDelete router uid) ?w1
      = ((), ?w1\<lparr>w_local := l, w_online := ol\<rparr>)"
    by (rule run_refresh [of ?w1]) (use d in simp)
  show thesis
    by (rule that [where l = l and ol = ol])
      (use assms d R in \<open>simp add: sm_Kick_def run_GetSession session_of_def Let_def\<close>)
qed

lemma key_inj [simp]:
  "keySession a = keySession b \<longleftrightarrow> a = b" "keyKeySession a = keyKeySession b \<longleftrightarrow> a = b"
  by (simp_all add: key_defs)

lemma AddSession_data:
  assumes "rd_fates r = []"
  obtains r2 h2 where "AddSession life now sid uid key dev plat server r = (Inr (), r2)"
    "rd_hash r2 = (rd_hash r)(keySession sid := h2,
       keyUserSessions uid := (rd_hash r (keyUserSessions uid))(sid \<mapsto> dev @ '':'' @ plat))"
    "h2 ''key'' = Some key"
    "rd_str r2 = (rd_str r)(keyDeviceSession uid dev \<mapsto> sid, keyKeySession key \<mapsto> sid)"
  using assms by (simp add: AddSession_def Let_def)

lemma str_or_empty_Some [simp]: "str_or_empty (Some s) = s"
  by (simp add: str_or_empty_def)

text \<open>Property C14. A device has one session: when a user connects on a device that has a session already, then
  afterwards the device's session is the new one, nothing is left of the old session, its connection has
  been told to close, and the user's sessions on other devices are as before.\<close>

theorem Create_single_login:
  assumes "rd_fates (w_redis w) = []"
    and old: "rd_str (w_redis w) (keyDeviceSession (ss_UID s) (ss_DeviceID s)) = Some old" "old \<noteq> []" "old \<noteq> ss_SID s"
    and h: "rd_hash (w_redis w) (keySession old) = h" "h ''key'' = Some k" "h ''server'' = Some c" "k \<noteq> []" "c \<noteq> []"
    and pos: "0 < ss_UID s" "ss_DeviceID s \<noteq> []" "ss_Key s \<noteq> k"
    and run: "run_state (sm_Create True router life s) w = (x, w')"
  shows "x = None \<and> rd_str (w_redis w') (keyDeviceSession (ss_UID s) (ss_DeviceID s)) = Some (ss_SID s)
    \<and> rd_hash (w_redis w') (keySession old) = (\<lambda>_. None) \<and> rd_str (w_redis w') (keyKeySession k) = None
    \<and> rd_hash (w_redis w') (keyUserSessions (ss_UID s)) =
        (rd_hash (w_redis w) (keyUserSessions (ss_UID s)))(old := None, ss_SID s \<mapsto> ss_DeviceID s @ '':'' @ ss_Platform s)
    \<and> rd_hash (w_redis w') (keySession (ss_SID s)) ''key'' = Some (ss_Key s)
    \<and> rd_str (w_redis w') (keyKeySession (ss_Key s)) = Some (ss_SID s)
    \<and> (\<forall>sid. sid \<notin> {old, ss_SID s} \<longrightarrow> rd_hash (w_redis w') (keySession sid) = rd_hash (w_redis w) (keySession sid))
    \<and> Comet_Kick c k \<in> fst ` set (w_log w') \<and> w_local w' (ss_UID s) = None"
proof -
  have "h \<noteq> (\<lambda>_. None)" using h(2) by auto
  then obtain l ol where "run_state (sm_Kick True router old (ss_UID s) (ss_DeviceID s)) w =
    (None, let r = snd (DelSession old (ss_UID s) (ss_DeviceID s) (str_or_empty (h ''key'')) (w_redis w));
               w1 = w\<lparr>w_redis := r, w_local := l, w_online := ol\<rparr>
           in if True \<and> str_or_empty (h ''server'') \<noteq> [] \<and> str_or_empty (h ''key'') \<noteq> []
              then snd (run_state (call (Comet_Kick (str_or_empty (h ''server'')) (str_or_empty (h ''key'')))) w1) else w1)"
    by (rule run_Kick [OF assms(1) h(1)])
  then have K: "run_state (sm_Kick True router old (ss_UID s) (ss_DeviceID s)) w =
      (None, snd (run_state (call (Comet_Kick c k))
        (w\<lparr>w_redis := snd (DelSession old (ss_UID s) (ss_DeviceID s) k (w_redis w)), w_local := l, w_online := ol\<rparr>)))"
    using h by (simp add: Let_def del: run_call)
  let ?r = "snd (DelSession old (ss_UID s) (ss_DeviceID s) k (w_redis w))"
  have D: "rd_fates ?r = []" "rd_str ?r (keyKeySession k) = None"
      "rd_hash ?r (keySession sid) = (if sid = old then (\<lambda>_. None) else rd_hash (w_redis w) (keySession sid))"
      "rd_hash ?r (keyUserSessions (ss_UID s)) = (rd_hash (w_redis w) (keyUserSessions (ss_UID s)))(old := None)" for sid
    using assms(1) pos h(4) by (simp_all add: DelSession_def Let_def)
  obtain w1 where w1: "run_state (sm_Kick True router old (ss_UID s) (ss_DeviceID s)) w = (None, w1)"
      "w_redis w1 = ?r" "Comet_Kick c k \<in> fst ` set (w_log w1)" "w_now w1 = w_now w"
    using K by simp
  obtain r2 h2 where A: "AddSession life (now_ms w) (ss_SID s) (ss_UID s) (ss_Key s) (ss_DeviceID s) (ss_Platform s)
        (ss_Server s) ?r = (Inr (), r2)"
      "rd_hash r2 = (rd_hash ?r)(keySession (ss_SID s) := h2,
        keyUserSessions (ss_UID s) := (rd_hash ?r (keyUserSessions (ss_UID s)))(ss_SID s \<mapsto> ss_DeviceID s @ '':'' @ ss_Platform s))"
      "h2 ''key'' = Some (ss_Key s)"
      "rd_str r2 = (rd_str ?r)(keyDeviceSession (ss_UID s) (ss_DeviceID s) \<mapsto> ss_SID s, keyKeySession (ss_Key s) \<mapsto> ss_SID s)"
    by (rule AddSession_data [OF D(1)])
  have "x = None" "w_redis w' = r2" "w_log w' = w_log w1" "w_local w' (ss_UID s) = None"
    using run w1 A(1) old assms(1)
    by (auto simp: sm_Create_def GetDeviceSession_def now_ms_def route_set_def split: if_splits)
  with A(2-4) D w1(3) pos old(3) show ?thesis by simp
qed

definition demo_session :: Session where
  "demo_session = \<lparr>ss_SID = ''s2'', ss_UID = 7, ss_Key = ''k2'', ss_DeviceID = ''d'', ss_Platform = ''web'',
     ss_Server = ''c2'', ss_CreatedAt = 0, ss_LastHBAt = 0, ss_cachedAt = 0\<rparr>"

theorem Create_single_login_witness:
  "rd_hash (w_redis (snd (run_state (sm_Create True True 1000 demo_session)
       (empty_world\<lparr>w_redis := snd (AddSession 1000 0 ''s1'' 7 ''k1'' ''d'' ''web'' ''c1'' empty_redis)\<rparr>))))
     (keySession ''s1'') = (\<lambda>_. None)
   \<and> Comet_Kick ''c1'' ''k1'' \<in> fst ` set (w_log (snd (run_state (sm_Create True True 1000 demo_session)
       (empty_world\<lparr>w_redis := snd (AddSession 1000 0 ''s1'' 7 ''k1'' ''d'' ''web'' ''c1'' empty_redis)\<rparr>))))"
proof -
  let ?r = "snd (AddSession 1000 0 ''s1'' 7 ''k1'' ''d'' ''web'' ''c1'' empty_redis)"
  let ?w = "empty_world\<lparr>w_redis := ?r\<rparr>"
  obtain x w' where run: "run_state (sm_Create True True 1000 demo_session) ?w = (x, w')"
    by (cases "run_state (sm_Create True True 1000 demo_session) ?w")
  have "rd_fates (w_redis ?w) = []"
    "rd_str (w_redis ?w) (keyDeviceSession (ss_UID demo_session) (ss_DeviceID demo_session)) = Some ''s1''"
    "rd_hash (w_redis ?w) (keySession ''s1'') ''key'' = Some ''k1''"
    "rd_hash (w_redis ?w) (keySession ''s1'') ''server'' = Some ''c1''"
    by (simp_all add: AddSession_def empty_redis_def Let_def demo_session_def)
  from Create_single_login [OF this(1,2) _ _ refl this(3,4) _ _ _ _ _ run] run
  show ?thesis by (simp add: demo_session_def)
qed

end
