(* ===== verification/Envelope.thy ===== *)
theory Envelope
  imports Msg_Codec Int_Strings
begin

text \<open>
  Message bodies on their way through the router: base64 (\<open>encoding/base64\<close>, \<open>StdEncoding\<close>, as far as used),
  the business envelope a body may hold and the queue headers made from it (\<open>parseBizEnvelope\<close>,
  \<open>traceIDFromBodyOrContext\<close>, \<open>buildMQHeaders\<close> of \<open>internal/router/dispatch.go\<close>).

  What \<open>encoding/json\<close> makes of a body is the argument \<open>json\<close>: the envelope it decodes to, or nothing; and
  \<open>jtrace\<close> is the trace id it finds in an arbitrary JSON object (\<open>tracectx.FromJSONPayload\<close>).
\<close>

section \<open>Base64\<close>

definition b64_char :: "nat \<Rightarrow> char" where
  "b64_char n = (if n < 26 then char_of (65 + n) else if n < 52 then char_of (97 + (n - 26))
     else if n < 62 then char_of (48 + (n - 52)) else if n = 62 then CHR ''+'' else CHR ''/'')"

definition b64_val :: "char \<Rightarrow> nat option" where
  "b64_val c = (let k = of_char c in
     if 65 \<le> k \<and> k \<le> 90 then Some (k - 65) else if 97 \<le> k \<and> k \<le> 122 then Some (k - 97 + 26)
     else if 48 \<le> k \<and> k \<le> 57 then Some (k - 48 + 52) else if c = CHR ''+'' then Some 62
     else if c = CHR ''/'' then Some 63 else None)"

fun b64_encode :: "byte list \<Rightarrow> string" where
  "b64_encode [] = []"
| "b64_encode [a] = [b64_char (unat a div 4), b64_char (unat a mod 4 * 16), CHR ''='', CHR ''='']"
| "b64_encode [a, b] = [b64_char (unat a div 4), b64_char (unat a mod 4 * 16 + unat b div 16),
     b64_char (unat b mod 16 * 4), CHR ''='']"
| "b64_encode (a # b # c # bs) =
     b64_char (unat a div 4) # b64_char (unat a mod 4 * 16 + unat b div 16)
     # b64_char (unat b mod 16 * 4 + unat c div 64) # b64_char (unat c mod 64) # b64_encode bs"

fun b64_groups :: "string \<Rightarrow> byte list option" where
  "b64_groups [] = Some []"
| "b64_groups (w # x # y # z # r) =
     (case (b64_val w, b64_val x) of
        (Some w', Some x') \<Rightarrow>
          (case b64_val y of
             None \<Rightarrow> if y = CHR ''='' \<and> z = CHR ''='' \<and> r = [] then Some [of_nat (w' * 4 + x' div 16)] else None
           | Some y' \<Rightarrow>
               (case b64_val z of
                  None \<Rightarrow> if z = CHR ''='' \<and> r = []
                    then Some [of_nat (w' * 4 + x' div 16), of_nat (x' mod 16 * 16 + y' div 4)] else None
                | Some z' \<Rightarrow>
                    map_option ((@) [of_nat (w' * 4 + x' div 16), of_nat (x' mod 16 * 16 + y' div 4),
                      of_nat (y' mod 4 * 64 + z')]) (b64_groups r)))
      | _ \<Rightarrow> None)"
| "b64_groups _ = None"

definition b64_decode :: "string \<Rightarrow> byte list option" where
  "b64_decode s = b64_groups (filter (\<lambda>c. c \<notin> {CHR 0x0A, CHR 0x0D}) s)"

lemma b64_val_char: "n < 64 \<Longrightarrow> b64_val (b64_char n) = Some n"
  by (auto simp: b64_char_def b64_val_def Let_def of_char_of)

lemma b64_val_pad [simp]: "b64_val (CHR ''='') = None" "b64_val (CHR 0x0A) = None" "b64_val (CHR 0x0D) = None"
  by (simp_all add: b64_val_def)

lemma b64_char_line: "n < 64 \<Longrightarrow> CHR 0x0A \<noteq> b64_char n \<and> CHR 0x0D \<noteq> b64_char n"
  using b64_val_char [of n] b64_val_pad(2,3) by (metis option.distinct(1))

lemma byte_less: "unat (a :: byte) < 256"
proof -
  have "unat a < 2 ^ LENGTH(8)" by (rule unsigned_less)
  then show ?thesis by simp
qed

lemma digit_div_mod: "y < k \<Longrightarrow> (x * k + y) div k = x \<and> (x * k + y) mod k = (y :: nat)"
  by simp

lemma byte_parts:
  fixes a b c :: byte
  shows "unat a div 4 < 64" "unat a mod 4 * 16 < 64" "unat a mod 4 * 16 + unat b div 16 < 64"
    "unat b mod 16 * 4 < 64" "unat b mod 16 * 4 + unat c div 64 < 64" "unat c mod 64 < 64"
    "(unat a mod 4 * 16 + unat b div 16) div 16 = unat a mod 4"
    "(unat a mod 4 * 16 + unat b div 16) mod 16 = unat b div 16"
    "(unat b mod 16 * 4 + unat c div 64) div 4 = unat b mod 16"
    "(unat b mod 16 * 4 + unat c div 64) mod 4 = unat c div 64"
    "unat b div 16 mod 16 = unat b div 16" "unat c div 64 mod 4 = unat c div 64"
proof -
  have d: "unat a div 4 < 64" "unat b div 16 < 16" "unat c div 64 < 4"
    using byte_less [of a] byte_less [of b] byte_less [of c] by (auto intro: less_mult_imp_div_less)
  have m: "unat a mod 4 < 4" "unat b mod 16 < 16" "unat c mod 64 < 64" by simp_all
  from d m show "unat a div 4 < 64" "unat a mod 4 * 16 < 64" "unat a mod 4 * 16 + unat b div 16 < 64"
    "unat b mod 16 * 4 < 64" "unat b mod 16 * 4 + unat c div 64 < 64" "unat c mod 64 < 64" by linarith+
  show "(unat a mod 4 * 16 + unat b div 16) div 16 = unat a mod 4"
    "(unat a mod 4 * 16 + unat b div 16) mod 16 = unat b div 16"
    "(unat b mod 16 * 4 + unat c div 64) div 4 = unat b mod 16"
    "(unat b mod 16 * 4 + unat c div 64) mod 4 = unat c div 64"
    using digit_div_mod [OF d(2)] digit_div_mod [OF d(3)] by blast+
  show "unat b div 16 mod 16 = unat b div 16" "unat c div 64 mod 4 = unat c div 64"
    using d(2,3) by simp_all
qed

lemma b64_roundtrip: "b64_decode (b64_encode bs) = Some bs"
proof -
  have "CHR 0x0A \<notin> set (b64_encode bs) \<and> CHR 0x0D \<notin> set (b64_encode bs)"
    by (induction bs rule: b64_encode.induct) (simp_all add: b64_char_line byte_parts)
  then have "filter (\<lambda>c. c \<notin> {CHR 0x0A, CHR 0x0D}) (b64_encode bs) = b64_encode bs"
    by (intro filter_True) blast
  moreover have "b64_groups (b64_encode bs) = Some bs"
    by (induction bs rule: b64_encode.induct)
      (simp_all add: b64_val_char byte_parts del: of_nat_add of_nat_mult)
  ultimately show ?thesis by (simp add: b64_decode_def)
qed

section \<open>Envelopes\<close>

record BizEnvelope =
  be_BusinessType :: string
  be_EventType :: string
  be_Priority :: string
  be_TTLSeconds :: int
  be_DedupeKey :: string
  be_TraceID :: string
  be_MsgID :: string
  be_BizID :: string
  be_DeliveryMode :: int
  be_Payload :: "byte list"
  be_CreatedAtMS :: int

definition plain_envelope :: "string \<Rightarrow> byte list \<Rightarrow> BizEnvelope" where
  "plain_envelope msgID body = \<lparr>be_BusinessType = [], be_EventType = [], be_Priority = [], be_TTLSeconds = 0,
     be_DedupeKey = [], be_TraceID = [], be_MsgID = msgID, be_BizID = [], be_DeliveryMode = 0, be_Payload = body,
     be_CreatedAtMS = 0\<rparr>"

lemma content_shorter:
  assumes "UnmarshalMsgBody body = Inr mb"
  shows "length (mb_Content mb) < length body"
  using assms by (auto simp: UnmarshalMsgBody_def Let_def sub_slice_def split: if_splits)

function parseBizEnvelope :: "(byte list \<Rightarrow> BizEnvelope option) \<Rightarrow> byte list \<Rightarrow> string \<Rightarrow> BizEnvelope" where
  "parseBizEnvelope json body msgID =
     (if body = [] then plain_envelope msgID []
      else case json body of
        Some env \<Rightarrow> if be_MsgID env = [] then env\<lparr>be_MsgID := msgID\<rparr> else env
      | None \<Rightarrow>
          (case UnmarshalMsgBody body of
             Inr mb \<Rightarrow> if mb_Content mb \<noteq> [] then parseBizEnvelope json (mb_Content mb) msgID
                       else plain_envelope msgID body
           | Inl _ \<Rightarrow> plain_envelope msgID body))"
  by pat_completeness auto
termination
  by (relation "measure (\<lambda>(json, body, msgID). length body)") (auto simp: content_shorter)

declare parseBizEnvelope.simps [simp del]

definition traceIDFromBodyOrContext ::
  "(byte list \<Rightarrow> BizEnvelope option) \<Rightarrow> (byte list \<Rightarrow> string) \<Rightarrow> string \<Rightarrow> byte list \<Rightarrow> string" where
  "traceIDFromBodyOrContext json jtrace ctxTrace body =
     (if ctxTrace \<noteq> [] then ctxTrace
      else let t = be_TraceID (parseBizEnvelope json body []) in if t \<noteq> [] then t else jtrace body)"

definition buildMQHeaders :: "BizEnvelope \<Rightarrow> (string \<times> string) list" where
  "buildMQHeaders env =
     (if be_Priority env \<noteq> [] then [(''goim_priority'', be_Priority env)] else [])
     @ (if be_TTLSeconds env > 0 then [(''goim_ttl_seconds'', FormatInt (be_TTLSeconds env))] else [])
     @ (if be_TraceID env \<noteq> [] then [(''goim_trace_id'', be_TraceID env)] else [])
     @ (if be_BusinessType env \<noteq> [] then [(''goim_business_type'', be_BusinessType env)] else [])
     @ (if be_EventType env \<noteq> [] then [(''goim_event_type'', be_EventType env)] else [])
     @ (if be_DedupeKey env \<noteq> [] then [(''goim_dedupe_key'', be_DedupeKey env)] else [])
     @ (if be_BizID env \<noteq> [] then [(''goim_biz_id'', be_BizID env)] else [])
     @ (if be_CreatedAtMS env > 0 then [(''goim_created_at_unix_ms'', FormatInt (be_CreatedAtMS env))] else [])
     @ (if be_DeliveryMode env \<noteq> 0 then [(''goim_delivery_mode'', FormatInt (be_DeliveryMode env))] else [])"

end
