(* ===== verification/Ack_Handler.thy ===== *)
theory Ack_Handler
  imports Sessions Envelope
begin

text \<open>
  Tracking and acknowledging messages: \<open>internal/router/ack.go\<close> (the handler inside the router) and
  \<open>internal/logic/service/ack.go\<close> (the older service of the same kind). The optional parts of a handler and
  the interfaces its data access layer implements are the fields of \<open>ack_conf\<close>. Events for the ACK topic
  leave without their trace id.
\<close>

record ack_conf =
  ah_push :: bool
  ah_state :: "bool option"
  ah_atomic :: bool
  ah_locker :: bool
  ah_alloc :: alloc_conf
  ah_json :: "byte list \<Rightarrow> BizEnvelope option"
  ah_jtrace :: "byte list \<Rightarrow> string"

definition MsgStatusPending :: string where "MsgStatusPending = ''pending''"
definition MsgStatusDelivered :: string where "MsgStatusDelivered = ''delivered''"
definition MsgStatusAcked :: string where "MsgStatusAcked = ''acked''"
definition MsgStatusFailed :: string where "MsgStatusFailed = ''failed''"

lemmas status_defs = MsgStatusPending_def MsgStatusDelivered_def MsgStatusAcked_def MsgStatusFailed_def

definition err_of :: "gerr + 'a \<Rightarrow> gerr option" where
  "err_of x = (case x of Inl e \<Rightarrow> Some e | Inr _ \<Rightarrow> None)"

lemma err_of_simps [simp]: "err_of (Inl e) = Some e" "err_of (Inr y) = None"
  by (simp_all add: err_of_def)

definition record_state :: "bool option \<Rightarrow> string \<Rightarrow> string \<Rightarrow> string \<Rightarrow> string \<Rightarrow> string \<Rightarrow> unit act" where
  "record_state rec msgID frm tgt reason tr =
     (case rec of None \<Rightarrow> ret ()
      | Some pool \<Rightarrow> modify (\<lambda>w. w\<lparr>w_redis := RecordState pool (now_ms w) msgID frm tgt reason tr (w_redis w)\<rparr>))"

section \<open>Tracking\<close>

text \<open>\<open>AddUserMessage\<close> again for a message that is known, when its number is.\<close>

definition seq_of :: "hash \<Rightarrow> int" where
  "seq_of h = (case h ''seq'' of None \<Rightarrow> 0
     | Some s \<Rightarrow> (case ParseInt s 64 of Inr v \<Rightarrow> v
        | Inl (Text t) \<Rightarrow> if t = ''value out of range'' then (if hd s = CHR ''-'' then - (2 ^ 63) else 2 ^ 63 - 1) else 0
        | Inl _ \<Rightarrow> 0))"

definition ensureUserMessageIndex :: "int \<Rightarrow> string \<Rightarrow> unit act" where
  "ensureUserMessageIndex uid msgID =
     (if uid \<le> 0 then ret ()
      else do {
        x \<leftarrow> redis_do (\<lambda>w. GetMessageStatus msgID);
        case x of
          Inl _ \<Rightarrow> ret ()
        | Inr data \<Rightarrow>
            if seq_of data \<le> 0 then ret ()
            else do { y \<leftarrow> redis_do (\<lambda>w. AddUserMessage uid msgID (seq_of data)); ret () }
      })"

definition handleTrackedStatus :: "int \<Rightarrow> string \<Rightarrow> hash \<Rightarrow> gerr option act" where
  "handleTrackedStatus uid msgID data = do {
     ensureUserMessageIndex uid msgID;
     if str_or_empty (data ''status'') \<in> {MsgStatusAcked, MsgStatusDelivered}
     then do { mark_seen msgID; ret (Some (Text (''message already processed: '' @ msgID))) }
     else ret None
   }"

text \<open>Whether the message is known, and what its status says.\<close>

definition allowExistingUnfinishedMessage :: "int \<Rightarrow> string \<Rightarrow> (bool \<times> gerr option) act" where
  "allowExistingUnfinishedMessage uid msgID = do {
     x \<leftarrow> redis_do (\<lambda>w. GetMessageStatus msgID);
     case x of
       Inl _ \<Rightarrow> ret (False, None)
     | Inr data \<Rightarrow>
         if data = (\<lambda>_. None) then ret (False, None)
         else do { e \<leftarrow> handleTrackedStatus uid msgID data; ret (True, e) }
   }"

definition handleExistingTrackedMessage :: "int \<Rightarrow> string \<Rightarrow> gerr option act" where
  "handleExistingTrackedMessage uid msgID = do {
     x \<leftarrow> redis_do (\<lambda>w. GetMessageStatus msgID);
     case x of Inl e \<Rightarrow> ret (Some (Wrapped ''get tracked message'' e)) | Inr data \<Rightarrow> handleTrackedStatus uid msgID data
   }"

definition track_fields :: "int \<Rightarrow> int \<Rightarrow> int \<Rightarrow> i32 \<Rightarrow> byte list \<Rightarrow> int \<Rightarrow> string \<Rightarrow> (string \<times> string) list" where
  "track_fields now fromUID toUID op body sq tr =
     [(''status'', MsgStatusPending), (''from_uid'', FormatInt fromUID), (''to_uid'', FormatInt toUID),
      (''op'', FormatInt (sint op)), (''body'', b64_encode body), (''retry_cnt'', FormatInt 0),
      (''created_at'', FormatInt now), (''updated_at'', FormatInt now)]
     @ (if sq > 0 then [(''seq'', FormatInt sq)] else []) @ (if tr \<noteq> [] then [(''trace_id'', tr)] else [])"

definition add_to_index :: "int \<Rightarrow> string \<Rightarrow> int \<Rightarrow> gerr option act" where
  "add_to_index uid msgID sq =
     (if sq > 0 then do {
        x \<leftarrow> redis_do (\<lambda>w. AddUserMessage uid msgID sq);
        ret (map_option (Wrapped ''add user message'') (err_of x))
      } else ret None)"

text \<open>The rest of \<open>TrackMessage\<close>, once the message is taken for a new one.\<close>

definition track_new :: "ack_conf \<Rightarrow> string \<Rightarrow> string \<Rightarrow> int \<Rightarrow> int \<Rightarrow> i32 \<Rightarrow> byte list \<Rightarrow> gerr option act" where
  "track_new a ctxTrace msgID fromUID toUID op body = do {
     let tr = traceIDFromBodyOrContext (ah_json a) (ah_jtrace a) ctxTrace body;
     now \<leftarrow> asks now_ms;
     x \<leftarrow> allocate (ah_alloc a) toUID;
     case x of
       Inl e \<Rightarrow> ret (Some (Wrapped ''allocate seq'' e))
     | Inr sq \<Rightarrow> do {
         let fs = track_fields now fromUID toUID op body sq tr;
         if ah_atomic a then do {
           y \<leftarrow> redis_do (\<lambda>w. TrackMessageAtomic msgID fs);
           case y of
             Inl e \<Rightarrow> ret (Some (Wrapped ''track message'' e))
           | Inr added \<Rightarrow>
               if \<not> added then handleExistingTrackedMessage toUID msgID else add_to_index toUID msgID sq
         } else do {
           y \<leftarrow> redis_do (\<lambda>w. SetMessageStatusNX msgID ''status'' MsgStatusPending);
           case y of
             Inl e \<Rightarrow> ret (Some (Wrapped ''track message'' e))
           | Inr added \<Rightarrow>
               if \<not> added then handleExistingTrackedMessage toUID msgID
               else do {
                 z \<leftarrow> redis_do (\<lambda>w. SetMessageStatus msgID fs);
                 case z of Inl e \<Rightarrow> ret (Some e) | Inr _ \<Rightarrow> add_to_index toUID msgID sq
               }
         }
       }
   }"

definition TrackMessage :: "ack_conf \<Rightarrow> string \<Rightarrow> string \<Rightarrow> int \<Rightarrow> int \<Rightarrow> i32 \<Rightarrow> byte list \<Rightarrow> gerr option act" where
  "TrackMessage a ctxTrace msgID fromUID toUID op body = do {
     dup \<leftarrow> (if msgID \<noteq> [] then is_duplicate msgID else ret False);
     if dup then do {
       ensureUserMessageIndex toUID msgID;
       ret (Some (Text (''message already processed: '' @ msgID)))
     } else do {
       (tracked, e) \<leftarrow> (if msgID \<noteq> [] then allowExistingUnfinishedMessage toUID msgID else ret (False, None));
       if e \<noteq> None then ret e
       else if tracked then ret None
       else track_new a ctxTrace msgID fromUID toUID op body
     }
   }"

section \<open>Status changes\<close>

definition MarkDelivered :: "string \<Rightarrow> gerr option act" where
  "MarkDelivered msgID = do {
     x \<leftarrow> redis_do (\<lambda>w. UpdateMessageStatus (now_ms w) msgID MsgStatusDelivered);
     case x of Inl e \<Rightarrow> ret (Some e) | Inr _ \<Rightarrow> do { mark_seen msgID; ret None }
   }"

definition MarkFailed :: "string \<Rightarrow> gerr option act" where
  "MarkFailed msgID = do {
     x \<leftarrow> redis_do (\<lambda>w. UpdateMessageStatus (now_ms w) msgID MsgStatusFailed);
     ret (err_of x)
   }"

definition ah_GetMessageStatus :: "string \<Rightarrow> (gerr + string) act" where
  "ah_GetMessageStatus msgID = do {
     x \<leftarrow> redis_do (\<lambda>w. GetMessageStatus msgID);
     ret (map_sum id (\<lambda>data. if data = (\<lambda>_. None) then [] else str_or_empty (data ''status'')) x)
   }"

definition HandleACKWithDevice :: "ack_conf \<Rightarrow> string \<Rightarrow> int \<Rightarrow> string \<Rightarrow> string \<Rightarrow> string \<Rightarrow> gerr option act" where
  "HandleACKWithDevice a ctxTrace uid msgID deviceID sessionID = do {
     tr \<leftarrow> (if ctxTrace \<noteq> [] then ret ctxTrace
            else do {
              x \<leftarrow> redis_do (\<lambda>w. GetMessageStatus msgID);
              ret (case x of Inl _ \<Rightarrow> [] | Inr data \<Rightarrow> str_or_empty (data ''trace_id''))
            });
     u \<leftarrow> redis_do (\<lambda>w. UpdateMessageStatus (now_ms w) msgID MsgStatusAcked);
     case u of
       Inl e \<Rightarrow> ret (Some (Wrapped ''update msg status'' e))
     | Inr _ \<Rightarrow> do {
         q \<leftarrow> redis_do (\<lambda>w. RemoveFromOfflineQueue uid msgID);
         p \<leftarrow> (if ah_push a then call (Kafka_PublishACK msgID uid MsgStatusAcked [] deviceID sessionID) else ret None);
         mark_seen msgID;
         let dev = (if deviceID = [] then ''unknown'' else deviceID);
         d \<leftarrow> redis_do (\<lambda>w. RecordDeviceACK msgID dev sessionID (now_ms w));
         record_state (ah_state a) msgID StateDelivered StateAcked ''client ack'' tr;
         ret None
       }
   }"

definition HandleACK :: "ack_conf \<Rightarrow> string \<Rightarrow> int \<Rightarrow> string \<Rightarrow> gerr option act" where
  "HandleACK a ctxTrace uid msgID = HandleACKWithDevice a ctxTrace uid msgID [] []"

text \<open>The lock of a delivery attempt: whether to go on, and what frees the lock.\<close>

definition attempt_token :: "string \<Rightarrow> int \<Rightarrow> string" where
  "attempt_token msgID nanos = msgID @ '':'' @ FormatInt nanos"

definition BeginDeliveryAttempt :: "ack_conf \<Rightarrow> string \<Rightarrow> (gerr + bool \<times> string option) act" where
  "BeginDeliveryAttempt a msgID =
     (if msgID = [] \<or> \<not> ah_locker a then ret (Inr (True, None))
      else do {
        token \<leftarrow> asks (\<lambda>w. attempt_token msgID (w_now w));
        x \<leftarrow> redis_do (\<lambda>w. AcquireDeliveryAttemptLock msgID token 10000);
        case x of
          Inl e \<Rightarrow> ret (Inl (Wrapped ''acquire delivery attempt lock'' e))
        | Inr acquired \<Rightarrow> ret (Inr (if acquired then (True, Some token) else (False, None)))
      })"

definition unlock_attempt :: "string \<Rightarrow> string option \<Rightarrow> unit act" where
  "unlock_attempt msgID token =
     (case token of None \<Rightarrow> ret ()
      | Some t \<Rightarrow> do { x \<leftarrow> redis_do (\<lambda>w. ReleaseDeliveryAttemptLock msgID t); ret () })"

section \<open>The older service\<close>

definition svc_HandleAckWithDevice :: "bool \<Rightarrow> string \<Rightarrow> int \<Rightarrow> string \<Rightarrow> string \<Rightarrow> string \<Rightarrow> gerr option act" where
  "svc_HandleAckWithDevice push ctxTrace uid msgID deviceID sessionID = do {
     x \<leftarrow> (if ctxTrace \<noteq> [] then ret () else do { y \<leftarrow> redis_do (\<lambda>w. GetMessageStatus msgID); ret () });
     u \<leftarrow> redis_do (\<lambda>w. UpdateMessageStatus (now_ms w) msgID MsgStatusAcked);
     case u of
       Inl e \<Rightarrow> ret (Some (Wrapped ''update msg status'' e))
     | Inr _ \<Rightarrow> do {
         q \<leftarrow> redis_do (\<lambda>w. RemoveFromOfflineQueue uid msgID);
         p \<leftarrow> (if push then call (Kafka_PublishACK msgID uid MsgStatusAcked [] deviceID sessionID) else ret None);
         let dev = (if deviceID = [] then ''unknown'' else deviceID);
         d \<leftarrow> redis_do (\<lambda>w. RecordDeviceACK msgID dev sessionID (now_ms w));
         ret None
       }
   }"

definition svc_HandleAck :: "bool \<Rightarrow> string \<Rightarrow> int \<Rightarrow> string \<Rightarrow> gerr option act" where
  "svc_HandleAck push ctxTrace uid msgID = svc_HandleAckWithDevice push ctxTrace uid msgID [] []"

fun svc_BatchHandleAck :: "bool \<Rightarrow> string \<Rightarrow> (int \<times> string) list \<Rightarrow> gerr option act" where
  "svc_BatchHandleAck push ctxTrace [] = ret None"
| "svc_BatchHandleAck push ctxTrace ((uid, msgID) # acks) = do {
     e \<leftarrow> svc_HandleAck push ctxTrace uid msgID;
     svc_BatchHandleAck push ctxTrace acks
   }"

definition svc_TrackMessage :: "ack_conf \<Rightarrow> string \<Rightarrow> string \<Rightarrow> int \<Rightarrow> int \<Rightarrow> i32 \<Rightarrow> byte list \<Rightarrow> gerr option act" where
  "svc_TrackMessage a ctxTrace msgID fromUID toUID op body = do {
     let tr = (if ctxTrace \<noteq> [] then ctxTrace else ah_jtrace a body);
     now \<leftarrow> asks now_ms;
     x \<leftarrow> allocate (ah_alloc a) toUID;
     case x of
       Inl e \<Rightarrow> ret (Some (Wrapped ''allocate seq'' e))
     | Inr sq \<Rightarrow> do {
         let fs = track_fields now fromUID toUID op body sq tr;
         if ah_atomic a then do {
           y \<leftarrow> redis_do (\<lambda>w. TrackMessageAtomic msgID fs);
           case y of
             Inl e \<Rightarrow> ret (Some (Wrapped ''track msg atomically'' e))
           | Inr added \<Rightarrow>
               if \<not> added then do { ensureUserMessageIndex toUID msgID; ret None } else add_to_index toUID msgID sq
         } else do {
           ex \<leftarrow> redis_do (\<lambda>w. GetMessageStatus msgID);
           if (case ex of Inl _ \<Rightarrow> False | Inr data \<Rightarrow> data \<noteq> (\<lambda>_. None))
           then do { ensureUserMessageIndex toUID msgID; ret None }
           else do {
             z \<leftarrow> redis_do (\<lambda>w. SetMessageStatus msgID fs);
             case z of Inl e \<Rightarrow> ret (Some (Wrapped ''set msg status'' e)) | Inr _ \<Rightarrow> add_to_index toUID msgID sq
           }
         }
       }
   }"

definition svc_MarkDelivered :: "string \<Rightarrow> gerr option act" where
  "svc_MarkDelivered msgID = do {
     x \<leftarrow> redis_do (\<lambda>w. UpdateMessageStatus (now_ms w) msgID MsgStatusDelivered);
     ret (err_of x)
   }"

definition svc_MarkFailed :: "string \<Rightarrow> gerr option act" where
  "svc_MarkFailed msgID = do {
     x \<leftarrow> redis_do (\<lambda>w. UpdateMessageStatus (now_ms w) msgID MsgStatusFailed);
     ret (err_of x)
   }"

definition svc_GetMessageStatus :: "string \<Rightarrow> (gerr + string) act" where
  "svc_GetMessageStatus msgID = do {
     x \<leftarrow> redis_do (\<lambda>w. GetMessageStatus msgID);
     ret (map_sum id (\<lambda>data. if data = (\<lambda>_. None) then [] else str_or_empty (data ''status'')) x)
   }"

section \<open>The log\<close>

lemma handler_growing [growing]:
  "grows (record_state rec msgID frm tgt reason tr)" "grows (ensureUserMessageIndex uid msgID)"
  "grows (handleTrackedStatus uid msgID data)" "grows (allowExistingUnfinishedMessage uid msgID)"
  "grows (handleExistingTrackedMessage uid msgID)" "grows (add_to_index uid msgID sq)"
  "grows (track_new a tr msgID fromUID toUID op body)" "grows (TrackMessage a tr msgID fromUID toUID op body)"
  "grows (MarkDelivered msgID)" "grows (BeginDeliveryAttempt a msgID)" "grows (unlock_attempt msgID token)"
proof -
  show "grows (record_state rec msgID frm tgt reason tr)"
    unfolding record_state_def by (intro growing) simp
  show e: "grows (ensureUserMessageIndex uid msgID)" for uid msgID
    unfolding ensureUserMessageIndex_def by (intro growing)
  show h: "grows (handleTrackedStatus uid msgID data)" for data
    unfolding handleTrackedStatus_def by (intro growing e)
  show al: "grows (allowExistingUnfinishedMessage uid msgID)" for uid
    unfolding allowExistingUnfinishedMessage_def handleTrackedStatus_def by (intro growing e)
  show ex: "grows (handleExistingTrackedMessage uid msgID)" for uid
    unfolding handleExistingTrackedMessage_def handleTrackedStatus_def by (intro growing e)
  show i: "grows (add_to_index uid msgID sq)" for uid sq
    unfolding add_to_index_def by (intro growing)
  show t: "grows (track_new a tr msgID fromUID toUID op body)"
    unfolding track_new_def Let_def by (intro growing ex i)
  show "grows (TrackMessage a tr msgID fromUID toUID op body)"
    unfolding TrackMessage_def by (intro growing e al t)
  show "grows (MarkDelivered msgID)" unfolding MarkDelivered_def by (intro growing)
  show "grows (BeginDeliveryAttempt a msgID)" unfolding BeginDeliveryAttempt_def by (intro growing)
  show "grows (unlock_attempt msgID token)" unfolding unlock_attempt_def by (intro growing)
qed

end
