(* ===== verification/Dispatch.thy ===== *)
theory Dispatch
  imports Ack_Handler
begin

text \<open>
  The dispatch engine: \<open>internal/router/dispatch.go\<close> with the engine of \<open>router.go\<close> and the queue messages of
  \<open>pushmsg.go\<close>. A message for a user goes straight to the Comet nodes of the user's connections when it
  can, and through the offline queue and Kafka when it cannot.

  The optional parts of the engine are the fields of \<open>engine\<close>; the answers of the rate limiters, of the
  id generator and of everything outside the process come from the world. A reliable message needs a
  session manager and, without a producer, a data access layer (the code would panic without). Sessions
  in a list are never nil. Metrics are not modelled.
\<close>

section \<open>The engine\<close>

record engine =
  en_ack :: ack_conf
  en_producer :: bool
  en_onlineTopic :: string
  en_offlineTopic :: string
  en_broadcaster :: bool
  en_dao :: bool
  en_sessMgr :: bool
  en_onlineRouter :: bool
  en_pusher :: bool
  en_idGen :: bool
  en_limiter :: bool
  en_limiterV2 :: bool
  en_attemptRec :: "bool option"
  en_stateRec :: "bool option"

datatype delivery_mode = DeliveryReliable | DeliveryTransient | DeliveryPersistOnly

fun err_text :: "gerr \<Rightarrow> string" where
  "err_text (Text s) = s"
| "err_text (Wrapped s e) = s @ '': '' @ err_text e"
| "err_text _ = ''i/o error''"

definition allow_user :: "bool act" where
  "allow_user = State (\<lambda>w. case w_limits w of [] \<Rightarrow> (True, w) | b # bs \<Rightarrow> (b, w\<lparr>w_limits := bs\<rparr>))"

definition check_all :: "string option act" where
  "check_all = State (\<lambda>w. case w_limits2 w of [] \<Rightarrow> (None, w) | d # ds \<Rightarrow> (d, w\<lparr>w_limits2 := ds\<rparr>))"

definition rate_limited :: "int \<Rightarrow> gerr" where
  "rate_limited uid = Text (''rate limited: uid='' @ FormatInt uid)"

definition rate_limited_v2 :: "string \<Rightarrow> int \<Rightarrow> gerr" where
  "rate_limited_v2 dim uid = Text (''rate limited (v2 '' @ dim @ ''): uid='' @ FormatInt uid)"

definition IsDegradable :: "string \<Rightarrow> bool" where
  "IsDegradable priority \<longleftrightarrow> priority = ''critical'' \<or> priority = ''high''"

definition count_direct :: "unit act" where "count_direct = modify (\<lambda>w. w\<lparr>w_direct := w_direct w + 1\<rparr>)"
definition count_kafka :: "unit act" where "count_kafka = modify (\<lambda>w. w\<lparr>w_kafka := w_kafka w + 1\<rparr>)"

definition pushMsgBytes :: "nat \<Rightarrow> i32 \<Rightarrow> string \<Rightarrow> string list \<Rightarrow> string \<Rightarrow> byte list \<Rightarrow> i32 \<Rightarrow> PushMsg" where
  "pushMsgBytes typ op server ks room msg speed = \<lparr>pm_Type = typ, pm_Op = op, pm_Server = server, pm_Keys = ks,
     pm_Room = room, pm_Msg = msg, pm_Speed = speed\<rparr>"

section \<open>Small steps\<close>

definition e_recordState :: "engine \<Rightarrow> string \<Rightarrow> string \<Rightarrow> string \<Rightarrow> string \<Rightarrow> string \<Rightarrow> unit act" where
  "e_recordState e msgID frm tgt reason tr = record_state (en_stateRec e) msgID frm tgt reason tr"

definition e_recordAttempt :: "engine \<Rightarrow> string \<Rightarrow> string \<Rightarrow> string \<Rightarrow> string \<Rightarrow> string \<Rightarrow> unit act" where
  "e_recordAttempt e msgID channel status errStr server =
     (case en_attemptRec e of None \<Rightarrow> ret ()
      | Some pool \<Rightarrow> modify (\<lambda>w. w\<lparr>w_redis := Attempt_Record pool (w_now w) msgID channel status 0 errStr server (w_redis w)\<rparr>))"

definition e_publishACK :: "engine \<Rightarrow> string \<Rightarrow> int \<Rightarrow> string \<Rightarrow> string \<Rightarrow> unit act" where
  "e_publishACK e msgID uid status targetNode =
     (if \<not> en_dao e then ret ()
      else do { x \<leftarrow> call (Kafka_PublishACK msgID uid status targetNode [] []); ret () })"

definition generateMsgID :: "engine \<Rightarrow> (gerr + string) act" where
  "generateMsgID e =
     (if \<not> en_idGen e then ret (Inl (Text ''message id generator is not configured''))
      else State (\<lambda>w. case w_ids w of
          [] \<Rightarrow> (Inl (Wrapped ''generate message id'' ErrClockMovedBack), w)
        | Inl x # xs \<Rightarrow> (Inl (Wrapped ''generate message id'' x), w\<lparr>w_ids := xs\<rparr>)
        | Inr s # xs \<Rightarrow> (if s = [] then Inl (Text ''generate message id: empty id'') else Inr s, w\<lparr>w_ids := xs\<rparr>)))"

definition firstServer :: "Session list \<Rightarrow> string" where
  "firstServer ss = (case find (\<lambda>s. ss_Server s \<noteq> []) ss of None \<Rightarrow> [] | Some s \<Rightarrow> ss_Server s)"

definition statusFromErr :: "gerr option \<Rightarrow> string" where
  "statusFromErr x = (case x of None \<Rightarrow> ''success'' | Some _ \<Rightarrow> ''failed'')"

definition errStr :: "gerr option \<Rightarrow> string" where
  "errStr x = (case x of None \<Rightarrow> [] | Some y \<Rightarrow> err_text y)"

fun mark_tries :: "nat \<Rightarrow> gerr option \<Rightarrow> string \<Rightarrow> gerr option act" where
  "mark_tries 0 lastErr msgID = ret lastErr"
| "mark_tries (Suc n) lastErr msgID = do {
     x \<leftarrow> MarkDelivered msgID;
     case x of None \<Rightarrow> ret None | Some y \<Rightarrow> mark_tries n (Some y) msgID
   }"

definition markDelivered :: "string \<Rightarrow> gerr option act" where
  "markDelivered msgID = do {
     x \<leftarrow> mark_tries 3 None msgID;
     ret (map_option (Wrapped ''mark delivered'') x)
   }"

section \<open>The direct channel\<close>

fun push_loop :: "Session list \<Rightarrow> i32 \<Rightarrow> byte list \<Rightarrow> Session list \<Rightarrow> gerr option \<Rightarrow> bool
    \<Rightarrow> (Session list \<times> gerr option \<times> bool) act" where
  "push_loop [] op body failed lastErr anyOK = ret (failed, lastErr, anyOK)"
| "push_loop (s # ss) op body failed lastErr anyOK = do {
     x \<leftarrow> call (Comet_PushMsg (ss_Server s) [ss_Key s] op body);
     case x of
       Some y \<Rightarrow> push_loop ss op body (failed @ [s]) (Some y) anyOK
     | None \<Rightarrow> push_loop ss op body failed lastErr True
   }"

definition directPush :: "bool \<Rightarrow> Session list \<Rightarrow> i32 \<Rightarrow> byte list \<Rightarrow> (Session list \<times> gerr option) act" where
  "directPush pusher ss op body =
     (if \<not> pusher then ret (ss, Some (Text ''comet pusher not configured''))
      else do {
        (failed, lastErr, anyOK) \<leftarrow> push_loop ss op body [] None False;
        ret (failed, if \<not> anyOK \<and> failed \<noteq> [] then Some (Wrapped ''all direct pushes failed'' (the lastErr)) else None)
      })"

section \<open>The reliable channel\<close>

definition spool_reason :: "gerr \<Rightarrow> gerr option \<Rightarrow> string" where
  "spool_reason offlineErr enqueueErr = ''offline queue failed: '' @ err_text offlineErr
     @ (case enqueueErr of None \<Rightarrow> [] | Some ee \<Rightarrow> ''; enqueue failed: '' @ err_text ee)"

definition spoolReliableMessage ::
  "string \<Rightarrow> int \<Rightarrow> i32 \<Rightarrow> byte list \<Rightarrow> int \<Rightarrow> string \<Rightarrow> string list \<Rightarrow> (string \<times> string) list \<Rightarrow> gerr option \<Rightarrow> gerr option
   \<Rightarrow> gerr option act" where
  "spoolReliableMessage msgID toUID op body sq server ks headers offlineErr enqueueErr =
     (case offlineErr of
        None \<Rightarrow> ret enqueueErr
      | Some oe \<Rightarrow> do {
          let reason = spool_reason oe enqueueErr;
          now \<leftarrow> asks now_ms;
          x \<leftarrow> call (Spool_Write \<lparr>sp_MsgID = msgID, sp_ToUID = toUID, sp_Op = op, sp_Body = body, sp_Seq = sq,
                 sp_Server = server, sp_Keys = ks, sp_Headers = headers, sp_Reason = reason, sp_CreatedAt = now\<rparr>);
          ret (case x of
              Some y \<Rightarrow> Some (Wrapped (if enqueueErr \<noteq> None then reason @ ''; local spool failed'' else ''local spool failed'') y)
            | None \<Rightarrow> if enqueueErr \<noteq> None then Some (Text (reason @ ''; spooled locally'')) else None)
        })"

definition target_keys :: "int \<Rightarrow> Session list \<Rightarrow> string list" where
  "target_keys toUID ss =
     (let ks = map ss_Key (filter (\<lambda>s. ss_Key s \<noteq> []) ss)
      in if ks = [] then [''uid:'' @ FormatInt toUID] else ks)"

definition target_server :: "Session list \<Rightarrow> string" where
  "target_server ss = firstServer (filter (\<lambda>s. ss_Key s \<noteq> []) ss)"

definition reliableEnqueue :: "engine \<Rightarrow> string \<Rightarrow> int \<Rightarrow> i32 \<Rightarrow> byte list \<Rightarrow> int \<Rightarrow> Session list \<Rightarrow> gerr option act" where
  "reliableEnqueue e msgID toUID op body sq ss = do {
     let headers = buildMQHeaders (parseBizEnvelope (ah_json (en_ack e)) body msgID);
     x \<leftarrow> redis_do (\<lambda>w. AddToOfflineQueue toUID msgID sq);
     let offlineErr = err_of x;
     let server = target_server ss;
     let ks = target_keys toUID ss;
     let topic = (if ss \<noteq> [] then en_onlineTopic e else en_offlineTopic e);
     let pm = pushMsgBytes 0 op server ks [] body 0;
     y \<leftarrow> call (if en_producer e
                then (if topic \<noteq> [] then MQ_Topic topic toUID (FormatInt toUID) pm headers
                      else MQ_User toUID (FormatInt toUID) pm headers)
                else Kafka_PushMsg op server ks body);
     case y of
       Some ee \<Rightarrow> spoolReliableMessage msgID toUID op body sq server ks headers offlineErr (Some ee)
     | None \<Rightarrow>
         (case offlineErr of
            None \<Rightarrow> ret None
          | Some oe \<Rightarrow> do {
              z \<leftarrow> spoolReliableMessage msgID toUID op body sq server ks headers offlineErr None;
              ret None
            })
   }"

section \<open>A message for a user\<close>

text \<open>Without a trace: pushed to whoever is connected, and forgotten.\<close>

definition route_transient :: "engine \<Rightarrow> string \<Rightarrow> int \<Rightarrow> i32 \<Rightarrow> byte list \<Rightarrow> gerr option act" where
  "route_transient e msgID toUID op body = do {
     allowed \<leftarrow> (if en_limiter e then allow_user else ret True);
     if \<not> allowed then ret (Some (rate_limited toUID))
     else do {
       limited \<leftarrow> (if en_limiterV2 e then check_all else ret None);
       case limited of Some dim \<Rightarrow> ret (Some (rate_limited_v2 dim toUID))
       | None \<Rightarrow> if \<not> en_sessMgr e then ret None
       else do {
         r \<leftarrow> (if en_onlineRouter e then route_get toUID else ret None);
         case r of
           Some s \<Rightarrow> do { x \<leftarrow> directPush (en_pusher e) [s] op body; ret None }
         | None \<Rightarrow> do {
             (online, ss) \<leftarrow> sm_IsOnline toUID;
             if \<not> online then ret None else do { x \<leftarrow> directPush (en_pusher e) ss op body; ret None }
           }
       }
     }
   }"

text \<open>The route this process has seen itself is tried first. The result, when the message is done with.\<close>

definition route_cached :: "engine \<Rightarrow> string \<Rightarrow> int \<Rightarrow> i32 \<Rightarrow> byte list \<Rightarrow> gerr option option act" where
  "route_cached e msgID toUID op body = do {
     r \<leftarrow> (if en_onlineRouter e then route_get toUID else ret None);
     case r of
       None \<Rightarrow> ret None
     | Some s \<Rightarrow> do {
         (failed, pushErr) \<leftarrow> directPush (en_pusher e) [s] op body;
         if pushErr = None \<and> failed = [] then do {
           m \<leftarrow> markDelivered msgID;
           if m \<noteq> None then ret (Some m)
           else do {
             e_publishACK e msgID toUID ''pushed'' (ss_Server s);
             count_direct;
             e_recordAttempt e msgID ''grpc_direct_cache'' ''success'' [] (ss_Server s);
             e_recordState e msgID StateRouted StateDirectSent ''cached route pushed'' [];
             ret (Some None)
           }
         } else ret None
       }
   }"

text \<open>The user is online: all connections are tried. The result, when the message is done with.\<close>

definition route_online :: "engine \<Rightarrow> string \<Rightarrow> int \<Rightarrow> i32 \<Rightarrow> byte list \<Rightarrow> int \<Rightarrow> Session list \<Rightarrow> gerr option option act" where
  "route_online e msgID toUID op body sq ss = do {
     (failed, pushErr) \<leftarrow> directPush (en_pusher e) ss op body;
     case pushErr of
       None \<Rightarrow> do {
         m \<leftarrow> markDelivered msgID;
         if m \<noteq> None then ret (Some m)
         else do {
           e_publishACK e msgID toUID ''pushed'' (firstServer ss);
           if failed = [] then do {
             count_direct;
             e_recordAttempt e msgID ''grpc_direct'' ''success'' [] (firstServer ss);
             e_recordState e msgID StateRouted StateDirectSent ''all sessions pushed'' [];
             ret (Some None)
           } else do {
             e_recordAttempt e msgID ''grpc_direct'' ''success'' ''partial'' (firstServer ss);
             e_recordState e msgID StateRouted StateDirectSent ''partial success'' [];
             x \<leftarrow> reliableEnqueue e msgID toUID op body sq failed;
             count_direct;
             (if x = None then count_kafka else ret ());
             e_recordAttempt e msgID ''kafka_fallback'' (statusFromErr x) (errStr x) [];
             ret (Some x)
           }
         }
       }
     | Some pe \<Rightarrow> do {
         e_recordAttempt e msgID ''grpc_direct'' ''failed'' (err_text pe) (firstServer ss);
         e_recordState e msgID StateRouted StateDirectFailed (err_text pe) [];
         ret None
       }
   }"

text \<open>The user is offline or no push came through. The result, and whether the lock of the attempt is freed.\<close>

definition route_fallback ::
  "engine \<Rightarrow> string \<Rightarrow> int \<Rightarrow> i32 \<Rightarrow> byte list \<Rightarrow> int \<Rightarrow> bool \<Rightarrow> Session list \<Rightarrow> (gerr option \<times> bool) act" where
  "route_fallback e msgID toUID op body sq online ss = do {
     x \<leftarrow> reliableEnqueue e msgID toUID op body sq ss;
     e_recordAttempt e msgID (if online then ''kafka_fallback'' else ''offline_stored'') (statusFromErr x) (errStr x) [];
     (if online then e_recordState e msgID StateDirectFailed StateFallbackQueued ''kafka fallback'' []
      else e_recordState e msgID StateRouted StateOfflineStored ''user offline'' []);
     if x = None then do { count_kafka; ret (x, False) } else ret (x, True)
   }"

text \<open>The rate limits of a tracked message: nothing when it may go on.\<close>

definition route_limits ::
  "engine \<Rightarrow> string \<Rightarrow> int \<Rightarrow> i32 \<Rightarrow> byte list \<Rightarrow> int \<Rightarrow> (gerr option \<times> bool) option act" where
  "route_limits e msgID toUID op body sq = do {
     allowed \<leftarrow> (if en_limiter e then allow_user else ret True);
     if \<not> allowed then ret (Some (Some (rate_limited toUID), True))
     else do {
       limited \<leftarrow> (if en_limiterV2 e then check_all else ret None);
       case limited of
         None \<Rightarrow> ret None
       | Some dim \<Rightarrow>
           if IsDegradable (be_Priority (parseBizEnvelope (ah_json (en_ack e)) body msgID)) then do {
             e_recordState e msgID StateRouted StateFallbackQueued (''rate_limited_degraded:'' @ dim) [];
             x \<leftarrow> reliableEnqueue e msgID toUID op body sq [];
             ret (Some (x, x \<noteq> None))
           } else ret (Some (Some (rate_limited_v2 dim toUID), True))
     }
   }"

definition route_dispatch ::
  "engine \<Rightarrow> string \<Rightarrow> int \<Rightarrow> i32 \<Rightarrow> byte list \<Rightarrow> int \<Rightarrow> (gerr option \<times> bool) act" where
  "route_dispatch e msgID toUID op body sq = do {
     l \<leftarrow> route_limits e msgID toUID op body sq;
     case l of
       Some res \<Rightarrow> ret res
     | None \<Rightarrow> do {
         c \<leftarrow> route_cached e msgID toUID op body;
         case c of
           Some res \<Rightarrow> ret (res, True)
         | None \<Rightarrow> do {
             (online, ss) \<leftarrow> sm_IsOnline toUID;
             o1 \<leftarrow> (if online then route_online e msgID toUID op body sq ss else ret None);
             case o1 of
               Some res \<Rightarrow> ret (res, True)
             | None \<Rightarrow> route_fallback e msgID toUID op body sq online ss
           }
       }
   }"

text \<open>With the lock of the attempt held: tracking, then dispatch.\<close>

definition route_attempt ::
  "engine \<Rightarrow> string \<Rightarrow> string \<Rightarrow> int \<Rightarrow> i32 \<Rightarrow> byte list \<Rightarrow> int \<Rightarrow> delivery_mode \<Rightarrow> (gerr option \<times> bool) act" where
  "route_attempt e tr msgID toUID op body sq mode = do {
     t \<leftarrow> TrackMessage (en_ack e) tr msgID 0 toUID op body;
     if t \<noteq> None then ret (None, True)
     else if mode = DeliveryPersistOnly then ret (None, True)
     else do {
       e_publishACK e msgID toUID ''server_received'' [];
       e_recordState e msgID StateAccepted StateRouted ''dispatch started'' [];
       route_dispatch e msgID toUID op body sq
     }
   }"

definition RouteByUserWithMode ::
  "engine \<Rightarrow> string \<Rightarrow> string \<Rightarrow> int \<Rightarrow> i32 \<Rightarrow> byte list \<Rightarrow> int \<Rightarrow> delivery_mode \<Rightarrow> gerr option act" where
  "RouteByUserWithMode e tr msgID0 toUID op body sq mode =
     (if mode = DeliveryTransient then route_transient e msgID0 toUID op body
      else do {
        g \<leftarrow> (if msgID0 = [] then generateMsgID e else ret (Inr msgID0));
        case g of
          Inl x \<Rightarrow> ret (Some x)
        | Inr msgID \<Rightarrow> do {
            e_recordState e msgID [] StateAccepted ''message accepted'' [];
            b \<leftarrow> BeginDeliveryAttempt (en_ack e) msgID;
            case b of
              Inl x \<Rightarrow> ret (Some x)
            | Inr (acquired, token) \<Rightarrow>
                if \<not> acquired then ret None
                else do {
                  (x, release) \<leftarrow> route_attempt e tr msgID toUID op body sq mode;
                  (if release then unlock_attempt msgID token else ret ());
                  ret x
                }
          }
      })"

definition RouteByUser :: "engine \<Rightarrow> string \<Rightarrow> string \<Rightarrow> int \<Rightarrow> i32 \<Rightarrow> byte list \<Rightarrow> int \<Rightarrow> gerr option act" where
  "RouteByUser e tr msgID toUID op body sq = RouteByUserWithMode e tr msgID toUID op body sq DeliveryReliable"

section \<open>The same with an account of the path\<close>

text \<open>\<open>TrimSpace\<close> on ASCII text; trace ids are ASCII. The latency of the account is not modelled.\<close>

definition is_blank :: "char \<Rightarrow> bool" where
  "is_blank c \<longleftrightarrow> c = CHR '' '' \<or> 9 \<le> (of_char c :: nat) \<and> (of_char c :: nat) \<le> 13"

definition TrimSpace :: "string \<Rightarrow> string" where
  "TrimSpace s = rev (dropWhile is_blank (rev (dropWhile is_blank s)))"

definition WithTraceID :: "string \<Rightarrow> string \<Rightarrow> string" where
  "WithTraceID ctxTrace t = (let t = TrimSpace t in if t = [] then ctxTrace else t)"

record DeliveryResult =
  dr_MsgID :: string
  dr_Path :: string
  dr_TargetNode :: string
  dr_ErrorCode :: string
  dr_ErrorMessage :: string
  dr_AttemptNo :: int
  dr_TraceID :: string

definition failed_with :: "string \<Rightarrow> gerr \<Rightarrow> DeliveryResult \<Rightarrow> DeliveryResult \<times> gerr option" where
  "failed_with code x d = (d\<lparr>dr_ErrorCode := code, dr_ErrorMessage := err_text x\<rparr>, Some x)"

definition ErrRateLimited :: gerr where "ErrRateLimited = Text ''rate limited''"

definition result_limits ::
  "engine \<Rightarrow> string \<Rightarrow> int \<Rightarrow> i32 \<Rightarrow> byte list \<Rightarrow> int \<Rightarrow> DeliveryResult \<Rightarrow> ((DeliveryResult \<times> gerr option) \<times> bool) option act" where
  "result_limits e msgID toUID op body sq d = do {
     allowed \<leftarrow> (if en_limiter e then allow_user else ret True);
     if \<not> allowed
     then ret (Some ((d\<lparr>dr_ErrorCode := ''rate_limited'', dr_ErrorMessage := err_text (rate_limited toUID)\<rparr>, Some ErrRateLimited), True))
     else do {
       limited \<leftarrow> (if en_limiterV2 e then check_all else ret None);
       case limited of
         None \<Rightarrow> ret None
       | Some dim \<Rightarrow>
           if IsDegradable (be_Priority (parseBizEnvelope (ah_json (en_ack e)) body msgID)) then do {
             e_recordState e msgID StateRouted StateFallbackQueued (''rate_limited_degraded:'' @ dim) [];
             let d = d\<lparr>dr_Path := ''kafka_fallback'', dr_ErrorCode := ''rate_limited_degraded'',
                       dr_ErrorMessage := ''v2 '' @ dim @ '' limited, degraded to kafka''\<rparr>;
             x \<leftarrow> reliableEnqueue e msgID toUID op body sq [];
             case x of
               Some y \<Rightarrow> ret (Some (failed_with ''kafka_fallback_failed'' y d, True))
             | None \<Rightarrow> do { count_kafka; ret (Some ((d, None), False)) }
           } else ret (Some ((d\<lparr>dr_ErrorCode := ''rate_limited_v2'', dr_ErrorMessage := err_text (rate_limited_v2 dim toUID)\<rparr>,
                       Some ErrRateLimited), True))
     }
   }"

definition result_online ::
  "engine \<Rightarrow> string \<Rightarrow> int \<Rightarrow> i32 \<Rightarrow> byte list \<Rightarrow> int \<Rightarrow> Session list \<Rightarrow> DeliveryResult \<Rightarrow> (DeliveryResult \<times> gerr option) option act" where
  "result_online e msgID toUID op body sq ss d = do {
     (failed, pushErr) \<leftarrow> directPush (en_pusher e) ss op body;
     if pushErr \<noteq> None then ret None
     else do {
       m \<leftarrow> markDelivered msgID;
       case m of
         Some y \<Rightarrow> ret (Some (failed_with ''mark_delivered_failed'' y d))
       | None \<Rightarrow> do {
           e_publishACK e msgID toUID ''pushed'' (firstServer ss);
           if failed = [] then do { count_direct; ret (Some (d\<lparr>dr_Path := ''grpc_direct''\<rparr>, None)) }
           else do {
             x \<leftarrow> reliableEnqueue e msgID toUID op body sq failed;
             count_direct;
             let d = d\<lparr>dr_Path := ''kafka_fallback''\<rparr>;
             case x of
               None \<Rightarrow> do { count_kafka; ret (Some (d, None)) }
             | Some y \<Rightarrow> ret (Some (failed_with ''kafka_fallback_failed'' y d))
           }
         }
     }
   }"

definition result_dispatch ::
  "engine \<Rightarrow> string \<Rightarrow> int \<Rightarrow> i32 \<Rightarrow> byte list \<Rightarrow> int \<Rightarrow> DeliveryResult \<Rightarrow> ((DeliveryResult \<times> gerr option) \<times> bool) act" where
  "result_dispatch e msgID toUID op body sq d = do {
     l \<leftarrow> result_limits e msgID toUID op body sq d;
     case l of
       Some res \<Rightarrow> ret res
     | None \<Rightarrow> do {
         (online, ss) \<leftarrow> sm_IsOnline toUID;
         let d = (case ss of [] \<Rightarrow> d | s # _ \<Rightarrow> d\<lparr>dr_TargetNode := ss_Server s\<rparr>);
         o1 \<leftarrow> (if online then result_online e msgID toUID op body sq ss d else ret None);
         case o1 of
           Some res \<Rightarrow> ret (res, True)
         | None \<Rightarrow> do {
             x \<leftarrow> reliableEnqueue e msgID toUID op body sq ss;
             case x of
               None \<Rightarrow> do {
                 count_kafka;
                 ret ((d\<lparr>dr_Path := (if online then ''kafka_fallback'' else ''offline_stored'')\<rparr>, None), False)
               }
             | Some y \<Rightarrow> ret (failed_with ''reliable_enqueue_failed'' y d, True)
           }
       }
   }"

definition result_attempt ::
  "engine \<Rightarrow> string \<Rightarrow> string \<Rightarrow> int \<Rightarrow> i32 \<Rightarrow> byte list \<Rightarrow> int \<Rightarrow> DeliveryResult \<Rightarrow> ((DeliveryResult \<times> gerr option) \<times> bool) act" where
  "result_attempt e tr msgID toUID op body sq d = do {
     t \<leftarrow> TrackMessage (en_ack e) tr msgID 0 toUID op body;
     if t \<noteq> None then ret ((d\<lparr>dr_Path := ''grpc_direct''\<rparr>, None), True)
     else do {
       e_publishACK e msgID toUID ''server_received'' [];
       result_dispatch e msgID toUID op body sq d
     }
   }"

definition RouteByUserResult ::
  "engine \<Rightarrow> string \<Rightarrow> string \<Rightarrow> int \<Rightarrow> i32 \<Rightarrow> byte list \<Rightarrow> int \<Rightarrow> (DeliveryResult \<times> gerr option) act" where
  "RouteByUserResult e ctxTrace msgID0 toUID op body sq =
     (let traceID = traceIDFromBodyOrContext (ah_json (en_ack e)) (ah_jtrace (en_ack e)) ctxTrace body;
          d = \<lparr>dr_MsgID = msgID0, dr_Path = ''failed'', dr_TargetNode = [], dr_ErrorCode = [], dr_ErrorMessage = [],
               dr_AttemptNo = 1, dr_TraceID = traceID\<rparr>
      in do {
        g \<leftarrow> (if msgID0 = [] then generateMsgID e else ret (Inr msgID0));
        case g of
          Inl x \<Rightarrow> ret (failed_with ''id_generation_failed'' x d)
        | Inr msgID \<Rightarrow> do {
            let d = d\<lparr>dr_MsgID := msgID\<rparr>;
            b \<leftarrow> BeginDeliveryAttempt (en_ack e) msgID;
            case b of
              Inl x \<Rightarrow> ret (failed_with ''delivery_attempt_lock_failed'' x d)
            | Inr (acquired, token) \<Rightarrow>
                if \<not> acquired then ret (d\<lparr>dr_Path := ''in_progress''\<rparr>, None)
                else do {
                  (res, release) \<leftarrow> result_attempt e (WithTraceID ctxTrace traceID) msgID toUID op body sq d;
                  (if release then unlock_attempt msgID token else ret ());
                  ret res
                }
          }
      })"

definition e_GetDeliveryState :: "engine \<Rightarrow> string \<Rightarrow> (gerr + DeliveryState) act" where
  "e_GetDeliveryState e msgID =
     (case en_stateRec e of None \<Rightarrow> ret (Inr []) | Some pool \<Rightarrow> redis_do (\<lambda>w. GetCurrentState pool msgID))"

definition e_GetStateTimeline :: "engine \<Rightarrow> string \<Rightarrow> (gerr + StateTransition list) act" where
  "e_GetStateTimeline e msgID =
     (case en_stateRec e of None \<Rightarrow> ret (Inr []) | Some pool \<Rightarrow> redis_do (\<lambda>w. GetTimeline pool msgID))"

section \<open>Rooms and broadcasts\<close>

definition direct_or :: "engine \<Rightarrow> event \<Rightarrow> gerr option act" where
  "direct_or e ev = do {
     x \<leftarrow> call ev;
     if x = None then do { count_direct; ret None } else ret x
   }"

definition RouteByRoom :: "engine \<Rightarrow> i32 \<Rightarrow> string \<Rightarrow> byte list \<Rightarrow> gerr option act" where
  "RouteByRoom e op roomKey body =
     (if en_producer e then do {
        x \<leftarrow> call (MQ_Room roomKey (pushMsgBytes 1 op [] [] roomKey body 0));
        if x \<noteq> None then
          (if en_broadcaster e then direct_or e (Comet_BroadcastRoom op roomKey body) else ret x)
        else do { count_kafka; ret None }
      } else if en_broadcaster e then direct_or e (Comet_BroadcastRoom op roomKey body)
      else do {
        x \<leftarrow> call (Kafka_BroadcastRoomMsg op roomKey body);
        if x = None then do { count_kafka; ret None } else ret x
      })"

definition RouteBroadcast :: "engine \<Rightarrow> i32 \<Rightarrow> i32 \<Rightarrow> byte list \<Rightarrow> gerr option act" where
  "RouteBroadcast e op speed body =
     (if en_producer e then do {
        x \<leftarrow> call (MQ_Broadcast (pushMsgBytes 2 op [] [] [] body speed) speed);
        if x \<noteq> None then
          (if en_broadcaster e then direct_or e (Comet_BroadcastAll op speed body) else ret x)
        else do { count_kafka; ret None }
      } else if en_broadcaster e then direct_or e (Comet_BroadcastAll op speed body)
      else do {
        x \<leftarrow> call (Kafka_BroadcastMsg op speed body);
        if x = None then do { count_kafka; ret None } else ret x
      })"

section \<open>The log\<close>

lemma dispatch_growing [growing]:
  "grows allow_user" "grows check_all" "grows count_direct" "grows count_kafka" "grows (generateMsgID e)"
  "grows (e_recordState e msgID frm tgt reason tr)" "grows (e_recordAttempt e msgID channel status es server)"
  "grows (e_publishACK e msgID uid status targetNode)" "grows (mark_tries n lastErr msgID)" "grows (markDelivered msgID)"
  "grows (push_loop ss op body failed lastErr anyOK)" "grows (directPush pusher ss op body)"
  "grows (spoolReliableMessage msgID toUID op body sq server ks headers oe ee)"
  "grows (reliableEnqueue e msgID toUID op body sq ss)"
proof -
  show "grows allow_user" "grows check_all" "grows count_direct" "grows count_kafka" "grows (generateMsgID e)"
    by (auto simp: allow_user_def check_all_def count_direct_def count_kafka_def generateMsgID_def state_io_rel_def
        split: list.splits sum.splits)
  show "grows (e_recordState e msgID frm tgt reason tr)" unfolding e_recordState_def by (intro growing)
  show "grows (e_recordAttempt e msgID channel status es server)"
    unfolding e_recordAttempt_def by (intro growing) simp
  show "grows (e_publishACK e msgID uid status targetNode)" unfolding e_publishACK_def by (intro growing)
  show m: "grows (mark_tries n lastErr msgID)" for n lastErr
    by (induction n arbitrary: lastErr) (auto intro!: growing)
  show "grows (markDelivered msgID)" unfolding markDelivered_def by (intro growing m)
  show p: "grows (push_loop ss op body failed lastErr anyOK)" for ss failed lastErr anyOK
    by (induction ss arbitrary: failed lastErr anyOK) (auto intro!: growing)
  show "grows (directPush pusher ss op body)" unfolding directPush_def by (intro growing p)
  show s: "grows (spoolReliableMessage msgID toUID op body sq server ks headers oe ee)" for sq server ks headers oe ee
    unfolding spoolReliableMessage_def Let_def by (intro growing)
  show "grows (reliableEnqueue e msgID toUID op body sq ss)"
    unfolding reliableEnqueue_def Let_def by (intro growing s)
qed

end
