(* ===== verification/Handover.thy ===== *)
theory Handover
  imports Dispatch
begin

text \<open>
  What becomes of a message the engine accepts: when a routing function reports success, the message
  was taken over by a connection or by the queue. The exceptions are exactly the ones the code makes.
\<close>

section \<open>What was handed over\<close>

text \<open>An event that carries a message to a connection or to the queue.\<close>

fun carries :: "i32 \<Rightarrow> byte list \<Rightarrow> event \<Rightarrow> bool" where
  "carries op body (Comet_PushMsg server ks o1 b) \<longleftrightarrow> o1 = op \<and> b = body"
| "carries op body (Kafka_PushMsg o1 server ks b) \<longleftrightarrow> o1 = op \<and> b = body"
| "carries op body (MQ_Topic topic uid k pm hs) \<longleftrightarrow> pm_Op pm = op \<and> pm_Msg pm = body"
| "carries op body (MQ_User uid k pm hs) \<longleftrightarrow> pm_Op pm = op \<and> pm_Msg pm = body"
| "carries op body _ \<longleftrightarrow> False"

text \<open>After the first \<open>n\<close> entries of the log one says that the message was taken.\<close>

definition handed :: "nat \<Rightarrow> i32 \<Rightarrow> byte list \<Rightarrow> world \<Rightarrow> bool" where
  "handed n op body w \<longleftrightarrow> (\<exists>p \<in> set (drop n (w_log w)). snd p = None \<and> carries op body (fst p))"

definition from_log :: "nat \<Rightarrow> world \<Rightarrow> bool" where
  "from_log n w \<longleftrightarrow> n \<le> length (w_log w)"

lemma handed_mono: "handed n op body w \<Longrightarrow> prefix (w_log w) (w_log w') \<Longrightarrow> handed n op body w'"
  by (auto simp: handed_def prefix_def)

lemma from_log_mono: "from_log n w \<Longrightarrow> prefix (w_log w) (w_log w') \<Longrightarrow> from_log n w'"
  by (auto simp: from_log_def prefix_def)

lemmas keeps_handed = triple_grows [OF _ handed_mono] and keeps_from_log = triple_grows [OF _ from_log_mono]

lemma call_hands:
  assumes "carries op body ev"
  shows "triple (from_log n) (call ev) (\<lambda>x w. from_log n w \<and> (x = None \<longrightarrow> handed n op body w))"
  using assms by (auto simp: triple_def from_log_def handed_def)

text \<open>Pushing to connections: a message is handed over as soon as one push came through.\<close>

lemma push_loop_hands:
  "triple (\<lambda>w. from_log n w \<and> (anyOK \<longrightarrow> handed n op body w))
     (push_loop ss op body failed lastErr anyOK)
     (\<lambda>(fl, le, ok) w. from_log n w \<and> (ok \<longrightarrow> handed n op body w) \<and> (anyOK \<longrightarrow> ok) \<and> (\<not> ok \<longrightarrow> fl = failed @ ss))"
proof (induction ss arbitrary: failed lastErr anyOK)
  case Nil
  then show ?case by (simp add: triple_def)
next
  case (Cons s ss)
  let ?ev = "Comet_PushMsg (ss_Server s) [ss_Key s] op body"
  have c: "triple (\<lambda>w. from_log n w \<and> (anyOK \<longrightarrow> handed n op body w)) (call ?ev)
      (\<lambda>x w. from_log n w \<and> (anyOK \<or> x = None \<longrightarrow> handed n op body w))"
    by (auto simp: triple_def from_log_def handed_def)
  show ?case
    unfolding push_loop.simps
  proof (rule triple_bind [OF c], rule triple_option)
    fix x :: "gerr option" assume "x = None"
    then show "triple (\<lambda>w. from_log n w \<and> (anyOK \<or> x = None \<longrightarrow> handed n op body w))
        (push_loop ss op body failed lastErr True)
        (\<lambda>(fl, le, ok) w. from_log n w \<and> (ok \<longrightarrow> handed n op body w) \<and> (anyOK \<longrightarrow> ok) \<and> (\<not> ok \<longrightarrow> fl = failed @ s # ss))"
      by (intro triple_conseq [OF Cons.IH [of True failed lastErr]]) auto
  next
    fix x and y :: gerr assume "x = Some y"
    then show "triple (\<lambda>w. from_log n w \<and> (anyOK \<or> x = None \<longrightarrow> handed n op body w))
        (push_loop ss op body (failed @ [s]) (Some y) anyOK)
        (\<lambda>(fl, le, ok) w. from_log n w \<and> (ok \<longrightarrow> handed n op body w) \<and> (anyOK \<longrightarrow> ok) \<and> (\<not> ok \<longrightarrow> fl = failed @ s # ss))"
      by (intro triple_conseq [OF Cons.IH [of anyOK "failed @ [s]" "Some y"]]) auto
  qed
qed

text \<open>A computation with a result: the log is still there, and with no error the message was taken.\<close>

abbreviation takes :: "nat \<Rightarrow> i32 \<Rightarrow> byte list \<Rightarrow> ('a \<Rightarrow> bool) \<Rightarrow> 'a act \<Rightarrow> bool" where
  "takes n op body done m \<equiv> triple (from_log n) m (\<lambda>x w. from_log n w \<and> (done x \<longrightarrow> handed n op body w))"

abbreviation holds :: "nat \<Rightarrow> i32 \<Rightarrow> byte list \<Rightarrow> world \<Rightarrow> bool" where
  "holds n op body \<equiv> (\<lambda>w. from_log n w \<and> handed n op body w)"

lemma holds_mono: "holds n op body w \<Longrightarrow> prefix (w_log w) (w_log w') \<Longrightarrow> holds n op body w'"
  by (auto intro: handed_mono from_log_mono)

text \<open>Once it is handed over, or with a result that claims nothing, only growth of the log matters.\<close>

lemma takes_after: "grows m \<Longrightarrow> triple (holds n op body) m (\<lambda>x w. from_log n w \<and> (done x \<longrightarrow> handed n op body w))"
  by (rule triple_conseq [OF triple_grows [OF _ holds_mono]]) auto

lemma takes_nothing: "grows m \<Longrightarrow> (\<And>x. \<not> done x) \<Longrightarrow> takes n op body done m"
  by (rule triple_conseq [OF triple_grows [OF _ from_log_mono]]) auto

lemma takes_bind:
  assumes "grows m" "\<And>x. takes n op body done (f x)"
  shows "takes n op body done (State_Monad.bind m f)"
  by (rule triple_bind [OF triple_grows [OF assms(1) from_log_mono]]) (use assms(2) in auto)

lemma takes_bind_when:
  assumes "takes n op body d m" "\<And>x. d x \<Longrightarrow> grows (f x)" "\<And>x. \<not> d x \<Longrightarrow> takes n op body done (f x)"
  shows "takes n op body done (State_Monad.bind m f)"
proof (rule triple_bind [OF assms(1)])
  fix x
  show "triple (\<lambda>w. from_log n w \<and> (d x \<longrightarrow> handed n op body w)) (f x)
      (\<lambda>x w. from_log n w \<and> (done x \<longrightarrow> handed n op body w))"
    by (cases "d x") (simp_all add: takes_after assms(2,3))
qed

lemma takes_return: "\<not> done x \<Longrightarrow> takes n op body done (ret x)"
  by (simp add: triple_def)

lemma directPush_takes: "ss \<noteq> [] \<Longrightarrow> takes n op body (\<lambda>(failed, x). x = None) (directPush pusher ss op body)"
proof -
  assume ss: "ss \<noteq> []"
  have l: "triple (from_log n) (push_loop ss op body [] None False)
     (\<lambda>(fl, le, ok) w. from_log n w \<and> (ok \<longrightarrow> handed n op body w) \<and> (\<not> ok \<longrightarrow> fl = ss))"
    by (rule triple_conseq [OF push_loop_hands [where anyOK = False and failed = "[]"]]) auto
  show ?thesis
    unfolding directPush_def
    by (intro triple_if triple_bind [OF l]) (auto simp: triple_def ss split: prod.splits)
qed

lemma call_takes: "carries op body ev \<Longrightarrow> takes n op body (\<lambda>x. x = None) (call ev)"
  by (rule call_hands)

lemma spool_error: "takes n op body (\<lambda>x. x = None)
    (spoolReliableMessage msgID toUID op body sq server ks headers oe (Some ee))"
  unfolding spoolReliableMessage_def Let_def
  by (intro triple_option takes_bind growing) (auto simp: triple_def split: option.splits)

lemma reliableEnqueue_takes: "takes n op body (\<lambda>x. x = None) (reliableEnqueue e msgID toUID op body sq ss)"
  unfolding reliableEnqueue_def Let_def
  by (intro takes_bind growing takes_bind_when [OF call_takes])
    (auto simp: pushMsgBytes_def intro!: growing spool_error split: option.splits)

section \<open>The dispatch of one message\<close>

lemma route_growing [growing]:
  "grows (route_cached e msgID toUID op body)" "grows (route_online e msgID toUID op body sq ss)"
  "grows (route_fallback e msgID toUID op body sq online ss)" "grows (route_limits e msgID toUID op body sq)"
  unfolding route_cached_def route_online_def route_fallback_def route_limits_def by (intro growing)+

lemma route_cached_takes: "takes n op body (\<lambda>c. c = Some None) (route_cached e msgID toUID op body)"
  unfolding route_cached_def
  by (intro takes_bind growing triple_option takes_return takes_bind_when [OF directPush_takes])
    (auto intro!: growing takes_return split: prod.splits)

lemma route_online_takes:
  "ss \<noteq> [] \<Longrightarrow> takes n op body (\<lambda>c. c = Some None) (route_online e msgID toUID op body sq ss)"
  unfolding route_online_def
  by (intro takes_bind_when [OF directPush_takes])
    (auto intro!: growing takes_bind takes_return split: prod.splits option.splits)

lemma route_fallback_takes: "takes n op body (\<lambda>r. fst r = None) (route_fallback e msgID toUID op body sq online ss)"
  unfolding route_fallback_def
  by (intro takes_bind_when [OF reliableEnqueue_takes])
    (auto intro!: growing takes_bind takes_return triple_if)

lemma route_limits_takes:
  "takes n op body (\<lambda>l. \<exists>r. l = Some (None, r)) (route_limits e msgID toUID op body sq)"
  unfolding route_limits_def
  by (intro takes_bind growing triple_if triple_option takes_return takes_bind_when [OF reliableEnqueue_takes]) 
    (auto intro!: growing takes_return)

lemma sm_IsOnline_some:
  "triple (from_log n) (sm_IsOnline uid) (\<lambda>p w. from_log n w \<and> (fst p \<longrightarrow> snd p \<noteq> []))"
  unfolding sm_IsOnline_def
  by (rule triple_bind [OF triple_grows [OF session_growing(6) from_log_mono]])
    (auto simp: triple_def split: sum.splits)

text \<open>A step that may settle the result, with the rest for when it does not.\<close>

lemma takes_settle:
  assumes "takes n op body (\<lambda>c. \<exists>r. c = Some r \<and> done (g r)) m" "takes n op body done k"
  shows "takes n op body done (State_Monad.bind m (\<lambda>c. case c of None \<Rightarrow> k | Some r \<Rightarrow> ret (g r)))"
  by (rule takes_bind_when [OF assms(1)]) (auto intro!: growing takes_return assms(2) split: option.splits)

lemma online_takes:
  assumes "\<And>ss. ss \<noteq> [] \<Longrightarrow> takes n op body done (f (True, ss))" "\<And>ss. takes n op body done (f (False, ss))"
  shows "takes n op body done (State_Monad.bind (sm_IsOnline uid) f)"
proof (rule triple_bind [OF sm_IsOnline_some])
  fix p :: "bool \<times> Session list"
  obtain b ss where p: "p = (b, ss)" by (cases p)
  show "triple (\<lambda>w. from_log n w \<and> (fst p \<longrightarrow> snd p \<noteq> [])) (f p) (\<lambda>x w. from_log n w \<and> (done x \<longrightarrow> handed n op body w))"
    using assms [of ss] by (cases b; cases ss) (auto simp: p triple_def)
qed

lemma route_dispatch_takes: "takes n op body (\<lambda>r. fst r = None) (route_dispatch e msgID toUID op body sq)"
  unfolding route_dispatch_def
proof (rule takes_settle [where g = "\<lambda>r. r"], goal_cases)
  case 1
  then show ?case by (rule triple_conseq [OF route_limits_takes]) auto
next
  case 2
  let ?pair = "\<lambda>r :: gerr option. (r, True)"
  show ?case
  proof (rule takes_settle [where g = ?pair], goal_cases)
    case 1
    then show ?case by (rule triple_conseq [OF route_cached_takes]) auto
  next
    case 2
    show ?case
    proof (rule online_takes, unfold prod.case if_True if_False, goal_cases)
      case (1 ss)
      show ?case
        by (rule takes_settle [where g = ?pair], rule triple_conseq [OF route_online_takes [OF 1]])
          (auto intro: route_fallback_takes)
    next
      case (2 ss)
      show ?case
        by (rule takes_settle [where g = ?pair], rule takes_return) (auto intro: route_fallback_takes)
    qed
  qed
qed

section \<open>The whole routing function\<close>

text \<open>How an attempt starts: the id, the state, the lock. Its result: the id, whether the attempt may go on, and
  what frees the lock.\<close>

definition route_start :: "engine \<Rightarrow> string \<Rightarrow> (gerr + string \<times> bool \<times> string option) act" where
  "route_start e msgID0 = do {
     g \<leftarrow> (if msgID0 = [] then generateMsgID e else ret (Inr msgID0));
     case g of
       Inl x \<Rightarrow> ret (Inl x)
     | Inr msgID \<Rightarrow> do {
         e_recordState e msgID [] StateAccepted ''message accepted'' [];
         b \<leftarrow> BeginDeliveryAttempt (en_ack e) msgID;
         ret (map_sum id (Pair msgID) b)
       }
   }"

lemma grows_route_start: "grows (route_start e msgID0)"
  unfolding route_start_def by (intro growing)

text \<open>After a start that may go on, the message is tracked, dispatched, and the lock freed.\<close>

definition route_rest ::
  "engine \<Rightarrow> string \<Rightarrow> int \<Rightarrow> i32 \<Rightarrow> byte list \<Rightarrow> int \<Rightarrow> string \<Rightarrow> string option \<Rightarrow> gerr option act" where
  "route_rest e tr toUID op body sq msgID token = do {
     (x, release) \<leftarrow> route_attempt e tr msgID toUID op body sq DeliveryReliable;
     (if release then unlock_attempt msgID token else ret ());
     ret x
   }"

lemma RouteByUser_parts:
  "RouteByUser e tr msgID0 toUID op body sq = do {
     b \<leftarrow> route_start e msgID0;
     case b of
       Inl x \<Rightarrow> ret (Some x)
     | Inr (msgID, acquired, token) \<Rightarrow> if \<not> acquired then ret None else route_rest e tr toUID op body sq msgID token
   }"
  by (rule state.expand, rule ext)
    (auto simp: RouteByUser_def RouteByUserWithMode_def route_start_def route_rest_def split: sum.splits prod.splits)

lemma route_rest_takes:
  assumes "run_state (TrackMessage (en_ack e) tr msgID 0 toUID op body) w1 = (None, w2)" "from_log n w1"
    and "run_state (route_rest e tr toUID op body sq msgID token) w1 = (None, w')"
  shows "handed n op body w'"
proof -
  have f: "from_log n w2"
    using growsD [OF handler_growing(8) assms(1)] assms(2) by (rule from_log_mono [rotated])
  have "takes n op body (\<lambda>x. x = None) (do {
     e_publishACK e msgID toUID ''server_received'' [];
     e_recordState e msgID StateAccepted StateRouted ''dispatch started'' [];
     (x, release) \<leftarrow> route_dispatch e msgID toUID op body sq;
     (if release then unlock_attempt msgID token else ret ());
     ret x
   })"
    by (intro takes_bind growing takes_bind_when [OF route_dispatch_takes])
      (auto intro!: growing takes_bind takes_return split: prod.splits)
  from tripleD [OF this f] assms(1,3) show ?thesis
    by (auto simp: route_rest_def route_attempt_def split: prod.splits)
qed

text \<open>Property C15. The routing engine does not lose an accepted message. When \<open>RouteByUser\<close> returns without an
  error, a connection or the queue has taken the message in the course of the call. There are two exceptions:
  another attempt for the same message holds the lock, or tracking the message reported an error, which the
  engine takes to mean that the message is known.\<close>

theorem accepted_is_handed_over:
  assumes run: "run_state (RouteByUser e tr msgID0 toUID op body sq) w = (None, w')"
  shows "handed (length (w_log w)) op body w'
    \<or> (\<exists>msgID token. run_state (route_start e msgID0) w = (Inr (msgID, False, token), w'))
    \<or> (\<exists>msgID token w1 y w2. run_state (route_start e msgID0) w = (Inr (msgID, True, token), w1)
        \<and> run_state (TrackMessage (en_ack e) tr msgID 0 toUID op body) w1 = (Some y, w2))"
proof -
  obtain b w1 where st: "run_state (route_start e msgID0) w = (b, w1)" by fastforce
  have l: "from_log (length (w_log w)) w1"
    using growsD [OF grows_route_start st] by (auto simp: from_log_def prefix_def)
  note r = run [unfolded RouteByUser_parts, simplified, unfolded st, simplified]
  show ?thesis
  proof (cases b)
    case (Inl x)
    then show ?thesis using r by simp
  next
    case (Inr p)
    obtain msgID acquired token where p: "p = (msgID, acquired, token)" by (cases p)
    obtain t w2 where t: "run_state (TrackMessage (en_ack e) tr msgID 0 toUID op body) w1 = (t, w2)" by fastforce
    show ?thesis
    proof (cases "acquired \<and> t = None")
      case True
      then show ?thesis using route_rest_takes [OF _ l, of e tr msgID toUID op body w2 sq token w'] r t Inr p by auto
    next
      case False
      then show ?thesis using r st t Inr p by (cases acquired; cases t) auto
    qed
  qed
qed

text \<open>A handler and an engine, for the examples.\<close>

definition demo_conf :: ack_conf where
  "demo_conf = \<lparr>ah_push = False, ah_state = None, ah_atomic = True, ah_locker = False, ah_alloc = NewSeqAllocator,
     ah_json = (\<lambda>_. None), ah_jtrace = (\<lambda>_. [])\<rparr>"

definition demo_engine :: engine where
  "demo_engine = \<lparr>en_ack = demo_conf, en_producer = True, en_onlineTopic = ''on'', en_offlineTopic = ''off'',
     en_broadcaster = False, en_dao = True, en_sessMgr = True, en_onlineRouter = True, en_pusher = True, en_idGen = True,
     en_limiter = False, en_limiterV2 = False, en_attemptRec = None, en_stateRec = None\<rparr>"

lemma demo_start: "run_state (route_start demo_engine (c # m)) w = (Inr (c # m, True, None), w)"
  by (simp add: route_start_def demo_engine_def demo_conf_def e_recordState_def record_state_def BeginDeliveryAttempt_def)

text \<open>A message that is tracked but not finished, for an offline user: it goes to the queue.\<close>

definition pending_world :: world where
  "pending_world = empty_world\<lparr>w_redis := hset (keyMsgStatus ''m'') [(''status'', MsgStatusPending)] empty_redis\<rparr>"

lemma pending_track: "run_state (TrackMessage demo_conf tr ''m'' 0 7 9 [1]) pending_world = (None, pending_world)"
proof -
  have h: "rd_hash (w_redis pending_world) (keyMsgStatus ''m'') = [''status'' \<mapsto> MsgStatusPending]"
    and f: "rd_fates (w_redis pending_world) = []"
    by (simp_all add: pending_world_def hset_def empty_redis_def)
  have d: "run_state (is_duplicate ''m'') pending_world = (False, pending_world)"
    using f by (simp add: IsDuplicate_def Let_def GetMessageStatus_def h str_or_empty_def status_defs)
      (simp add: pending_world_def empty_world_def NewIdempotencyChecker_def)
  have "[''status'' \<mapsto> MsgStatusPending] \<noteq> (\<lambda>_. None)" by (metis fun_upd_same option.distinct(1))
  then show ?thesis
    using f d by (simp add: TrackMessage_def allowExistingUnfinishedMessage_def GetMessageStatus_def h
        handleTrackedStatus_def ensureUserMessageIndex_def seq_of_def str_or_empty_def status_defs del: run_is_duplicate)
qed

lemma pending_route: "fst (run_state (RouteByUser demo_engine [] ''m'' 7 9 [1] 0) pending_world) = None"
proof -
  have k: "keyUserSessions 7 \<noteq> keyMsgStatus ''m''" "keyMsgStatus ''m'' \<noteq> keyUserSessions 7"
    by (simp_all add: keyUserSessions_def keyMsgStatus_def)
  have e: "en_ack demo_engine = demo_conf" by (simp add: demo_engine_def)
  show ?thesis
    by (simp add: RouteByUser_parts demo_start route_rest_def route_attempt_def e pending_track)
      (simp add: route_dispatch_def route_limits_def route_cached_def route_get_def OnlineRouter_Get_def sm_IsOnline_def
        sm_GetSessions_def route_fallback_def reliableEnqueue_def AddToOfflineQueue_def GetUserSessions_def
        e_recordState_def e_recordAttempt_def record_state_def e_publishACK_def count_kafka_def unlock_attempt_def
        demo_engine_def pending_world_def empty_world_def empty_redis_def hset_def zadd_def expire_def k Let_def)
qed

theorem accepted_is_handed_over_witness:
  "handed 0 9 [1] (snd (run_state (RouteByUser demo_engine [] ''m'' 7 9 [1] 0) pending_world))"
proof -
  obtain w' where r: "run_state (RouteByUser demo_engine [] ''m'' 7 9 [1] 0) pending_world = (None, w')"
    using pending_route by (metis prod.collapse)
  have "en_ack demo_engine = demo_conf" "w_log pending_world = []"
    by (simp_all add: demo_engine_def pending_world_def empty_world_def)
  with accepted_is_handed_over [OF r] r show ?thesis by (auto simp: demo_start pending_track)
qed

end
