(* ===== verification/Tracking.thy ===== *)
theory Tracking
  imports Handover
begin

text \<open>
  What tracking and acknowledging leave behind, and what that means for the routing engine: a tracked
  message can be read back whole, an acknowledged one is not sent again, and an error of tracking is
  reported to the caller as success.
\<close>

section \<open>Sequence numbers leave messages alone\<close>

text \<open>\<open>r'\<close> has the data of \<open>r\<close> but for the counter of the user.\<close>

definition but_counter :: "int \<Rightarrow> redis \<Rightarrow> redis \<Rightarrow> bool" where
  "but_counter uid r r' \<longleftrightarrow> rd_hash r' = rd_hash r \<and> rd_zset r' = rd_zset r \<and> rd_list r' = rd_list r
     \<and> rd_attempt r' = rd_attempt r \<and> rd_ttl r' = rd_ttl r
     \<and> (\<forall>k. k \<noteq> keyUserSeq uid \<longrightarrow> rd_str r' k = rd_str r k) \<and> (rd_fates r = [] \<longrightarrow> rd_fates r' = [])"

lemma but_counter_refl: "but_counter uid r r"
  by (simp add: but_counter_def)

lemma but_counter_trans: "but_counter uid r r' \<Longrightarrow> but_counter uid r' r'' \<Longrightarrow> but_counter uid r r''"
  by (simp add: but_counter_def)

lemma incr_but_counter: "but_counter uid r (snd (IncrUserSeqBy uid d r))"
proof -
  have c: "but_counter uid q (snd (incrby (keyUserSeq uid) d q))" for q d
    by (auto simp: incrby_def but_counter_def split: option.splits sum.splits)
  have "but_counter uid r (snd (rtrip (incrby (keyUserSeq uid) d) r))" for d
  proof (cases "rd_fates r")
    case Nil
    then show ?thesis using c by (simp add: split_beta)
  next
    case (Cons f fs)
    have "but_counter uid r (r\<lparr>rd_fates := fs\<rparr>)" using Cons by (simp add: but_counter_def)
    from but_counter_trans [OF this c] this Cons show ?thesis
      by (cases f) (simp_all add: rtrip_def split_beta)
  qed
  then show ?thesis by (simp add: IncrUserSeqBy_def rtrip_sum_def split_beta)
qed

lemma alloc_but_counter:
  "alloc_loop IncrUserSeqBy a uid k st r = Some (x, st', r') \<Longrightarrow> but_counter uid r r'"
proof (induction k arbitrary: st r)
  case (Suc k)
  have s: "but_counter uid r (snd (reserveRange IncrUserSeqBy a uid r))"
    using incr_but_counter [of uid r "blockSize a"] by (auto simp: reserveRange_def Let_def split: prod.splits sum.splits)
  show ?case
    using Suc.prems s by (auto simp: but_counter_refl split: option.splits prod.splits if_splits sum.splits
        dest!: Suc.IH intro: but_counter_trans)
qed simp

lemma allocate_but_counter:
  assumes "run_state (allocate a uid) w = (x, w1)" "0 < blockSize a"
  shows "\<exists>st r. w1 = w\<lparr>w_alloc := (w_alloc w)(uid := st), w_redis := r\<rparr> \<and> but_counter uid (w_redis w) r"
proof -
  obtain y st r where l: "alloc_loop IncrUserSeqBy a uid 3 (w_alloc w uid) (w_redis w) = Some (y, st, r)"
    using alloc_loop_returns [OF assms(2), of IncrUserSeqBy uid "w_alloc w uid" "w_redis w"] by auto
  from alloc_but_counter [OF l] l assms(1) show ?thesis by (auto simp: Allocate_def)
qed

section \<open>Tracking a new message\<close>

definition unknown :: "string \<Rightarrow> world \<Rightarrow> bool" where
  "unknown msgID w \<longleftrightarrow> \<not> key_exists (keyMsgStatus msgID) (w_redis w)
     \<and> map_of (w_seen w (shard_of (hashMsgID msgID))) (hashMsgID msgID) = None"

lemma TrackMessage_unknown:
  assumes "rd_fates (w_redis w) = []" "unknown msgID w" "msgID \<noteq> []"
  shows "run_state (TrackMessage a tr msgID fromUID toUID op body) w
    = run_state (track_new a tr msgID fromUID toUID op body) w"
proof -
  have h: "rd_hash (w_redis w) (keyMsgStatus msgID) = (\<lambda>_. None)"
    using assms(2) by (simp add: unknown_def key_exists_def)
  have d: "run_state (is_duplicate msgID) w = (False, w)"
    using assms h by (simp add: IsDuplicate_def unknown_def Let_def GetMessageStatus_def str_or_empty_def)
  have e: "run_state (allowExistingUnfinishedMessage toUID msgID) w = ((False, None), w)"
    using assms(1) h by (simp add: allowExistingUnfinishedMessage_def GetMessageStatus_def)
  show ?thesis using assms(3) d e by (simp add: TrackMessage_def)
qed

text \<open>The hash of a tracked message.\<close>

definition stored :: "string \<Rightarrow> int \<Rightarrow> int \<Rightarrow> i32 \<Rightarrow> byte list \<Rightarrow> int \<Rightarrow> redis \<Rightarrow> bool" where
  "stored msgID fromUID toUID op body sq r \<longleftrightarrow>
     (let h = rd_hash r (keyMsgStatus msgID)
      in h ''status'' = Some MsgStatusPending \<and> h ''from_uid'' = Some (FormatInt fromUID)
         \<and> h ''to_uid'' = Some (FormatInt toUID) \<and> h ''op'' = Some (FormatInt (sint op))
         \<and> map_option b64_decode (h ''body'') = Some (Some body) \<and> h ''seq'' = Some (FormatInt sq))
     \<and> rd_ttl r (keyMsgStatus msgID) = Some week_ms \<and> (sq, msgID) \<in> set (rd_zset r (keyUserMsgs toUID))"

lemma msgs_status_apart [simp]: "keyUserMsgs uid \<noteq> keyMsgStatus msgID" "keyMsgStatus msgID \<noteq> keyUserMsgs uid"
  by (simp_all add: keyUserMsgs_def keyMsgStatus_def)

lemma hset_exists: "fs \<noteq> [] \<Longrightarrow> key_exists k (hset k fs r)"
proof -
  assume "fs \<noteq> []"
  then obtain gs f v where "fs = gs @ [(f, v)]" by (cases fs rule: rev_exhaust) auto
  then have "rd_hash (hset k fs r) k f = Some v" by (simp add: hset_def)
  then have "rd_hash (hset k fs r) k \<noteq> (\<lambda>_. None)" by (metis option.distinct(1))
  then show ?thesis by (simp add: key_exists_def)
qed

lemma track_fields_stored:
  assumes "r' = expire (keyUserMsgs toUID) month_ms (zadd (keyUserMsgs toUID) sq msgID
     (hset (keyMsgStatus msgID) [(''seq'', FormatInt sq)]
       (expire (keyMsgStatus msgID) week_ms
         (hset (keyMsgStatus msgID) (track_fields now fromUID toUID op body sq tr) r))))"
  shows "stored msgID fromUID toUID op body sq r'"
proof -
  have "key_exists (keyMsgStatus msgID) (hset (keyMsgStatus msgID) (track_fields now fromUID toUID op body sq tr) r)"
    by (rule hset_exists) (simp add: track_fields_def)
  then show ?thesis
    unfolding stored_def Let_def assms
    by (simp add: track_fields_def hset_def expire_def zadd_def b64_roundtrip set_insort_key split: if_split)
qed

text \<open>Property C16. Tracking a new message with a working Redis stores it whole: its status, users, operation and
  number are in its hash, its body can be decoded from there, the hash lives for a week, and the index of the
  user's messages has it under its number. This holds with either way of claiming the message.\<close>

theorem TrackMessage_stores:
  assumes "rd_fates (w_redis w) = []" "unknown msgID w" "msgID \<noteq> []" "0 < blockSize (ah_alloc a)"
    and alloc: "fst (run_state (allocate (ah_alloc a) toUID) w) = Inr sq" "0 < sq"
  shows "\<exists>w'. run_state (TrackMessage a tr msgID fromUID toUID op body) w = (None, w')
    \<and> stored msgID fromUID toUID op body sq (w_redis w') \<and> w_log w' = w_log w"
proof -
  obtain w1 where a1: "run_state (allocate (ah_alloc a) toUID) w = (Inr sq, w1)" using alloc by (metis prod.collapse)
  then obtain st r where w1: "w1 = w\<lparr>w_alloc := (w_alloc w)(toUID := st), w_redis := r\<rparr>"
    and r: "but_counter toUID (w_redis w) r"
    using allocate_but_counter assms(4) by blast
  have fine: "rd_fates r = []" and h: "rd_hash r (keyMsgStatus msgID) = (\<lambda>_. None)"
    and ex: "\<not> key_exists (keyMsgStatus msgID) r"
    using r assms(1,2) by (simp_all add: but_counter_def unknown_def key_exists_def keyMsgStatus_def keyUserSeq_def)
  let ?fs = "track_fields (now_ms w) fromUID toUID op body sq (traceIDFromBodyOrContext (ah_json a) (ah_jtrace a) tr body)"
  let ?k = "keyMsgStatus msgID"
  let ?add = "\<lambda>q. expire (keyUserMsgs toUID) month_ms (zadd (keyUserMsgs toUID) sq msgID (hset ?k [(''seq'', FormatInt sq)]
      (expire ?k week_ms (hset ?k ?fs q))))"
  let ?q = "if ah_atomic a then r else hset ?k [(''status'', MsgStatusPending)] r"
  have ne: "?fs \<noteq> []" by (simp add: track_fields_def)
  have f: "rd_fates (expire ?k week_ms (hset ?k ?fs ?q)) = []" "rd_fates ?q = []"
    using fine by (simp_all add: expire_def hset_def)
  have "run_state (TrackMessage a tr msgID fromUID toUID op body) w = (None, w1\<lparr>w_redis := ?add ?q\<rparr>)"
    unfolding TrackMessage_unknown [OF assms(1-3)] track_new_def
    using a1 w1 ex h ne f alloc(2) fine
    by (cases "ah_atomic a")
      (simp_all add: TrackMessageAtomic_def SetMessageStatusNX_def SetMessageStatus_def AddUserMessage_def add_to_index_def Let_def)
  then show ?thesis using track_fields_stored [OF refl] by (auto simp: w1)
qed

lemma demo_unknown: "unknown msgID empty_world"
  by (simp add: unknown_def empty_world_def empty_redis_def key_exists_def NewIdempotencyChecker_def)

lemma demo_allocate: "fst (run_state (allocate NewSeqAllocator uid) empty_world) = Inr 1"
proof -
  obtain r where r: "reserveRange IncrUserSeqBy NewSeqAllocator uid empty_redis = (Inr first_block, r)"
    by (simp add: reserveRange_def IncrUserSeqBy_def rtrip_sum_def incrby_def empty_redis_def NewSeqAllocator_def
        NewSeqAllocatorWithBlockSize_def defaultSeqBlockSize_def first_block_def)
  show ?thesis
    by (simp add: Allocate_def numeral_3_eq_3 empty_world_def new_user_state_def allocateLocked_def r caller_done_def
        first_block_def Let_def split: prod.split)
qed

theorem TrackMessage_stores_witness:
  "\<exists>w'. run_state (TrackMessage demo_conf [] ''m'' 3 7 9 [1, 2]) empty_world = (None, w')
    \<and> stored ''m'' 3 7 9 [1, 2] 1 (w_redis w') \<and> w_log w' = []"
proof -
  have "rd_fates (w_redis empty_world) = []" "0 < blockSize (ah_alloc demo_conf)" "w_log empty_world = []"
    by (simp_all add: empty_world_def empty_redis_def demo_conf_def NewSeqAllocator_def
        NewSeqAllocatorWithBlockSize_def defaultSeqBlockSize_def)
  with TrackMessage_stores [of empty_world "''m''" demo_conf 7 1 "[]" 3 9 "[1, 2]"] demo_unknown demo_allocate
  show ?thesis by (simp add: demo_conf_def)
qed

section \<open>What stays inside\<close>

text \<open>A computation that sends nothing out of the process; one that touches nothing but Redis.\<close>

abbreviation silent :: "'a act \<Rightarrow> bool" where
  "silent m \<equiv> state_io_rel (\<lambda>w w'. w_log w' = w_log w) m"

abbreviation redis_only :: "'a act \<Rightarrow> bool" where
  "redis_only m \<equiv> state_io_rel (\<lambda>w w'. \<exists>r. w' = w\<lparr>w_redis := r\<rparr>) m"

named_theorems quiet \<open>computations that send nothing or touch Redis only\<close>

lemma io_rel_bind:
  assumes trans: "\<And>a b c. R a b \<Longrightarrow> R b c \<Longrightarrow> R a c" and m: "state_io_rel R m" and f: "\<And>x. state_io_rel R (f x)"
  shows "state_io_rel R (State_Monad.bind m f)"
  unfolding state_io_rel_def
proof
  fix w
  obtain x w1 where x: "run_state m w = (x, w1)" by fastforce
  have "R w w1" using m x by (auto simp: state_io_rel_def dest: spec [of _ w])
  moreover have "R w1 (snd (run_state (f x) w1))" using f by (simp add: state_io_rel_def)
  ultimately show "R w (snd (run_state (State_Monad.bind m f) w))" using x by (auto intro: trans)
qed

lemma quiet_bind [quiet]:
  "silent m \<Longrightarrow> (\<And>x. silent (f x)) \<Longrightarrow> silent (State_Monad.bind m f)"
  "redis_only m \<Longrightarrow> (\<And>x. redis_only (f x)) \<Longrightarrow> redis_only (State_Monad.bind m f)"
  by (rule io_rel_bind; auto)+

lemma same_redis: "\<exists>r. w = w\<lparr>w_redis := r\<rparr>"
  by (rule exI [of _ "w_redis w"]) simp

lemma quiet_basic [quiet]:
  "silent (ret x)" "silent (asks g)" "silent (redis_do h)" "silent (is_duplicate m)" "silent (mark_seen m)"
  "silent (allocate a uid)" "redis_only (ret x)" "redis_only (asks g)" "redis_only (redis_do h)"
  by (auto simp: state_io_rel_def mark_seen_def same_redis split: prod.splits)

lemma quiet_cases [quiet]:
  "silent m \<Longrightarrow> silent n \<Longrightarrow> silent (if b then m else n)"
  "silent m \<Longrightarrow> (\<And>y. silent (f y)) \<Longrightarrow> silent (case z of None \<Rightarrow> m | Some y \<Rightarrow> f y)"
  "(\<And>e. silent (g e)) \<Longrightarrow> (\<And>y. silent (h y)) \<Longrightarrow> silent (case v of Inl e \<Rightarrow> g e | Inr y \<Rightarrow> h y)"
  "(\<And>x y. silent (k x y)) \<Longrightarrow> silent (case p of (x, y) \<Rightarrow> k x y)"
  "redis_only m \<Longrightarrow> redis_only n \<Longrightarrow> redis_only (if b then m else n)"
  "redis_only m \<Longrightarrow> (\<And>y. redis_only (f y)) \<Longrightarrow> redis_only (case z of None \<Rightarrow> m | Some y \<Rightarrow> f y)"
  "(\<And>e. redis_only (g e)) \<Longrightarrow> (\<And>y. redis_only (h y)) \<Longrightarrow> redis_only (case v of Inl e \<Rightarrow> g e | Inr y \<Rightarrow> h y)"
  by (auto split: option.splits sum.splits prod.splits)

lemma quietD:
  "silent m \<Longrightarrow> run_state m w = (x, w') \<Longrightarrow> w_log w' = w_log w"
  "redis_only m \<Longrightarrow> run_state m w = (x, w') \<Longrightarrow> \<exists>r. w' = w\<lparr>w_redis := r\<rparr>"
  unfolding state_io_rel_def by (drule spec [of _ w], simp)+

lemma quiet_steps [quiet]:
  "redis_only (record_state rec msgID f t reason tr)" "redis_only (e_recordState e msgID f t reason tr)"
  "redis_only (BeginDeliveryAttempt a msgID)" "redis_only (unlock_attempt msgID token)"
  "redis_only (ensureUserMessageIndex uid msgID)" "silent (generateMsgID e)"
proof -
  show r: "redis_only (record_state rec msgID f t reason tr)" for rec
    unfolding record_state_def by (auto simp: state_io_rel_def same_redis split: option.splits)
  show "redis_only (e_recordState e msgID f t reason tr)" unfolding e_recordState_def by (rule r)
  show "redis_only (BeginDeliveryAttempt a msgID)" unfolding BeginDeliveryAttempt_def by (intro quiet)
  show "redis_only (unlock_attempt msgID token)" unfolding unlock_attempt_def by (intro quiet)
  show "redis_only (ensureUserMessageIndex uid msgID)" unfolding ensureUserMessageIndex_def by (intro quiet)
  show "silent (generateMsgID e)"
    by (auto simp: generateMsgID_def state_io_rel_def split: list.splits sum.splits)
qed

lemma redis_only_silent [quiet]: "redis_only m \<Longrightarrow> silent m"
  unfolding state_io_rel_def by (metis (no_types, lifting) world.ext_inject world.surjective world.update_convs(1))

lemma handler_silent [quiet]:
  "silent (handleTrackedStatus uid msgID data)" "silent (allowExistingUnfinishedMessage uid msgID)"
  "silent (handleExistingTrackedMessage uid msgID)" "silent (track_new a tr msgID fromUID toUID op body)"
  "silent (TrackMessage a tr msgID fromUID toUID op body)" "silent (route_start e msgID)"
proof -
  have e: "silent (ensureUserMessageIndex uid msgID)" for uid msgID by (intro quiet)
  show h: "silent (handleTrackedStatus uid msgID data)" for uid data
    unfolding handleTrackedStatus_def by (intro quiet_bind quiet_basic quiet_cases e)
  show al: "silent (allowExistingUnfinishedMessage uid msgID)" for uid
    unfolding allowExistingUnfinishedMessage_def by (intro quiet_bind quiet_basic quiet_cases h)
  show ex: "silent (handleExistingTrackedMessage uid msgID)" for uid
    unfolding handleExistingTrackedMessage_def by (intro quiet_bind quiet_basic quiet_cases h)
  have i: "silent (add_to_index uid msgID sq)" for uid sq
    unfolding add_to_index_def by (intro quiet_bind quiet_basic quiet_cases)
  show t: "silent (track_new a tr msgID fromUID toUID op body)"
    unfolding track_new_def Let_def by (intro quiet_bind quiet_basic quiet_cases ex i)
  show "silent (TrackMessage a tr msgID fromUID toUID op body)"
    unfolding TrackMessage_def by (intro quiet_bind quiet_basic quiet_cases e al t)
  have r: "silent (e_recordState e msgID f tt reason tr)" "silent (BeginDeliveryAttempt (en_ack e) msgID)" for msgID f tt reason tr
    by (intro quiet)+
  show "silent (route_start e msgID)"
    unfolding route_start_def by (intro quiet_bind quiet_basic quiet_cases quiet_steps r)
qed

section \<open>Tracking errors\<close>

lemma route_rest_known:
  assumes "run_state (TrackMessage (en_ack e) tr msgID 0 toUID op body) w1 = (Some y, w2)"
  shows "\<exists>r. run_state (route_rest e tr toUID op body sq msgID token) w1 = (None, w2\<lparr>w_redis := r\<rparr>)"
proof -
  obtain w3 where u: "run_state (unlock_attempt msgID token) w2 = ((), w3)"
    by (cases "run_state (unlock_attempt msgID token) w2") simp
  then obtain r where "w3 = w2\<lparr>w_redis := r\<rparr>" using quietD(2) [OF quiet_steps(4)] by blast
  with assms u show ?thesis by (auto simp: route_rest_def route_attempt_def)
qed

text \<open>Property C17. The engine reports success for a message it could not track. When \<open>TrackMessage\<close> returns an error, a
  failed round trip to Redis included, \<open>RouteByUser\<close> returns no error, and nothing leaves the process: no push to a
  connection, no entry in the queue or the local spool.\<close>

theorem tracking_error_is_success:
  assumes start: "run_state (route_start e msgID0) w = (Inr (msgID, True, token), w1)"
    and track: "run_state (TrackMessage (en_ack e) tr msgID 0 toUID op body) w1 = (Some y, w2)"
  shows "\<exists>r. run_state (RouteByUser e tr msgID0 toUID op body sq) w = (None, w2\<lparr>w_redis := r\<rparr>)
    \<and> w_log w2 = w_log w"
proof -
  have "w_log w2 = w_log w"
    using quietD(1) [OF handler_silent(5) track] quietD(1) [OF handler_silent(6) start] by simp
  with route_rest_known [OF track] start show ?thesis by (auto simp: RouteByUser_parts)
qed

text \<open>For example, with the request for a sequence number lost, a new message vanishes: it is neither sent nor
  stored, and the caller is told that all is well.\<close>

definition lossy_world :: world where
  "lossy_world = empty_world\<lparr>w_redis := empty_redis\<lparr>rd_fates := [Answered, Answered, Request_lost]\<rparr>\<rparr>"

lemma lossy_track: "\<exists>y st. run_state (TrackMessage demo_conf [] ''m'' 0 7 9 [1]) lossy_world
    = (Some y, empty_world\<lparr>w_alloc := st\<rparr>)"
proof -
  let ?w = "\<lambda>fs. empty_world\<lparr>w_redis := empty_redis\<lparr>rd_fates := fs\<rparr>\<rparr>"
  have d: "run_state (is_duplicate ''m'') (?w [Answered, Answered, Request_lost]) = (False, ?w [Answered, Request_lost])"
    by (simp add: IsDuplicate_def Let_def GetMessageStatus_def rtrip_def str_or_empty_def empty_world_def empty_redis_def
        NewIdempotencyChecker_def)
  have e: "run_state (allowExistingUnfinishedMessage 7 ''m'') (?w [Answered, Request_lost]) = ((False, None), ?w [Request_lost])"
    by (simp add: allowExistingUnfinishedMessage_def GetMessageStatus_def rtrip_def empty_world_def empty_redis_def)
  have "allocateLocked NewSeqAllocator new_user_state = None" "us_reserving new_user_state = False"
    by (simp_all add: allocateLocked_def new_user_state_def exhausted_def)
  then have "\<exists>st. run_state (allocate NewSeqAllocator 7) (?w [Request_lost]) = (Inl (IOErr 0), empty_world\<lparr>w_alloc := st\<rparr>)"
    by (simp add: Allocate_def numeral_3_eq_3 reserveRange_def IncrUserSeqBy_def rtrip_sum_def rtrip_def empty_world_def
        empty_redis_def)
  then obtain st where "run_state (allocate NewSeqAllocator 7) (?w [Request_lost]) = (Inl (IOErr 0), empty_world\<lparr>w_alloc := st\<rparr>)"
    by blast
  then show ?thesis
    by (intro exI [of _ "Wrapped ''allocate seq'' (IOErr 0)"] exI [of _ st])
      (simp add: TrackMessage_def lossy_world_def d e track_new_def demo_conf_def del: run_is_duplicate run_allocate)
qed

theorem tracking_error_is_success_witness:
  "\<exists>w'. run_state (RouteByUser demo_engine [] ''m'' 7 9 [1] 0) lossy_world = (None, w') \<and> w_log w' = []"
proof -
  obtain y st where t: "run_state (TrackMessage demo_conf [] ''m'' 0 7 9 [1]) lossy_world
      = (Some y, empty_world\<lparr>w_alloc := st\<rparr>)" using lossy_track by blast
  have "en_ack demo_engine = demo_conf" "w_log (empty_world\<lparr>w_alloc := st\<rparr>) = []"
    by (simp_all add: demo_engine_def empty_world_def)
  with t have t': "run_state (TrackMessage (en_ack demo_engine) [] ''m'' 0 7 9 [1]) lossy_world
      = (Some y, empty_world\<lparr>w_alloc := st\<rparr>)" by simp
  from tracking_error_is_success [OF demo_start t', of 0] show ?thesis by (auto simp: empty_world_def)
qed

section \<open>Acknowledged messages\<close>

lemma HandleACK_marks:
  assumes "run_state (HandleACKWithDevice a tr uid msgID dev sess) w = (None, w1)"
  shows "w_seen w1 = MarkSeen (w_ord w) (w_now w) msgID (w_seen w)"
  using assms
  by (auto simp: HandleACKWithDevice_def mark_seen_def record_state_def Let_def split: prod.splits sum.splits if_splits option.splits)

text \<open>An acknowledged message is not sent again. After a client's acknowledgement was accepted, every attempt
  to route the message within the five minutes of the duplicate check sends nothing, whatever happened to Redis
  in between, as long as the shard of the message was not full.\<close>

theorem acked_not_resent:
  assumes ack: "run_state (HandleACKWithDevice a tr uid msgID dev sess) w = (None, w1)" and id: "msgID \<noteq> []"
    and shard: "length (w_seen w (shard_of (hashMsgID msgID))) < maxShardSize"
      "distinct (map fst (w_seen w (shard_of (hashMsgID msgID))))"
    and later: "w2 = w1\<lparr>w_redis := r, w_now := t\<rparr>" "t < w_now w + entryTTL"
  shows "w_log (snd (run_state (RouteByUser e tr2 msgID toUID op body sq) w2)) = w_log w2"
proof -
  obtain b w3 where st: "run_state (route_start e msgID) w2 = (b, w3)" by fastforce
  have "redis_only (route_start e msgID)"
    unfolding route_start_def using id by (auto intro!: quiet_bind quiet_basic quiet_cases quiet_steps)
  then obtain r3 where w3: "w3 = w2\<lparr>w_redis := r3\<rparr>" using quietD(2) st by blast
  have b: "b = Inr p \<Longrightarrow> fst p = msgID" for p
    using st id by (auto simp: route_start_def map_sum_def split: sum.splits prod.splits)
  have "run_state (is_duplicate msgID) w3 = (True, w3)"
    using marked_is_duplicate [of msgID "w_seen w" t "w_now w" True "w_ord w"] id shard later(2) HandleACK_marks [OF ack] by (simp add: w3 later(1))
  then have "\<exists>y w4. run_state (TrackMessage (en_ack e) tr2 msgID 0 toUID op body) w3 = (Some y, w4)"
    using id by (simp add: TrackMessage_def split_beta del: run_is_duplicate)
  then obtain y w4 where tm: "run_state (TrackMessage (en_ack e) tr2 msgID 0 toUID op body) w3 = (Some y, w4)" by blast
  have l: "w_log w3 = w_log w2" "w_log w4 = w_log w3" using quietD(1) [OF handler_silent(5) tm] by (simp_all add: w3)
  show ?thesis
  proof (cases b)
    case (Inr p)
    with b obtain acquired token where p: "p = (msgID, acquired, token)" by (metis prod.collapse)
    obtain r4 where "run_state (route_rest e tr2 toUID op body sq msgID token) w3 = (None, w4\<lparr>w_redis := r4\<rparr>)"
      using route_rest_known [OF tm] by blast
    then show ?thesis using st Inr p l by (cases acquired) (simp_all add: RouteByUser_parts)
  qed (use st l in \<open>simp add: RouteByUser_parts\<close>)
qed

theorem acked_not_resent_witness:
  "\<exists>w1. run_state (HandleACKWithDevice demo_conf [] 7 ''m'' [] []) empty_world = (None, w1)
    \<and> w_log (snd (run_state (RouteByUser demo_engine [] ''m'' 7 9 [1] 0) (w1\<lparr>w_redis := empty_redis, w_now := 1700000000000000001\<rparr>)))
      = w_log w1"
proof -
  have "fst (run_state (HandleACKWithDevice demo_conf [] 7 ''m'' [] []) empty_world) = None"
    by (simp add: HandleACKWithDevice_def demo_conf_def record_state_def GetMessageStatus_def UpdateMessageStatus_def
        RemoveFromOfflineQueue_def RecordDeviceACK_def Let_def mark_seen_def empty_world_def empty_redis_def hset_def
        zrem_def reap_def)
  then obtain w1 where a: "run_state (HandleACKWithDevice demo_conf [] 7 ''m'' [] []) empty_world = (None, w1)"
    by (metis prod.collapse)
  have "length (w_seen empty_world (shard_of (hashMsgID ''m''))) < maxShardSize"
    "distinct (map fst (w_seen empty_world (shard_of (hashMsgID ''m''))))"
    "(1700000000000000001 :: int) < w_now empty_world + entryTTL"
    by (simp_all add: empty_world_def NewIdempotencyChecker_def maxShardSize_def entryTTL_def)
  from acked_not_resent [OF a _ this(1,2) refl this(3), where r = empty_redis and e = demo_engine
      and ?tr2.0 = "[]" and toUID = 7 and op = 9 and body = "[1]" and sq = 0] a show ?thesis
    by simp
qed

section \<open>The cached route\<close>

text \<open>A route the process has seen itself is all the routing engine looks at: with calls and round trips that
  succeed, the message is pushed to that one connection, recorded as delivered and neither pushed to nor queued
  for the other devices of the user, whatever sessions Redis has.\<close>

theorem cached_route_only:
  assumes "en_onlineRouter e" "en_pusher e" "\<not> en_limiter e" "\<not> en_limiterV2 e" "en_attemptRec e = None" "en_stateRec e = None"
    and route: "fst (run_state (route_get toUID) w) = Some s"
    and fine: "rd_fates (w_redis w) = []" "w_replies w = []"
  shows "\<exists>w'. run_state (route_dispatch e msgID toUID op body sq) w = ((None, True), w')
    \<and> filter (carries op body \<circ> fst) (drop (length (w_log w)) (w_log w')) = [(Comet_PushMsg (ss_Server s) [ss_Key s] op body, None)]
    \<and> rd_hash (w_redis w') (keyMsgStatus msgID) ''status'' = Some MsgStatusDelivered
    \<and> rd_zset (w_redis w') = rd_zset (w_redis w)"
proof -
  obtain x o1 where g: "OnlineRouter_Get (w_now w) toUID (w_online w) = (x, o1)" by fastforce
  with route have x: "x = Some s" by (simp add: route_get_def)
  let ?push = "Comet_PushMsg (ss_Server s) [ss_Key s] op body"
  let ?hash = "\<lambda>r. hset (keyMsgStatus msgID) [(''status'', MsgStatusDelivered), (''updated_at'', FormatInt (now_ms w))] r"
  let ?w1 = "w\<lparr>w_online := o1, w_log := w_log w @ [(?push, None)], w_redis := ?hash (w_redis w),
      w_seen := MarkSeen (w_ord w) (w_now w) msgID (w_seen w)\<rparr>"
  have mark: "run_state (markDelivered msgID) (w\<lparr>w_online := o1, w_log := w_log w @ [(?push, None)]\<rparr>) = (None, ?w1)"
    using fine by (simp add: markDelivered_def numeral_3_eq_3 MarkDelivered_def UpdateMessageStatus_def mark_seen_def now_ms_def)
  have push: "run_state (directPush True [s] op body) (w\<lparr>w_online := o1\<rparr>)
      = (([], None), w\<lparr>w_online := o1, w_log := w_log w @ [(?push, None)]\<rparr>)"
    using fine(2) by (simp add: directPush_def)
  have "run_state (route_dispatch e msgID toUID op body sq) w = ((None, True),
      ?w1\<lparr>w_log := w_log w @ (?push, None) # (if en_dao e then [(Kafka_PublishACK msgID toUID ''pushed'' (ss_Server s) [] [], None)] else []),
          w_direct := w_direct w + 1\<rparr>)"
    using assms g x push mark fine
    by (simp add: route_dispatch_def route_limits_def route_cached_def route_get_def e_publishACK_def count_direct_def
        e_recordAttempt_def e_recordState_def record_state_def)
  then show ?thesis by (simp add: hset_def)
qed

definition two_devices :: world where
  "two_devices = empty_world\<lparr>w_online := OnlineRouter_Set 1700000000000000000 7 ''k1'' ''c1'' NewOnlineRouter,
     w_redis := hset (keyUserSessions 7) [(''s1'', ''phone:ios''), (''s2'', ''desk:mac'')] empty_redis\<rparr>"

theorem cached_route_only_witness:
  "rd_hash (w_redis two_devices) (keyUserSessions 7) ''s2'' = Some ''desk:mac''
   \<and> (\<exists>w'. run_state (route_dispatch demo_engine ''m'' 7 9 [1] 0) two_devices = ((None, True), w')
      \<and> filter (carries 9 [1] \<circ> fst) (w_log w') = [(Comet_PushMsg ''c1'' [''k1''] 9 [1], None)])"
proof -
  have "en_onlineRouter demo_engine" "en_pusher demo_engine" "\<not> en_limiter demo_engine" "\<not> en_limiterV2 demo_engine"
    "en_attemptRec demo_engine = None" "en_stateRec demo_engine = None"
    by (simp_all add: demo_engine_def)
  moreover have "rd_fates (w_redis two_devices) = []" "w_replies two_devices = []" "w_log two_devices = []"
    by (simp_all add: two_devices_def hset_def empty_world_def empty_redis_def)
  moreover have "fst (run_state (route_get 7) two_devices)
      = Some (route_session \<lparr>un_uid = 7, un_key = ''k1'', un_server = ''c1'', un_updatedAt = 1700000000000000000\<rparr>)"
    by (simp add: route_get_def OnlineRouter_Get_def two_devices_def OnlineRouter_Set_def empty_world_def Let_def
        onlineRouterTTL_def)
  ultimately have "\<exists>w'. run_state (route_dispatch demo_engine ''m'' 7 9 [1] 0) two_devices = ((None, True), w')
      \<and> filter (carries 9 [1] \<circ> fst) (w_log w') = [(Comet_PushMsg ''c1'' [''k1''] 9 [1], None)]"
    using cached_route_only [of demo_engine 7 two_devices _ "''m''" 9 "[1]" 0] by (fastforce simp: route_session_def)
  then show ?thesis by (simp add: two_devices_def hset_def)
qed

section \<open>The recorder of states\<close>

text \<open>With a recorder of states, the first thing the engine does with a new message is to write its state into the hash
  of the message. Tracking then takes the message for one it knows: nothing is stored of it, neither its body nor
  a number, and it never comes into the user's index.\<close>

lemma recorder_hides_message:
  assumes "en_stateRec e = Some True" "rd_fates (w_redis w) = []" "unknown msgID w" "msgID \<noteq> []"
    and "snd (run_state (e_recordState e msgID [] StateAccepted ''message accepted'' []) w) = w1"
  shows "\<exists>w2. run_state (TrackMessage a tr msgID fromUID toUID op body) w1 = (None, w2)
    \<and> rd_hash (w_redis w2) (keyMsgStatus msgID) ''body'' = None
    \<and> rd_zset (w_redis w2) = rd_zset (w_redis w)"
proof -
  let ?k = "keyMsgStatus msgID"
  let ?h = "[''state'' \<mapsto> StateAccepted, ''updated_at'' \<mapsto> FormatInt (now_ms w)]"
  have n: "rd_hash (w_redis w) ?k = (\<lambda>_. None)" using assms(3) by (simp add: unknown_def key_exists_def)
  have "w1 = w\<lparr>w_redis := w_redis w1\<rparr> \<and> rd_fates (w_redis w1) = [] \<and> rd_hash (w_redis w1) ?k = ?h
      \<and> rd_zset (w_redis w1) = rd_zset (w_redis w)"
    using assms(1,2,4) n by (auto simp: assms(5) [symmetric] e_recordState_def record_state_def RecordState_def Let_def hset_def
        expire_def rpush_def now_ms_def)
  then obtain r where w1: "w1 = w\<lparr>w_redis := r\<rparr>" and r: "rd_fates r = []" "rd_hash r ?k = ?h" "rd_zset r = rd_zset (w_redis w)"
    by metis
  have ne: "?h \<noteq> (\<lambda>_. None)" by (metis fun_upd_same option.distinct(1))
  have d: "run_state (is_duplicate msgID) w1 = (False, w1)"
    using assms(3,4) r by (simp add: w1 IsDuplicate_def unknown_def Let_def GetMessageStatus_def str_or_empty_def)
  have "run_state (TrackMessage a tr msgID fromUID toUID op body) w1 = (None, w1)"
    using assms(4) d r ne
    by (simp add: TrackMessage_def allowExistingUnfinishedMessage_def GetMessageStatus_def handleTrackedStatus_def
        ensureUserMessageIndex_def seq_of_def str_or_empty_def status_defs w1 del: run_is_duplicate)
  with r show ?thesis by (simp add: w1)
qed

end
