(* ===== verification/Sync.thy ===== *)
theory Sync
  imports Tracking Wire_Proto
begin

text \<open>
  Messages a user missed: \<open>internal/logic/service/sync.go\<close>. A client asks for pages of messages after the last
  number it has, or is sent the first page when it comes online. \<open>batch\<close> says whether the data access
  layer can read many statuses at once.
\<close>

section \<open>From a stored message to a body\<close>

definition bytes_of :: "string \<Rightarrow> byte list" where
  "bytes_of s = map (\<lambda>c. of_nat (of_char c)) s"

definition msgBodyFromStatus :: "string \<Rightarrow> int \<Rightarrow> hash \<Rightarrow> msg_body" where
  "msgBodyFromStatus msgID sq h = \<lparr>mb_MsgID = bytes_of msgID, mb_FromUID = word_of_int (scan_field h ''from_uid''),
     mb_ToUID = word_of_int (scan_field h ''to_uid''), mb_Timestamp = word_of_int (scan_field h ''created_at''),
     mb_Seq = word_of_int sq,
     mb_Content = (case h ''body'' of None \<Rightarrow> [] | Some v \<Rightarrow> (case b64_decode v of None \<Rightarrow> [] | Some c \<Rightarrow> c))\<rparr>"

fun status_each :: "string list \<Rightarrow> (gerr + hash list) act" where
  "status_each [] = ret (Inr [])"
| "status_each (m # ms) = do {
     x \<leftarrow> redis_do (\<lambda>w. GetMessageStatus m);
     case x of
       Inl e \<Rightarrow> ret (Inl e)
     | Inr h \<Rightarrow> do { y \<leftarrow> status_each ms; ret (map_sum id (Cons h) y) }
   }"

definition batchGetMessageStatus :: "bool \<Rightarrow> string list \<Rightarrow> (gerr + hash list) act" where
  "batchGetMessageStatus batch msgIDs =
     (if msgIDs = [] then ret (Inr [])
      else if batch then redis_do (\<lambda>w. BatchGetMessageStatus msgIDs)
      else status_each msgIDs)"

text \<open>The bodies of a page and the number it comes to.\<close>

fun buildMessages :: "int \<Rightarrow> int \<Rightarrow> (string \<times> hash) list \<Rightarrow> (msg_body list \<times> int) act" where
  "buildMessages uid sq [] = ret ([], sq)"
| "buildMessages uid sq ((m, h) # ps) =
     (if h = (\<lambda>_. None) \<or> seq_of h \<le> 0 then buildMessages uid sq ps
      else
        let sq1 = (if seq_of h > sq then seq_of h else sq)
        in if str_or_empty (h ''status'') = MsgStatusAcked then do {
             x \<leftarrow> redis_do (\<lambda>w. RemoveFromOfflineQueue uid m);
             buildMessages uid sq1 ps
           } else do {
             (ms, sq2) \<leftarrow> buildMessages uid sq1 ps;
             ret (msgBodyFromStatus m (seq_of h) h # ms, sq2)
           })"

definition buildMessagesFromStatuses :: "int \<Rightarrow> int \<Rightarrow> string list \<Rightarrow> hash list \<Rightarrow> (msg_body list \<times> int) act" where
  "buildMessagesFromStatuses uid lastSeq msgIDs statuses = buildMessages uid lastSeq (zip msgIDs statuses)"

section \<open>Pages\<close>

definition page_limit :: "int \<Rightarrow> int" where
  "page_limit limit = (if limit \<le> 0 \<or> limit > 200 then 100 else limit)"

definition value_or_0 :: "gerr + int \<Rightarrow> int" where
  "value_or_0 x = (case x of Inl _ \<Rightarrow> 0 | Inr v \<Rightarrow> v)"

definition page_reply :: "bool \<Rightarrow> int \<Rightarrow> int \<Rightarrow> int \<Rightarrow> string list \<Rightarrow> int \<Rightarrow> (gerr + sync_reply) act" where
  "page_reply batch uid lastSeq serverMaxSeq msgIDs limit = do {
     st \<leftarrow> batchGetMessageStatus batch msgIDs;
     case st of
       Inl e \<Rightarrow> ret (Inl e)
     | Inr statuses \<Rightarrow> do {
         (ms, cur) \<leftarrow> buildMessagesFromStatuses uid lastSeq msgIDs statuses;
         ret (Inr \<lparr>sr_CurrentSeq = word_of_int cur, sr_ServerMaxSeq = word_of_int serverMaxSeq,
                sr_HasMore = (cur < serverMaxSeq \<and> int (length msgIDs) \<ge> limit), sr_Messages = ms\<rparr>)
       }
   }"

definition GetOfflineMessages :: "bool \<Rightarrow> int \<Rightarrow> int \<Rightarrow> int \<Rightarrow> (gerr + sync_reply) act" where
  "GetOfflineMessages batch uid lastSeq limit0 = do {
     let limit = page_limit limit0;
     x \<leftarrow> redis_do (\<lambda>w. GetUserMessagesAfterSeq uid lastSeq limit);
     case x of
       Inl e \<Rightarrow> ret (Inl (Wrapped ''get user messages'' e))
     | Inr msgIDs \<Rightarrow> do {
         m \<leftarrow> redis_do (\<lambda>w. GetUserMaxSeq uid);
         page_reply batch uid lastSeq (value_or_0 m) msgIDs limit
       }
   }"

definition buildSyncReply :: "bool \<Rightarrow> int \<Rightarrow> string \<Rightarrow> string list \<Rightarrow> int \<Rightarrow> (gerr + sync_reply) act" where
  "buildSyncReply batch uid deviceID msgIDs limit = do {
     c \<leftarrow> redis_do (\<lambda>w. GetDeviceCursor uid deviceID);
     m \<leftarrow> redis_do (\<lambda>w. GetUserMaxSeq uid);
     page_reply batch uid (value_or_0 c) (value_or_0 m) msgIDs limit
   }"

definition GetOfflineMessagesByDevice :: "bool \<Rightarrow> int \<Rightarrow> string \<Rightarrow> int \<Rightarrow> (gerr + sync_reply) act" where
  "GetOfflineMessagesByDevice batch uid deviceID limit0 = do {
     let limit = page_limit limit0;
     x \<leftarrow> redis_do (\<lambda>w. GetOfflineMessagesByDeviceCursor uid deviceID limit);
     case x of Inl e \<Rightarrow> ret (Inl e) | Inr msgIDs \<Rightarrow> buildSyncReply batch uid deviceID msgIDs limit
   }"

section \<open>Coming online\<close>

definition syncOffline :: "bool \<Rightarrow> bool \<Rightarrow> int \<Rightarrow> string \<Rightarrow> int \<Rightarrow> gerr option act" where
  "syncOffline batch pusher uid deviceID lastSeq = do {
     m \<leftarrow> redis_do (\<lambda>w. GetUserMaxSeq uid);
     case m of Inl e \<Rightarrow> ret (Some (Wrapped ''get user max seq'' e))
     | Inr serverMaxSeq \<Rightarrow> do {
     x \<leftarrow> redis_do (\<lambda>w. GetUserMessagesAfterSeq uid lastSeq 100);
     case x of Inl e \<Rightarrow> ret (Some (Wrapped ''get user messages'' e))
     | Inr msgIDs \<Rightarrow> if msgIDs = [] then ret None else do {
     ss \<leftarrow> sm_GetSessions uid;
     case ss of Inl _ \<Rightarrow> ret None
     | Inr sessions \<Rightarrow> if sessions = [] then ret None else do {
     st \<leftarrow> batchGetMessageStatus batch msgIDs;
     case st of Inl e \<Rightarrow> ret (Some (Wrapped ''batch get message status'' e))
     | Inr statuses \<Rightarrow> do {
     (ms, cur) \<leftarrow> buildMessagesFromStatuses uid lastSeq msgIDs statuses;
     if ms = [] then ret None
     else
       case MarshalSyncReply \<lparr>sr_CurrentSeq = word_of_int cur, sr_ServerMaxSeq = word_of_int serverMaxSeq,
              sr_HasMore = (cur < serverMaxSeq), sr_Messages = ms\<rparr> of
         Inl e \<Rightarrow> ret (Some (Wrapped ''marshal sync reply'' e))
       | Inr bs \<Rightarrow> do {
           (failed, err) \<leftarrow> directPush pusher sessions OpSyncReply bs;
           if err \<noteq> None then ret None
           else if deviceID \<noteq> [] \<and> cur > lastSeq then do {
             a \<leftarrow> redis_do (\<lambda>w. AdvanceDeviceCursor uid deviceID cur);
             ret None
           } else ret None
         }
     }}}}}"

definition OnUserOnlineWithDevice :: "bool \<Rightarrow> bool \<Rightarrow> int \<Rightarrow> string \<Rightarrow> int \<Rightarrow> gerr option act" where
  "OnUserOnlineWithDevice batch pusher uid deviceID lastSeq = do {
     c \<leftarrow> redis_do (\<lambda>w. GetDeviceCursor uid deviceID);
     let cursorSeq = value_or_0 c;
     syncOffline batch pusher uid deviceID (if cursorSeq > lastSeq then cursorSeq else lastSeq)
   }"

definition OnUserOnline :: "bool \<Rightarrow> bool \<Rightarrow> int \<Rightarrow> int \<Rightarrow> gerr option act" where
  "OnUserOnline batch pusher uid lastSeq = OnUserOnlineWithDevice batch pusher uid [] lastSeq"

section \<open>Pages of a consistent index\<close>

definition hash_of :: "redis \<Rightarrow> string \<Rightarrow> hash" where
  "hash_of r m = rd_hash r (keyMsgStatus m)"

definition acked :: "redis \<Rightarrow> string \<Rightarrow> bool" where
  "acked r m \<longleftrightarrow> hash_of r m ''status'' = Some MsgStatusAcked"

text \<open>An index entry is live when the hash of its message is there and has its number.\<close>

definition live :: "redis \<Rightarrow> int \<times> string \<Rightarrow> bool" where
  "live r p \<longleftrightarrow> 0 < fst p \<and> fst p < 2 ^ 63 \<and> hash_of r (snd p) ''seq'' = Some (FormatInt (fst p))"

lemma live_hash:
  assumes "live r (s, m)"
  shows "hash_of r m \<noteq> (\<lambda>_. None)" "seq_of (hash_of r m) = s" "0 < s"
proof -
  have "hash_of r m ''seq'' = Some (FormatInt s)" "0 < s" "s < 2 ^ 63" using assms by (simp_all add: live_def)
  then show "hash_of r m \<noteq> (\<lambda>_. None)" "seq_of (hash_of r m) = s" "0 < s"
    by (auto simp: seq_of_def ParseInt_FormatInt)
qed

text \<open>What a page leaves as it is.\<close>

definition page_same :: "int \<Rightarrow> redis \<Rightarrow> redis \<Rightarrow> bool" where
  "page_same uid r r' \<longleftrightarrow> rd_hash r' = rd_hash r \<and> rd_str r' = rd_str r \<and> rd_fates r' = []
     \<and> (\<forall>k. k \<noteq> keyOfflineQueue uid \<longrightarrow> rd_zset r' k = rd_zset r k)"

lemma page_same_trans: "page_same uid r r' \<Longrightarrow> page_same uid r' r'' \<Longrightarrow> page_same uid r r''"
  by (simp add: page_same_def)

lemma page_same_zrem: "rd_fates r = [] \<Longrightarrow> page_same uid r (zrem (keyOfflineQueue uid) m r)"
  by (simp add: page_same_def zrem_def reap_def)

definition body_of :: "redis \<Rightarrow> int \<times> string \<Rightarrow> msg_body" where
  "body_of r p = msgBodyFromStatus (snd p) (fst p) (hash_of r (snd p))"

definition bodies :: "redis \<Rightarrow> (int \<times> string) list \<Rightarrow> msg_body list" where
  "bodies r page = map (body_of r) (filter (\<lambda>p. \<not> acked r (snd p)) page)"

lemma bodies_same: "rd_hash r' = rd_hash r \<Longrightarrow> bodies r' page = bodies r page"
  by (simp add: bodies_def body_of_def[abs_def] acked_def hash_of_def)

lemma bodies_Cons:
  "bodies r (p # page) = (if acked r (snd p) then bodies r page else body_of r p # bodies r page)"
  by (simp add: bodies_def)

lemma bodies_append: "bodies r (xs @ ys) = bodies r xs @ bodies r ys"
  by (simp add: bodies_def)

lemma acked_status: "str_or_empty (hash_of r m ''status'') = MsgStatusAcked \<longleftrightarrow> acked r m"
  by (cases "hash_of r m ''status''") (auto simp: acked_def str_or_empty_def MsgStatusAcked_def)

lemma build_page:
  assumes "rd_fates (w_redis w) = []" "\<forall>p \<in> set page. live (w_redis w) p" "sorted_wrt (<) (sq # map fst page)"
  shows "\<exists>r. run_state (buildMessages uid sq (map (\<lambda>p. (snd p, hash_of (w_redis w) (snd p))) page)) w
      = ((bodies (w_redis w) page, last (sq # map fst page)), w\<lparr>w_redis := r\<rparr>) \<and> page_same uid (w_redis w) r"
  using assms
proof (induction page arbitrary: sq w)
  case Nil
  then show ?case by (auto simp: bodies_def page_same_def intro!: exI [of _ "w_redis w"])
next
  case (Cons p page)
  obtain s m where p: "p = (s, m)" by (cases p)
  let ?h = "hash_of (w_redis w) m"
  have l: "?h \<noteq> (\<lambda>_. None)" "seq_of ?h = s" "0 < s" using Cons.prems(2) live_hash [of "w_redis w" s m] by (simp_all add: p)
  have s: "sq < s" "sorted_wrt (<) (s # map fst page)" using Cons.prems(3) by (simp_all add: p)
  show ?case
  proof (cases "acked (w_redis w) m")
    case True
    let ?r = "zrem (keyOfflineQueue uid) m (w_redis w)"
    let ?w = "w\<lparr>w_redis := ?r\<rparr>"
    have ps: "page_same uid (w_redis w) ?r" using Cons.prems(1) by (rule page_same_zrem)
    then have h: "rd_hash ?r = rd_hash (w_redis w)" "rd_fates ?r = []" by (simp_all add: page_same_def)
    then have "\<forall>p \<in> set page. live (w_redis ?w) p" using Cons.prems(2) by (simp add: live_def hash_of_def)
    from Cons.IH [OF _ this s(2)] h obtain r where
      r: "run_state (buildMessages uid s (map (\<lambda>p. (snd p, hash_of ?r (snd p))) page)) ?w
        = ((bodies ?r page, last (s # map fst page)), ?w\<lparr>w_redis := r\<rparr>)" "page_same uid ?r r" by auto
    have e: "hash_of ?r = hash_of (w_redis w)" by (simp add: hash_of_def [abs_def] h)
    have "run_state (redis_do (\<lambda>w. RemoveFromOfflineQueue uid m)) w = (Inr (), ?w)"
      using Cons.prems(1) by (simp add: RemoveFromOfflineQueue_def)
    with True l s(1) r(1) page_same_trans [OF ps r(2)] show ?thesis
      by (intro exI [of _ r]) (simp add: p acked_status e bodies_same [OF h(1)] bodies_Cons del: run_redis_do)
  next
    case False
    have lv: "\<forall>p \<in> set page. live (w_redis w) p" using Cons.prems(2) by simp
    from Cons.IH [OF Cons.prems(1) lv s(2)] obtain r where
      "run_state (buildMessages uid s (map (\<lambda>p. (snd p, hash_of (w_redis w) (snd p))) page)) w
        = ((bodies (w_redis w) page, last (s # map fst page)), w\<lparr>w_redis := r\<rparr>)" "page_same uid (w_redis w) r" by blast
    with False l s(1) show ?thesis by (intro exI [of _ r]) (simp add: p acked_status bodies_Cons body_of_def)
  qed
qed

lemma status_each_fine:
  "rd_fates (w_redis w) = [] \<Longrightarrow> run_state (status_each ms) w = (Inr (map (hash_of (w_redis w)) ms), w)"
  by (induction ms) (simp_all add: GetMessageStatus_def hash_of_def)

lemma batch_fine:
  "rd_fates (w_redis w) = [] \<Longrightarrow> run_state (batchGetMessageStatus batch ms) w = (Inr (map (hash_of (w_redis w)) ms), w)"
  by (simp add: batchGetMessageStatus_def status_each_fine BatchGetMessageStatus_def hash_of_def)

text \<open>The part of the index a client with a given number has not seen.\<close>

definition unseen :: "(int \<times> string) list \<Rightarrow> int \<Rightarrow> (int \<times> string) list" where
  "unseen z lastSeq = filter (\<lambda>p. lastSeq < fst p) z"

lemma last_or: "last (a # map f xs) = a \<or> (\<exists>p \<in> set xs. last (a # map f xs) = f p)"
  by (cases xs rule: rev_exhaust) auto

lemma unseen_sorted: "sorted_wrt (<) (map fst z) \<Longrightarrow> sorted_wrt (<) (lastSeq # map fst (unseen z lastSeq))"
  by (induction z) (auto simp: unseen_def)

lemma unseen_above: "(\<And>p. p \<in> set z \<Longrightarrow> fst p \<le> mx) \<Longrightarrow> \<not> c < mx \<Longrightarrow> unseen z c = []"
  by (force simp: unseen_def filter_empty_conv)

lemma unseen_next:
  assumes "sorted_wrt (<) (map fst z)"
  shows "unseen z (last (lastSeq # map fst (take n (unseen z lastSeq)))) = drop n (unseen z lastSeq)"
proof -
  let ?q = "unseen z lastSeq" and ?c = "last (lastSeq # map fst (take n (unseen z lastSeq)))"
  have s: "sorted_wrt (<) (lastSeq # map fst (take n ?q) @ map fst (drop n ?q))"
    using unseen_sorted [OF assms, of lastSeq] by (simp flip: map_append)
  have c: "lastSeq \<le> ?c" "\<forall>p \<in> set (take n ?q). fst p \<le> ?c" "\<forall>p \<in> set (drop n ?q). ?c < fst p"
    using s by (cases "take n ?q" rule: rev_exhaust; force simp: sorted_wrt_append)+
  have "unseen z ?c = unseen ?q ?c"
    using c(1) by (auto simp: unseen_def intro!: filter_cong)
  also have "\<dots> = unseen (take n ?q @ drop n ?q) ?c" by simp
  also have "\<dots> = drop n ?q"
    using c(2,3) unfolding unseen_def filter_append by (subst filter_False; force simp: filter_id_conv)
  finally show ?thesis .
qed

text \<open>An index all of whose entries are live, in order, and not above the user's counter.\<close>

definition index_live :: "int \<Rightarrow> int \<Rightarrow> redis \<Rightarrow> bool" where
  "index_live uid mx r \<longleftrightarrow> (let z = rd_zset r (keyUserMsgs uid)
     in sorted_wrt (<) (map fst z) \<and> (\<forall>p \<in> set z. live r p \<and> fst p \<le> mx))
     \<and> rd_str r (keyUserSeq uid) = Some (FormatInt mx) \<and> 0 \<le> mx \<and> mx < 2 ^ 63"

lemma index_live_same:
  assumes "page_same uid r r'" "index_live uid mx r"
  shows "index_live uid mx r'" "rd_zset r' (keyUserMsgs uid) = rd_zset r (keyUserMsgs uid)"
proof -
  have k: "keyUserMsgs uid \<noteq> keyOfflineQueue uid" by (simp add: keyUserMsgs_def keyOfflineQueue_def)
  then show z: "rd_zset r' (keyUserMsgs uid) = rd_zset r (keyUserMsgs uid)" using assms(1) by (simp add: page_same_def)
  show "index_live uid mx r'"
    using assms unfolding index_live_def z Let_def by (simp add: page_same_def live_def hash_of_def)
qed

lemma page_limit_range: "1 \<le> page_limit limit \<and> page_limit limit \<le> 200"
  by (simp add: page_limit_def)

lemma page_run:
  assumes "rd_fates (w_redis w) = []" "index_live uid mx (w_redis w)"
    and page_def: "page = take (nat (page_limit limit)) (unseen (rd_zset (w_redis w) (keyUserMsgs uid)) lastSeq)"
  shows "\<exists>r. run_state (GetOfflineMessages batch uid lastSeq limit) w
      = (Inr \<lparr>sr_CurrentSeq = word_of_int (last (lastSeq # map fst page)), sr_ServerMaxSeq = word_of_int mx,
           sr_HasMore = (last (lastSeq # map fst page) < mx \<and> page_limit limit \<le> int (length page)),
           sr_Messages = bodies (w_redis w) page\<rparr>, w\<lparr>w_redis := r\<rparr>)
      \<and> page_same uid (w_redis w) r"
proof -
  let ?z = "rd_zset (w_redis w) (keyUserMsgs uid)"
  have z: "sorted_wrt (<) (map fst ?z)" "\<forall>p \<in> set ?z. live (w_redis w) p"
    and mx: "rd_str (w_redis w) (keyUserSeq uid) = Some (FormatInt mx)" "0 \<le> mx" "mx < 2 ^ 63"
    using assms(2) by (simp_all add: index_live_def Let_def)
  have sub: "set page \<subseteq> set ?z" by (auto simp: page_def unseen_def dest: in_set_takeD)
  have "sorted_wrt (<) (lastSeq # map fst page)"
    using sorted_wrt_take [OF unseen_sorted [OF z(1), of lastSeq], of "Suc (nat (page_limit limit))"]
    by (simp add: page_def take_map)
  then obtain r where
    b: "run_state (buildMessages uid lastSeq (map (\<lambda>p. (snd p, hash_of (w_redis w) (snd p))) page)) w
      = ((bodies (w_redis w) page, last (lastSeq # map fst page)), w\<lparr>w_redis := r\<rparr>)" "page_same uid (w_redis w) r"
    using build_page [OF assms(1)] z(2) sub by blast
  have ids: "run_state (redis_do (\<lambda>w. GetUserMessagesAfterSeq uid lastSeq (page_limit limit))) w = (Inr (map snd page), w)"
    using assms(1) page_limit_range [of limit]
    by (simp add: GetUserMessagesAfterSeq_def zrange_after_def page_def unseen_def)
  have m: "run_state (redis_do (\<lambda>w. GetUserMaxSeq uid)) w = (Inr mx, w)"
    using assms(1) mx by (simp add: GetUserMaxSeq_def rtrip_sum_def ParseInt_FormatInt)
  have zip: "zip (map snd page) (map (hash_of (w_redis w) \<circ> snd) page) = map (\<lambda>p. (snd p, hash_of (w_redis w) (snd p))) page"
    by (simp add: zip_map_map zip_same_conv_map)
  obtain cur where cur: "cur = last (lastSeq # map fst page)" by blast
  show ?thesis
    using b ids m unfolding cur [symmetric]
    by (intro exI [of _ r]) (simp add: GetOfflineMessages_def page_reply_def batch_fine [OF assms(1)]
        buildMessagesFromStatuses_def zip value_or_0_def Let_def del: run_redis_do)
qed

section \<open>Pulling pages\<close>

text \<open>What a client does with the replies: it asks again from the number it was given while there is more.\<close>

fun pull :: "bool \<Rightarrow> int \<Rightarrow> int \<Rightarrow> nat \<Rightarrow> int \<Rightarrow> (gerr + msg_body list) option act" where
  "pull batch uid limit 0 lastSeq = ret None"
| "pull batch uid limit (Suc n) lastSeq = do {
     x \<leftarrow> GetOfflineMessages batch uid lastSeq limit;
     case x of
       Inl e \<Rightarrow> ret (Some (Inl e))
     | Inr rep \<Rightarrow>
         if sr_HasMore rep then do {
           y \<leftarrow> pull batch uid limit n (sint (sr_CurrentSeq rep));
           ret (map_option (map_sum id ((@) (sr_Messages rep))) y)
         } else ret (Some (Inr (sr_Messages rep)))
   }"

lemma pull_more:
  assumes "run_state (GetOfflineMessages batch uid lastSeq limit) w = (Inr rep, w1)" "sr_HasMore rep"
    and "fst (run_state (pull batch uid limit n (sint (sr_CurrentSeq rep))) w1) = Some (Inr ms)"
  shows "fst (run_state (pull batch uid limit (Suc n) lastSeq) w) = Some (Inr (sr_Messages rep @ ms))"
  using assms by (simp add: split_beta)

lemma pull_done:
  assumes "run_state (GetOfflineMessages batch uid lastSeq limit) w = (Inr rep, w1)" "\<not> sr_HasMore rep"
  shows "fst (run_state (pull batch uid limit (Suc n) lastSeq) w) = Some (Inr (sr_Messages rep))"
  using assms by simp

lemma pull_all:
  assumes "rd_fates (w_redis w) = []" "index_live uid mx (w_redis w)" "- (2 ^ 63) \<le> lastSeq" "lastSeq < 2 ^ 63"
    "length (unseen (rd_zset (w_redis w) (keyUserMsgs uid)) lastSeq) < n"
  shows "fst (run_state (pull batch uid limit n lastSeq) w)
    = Some (Inr (bodies (w_redis w) (unseen (rd_zset (w_redis w) (keyUserMsgs uid)) lastSeq)))"
  using assms
proof (induction n arbitrary: w lastSeq)
  case (Suc n)
  let ?z = "rd_zset (w_redis w) (keyUserMsgs uid)" and ?L = "nat (page_limit limit)"
  let ?rest = "unseen ?z lastSeq"
  let ?page = "take ?L ?rest" and ?c = "last (lastSeq # map fst (take ?L ?rest))"
  have z: "sorted_wrt (<) (map fst ?z)" and zs: "\<And>p. p \<in> set ?z \<Longrightarrow> live (w_redis w) p \<and> fst p \<le> mx"
    using Suc.prems(2) by (simp_all add: index_live_def Let_def)
  obtain r rep where g: "run_state (GetOfflineMessages batch uid lastSeq limit) w = (Inr rep, w\<lparr>w_redis := r\<rparr>)"
    and ps: "page_same uid (w_redis w) r" and rep: "rep = \<lparr>sr_CurrentSeq = word_of_int ?c, sr_ServerMaxSeq = word_of_int mx,
           sr_HasMore = (?c < mx \<and> page_limit limit \<le> int (length ?page)), sr_Messages = bodies (w_redis w) ?page\<rparr>"
    using page_run [OF Suc.prems(1,2) refl, of batch lastSeq limit] by blast
  have rcur: "sr_CurrentSeq rep = word_of_int ?c"
    and rmore: "sr_HasMore rep \<longleftrightarrow> ?c < mx \<and> page_limit limit \<le> int (length ?page)"
    and rmsgs: "sr_Messages rep = bodies (w_redis w) ?page"
    unfolding rep by (rule sync_reply.select_convs)+
  have nxt: "unseen ?z ?c = drop ?L ?rest" by (rule unseen_next [OF z])
  have all: "bodies (w_redis w) ?rest = bodies (w_redis w) ?page @ bodies (w_redis w) (drop ?L ?rest)"
    by (simp flip: bodies_append)
  have c: "- (2 ^ 63) \<le> ?c" "?c < 2 ^ 63"
  proof -
    have "set ?page \<subseteq> set ?z" by (auto simp: unseen_def dest: in_set_takeD)
    then have "?c = lastSeq \<or> (\<exists>p \<in> set ?z. ?c = fst p)" using last_or [of lastSeq fst ?page] by blast
    with Suc.prems(3,4) zs show "- (2 ^ 63) \<le> ?c" "?c < 2 ^ 63" by (fastforce simp: live_def)+
  qed
  then have sc: "sint (word_of_int ?c :: i64) = ?c" by (simp add: signed_of_int signed_take_bit_int_eq_self)
  show ?case
  proof (cases "?c < mx \<and> page_limit limit \<le> int (length ?page)")
    case True
    have "length (drop ?L ?rest) < n" using Suc.prems(5) True page_limit_range [of limit] by auto
    then have len: "length (unseen (rd_zset r (keyUserMsgs uid)) ?c) < n"
      unfolding index_live_same(2) [OF ps Suc.prems(2)] nxt .
    have rw: "w_redis (w\<lparr>w_redis := r\<rparr>) = r" by simp
    have "rd_hash r = rd_hash (w_redis w)" using ps by (simp add: page_same_def)
    then have hb: "bodies r xs = bodies (w_redis w) xs" for xs by (rule bodies_same)
    have "rd_fates r = []" using ps by (simp add: page_same_def)
    from Suc.IH [of "w\<lparr>w_redis := r\<rparr>" ?c, unfolded rw, OF this index_live_same(1) [OF ps Suc.prems(2)] c len]
    have "fst (run_state (pull batch uid limit n ?c) (w\<lparr>w_redis := r\<rparr>)) = Some (Inr (bodies r (drop ?L ?rest)))"
      unfolding index_live_same(2) [OF ps Suc.prems(2)] nxt .
    then have "fst (run_state (pull batch uid limit n (sint (sr_CurrentSeq rep))) (w\<lparr>w_redis := r\<rparr>))
        = Some (Inr (bodies (w_redis w) (drop ?L ?rest)))"
      unfolding rcur sc hb .
    from pull_more [OF g _ this] True show ?thesis unfolding all rmore rmsgs by fast
  next
    case False
    have "drop ?L ?rest = []"
    proof (cases "?c < mx")
      case True
      then show ?thesis using False by simp
    next
      case False
      have "unseen ?z ?c = []" by (rule unseen_above [OF _ False]) (use zs in blast)
      then show ?thesis unfolding nxt .
    qed
    then have all': "bodies (w_redis w) ?rest = bodies (w_redis w) ?page" using all by (simp add: bodies_def)
    show ?thesis using pull_done [OF g] False unfolding all' rmore rmsgs by blast
  qed
qed simp

text \<open>A client that pulls pages gets every message it missed. When each entry of the user's index still has
  its message, the client asks again and again from the number it was given while there is more, comes to an end after
  as many pages as there are entries at most, and then has the bodies of all messages after its last number that
  are not acknowledged, in order and each once, whatever page size it asks for.\<close>

theorem pull_complete:
  assumes "rd_fates (w_redis w) = []" "index_live uid mx (w_redis w)" "- (2 ^ 63) \<le> lastSeq" "lastSeq < 2 ^ 63"
  shows "\<exists>n. fst (run_state (pull batch uid limit n lastSeq) w)
      = Some (Inr (map (body_of (w_redis w)) (filter (\<lambda>p. \<not> acked (w_redis w) (snd p) \<and> lastSeq < fst p)
          (rd_zset (w_redis w) (keyUserMsgs uid)))))
    \<and> n \<le> Suc (length (rd_zset (w_redis w) (keyUserMsgs uid)))"
proof (intro exI conjI)
  let ?z = "rd_zset (w_redis w) (keyUserMsgs uid)"
  have "length (unseen ?z lastSeq) < Suc (length ?z)" by (simp add: unseen_def less_Suc_eq_le)
  from pull_all [OF assms this, of batch limit] show "fst (run_state (pull batch uid limit (Suc (length ?z)) lastSeq) w)
      = Some (Inr (map (body_of (w_redis w)) (filter (\<lambda>p. \<not> acked (w_redis w) (snd p) \<and> lastSeq < fst p) ?z)))"
    by (simp add: bodies_def unseen_def conj_commute del: pull.simps)
qed simp

text \<open>Two messages, the first acknowledged, in an index of their own.\<close>

definition two_messages :: redis where
  "two_messages = empty_redis\<lparr>rd_zset := (\<lambda>_. [])(keyUserMsgs 7 := [(1, ''a''), (2, ''b'')]),
     rd_hash := (\<lambda>_ _. None)(keyMsgStatus ''a'' := [''seq'' \<mapsto> FormatInt 1, ''status'' \<mapsto> MsgStatusAcked],
       keyMsgStatus ''b'' := [''seq'' \<mapsto> FormatInt 2, ''status'' \<mapsto> MsgStatusPending, ''body'' \<mapsto> b64_encode [42]]),
     rd_str := (\<lambda>_. None)(keyUserSeq 7 \<mapsto> FormatInt 100)\<rparr>"

theorem pull_complete_witness:
  "\<exists>n \<le> 3. \<exists>b. fst (run_state (pull True 7 1 n 0) (empty_world\<lparr>w_redis := two_messages\<rparr>)) = Some (Inr [b])
    \<and> mb_Content b = [42] \<and> mb_Seq b = 2"
proof -
  let ?w = "empty_world\<lparr>w_redis := two_messages\<rparr>"
  have z: "rd_zset (w_redis ?w) (keyUserMsgs 7) = [(1, ''a''), (2, ''b'')]" "rd_fates (w_redis ?w) = []"
    by (simp_all add: two_messages_def empty_redis_def)
  have k: "keyMsgStatus ''a'' \<noteq> keyMsgStatus ''b''" by (simp add: keyMsgStatus_def)
  have h: "hash_of two_messages ''a'' = [''seq'' \<mapsto> FormatInt 1, ''status'' \<mapsto> MsgStatusAcked]"
    "hash_of two_messages ''b'' = [''seq'' \<mapsto> FormatInt 2, ''status'' \<mapsto> MsgStatusPending, ''body'' \<mapsto> b64_encode [42]]"
    using k by (simp_all add: two_messages_def hash_of_def)
  have a: "acked two_messages ''a''" "\<not> acked two_messages ''b''" by (simp_all add: acked_def h status_defs)
  have i: "index_live 7 100 (w_redis ?w)"
    unfolding index_live_def Let_def z by (simp add: live_def h) (simp add: two_messages_def)
  have "mb_Content (body_of two_messages (2, ''b'')) = [42] \<and> mb_Seq (body_of two_messages (2, ''b'')) = 2"
    by (simp add: body_of_def msgBodyFromStatus_def h b64_roundtrip del: b64_encode.simps)
  moreover have "\<exists>n. fst (run_state (pull True 7 1 n 0) ?w) = Some (Inr [body_of two_messages (2, ''b'')]) \<and> n \<le> 3"
    using pull_complete [OF z(2) i, of 0 True 1] unfolding z by (simp add: a numeral_3_eq_3 del: pull.simps)
  ultimately show ?thesis by blast
qed

text \<open>Property C18. A full page of messages that have expired stops a client for ever. The status of a message lives for a week, its
  entry in the index for a month and longer; a page of entries without a status does not move the number of the
  reply, which still says that there is more. The client that asks again from that number gets the same empty
  page, however often it asks, and none of the messages behind it.\<close>

theorem sync_stuck:
  fixes limit :: int
  assumes fine: "rd_fates (w_redis w) = []"
    and full: "page_limit limit \<le> int (length (unseen (rd_zset (w_redis w) (keyUserMsgs uid)) lastSeq))"
    and expired: "\<forall>p \<in> set (take (nat (page_limit limit)) (unseen (rd_zset (w_redis w) (keyUserMsgs uid)) lastSeq)).
        hash_of (w_redis w) (snd p) = (\<lambda>_. None)"
    and mx: "rd_str (w_redis w) (keyUserSeq uid) = Some (FormatInt mx)" "lastSeq < mx" "mx < 2 ^ 63" "- (2 ^ 63) \<le> lastSeq"
  shows "\<exists>rep. run_state (GetOfflineMessages batch uid lastSeq limit) w = (Inr rep, w)
      \<and> sr_Messages rep = [] \<and> sint (sr_CurrentSeq rep) = lastSeq \<and> sr_HasMore rep
      \<and> (\<forall>n. fst (run_state (pull batch uid limit n lastSeq) w) = None)"
proof -
  let ?page = "take (nat (page_limit limit)) (unseen (rd_zset (w_redis w) (keyUserMsgs uid)) lastSeq)"
  have b: "run_state (buildMessages uid lastSeq (map (\<lambda>p. (snd p, hash_of (w_redis w) (snd p))) ps)) w = (([], lastSeq), w)"
    if "\<forall>p \<in> set ps. hash_of (w_redis w) (snd p) = (\<lambda>_. None)" for ps
    using that by (induction ps) simp_all
  have ids: "run_state (redis_do (\<lambda>w. GetUserMessagesAfterSeq uid lastSeq (page_limit limit))) w = (Inr (map snd ?page), w)"
    using fine page_limit_range [of limit]
    by (simp add: GetUserMessagesAfterSeq_def zrange_after_def unseen_def)
  have m: "run_state (redis_do (\<lambda>w. GetUserMaxSeq uid)) w = (Inr mx, w)"
    using fine mx by (simp add: GetUserMaxSeq_def rtrip_sum_def ParseInt_FormatInt)
  have zip: "zip (map snd ps) (map (hash_of (w_redis w) \<circ> snd) ps) = map (\<lambda>p. (snd p, hash_of (w_redis w) (snd p))) ps"
    for ps :: "(int \<times> string) list" by (simp add: zip_map_map zip_same_conv_map)
  have len: "page_limit limit \<le> int (length ?page)" using full by simp
  obtain ps where ps: "ps = ?page" by blast
  have g: "run_state (GetOfflineMessages batch uid lastSeq limit) w
      = (Inr \<lparr>sr_CurrentSeq = word_of_int lastSeq, sr_ServerMaxSeq = word_of_int mx, sr_HasMore = True, sr_Messages = []\<rparr>, w)"
    using b [OF expired] ids m len mx(2) unfolding ps [symmetric]
    by (simp add: GetOfflineMessages_def page_reply_def batch_fine [OF fine] buildMessagesFromStatuses_def zip
        value_or_0_def Let_def del: run_redis_do)
  have sc: "sint (word_of_int lastSeq :: i64) = lastSeq" using mx by (simp add: signed_of_int signed_take_bit_int_eq_self)
  have "fst (run_state (pull batch uid limit n lastSeq) w) = None" for n
    by (induction n) (simp_all add: g sc split_beta)
  then show ?thesis using g sc by simp
qed

definition expired_first :: redis where
  "expired_first = two_messages\<lparr>rd_hash := (rd_hash two_messages)(keyMsgStatus ''a'' := (\<lambda>_. None))\<rparr>"

theorem sync_stuck_witness:
  "fst (run_state (pull True 7 1 1000 0) (empty_world\<lparr>w_redis := expired_first\<rparr>)) = None
   \<and> hash_of expired_first ''b'' ''body'' = Some (b64_encode [42])"
proof -
  let ?w = "empty_world\<lparr>w_redis := expired_first\<rparr>"
  have k: "keyMsgStatus ''a'' \<noteq> keyMsgStatus ''b''" by (simp add: keyMsgStatus_def)
  have z: "rd_zset (w_redis ?w) (keyUserMsgs 7) = [(1, ''a''), (2, ''b'')]" "rd_fates (w_redis ?w) = []"
    by (simp_all add: expired_first_def two_messages_def empty_redis_def)
  have u: "unseen (rd_zset (w_redis ?w) (keyUserMsgs 7)) 0 = [(1, ''a''), (2, ''b'')]" "nat (page_limit 1) = 1" "page_limit 1 = 1"
    unfolding z by (simp_all add: unseen_def page_limit_def)
  have "hash_of expired_first ''a'' = (\<lambda>_. None)" "hash_of expired_first ''b'' ''body'' = Some (b64_encode [42])"
    using k by (simp_all add: expired_first_def two_messages_def hash_of_def)
  moreover have "rd_str (w_redis ?w) (keyUserSeq 7) = Some (FormatInt 100)" by (simp add: expired_first_def two_messages_def)
  ultimately show ?thesis
    using sync_stuck [OF z(2), of 1 7 0 100 True] unfolding u by (auto simp: simp del: pull.simps b64_encode.simps)
qed

section \<open>From tracking to the client\<close>

lemma scan_int_FormatInt:
  assumes "- (2 ^ 63) \<le> n" "n < 2 ^ 63"
  shows "scan_int (FormatInt n) = n"
proof -
  obtain c cs where f: "FormatInt n = c # cs" using FormatInt_nonempty by (cases "FormatInt n") auto
  have c: "is_digit c \<or> c = CHR ''-''" using FormatInt_chars [of c n] by (simp add: f)
  have tail: "takeWhile is_digit cs = cs" if "c = CHR ''-''"
  proof -
    have "n < 0"
      using that f decimal_digits [of c "nat n"] is_digit_signs by (auto simp: FormatInt_def split: if_splits)
    then have "cs = decimal (nat (- n))" using f by (simp add: FormatInt_def)
    then show ?thesis using decimal_digits by (simp add: takeWhile_eq_all_conv)
  qed
  have all: "takeWhile is_digit (c # cs) = c # cs" if "is_digit c"
  proof -
    have "c \<noteq> CHR ''-''" using is_digit_signs that by blast
    then have "FormatInt n = decimal (nat n)" using f by (auto simp: FormatInt_def split: if_splits)
    then show ?thesis using decimal_digits f by (metis takeWhile_eq_all_conv)
  qed
  have p: "ParseInt (c # cs) 64 = Inr n" using ParseInt_FormatInt [of 64 n] assms by (simp add: f)
  have sp: "c \<noteq> CHR '' ''" using c by (auto simp: is_digit_def)
  show ?thesis
  proof (cases "is_digit c")
    case True
    then have "c \<noteq> CHR ''-''" "c \<noteq> CHR ''+''" using is_digit_signs by auto
    then show ?thesis using True all [OF True] p sp by (simp add: f scan_int_def Let_def del: takeWhile_eq_all_conv)
  next
    case False
    with c have "c = CHR ''-''" by simp
    with tail p sp show ?thesis by (simp add: f scan_int_def Let_def del: takeWhile_eq_all_conv)
  qed
qed

text \<open>What was tracked is what the client gets. A message that \<open>TrackMessage\<close> stored, and that nobody acknowledged,
  is among the messages a client with a lower number pulls, with its id, users, number and every byte of its body,
  although the body went through base64 and the numbers through text.\<close>

theorem tracked_message_syncs:
  assumes st: "stored msgID fromUID toUID op body sq (w_redis w)"
    and fine: "rd_fates (w_redis w) = []" and idx: "index_live toUID mx (w_redis w)"
    and ranges: "- (2 ^ 63) \<le> lastSeq" "lastSeq < sq" "- (2 ^ 63) \<le> fromUID" "fromUID < 2 ^ 63"
      "- (2 ^ 63) \<le> toUID" "toUID < 2 ^ 63"
  shows "\<exists>n ms. fst (run_state (pull batch toUID limit n lastSeq) w) = Some (Inr ms)
    \<and> (\<exists>b \<in> set ms. mb_MsgID b = bytes_of msgID \<and> mb_FromUID b = word_of_int fromUID \<and> mb_ToUID b = word_of_int toUID
        \<and> mb_Seq b = word_of_int sq \<and> mb_Content b = body)"
proof -
  let ?z = "rd_zset (w_redis w) (keyUserMsgs toUID)"
  have mem: "(sq, msgID) \<in> set ?z" using st by (simp add: stored_def)
  then have "sq < 2 ^ 63" using idx by (force simp: index_live_def live_def Let_def)
  have h: "hash_of (w_redis w) msgID ''status'' = Some MsgStatusPending"
    "hash_of (w_redis w) msgID ''from_uid'' = Some (FormatInt fromUID)"
    "hash_of (w_redis w) msgID ''to_uid'' = Some (FormatInt toUID)"
    using st by (simp_all add: stored_def Let_def hash_of_def)
  obtain v where v: "hash_of (w_redis w) msgID ''body'' = Some v" "b64_decode v = Some body"
    using st by (auto simp: stored_def Let_def hash_of_def)
  have "(sq, msgID) \<in> set (filter (\<lambda>p. \<not> acked (w_redis w) (snd p)) (unseen ?z lastSeq))"
    using mem ranges(2) h(1) by (simp add: unseen_def acked_def status_defs)
  then have "body_of (w_redis w) (sq, msgID) \<in> set (bodies (w_redis w) (unseen ?z lastSeq))"
    unfolding bodies_def by (auto simp del: set_filter)
  moreover have "fst (run_state (pull batch toUID limit (Suc (length ?z)) lastSeq) w)
      = Some (Inr (bodies (w_redis w) (unseen ?z lastSeq)))"
    by (rule pull_all [OF fine idx]) (use ranges \<open>sq < 2 ^ 63\<close> in \<open>auto simp: unseen_def less_Suc_eq_le\<close>)
  moreover have "body_of (w_redis w) (sq, msgID) = \<lparr>mb_MsgID = bytes_of msgID, mb_FromUID = word_of_int fromUID,
      mb_ToUID = word_of_int toUID, mb_Timestamp = word_of_int (scan_field (hash_of (w_redis w) msgID) ''created_at''),
      mb_Seq = word_of_int sq, mb_Content = body\<rparr>"
    using ranges by (simp add: body_of_def msgBodyFromStatus_def scan_field_def h v scan_int_FormatInt)
  ultimately show ?thesis by (intro exI conjI) (assumption, rule bexI, auto)
qed

definition tracked_redis :: redis where
  "tracked_redis = expire (keyUserMsgs 7) month_ms (zadd (keyUserMsgs 7) 1 ''m'' (hset (keyMsgStatus ''m'') [(''seq'', FormatInt 1)]
     (expire (keyMsgStatus ''m'') week_ms (hset (keyMsgStatus ''m'') (track_fields 5 3 7 9 [1, 2] 1 [])
        (empty_redis\<lparr>rd_str := (\<lambda>_. None)(keyUserSeq 7 \<mapsto> FormatInt 100)\<rparr>)))))"

theorem tracked_message_syncs_witness:
  "\<exists>n ms. fst (run_state (pull False 7 50 n 0) (empty_world\<lparr>w_redis := tracked_redis\<rparr>)) = Some (Inr ms)
    \<and> (\<exists>b \<in> set ms. mb_MsgID b = bytes_of ''m'' \<and> mb_FromUID b = 3 \<and> mb_ToUID b = 7 \<and> mb_Seq b = 1 \<and> mb_Content b = [1, 2])"
proof -
  let ?w = "empty_world\<lparr>w_redis := tracked_redis\<rparr>"
  have st: "stored ''m'' 3 7 9 [1, 2] 1 (w_redis ?w)" using track_fields_stored [OF refl] by (simp add: tracked_redis_def)
  have f: "rd_fates (w_redis ?w) = []" "rd_str (w_redis ?w) (keyUserSeq 7) = Some (FormatInt 100)"
    "rd_zset (w_redis ?w) (keyUserMsgs 7) = [(1, ''m'')]"
    by (simp_all add: tracked_redis_def expire_def zadd_def hset_def empty_redis_def)
  have "hash_of (w_redis ?w) ''m'' ''seq'' = Some (FormatInt 1)" using st by (simp add: stored_def Let_def hash_of_def)
  then have "index_live 7 100 (w_redis ?w)" unfolding index_live_def Let_def f by (simp add: live_def)
  from tracked_message_syncs [OF st f(1) this, of 0 False 50] show ?thesis by simp
qed

end
