(* ===== verification/Comet_Pool.thy ===== *)
theory Comet_Pool
  imports Wire_Proto "HOL-Library.AList" "HOL-Library.Multiset"
begin

text \<open>
  The connections of a worker to the Comet nodes, \<open>internal/worker/comet_pool.go\<close>. A node has a fixed number
  of goroutines, each with a channel for pushes and one for rooms, and a channel for broadcasts that they
  share. A push goes to the channels in turn and is refused when its channel is full; the goroutines take
  requests from their channels and call the node. What the node answers is only logged, so it is not part
  of the state. The dialling of a node is a parameter.
\<close>

section \<open>A node\<close>

record push_req =
  pq_Keys :: "string list"
  pq_Op :: i32
  pq_Proto :: proto

record room_req =
  rq_RoomID :: string
  rq_Proto :: proto

record bcast_req =
  bq_Op :: i32
  bq_Proto :: proto
  bq_Speed :: i32

datatype comet_call = Call_Push push_req | Call_Room room_req | Call_Broadcast bcast_req

text \<open>\<open>cc_calls\<close> is the history: which goroutine called the node with what.\<close>

record comet_client =
  cc_serverID :: string
  cc_pushChan :: "push_req list list"
  cc_roomChan :: "room_req list list"
  cc_broadcastChan :: "bcast_req list"
  cc_chan :: nat
  cc_size :: nat
  cc_pushChanNum :: i64
  cc_roomChanNum :: i64
  cc_calls :: "(nat \<times> comet_call) list"

definition newCometClient :: "string \<Rightarrow> nat \<Rightarrow> nat \<Rightarrow> comet_client" where
  "newCometClient hostname routineSize routineChan =
     \<lparr>cc_serverID = hostname, cc_pushChan = replicate routineSize [], cc_roomChan = replicate routineSize [],
      cc_broadcastChan = [], cc_chan = routineChan, cc_size = routineSize, cc_pushChanNum = 0, cc_roomChanNum = 0,
      cc_calls = []\<rparr>"

text \<open>The channel that is next in turn.\<close>

definition next_chan :: "i64 \<Rightarrow> 'a list list \<Rightarrow> nat exec" where
  "next_chan num chans =
     (if chans = [] then Panic ''integer divide by zero'' else Ret (unat (num mod of_nat (length chans))))"

definition cc_push :: "push_req \<Rightarrow> comet_client \<Rightarrow> (gerr option \<times> comet_client) exec" where
  "cc_push arg c =
     (let num = cc_pushChanNum c + 1; c1 = c\<lparr>cc_pushChanNum := num\<rparr>
      in exec_bind (next_chan num (cc_pushChan c)) (\<lambda>idx.
           if length (cc_pushChan c ! idx) < cc_chan c
           then Ret (None, c1\<lparr>cc_pushChan := (cc_pushChan c)[idx := cc_pushChan c ! idx @ [arg]]\<rparr>)
           else Ret (Some (Text (''push chan full server:'' @ cc_serverID c)), c1)))"

definition cc_broadcastRoom :: "room_req \<Rightarrow> comet_client \<Rightarrow> (gerr option \<times> comet_client) exec" where
  "cc_broadcastRoom arg c =
     (let num = cc_roomChanNum c + 1; c1 = c\<lparr>cc_roomChanNum := num\<rparr>
      in exec_bind (next_chan num (cc_roomChan c)) (\<lambda>idx.
           if length (cc_roomChan c ! idx) < cc_chan c
           then Ret (None, c1\<lparr>cc_roomChan := (cc_roomChan c)[idx := cc_roomChan c ! idx @ [arg]]\<rparr>)
           else Ret (Some (Text (''room chan full server:'' @ cc_serverID c)), c1)))"

definition cc_broadcast :: "bcast_req \<Rightarrow> comet_client \<Rightarrow> gerr option \<times> comet_client" where
  "cc_broadcast arg c =
     (if length (cc_broadcastChan c) < cc_size c
      then (None, c\<lparr>cc_broadcastChan := cc_broadcastChan c @ [arg]\<rparr>)
      else (Some (Text (''broadcast chan full server:'' @ cc_serverID c)), c))"

text \<open>One round of goroutine \<open>i\<close>: which of its channels the \<open>select\<close> takes is open; nothing happens on an
  empty one.\<close>

datatype pick = Pick_broadcast | Pick_room | Pick_push

definition called :: "nat \<Rightarrow> comet_call \<Rightarrow> comet_client \<Rightarrow> comet_client" where
  "called i x c = c\<lparr>cc_calls := cc_calls c @ [(i, x)]\<rparr>"

fun process :: "nat \<Rightarrow> pick \<Rightarrow> comet_client \<Rightarrow> comet_client" where
  "process i Pick_broadcast c =
     (case cc_broadcastChan c of [] \<Rightarrow> c | arg # q \<Rightarrow> called i (Call_Broadcast arg) (c\<lparr>cc_broadcastChan := q\<rparr>))"
| "process i Pick_room c =
     (case cc_roomChan c ! i of [] \<Rightarrow> c | arg # q \<Rightarrow> called i (Call_Room arg) (c\<lparr>cc_roomChan := (cc_roomChan c)[i := q]\<rparr>))"
| "process i Pick_push c =
     (case cc_pushChan c ! i of [] \<Rightarrow> c | arg # q \<Rightarrow> called i (Call_Push arg) (c\<lparr>cc_pushChan := (cc_pushChan c)[i := q]\<rparr>))"

section \<open>The pool\<close>

record comet_pool =
  cp_servers :: "(string \<times> comet_client) list"
  cp_routineSize :: nat
  cp_routineChan :: nat

definition NewCometClientPool :: comet_pool where
  "NewCometClientPool = \<lparr>cp_servers = [], cp_routineSize = 0, cp_routineChan = 0\<rparr>"

definition cp_SetConfig :: "nat \<Rightarrow> nat \<Rightarrow> comet_pool \<Rightarrow> comet_pool" where
  "cp_SetConfig size1 chan p = p\<lparr>cp_routineSize := size1, cp_routineChan := chan\<rparr>"

text \<open>\<open>dial host addr\<close> is the error of dialling, if any. What a node that has gone still had in its channels
  goes with it.\<close>

definition cp_Update :: "(string \<Rightarrow> string \<Rightarrow> gerr option) \<Rightarrow> (string \<times> string) list \<Rightarrow> comet_pool \<Rightarrow> comet_pool" where
  "cp_Update dial addrs p =
     (let s1 = foldl (\<lambda>s (hostname, addr).
                 if map_of s hostname \<noteq> None then s
                 else case dial hostname addr of
                        Some e \<Rightarrow> s
                      | None \<Rightarrow> s @ [(hostname, newCometClient hostname (cp_routineSize p) (cp_routineChan p))])
               (cp_servers p) addrs
      in p\<lparr>cp_servers := filter (\<lambda>(hostname, c). map_of addrs hostname \<noteq> None) s1\<rparr>)"

definition cp_Push :: "string \<Rightarrow> push_req \<Rightarrow> comet_pool \<Rightarrow> (gerr option \<times> comet_pool) exec" where
  "cp_Push serverID arg p =
     (case map_of (cp_servers p) serverID of
        None \<Rightarrow> Ret (Some (Text (''comet server '' @ serverID @ '' not found'')), p)
      | Some c \<Rightarrow> exec_bind (cc_push arg c) (\<lambda>(e, c1).
          Ret (e, p\<lparr>cp_servers := AList.update serverID c1 (cp_servers p)\<rparr>)))"

text \<open>A refusal by one node is only logged.\<close>

fun each_client :: "(comet_client \<Rightarrow> (gerr option \<times> comet_client) exec) \<Rightarrow> (string \<times> comet_client) list \<Rightarrow>
    (string \<times> comet_client) list exec" where
  "each_client f [] = Ret []"
| "each_client f ((hostname, c) # s) = exec_bind (f c) (\<lambda>(_, c1).
     exec_bind (each_client f s) (\<lambda>s1. Ret ((hostname, c1) # s1)))"

definition cp_BroadcastRoom :: "room_req \<Rightarrow> comet_pool \<Rightarrow> (gerr option \<times> comet_pool) exec" where
  "cp_BroadcastRoom arg p =
     exec_bind (each_client (cc_broadcastRoom arg) (cp_servers p)) (\<lambda>s. Ret (None, p\<lparr>cp_servers := s\<rparr>))"

definition cp_Broadcast :: "bcast_req \<Rightarrow> comet_pool \<Rightarrow> (gerr option \<times> comet_pool) exec" where
  "cp_Broadcast arg p =
     exec_bind (each_client (\<lambda>c. Ret (cc_broadcast arg c)) (cp_servers p)) (\<lambda>s. Ret (None, p\<lparr>cp_servers := s\<rparr>))"

definition cp_Len :: "comet_pool \<Rightarrow> nat" where
  "cp_Len p = length (cp_servers p)"

definition cp_Close :: "comet_pool \<Rightarrow> comet_pool" where
  "cp_Close p = p\<lparr>cp_servers := []\<rparr>"

section \<open>Requests are neither lost nor doubled\<close>

definition client_ok :: "comet_client \<Rightarrow> bool" where
  "client_ok c \<longleftrightarrow> 0 < cc_size c \<and> cc_size c < 2 ^ 64 \<and> length (cc_pushChan c) = cc_size c \<and> length (cc_roomChan c) = cc_size c"

text \<open>What waits in the channels and what was called, as one collection.\<close>

definition in_hand :: "comet_client \<Rightarrow> comet_call multiset" where
  "in_hand c = image_mset Call_Push (mset (concat (cc_pushChan c))) + image_mset Call_Room (mset (concat (cc_roomChan c)))
     + image_mset Call_Broadcast (mset (cc_broadcastChan c)) + mset (map snd (cc_calls c))"

lemma client_ok_new: "0 < n \<Longrightarrow> n < 2 ^ 64 \<Longrightarrow> client_ok (newCometClient h n k)"
  by (simp add: client_ok_def newCometClient_def)

lemma in_hand_new [simp]: "in_hand (newCometClient h n k) = {#}"
  by (simp add: in_hand_def newCometClient_def)

lemma next_chan_in:
  assumes "0 < length chans" "length chans < 2 ^ 64"
  shows "\<exists>i < length chans. next_chan num chans = Ret i"
proof -
  have "unat (of_nat (length chans) :: i64) = length chans"
    using assms(2) by (simp add: unsigned_of_nat take_bit_nat_eq_self)
  then have "unat (num mod of_nat (length chans)) < length chans"
    using assms(1) by (simp add: unat_mod)
  then show ?thesis using assms(1) by (auto simp: next_chan_def)
qed

lemma mset_concat_set:
  assumes "i < length xs"
  shows "mset (concat (xs[i := ys])) + mset (xs ! i) = mset (concat xs) + mset ys"
  using assms by (induction xs arbitrary: i) (auto simp: nth_Cons split: nat.splits)

lemma mset_concat_snoc:
  assumes "i < length xs"
  shows "mset (concat (xs[i := xs ! i @ [y]])) = mset (concat xs) + {#y#}"
  using mset_concat_set [OF assms, of "xs ! i @ [y]"] by simp

lemma mset_concat_tl:
  assumes "i < length xs" "xs ! i = y # ys"
  shows "mset (concat xs) = mset (concat (xs[i := ys])) + {#y#}"
  using mset_concat_set [OF assms(1), of ys] assms(2) by simp

lemma cc_push_spec:
  assumes "client_ok c"
  shows "\<exists>e c'. cc_push a c = Ret (e, c') \<and> client_ok c'
    \<and> in_hand c' = in_hand c + (if e = None then {#Call_Push a#} else {#})"
proof -
  obtain i where "i < length (cc_pushChan c)" "next_chan (cc_pushChanNum c + 1) (cc_pushChan c) = Ret i"
    using next_chan_in assms unfolding client_ok_def by metis
  with assms show ?thesis
    by (auto simp: cc_push_def Let_def client_ok_def in_hand_def mset_concat_snoc simp del: mset_concat)
qed

lemma cc_broadcastRoom_spec:
  assumes "client_ok c"
  shows "\<exists>e c'. cc_broadcastRoom a c = Ret (e, c') \<and> client_ok c'
    \<and> in_hand c' = in_hand c + (if e = None then {#Call_Room a#} else {#})"
proof -
  obtain i where "i < length (cc_roomChan c)" "next_chan (cc_roomChanNum c + 1) (cc_roomChan c) = Ret i"
    using next_chan_in assms unfolding client_ok_def by metis
  with assms show ?thesis
    by (auto simp: cc_broadcastRoom_def Let_def client_ok_def in_hand_def mset_concat_snoc simp del: mset_concat)
qed

lemma cc_broadcast_spec:
  assumes "cc_broadcast a c = (e, c')"
  shows "in_hand c' = in_hand c + (if e = None then {#Call_Broadcast a#} else {#})" "client_ok c \<Longrightarrow> client_ok c'"
  using assms by (auto simp: cc_broadcast_def client_ok_def in_hand_def split: if_splits)

lemma process_spec:
  assumes "client_ok c" "i < cc_size c"
  shows "in_hand (process i pk c) = in_hand c" "client_ok (process i pk c)"
proof -
  note m = mset_concat_tl [of i "cc_pushChan c"] mset_concat_tl [of i "cc_roomChan c"]
  show "client_ok (process i pk c)"
    using assms by (cases pk) (auto simp: client_ok_def called_def split: list.splits)
  show "in_hand (process i pk c) = in_hand c"
    using assms m by (cases pk) (auto simp: client_ok_def called_def in_hand_def simp del: mset_concat split: list.splits)
qed

text \<open>A history of one node: requests and rounds of its goroutines. The requests it accepted are returned.\<close>

datatype client_op = Do_push push_req | Do_room room_req | Do_broadcast bcast_req | Do_round nat pick

fun client_run :: "client_op list \<Rightarrow> comet_client \<Rightarrow> (comet_call list \<times> comet_client) exec" where
  "client_run [] c = Ret ([], c)"
| "client_run (Do_push a # os) c = exec_bind (cc_push a c) (\<lambda>(e, c1).
     exec_bind (client_run os c1) (\<lambda>(xs, c2). Ret (if e = None then Call_Push a # xs else xs, c2)))"
| "client_run (Do_room a # os) c = exec_bind (cc_broadcastRoom a c) (\<lambda>(e, c1).
     exec_bind (client_run os c1) (\<lambda>(xs, c2). Ret (if e = None then Call_Room a # xs else xs, c2)))"
| "client_run (Do_broadcast a # os) c = (let (e, c1) = cc_broadcast a c
     in exec_bind (client_run os c1) (\<lambda>(xs, c2). Ret (if e = None then Call_Broadcast a # xs else xs, c2)))"
| "client_run (Do_round i pk # os) c = client_run os (process (i mod cc_size c) pk c)"

lemma client_run_conserves:
  assumes "client_ok c"
  shows "\<exists>xs c'. client_run os c = Ret (xs, c') \<and> client_ok c' \<and> in_hand c' = in_hand c + mset xs"
  using assms
proof (induction os c rule: client_run.induct)
  case (2 a os c)
  obtain e c1 where s: "cc_push a c = Ret (e, c1)" "client_ok c1"
      "in_hand c1 = in_hand c + (if e = None then {#Call_Push a#} else {#})"
    using cc_push_spec [OF 2(2)] by blast
  with 2(1) [OF s(2)] show ?case by auto
next
  case (3 a os c)
  obtain e c1 where s: "cc_broadcastRoom a c = Ret (e, c1)" "client_ok c1"
      "in_hand c1 = in_hand c + (if e = None then {#Call_Room a#} else {#})"
    using cc_broadcastRoom_spec [OF 3(2)] by blast
  with 3(1) [OF s(2)] show ?case by auto
next
  case (4 a os c)
  obtain e c1 where s: "cc_broadcast a c = (e, c1)" by fastforce
  note t = cc_broadcast_spec [OF s] 
  have "\<exists>xs c'. client_run os c1 = Ret (xs, c') \<and> client_ok c' \<and> in_hand c' = in_hand c1 + mset xs"
    by (rule 4(1) [OF s [symmetric] refl t(2) [OF 4(2)]])
  then obtain xs c' where "client_run os c1 = Ret (xs, c')" "client_ok c'" "in_hand c' = in_hand c1 + mset xs" by blast
  with s t(1) show ?case by simp
next
  case (5 i pk os c)
  have "i mod cc_size c < cc_size c" using 5(2) by (simp add: client_ok_def)
  with 5 process_spec [OF 5(2) this] show ?case by simp
qed simp

text \<open>A node of the worker's pool neither loses nor doubles a request while it is connected. In any interleaving of
  requests and rounds of its goroutines no call panics, and what it was called with, together with what
  waits in its channels, is what it accepted.\<close>

theorem pool_conserves:
  assumes "0 < n" "n < 2 ^ 64"
  shows "\<exists>xs c. client_run os (newCometClient h n k) = Ret (xs, c)
    \<and> mset xs = mset (map snd (cc_calls c)) + image_mset Call_Push (mset (concat (cc_pushChan c)))
        + image_mset Call_Room (mset (concat (cc_roomChan c))) + image_mset Call_Broadcast (mset (cc_broadcastChan c))"
proof -
  obtain xs c where "client_run os (newCometClient h n k) = Ret (xs, c)" "in_hand c = {#} + mset xs"
    using client_run_conserves [OF client_ok_new [OF assms]] by (metis in_hand_new)
  then show ?thesis by (auto simp: in_hand_def ac_simps simp del: mset_concat)
qed

definition demo_push :: "string \<Rightarrow> push_req" where
  "demo_push k = \<lparr>pq_Keys = [k], pq_Op = 5, pq_Proto = \<lparr>Ver = 1, Op = OpRaw, Seq = 0, Body = None\<rparr>\<rparr>"

theorem pool_conserves_witness:
  "\<exists>xs c. client_run [Do_push (demo_push ''a''), Do_push (demo_push ''b''), Do_round 1 Pick_push] (newCometClient ''h'' 2 1) = Ret (xs, c)
    \<and> mset xs = mset (map snd (cc_calls c)) + image_mset Call_Push (mset (concat (cc_pushChan c)))
        + image_mset Call_Room (mset (concat (cc_roomChan c))) + image_mset Call_Broadcast (mset (cc_broadcastChan c))"
  by (rule pool_conserves) simp_all

end
