(* ===== verification/Room_Aggregator.thy ===== *)
theory Room_Aggregator
  imports Comet_Pool "HOL-Library.Sublist"
begin

text \<open>
  Room messages of a worker are collected and sent in batches, \<open>internal/worker/room_aggregator.go\<close> with
  the rooms of \<open>worker.go\<close> and the sends of \<open>dispatch.go\<close>. Every room has an aggregator: a bounded channel,
  a goroutine that collects what comes out of it, a timer that asks for a flush and one that ends an idle
  room. The goroutines, the timers and the callers interleave: a step of the system is one action of one of
  them. A goroutine that has an aggregator in hand keeps it, so aggregators are named by handles. Files of
  the write-ahead log are named by their room.
\<close>

section \<open>An aggregator\<close>

text \<open>What travels through the channel: a message, or \<open>roomReadyProto\<close>, which is known by its address.\<close>

datatype item = Item proto | Ready

datatype phase = Created | Looping | Ended

record aggregator =
  ag_id :: string
  ag_chan :: "item list"
  ag_cap :: nat
  ag_closed :: bool
  ag_phase :: phase
  ag_n :: nat
  ag_buf :: bwriter
  ag_last :: int
  ag_signal :: "int option"
  ag_firing :: nat
  ag_idle :: "int option"
  ag_wal :: bool

text \<open>Times are in nanoseconds.\<close>

record room_conf =
  rc_batch :: nat
  rc_signal :: int
  rc_idle :: int
  rc_wal :: bool

definition minute :: int where "minute = 60000000000"

definition idle_time :: "room_conf \<Rightarrow> int" where
  "idle_time cf = (if rc_idle cf = 0 then 15 * minute else rc_idle cf)"

definition signal_time :: "room_conf \<Rightarrow> int" where
  "signal_time cf = (if rc_signal cf = 0 then 1000000000 else rc_signal cf)"

definition NewRoomAggregator :: "string \<Rightarrow> nat \<Rightarrow> aggregator" where
  "NewRoomAggregator roomID batch = \<lparr>ag_id = roomID, ag_chan = [], ag_cap = batch * 2, ag_closed = False, ag_phase = Created,
     ag_n = 0, ag_buf = NewWriterSize (unat MaxBodySize), ag_last = 0, ag_signal = None, ag_firing = 0, ag_idle = None,
     ag_wal = False\<rparr>"

text \<open>A send that does not wait: into the channel while it has room, or, when it has no buffer, to the goroutine
  if that is waiting. To send on a closed channel is a panic.\<close>

definition try_send :: "bool \<Rightarrow> item \<Rightarrow> aggregator \<Rightarrow> (bool \<times> aggregator) exec" where
  "try_send waiting x a =
     (if ag_closed a then Panic ''send on closed channel''
      else if length (ag_chan a) < ag_cap a \<or> waiting \<and> ag_phase a = Looping \<and> ag_chan a = []
      then Ret (True, a\<lparr>ag_chan := ag_chan a @ [x]\<rparr>)
      else Ret (False, a))"

definition room_proto :: "i32 \<Rightarrow> byte list \<Rightarrow> proto" where
  "room_proto op msg = \<lparr>Ver = 1, Op = op, Seq = 0, Body = Some msg\<rparr>"

definition ag_Close :: "aggregator \<Rightarrow> aggregator" where
  "ag_Close a = a\<lparr>ag_closed := True\<rparr>"

section \<open>The rooms of a worker\<close>

text \<open>The map of rooms is \<open>None\<close> once the worker is closed. The last three fields are history: what was
  accepted, what was sent of it, and what was sent from old logs, each with the aggregator it went through.\<close>

record rooms =
  rs_pool :: comet_pool
  rs_rooms :: "(string \<Rightarrow> nat option) option"
  rs_aggs :: "aggregator list"
  rs_files :: "string \<Rightarrow> byte list option"
  rs_now :: int
  rs_acc :: "(nat \<times> proto) list"
  rs_out :: "(nat \<times> byte list) list"
  rs_replayed :: "(nat \<times> byte list) list"

abbreviation upd_agg :: "nat \<Rightarrow> (aggregator \<Rightarrow> aggregator) \<Rightarrow> rooms \<Rightarrow> rooms" where
  "upd_agg h f s \<equiv> s\<lparr>rs_aggs := (rs_aggs s)[h := f (rs_aggs s ! h)]\<rparr>"

text \<open>The body goes out as it is, to every node.\<close>

definition broadcastRoomRawBytes :: "string \<Rightarrow> byte list \<Rightarrow> rooms \<Rightarrow> rooms exec" where
  "broadcastRoomRawBytes roomID body s =
     exec_bind (cp_BroadcastRoom \<lparr>rq_RoomID = roomID, rq_Proto = \<lparr>Ver = 1, Op = OpRaw, Seq = 0, Body = Some body\<rparr>\<rparr> (rs_pool s))
       (\<lambda>(err, p). Ret (s\<lparr>rs_pool := p\<rparr>))"

definition getRoom :: "room_conf \<Rightarrow> string \<Rightarrow> rooms \<Rightarrow> (nat \<times> rooms) exec" where
  "getRoom cf roomID s =
     (case (case rs_rooms s of None \<Rightarrow> None | Some f \<Rightarrow> f roomID) of
        Some h \<Rightarrow> Ret (h, s)
      | None \<Rightarrow>
          (case rs_rooms s of
             None \<Rightarrow> Panic ''assignment to entry in nil map''
           | Some f \<Rightarrow> let h = length (rs_aggs s)
               in Ret (h, s\<lparr>rs_aggs := rs_aggs s @ [NewRoomAggregator roomID (rc_batch cf)], rs_rooms := Some (f(roomID \<mapsto> h))\<rparr>)))"

definition delRoom :: "string \<Rightarrow> rooms \<Rightarrow> rooms" where
  "delRoom roomID s =
     (case rs_rooms s of
        None \<Rightarrow> s
      | Some f \<Rightarrow> (case f roomID of
          None \<Rightarrow> s
        | Some h \<Rightarrow> (upd_agg h ag_Close s)\<lparr>rs_rooms := Some (f(roomID := None))\<rparr>))"

definition ra_Push :: "nat \<Rightarrow> i32 \<Rightarrow> byte list \<Rightarrow> bool \<Rightarrow> rooms \<Rightarrow> (gerr option \<times> rooms) exec" where
  "ra_Push h op msg waiting s =
     exec_bind (try_send waiting (Item (room_proto op msg)) (rs_aggs s ! h)) (\<lambda>(ok, a).
       if ok then Ret (None, (upd_agg h (\<lambda>_. a) s)\<lparr>rs_acc := rs_acc s @ [(h, room_proto op msg)]\<rparr>)
       else Ret (Some (Text (''room aggregator buffer full: room='' @ ag_id a)), s))"

section \<open>The write-ahead log\<close>

definition writeWAL :: "nat \<Rightarrow> byte list \<Rightarrow> rooms \<Rightarrow> rooms" where
  "writeWAL h data s =
     (let a = rs_aggs s ! h
      in if \<not> ag_wal a then s
         else s\<lparr>rs_files := (rs_files s)(ag_id a :=
                map_option (\<lambda>c. c @ put_be 4 (of_nat (length data) :: i32) @ data) (rs_files s (ag_id a)))\<rparr>)"

definition cleanWAL :: "nat \<Rightarrow> rooms \<Rightarrow> rooms" where
  "cleanWAL h s =
     (let a = rs_aggs s ! h
      in if \<not> ag_wal a then s else s\<lparr>rs_files := (rs_files s)(ag_id a := map_option (\<lambda>_. []) (rs_files s (ag_id a)))\<rparr>)"

definition replayWAL :: "nat \<Rightarrow> rooms \<Rightarrow> rooms exec" where
  "replayWAL h s =
     (let a = rs_aggs s ! h
      in case rs_files s (ag_id a) of
           None \<Rightarrow> Ret s
         | Some data \<Rightarrow>
             if data = [] then Ret s
             else exec_bind (broadcastRoomRawBytes (ag_id a) data s) (\<lambda>s1.
                    Ret (s1\<lparr>rs_replayed := rs_replayed s1 @ [(h, data)]\<rparr>)))"

section \<open>The goroutine\<close>

text \<open>Its beginning; \<open>opens\<close> says whether the log can be opened.\<close>

definition pushproc_start :: "room_conf \<Rightarrow> bool \<Rightarrow> nat \<Rightarrow> rooms \<Rightarrow> rooms exec" where
  "pushproc_start cf opens h s =
     exec_bind (if rc_wal cf then replayWAL h s else Ret s) (\<lambda>s1.
       let logged = (rc_wal cf \<and> opens);
           s2 = (if logged then s1\<lparr>rs_files := (rs_files s1)(ag_id (rs_aggs s1 ! h) \<mapsto> [])\<rparr> else s1)
       in Ret (upd_agg h (\<lambda>a. a\<lparr>ag_phase := Looping, ag_wal := logged, ag_signal := Some (rs_now s + signal_time cf),
            ag_idle := Some (rs_now s + idle_time cf)\<rparr>) s2))"

definition stop_loop :: "nat \<Rightarrow> rooms \<Rightarrow> rooms" where
  "stop_loop h s = upd_agg h (\<lambda>a. a\<lparr>ag_phase := Ended, ag_signal := None, ag_idle := None\<rparr>) s"

text \<open>A batch goes out between writing and clearing the log.\<close>

definition send_batch :: "nat \<Rightarrow> rooms \<Rightarrow> rooms exec" where
  "send_batch h s =
     (let a = rs_aggs s ! h; data = bw_Buffer (ag_buf a)
      in exec_bind (broadcastRoomRawBytes (ag_id a) data s) (\<lambda>s1. Ret (s1\<lparr>rs_out := rs_out s1 @ [(h, data)]\<rparr>)))"

definition flush_batch :: "room_conf \<Rightarrow> nat \<Rightarrow> rooms \<Rightarrow> rooms exec" where
  "flush_batch cf h s =
     exec_bind (send_batch h (writeWAL h (bw_Buffer (ag_buf (rs_aggs s ! h))) s)) (\<lambda>s1.
       Ret (upd_agg h (\<lambda>a. a\<lparr>ag_buf := NewWriterSize (bw_Size (ag_buf a)), ag_n := 0,
            ag_signal := Some (rs_now s + minute), ag_idle := Some (rs_now s + idle_time cf)\<rparr>) (cleanWAL h s1)))"

text \<open>What the goroutine does with what it received; \<open>None\<close> is what a closed channel gives.\<close>

definition handle_item :: "room_conf \<Rightarrow> nat \<Rightarrow> item option \<Rightarrow> rooms \<Rightarrow> rooms exec" where
  "handle_item cf h x s =
     (let a = rs_aggs s ! h; now = rs_now s
      in case x of
           None \<Rightarrow> Ret (stop_loop h (cleanWAL h s))
         | Some Ready \<Rightarrow> if ag_n a = 0 then Ret (stop_loop h (cleanWAL h s)) else flush_batch cf h s
         | Some (Item p) \<Rightarrow>
             exec_bind (WriteTo p (ag_buf a)) (\<lambda>buf.
               let a1 = a\<lparr>ag_buf := buf, ag_n := ag_n a + 1\<rparr>
               in if ag_n a1 = 1
                  then Ret (upd_agg h (\<lambda>_. a1\<lparr>ag_last := now, ag_signal := Some (now + signal_time cf),
                         ag_idle := Some (now + idle_time cf)\<rparr>) s)
                  else if ag_n a1 < rc_batch cf \<and> signal_time cf > now - ag_last a1
                  then Ret (upd_agg h (\<lambda>_. a1\<lparr>ag_idle := Some (now + idle_time cf)\<rparr>) s)
                  else flush_batch cf h (upd_agg h (\<lambda>_. a1) s)))"

definition receive :: "room_conf \<Rightarrow> nat \<Rightarrow> rooms \<Rightarrow> rooms exec" where
  "receive cf h s =
     (case ag_chan (rs_aggs s ! h) of
        [] \<Rightarrow> if ag_closed (rs_aggs s ! h) then handle_item cf h None s else Ret s
      | x # q \<Rightarrow> handle_item cf h (Some x) (upd_agg h (\<lambda>a. a\<lparr>ag_chan := q\<rparr>) s))"

definition idle_exit :: "nat \<Rightarrow> rooms \<Rightarrow> rooms exec" where
  "idle_exit h s =
     exec_bind (if 0 < ag_n (rs_aggs s ! h) then send_batch h s else Ret s) (\<lambda>s1.
       Ret (stop_loop h (delRoom (ag_id (rs_aggs s ! h)) (cleanWAL h s1))))"

section \<open>Steps\<close>

text \<open>An action that cannot happen leaves the state alone. The flush timer first starts its function, which
  then sends; a timer that was stopped or set anew meanwhile does not hold it back.\<close>

datatype action =
    Get string | Start nat bool | Push nat i32 "byte list" bool | Fire nat | Deliver nat bool
  | Receive nat | Idle nat | Clock int | Shut

fun act_on :: "room_conf \<Rightarrow> action \<Rightarrow> rooms \<Rightarrow> rooms exec" where
  "act_on cf (Get roomID) s = exec_bind (getRoom cf roomID s) (\<lambda>(h, s1). Ret s1)"
| "act_on cf (Start h opens) s =
     (if h < length (rs_aggs s) \<and> ag_phase (rs_aggs s ! h) = Created then pushproc_start cf opens h s else Ret s)"
| "act_on cf (Push h op msg waiting) s =
     (if h < length (rs_aggs s) then exec_bind (ra_Push h op msg waiting s) (\<lambda>(e, s1). Ret s1) else Ret s)"
| "act_on cf (Fire h) s =
     (if h < length (rs_aggs s) \<and> (\<exists>d. ag_signal (rs_aggs s ! h) = Some d \<and> d \<le> rs_now s)
      then Ret (upd_agg h (\<lambda>a. a\<lparr>ag_signal := None, ag_firing := ag_firing a + 1\<rparr>) s) else Ret s)"
| "act_on cf (Deliver h waiting) s =
     (if h < length (rs_aggs s) \<and> 0 < ag_firing (rs_aggs s ! h)
      then exec_bind (try_send waiting Ready ((rs_aggs s ! h)\<lparr>ag_firing := ag_firing (rs_aggs s ! h) - 1\<rparr>)) (\<lambda>(ok, a).
             Ret (upd_agg h (\<lambda>_. a) s))
      else Ret s)"
| "act_on cf (Receive h) s =
     (if h < length (rs_aggs s) \<and> ag_phase (rs_aggs s ! h) = Looping then receive cf h s else Ret s)"
| "act_on cf (Idle h) s =
     (if h < length (rs_aggs s) \<and> ag_phase (rs_aggs s ! h) = Looping \<and> (\<exists>d. ag_idle (rs_aggs s ! h) = Some d \<and> d \<le> rs_now s)
      then idle_exit h s else Ret s)"
| "act_on cf (Clock t) s = Ret (if rs_now s \<le> t then s\<lparr>rs_now := t\<rparr> else s)"
| "act_on cf Shut s = Ret (s\<lparr>rs_pool := cp_Close (rs_pool s), rs_aggs := map (\<lambda>(h, a).
       case rs_rooms s of None \<Rightarrow> a | Some f \<Rightarrow> if f (ag_id a) = Some h then ag_Close a else a) (enumerate 0 (rs_aggs s)),
       rs_rooms := None\<rparr>)"

definition no_rooms :: "comet_pool \<Rightarrow> (string \<Rightarrow> byte list option) \<Rightarrow> int \<Rightarrow> rooms" where
  "no_rooms p files now = \<lparr>rs_pool = p, rs_rooms = Some (\<lambda>_. None), rs_aggs = [], rs_files = files, rs_now = now,
     rs_acc = [], rs_out = [], rs_replayed = []\<rparr>"

inductive reaches :: "room_conf \<Rightarrow> rooms \<Rightarrow> rooms \<Rightarrow> bool" for cf where
  reaches_refl: "reaches cf s s"
| reaches_step: "reaches cf s t \<Longrightarrow> act_on cf l t = Ret u \<Longrightarrow> reaches cf s u"

text \<open>A run of given actions.\<close>

fun act_all :: "room_conf \<Rightarrow> action list \<Rightarrow> rooms \<Rightarrow> rooms exec" where
  "act_all cf [] s = Ret s"
| "act_all cf (l # ls) s = exec_bind (act_on cf l s) (act_all cf ls)"

lemma act_all_Nil [simp]: "act_all cf [] = Ret"
  by (rule ext) simp

lemma act_all_reaches: "reaches cf s t \<Longrightarrow> act_all cf ls t = Ret u \<Longrightarrow> reaches cf s u"
  by (induction ls arbitrary: t) (auto simp: exec_bind_eq_Ret_iff intro: reaches_step)

section \<open>What the pieces leave alone\<close>

lemma bcast_only: "broadcastRoomRawBytes r body s = Ret s1 \<Longrightarrow> \<exists>p. s1 = s\<lparr>rs_pool := p\<rparr>"
  by (auto simp: broadcastRoomRawBytes_def exec_bind_eq_Ret_iff)

lemma writeWAL_only: "\<exists>f. writeWAL h data s = s\<lparr>rs_files := f\<rparr>"
  by (cases s) (auto simp: writeWAL_def Let_def)

lemma cleanWAL_only: "\<exists>f. cleanWAL h s = s\<lparr>rs_files := f\<rparr>"
  by (cases s) (auto simp: cleanWAL_def Let_def)

lemma replayWAL_only: "replayWAL h s = Ret s1 \<Longrightarrow> \<exists>p r. s1 = s\<lparr>rs_pool := p, rs_replayed := r\<rparr>"
proof (cases s)
  case (fields p r a f n ac ou re)
  assume "replayWAL h s = Ret s1"
  then show ?thesis
    using fields by (auto simp: replayWAL_def Let_def exec_bind_eq_Ret_iff split: option.splits if_splits dest!: bcast_only)
qed

lemma send_batch_only:
  assumes "send_batch h s = Ret s1"
  shows "\<exists>p. s1 = s\<lparr>rs_pool := p, rs_out := rs_out s @ [(h, bw_Buffer (ag_buf (rs_aggs s ! h)))]\<rparr>"
  using assms by (auto simp: send_batch_def Let_def exec_bind_eq_Ret_iff dest!: bcast_only)

section \<open>Messages go out in order, each once\<close>

definition accepted_by :: "nat \<Rightarrow> rooms \<Rightarrow> proto list" where
  "accepted_by h s = map snd (filter (\<lambda>p. fst p = h) (rs_acc s))"

definition sent_by :: "nat \<Rightarrow> rooms \<Rightarrow> byte list" where
  "sent_by h s = concat (map snd (filter (\<lambda>p. fst p = h) (rs_out s)))"

fun item_bytes :: "item \<Rightarrow> byte list" where
  "item_bytes (Item p) = proto_frame p"
| "item_bytes Ready = []"

definition frames :: "proto list \<Rightarrow> byte list" where
  "frames ps = concat (map proto_frame ps)"

lemma frames_append [simp]: "frames [] = []" "frames (xs @ [p]) = frames xs @ proto_frame p"
  by (simp_all add: frames_def)

definition line_ok :: "nat \<Rightarrow> rooms \<Rightarrow> bool" where
  "line_ok h s \<longleftrightarrow> (let a = rs_aggs s ! h in bw_ok (ag_buf a)
     \<and> (if ag_phase a = Ended then prefix (sent_by h s) (frames (accepted_by h s))
         else frames (accepted_by h s) = sent_by h s @ bw_Buffer (ag_buf a) @ concat (map item_bytes (ag_chan a))))"

definition lines_ok :: "rooms \<Rightarrow> bool" where
  "lines_ok s \<longleftrightarrow> (\<forall>h < length (rs_aggs s). line_ok h s)
     \<and> (\<forall>h x. (h, x) \<in> set (rs_acc s) \<longrightarrow> h < length (rs_aggs s)) \<and> (\<forall>h x. (h, x) \<in> set (rs_out s) \<longrightarrow> h < length (rs_aggs s))"

lemma history_other [simp]:
  "sent_by k (s\<lparr>rs_aggs := x\<rparr>) = sent_by k s" "accepted_by k (s\<lparr>rs_aggs := x\<rparr>) = accepted_by k s"
  "accepted_by k (s\<lparr>rs_out := o1\<rparr>) = accepted_by k s"
  by (simp_all add: sent_by_def accepted_by_def)

lemma nth_upd: "k < length xs \<Longrightarrow> xs[i := y] ! k = (if i = k then y else xs ! k)"
  by (cases "i = k") simp_all

text \<open>A state in which aggregator \<open>h\<close> alone differs from \<open>s\<close>, as far as lines are concerned.\<close>

definition alike :: "rooms \<Rightarrow> rooms \<Rightarrow> bool" where
  "alike s u \<longleftrightarrow> length (rs_aggs u) = length (rs_aggs s) \<and> rs_acc u = rs_acc s \<and> rs_out u = rs_out s
     \<and> (\<forall>k < length (rs_aggs s). ag_phase (rs_aggs u ! k) = ag_phase (rs_aggs s ! k)
          \<and> ag_buf (rs_aggs u ! k) = ag_buf (rs_aggs s ! k) \<and> ag_chan (rs_aggs u ! k) = ag_chan (rs_aggs s ! k)
          \<and> ag_n (rs_aggs u ! k) = ag_n (rs_aggs s ! k) \<and> ag_id (rs_aggs u ! k) = ag_id (rs_aggs s ! k))"

lemma alike_refl [simp]: "alike s s"
  by (simp add: alike_def)

lemma alike_trans: "alike s t \<Longrightarrow> alike t u \<Longrightarrow> alike s u"
  by (simp add: alike_def)

lemma alike_line: "alike s u \<Longrightarrow> h < length (rs_aggs s) \<Longrightarrow> line_ok h u = line_ok h s"
  by (simp add: alike_def line_ok_def Let_def sent_by_def accepted_by_def)

lemma alike_lines:
  assumes "alike s u" "lines_ok s"
  shows "lines_ok u"
proof -
  have "length (rs_aggs u) = length (rs_aggs s)" "rs_acc u = rs_acc s" "rs_out u = rs_out s"
    using assms(1) by (simp_all add: alike_def)
  with assms show ?thesis by (simp add: lines_ok_def alike_line)
qed

lemma alike_files [simp]: "alike s (s\<lparr>rs_files := f\<rparr>)"
  by (simp add: alike_def)

lemma alike_pool [simp]: "alike s (s\<lparr>rs_pool := p\<rparr>)"
  by (simp add: alike_def)

lemma alike_writeWAL [simp]: "alike s (writeWAL h data s)"
  using writeWAL_only [of h data s] by auto

lemma alike_cleanWAL [simp]: "alike s (cleanWAL h s)"
  using cleanWAL_only [of h s] by auto

lemma alike_delRoom [simp]: "alike s (delRoom r s)"
  by (auto simp: alike_def delRoom_def ag_Close_def nth_upd split: option.splits)

lemma line_upd:
  assumes "lines_ok s" "h < length (rs_aggs s)" "line_ok h (upd_agg h f s)"
  shows "lines_ok (upd_agg h f s)"
  unfolding lines_ok_def
proof (intro conjI allI impI)
  fix k assume k: "k < length (rs_aggs (upd_agg h f s))"
  show "line_ok k (upd_agg h f s)"
  proof (cases "k = h")
    case True with assms(3) show ?thesis by simp
  next
    case False
    with assms(1) k show ?thesis by (simp add: lines_ok_def line_ok_def Let_def)
  qed
qed (use assms(1) in \<open>auto simp: lines_ok_def\<close>)

text \<open>The end of a goroutine, after everything it had was sent or not.\<close>

lemma lines_stop:
  assumes "lines_ok s" "h < length (rs_aggs s)"
  shows "lines_ok (stop_loop h s)"
  unfolding stop_loop_def
proof (rule line_upd [OF assms])
  have "line_ok h s" using assms by (simp add: lines_ok_def)
  then show "line_ok h (upd_agg h (\<lambda>a. a\<lparr>ag_phase := Ended, ag_signal := None, ag_idle := None\<rparr>) s)"
    using assms(2) by (auto simp: line_ok_def Let_def prefix_def split: if_splits)
qed

text \<open>A batch that was sent is out of the buffer.\<close>

definition drained :: "nat \<Rightarrow> (aggregator \<Rightarrow> aggregator) \<Rightarrow> rooms \<Rightarrow> rooms" where
  "drained h f s = upd_agg h (\<lambda>a. (f a)\<lparr>ag_buf := NewWriterSize (bw_Size (ag_buf a)), ag_phase := ag_phase a,
     ag_chan := ag_chan a\<rparr>) (s\<lparr>rs_out := rs_out s @ [(h, bw_Buffer (ag_buf (rs_aggs s ! h)))]\<rparr>)"

lemma sent_by_snoc [simp]: "sent_by k (s\<lparr>rs_out := rs_out s @ [(h, d)]\<rparr>) = sent_by k s @ (if k = h then d else [])"
  by (simp add: sent_by_def)

lemma lines_drained:
  assumes ok: "lines_ok s" and h: "h < length (rs_aggs s)" and ph: "ag_phase (rs_aggs s ! h) \<noteq> Ended"
  shows "lines_ok (drained h f s)"
  unfolding lines_ok_def
proof (intro conjI allI impI)
  fix k assume k: "k < length (rs_aggs (drained h f s))"
  then have "line_ok k s" using ok by (simp add: lines_ok_def drained_def)
  with h ph k show "line_ok k (drained h f s)"
    by (cases "k = h") (auto simp: line_ok_def Let_def drained_def)
qed (use ok h in \<open>auto simp: lines_ok_def drained_def\<close>)

lemma lines_take:
  assumes "lines_ok s" "h < length (rs_aggs s)" "ag_phase (rs_aggs s ! h) = Looping" "ag_chan (rs_aggs s ! h) = x # q"
    and "ag_phase a' = Looping" "bw_ok (ag_buf a')" "bw_Buffer (ag_buf a') = bw_Buffer (ag_buf (rs_aggs s ! h)) @ item_bytes x"
    "ag_chan a' = q"
  shows "lines_ok (s\<lparr>rs_aggs := (rs_aggs s)[h := a']\<rparr>)"
proof (rule line_upd [OF assms(1,2), of "\<lambda>_. a'"])
  have "line_ok h s" using assms(1,2) by (simp add: lines_ok_def)
  then show "line_ok h (upd_agg h (\<lambda>_. a') s)" using assms(2-) by (simp add: line_ok_def Let_def)
qed

lemma lines_flush:
  assumes run: "flush_batch cf h s = Ret u" and ok: "lines_ok s" and h: "h < length (rs_aggs s)"
    and ph: "ag_phase (rs_aggs s ! h) \<noteq> Ended"
  shows "lines_ok u"
proof -
  obtain f where f: "writeWAL h (bw_Buffer (ag_buf (rs_aggs s ! h))) s = s\<lparr>rs_files := f\<rparr>" using writeWAL_only by blast
  obtain s1 where s1: "send_batch h (s\<lparr>rs_files := f\<rparr>) = Ret s1"
    and u: "u = upd_agg h (\<lambda>a. a\<lparr>ag_buf := NewWriterSize (bw_Size (ag_buf a)), ag_n := 0,
            ag_signal := Some (rs_now s + minute), ag_idle := Some (rs_now s + idle_time cf)\<rparr>) (cleanWAL h s1)"
    using run by (auto simp: flush_batch_def f exec_bind_eq_Ret_iff)
  obtain p where p: "s1 = s\<lparr>rs_files := f, rs_pool := p, rs_out := rs_out s @ [(h, bw_Buffer (ag_buf (rs_aggs s ! h)))]\<rparr>"
    using send_batch_only [OF s1] by auto
  obtain g where g: "cleanWAL h s1 = s1\<lparr>rs_files := g\<rparr>" using cleanWAL_only by blast
  have "alike (drained h (\<lambda>a. a\<lparr>ag_n := 0\<rparr>) s) u"
    using h unfolding u g by (auto simp: p alike_def drained_def nth_upd)
  with lines_drained [OF ok h ph] show ?thesis by (rule alike_lines [rotated])
qed

lemma lines_receive:
  assumes run: "receive cf h s = Ret u" and ok: "lines_ok s" and h: "h < length (rs_aggs s)"
    and ph: "ag_phase (rs_aggs s ! h) = Looping"
  shows "lines_ok u"
proof (cases "ag_chan (rs_aggs s ! h)")
  case Nil
  show ?thesis
  proof (cases "ag_closed (rs_aggs s ! h)")
    case True
    have "lines_ok (cleanWAL h s)" "h < length (rs_aggs (cleanWAL h s))"
      using alike_lines [OF alike_cleanWAL ok] cleanWAL_only [of h s] h by auto
    then show ?thesis using run True Nil lines_stop by (auto simp: receive_def handle_item_def Let_def)
  next
    case False with run Nil ok show ?thesis by (simp add: receive_def)
  qed
next
  case (Cons x q)
  define s0 where "s0 = upd_agg h (\<lambda>a. a\<lparr>ag_chan := q\<rparr>) s"
  let ?a = "rs_aggs s ! h"
  have a0: "rs_aggs s0 ! h = ?a\<lparr>ag_chan := q\<rparr>" "length (rs_aggs s0) = length (rs_aggs s)" using h by (simp_all add: s0_def)
  have run: "handle_item cf h (Some x) s0 = Ret u" using run Cons by (simp add: receive_def s0_def)
  have bw: "bw_ok (ag_buf ?a)" using ok h by (simp add: lines_ok_def line_ok_def Let_def)
  show ?thesis
  proof (cases x)
    case Ready
    then have ok0: "lines_ok s0"
      unfolding s0_def using lines_take [OF ok h ph Cons, of "?a\<lparr>ag_chan := q\<rparr>"] ph bw by simp
    show ?thesis
    proof (cases "ag_n ?a = 0")
      case True
      have "lines_ok (cleanWAL h s0)" "h < length (rs_aggs (cleanWAL h s0))"
        using alike_lines [OF alike_cleanWAL ok0] cleanWAL_only [of h s0] a0 h by auto
      then show ?thesis using run True Ready a0 lines_stop by (auto simp: handle_item_def Let_def)
    next
      case False
      then have "flush_batch cf h s0 = Ret u" using run Ready a0 by (simp add: handle_item_def Let_def)
      then show ?thesis by (rule lines_flush) (use ok0 a0 h ph in auto)
    qed
  next
    case (Item p)
    obtain b where b: "WriteTo p (ag_buf ?a) = Ret b" "bw_ok b" "bw_Buffer b = bw_Buffer (ag_buf ?a) @ proto_frame p"
      using WriteTo_spec [OF bw] by blast
    let ?a1 = "?a\<lparr>ag_chan := q, ag_buf := b, ag_n := ag_n ?a + 1\<rparr>"
    note tk = lines_take [OF ok h ph Cons]
    consider "u = s\<lparr>rs_aggs := (rs_aggs s)[h := ?a1\<lparr>ag_last := rs_now s, ag_signal := Some (rs_now s + signal_time cf),
          ag_idle := Some (rs_now s + idle_time cf)\<rparr>]\<rparr>"
      | "u = s\<lparr>rs_aggs := (rs_aggs s)[h := ?a1\<lparr>ag_idle := Some (rs_now s + idle_time cf)\<rparr>]\<rparr>"
      | "flush_batch cf h (s\<lparr>rs_aggs := (rs_aggs s)[h := ?a1]\<rparr>) = Ret u"
    proof -
      let ?u1 = "s\<lparr>rs_aggs := (rs_aggs s)[h := ?a1\<lparr>ag_last := rs_now s, ag_signal := Some (rs_now s + signal_time cf),
          ag_idle := Some (rs_now s + idle_time cf)\<rparr>]\<rparr>"
      let ?u2 = "s\<lparr>rs_aggs := (rs_aggs s)[h := ?a1\<lparr>ag_idle := Some (rs_now s + idle_time cf)\<rparr>]\<rparr>"
      have "handle_item cf h (Some x) s0 = (if ag_n ?a + 1 = 1 then Ret ?u1
          else if ag_n ?a + 1 < rc_batch cf \<and> signal_time cf > rs_now s - ag_last ?a then Ret ?u2
          else flush_batch cf h (s\<lparr>rs_aggs := (rs_aggs s)[h := ?a1]\<rparr>))"
        using b(1) by (cases "ag_n ?a = 0"; cases "Suc (ag_n ?a) < rc_batch cf"; cases "rs_now s - ag_last ?a < signal_time cf")
          (simp_all add: Item handle_item_def Let_def a0, simp_all add: s0_def)
      with run that show ?thesis by (cases "ag_n ?a + 1 = 1"; cases "ag_n ?a + 1 < rc_batch cf \<and> signal_time cf > rs_now s - ag_last ?a") auto
    qed
    then show ?thesis
    proof cases
      case 1 show ?thesis unfolding 1 by (rule tk) (use ph b Item in auto)
    next
      case 2 show ?thesis unfolding 2 by (rule tk) (use ph b Item in auto)
    next
      case 3
      have "lines_ok (s\<lparr>rs_aggs := (rs_aggs s)[h := ?a1]\<rparr>)" by (rule tk) (use ph b Item in auto)
      from lines_flush [OF 3 this] h ph show ?thesis by simp
    qed
  qed
qed

lemma lines_idle:
  assumes run: "idle_exit h s = Ret u" and ok: "lines_ok s" and h: "h < length (rs_aggs s)"
    and ph: "ag_phase (rs_aggs s ! h) = Looping"
  shows "lines_ok u"
proof -
  obtain s1 where s1: "(if 0 < ag_n (rs_aggs s ! h) then send_batch h s else Ret s) = Ret s1"
    and u: "u = stop_loop h (delRoom (ag_id (rs_aggs s ! h)) (cleanWAL h s1))"
    using run by (auto simp: idle_exit_def exec_bind_eq_Ret_iff)
  define t where "t = delRoom (ag_id (rs_aggs s ! h)) (cleanWAL h s1)"
  have al: "alike s1 t" unfolding t_def using alike_trans alike_cleanWAL alike_delRoom by blast
  show ?thesis
  proof (cases "0 < ag_n (rs_aggs s ! h)")
    case False
    with s1 have "s1 = s" by simp
    with al ok h have "lines_ok t" "h < length (rs_aggs t)" using alike_lines by (blast, simp add: alike_def)
    then show ?thesis unfolding u t_def [symmetric] by (rule lines_stop)
  next
    case True
    with s1 have "send_batch h s = Ret s1" by simp
    from send_batch_only [OF this]
    obtain p where p: "s1 = s\<lparr>rs_pool := p, rs_out := rs_out s @ [(h, bw_Buffer (ag_buf (rs_aggs s ! h)))]\<rparr>" ..
    have ln: "line_ok k s" if "k < length (rs_aggs s)" for k using ok that by (simp add: lines_ok_def)
    have t: "length (rs_aggs t) = length (rs_aggs s)" "rs_acc t = rs_acc s" "rs_out t = rs_out s1"
      "ag_phase (rs_aggs t ! k) = ag_phase (rs_aggs s ! k)" "ag_buf (rs_aggs t ! k) = ag_buf (rs_aggs s ! k)"
      "ag_chan (rs_aggs t ! k) = ag_chan (rs_aggs s ! k)"
      if "k < length (rs_aggs s)" for k using al that by (simp_all add: alike_def p)
    have hist: "accepted_by k (stop_loop h t) = accepted_by k s"
        "sent_by k (stop_loop h t) = sent_by k s @ (if k = h then bw_Buffer (ag_buf (rs_aggs s ! h)) else [])" for k
      using t(2,3) [OF h] by (simp_all add: accepted_by_def sent_by_def stop_loop_def p)
    have "line_ok k (stop_loop h t)" if k: "k < length (rs_aggs s)" for k
    proof (cases "k = h")
      case True with ln [OF h] ph t [OF h] h show ?thesis
        by (auto simp: line_ok_def Let_def hist) (auto simp: stop_loop_def prefix_def)
    next
      case False with ln [OF k] t [OF k] show ?thesis
        by (simp add: line_ok_def Let_def hist) (simp add: stop_loop_def)
    qed
    then show ?thesis using ok h t(1-3) [OF h] unfolding u t_def [symmetric] lines_ok_def
      by (auto simp: stop_loop_def p)
  qed
qed

lemma alike_replayed [simp]: "alike s (s\<lparr>rs_pool := p, rs_replayed := r\<rparr>)"
  by (simp add: alike_def)

lemma lines_start:
  assumes run: "pushproc_start cf opens h s = Ret u" and ok: "lines_ok s" and h: "h < length (rs_aggs s)"
    and ph: "ag_phase (rs_aggs s ! h) = Created"
  shows "lines_ok u"
proof -
  obtain s1 where s1: "(if rc_wal cf then replayWAL h s else Ret s) = Ret s1"
    and u: "u = (let s2 = (if rc_wal cf \<and> opens then s1\<lparr>rs_files := (rs_files s1)(ag_id (rs_aggs s1 ! h) \<mapsto> [])\<rparr> else s1)
       in upd_agg h (\<lambda>a. a\<lparr>ag_phase := Looping, ag_wal := rc_wal cf \<and> opens, ag_signal := Some (rs_now s + signal_time cf),
            ag_idle := Some (rs_now s + idle_time cf)\<rparr>) s2)"
    using run by (auto simp: pushproc_start_def exec_bind_eq_Ret_iff Let_def)
  have "alike s s1"
  proof (cases "rc_wal cf")
    case True
    with s1 have "replayWAL h s = Ret s1" by simp
    from replayWAL_only [OF this] show ?thesis by auto
  qed (use s1 in simp)
  define s2 where "s2 = (if rc_wal cf \<and> opens then s1\<lparr>rs_files := (rs_files s1)(ag_id (rs_aggs s1 ! h) \<mapsto> [])\<rparr> else s1)"
  have s2: "alike s s2" unfolding s2_def using \<open>alike s s1\<close> alike_trans [OF _ alike_files] by simp
  have u: "u = upd_agg h (\<lambda>a. a\<lparr>ag_phase := Looping, ag_wal := rc_wal cf \<and> opens,
      ag_signal := Some (rs_now s + signal_time cf), ag_idle := Some (rs_now s + idle_time cf)\<rparr>) s2"
    unfolding u s2_def Let_def ..
  have ok2: "lines_ok s2" "h < length (rs_aggs s2)" "ag_phase (rs_aggs s2 ! h) = Created"
    using alike_lines [OF s2 ok] s2 h ph by (simp_all add: alike_def)
  then have "line_ok h s2" by (simp add: lines_ok_def)
  then show ?thesis unfolding u
    by (intro line_upd ok2) (use ok2 in \<open>simp add: line_ok_def Let_def\<close>)
qed

lemma lines_push:
  assumes run: "ra_Push h op msg w s = Ret (e, u)" and ok: "lines_ok s" and h: "h < length (rs_aggs s)"
  shows "lines_ok u"
proof (cases "e = None")
  case False
  then have "u = s" using run by (auto simp: ra_Push_def exec_bind_eq_Ret_iff split: if_splits)
  then show ?thesis using ok by simp
next
  case True
  have u: "u = s\<lparr>rs_aggs := (rs_aggs s)[h := (rs_aggs s ! h)\<lparr>ag_chan := ag_chan (rs_aggs s ! h) @ [Item (room_proto op msg)]\<rparr>],
      rs_acc := rs_acc s @ [(h, room_proto op msg)]\<rparr>"
    using True run by (auto simp: ra_Push_def exec_bind_eq_Ret_iff try_send_def split: if_splits)
  have ln: "line_ok k s" if "k < length (rs_aggs s)" for k using ok that by (simp add: lines_ok_def)
  have hist: "sent_by k u = sent_by k s" "accepted_by k u = accepted_by k s @ (if k = h then [room_proto op msg] else [])" for k
    by (simp_all add: u sent_by_def accepted_by_def)
  have "line_ok k u" if k: "k < length (rs_aggs s)" for k
  proof (cases "k = h")
    case True with ln [OF h] h show ?thesis
      by (auto simp: line_ok_def Let_def hist) (auto simp: u prefix_def)
  next
    case False with ln [OF k] show ?thesis by (simp add: line_ok_def Let_def hist) (simp add: u)
  qed
  then show ?thesis using ok h by (auto simp: lines_ok_def) (auto simp: u)
qed

lemma lines_get:
  assumes run: "getRoom cf r s = Ret (h, u)" and ok: "lines_ok s"
  shows "lines_ok u"
proof (cases "u = s")
  case False
  then obtain f where u: "u = s\<lparr>rs_aggs := rs_aggs s @ [NewRoomAggregator r (rc_batch cf)], rs_rooms := Some f\<rparr>"
    using run by (auto simp: getRoom_def Let_def split: option.splits)
  have new: "accepted_by (length (rs_aggs s)) s = []" "sent_by (length (rs_aggs s)) s = []"
    using ok by (auto simp: lines_ok_def accepted_by_def sent_by_def filter_empty_conv)
  have hist: "sent_by k u = sent_by k s" "accepted_by k u = accepted_by k s" for k
    by (simp_all add: u sent_by_def accepted_by_def)
  have "line_ok k u" if k: "k < Suc (length (rs_aggs s))" for k
  proof (cases "k = length (rs_aggs s)")
    case True with new show ?thesis
      by (simp add: line_ok_def Let_def hist) (simp add: u NewRoomAggregator_def)
  next
    case False
    with k ok have "line_ok k s" by (simp add: lines_ok_def)
    with False k show ?thesis by (simp add: line_ok_def Let_def hist) (simp add: u nth_append)
  qed
  then show ?thesis using ok by (auto simp: lines_ok_def u less_Suc_eq)
qed (use ok in simp)

lemma alike_shut: "act_on cf Shut s = Ret u \<Longrightarrow> alike s u"
  by (auto simp: alike_def nth_enumerate_eq ag_Close_def split: option.splits)

lemma lines_act:
  assumes ok: "lines_ok s" and run: "act_on cf l s = Ret u"
  shows "lines_ok u"
proof (cases l)
  case (Get r)
  with run obtain h where "getRoom cf r s = Ret (h, u)" by (auto simp: exec_bind_eq_Ret_iff)
  then show ?thesis using ok by (rule lines_get)
next
  case (Push h op msg w)
  with run ok show ?thesis by (auto simp: exec_bind_eq_Ret_iff split: if_splits intro: lines_push)
next
  case (Fire h)
  then have "alike s u" using run by (auto simp: alike_def nth_upd split: if_splits)
  then show ?thesis using ok by (rule alike_lines)
next
  case (Deliver h w)
  show ?thesis
  proof (cases "u = s")
    case False
    then have h: "h < length (rs_aggs s)" using Deliver run by (auto split: if_splits)
    then have "line_ok h s" using ok by (simp add: lines_ok_def)
    moreover from False obtain a where u: "u = upd_agg h (\<lambda>_. a) s" and a: "ag_buf a = ag_buf (rs_aggs s ! h)"
        "ag_phase a = ag_phase (rs_aggs s ! h)" "concat (map item_bytes (ag_chan a)) = concat (map item_bytes (ag_chan (rs_aggs s ! h)))"
      using Deliver run by (auto simp: exec_bind_eq_Ret_iff try_send_def split: if_splits)
    ultimately show ?thesis using h unfolding u
      by (intro line_upd ok) (simp_all add: line_ok_def Let_def)
  qed (use ok in simp)
next
  case Shut with run alike_shut ok show ?thesis using alike_lines by blast
next
  case (Start h opens)
  with run ok show ?thesis by (auto split: if_splits intro: lines_start)
next
  case (Receive h)
  with run ok show ?thesis by (auto split: if_splits intro: lines_receive)
next
  case (Idle h)
  with run ok show ?thesis by (auto split: if_splits intro: lines_idle)
next
  case (Clock t)
  then have "alike s u" using run by (auto simp: alike_def)
  then show ?thesis using ok by (rule alike_lines)
qed

lemma lines_no_rooms [simp]: "lines_ok (no_rooms p fs now)"
  by (simp add: lines_ok_def no_rooms_def)

lemma reaches_lines: "reaches cf s t \<Longrightarrow> lines_ok s \<Longrightarrow> lines_ok t"
  by (induction rule: reaches.induct) (auto intro: lines_act)


definition demo_room_conf :: room_conf where
  "demo_room_conf = \<lparr>rc_batch = 3, rc_signal = 1000000000, rc_idle = 0, rc_wal = False\<rparr>"

definition demo_rooms :: "action list \<Rightarrow> rooms exec" where
  "demo_rooms ls = act_all demo_room_conf ls (no_rooms NewCometClientPool (\<lambda>_. None) 0)"

lemmas run_rooms = demo_rooms_def demo_room_conf_def no_rooms_def getRoom_def NewRoomAggregator_def pushproc_start_def
  ra_Push_def try_send_def Let_def


section \<open>A room that is quiet for a minute\<close>

text \<open>Who is registered, and who still runs.\<close>

definition registry_ok :: "rooms \<Rightarrow> bool" where
  "registry_ok s \<longleftrightarrow> (case rs_rooms s of None \<Rightarrow> True | Some f \<Rightarrow>
     (\<forall>r h. f r = Some h \<longrightarrow> h < length (rs_aggs s) \<and> ag_id (rs_aggs s ! h) = r)
     \<and> (\<forall>h < length (rs_aggs s). ag_phase (rs_aggs s ! h) \<noteq> Ended \<longrightarrow> f (ag_id (rs_aggs s ! h)) = Some h))"

text \<open>Only aggregator \<open>h\<close> did anything.\<close>

definition own :: "nat \<Rightarrow> rooms \<Rightarrow> rooms \<Rightarrow> bool" where
  "own h s u \<longleftrightarrow> length (rs_aggs u) = length (rs_aggs s)
     \<and> (\<forall>k < length (rs_aggs s). ag_id (rs_aggs u ! k) = ag_id (rs_aggs s ! k)
          \<and> (k \<noteq> h \<longrightarrow> ag_phase (rs_aggs u ! k) = ag_phase (rs_aggs s ! k)))
     \<and> (\<exists>x. rs_out u = rs_out s @ x \<and> (\<forall>p \<in> set x. fst p = h))"

lemma own_trans: "own h s t \<Longrightarrow> own h t u \<Longrightarrow> own h s u"
  unfolding own_def by (auto; metis append.assoc Un_iff set_append)

lemma alike_own: "alike s u \<Longrightarrow> own h s u"
  by (simp add: alike_def own_def)

lemma own_upd: "(\<And>a. ag_id (f a) = ag_id a) \<Longrightarrow> own h s (upd_agg h f s)"
  by (auto simp: own_def nth_upd)

lemma own_send: "send_batch h s = Ret s1 \<Longrightarrow> own h s s1"
  by (drule send_batch_only) (auto simp: own_def)

lemma rooms_of_pieces [simp]:
  "rs_rooms (writeWAL h d s) = rs_rooms s" "rs_rooms (cleanWAL h s) = rs_rooms s" "rs_rooms (stop_loop h s) = rs_rooms s"
  using writeWAL_only [of h d s] cleanWAL_only [of h s] by (auto simp: stop_loop_def)

lemma own_stop [simp]: "own h s (stop_loop h s)"
  unfolding stop_loop_def by (rule own_upd) simp

lemma own_flush:
  assumes "flush_batch cf h s = Ret u"
  shows "own h s u \<and> rs_rooms u = rs_rooms s"
proof -
  let ?s0 = "writeWAL h (bw_Buffer (ag_buf (rs_aggs s ! h))) s"
  obtain s1 where s1: "send_batch h ?s0 = Ret s1"
    and u: "u = upd_agg h (\<lambda>a. a\<lparr>ag_buf := NewWriterSize (bw_Size (ag_buf a)), ag_n := 0,
            ag_signal := Some (rs_now s + minute), ag_idle := Some (rs_now s + idle_time cf)\<rparr>) (cleanWAL h s1)"
    using assms by (auto simp: flush_batch_def exec_bind_eq_Ret_iff)
  have o: "own h s ?s0" "own h ?s0 s1" "own h s1 (cleanWAL h s1)" "own h (cleanWAL h s1) u"
    unfolding u by (simp_all add: alike_own own_send [OF s1]) (auto simp: own_def nth_upd)
  have "own h s u" by (rule own_trans [OF o(1) own_trans [OF o(2) own_trans [OF o(3,4)]]])
  moreover have "rs_rooms s1 = rs_rooms ?s0" using send_batch_only [OF s1] by auto
  ultimately show ?thesis by (simp add: u)
qed

lemma own_handle:
  assumes "handle_item cf h x s = Ret u"
  shows "own h s u \<and> rs_rooms u = rs_rooms s"
proof -
  have st: "own h s (stop_loop h (cleanWAL h s)) \<and> rs_rooms (stop_loop h (cleanWAL h s)) = rs_rooms s"
    using own_trans [OF alike_own own_stop] by simp
  show ?thesis
  proof (cases x)
    case None with assms st show ?thesis by (auto simp: handle_item_def Let_def)
  next
    case (Some y)
    show ?thesis
    proof (cases y)
      case Ready
      with Some assms st show ?thesis by (auto simp: handle_item_def Let_def split: if_splits dest: own_flush)
    next
      case (Item p)
      have up: "own h s (upd_agg h (\<lambda>_. a1) s)" if "ag_id a1 = ag_id (rs_aggs s ! h)" for a1
        using that by (auto simp: own_def nth_upd)
      obtain b where b: "WriteTo p (ag_buf (rs_aggs s ! h)) = Ret b"
        using assms Some Item by (auto simp: handle_item_def Let_def exec_bind_eq_Ret_iff)
      let ?a = "rs_aggs s ! h"
      let ?a1 = "?a\<lparr>ag_buf := b, ag_n := ag_n ?a + 1\<rparr>"
      consider (keep) a2 where "u = upd_agg h (\<lambda>_. a2) s" "ag_id a2 = ag_id ?a"
        | (flush) "flush_batch cf h (upd_agg h (\<lambda>_. ?a1) s) = Ret u"
        using assms b that unfolding Some Item
        by (cases "ag_n ?a = 0"; cases "Suc (ag_n ?a) < rc_batch cf"; cases "rs_now s - ag_last ?a < signal_time cf")
          (force simp: handle_item_def Let_def)+
      then show ?thesis
      proof cases
        case keep then show ?thesis using up by simp
      next
        case flush
        from own_flush [OF this] own_trans [OF up [of ?a1]] show ?thesis by simp
      qed
    qed
  qed
qed

lemma own_receive:
  assumes "receive cf h s = Ret u"
  shows "own h s u \<and> rs_rooms u = rs_rooms s"
proof (cases "ag_chan (rs_aggs s ! h)")
  case Nil
  with assms show ?thesis by (auto simp: receive_def alike_own split: if_splits dest: own_handle)
next
  case (Cons x q)
  have "own h s (upd_agg h (\<lambda>a. a\<lparr>ag_chan := q\<rparr>) s)" by (rule own_upd) simp
  moreover have "handle_item cf h (Some x) (upd_agg h (\<lambda>a. a\<lparr>ag_chan := q\<rparr>) s) = Ret u"
    using assms Cons by (simp add: receive_def)
  ultimately show ?thesis using own_handle own_trans by fastforce
qed

lemma own_idle:
  assumes "idle_exit h s = Ret u" "h < length (rs_aggs s)"
  shows "own h s u" "ag_phase (rs_aggs u ! h) = Ended"
    "rs_rooms u = (case rs_rooms s of None \<Rightarrow> None | Some f \<Rightarrow> Some (f(ag_id (rs_aggs s ! h) := None)))"
proof -
  obtain s1 where s1: "(if 0 < ag_n (rs_aggs s ! h) then send_batch h s else Ret s) = Ret s1"
    and u: "u = stop_loop h (delRoom (ag_id (rs_aggs s ! h)) (cleanWAL h s1))"
    using assms(1) by (auto simp: idle_exit_def exec_bind_eq_Ret_iff)
  have o1: "own h s s1 \<and> rs_rooms s1 = rs_rooms s"
  proof (cases "0 < ag_n (rs_aggs s ! h)")
    case True
    with s1 have "send_batch h s = Ret s1" by simp
    from own_send [OF this] send_batch_only [OF this] show ?thesis by auto
  qed (use s1 in \<open>simp add: alike_own\<close>)
  have o2: "own h s1 (cleanWAL h s1)" "own h (cleanWAL h s1) (delRoom r (cleanWAL h s1))" for r
    by (simp_all add: alike_own)
  show o: "own h s u" unfolding u by (rule own_trans [OF own_trans [OF own_trans [OF conjunct1 [OF o1] o2(1)] o2(2)] own_stop])
  have "length (rs_aggs (delRoom r (cleanWAL h s1))) = length (rs_aggs s)" for r
    using own_trans [OF own_trans [OF conjunct1 [OF o1] o2(1)] o2(2) [of r]] by (simp add: own_def)
  then show "ag_phase (rs_aggs u ! h) = Ended" using assms(2) by (simp add: u stop_loop_def)
  show "rs_rooms u = (case rs_rooms s of None \<Rightarrow> None | Some f \<Rightarrow> Some (f(ag_id (rs_aggs s ! h) := None)))"
    using conjunct2 [OF o1] by (auto simp: u delRoom_def fun_upd_idem split: option.splits)
qed

lemma own_start:
  assumes run: "pushproc_start cf opens h s = Ret u"
  shows "own h s u \<and> rs_rooms u = rs_rooms s"
proof (cases "rc_wal cf")
  case True
  with run obtain s1 where s1: "replayWAL h s = Ret s1" by (auto simp: pushproc_start_def exec_bind_eq_Ret_iff)
  from replayWAL_only [OF s1] run True s1 show ?thesis
    by (auto simp: pushproc_start_def Let_def own_def nth_upd)
qed (use run in \<open>auto simp: pushproc_start_def Let_def own_def nth_upd\<close>)

text \<open>Registration after each action.\<close>

lemma registry_own:
  assumes "registry_ok s" "own h s u" "rs_rooms u = rs_rooms s" "ag_phase (rs_aggs s ! h) \<noteq> Ended"
  shows "registry_ok u"
  unfolding registry_ok_def
proof (cases "rs_rooms u")
  case (Some f)
  have sf: "rs_rooms s = Some f" using assms(3) Some by simp
  have reg: "\<And>r k. f r = Some k \<Longrightarrow> k < length (rs_aggs s) \<and> ag_id (rs_aggs s ! k) = r"
      "\<And>k. k < length (rs_aggs s) \<Longrightarrow> ag_phase (rs_aggs s ! k) \<noteq> Ended \<Longrightarrow> f (ag_id (rs_aggs s ! k)) = Some k"
    using assms(1) sf by (simp_all add: registry_ok_def)
  have "f (ag_id (rs_aggs u ! k)) = Some k" if "k < length (rs_aggs u)" "ag_phase (rs_aggs u ! k) \<noteq> Ended" for k
    using assms(2,4) that reg(2) [of k] by (cases "k = h") (auto simp: own_def)
  moreover have "k < length (rs_aggs u) \<and> ag_id (rs_aggs u ! k) = r" if "f r = Some k" for r k
    using assms(2) reg(1) [OF that] by (auto simp: own_def)
  ultimately show "case rs_rooms u of None \<Rightarrow> True | Some f \<Rightarrow> (\<forall>r h. f r = Some h \<longrightarrow> h < length (rs_aggs u) \<and> ag_id (rs_aggs u ! h) = r)
     \<and> (\<forall>h < length (rs_aggs u). ag_phase (rs_aggs u ! h) \<noteq> Ended \<longrightarrow> f (ag_id (rs_aggs u ! h)) = Some h)"
    using Some by simp
qed simp

lemma registry_alike: "alike s u \<Longrightarrow> rs_rooms u = rs_rooms s \<Longrightarrow> registry_ok s \<Longrightarrow> registry_ok u"
  by (auto simp: registry_ok_def alike_def split: option.splits)

lemma registry_idle:
  assumes "registry_ok s" "idle_exit h s = Ret u" "h < length (rs_aggs s)" "ag_phase (rs_aggs s ! h) = Looping"
  shows "registry_ok u"
proof (cases "rs_rooms s")
  case None then show ?thesis using own_idle(3) [OF assms(2,3)] by (simp add: registry_ok_def)
next
  case (Some f)
  note o = own_idle [OF assms(2,3)]
  have u: "rs_rooms u = Some (f(ag_id (rs_aggs s ! h) := None))" using o(3) Some by simp
  have reg: "\<And>r k. f r = Some k \<Longrightarrow> k < length (rs_aggs s) \<and> ag_id (rs_aggs s ! k) = r"
      "\<And>k. k < length (rs_aggs s) \<Longrightarrow> ag_phase (rs_aggs s ! k) \<noteq> Ended \<Longrightarrow> f (ag_id (rs_aggs s ! k)) = Some k"
    using assms(1) Some by (simp_all add: registry_ok_def)
  have same: "length (rs_aggs u) = length (rs_aggs s)" "k < length (rs_aggs s) \<Longrightarrow> ag_id (rs_aggs u ! k) = ag_id (rs_aggs s ! k)"
      "k < length (rs_aggs s) \<Longrightarrow> k \<noteq> h \<Longrightarrow> ag_phase (rs_aggs u ! k) = ag_phase (rs_aggs s ! k)" for k
    using o(1) by (simp_all add: own_def)
  have "f (ag_id (rs_aggs s ! k)) = Some k \<and> ag_id (rs_aggs s ! k) \<noteq> ag_id (rs_aggs s ! h)"
    if "k < length (rs_aggs s)" "ag_phase (rs_aggs u ! k) \<noteq> Ended" for k
  proof -
    have "k \<noteq> h" using that o(2) by auto
    with same(3) that have "f (ag_id (rs_aggs s ! k)) = Some k" using reg(2) by auto
    moreover have "f (ag_id (rs_aggs s ! h)) = Some h" using reg(2) assms(3,4) by simp
    ultimately show ?thesis using \<open>k \<noteq> h\<close> by auto
  qed
  then show ?thesis using reg(1) same by (auto simp: registry_ok_def u)
qed

lemma registry_get:
  assumes "registry_ok s" "getRoom cf r s = Ret (h, u)"
  shows "registry_ok u"
proof (cases "u = s")
  case False
  then obtain f where f: "rs_rooms s = Some f" "f r = None"
    and u: "u = s\<lparr>rs_aggs := rs_aggs s @ [NewRoomAggregator r (rc_batch cf)], rs_rooms := Some (f(r \<mapsto> length (rs_aggs s)))\<rparr>"
    using assms(2) by (auto simp: getRoom_def Let_def split: option.splits)
  have reg: "\<And>r k. f r = Some k \<Longrightarrow> k < length (rs_aggs s) \<and> ag_id (rs_aggs s ! k) = r"
      "\<And>k. k < length (rs_aggs s) \<Longrightarrow> ag_phase (rs_aggs s ! k) \<noteq> Ended \<Longrightarrow> f (ag_id (rs_aggs s ! k)) = Some k"
    using assms(1) f by (simp_all add: registry_ok_def)
  have "(f(r \<mapsto> length (rs_aggs s))) (ag_id (rs_aggs u ! k)) = Some k"
    if "k < Suc (length (rs_aggs s))" "ag_phase (rs_aggs u ! k) \<noteq> Ended" for k
  proof (cases "k = length (rs_aggs s)")
    case True then show ?thesis by (simp add: u NewRoomAggregator_def)
  next
    case False
    then have "f (ag_id (rs_aggs s ! k)) = Some k" using that reg(2) by (simp add: u nth_append)
    then show ?thesis using False that f by (auto simp: u nth_append)
  qed
  moreover have "k < length (rs_aggs u) \<and> ag_id (rs_aggs u ! k) = q" if "(f(r \<mapsto> length (rs_aggs s))) q = Some k" for q k
    using that reg(1) [of q k] by (auto simp: u nth_append NewRoomAggregator_def split: if_splits)
  ultimately show ?thesis by (auto simp: registry_ok_def u)
qed (use assms in simp)

lemma registry_act:
  assumes ok: "registry_ok s" and run: "act_on cf l s = Ret u"
  shows "registry_ok u"
proof (cases l)
  case (Get r)
  with run obtain h where "getRoom cf r s = Ret (h, u)" by (auto simp: exec_bind_eq_Ret_iff)
  with ok show ?thesis by (rule registry_get)
next
  case (Start h opens)
  show ?thesis
  proof (cases "u = s")
    case False
    then have run: "pushproc_start cf opens h s = Ret u" and h: "h < length (rs_aggs s)" "ag_phase (rs_aggs s ! h) = Created"
      using run Start by (auto split: if_splits)
    have "own h s u \<and> rs_rooms u = rs_rooms s" by (rule own_start [OF run])
    with ok h show ?thesis by (auto intro: registry_own)
  qed (use ok in simp)
next
  case (Push h op msg w)
  then have "length (rs_aggs u) = length (rs_aggs s) \<and> rs_rooms u = rs_rooms s \<and> (\<forall>k < length (rs_aggs s).
      ag_id (rs_aggs u ! k) = ag_id (rs_aggs s ! k) \<and> ag_phase (rs_aggs u ! k) = ag_phase (rs_aggs s ! k))"
    using run by (auto simp: ra_Push_def try_send_def exec_bind_eq_Ret_iff nth_upd split: if_splits)
  with ok show ?thesis by (auto simp: registry_ok_def split: option.splits)
next
  case (Deliver h w)
  then have "length (rs_aggs u) = length (rs_aggs s) \<and> rs_rooms u = rs_rooms s \<and> (\<forall>k < length (rs_aggs s).
      ag_id (rs_aggs u ! k) = ag_id (rs_aggs s ! k) \<and> ag_phase (rs_aggs u ! k) = ag_phase (rs_aggs s ! k))"
    using run by (auto simp: try_send_def exec_bind_eq_Ret_iff nth_upd split: if_splits)
  with ok show ?thesis by (auto simp: registry_ok_def split: option.splits)
next
  case (Receive h)
  show ?thesis
  proof (cases "u = s")
    case False
    with Receive run have "receive cf h s = Ret u" "ag_phase (rs_aggs s ! h) = Looping" by (auto split: if_splits)
    with own_receive ok show ?thesis by (metis phase.distinct(5) registry_own)
  qed (use ok in simp)
next
  case (Idle h)
  with run ok show ?thesis by (auto split: if_splits intro: registry_idle)
next
  case (Fire h)
  then have "alike s u" "rs_rooms u = rs_rooms s" using run by (auto simp: alike_def nth_upd split: if_splits)
  then show ?thesis using ok by (rule registry_alike)
next
  case (Clock t)
  then have "alike s u" "rs_rooms u = rs_rooms s" using run by (auto simp: alike_def)
  then show ?thesis using ok by (rule registry_alike)
next
  case Shut
  then have "rs_rooms u = None" using run by auto
  then show ?thesis by (simp add: registry_ok_def)
qed

lemma reaches_registry: "reaches cf s t \<Longrightarrow> registry_ok s \<Longrightarrow> registry_ok t"
  by (induction rule: reaches.induct) (auto intro: registry_act)

definition registered :: "string \<Rightarrow> rooms \<Rightarrow> nat option" where
  "registered r s = (case rs_rooms s of None \<Rightarrow> None | Some f \<Rightarrow> f r)"

text \<open>What was sent to a room, by all its aggregators.\<close>

definition room_out :: "string \<Rightarrow> rooms \<Rightarrow> byte list list" where
  "room_out r s = map snd (filter (\<lambda>p. ag_id (rs_aggs s ! fst p) = r) (rs_out s))"

definition dead :: "string \<Rightarrow> nat \<Rightarrow> rooms \<Rightarrow> bool" where
  "dead r h s \<longleftrightarrow> registered r s = Some h \<and> ag_phase (rs_aggs s ! h) = Ended \<and> registry_ok s \<and> lines_ok s"

lemma room_out_own:
  assumes "own h s u" "lines_ok s" "ag_id (rs_aggs s ! h) \<noteq> r" "h < length (rs_aggs s)"
  shows "room_out r u = room_out r s"
proof -
  obtain x where x: "rs_out u = rs_out s @ x" "\<forall>p \<in> set x. fst p = h" using assms(1) by (auto simp: own_def)
  have "filter (\<lambda>p. ag_id (rs_aggs u ! fst p) = r) x = []"
    using x(2) assms(1,3,4) by (auto simp: own_def filter_empty_conv)
  moreover have "filter (\<lambda>p. ag_id (rs_aggs u ! fst p) = r) (rs_out s) = filter (\<lambda>p. ag_id (rs_aggs s ! fst p) = r) (rs_out s)"
    by (rule filter_cong) (use assms(1,2) in \<open>auto simp: own_def lines_ok_def\<close>)
  ultimately show ?thesis by (simp add: room_out_def x(1))
qed

lemma dead_own:
  assumes d: "dead r h s" and k: "k < length (rs_aggs s)" "ag_phase (rs_aggs s ! k) \<noteq> Ended" and o: "own k s u"
    and reg: "rs_rooms u = rs_rooms s \<or> (\<exists>f. rs_rooms s = Some f \<and> rs_rooms u = Some (f(ag_id (rs_aggs s ! k) := None)))"
  shows "registered r u = Some h \<and> ag_phase (rs_aggs u ! h) = Ended \<and> room_out r u = room_out r s"
proof -
  obtain f where f: "rs_rooms s = Some f" "f r = Some h"
    using d by (auto simp: dead_def registered_def split: option.splits)
  have h: "h < length (rs_aggs s)" "ag_id (rs_aggs s ! h) = r" "f (ag_id (rs_aggs s ! k)) = Some k"
    using d f k by (auto simp: dead_def registry_ok_def)
  have "k \<noteq> h" using d k(2) by (auto simp: dead_def)
  with f(2) h(3) have ne: "k \<noteq> h" "ag_id (rs_aggs s ! k) \<noteq> r" by auto
  have "room_out r u = room_out r s" by (rule room_out_own [OF o _ ne(2) k(1)]) (use d in \<open>simp add: dead_def\<close>)
  moreover have "registered r u = Some h" using reg f ne by (auto simp: registered_def)
  moreover have "ag_phase (rs_aggs u ! h) = Ended" using o d h(1) ne by (auto simp: own_def dead_def)
  ultimately show ?thesis by simp
qed

lemma dead_still:
  assumes d: "dead r h s" and o: "rs_out u = rs_out s" and l: "length (rs_aggs s) \<le> length (rs_aggs u)"
    and same: "\<And>k. k < length (rs_aggs s) \<Longrightarrow> ag_id (rs_aggs u ! k) = ag_id (rs_aggs s ! k) \<and> ag_phase (rs_aggs u ! k) = ag_phase (rs_aggs s ! k)"
    and reg: "registered r u = registered r s"
  shows "registered r u = Some h \<and> ag_phase (rs_aggs u ! h) = Ended \<and> room_out r u = room_out r s"
proof -
  have h: "h < length (rs_aggs s)"
    using d by (auto simp: dead_def registered_def registry_ok_def split: option.splits)
  have "filter (\<lambda>p. ag_id (rs_aggs u ! fst p) = r) (rs_out s) = filter (\<lambda>p. ag_id (rs_aggs s ! fst p) = r) (rs_out s)"
    by (rule filter_cong) (use d same in \<open>auto simp: dead_def lines_ok_def\<close>)
  then have "room_out r u = room_out r s" by (simp add: room_out_def o)
  with d reg same [OF h] show ?thesis by (simp add: dead_def)
qed

lemma dead_act:
  assumes d: "dead r h s" and run: "act_on cf l s = Ret u" and l: "l \<noteq> Shut"
  shows "dead r h u \<and> room_out r u = room_out r s"
proof -
  have "registered r u = Some h \<and> ag_phase (rs_aggs u ! h) = Ended \<and> room_out r u = room_out r s"
  proof (cases "u = s")
    case True with d show ?thesis by (simp add: dead_def)
  next
    case False
    show ?thesis
    proof (cases l)
      case (Get q)
      then obtain k where "getRoom cf q s = Ret (k, u)" using run by (auto simp: exec_bind_eq_Ret_iff)
      then obtain f where f: "rs_rooms s = Some f" "f q = None"
        and u: "u = s\<lparr>rs_aggs := rs_aggs s @ [NewRoomAggregator q (rc_batch cf)], rs_rooms := Some (f(q \<mapsto> length (rs_aggs s)))\<rparr>"
        using False by (auto simp: getRoom_def Let_def split: option.splits)
      have "q \<noteq> r" using d f by (auto simp: dead_def registered_def)
      with f show ?thesis by (intro dead_still [OF d]) (auto simp: u nth_append registered_def)
    next
      case (Start k opens)
      then have "pushproc_start cf opens k s = Ret u" "k < length (rs_aggs s)" "ag_phase (rs_aggs s ! k) = Created"
        using run False by (auto split: if_splits)
      then show ?thesis using own_start by (intro dead_own [OF d, of k]) auto
    next
      case (Push k op msg w)
      then show ?thesis using run by (intro dead_still [OF d])
          (auto simp: ra_Push_def try_send_def exec_bind_eq_Ret_iff nth_upd registered_def split: if_splits)
    next
      case (Fire k)
      then show ?thesis using run by (intro dead_still [OF d]) (auto simp: nth_upd registered_def split: if_splits)
    next
      case (Deliver k w)
      then show ?thesis using run by (intro dead_still [OF d])
          (auto simp: try_send_def exec_bind_eq_Ret_iff nth_upd registered_def split: if_splits)
    next
      case (Receive k)
      then have "receive cf k s = Ret u" "k < length (rs_aggs s)" "ag_phase (rs_aggs s ! k) = Looping"
        using run False by (auto split: if_splits)
      then show ?thesis using own_receive by (intro dead_own [OF d, of k]) auto
    next
      case (Idle k)
      then have i: "idle_exit k s = Ret u" "k < length (rs_aggs s)" "ag_phase (rs_aggs s ! k) = Looping"
        using run False by (auto split: if_splits)
      then show ?thesis using own_idle [OF i(1,2)] by (intro dead_own [OF d, of k]) (auto split: option.splits)
    next
      case (Clock t) then show ?thesis using run by (intro dead_still [OF d]) (auto simp: registered_def)
    next
      case Shut with l show ?thesis by simp
    qed
  qed
  moreover have "registry_ok u" "lines_ok u" using registry_act [OF _ run] lines_act [OF _ run] d by (simp_all add: dead_def)
  ultimately show ?thesis by (simp add: dead_def)
qed

lemma dead_for_good: "dead r h s \<Longrightarrow> Shut \<notin> set ls \<Longrightarrow> act_all cf ls s = Ret u \<Longrightarrow> dead r h u \<and> room_out r u = room_out r s"
proof (induction ls arbitrary: s)
  case (Cons l ls)
  then obtain t where t: "act_on cf l s = Ret t" "act_all cf ls t = Ret u" by (auto simp: exec_bind_eq_Ret_iff)
  have "dead r h t \<and> room_out r t = room_out r s" by (rule dead_act [OF Cons(2) t(1)]) (use Cons(3) in auto)
  with Cons t(2) show ?case by auto
qed (simp add: dead_def)

lemma registry_no_rooms [simp]: "registry_ok (no_rooms p fs now)"
  by (simp add: registry_ok_def no_rooms_def)

text \<open>A room that is quiet for a minute is dead. A batch sets the flush timer to one minute; when the timer fires and
  nothing was collected meanwhile, the goroutine ends, but its aggregator stays registered. The next message
  for the room is accepted, and whatever happens afterwards, short of closing the worker, nothing is ever
  sent to the room again.\<close>

theorem quiet_room_dies:
  assumes reach: "reaches cf (no_rooms p files now) s" and reg: "registered r s = Some h"
    and run: "ag_phase (rs_aggs s ! h) = Looping" "ag_n (rs_aggs s ! h) = 0" "ag_chan (rs_aggs s ! h) = []" "\<not> ag_closed (rs_aggs s ! h)"
    and due: "ag_signal (rs_aggs s ! h) = Some d" "d \<le> rs_now s" and room: "0 < ag_cap (rs_aggs s ! h)"
  shows "\<exists>t v. act_all cf [Fire h, Deliver h False, Receive h] s = Ret t \<and> act_all cf [Get r, Push h op msg False] t = Ret v
    \<and> accepted_by h v = accepted_by h s @ [room_proto op msg]
    \<and> (\<forall>ls u. Shut \<notin> set ls \<and> act_all cf ls v = Ret u \<longrightarrow> registered r u = Some h \<and> room_out r u = room_out r s)"
proof -
  have ok: "registry_ok s" "lines_ok s"
    using reaches_registry [OF reach registry_no_rooms] reaches_lines [OF reach lines_no_rooms] by auto
  then have h: "h < length (rs_aggs s)"
    using reg by (auto simp: registered_def registry_ok_def split: option.splits)
  let ?a = "(rs_aggs s ! h)\<lparr>ag_signal := None, ag_chan := []\<rparr>"
  let ?t = "stop_loop h (cleanWAL h (s\<lparr>rs_aggs := (rs_aggs s)[h := ?a]\<rparr>))"
  have t: "act_all cf [Fire h, Deliver h False, Receive h] s = Ret ?t"
    using h run due room by (simp add: try_send_def receive_def handle_item_def Let_def)
  have tr: "reaches cf (no_rooms p files now) ?t" by (rule act_all_reaches [OF reach t])
  obtain g where g: "?t = stop_loop h (s\<lparr>rs_aggs := (rs_aggs s)[h := ?a], rs_files := g\<rparr>)"
    using cleanWAL_only [of h "s\<lparr>rs_aggs := (rs_aggs s)[h := ?a]\<rparr>"] by auto
  have dt: "dead r h ?t"
    unfolding dead_def
  proof (intro conjI)
    show "registered r ?t = Some h" using reg by (simp add: registered_def)
    show "ag_phase (rs_aggs ?t ! h) = Ended" using h unfolding g by (simp add: stop_loop_def)
  qed (use reaches_registry [OF tr registry_no_rooms] reaches_lines [OF tr lines_no_rooms] in auto)
  have out: "room_out r ?t = room_out r s" "accepted_by h ?t = accepted_by h s"
    using h unfolding g by (simp_all add: room_out_def accepted_by_def stop_loop_def nth_list_update if_distrib cong: if_cong)
  let ?p = "room_proto op msg"
  let ?v = "?t\<lparr>rs_aggs := (rs_aggs ?t)[h := (rs_aggs ?t ! h)\<lparr>ag_chan := [Item ?p]\<rparr>], rs_acc := rs_acc ?t @ [(h, ?p)]\<rparr>"
  have th: "h < length (rs_aggs ?t)" "\<not> ag_closed (rs_aggs ?t ! h)" "ag_chan (rs_aggs ?t ! h) = []" "0 < ag_cap (rs_aggs ?t ! h)"
    using h run room unfolding g by (simp_all add: stop_loop_def)
  have gt: "getRoom cf r ?t = Ret (h, ?t)" using dt by (auto simp: getRoom_def dead_def registered_def split: option.splits)
  have v: "act_all cf [Get r, Push h op msg False] ?t = Ret ?v"
    using th by (simp add: gt ra_Push_def try_send_def)
  have acc: "accepted_by h ?v = accepted_by h s @ [?p]" using out(2) by (simp add: accepted_by_def)
  have "registered r u = Some h \<and> room_out r u = room_out r s" if "Shut \<notin> set ls" "act_all cf ls ?v = Ret u" for ls u
  proof -
    have dv: "dead r h ?v \<and> room_out r ?v = room_out r ?t" by (rule dead_for_good [OF dt _ v]) simp
    with dead_for_good [OF conjunct1 [OF dv] that] out(1) show ?thesis by (simp add: dead_def)
  qed
  with t v acc show ?thesis by blast
qed

theorem quiet_room_dies_witness:
  "\<exists>s t v. demo_rooms [Get ''r'', Start 0 False, Clock 2000000000] = Ret s
    \<and> act_all demo_room_conf [Fire 0, Deliver 0 False, Receive 0] s = Ret t
    \<and> act_all demo_room_conf [Get ''r'', Push 0 5 [1] False] t = Ret v
    \<and> accepted_by 0 v = [room_proto 5 [1]]
    \<and> (\<forall>ls u. Shut \<notin> set ls \<and> act_all demo_room_conf ls v = Ret u \<longrightarrow> registered ''r'' u = Some 0 \<and> room_out ''r'' u = [])"
proof -
  obtain s where s: "demo_rooms [Get ''r'', Start 0 False, Clock 2000000000] = Ret s"
      "registered ''r'' s = Some 0" "ag_phase (rs_aggs s ! 0) = Looping" "ag_n (rs_aggs s ! 0) = 0"
      "ag_chan (rs_aggs s ! 0) = []" "\<not> ag_closed (rs_aggs s ! 0)" "ag_signal (rs_aggs s ! 0) = Some 1000000000"
      "(1000000000 :: int) \<le> rs_now s" "0 < ag_cap (rs_aggs s ! 0)" "accepted_by 0 s = []" "room_out ''r'' s = []"
    by (simp add: run_rooms registered_def signal_time_def accepted_by_def room_out_def)
  have "reaches demo_room_conf (no_rooms NewCometClientPool (\<lambda>_. None) 0) s"
    using s(1) act_all_reaches [OF reaches_refl] unfolding demo_rooms_def by blast
  from quiet_room_dies [OF this s(2-9), of 5 "[1]"] s(1,10,11) show ?thesis by auto
qed

section \<open>Bounds, and the log after a crash\<close>

text \<open>The goroutine never waits with more messages than a batch, or one when batches are smaller.\<close>

lemma handle_item_bound:
  assumes "handle_item cf h x s = Ret u" "h < length (rs_aggs s)" "ag_n (rs_aggs s ! h) < max 2 (rc_batch cf)"
  shows "ag_n (rs_aggs u ! h) < max 2 (rc_batch cf)"
proof -
  have flush: "ag_n (rs_aggs u ! h) = 0" if fl: "flush_batch cf h t = Ret u" and hl: "h < length (rs_aggs t)" for t
  proof -
    let ?s0 = "writeWAL h (bw_Buffer (ag_buf (rs_aggs t ! h))) t"
    obtain s1 where s1: "send_batch h ?s0 = Ret s1"
      and u: "u = upd_agg h (\<lambda>a. a\<lparr>ag_buf := NewWriterSize (bw_Size (ag_buf a)), ag_n := 0,
            ag_signal := Some (rs_now t + minute), ag_idle := Some (rs_now t + idle_time cf)\<rparr>) (cleanWAL h s1)"
      using fl by (auto simp: flush_batch_def exec_bind_eq_Ret_iff)
    have "length (rs_aggs (cleanWAL h s1)) = length (rs_aggs t)"
      using alike_writeWAL [of t h] alike_cleanWAL [of s1 h] send_batch_only [OF s1] by (auto simp: alike_def)
    with hl show ?thesis by (simp add: u)
  qed
  have stop: "ag_n (rs_aggs (stop_loop h (cleanWAL h s)) ! h) = ag_n (rs_aggs s ! h)"
    using alike_cleanWAL [of s h] assms(2) by (simp add: stop_loop_def alike_def)
  show ?thesis
  proof (cases x)
    case None with assms stop show ?thesis by (auto simp: handle_item_def Let_def)
  next
    case (Some y)
    show ?thesis
    proof (cases y)
      case Ready
      with Some assms stop flush [of s] show ?thesis by (auto simp: handle_item_def Let_def split: if_splits)
    next
      case (Item p)
      obtain b where b: "WriteTo p (ag_buf (rs_aggs s ! h)) = Ret b"
        using assms(1) Some Item by (auto simp: handle_item_def Let_def exec_bind_eq_Ret_iff)
      let ?a = "rs_aggs s ! h"
      have "flush_batch cf h (upd_agg h (\<lambda>_. ?a\<lparr>ag_buf := b, ag_n := ag_n ?a + 1\<rparr>) s) = Ret u \<Longrightarrow> ag_n (rs_aggs u ! h) = 0"
        using flush assms(2) by simp
      then show ?thesis using assms b unfolding Some Item
        by (cases "ag_n ?a = 0"; cases "Suc (ag_n ?a) < rc_batch cf"; cases "rs_now s - ag_last ?a < signal_time cf")
          (auto simp: handle_item_def Let_def)
    qed
  qed
qed

lemma replay_gives:
  assumes "replayWAL h s = Ret s2" "rs_files s (ag_id (rs_aggs s ! h)) = Some b" "b \<noteq> []"
  shows "rs_replayed s2 = rs_replayed s @ [(h, b)]"
  using assms by (auto simp: replayWAL_def Let_def exec_bind_eq_Ret_iff dest!: bcast_only)

text \<open>When a worker stops between writing the log and clearing it, its successor sends the log to the room as it is, with
  the length in front of the frames. A reader of the frames takes the first two bytes of the length of the
  first packet for the length of the header, and ends the connection.\<close>

lemma crash_replay_unreadable:
  assumes wal: "ag_wal (rs_aggs s ! h)" "ag_id (rs_aggs s ! h) = r" "rs_files s r = Some []" "rc_wal cf"
    and data: "bw_Buffer (ag_buf (rs_aggs s ! h)) = frames (p # ps)" "frame_ok p"
    and crash: "t = writeWAL h (bw_Buffer (ag_buf (rs_aggs s ! h))) s"
    and run: "act_all cf [Get r, Start 0 opens] (no_rooms pool (rs_files t) now) = Ret u"
  shows "\<exists>b. rs_replayed u = [(0, b)] \<and> hdr_hlen b \<noteq> 16"
proof -
  let ?b = "put_be 4 (of_nat (length (frames (p # ps))) :: i32) @ frames (p # ps)"
  have f: "rs_files t r = Some ?b" using wal data by (simp add: crash writeWAL_def Let_def)
  let ?s1 = "(no_rooms pool (rs_files t) now)\<lparr>rs_aggs := [NewRoomAggregator r (rc_batch cf)], rs_rooms := Some ((\<lambda>_. None)(r \<mapsto> 0))\<rparr>"
  have st: "pushproc_start cf opens 0 ?s1 = Ret u"
    using run by (simp add: getRoom_def no_rooms_def NewRoomAggregator_def Let_def)
  then obtain s2 where s2: "replayWAL 0 ?s1 = Ret s2" using wal(4) by (auto simp: pushproc_start_def exec_bind_eq_Ret_iff)
  have "rs_replayed s2 = [(0, ?b)]"
    using replay_gives [OF s2, of ?b] f by (simp add: no_rooms_def NewRoomAggregator_def numeral_eq_Suc)
  then have "rs_replayed u = [(0, ?b)]" using st s2 wal(4) by (auto simp: pushproc_start_def Let_def)
  moreover have "hdr_hlen ?b \<noteq> 16"
  proof -
    have "frames (p # ps) = put_be 4 (pack_len p) @ drop 4 (proto_frame p) @ frames ps"
      by (simp add: frames_def proto_frame_def proto_header_def)
    then have sub: "sub_slice 4 6 ?b = take 2 (put_be 4 (pack_len p))" by (simp add: sub_slice_def)
    have "unat (pack_len p) = 16 + length (body_bytes p)"
      using data(2) by (simp add: pack_len_def frame_ok_def unat_word_ariths unsigned_of_nat take_bit_nat_eq_self)
    then have "unat (drop_bit 16 (pack_len p)) = 0" using data(2) by (simp add: unat_drop_bit_eq frame_ok_def) (simp add: drop_bit_eq_div)
    then have z: "drop_bit 16 (pack_len p) = 0" by (simp only: unat_eq_0)
    then have "drop_bit 8 (drop_bit 16 (pack_len p)) = 0" by simp
    then have "drop_bit 24 (pack_len p) = 0" by (simp only: drop_bit_drop_bit) simp
    with z have "take 2 (put_be 4 (pack_len p)) = [0, 0]" by (simp add: numeral_eq_Suc)
    with sub show ?thesis by (simp add: hdr_hlen_def get_be_def)
  qed
  ultimately show ?thesis by blast
qed

end
