(* ===== verification/Mq.thy ===== *)
theory Mq
  imports Int_Strings "HOL-Library.AList" "HOL-Library.Word"
begin

text \<open>
  Messages of the queue (\<open>internal/mq/types.go\<close>), and what goes to Kafka: the producer and the dead-letter queue of
  \<open>internal/mq/kafka\<close>. Kafka itself is a log of what was sent, with the answers to come; when none are left
  every send succeeds. The headers of a message are a map, kept as a list whose order is that of a walk
  over it.
\<close>

section \<open>Messages\<close>

record mq_msg =
  mm_Topic :: string
  mm_Key :: string
  mm_Value :: "byte list"
  mm_Headers :: "(string \<times> string) list"
  mm_Partition :: int
  mm_Offset :: int
  mm_Timestamp :: int

definition HeaderDelayedUntil :: string where "HeaderDelayedUntil = ''goim_delayed_until''"
definition HeaderPriority :: string where "HeaderPriority = ''goim_priority''"
definition HeaderTTLSeconds :: string where "HeaderTTLSeconds = ''goim_ttl_seconds''"
definition HeaderCreatedAtUnixMS :: string where "HeaderCreatedAtUnixMS = ''goim_created_at_unix_ms''"
definition HeaderDeliveryMode :: string where "HeaderDeliveryMode = ''goim_delivery_mode''"

text \<open>Looking up a header that is not there gives the empty string.\<close>

definition header :: "mq_msg \<Rightarrow> string \<Rightarrow> string" where
  "header m k = (case map_of (mm_Headers m) k of None \<Rightarrow> [] | Some v \<Rightarrow> v)"

definition MaxRetries :: int where "MaxRetries = 3"

text \<open>The error of a handler: any error, or one that asks for the dead-letter queue.\<close>

datatype handler_err = Plain gerr | DeadLetterError gerr string int

fun mq_err_text :: "gerr \<Rightarrow> string" where
  "mq_err_text (Text s) = s"
| "mq_err_text (Wrapped s e) = s @ '': '' @ mq_err_text e"
| "mq_err_text _ = ''i/o error''"

fun handler_err_text :: "handler_err \<Rightarrow> string" where
  "handler_err_text (Plain e) = mq_err_text e"
| "handler_err_text (DeadLetterError e reason n) = ''dead-letter: '' @ reason @ '': '' @ mq_err_text e"

fun isDeadLetter :: "handler_err \<Rightarrow> bool" where
  "isDeadLetter (DeadLetterError e reason n) = True"
| "isDeadLetter (Plain e) = False"

text \<open>\<open>v, _ := strconv.ParseInt(s, 10, 64)\<close>: with an error the value is 0, or the nearest number when it is out of range.\<close>

definition parse_lossy :: "string \<Rightarrow> int" where
  "parse_lossy s =
     (case ParseInt s 64 of
        Inr v \<Rightarrow> v
      | Inl e \<Rightarrow> if e = Text ''value out of range'' then (if hd s = CHR ''-'' then - (2 ^ 63) else 2 ^ 63 - 1) else 0)"

section \<open>Kafka\<close>

record kafka_msg =
  km_Topic :: string
  km_Key :: "string option"
  km_Value :: "byte list"
  km_Headers :: "(string \<times> string) list"

record 'm broker =
  br_sent :: "'m list"
  br_fates :: "gerr option list"

definition SendMessage :: "'m \<Rightarrow> 'm broker \<Rightarrow> gerr option \<times> 'm broker" where
  "SendMessage km b =
     (case br_fates b of
        Some e # fs \<Rightarrow> (Some e, b\<lparr>br_fates := fs\<rparr>)
      | fs \<Rightarrow> (None, b\<lparr>br_sent := br_sent b @ [km], br_fates := tl fs\<rparr>))"

section \<open>The producer\<close>

record producer =
  kp_pushTopic :: string
  kp_roomTopic :: string
  kp_allTopic :: string
  kp_dlqTopic :: string
  kp_fallback :: string
  kp_enablePriorityTopics :: bool
  kp_pushTopicHigh :: string
  kp_pushTopicNormal :: string
  kp_pushTopicLow :: string

definition SetPriorityTopics :: "string \<Rightarrow> string \<Rightarrow> string \<Rightarrow> producer \<Rightarrow> producer" where
  "SetPriorityTopics high normal low p = p\<lparr>kp_enablePriorityTopics := True, kp_pushTopicHigh := high,
     kp_pushTopicNormal := normal, kp_pushTopicLow := low\<rparr>"

definition SetDLQTopic :: "string \<Rightarrow> producer \<Rightarrow> producer" where
  "SetDLQTopic topic p = p\<lparr>kp_dlqTopic := topic\<rparr>"

definition topicFor :: "producer \<Rightarrow> string \<Rightarrow> string \<Rightarrow> string" where
  "topicFor p pushTopic specTopic =
     (if specTopic \<noteq> [] then specTopic else if pushTopic \<noteq> [] then pushTopic else kp_fallback p)"

definition pushTopicForPriority :: "producer \<Rightarrow> string \<Rightarrow> string" where
  "pushTopicForPriority p priority =
     (if \<not> kp_enablePriorityTopics p then topicFor p (kp_pushTopic p) (kp_pushTopic p)
      else if (priority = ''critical'' \<or> priority = ''high'') \<and> kp_pushTopicHigh p \<noteq> [] then kp_pushTopicHigh p
      else if priority = ''low'' \<and> kp_pushTopicLow p \<noteq> [] then kp_pushTopicLow p
      else if kp_pushTopicNormal p \<noteq> [] then kp_pushTopicNormal p
      else topicFor p (kp_pushTopic p) (kp_pushTopic p))"

definition EnqueueToTopic :: "producer \<Rightarrow> string \<Rightarrow> int \<Rightarrow> mq_msg \<Rightarrow> kafka_msg broker \<Rightarrow> gerr option \<times> kafka_msg broker" where
  "EnqueueToTopic p topic uid msg =
     SendMessage \<lparr>km_Topic = (if topic = [] then topicFor p (kp_pushTopic p) (kp_pushTopic p) else topic),
       km_Key = Some (if mm_Key msg = [] then FormatInt uid else mm_Key msg), km_Value = mm_Value msg,
       km_Headers = mm_Headers msg\<rparr>"

definition EnqueueToUser :: "producer \<Rightarrow> int \<Rightarrow> mq_msg \<Rightarrow> kafka_msg broker \<Rightarrow> gerr option \<times> kafka_msg broker" where
  "EnqueueToUser p uid msg = EnqueueToTopic p (pushTopicForPriority p (header msg HeaderPriority)) uid msg"

fun enqueue_each :: "string \<Rightarrow> mq_msg \<Rightarrow> int list \<Rightarrow> kafka_msg broker \<Rightarrow> gerr option \<times> kafka_msg broker" where
  "enqueue_each topic msg [] b = (None, b)"
| "enqueue_each topic msg (uid # uids) b =
     (case SendMessage \<lparr>km_Topic = topic, km_Key = Some (FormatInt uid), km_Value = mm_Value msg,
             km_Headers = mm_Headers msg\<rparr> b of
        (Some e, b1) \<Rightarrow> (Some e, b1)
      | (None, b1) \<Rightarrow> enqueue_each topic msg uids b1)"

definition EnqueueToUsers :: "producer \<Rightarrow> int list \<Rightarrow> mq_msg \<Rightarrow> kafka_msg broker \<Rightarrow> gerr option \<times> kafka_msg broker" where
  "EnqueueToUsers p uids msg = enqueue_each (pushTopicForPriority p (header msg HeaderPriority)) msg uids"

definition EnqueueToRoom :: "producer \<Rightarrow> string \<Rightarrow> mq_msg \<Rightarrow> kafka_msg broker \<Rightarrow> gerr option \<times> kafka_msg broker" where
  "EnqueueToRoom p roomID msg =
     SendMessage \<lparr>km_Topic = topicFor p (kp_roomTopic p) (kp_roomTopic p), km_Key = Some roomID, km_Value = mm_Value msg,
       km_Headers = mm_Headers msg\<rparr>"

definition EnqueueBroadcast :: "producer \<Rightarrow> mq_msg \<Rightarrow> int \<Rightarrow> kafka_msg broker \<Rightarrow> gerr option \<times> kafka_msg broker" where
  "EnqueueBroadcast p msg speed =
     SendMessage \<lparr>km_Topic = topicFor p (kp_allTopic p) (kp_allTopic p), km_Key = Some (FormatInt speed), km_Value = mm_Value msg,
       km_Headers = mm_Headers msg\<rparr>"

text \<open>\<open>now\<close> is the clock in milliseconds; the sum is one of 64-bit integers.\<close>

definition EnqueueDelayed :: "producer \<Rightarrow> int \<Rightarrow> int \<Rightarrow> mq_msg \<Rightarrow> i64 \<Rightarrow> kafka_msg broker \<Rightarrow> gerr option \<times> kafka_msg broker" where
  "EnqueueDelayed p now uid msg delayMs =
     (let deliverAt = sint (word_of_int now + delayMs)
      in SendMessage \<lparr>km_Topic = pushTopicForPriority p (header msg HeaderPriority), km_Key = Some (FormatInt uid),
           km_Value = mm_Value msg, km_Headers = mm_Headers msg @ [(HeaderDelayedUntil, FormatInt deliverAt)]\<rparr>)"

definition EnqueueToDLQ :: "producer \<Rightarrow> mq_msg \<Rightarrow> kafka_msg broker \<Rightarrow> gerr option \<times> kafka_msg broker" where
  "EnqueueToDLQ p msg =
     SendMessage \<lparr>km_Topic = (if kp_dlqTopic p = [] then kp_fallback p else kp_dlqTopic p), km_Key = Some (mm_Key msg),
       km_Value = mm_Value msg, km_Headers = mm_Headers msg\<rparr>"

section \<open>The dead-letter queue\<close>

definition DLQ_Send :: "string \<Rightarrow> mq_msg \<Rightarrow> string \<Rightarrow> kafka_msg broker \<Rightarrow> gerr option \<times> kafka_msg broker" where
  "DLQ_Send topic msg reason =
     SendMessage \<lparr>km_Topic = topic, km_Key = (if mm_Key msg \<noteq> [] then Some (mm_Key msg) else None), km_Value = mm_Value msg,
       km_Headers = mm_Headers msg @ (if reason \<noteq> [] then [(''dlq-reason'', reason)] else [])\<rparr>"

section \<open>Topics\<close>

text \<open>Urgent and bulk messages go different ways when their topics are set and different.\<close>

lemma priority_topics_apart:
  assumes "high \<noteq> []" "low \<noteq> []" "high \<noteq> low" "urgent = ''critical'' \<or> urgent = ''high''"
  shows "pushTopicForPriority (SetPriorityTopics high normal low p) urgent = high
    \<and> pushTopicForPriority (SetPriorityTopics high normal low p) ''low'' = low"
  using assms by (auto simp: pushTopicForPriority_def SetPriorityTopics_def)

end
