(* ===== verification/Kafka_Consumer.thy ===== *)
theory Kafka_Consumer
  imports Mq
begin

text \<open>
  The consumer of \<open>internal/mq/kafka/consumer.go\<close>: what a session does with the messages of a claim, in the order of
  their offsets, and with the timers it sets for delayed ones. The handler and the dead-letter queue are
  parameters that act on a state of their own; a handler may panic. Marking a message is a call of the
  Kafka library: the session keeps the marked offsets. Clocks are in milliseconds.
\<close>

section \<open>A message of a claim\<close>

record raw_msg =
  rw_Topic :: string
  rw_Key :: string
  rw_Value :: "byte list"
  rw_Headers :: "(string \<times> string) list"
  rw_Partition :: int
  rw_Offset :: int
  rw_Timestamp :: int

definition parse_raw :: "raw_msg \<Rightarrow> mq_msg" where
  "parse_raw raw = \<lparr>mm_Topic = rw_Topic raw, mm_Key = rw_Key raw, mm_Value = rw_Value raw,
     mm_Headers = foldl (\<lambda>h (k, v). AList.update k v h) [] (rw_Headers raw), mm_Partition = rw_Partition raw,
     mm_Offset = rw_Offset raw, mm_Timestamp = rw_Timestamp raw\<rparr>"

definition wrap64 :: "int \<Rightarrow> int" where
  "wrap64 x = sint (word_of_int x :: i64)"

definition checkTTLExpired :: "int \<Rightarrow> mq_msg \<Rightarrow> bool \<times> string" where
  "checkTTLExpired nowMS msg =
     (let ttlStr = header msg HeaderTTLSeconds
      in if ttlStr = [] then (False, [])
         else case ParseInt ttlStr 64 of
                Inl e \<Rightarrow> (False, [])
              | Inr ttlSec \<Rightarrow>
                  if ttlSec \<le> 0 then (False, [])
                  else
                    let createdStr = header msg HeaderCreatedAtUnixMS;
                        createdMS = (case ParseInt createdStr 64 of
                                       Inr v \<Rightarrow> if createdStr \<noteq> [] \<and> v > 0 then v else mm_Timestamp msg
                                     | Inl e \<Rightarrow> mm_Timestamp msg);
                        expireAtMS = wrap64 (createdMS + wrap64 (ttlSec * 1000))
                    in if nowMS > expireAtMS
                       then (True, ''ttl expired: '' @ FormatInt ttlSec @ ''s exceeded by '' @ FormatInt (wrap64 (nowMS - expireAtMS)) @ ''ms'')
                       else (False, []))"

definition delayed_until :: "mq_msg \<Rightarrow> int option" where
  "delayed_until msg =
     (case map_of (mm_Headers msg) HeaderDelayedUntil of
        None \<Rightarrow> None
      | Some v \<Rightarrow> (case ParseInt v 64 of Inl e \<Rightarrow> None | Inr t \<Rightarrow> Some t))"

section \<open>A session\<close>

type_synonym 's handler = "mq_msg \<Rightarrow> 's \<Rightarrow> (handler_err option \<times> 's) exec"
type_synonym 's dlq = "mq_msg \<Rightarrow> string \<Rightarrow> 's \<Rightarrow> gerr option \<times> 's"

record 's session =
  cs_env :: 's
  cs_marks :: "int list"
  cs_timers :: "(raw_msg \<times> mq_msg \<times> int) list"

definition MarkMessage :: "raw_msg \<Rightarrow> 's session \<Rightarrow> 's session" where
  "MarkMessage raw s = s\<lparr>cs_marks := cs_marks s @ [rw_Offset raw]\<rparr>"

text \<open>A message goes to the dead-letter queue, and is marked when that took it; without a queue it is marked or
  not, as \<open>alone\<close> says.\<close>

definition to_dlq :: "'s dlq option \<Rightarrow> bool \<Rightarrow> raw_msg \<Rightarrow> mq_msg \<Rightarrow> string \<Rightarrow> 's session \<Rightarrow> 's session" where
  "to_dlq dlq alone raw msg reason s =
     (case dlq of
        None \<Rightarrow> if alone then MarkMessage raw s else s
      | Some send \<Rightarrow>
          (case send msg reason (cs_env s) of
             (Some e, env) \<Rightarrow> s\<lparr>cs_env := env\<rparr>
           | (None, env) \<Rightarrow> MarkMessage raw (s\<lparr>cs_env := env\<rparr>)))"

text \<open>What happens to a message that is due, in the claim and in the timer alike.\<close>

definition settle :: "'s handler \<Rightarrow> 's dlq option \<Rightarrow> int \<Rightarrow> raw_msg \<Rightarrow> mq_msg \<Rightarrow> 's session \<Rightarrow> 's session exec" where
  "settle handler dlq now raw msg s =
     (let (expired, reason) = checkTTLExpired now msg
      in if expired then Ret (to_dlq dlq True raw msg reason s)
         else exec_bind (handler msg (cs_env s)) (\<lambda>(err, env).
           let s1 = s\<lparr>cs_env := env\<rparr>
           in case err of
                None \<Rightarrow> Ret (MarkMessage raw s1)
              | Some e \<Rightarrow> Ret (if isDeadLetter e then to_dlq dlq False raw msg (handler_err_text e) s1 else s1)))"

definition consume_one :: "'s handler \<Rightarrow> 's dlq option \<Rightarrow> int \<Rightarrow> raw_msg \<Rightarrow> 's session \<Rightarrow> 's session exec" where
  "consume_one handler dlq now raw s =
     (let msg = parse_raw raw
      in case delayed_until msg of
           Some deliverAt \<Rightarrow>
             if now < deliverAt then Ret (s\<lparr>cs_timers := cs_timers s @ [(raw, msg, deliverAt)]\<rparr>)
             else settle handler dlq now raw msg s
         | None \<Rightarrow> settle handler dlq now raw msg s)"

definition processDueMessage ::
    "'s handler \<Rightarrow> 's dlq option \<Rightarrow> bool \<Rightarrow> int \<Rightarrow> raw_msg \<Rightarrow> mq_msg \<Rightarrow> 's session \<Rightarrow> 's session exec" where
  "processDueMessage handler dlq cancelled now raw msg s =
     (if cancelled then Ret s else settle handler dlq now raw msg s)"

text \<open>A session, as the arrivals of the claim and the timers that fire, a timer not before its time.\<close>

datatype claim_event = Arrive int raw_msg | Due int nat bool

fun session_step :: "'s handler \<Rightarrow> 's dlq option \<Rightarrow> claim_event \<Rightarrow> 's session \<Rightarrow> 's session exec" where
  "session_step handler dlq (Arrive now raw) s = consume_one handler dlq now raw s"
| "session_step handler dlq (Due now i cancelled) s =
     (if i < length (cs_timers s) \<and> snd (snd (cs_timers s ! i)) \<le> now
      then let (raw, msg, deliverAt) = cs_timers s ! i
           in processDueMessage handler dlq cancelled now raw msg
                (s\<lparr>cs_timers := take i (cs_timers s) @ drop (Suc i) (cs_timers s)\<rparr>)
      else Ret s)"

fun ConsumeClaim :: "'s handler \<Rightarrow> 's dlq option \<Rightarrow> claim_event list \<Rightarrow> 's session \<Rightarrow> 's session exec" where
  "ConsumeClaim handler dlq [] s = Ret s"
| "ConsumeClaim handler dlq (ev # evs) s = exec_bind (session_step handler dlq ev s) (ConsumeClaim handler dlq evs)"

section \<open>Headers\<close>

lemma map_of_parse: "map_of (foldl (\<lambda>h (k, v). AList.update k v h) h0 hs) = map_of h0 ++ map_of (rev hs)"
proof (induction hs arbitrary: h0)
  case (Cons p hs)
  obtain k v where p: "p = (k, v)" by (cases p)
  show ?case by (simp add: p Cons.IH update_conv' map_add_def fun_eq_iff split: option.splits)
qed simp

lemma header_parse [simp]: "map_of (mm_Headers (parse_raw raw)) = map_of (rev (rw_Headers raw))"
  by (simp add: parse_raw_def map_of_parse)

lemma map_of_rev_distinct: "distinct (map fst hs) \<Longrightarrow> map_of (rev hs) = map_of hs"
proof (induction hs)
  case (Cons p hs)
  then have "fst p \<notin> dom (map_of hs)" by (simp add: dom_map_of_conv_image_fst)
  with Cons show ?case by (cases p) (auto simp: map_add_def fun_eq_iff split: option.splits)
qed simp

section \<open>A delayed message\<close>


text \<open>A handler that accepts everything and counts.\<close>

definition counting :: "nat handler" where
  "counting msg n = Ret (None, n + 1)"

definition demo_msg :: mq_msg where
  "demo_msg = \<lparr>mm_Topic = [], mm_Key = [], mm_Value = [1, 2], mm_Headers = [(HeaderDelayedUntil, ''0''), (HeaderPriority, ''low'')],
     mm_Partition = 0, mm_Offset = 0, mm_Timestamp = 0\<rparr>"

definition demo_producer :: producer where
  "demo_producer = \<lparr>kp_pushTopic = ''push'', kp_roomTopic = ''room'', kp_allTopic = ''all'', kp_dlqTopic = [], kp_fallback = [],
     kp_enablePriorityTopics = False, kp_pushTopicHigh = [], kp_pushTopicNormal = [], kp_pushTopicLow = []\<rparr>"

definition start_session :: "'s \<Rightarrow> 's session" where
  "start_session env = \<lparr>cs_env = env, cs_marks = [], cs_timers = []\<rparr>"


section \<open>A message that was not handled\<close>

text \<open>A message a claim passes over: it waits for its time, or the handler refuses it without asking for the
  dead-letter queue.\<close>

definition passed_over :: "'s handler \<Rightarrow> int \<Rightarrow> raw_msg \<Rightarrow> 's \<Rightarrow> 's \<Rightarrow> bool" where
  "passed_over handler now raw env env1 \<longleftrightarrow>
     (case delayed_until (parse_raw raw) of
        Some t \<Rightarrow> now < t \<and> env1 = env
      | None \<Rightarrow> \<not> fst (checkTTLExpired now (parse_raw raw)) \<and> (\<exists>e. handler (parse_raw raw) env = Ret (Some (Plain e), env1)))"

lemma passed_over_consume:
  assumes "passed_over handler now raw (cs_env s) env1"
  shows "\<exists>t. consume_one handler dlq now raw s = Ret (s\<lparr>cs_env := env1, cs_timers := t\<rparr>)"
  using assms
  by (cases s) (auto simp: passed_over_def consume_one_def settle_def Let_def split: option.splits prod.splits)


text \<open>A library that resumes after the last mark, and a handler that refuses empty messages.\<close>

definition after_marks :: "int list \<Rightarrow> int" where
  "after_marks marks = foldr max marks 0 + 1"

lemma after_marks: "off \<in> set marks \<Longrightarrow> off < after_marks marks"
proof (induction marks)
  case (Cons m ms)
  then show ?case by (cases "off = m") (auto simp: after_marks_def)
qed simp

definition choosy :: "nat handler" where
  "choosy msg n = (if mm_Value msg = [] then Ret (Some (Plain (Text ''empty'')), n) else Ret (None, n + 1))"

definition demo_raw :: "int \<Rightarrow> byte list \<Rightarrow> raw_msg" where
  "demo_raw off bs = \<lparr>rw_Topic = ''t'', rw_Key = [], rw_Value = bs, rw_Headers = [], rw_Partition = 0, rw_Offset = off, rw_Timestamp = 0\<rparr>"


end
