(* ===== verification/Worker.thy ===== *)
theory Worker
  imports Room_Aggregator Kafka_Consumer Redis_Store "HOL-Library.Signed_Division"
begin

text \<open>
  The delivery worker, \<open>internal/worker/worker.go\<close> with the sends of \<open>dispatch.go\<close>: what it does with a message of the
  queue, how it counts retries, and how it is set up. Its state holds the rooms with the pool of Comet nodes,
  the Redis of the retry counter, and the broker the retry producer sends to. The decoding of a message is a
  parameter. A goroutine of a room may be waiting or not when a message comes; that is an argument.
\<close>

section \<open>Messages of the worker\<close>

text \<open>The fields of a push message; its type is 0 for a push, 1 for a room and 2 for a broadcast.\<close>

record push_msg =
  wp_Type :: nat
  wp_Operation :: i32
  wp_Server :: string
  wp_Keys :: "string list"
  wp_Room :: string
  wp_Msg :: "byte list"
  wp_Speed :: i32

record worker_conf =
  wc_RoutineChan :: nat
  wc_RoutineSize :: nat
  wc_RoomBatch :: nat
  wc_RoomSignal :: int
  wc_RoomIdle :: int
  wc_WAL :: bool
  wc_RetryCounter :: bool
  wc_RetryProducer :: "producer option"
  wc_RetryToTopic :: string

record worker =
  wk_cfg :: worker_conf
  wk_rooms :: rooms
  wk_redis :: redis
  wk_broker :: "kafka_msg broker"

definition conf_of_rooms :: "worker_conf \<Rightarrow> room_conf" where
  "conf_of_rooms cfg = \<lparr>rc_batch = wc_RoomBatch cfg, rc_signal = wc_RoomSignal cfg, rc_idle = wc_RoomIdle cfg, rc_wal = wc_WAL cfg\<rparr>"

text \<open>The defaults reach the pool; the configuration was copied before they were set.\<close>

definition New_worker :: "worker_conf \<Rightarrow> (string \<Rightarrow> byte list option) \<Rightarrow> int \<Rightarrow> redis \<Rightarrow> kafka_msg broker \<Rightarrow> worker" where
  "New_worker cfg files now r b =
     (let cfg1 = cfg\<lparr>wc_RoutineSize := (if wc_RoutineSize cfg = 0 then 32 else wc_RoutineSize cfg),
                     wc_RoutineChan := (if wc_RoutineChan cfg = 0 then 1024 else wc_RoutineChan cfg),
                     wc_RoomBatch := (if wc_RoomBatch cfg = 0 then 20 else wc_RoomBatch cfg),
                     wc_RoomSignal := (if wc_RoomSignal cfg = 0 then 1000000000 else wc_RoomSignal cfg)\<rparr>
      in \<lparr>wk_cfg = cfg, wk_rooms = no_rooms (cp_SetConfig (wc_RoutineSize cfg1) (wc_RoutineChan cfg1) NewCometClientPool) files now,
          wk_redis = r, wk_broker = b\<rparr>)"

section \<open>Sending\<close>

text \<open>A packet inside a packet: the body is the frame of the message.\<close>

definition wrap_proto :: "i32 \<Rightarrow> byte list \<Rightarrow> proto exec" where
  "wrap_proto op body =
     (let p = \<lparr>Ver = 1, Op = op, Seq = 0, Body = Some body\<rparr>
      in exec_bind (WriteTo p (NewWriterSize (length body + 64))) (\<lambda>buf.
           Ret (p\<lparr>Body := Some (bw_Buffer buf), Op := OpRaw\<rparr>)))"

abbreviation with_pool :: "comet_pool \<Rightarrow> worker \<Rightarrow> worker" where
  "with_pool p w \<equiv> w\<lparr>wk_rooms := (wk_rooms w)\<lparr>rs_pool := p\<rparr>\<rparr>"

definition pushKeys :: "i32 \<Rightarrow> string \<Rightarrow> string list \<Rightarrow> byte list \<Rightarrow> worker \<Rightarrow> (gerr option \<times> worker) exec" where
  "pushKeys op serverID subKeys body w =
     exec_bind (wrap_proto op body) (\<lambda>p.
     exec_bind (cp_Push serverID \<lparr>pq_Keys = subKeys, pq_Op = op, pq_Proto = p\<rparr> (rs_pool (wk_rooms w))) (\<lambda>(e, pool).
       Ret (e, with_pool pool w)))"

definition share_speed :: "i32 \<Rightarrow> nat \<Rightarrow> i32" where
  "share_speed speed n = (if 0 < n then word_of_int (sint speed sdiv sint (of_nat n :: i32)) else speed)"

definition broadcast :: "i32 \<Rightarrow> byte list \<Rightarrow> i32 \<Rightarrow> worker \<Rightarrow> (gerr option \<times> worker) exec" where
  "broadcast op body speed w =
     exec_bind (wrap_proto op body) (\<lambda>p.
     let pool = rs_pool (wk_rooms w)
     in exec_bind (cp_Broadcast \<lparr>bq_Op = op, bq_Proto = p, bq_Speed = share_speed speed (cp_Len pool)\<rparr> pool) (\<lambda>(e, pool1).
          Ret (e, with_pool pool1 w)))"

definition push_room :: "bool \<Rightarrow> i32 \<Rightarrow> string \<Rightarrow> byte list \<Rightarrow> worker \<Rightarrow> (gerr option \<times> worker) exec" where
  "push_room waiting op roomID body w =
     exec_bind (getRoom (conf_of_rooms (wk_cfg w)) roomID (wk_rooms w)) (\<lambda>(h, s).
     exec_bind (ra_Push h op body waiting s) (\<lambda>(e, s1). Ret (e, w\<lparr>wk_rooms := s1\<rparr>)))"

section \<open>Retries\<close>

definition retry_key :: "string \<Rightarrow> int \<Rightarrow> int \<Rightarrow> string" where
  "retry_key topic part offset = ''retry_cnt:'' @ topic @ '':'' @ FormatInt part @ '':'' @ FormatInt offset"

definition RetryCounter_Incr :: "string \<Rightarrow> int \<Rightarrow> int \<Rightarrow> redis \<Rightarrow> (gerr + int) \<times> redis" where
  "RetryCounter_Incr topic part offset =
     rtrip_sum (\<lambda>r. let key = retry_key topic part offset; (x, r1) = incrby key 1 r
       in (x, case x of Inl e \<Rightarrow> r1 | Inr n \<Rightarrow> expire key 3600000 r1))"

definition checkRetry :: "mq_msg \<Rightarrow> gerr option \<Rightarrow> worker \<Rightarrow> handler_err option \<times> worker" where
  "checkRetry msg pushErr w =
     (case pushErr of
        None \<Rightarrow> (None, w)
      | Some pe \<Rightarrow>
          if \<not> wc_RetryCounter (wk_cfg w) then (Some (Plain pe), w)
          else
            let (x, r) = RetryCounter_Incr (mm_Topic msg) (mm_Partition msg) (mm_Offset msg) (wk_redis w);
                w1 = w\<lparr>wk_redis := r\<rparr>
            in case x of
                 Inl e \<Rightarrow> (Some (Plain pe), w1)
               | Inr cnt \<Rightarrow>
                   if cnt \<ge> MaxRetries
                   then (case wc_RetryProducer (wk_cfg w) of
                           Some p \<Rightarrow>
                             if wc_RetryToTopic (wk_cfg w) \<noteq> []
                             then let uid = parse_lossy (mm_Key msg);
                                      (e, b) = EnqueueToTopic p (wc_RetryToTopic (wk_cfg w)) uid msg (wk_broker w1);
                                      w2 = w1\<lparr>wk_broker := b\<rparr>
                                  in (case e of Some ee \<Rightarrow> (Some (Plain pe), w2) | None \<Rightarrow> (None, w2))
                             else (Some (DeadLetterError pe (''max retries exceeded ('' @ FormatInt cnt @ '')'') cnt), w1)
                         | None \<Rightarrow> (Some (DeadLetterError pe (''max retries exceeded ('' @ FormatInt cnt @ '')'') cnt), w1))
                   else (Some (Plain pe), w1))"

definition handlePushResult :: "mq_msg \<Rightarrow> gerr option \<Rightarrow> bool \<Rightarrow> worker \<Rightarrow> handler_err option \<times> worker" where
  "handlePushResult msg pushErr transient w =
     (if transient \<and> pushErr \<noteq> None then (None, w) else checkRetry msg pushErr w)"

definition processMessage :: "(byte list \<Rightarrow> push_msg option) \<Rightarrow> bool \<Rightarrow> worker handler" where
  "processMessage unmarshal waiting msg w =
     (let transient = (header msg HeaderDeliveryMode = ''1'');
          settle1 = (\<lambda>(e, w1). Ret (handlePushResult msg e transient w1))
      in case unmarshal (mm_Value msg) of
           None \<Rightarrow> Ret (None, w)
         | Some m \<Rightarrow>
             if wp_Type m = 0 then exec_bind (pushKeys (wp_Operation m) (wp_Server m) (wp_Keys m) (wp_Msg m) w) settle1
             else if wp_Type m = 1 then exec_bind (push_room waiting (wp_Operation m) (wp_Room m) (wp_Msg m) w) settle1
             else if wp_Type m = 2 then exec_bind (broadcast (wp_Operation m) (wp_Msg m) (wp_Speed m) w) settle1
             else Ret (None, w))"

definition UpdateComets :: "(string \<Rightarrow> string \<Rightarrow> gerr option) \<Rightarrow> (string \<times> string) list \<Rightarrow> worker \<Rightarrow> worker" where
  "UpdateComets dial addrs w = with_pool (cp_Update dial addrs (rs_pool (wk_rooms w))) w"

definition wk_Close :: "worker \<Rightarrow> worker exec" where
  "wk_Close w = exec_bind (act_on (conf_of_rooms (wk_cfg w)) Shut (wk_rooms w)) (\<lambda>s. Ret (w\<lparr>wk_rooms := s\<rparr>))"

section \<open>The defaults of a room\<close>

text \<open>With no batch size configured rooms have none: the channel of an aggregator has no buffer, and a message is
  refused unless the goroutine happens to be waiting.\<close>

lemma default_batch_lost:
  assumes "wc_RoomBatch cfg = 0"
  shows "\<exists>w1. push_room False op r body (New_worker cfg files now rd b) = Ret (Some (Text (''room aggregator buffer full: room='' @ r)), w1)"
  using assms by (simp add: push_room_def New_worker_def conf_of_rooms_def getRoom_def no_rooms_def ra_Push_def try_send_def
      NewRoomAggregator_def Let_def)

section \<open>What a handled message has become\<close>

lemma wrap_proto_spec:
  "\<exists>p. wrap_proto op body = Ret p \<and> Op p = OpRaw \<and> body_bytes p = proto_frame \<lparr>Ver = 1, Op = op, Seq = 0, Body = Some body\<rparr>"
  using WriteTo_spec [OF bw_ok_New, of "\<lparr>Ver = 1, Op = op, Seq = 0, Body = Some body\<rparr>" "length body + 64"]
  by (auto simp: wrap_proto_def Let_def body_bytes_def)

definition pool_ok :: "comet_pool \<Rightarrow> bool" where
  "pool_ok p \<longleftrightarrow> (\<forall>(h, c) \<in> set (cp_servers p). client_ok c)"

lemma map_of_update_same: "map_of xs k \<noteq> None \<Longrightarrow> map_of (AList.update k v xs) k = Some v"
  by (simp add: update_conv')

text \<open>A push that was accepted is with one node, which was handed the frame of the message for its connections.\<close>

lemma cp_Push_accepted:
  assumes "pool_ok p" "cp_Push sid arg p = Ret (None, p')"
  shows "\<exists>c c'. map_of (cp_servers p) sid = Some c \<and> map_of (cp_servers p') sid = Some c'
    \<and> in_hand c' = in_hand c + {#Call_Push arg#}"
proof -
  obtain c where c: "map_of (cp_servers p) sid = Some c"
    using assms(2) by (auto simp: cp_Push_def split: option.splits)
  with assms(1) have "client_ok c" by (auto simp: pool_ok_def dest!: map_of_SomeD)
  from cc_push_spec [OF this, of arg] obtain e c' where c': "cc_push arg c = Ret (e, c')"
      "in_hand c' = in_hand c + (if e = None then {#Call_Push arg#} else {#})" by blast
  with assms(2) c show ?thesis by (auto simp: cp_Push_def map_of_update_same)
qed

lemma checkRetry_handled:
  assumes "checkRetry msg (Some pe) w = (None, w')"
  shows "\<exists>km. br_sent (wk_broker w') = br_sent (wk_broker w) @ [km] \<and> km_Topic km = wc_RetryToTopic (wk_cfg w)
    \<and> km_Value km = mm_Value msg \<and> km_Headers km = mm_Headers msg"
  using assms by (auto simp: checkRetry_def Let_def EnqueueToTopic_def SendMessage_def
      split: option.splits prod.splits if_splits sum.splits list.splits)

text \<open>Property C22. A push the worker reports as handled is in other hands. When it reports no error for a push that is not
  transient, so that the consumer marks it, the node of the push has been handed its frame for the keys it
  names, or the message has been sent, as it is, to the topic for exhausted retries.\<close>

theorem handled_push_is_taken:
  assumes ok: "pool_ok (rs_pool (wk_rooms w))" and m: "unmarshal (mm_Value msg) = Some m" "wp_Type m = 0"
    and keep: "header msg HeaderDeliveryMode \<noteq> ''1''" and run: "processMessage unmarshal waiting msg w = Ret (None, w')"
  shows "(\<exists>c c' p. map_of (cp_servers (rs_pool (wk_rooms w))) (wp_Server m) = Some c
        \<and> map_of (cp_servers (rs_pool (wk_rooms w'))) (wp_Server m) = Some c'
        \<and> in_hand c' = in_hand c + {#Call_Push \<lparr>pq_Keys = wp_Keys m, pq_Op = wp_Operation m, pq_Proto = p\<rparr>#}
        \<and> body_bytes p = proto_frame \<lparr>Ver = 1, Op = wp_Operation m, Seq = 0, Body = Some (wp_Msg m)\<rparr>)
    \<or> (\<exists>km. br_sent (wk_broker w') = br_sent (wk_broker w) @ [km] \<and> km_Topic km = wc_RetryToTopic (wk_cfg w)
        \<and> km_Value km = mm_Value msg \<and> km_Headers km = mm_Headers msg)"
proof -
  obtain p where p: "wrap_proto (wp_Operation m) (wp_Msg m) = Ret p"
      "body_bytes p = proto_frame \<lparr>Ver = 1, Op = wp_Operation m, Seq = 0, Body = Some (wp_Msg m)\<rparr>"
    using wrap_proto_spec by blast
  let ?arg = "\<lparr>pq_Keys = wp_Keys m, pq_Op = wp_Operation m, pq_Proto = p\<rparr>"
  obtain e pool where push: "cp_Push (wp_Server m) ?arg (rs_pool (wk_rooms w)) = Ret (e, pool)"
    and rest: "checkRetry msg e (with_pool pool w) = (None, w')"
    using run m keep p(1) by (auto simp: processMessage_def pushKeys_def handlePushResult_def Let_def exec_bind_eq_Ret_iff)
  show ?thesis
  proof (cases e)
    case None
    with rest have "w' = with_pool pool w" by (simp add: checkRetry_def)
    with cp_Push_accepted [OF ok push [unfolded None]] p(2) show ?thesis by auto
  next
    case (Some pe)
    from checkRetry_handled [OF rest [unfolded Some]] show ?thesis by simp
  qed
qed

section \<open>Retries end\<close>

lemma RetryCounter_Incr_fine:
  assumes "rd_fates r = []" "rd_str r (retry_key t p off) = (if n = 0 then None else Some (FormatInt n))" "0 \<le> n" "n < 100"
  shows "\<exists>r'. RetryCounter_Incr t p off r = (Inr (n + 1), r') \<and> rd_fates r' = []
    \<and> rd_str r' (retry_key t p off) = Some (FormatInt (n + 1))"
  using assms by (cases "n = 0")
    (auto simp: RetryCounter_Incr_def rtrip_sum_def rtrip_def Let_def incrby_def ParseInt_FormatInt expire_def)

text \<open>A message is retried no more than twice. While the retry counter answers, the third failure of a message ends its
  retries: the message is sent to the topic for exhausted retries when there is one and that send succeeds,
  and else the handler asks for the dead-letter queue. The two failures before are reported as they are.\<close>

theorem retries_end:
  assumes cfg: "wc_RetryCounter (wk_cfg w)" and fine: "rd_fates (wk_redis w) = []"
    and fresh: "rd_str (wk_redis w) (retry_key (mm_Topic msg) (mm_Partition msg) (mm_Offset msg)) = None"
    and broker: "br_fates (wk_broker w) = []"
  shows "\<exists>w1 w2 w3 x. checkRetry msg (Some e1) w = (Some (Plain e1), w1) \<and> checkRetry msg (Some e2) w1 = (Some (Plain e2), w2)
    \<and> checkRetry msg (Some e3) w2 = (x, w3)
    \<and> x = (if wc_RetryProducer (wk_cfg w) \<noteq> None \<and> wc_RetryToTopic (wk_cfg w) \<noteq> [] then None
           else Some (DeadLetterError e3 ''max retries exceeded (3)'' 3))"
proof -
  let ?k = "retry_key (mm_Topic msg) (mm_Partition msg) (mm_Offset msg)"
  note incr = RetryCounter_Incr_fine [where t = "mm_Topic msg" and p = "mm_Partition msg" and off = "mm_Offset msg"]
  obtain r1 where r1: "RetryCounter_Incr (mm_Topic msg) (mm_Partition msg) (mm_Offset msg) (wk_redis w) = (Inr 1, r1)"
      "rd_fates r1 = []" "rd_str r1 ?k = Some (FormatInt 1)"
    using incr [where n = 0 and r = "wk_redis w"] fine fresh by auto
  obtain r2 where r2: "RetryCounter_Incr (mm_Topic msg) (mm_Partition msg) (mm_Offset msg) r1 = (Inr 2, r2)"
      "rd_fates r2 = []" "rd_str r2 ?k = Some (FormatInt 2)"
    using incr [where n = 1 and r = r1] r1 by auto
  obtain r3 where r3: "RetryCounter_Incr (mm_Topic msg) (mm_Partition msg) (mm_Offset msg) r2 = (Inr 3, r3)"
    using incr [where n = 2 and r = r2] r2 by auto
  let ?w1 = "w\<lparr>wk_redis := r1\<rparr>" and ?w2 = "w\<lparr>wk_redis := r2\<rparr>"
  have 1: "checkRetry msg (Some e1) w = (Some (Plain e1), ?w1)" using cfg r1 by (simp add: checkRetry_def MaxRetries_def)
  have 2: "checkRetry msg (Some e2) ?w1 = (Some (Plain e2), ?w2)" using cfg r2 by (simp add: checkRetry_def MaxRetries_def)
  have "fst (checkRetry msg (Some e3) ?w2) = (if wc_RetryProducer (wk_cfg w) \<noteq> None \<and> wc_RetryToTopic (wk_cfg w) \<noteq> [] then None
           else Some (DeadLetterError e3 ''max retries exceeded (3)'' 3))"
  proof -
    have "FormatInt 3 = ''3''" by code_simp
    with cfg r3 broker show ?thesis
      by (auto simp: checkRetry_def MaxRetries_def EnqueueToTopic_def SendMessage_def Let_def split: option.splits)
  qed
  with 1 2 show ?thesis by (metis (no_types, lifting) prod.collapse)
qed

definition demo_worker :: worker where
  "demo_worker = (New_worker \<lparr>wc_RoutineChan = 0, wc_RoutineSize = 2, wc_RoomBatch = 3, wc_RoomSignal = 0, wc_RoomIdle = 0, wc_WAL = False,
       wc_RetryCounter = True, wc_RetryProducer = None, wc_RetryToTopic = []\<rparr> (\<lambda>_. None) 0 empty_redis \<lparr>br_sent = [], br_fates = []\<rparr>)"

definition one_node :: worker where
  "one_node = UpdateComets (\<lambda>_ _. None) [(''c1'', ''10.0.0.1'')] demo_worker"

definition demo_queued :: mq_msg where
  "demo_queued = \<lparr>mm_Topic = ''push'', mm_Key = ''7'', mm_Value = [9], mm_Headers = [], mm_Partition = 0, mm_Offset = 4, mm_Timestamp = 0\<rparr>"

definition demo_unmarshal :: "byte list \<Rightarrow> push_msg option" where
  "demo_unmarshal bs = (if bs = [9] then Some \<lparr>wp_Type = 0, wp_Operation = 5, wp_Server = ''c1'', wp_Keys = [''k''], wp_Room = [],
     wp_Msg = [1, 2], wp_Speed = 0\<rparr> else None)"

lemmas run_worker = one_node_def demo_worker_def UpdateComets_def New_worker_def no_rooms_def cp_Update_def cp_SetConfig_def
  NewCometClientPool_def

lemma one_node_pool: "rs_pool (wk_rooms one_node) = \<lparr>cp_servers = [(''c1'', newCometClient ''c1'' 2 1024)], cp_routineSize = 2, cp_routineChan = 1024\<rparr>"
  by (simp add: run_worker)

theorem handled_push_is_taken_witness:
  "\<exists>w'. processMessage demo_unmarshal False demo_queued one_node = Ret (None, w')
    \<and> ((\<exists>c c' p. map_of (cp_servers (rs_pool (wk_rooms one_node))) ''c1'' = Some c
        \<and> map_of (cp_servers (rs_pool (wk_rooms w'))) ''c1'' = Some c'
        \<and> in_hand c' = in_hand c + {#Call_Push \<lparr>pq_Keys = [''k''], pq_Op = 5, pq_Proto = p\<rparr>#}
        \<and> body_bytes p = proto_frame \<lparr>Ver = 1, Op = 5, Seq = 0, Body = Some [1, 2]\<rparr>)
      \<or> (\<exists>km. br_sent (wk_broker w') = br_sent (wk_broker one_node) @ [km] \<and> km_Topic km = wc_RetryToTopic (wk_cfg one_node)
        \<and> km_Value km = mm_Value demo_queued \<and> km_Headers km = mm_Headers demo_queued))"
proof -
  obtain p where p: "wrap_proto 5 [1, 2] = Ret p" using wrap_proto_spec by blast
  have ok: "pool_ok (rs_pool (wk_rooms one_node))" by (simp add: one_node_pool pool_ok_def client_ok_new)
  have keep: "header demo_queued HeaderDeliveryMode \<noteq> ''1''" by (simp add: header_def demo_queued_def)
  obtain pool where "cp_Push ''c1'' \<lparr>pq_Keys = [''k''], pq_Op = 5, pq_Proto = p\<rparr> (rs_pool (wk_rooms one_node)) = Ret (None, pool)"
    by (simp add: one_node_pool cp_Push_def cc_push_def newCometClient_def next_chan_def)
  then have run: "processMessage demo_unmarshal False demo_queued one_node = Ret (None, with_pool pool one_node)"
    using p keep by (simp add: processMessage_def pushKeys_def handlePushResult_def checkRetry_def demo_unmarshal_def demo_queued_def)
  from handled_push_is_taken [OF ok _ _ keep run, of "the (demo_unmarshal [9])"] run show ?thesis
    by (simp add: demo_unmarshal_def demo_queued_def)
qed

theorem retries_end_witness:
  "\<exists>w1 w2 w3 x. checkRetry demo_queued (Some EOF) demo_worker = (Some (Plain EOF), w1)
    \<and> checkRetry demo_queued (Some EOF) w1 = (Some (Plain EOF), w2) \<and> checkRetry demo_queued (Some EOF) w2 = (x, w3)
    \<and> x = Some (DeadLetterError EOF ''max retries exceeded (3)'' 3)"
  using retries_end [of demo_worker demo_queued EOF EOF EOF] by (simp add: run_worker empty_redis_def)

end
