(* ===== verification/Ack_Batcher.thy ===== *)
theory Ack_Batcher
  imports Mq "HOL-Library.Multiset"
begin

text \<open>
  Acknowledgement events on their way to Kafka, \<open>internal/mq/kafka/ack_batcher.go\<close> and \<open>EnqueueACK\<close> of \<open>producer.go\<close>: a
  queue, a goroutine that collects what comes out of it by user and context, and a send when a batch is
  full, when the ticker ticks, or at the end. Callers, the goroutine and \<open>Close\<close> interleave. The payload of a
  Kafka message is kept as the event it encodes. \<open>ord\<close> is the order of a walk over the pending batches.
\<close>

section \<open>Events\<close>

record AckEvent =
  ae_MsgID :: string
  ae_MsgIDs :: "string list"
  ae_UserID :: string
  ae_UID :: int
  ae_DeviceID :: string
  ae_SessionID :: string
  ae_AckTime :: int
  ae_FirstAckTime :: int
  ae_Status :: string
  ae_TargetNode :: string
  ae_TraceID :: string
  ae_Count :: int
  ae_Batched :: bool
  ae_NotifyID :: string

record ackBatchKey =
  bk_userID :: string
  bk_uid :: int
  bk_status :: string
  bk_targetNode :: string
  bk_deviceID :: string
  bk_sessionID :: string
  bk_traceID :: string
  bk_notifyID :: string

record ackBatch =
  ab_key :: ackBatchKey
  ab_msgIDs :: "string list"
  ab_firstAckTime :: int
  ab_lastAckTime :: int

definition defaultACKBatchMax :: nat where "defaultACKBatchMax = 100"
definition defaultACKQueueSize :: nat where "defaultACKQueueSize = 4096"

definition normalizeACKEvent :: "int \<Rightarrow> AckEvent \<Rightarrow> AckEvent" where
  "normalizeACKEvent now e =
     (let e1 = (if ae_UID e = 0 \<and> ae_UserID e \<noteq> [] then e\<lparr>ae_UID := parse_lossy (ae_UserID e)\<rparr> else e);
          e2 = (if ae_UserID e1 = [] \<and> ae_UID e1 \<noteq> 0 then e1\<lparr>ae_UserID := FormatInt (ae_UID e1)\<rparr> else e1);
          e3 = (if ae_AckTime e2 = 0 then e2\<lparr>ae_AckTime := now\<rparr> else e2);
          e4 = (if ae_MsgID e3 = [] \<and> ae_MsgIDs e3 \<noteq> [] then e3\<lparr>ae_MsgID := hd (ae_MsgIDs e3)\<rparr> else e3)
      in if ae_MsgIDs e4 = [] \<and> ae_MsgID e4 \<noteq> [] then e4\<lparr>ae_MsgIDs := [ae_MsgID e4]\<rparr> else e4)"

definition ackKey :: "AckEvent \<Rightarrow> ackBatchKey" where
  "ackKey e = \<lparr>bk_userID = ae_UserID e, bk_uid = ae_UID e, bk_status = ae_Status e, bk_targetNode = ae_TargetNode e,
     bk_deviceID = ae_DeviceID e, bk_sessionID = ae_SessionID e, bk_traceID = ae_TraceID e, bk_notifyID = ae_NotifyID e\<rparr>"

fun unique_step :: "string \<Rightarrow> string list \<Rightarrow> string list" where
  "unique_step x out = (if x = [] \<or> x \<in> set out then out else out @ [x])"

definition uniqueMsgIDs :: "string list \<Rightarrow> string list" where
  "uniqueMsgIDs ids = fold unique_step ids []"

definition ackMsgIDs :: "AckEvent \<Rightarrow> string list" where
  "ackMsgIDs e = uniqueMsgIDs (ae_MsgIDs e @ (if ae_MsgID e \<noteq> [] then [ae_MsgID e] else []))"

section \<open>Sending a batch\<close>

record ack_out =
  ao_Topic :: string
  ao_Key :: string
  ao_Event :: AckEvent
  ao_Trace :: string

definition buildACKBatchValue :: "ackBatch \<Rightarrow> AckEvent" where
  "buildACKBatchValue batch =
     (let k = ab_key batch; ids = ab_msgIDs batch;
          userID = (if bk_userID k = [] \<and> bk_uid k \<noteq> 0 then FormatInt (bk_uid k) else bk_userID k)
      in \<lparr>ae_MsgID = hd ids, ae_MsgIDs = uniqueMsgIDs ids, ae_UserID = userID, ae_UID = bk_uid k, ae_DeviceID = bk_deviceID k,
          ae_SessionID = bk_sessionID k, ae_AckTime = ab_lastAckTime batch, ae_FirstAckTime = ab_firstAckTime batch,
          ae_Status = bk_status k, ae_TargetNode = bk_targetNode k, ae_TraceID = bk_traceID k,
          ae_Count = int (length (uniqueMsgIDs ids)), ae_Batched = (1 < length ids), ae_NotifyID = bk_notifyID k\<rparr>)"

definition sendACKBatch :: "string \<Rightarrow> string \<Rightarrow> ackBatch \<Rightarrow> ack_out broker \<Rightarrow> gerr option \<times> ack_out broker" where
  "sendACKBatch ctxTrace topic batch b =
     (if topic = [] \<or> ab_msgIDs batch = [] then (None, b)
      else let k = ab_key batch
        in SendMessage \<lparr>ao_Topic = topic, ao_Key = (if bk_userID k = [] then hd (ab_msgIDs batch) else bk_userID k),
             ao_Event = buildACKBatchValue batch, ao_Trace = (if bk_traceID k = [] then ctxTrace else bk_traceID k)\<rparr> b)"

definition SendACKEvent :: "string \<Rightarrow> string \<Rightarrow> int \<Rightarrow> AckEvent \<Rightarrow> ack_out broker \<Rightarrow> gerr option \<times> ack_out broker" where
  "SendACKEvent ctxTrace topic now e0 b =
     (let e = normalizeACKEvent now e0
      in sendACKBatch ctxTrace topic \<lparr>ab_key = ackKey e, ab_msgIDs = ackMsgIDs e, ab_firstAckTime = ae_AckTime e,
           ab_lastAckTime = ae_AckTime e\<rparr> b)"

text \<open>An error of the batched send is only logged.\<close>

definition flushOne :: "string \<Rightarrow> ackBatch \<Rightarrow> ack_out broker \<Rightarrow> ack_out broker" where
  "flushOne topic batch b = (if ab_msgIDs batch = [] then b else snd (sendACKBatch [] topic batch b))"

type_synonym pending = "(ackBatchKey \<times> ackBatch) list"

definition ab_add :: "string \<Rightarrow> int \<Rightarrow> AckEvent \<Rightarrow> pending \<times> ack_out broker \<Rightarrow> pending \<times> ack_out broker" where
  "ab_add topic now e0 = (\<lambda>(pending, b).
     let e = normalizeACKEvent now e0; key = ackKey e;
         batch0 = (case map_of pending key of
                     None \<Rightarrow> \<lparr>ab_key = key, ab_msgIDs = [], ab_firstAckTime = ae_AckTime e, ab_lastAckTime = 0\<rparr>
                   | Some x \<Rightarrow> x);
         batch = \<lparr>ab_key = ab_key batch0, ab_msgIDs = ab_msgIDs batch0 @ ackMsgIDs e,
                  ab_firstAckTime = (if ab_firstAckTime batch0 = 0 \<or> ae_AckTime e < ab_firstAckTime batch0 then ae_AckTime e else ab_firstAckTime batch0),
                  ab_lastAckTime = (if ae_AckTime e > ab_lastAckTime batch0 then ae_AckTime e else ab_lastAckTime batch0)\<rparr>
     in if length (ab_msgIDs batch) \<ge> defaultACKBatchMax
        then (AList.delete key pending, flushOne topic batch b)
        else (AList.update key batch pending, b))"

definition flushAll :: "(pending \<Rightarrow> pending) \<Rightarrow> string \<Rightarrow> pending \<times> ack_out broker \<Rightarrow> pending \<times> ack_out broker" where
  "flushAll ord topic = (\<lambda>(pending, b). ([], fold (\<lambda>(key, batch). flushOne topic batch) (ord pending) b))"

section \<open>The batcher\<close>

text \<open>\<open>ba_entering\<close> are the callers that have seen that the batcher is not stopped and have not put their event into
  the queue yet. \<open>ba_taken\<close> is history: the events whose callers were told that all is well.\<close>

record batcher =
  ba_topic :: string
  ba_in :: "AckEvent list"
  ba_entering :: "AckEvent list"
  ba_stopped :: bool
  ba_done :: bool
  ba_pending :: pending
  ba_broker :: "ack_out broker"
  ba_taken :: "AckEvent list"

definition NewACKBatcher :: "string \<Rightarrow> ack_out broker \<Rightarrow> batcher" where
  "NewACKBatcher topic b = \<lparr>ba_topic = topic, ba_in = [], ba_entering = [], ba_stopped = False, ba_done = False, ba_pending = [],
     ba_broker = b, ba_taken = []\<rparr>"

definition send_now :: "string \<Rightarrow> int \<Rightarrow> AckEvent \<Rightarrow> batcher \<Rightarrow> gerr option \<times> batcher" where
  "send_now ctxTrace now e s =
     (let (err, b) = SendACKEvent ctxTrace (ba_topic s) now e (ba_broker s)
      in (err, s\<lparr>ba_broker := b, ba_taken := (if err = None then ba_taken s @ [e] else ba_taken s)\<rparr>))"

text \<open>\<open>Enqueue\<close> up to its first \<open>select\<close>; \<open>None\<close> when it has not returned yet.\<close>

definition Enqueue_enter :: "string \<Rightarrow> int \<Rightarrow> AckEvent \<Rightarrow> batcher \<Rightarrow> gerr option option \<times> batcher" where
  "Enqueue_enter ctxTrace now e0 s =
     (let e = normalizeACKEvent now e0
      in if ae_MsgID e = [] \<and> ae_MsgIDs e = [] then (Some None, s)
         else if ba_stopped s then (let (err, s1) = send_now ctxTrace now e s in (Some err, s1))
         else (None, s\<lparr>ba_entering := ba_entering s @ [e]\<rparr>))"

text \<open>Its second \<open>select\<close>: the choice among the cases that are ready is open. With a full queue, a live context and a
  batcher that is not stopped, the default case sends at once.\<close>

datatype enqueue_case = Into_queue | Context_done | At_once

definition Enqueue_select :: "string \<Rightarrow> int \<Rightarrow> bool \<Rightarrow> enqueue_case \<Rightarrow> AckEvent \<Rightarrow> batcher \<Rightarrow> gerr option \<times> batcher" where
  "Enqueue_select ctxTrace now cancelled pick e s =
     (let room = length (ba_in s) < defaultACKQueueSize
      in if pick = Into_queue \<and> room then (None, s\<lparr>ba_in := ba_in s @ [e], ba_taken := ba_taken s @ [e]\<rparr>)
         else if pick = Context_done \<and> cancelled then (Some (Text ''context canceled''), s)
         else if ba_stopped s then send_now ctxTrace now e s
         else if room then (None, s\<lparr>ba_in := ba_in s @ [e], ba_taken := ba_taken s @ [e]\<rparr>)
         else if cancelled then (Some (Text ''context canceled''), s)
         else send_now ctxTrace now e s)"

definition with_batches :: "(pending \<times> ack_out broker \<Rightarrow> pending \<times> ack_out broker) \<Rightarrow> batcher \<Rightarrow> batcher" where
  "with_batches f s = (let (p, b) = f (ba_pending s, ba_broker s) in s\<lparr>ba_pending := p, ba_broker := b\<rparr>)"

text \<open>The goroutine: one round of its loop, and its end.\<close>

definition ab_take :: "int \<Rightarrow> batcher \<Rightarrow> batcher" where
  "ab_take now s =
     (case ba_in s of [] \<Rightarrow> s | e # q \<Rightarrow> with_batches (ab_add (ba_topic s) now e) (s\<lparr>ba_in := q\<rparr>))"

definition ab_tick :: "(pending \<Rightarrow> pending) \<Rightarrow> batcher \<Rightarrow> batcher" where
  "ab_tick ord s = with_batches (flushAll ord (ba_topic s)) s"

definition ab_finish :: "(pending \<Rightarrow> pending) \<Rightarrow> int \<Rightarrow> batcher \<Rightarrow> batcher" where
  "ab_finish ord now s =
     (let s1 = with_batches (fold (ab_add (ba_topic s) now) (ba_in s)) (s\<lparr>ba_in := []\<rparr>)
      in (ab_tick ord s1)\<lparr>ba_done := True\<rparr>)"

datatype ack_action =
    Enter string int AckEvent | Select string int bool enqueue_case nat | Take_event int | Tick | Stop | Finish int

fun ack_step :: "(pending \<Rightarrow> pending) \<Rightarrow> ack_action \<Rightarrow> batcher \<Rightarrow> batcher" where
  "ack_step ord (Enter tr now e) s = snd (Enqueue_enter tr now e s)"
| "ack_step ord (Select tr now cancelled pick i) s =
     (if i < length (ba_entering s)
      then snd (Enqueue_select tr now cancelled pick (ba_entering s ! i)
             (s\<lparr>ba_entering := take i (ba_entering s) @ drop (Suc i) (ba_entering s)\<rparr>))
      else s)"
| "ack_step ord (Take_event now) s = (if ba_done s then s else ab_take now s)"
| "ack_step ord Tick s = (if ba_done s then s else ab_tick ord s)"
| "ack_step ord Stop s = s\<lparr>ba_stopped := True\<rparr>"
| "ack_step ord (Finish now) s = (if ba_stopped s \<and> \<not> ba_done s then ab_finish ord now s else s)"

definition ack_run :: "(pending \<Rightarrow> pending) \<Rightarrow> ack_action list \<Rightarrow> batcher \<Rightarrow> batcher" where
  "ack_run ord ls s = fold (ack_step ord) ls s"

section \<open>\<open>EnqueueACK\<close>\<close>

text \<open>The event the producer makes of an acknowledgement; with no topic for them nothing happens.\<close>

definition ack_event :: "string \<Rightarrow> int \<Rightarrow> string \<Rightarrow> int \<Rightarrow> string \<Rightarrow> string \<Rightarrow> AckEvent" where
  "ack_event ctxTrace now msgID uid status targetNode =
     \<lparr>ae_MsgID = msgID, ae_MsgIDs = [], ae_UserID = FormatInt uid, ae_UID = uid, ae_DeviceID = [], ae_SessionID = [], ae_AckTime = now,
      ae_FirstAckTime = 0, ae_Status = status, ae_TargetNode = targetNode, ae_TraceID = ctxTrace, ae_Count = 0, ae_Batched = False,
      ae_NotifyID = []\<rparr>"

definition EnqueueACK ::
    "string \<Rightarrow> string \<Rightarrow> int \<Rightarrow> string \<Rightarrow> int \<Rightarrow> string \<Rightarrow> string \<Rightarrow> batcher \<Rightarrow> gerr option option \<times> batcher" where
  "EnqueueACK ackTopic ctxTrace now msgID uid status targetNode s =
     (if ackTopic = [] then (Some None, s) else Enqueue_enter ctxTrace now (ack_event ctxTrace now msgID uid status targetNode) s)"

section \<open>Nothing is lost on the way\<close>

lemma set_unique_fold: "set (fold unique_step ids out) = set out \<union> (set ids - {[]})"
  by (induction ids arbitrary: out) auto

lemma distinct_unique_fold: "distinct out \<Longrightarrow> distinct (fold unique_step ids out)"
  by (induction ids arbitrary: out) auto

lemma set_uniqueMsgIDs [simp]: "set (uniqueMsgIDs ids) = set ids - {[]}"
  by (simp add: uniqueMsgIDs_def set_unique_fold)

lemma distinct_uniqueMsgIDs: "distinct (uniqueMsgIDs ids)"
  by (simp add: uniqueMsgIDs_def distinct_unique_fold)

declare FormatInt_nonempty [simp]

definition normal :: "AckEvent \<Rightarrow> bool" where
  "normal e \<longleftrightarrow> (ae_UID e = 0 \<and> ae_UserID e \<noteq> [] \<longrightarrow> parse_lossy (ae_UserID e) = 0) \<and> (ae_UserID e = [] \<longrightarrow> ae_UID e = 0)
     \<and> (ae_MsgID e = [] \<longrightarrow> ae_MsgIDs e = [] \<or> hd (ae_MsgIDs e) = []) \<and> (ae_MsgIDs e = [] \<longrightarrow> ae_MsgID e = [])"

lemma normal_normalize [simp]: "normal (normalizeACKEvent now e)"
  by (cases "ae_UserID e = []"; cases "ae_MsgID e = []"; cases "ae_MsgIDs e = []")
    (auto simp: normal_def normalizeACKEvent_def Let_def)

lemma normalize_normal:
  assumes "normal e"
  shows "ackKey (normalizeACKEvent now e) = ackKey e" "ackMsgIDs (normalizeACKEvent now e) = ackMsgIDs e"
  using assms by (cases "ae_UserID e = []"; cases "ae_MsgID e = []"; cases "ae_MsgIDs e = []";
      force simp: normal_def normalizeACKEvent_def ackKey_def ackMsgIDs_def Let_def)+

text \<open>Who acknowledged what: in an event, in Kafka, in the pending batches, in the queue.\<close>

definition acks_of :: "AckEvent \<Rightarrow> (ackBatchKey \<times> string) set" where
  "acks_of e = {ackKey e} \<times> set (ackMsgIDs e)"

definition acks_sent :: "ack_out broker \<Rightarrow> (ackBatchKey \<times> string) set" where
  "acks_sent b = (\<Union>x \<in> set (br_sent b). {ackKey (ao_Event x)} \<times> set (ae_MsgIDs (ao_Event x)))"

definition acks_pending :: "pending \<Rightarrow> (ackBatchKey \<times> string) set" where
  "acks_pending p = (\<Union>(k, x) \<in> set p. {k} \<times> set (ab_msgIDs x))"

lemma acks_pending_Nil [simp]: "acks_pending [] = {}"
  by (simp add: acks_pending_def)

definition batch_ok :: "ackBatchKey \<Rightarrow> ackBatch \<Rightarrow> bool" where
  "batch_ok k x \<longleftrightarrow> ab_key x = k \<and> (bk_userID k = [] \<longrightarrow> bk_uid k = 0) \<and> [] \<notin> set (ab_msgIDs x)"

definition pending_ok :: "pending \<Rightarrow> bool" where
  "pending_ok p \<longleftrightarrow> distinct (map fst p) \<and> (\<forall>(k, x) \<in> set p. batch_ok k x)"

lemma batch_event:
  assumes "batch_ok k x" "normal e" "ackKey e = k"
  shows "batch_ok k (x\<lparr>ab_msgIDs := ab_msgIDs x @ ackMsgIDs e\<rparr>)"
  using assms by (auto simp: batch_ok_def ackMsgIDs_def)

lemma send_acks:
  assumes "batch_ok k x" "br_fates b = []" "topic \<noteq> []"
  shows "\<exists>b'. sendACKBatch tr topic x b = (None, b') \<and> br_fates b' = [] \<and> acks_sent b' = acks_sent b \<union> {k} \<times> set (ab_msgIDs x)"
proof (cases "ab_msgIDs x = []")
  case False
  have "ackKey (buildACKBatchValue x) = k" "set (ae_MsgIDs (buildACKBatchValue x)) = set (ab_msgIDs x)"
    using assms(1) by (auto simp: ackKey_def buildACKBatchValue_def Let_def batch_ok_def)
  with False assms(2,3) show ?thesis
    by (auto simp: sendACKBatch_def SendMessage_def Let_def acks_sent_def)
qed (use assms in \<open>simp add: sendACKBatch_def\<close>)

lemma flushOne_acks:
  assumes "batch_ok k x" "br_fates b = []" "topic \<noteq> []"
  shows "br_fates (flushOne topic x b) = []" "acks_sent (flushOne topic x b) = acks_sent b \<union> {k} \<times> set (ab_msgIDs x)"
proof -
  obtain b' where "sendACKBatch [] topic x b = (None, b')" "br_fates b' = []" "acks_sent b' = acks_sent b \<union> {k} \<times> set (ab_msgIDs x)"
    using send_acks [OF assms, of "[]"] by blast
  then show "br_fates (flushOne topic x b) = []" "acks_sent (flushOne topic x b) = acks_sent b \<union> {k} \<times> set (ab_msgIDs x)"
    using assms(2) by (cases "ab_msgIDs x = []"; simp add: flushOne_def)+
qed

lemma acks_pending_map_of:
  assumes "distinct (map fst p)"
  shows "acks_pending p = {(k, i). \<exists>x. map_of p k = Some x \<and> i \<in> set (ab_msgIDs x)}"
  using assms by (force simp: acks_pending_def map_of_eq_Some_iff)

lemma pending_update:
  assumes "pending_ok p" "batch_ok k x"
  shows "pending_ok (AList.update k x p)" "pending_ok (AList.delete k p)"
proof -
  have "distinct (map fst (AList.update k x p))" "distinct (map fst (AList.delete k p))"
    using assms(1) by (simp_all add: pending_ok_def distinct_update distinct_delete)
  moreover have "batch_ok j y" if "(j, y) \<in> set (AList.update k x p)" for j y
  proof -
    have "map_of (AList.update k x p) j = Some y" using that \<open>distinct (map fst (AList.update k x p))\<close> by simp
    then show ?thesis using assms by (auto simp: pending_ok_def update_conv' split: if_splits dest!: map_of_SomeD)
  qed
  moreover have "batch_ok j y" if "(j, y) \<in> set (AList.delete k p)" for j y
  proof -
    have "map_of (AList.delete k p) j = Some y" using that \<open>distinct (map fst (AList.delete k p))\<close> by simp
    then show ?thesis using assms(1) by (auto simp: pending_ok_def delete_conv' split: if_splits dest!: map_of_SomeD)
  qed
  ultimately show "pending_ok (AList.update k x p)" "pending_ok (AList.delete k p)"
    by (auto simp: pending_ok_def)
qed

lemma add_acks:
  assumes p: "pending_ok p" and e: "normal e" and b: "br_fates b = []" "topic \<noteq> []"
    and run: "ab_add topic now e (p, b) = (p', b')"
  shows "pending_ok p'" "br_fates b' = []" "acks_sent b' \<union> acks_pending p' = acks_sent b \<union> acks_pending p \<union> acks_of e"
proof -
  let ?e = "normalizeACKEvent now e" and ?k = "ackKey e"
  note ne = normalize_normal [OF e, of now]
  define x0 where "x0 = (case map_of p ?k of
      None \<Rightarrow> \<lparr>ab_key = ?k, ab_msgIDs = [], ab_firstAckTime = ae_AckTime ?e, ab_lastAckTime = 0\<rparr> | Some x \<Rightarrow> x)"
  define x where "x = \<lparr>ab_key = ab_key x0, ab_msgIDs = ab_msgIDs x0 @ ackMsgIDs e,
      ab_firstAckTime = (if ab_firstAckTime x0 = 0 \<or> ae_AckTime ?e < ab_firstAckTime x0 then ae_AckTime ?e else ab_firstAckTime x0),
      ab_lastAckTime = (if ae_AckTime ?e > ab_lastAckTime x0 then ae_AckTime ?e else ab_lastAckTime x0)\<rparr>"
  have run: "(if length (ab_msgIDs x) \<ge> defaultACKBatchMax then (AList.delete ?k p, flushOne topic x b)
      else (AList.update ?k x p, b)) = (p', b')"
    using run unfolding ab_add_def Let_def prod.case ne x_def x0_def .
  have d: "distinct (map fst p)" using p by (simp add: pending_ok_def)
  have "bk_userID ?k = [] \<longrightarrow> bk_uid ?k = 0" using e by (simp add: normal_def ackKey_def)
  then have x0: "batch_ok ?k x0"
    using p by (auto simp: x0_def batch_ok_def pending_ok_def split: option.splits dest!: map_of_SomeD)
  then have ok: "batch_ok ?k x" by (auto simp: x_def batch_ok_def ackMsgIDs_def)
  note pu = pending_update [OF p ok]
  have old: "{?k} \<times> set (ab_msgIDs x0) = {q \<in> acks_pending p. fst q = ?k}"
    by (auto simp: acks_pending_map_of [OF d] x0_def split: option.splits)
  have up: "acks_pending (AList.update ?k x p) = {q \<in> acks_pending p. fst q \<noteq> ?k} \<union> {?k} \<times> set (ab_msgIDs x)"
    using pu(1) by (auto simp: pending_ok_def acks_pending_map_of d update_conv' split: if_splits)
  have del: "acks_pending (AList.delete ?k p) = {q \<in> acks_pending p. fst q \<noteq> ?k}"
    using pu(2) by (auto simp: pending_ok_def acks_pending_map_of d delete_conv' split: if_splits)
  have new: "{?k} \<times> set (ab_msgIDs x) = {q \<in> acks_pending p. fst q = ?k} \<union> acks_of e"
    unfolding old [symmetric] by (auto simp: x_def acks_of_def)
  show "pending_ok p'" "br_fates b' = []" "acks_sent b' \<union> acks_pending p' = acks_sent b \<union> acks_pending p \<union> acks_of e"
    using run pu b flushOne_acks [OF ok b] up del new by (auto split: if_splits)
qed

lemma flush_each_acks:
  assumes "\<forall>(k, x) \<in> set q. batch_ok k x" "br_fates b = []" "topic \<noteq> []"
  shows "br_fates (fold (\<lambda>(k, x). flushOne topic x) q b) = [] \<and> acks_sent (fold (\<lambda>(k, x). flushOne topic x) q b) = acks_sent b \<union> acks_pending q"
  using assms
proof (induction q arbitrary: b)
  case (Cons p q)
  obtain k x where p: "p = (k, x)" by (cases p)
  have f: "br_fates (flushOne topic x b) = []" "acks_sent (flushOne topic x b) = acks_sent b \<union> {k} \<times> set (ab_msgIDs x)"
    using flushOne_acks [of k x b topic] Cons.prems by (simp_all add: p)
  with Cons.IH [of "flushOne topic x b"] Cons.prems show ?case by (auto simp: p acks_pending_def)
qed (simp add: acks_pending_def)

text \<open>A walk over a map meets each of its entries once.\<close>

definition walk :: "(pending \<Rightarrow> pending) \<Rightarrow> bool" where
  "walk ord \<longleftrightarrow> (\<forall>p. mset (ord p) = mset p)"

lemma flushAll_acks:
  assumes "walk ord" "pending_ok p" "br_fates b = []" "topic \<noteq> []"
  shows "\<exists>b'. flushAll ord topic (p, b) = ([], b') \<and> br_fates b' = [] \<and> acks_sent b' = acks_sent b \<union> acks_pending p"
proof -
  have "mset (ord p) = mset p" using assms(1) by (simp add: walk_def)
  then have "set (ord p) = set p" by (rule mset_eq_setD)
  then have "acks_pending (ord p) = acks_pending p" "\<forall>(k, x) \<in> set (ord p). batch_ok k x"
    using assms(2) by (simp_all add: acks_pending_def pending_ok_def)
  with flush_each_acks [of "ord p" b topic] assms(3,4) show ?thesis by (simp add: flushAll_def)
qed

definition acks_queued :: "AckEvent list \<Rightarrow> (ackBatchKey \<times> string) set" where
  "acks_queued q = (\<Union>e \<in> set q. acks_of e)"

lemma acks_queued_simps [simp]:
  "acks_queued [] = {}" "acks_queued (e # q) = acks_of e \<union> acks_queued q" "acks_queued (q @ r) = acks_queued q \<union> acks_queued r"
  by (auto simp: acks_queued_def)

definition known :: "batcher \<Rightarrow> (ackBatchKey \<times> string) set" where
  "known s = acks_sent (ba_broker s) \<union> acks_pending (ba_pending s) \<union> acks_queued (ba_in s)"

definition batcher_ok :: "batcher \<Rightarrow> bool" where
  "batcher_ok s \<longleftrightarrow> ba_topic s \<noteq> [] \<and> br_fates (ba_broker s) = [] \<and> pending_ok (ba_pending s)
     \<and> (\<forall>e \<in> set (ba_in s) \<union> set (ba_entering s). normal e) \<and> acks_queued (ba_taken s) \<subseteq> known s
     \<and> (ba_done s \<longrightarrow> ba_pending s = [])"

lemma take_ok:
  assumes ok: "batcher_ok s" and q: "ba_in s = e # q" and run: "with_batches (ab_add (ba_topic s) now e) (s\<lparr>ba_in := q\<rparr>) = u"
    and going: "\<not> ba_done s"
  shows "batcher_ok u \<and> ba_in u = q \<and> ba_topic u = ba_topic s \<and> \<not> ba_done u"
proof -
  obtain p' b' where add: "ab_add (ba_topic s) now e (ba_pending s, ba_broker s) = (p', b')" by fastforce
  have u: "u = s\<lparr>ba_in := q, ba_pending := p', ba_broker := b'\<rparr>" using run add by (auto simp: with_batches_def)
  have "pending_ok p'" "br_fates b' = []"
      "acks_sent b' \<union> acks_pending p' = acks_sent (ba_broker s) \<union> acks_pending (ba_pending s) \<union> acks_of e"
    using add_acks [OF _ _ _ _ add] ok q by (simp_all add: batcher_ok_def)
  then show ?thesis using ok q going by (auto simp: batcher_ok_def known_def u)
qed

lemma drain_ok:
  assumes "batcher_ok s" "\<not> ba_done s"
  shows "batcher_ok (with_batches (fold (ab_add (ba_topic s) now) (ba_in s)) (s\<lparr>ba_in := []\<rparr>))"
  using assms
proof (induction "ba_in s" arbitrary: s)
  case Nil
  then show ?case by (cases s) (simp add: with_batches_def)
next
  case (Cons e q)
  define u where "u = with_batches (ab_add (ba_topic s) now e) (s\<lparr>ba_in := q\<rparr>)"
  have u: "batcher_ok u" "ba_in u = q" "ba_topic u = ba_topic s" "\<not> ba_done u"
    using take_ok [OF Cons.prems(1) Cons(2) [symmetric] u_def [symmetric] Cons.prems(2)] by auto
  have "with_batches (fold (ab_add (ba_topic s) now) (ba_in s)) (s\<lparr>ba_in := []\<rparr>)
      = with_batches (fold (ab_add (ba_topic u) now) (ba_in u)) (u\<lparr>ba_in := []\<rparr>)"
    unfolding Cons(2) [symmetric] u(2,3) by (simp add: u_def with_batches_def split: prod.splits)
  with Cons(1) [OF u(2) [symmetric] u(1,4)] show ?case by simp
qed

lemma tick_ok:
  assumes "batcher_ok s" "walk ord"
  shows "batcher_ok (ab_tick ord s) \<and> ba_pending (ab_tick ord s) = []"
proof -
  obtain b' where b': "flushAll ord (ba_topic s) (ba_pending s, ba_broker s) = ([], b')" "br_fates b' = []"
      "acks_sent b' = acks_sent (ba_broker s) \<union> acks_pending (ba_pending s)"
    using flushAll_acks [OF assms(2), of "ba_pending s" "ba_broker s" "ba_topic s"] assms(1) by (auto simp: batcher_ok_def)
  have "ab_tick ord s = s\<lparr>ba_pending := [], ba_broker := b'\<rparr>" by (simp add: ab_tick_def with_batches_def b'(1))
  then show ?thesis using assms(1) b'(2,3) by (auto simp: batcher_ok_def known_def pending_ok_def acks_pending_def)
qed

lemma send_now_ok:
  assumes ok: "batcher_ok s" and e: "normal e"
  shows "batcher_ok (snd (send_now tr now e s))"
proof -
  let ?e = "normalizeACKEvent now e"
  let ?x = "\<lparr>ab_key = ackKey ?e, ab_msgIDs = ackMsgIDs ?e, ab_firstAckTime = ae_AckTime ?e, ab_lastAckTime = ae_AckTime ?e\<rparr>"
  have "batch_ok (ackKey e) ?x"
    using normalize_normal [OF e] e by (auto simp: batch_ok_def ackMsgIDs_def normal_def ackKey_def)
  then obtain b' where "sendACKBatch tr (ba_topic s) ?x (ba_broker s) = (None, b')" "br_fates b' = []"
      "acks_sent b' = acks_sent (ba_broker s) \<union> acks_of e"
    using send_acks [of "ackKey e" ?x "ba_broker s" "ba_topic s" tr] ok normalize_normal(2) [OF e, of now]
    by (auto simp: batcher_ok_def acks_of_def)
  then show ?thesis using ok by (auto simp: send_now_def SendACKEvent_def Let_def batcher_ok_def known_def)
qed

lemma queue_ok:
  assumes "batcher_ok s" "normal e"
  shows "batcher_ok (s\<lparr>ba_in := ba_in s @ [e], ba_taken := ba_taken s @ [e]\<rparr>)"
  using assms by (auto simp: batcher_ok_def known_def)

lemma step_ok:
  assumes ok: "batcher_ok s" and ord: "walk ord"
  shows "batcher_ok (ack_step ord l s)"
proof (cases l)
  case (Enter tr now e)
  have "batcher_ok (snd (send_now tr now (normalizeACKEvent now e) s))" by (rule send_now_ok [OF ok]) simp
  with ok show ?thesis by (auto simp: Enter Enqueue_enter_def Let_def batcher_ok_def known_def split: prod.splits)
next
  case (Select tr now cancelled pick i)
  show ?thesis
  proof (cases "i < length (ba_entering s)")
    case True
    let ?s = "s\<lparr>ba_entering := take i (ba_entering s) @ drop (Suc i) (ba_entering s)\<rparr>" and ?e = "ba_entering s ! i"
    have e: "normal ?e" using ok True by (simp add: batcher_ok_def)
    have s: "batcher_ok ?s" using ok by (auto simp: batcher_ok_def known_def dest: in_set_takeD in_set_dropD)
    show ?thesis using True s queue_ok [OF s e] send_now_ok [OF s e]
      by (auto simp: Select Enqueue_select_def Let_def)
  qed (use ok Select in simp)
next
  case (Take_event now)
  show ?thesis
  proof (cases "ba_in s")
    case (Cons e q)
    from take_ok [OF ok Cons refl] Take_event Cons ok show ?thesis by (simp add: ab_take_def)
  qed (use ok Take_event in \<open>simp add: ab_take_def\<close>)
next
  case Tick then show ?thesis using ok tick_ok [OF ok ord] by simp
next
  case Stop then show ?thesis using ok by (simp add: batcher_ok_def known_def)
next
  case (Finish now)
  show ?thesis
  proof (cases "ba_stopped s \<and> \<not> ba_done s")
    case True
    have "batcher_ok (t\<lparr>ba_done := True\<rparr>)" if "batcher_ok t \<and> ba_pending t = []" for t
      using that by (auto simp: batcher_ok_def known_def pending_ok_def)
    with tick_ok [OF drain_ok [OF ok] ord] True show ?thesis by (simp add: Finish ab_finish_def Let_def)
  qed (use ok Finish in auto)
qed

lemma run_ok: "batcher_ok s \<Longrightarrow> walk ord \<Longrightarrow> batcher_ok (ack_run ord ls s)"
  unfolding ack_run_def by (induction ls arbitrary: s) (auto intro: step_ok)

text \<open>Property C23. No acknowledgement is lost in the batcher. Whatever the callers, the goroutine and \<open>Close\<close> do and in whatever order,
  and whatever the order of the walks over the batches, while Kafka takes what it is sent: each message
  of an event whose caller was told that all is well has been sent under the user and context of the event,
  or is in a batch of theirs, or in the queue; and once the goroutine has ended no batch is left.\<close>

theorem acks_kept:
  assumes "walk ord" "topic \<noteq> []" "br_fates b = []" "s = ack_run ord ls (NewACKBatcher topic b)" "e \<in> set (ba_taken s)" "i \<in> set (ackMsgIDs e)"
  shows "(ackKey e, i) \<in> acks_sent (ba_broker s) \<union> (if ba_done s then {} else acks_pending (ba_pending s)) \<union> acks_queued (ba_in s)"
proof -
  have "batcher_ok (NewACKBatcher topic b)"
    using assms(2,3) by (simp add: batcher_ok_def NewACKBatcher_def pending_ok_def)
  then have ok: "batcher_ok s" using run_ok assms(1,4) by blast
  have "(ackKey e, i) \<in> acks_queued (ba_taken s)" using assms(5,6) by (auto simp: acks_queued_def acks_of_def)
  then have "(ackKey e, i) \<in> known s" using ok by (auto simp: batcher_ok_def)
  moreover have "ba_done s \<longrightarrow> ba_pending s = []" using ok by (simp add: batcher_ok_def)
  ultimately show ?thesis by (auto simp: known_def)
qed

definition demo_acks :: "ack_action list" where
  "demo_acks = [Enter [] 5 (ack_event [] 5 ''m1'' 7 ''acked'' []), Select [] 5 False Into_queue 0,
     Enter [] 6 (ack_event [] 6 ''m2'' 7 ''acked'' []), Select [] 6 False Into_queue 0, Take_event 7, Stop, Finish 8]"

lemma demo_acks_taken: "map ae_MsgID (ba_taken (ack_run id demo_acks (NewACKBatcher ''acks'' \<lparr>br_sent = [], br_fates = []\<rparr>))) = [''m1'', ''m2'']"
  by code_simp

theorem acks_kept_witness:
  "\<exists>s e. s = ack_run id demo_acks (NewACKBatcher ''acks'' \<lparr>br_sent = [], br_fates = []\<rparr>) \<and> ae_MsgID e = ''m2''
    \<and> (ackKey e, ''m2'') \<in> acks_sent (ba_broker s) \<union> (if ba_done s then {} else acks_pending (ba_pending s)) \<union> acks_queued (ba_in s)"
proof -
  define s where "s = ack_run id demo_acks (NewACKBatcher ''acks'' \<lparr>br_sent = [], br_fates = []\<rparr>)"
  have "map ae_MsgID (ba_taken s) = [''m1'', ''m2'']" unfolding s_def by (rule demo_acks_taken)
  then obtain e1 e where e: "ba_taken s = [e1, e]" "ae_MsgID e = ''m2''" by auto
  then have "''m2'' \<in> set (ackMsgIDs e)" by (simp add: ackMsgIDs_def)
  with acks_kept [of id "''acks''" "\<lparr>br_sent = [], br_fates = []\<rparr>" s demo_acks e "''m2''"] e s_def
  show ?thesis by (auto simp: walk_def)
qed

text \<open>A caller that has seen the batcher running may put its event into the queue after the goroutine has ended: it is
  told that all is well, and nobody takes the event out again.\<close>

lemma late_ack_lost:
  "let s = ack_run id [Enter [] 5 (ack_event [] 5 ''m1'' 7 ''acked'' []), Stop, Finish 6, Select [] 7 False Into_queue 0, Take_event 8, Tick, Finish 9]
       (NewACKBatcher ''acks'' \<lparr>br_sent = [], br_fates = []\<rparr>)
   in map ae_MsgID (ba_taken s) = [''m1''] \<and> br_sent (ba_broker s) = [] \<and> ba_done s"
  by code_simp

end
