(* ===== verification/Push_Service.thy ===== *)
theory Push_Service
  imports Handover
begin

text \<open>
  The older way to push to a user (\<open>internal/logic/service/push.go\<close>): straight to the Comet nodes of the user's
  connections, or through the offline queue and Kafka. Sessions in a list are never nil. Metrics are not
  modelled.
\<close>

record push_service =
  ps_ack :: ack_conf
  ps_pusher :: bool
  ps_idGen :: bool

definition SetIDGenerator :: "bool \<Rightarrow> push_service \<Rightarrow> push_service" where
  "SetIDGenerator gen p = p\<lparr>ps_idGen := gen\<rparr>"

text \<open>The id of a message that came without one.\<close>

definition ps_newID :: "push_service \<Rightarrow> (gerr + string) act" where
  "ps_newID p =
     (if \<not> ps_idGen p then ret (Inl (Text ''message id generator is not configured''))
      else State (\<lambda>w. case w_ids w of
          [] \<Rightarrow> (Inl (Wrapped ''generate message id'' ErrClockMovedBack), w)
        | Inl x # xs \<Rightarrow> (Inl (Wrapped ''generate message id'' x), w\<lparr>w_ids := xs\<rparr>)
        | Inr s # xs \<Rightarrow> (if s = [] then Inl (Text ''generate message id: empty id'') else Inr s, w\<lparr>w_ids := xs\<rparr>)))"

definition ps_directPush :: "push_service \<Rightarrow> Session list \<Rightarrow> i32 \<Rightarrow> byte list \<Rightarrow> (Session list \<times> gerr option) act" where
  "ps_directPush p ss op body =
     (if \<not> ps_pusher p then ret (ss, Some (Text ''comet pusher not configured''))
      else do {
        (failed, lastErr, anyOK) \<leftarrow> push_loop ss op body [] None False;
        ret (failed, if \<not> anyOK \<and> failed \<noteq> [] then Some (Wrapped ''all direct pushes failed'' (the lastErr)) else None)
      })"

text \<open>The offline queue is a second chance only: its errors are not reported.\<close>

definition offlineAndEnqueue :: "string \<Rightarrow> int \<Rightarrow> i32 \<Rightarrow> byte list \<Rightarrow> int \<Rightarrow> Session list \<Rightarrow> gerr option act" where
  "offlineAndEnqueue msgID toUID op body sq ss = do {
     x \<leftarrow> redis_do (\<lambda>w. AddToOfflineQueue toUID msgID sq);
     y \<leftarrow> call (Kafka_PushMsg op (target_server ss) (target_keys toUID ss) body);
     ret (map_option (Wrapped ''kafka push failed'') y)
   }"

text \<open>The result for a user who is online, when the message is done with.\<close>

definition push_online :: "push_service \<Rightarrow> string \<Rightarrow> int \<Rightarrow> i32 \<Rightarrow> byte list \<Rightarrow> int \<Rightarrow> Session list \<Rightarrow> gerr option option act" where
  "push_online p msgID toUID op body sq ss = do {
     (failed, pushErr) \<leftarrow> ps_directPush p ss op body;
     if pushErr = None \<and> failed = [] then do { m \<leftarrow> svc_MarkDelivered msgID; ret (Some None) }
     else if pushErr = None then do {
       m \<leftarrow> svc_MarkDelivered msgID;
       x \<leftarrow> offlineAndEnqueue msgID toUID op body sq failed;
       ret (Some x)
     } else ret None
   }"

definition PushToUser :: "push_service \<Rightarrow> string \<Rightarrow> string \<Rightarrow> int \<Rightarrow> i32 \<Rightarrow> byte list \<Rightarrow> int \<Rightarrow> gerr option act" where
  "PushToUser p ctxTrace msgID0 toUID op body sq = do {
     g \<leftarrow> (if msgID0 = [] then ps_newID p else ret (Inr msgID0));
     case g of
       Inl x \<Rightarrow> ret (Some x)
     | Inr msgID \<Rightarrow> do {
         s \<leftarrow> svc_GetMessageStatus msgID;
         if (case s of Inl _ \<Rightarrow> False | Inr status \<Rightarrow> status \<in> {MsgStatusAcked, MsgStatusDelivered}) then ret None
         else do {
           t \<leftarrow> svc_TrackMessage (ps_ack p) ctxTrace msgID 0 toUID op body;
           (online, ss) \<leftarrow> sm_IsOnline toUID;
           o1 \<leftarrow> (if online then push_online p msgID toUID op body sq ss else ret None);
           case o1 of
             Some res \<Rightarrow> ret res
           | None \<Rightarrow> offlineAndEnqueue msgID toUID op body sq ss
         }
       }
   }"

definition PushToRoom :: "i32 \<Rightarrow> string \<Rightarrow> byte list \<Rightarrow> gerr option act" where
  "PushToRoom op roomKey body = call (Kafka_BroadcastRoomMsg op roomKey body)"

definition svc_PushAll :: "i32 \<Rightarrow> i32 \<Rightarrow> byte list \<Rightarrow> gerr option act" where
  "svc_PushAll op speed body = call (Kafka_BroadcastMsg op speed body)"

text \<open>A session as the router names it.\<close>

definition bare_session :: "string \<times> string \<Rightarrow> Session" where
  "bare_session p = \<lparr>ss_SID = [], ss_UID = 0, ss_Key = snd p, ss_DeviceID = [], ss_Platform = [], ss_Server = fst p,
     ss_CreatedAt = 0, ss_LastHBAt = 0, ss_cachedAt = 0\<rparr>"

section \<open>A push that succeeded\<close>

lemma service_growing [growing]:
  "grows (ps_newID p)" "grows (svc_GetMessageStatus msgID)" "grows (svc_MarkDelivered msgID)"
  "grows (svc_TrackMessage a tr msgID fromUID toUID op body)" "grows (offlineAndEnqueue msgID toUID op body sq ss)"
proof -
  show "grows (ps_newID p)"
    by (auto simp: ps_newID_def state_io_rel_def split: list.splits sum.splits)
  show "grows (svc_GetMessageStatus msgID)" unfolding svc_GetMessageStatus_def by (intro growing)
  show "grows (svc_MarkDelivered msgID)" unfolding svc_MarkDelivered_def by (intro growing)
  show "grows (svc_TrackMessage a tr msgID fromUID toUID op body)"
    unfolding svc_TrackMessage_def Let_def by (intro growing)
  show "grows (offlineAndEnqueue msgID toUID op body sq ss)" unfolding offlineAndEnqueue_def by (intro growing)
qed

lemma ps_directPush_eq: "ps_directPush p = directPush (ps_pusher p)"
  by (intro ext) (simp add: ps_directPush_def directPush_def)

lemma offlineAndEnqueue_takes: "takes n op body (\<lambda>x. x = None) (offlineAndEnqueue msgID toUID op body sq ss)"
  unfolding offlineAndEnqueue_def
  by (intro takes_bind growing takes_bind_when [OF call_takes]) (auto intro!: growing takes_return)

lemma push_online_takes:
  "ss \<noteq> [] \<Longrightarrow> takes n op body (\<lambda>c. c = Some None) (push_online p msgID toUID op body sq ss)"
  unfolding push_online_def ps_directPush_eq
  by (intro takes_bind_when [OF directPush_takes])
    (auto intro!: growing takes_bind takes_return split: prod.splits)

text \<open>The message was finished before the push began.\<close>

definition finished :: "(gerr + string) \<Rightarrow> bool" where
  "finished s \<longleftrightarrow> (case s of Inl _ \<Rightarrow> False | Inr status \<Rightarrow> status \<in> {MsgStatusAcked, MsgStatusDelivered})"

text \<open>The part of a push that comes after the check.\<close>

definition push_rest :: "push_service \<Rightarrow> string \<Rightarrow> string \<Rightarrow> int \<Rightarrow> i32 \<Rightarrow> byte list \<Rightarrow> int \<Rightarrow> gerr option act" where
  "push_rest p ctxTrace msgID toUID op body sq = do {
     t \<leftarrow> svc_TrackMessage (ps_ack p) ctxTrace msgID 0 toUID op body;
     (online, ss) \<leftarrow> sm_IsOnline toUID;
     o1 \<leftarrow> (if online then push_online p msgID toUID op body sq ss else ret None);
     case o1 of
       Some res \<Rightarrow> ret res
     | None \<Rightarrow> offlineAndEnqueue msgID toUID op body sq ss
   }"

lemma push_rest_takes: "takes n op body (\<lambda>x. x = None) (push_rest p ctxTrace msgID toUID op body sq)"
  unfolding push_rest_def
proof (intro takes_bind growing online_takes, unfold prod.case if_True if_False, goal_cases)
  case (1 t ss)
  show ?case
    by (rule takes_settle [where g = "\<lambda>r. r"], rule triple_conseq [OF push_online_takes [OF 1]])
      (auto intro: offlineAndEnqueue_takes)
next
  case (2 t ss)
  show ?case
    by (rule takes_settle [where g = "\<lambda>r. r"], rule takes_return) (auto intro: offlineAndEnqueue_takes)
qed

text \<open>A push by the service that reports success was taken by a connection or by Kafka in the course
  of the call, whatever happened to the tracking of the message, unless the message had been acknowledged or
  marked as delivered before.\<close>

theorem pushed_is_taken:
  assumes "run_state (PushToUser p tr (c # m) toUID op body sq) w = (None, w')"
  shows "finished (fst (run_state (svc_GetMessageStatus (c # m)) w)) \<or> handed (length (w_log w)) op body w'"
proof -
  obtain s w1 where s: "run_state (svc_GetMessageStatus (c # m)) w = (s, w1)" by fastforce
  have l: "from_log (length (w_log w)) w1"
    using growsD [OF service_growing(2) s] by (auto simp: from_log_def prefix_def)
  show ?thesis
  proof (cases "finished s")
    case True
    then show ?thesis by (simp add: s)
  next
    case False
    then have "run_state (push_rest p tr (c # m) toUID op body sq) w1 = (None, w')"
      using assms by (simp add: PushToUser_def push_rest_def s finished_def cong: if_cong)
    from tripleD [OF push_rest_takes l this] show ?thesis by simp
  qed
qed

text \<open>With Redis out of reach the message still goes to Kafka.\<close>

definition demo_service :: push_service where
  "demo_service = \<lparr>ps_ack = demo_conf, ps_pusher = True, ps_idGen = True\<rparr>"

definition down :: "fate list \<Rightarrow> world" where
  "down fs = empty_world\<lparr>w_redis := empty_redis\<lparr>rd_fates := fs\<rparr>\<rparr>"

abbreviation down_world :: world where "down_world \<equiv> down (replicate 4 Request_lost)"

lemma rtrip_lost: "rtrip f (empty_redis\<lparr>rd_fates := Request_lost # fs\<rparr>) = (Inl (IOErr 0), empty_redis\<lparr>rd_fates := fs\<rparr>)"
  by (simp add: rtrip_def)

lemma down_status: "run_state (svc_GetMessageStatus m) (down (Request_lost # fs)) = (Inl (IOErr 0), down fs)"
  by (simp add: svc_GetMessageStatus_def GetMessageStatus_def down_def rtrip_lost)

lemma down_allocate:
  "run_state (allocate NewSeqAllocator uid) (down (Request_lost # fs)) = (Inl (IOErr 0), down fs)"
proof -
  have r: "reserveRange IncrUserSeqBy NewSeqAllocator uid (empty_redis\<lparr>rd_fates := Request_lost # fs\<rparr>)
      = (Inl (IOErr 0), empty_redis\<lparr>rd_fates := fs\<rparr>)"
    by (simp add: reserveRange_def IncrUserSeqBy_def rtrip_sum_def rtrip_lost NewSeqAllocator_def
        NewSeqAllocatorWithBlockSize_def defaultSeqBlockSize_def)
  have u: "w_alloc (down fs') uid = new_user_state" "w_redis (down fs') = empty_redis\<lparr>rd_fates := fs'\<rparr>" for fs'
    by (simp_all add: down_def empty_world_def)
  have "run_state (allocate NewSeqAllocator uid) (down (Request_lost # fs))
      = (Inl (IOErr 0), (down (Request_lost # fs))\<lparr>w_alloc := (w_alloc (down fs))(uid := new_user_state),
           w_redis := empty_redis\<lparr>rd_fates := fs\<rparr>\<rparr>)"
    by (simp add: u Allocate_def numeral_3_eq_3 new_user_state_def allocateLocked_def r caller_done_def)
      (simp add: down_def)
  then show ?thesis by (simp add: down_def empty_world_def fun_eq_iff)
qed

lemma down_track: "run_state (svc_TrackMessage demo_conf tr m 0 uid op body) (down (Request_lost # fs))
    = (Some (Wrapped ''allocate seq'' (IOErr 0)), down fs)"
proof -
  have "ah_alloc demo_conf = NewSeqAllocator" by (simp add: demo_conf_def)
  then show ?thesis by (simp add: svc_TrackMessage_def down_allocate Let_def del: run_allocate)
qed

lemma down_sessions: "run_state (sm_IsOnline uid) (down (Request_lost # fs)) = ((False, []), down fs)"
proof -
  have "run_state (redis_do (\<lambda>w. GetUserSessions uid)) (down (Request_lost # fs)) = (Inl (IOErr 0), down fs)"
    by (simp add: GetUserSessions_def down_def rtrip_lost)
  moreover have "w_local (down (Request_lost # fs)) uid = None" by (simp add: down_def empty_world_def)
  ultimately show ?thesis by (simp add: sm_IsOnline_def sm_GetSessions_def del: run_redis_do)
qed

lemma down_push: "fst (run_state (PushToUser demo_service [] ''m'' 7 9 [1] 0) down_world) = None"
proof -
  have "ps_ack demo_service = demo_conf" by (simp add: demo_service_def)
  moreover have "w_replies (down fs) = []" for fs by (simp add: down_def empty_world_def)
  ultimately show ?thesis
    by (simp add: PushToUser_def numeral_nat down_status down_track down_sessions offlineAndEnqueue_def split: prod.split)
qed

theorem pushed_is_taken_witness:
  "handed 0 9 [1] (snd (run_state (PushToUser demo_service [] ''m'' 7 9 [1] 0) down_world))"
proof -
  obtain w' where r: "run_state (PushToUser demo_service [] ''m'' 7 9 [1] 0) down_world = (None, w')"
    using down_push by (metis prod.collapse)
  have "w_log down_world = []" by (simp add: down_def empty_world_def)
  moreover have "\<not> finished (fst (run_state (svc_GetMessageStatus ''m'') down_world))"
    by (simp add: finished_def down_status numeral_nat)
  ultimately show ?thesis using pushed_is_taken [OF r] r by simp
qed

text \<open>When a part of the connections could not be reached and Kafka refuses the rest, the push reports an error but
  the message is marked as delivered: pushing it again reports success and reaches nobody.\<close>

lemma repeated_push_does_nothing:
  assumes "rd_fates (w_redis w) = []" "str_or_empty (rd_hash (w_redis w) (keyMsgStatus (c # m)) ''status'') = MsgStatusDelivered"
  shows "run_state (PushToUser p tr (c # m) toUID op body sq) w = (None, w)"
proof -
  have "rd_hash (w_redis w) (keyMsgStatus (c # m)) \<noteq> (\<lambda>_. None)"
    using assms(2) by (auto simp: str_or_empty_def MsgStatusDelivered_def)
  then show ?thesis
    using assms by (simp add: PushToUser_def svc_GetMessageStatus_def GetMessageStatus_def)
qed

end
