(* ===== verification/Router_Api.thy ===== *)
theory Router_Api
  imports Push_Service
begin

text \<open>
  The router as a service: its gRPC server (\<open>internal/router/grpc/server.go\<close>) and the pusher of Logic that
  leaves connections to it (\<open>internal/logic/service/router_direct_pusher.go\<close>). Requests and replies are never nil
  unless it says so; a call that fails gives an error and no reply. The start of the server, latencies and
  statistics of the transport are not modelled.
\<close>

section \<open>The server\<close>

record RouteByUserReply =
  ru_MsgId :: string
  ru_Path :: string
  ru_TargetNode :: string
  ru_ErrorCode :: string
  ru_ErrorMessage :: string

definition normalizePath :: "string \<Rightarrow> string" where
  "normalizePath path = (if path = ''grpc_direct'' then ''direct'' else if path = ''kafka_fallback'' then ''kafka'' else path)"

definition srv_RouteByUser :: "engine \<Rightarrow> string \<Rightarrow> string \<Rightarrow> int \<Rightarrow> i32 \<Rightarrow> byte list \<Rightarrow> int \<Rightarrow> RouteByUserReply act" where
  "srv_RouteByUser e ctxTrace msgID toUID op body sq = do {
     (result, err) \<leftarrow> RouteByUserResult e ctxTrace msgID toUID op body sq;
     let reply = \<lparr>ru_MsgId = dr_MsgID result, ru_Path = normalizePath (dr_Path result), ru_TargetNode = dr_TargetNode result,
                  ru_ErrorCode = dr_ErrorCode result, ru_ErrorMessage = dr_ErrorMessage result\<rparr>;
     ret (case err of
            None \<Rightarrow> reply
          | Some x \<Rightarrow> reply\<lparr>ru_ErrorCode := (if ru_ErrorCode reply = [] then ''route_failed'' else ru_ErrorCode reply),
                            ru_ErrorMessage := (if ru_ErrorMessage reply = [] then err_text x else ru_ErrorMessage reply)\<rparr>)
   }"

definition srv_RouteByRoom :: "engine \<Rightarrow> i32 \<Rightarrow> string \<Rightarrow> byte list \<Rightarrow> gerr option act" where
  "srv_RouteByRoom e op roomKey body = RouteByRoom e op roomKey body"

definition srv_RouteBroadcast :: "engine \<Rightarrow> i32 \<Rightarrow> i32 \<Rightarrow> byte list \<Rightarrow> gerr option act" where
  "srv_RouteBroadcast e op speed body = RouteBroadcast e op speed body"

definition srv_HandleACK :: "engine \<Rightarrow> string \<Rightarrow> int \<Rightarrow> string \<Rightarrow> gerr option act" where
  "srv_HandleACK e ctxTrace uid msgID = HandleACK (en_ack e) ctxTrace uid msgID"

definition srv_HandleACKWithDevice :: "engine \<Rightarrow> string \<Rightarrow> int \<Rightarrow> string \<Rightarrow> string \<Rightarrow> string \<Rightarrow> gerr option act" where
  "srv_HandleACKWithDevice e ctxTrace uid msgID deviceID sessionID =
     HandleACKWithDevice (en_ack e) ctxTrace uid msgID deviceID sessionID"

definition srv_GetMessageStatus :: "engine \<Rightarrow> string \<Rightarrow> (gerr + string) act" where
  "srv_GetMessageStatus e msgID = ah_GetMessageStatus msgID"

definition srv_GetStats :: "engine \<Rightarrow> (int \<times> int) act" where
  "srv_GetStats e = asks (\<lambda>w. (w_direct w, w_kafka w))"

definition toProtoSessions :: "Session list \<Rightarrow> (string \<times> string) list" where
  "toProtoSessions ss = map (\<lambda>s. (ss_Server s, ss_Key s)) ss"

definition srv_DirectPush :: "engine \<Rightarrow> (string \<times> string) list \<Rightarrow> i32 \<Rightarrow> byte list \<Rightarrow> (gerr + (string \<times> string) list option) act" where
  "srv_DirectPush e sessions op body = do {
     (failed, err) \<leftarrow> directPush (en_pusher e) (map bare_session sessions) op body;
     let reply = toProtoSessions failed;
     ret (case err of
            Some x \<Rightarrow> if reply = [] then Inl (Wrapped ''direct push'' x) else Inr (Some reply)
          | None \<Rightarrow> Inr (Some reply))
   }"

section \<open>The client\<close>

type_synonym direct_push_client = "(string \<times> string) list \<Rightarrow> i32 \<Rightarrow> byte list \<Rightarrow> (gerr + (string \<times> string) list option) act"

definition rdp_DirectPush :: "direct_push_client option \<Rightarrow> Session list \<Rightarrow> i32 \<Rightarrow> byte list \<Rightarrow> (Session list \<times> gerr option) act" where
  "rdp_DirectPush client ss op body =
     (case client of
        None \<Rightarrow> ret (ss, Some (Text ''router direct pusher not configured''))
      | Some rpc \<Rightarrow> do {
          let req = map (\<lambda>s. (ss_Server s, ss_Key s)) ss;
          reply \<leftarrow> rpc req op body;
          case reply of
            Inl x \<Rightarrow> ret ([], Some x)
          | Inr None \<Rightarrow> ret ([], Some (Text ''empty router direct push reply''))
          | Inr (Some bad) \<Rightarrow> do {
              let failed = map bare_session bad;
              ret (failed, if failed \<noteq> [] \<and> length failed = length req
                           then Some (Text ''all router direct pushes failed'') else None)
            }
        })"

section \<open>Pushing through the router is pushing\<close>

lemma bare_session_id [simp]: "ss_Server (bare_session p) = fst p" "ss_Key (bare_session p) = snd p"
  by (simp_all add: bare_session_def)

text \<open>What is left of a session on its way to the router and back.\<close>

definition strip :: "Session \<Rightarrow> Session" where "strip s = bare_session (ss_Server s, ss_Key s)"

lemma strip_simps [simp]: "ss_Server (strip s) = ss_Server s" "ss_Key (strip s) = ss_Key s"
  by (simp_all add: strip_def)

lemma push_loop_bare:
  "run_state (push_loop (map strip ss) op body (map strip failed) le ok) w
   = (let ((fl, l, o1), w') = run_state (push_loop ss op body failed le ok) w in ((map strip fl, l, o1), w'))"
proof (induction ss arbitrary: failed le ok w)
  case (Cons s ss)
  obtain x w1 where c: "run_state (call (Comet_PushMsg (ss_Server s) [ss_Key s] op body)) w = (x, w1)" by fastforce
  show ?case
    using c Cons.IH [of failed le True w1] Cons.IH [of "failed @ [s]" "x" ok w1]
    by (cases x) (simp_all del: run_call)
qed simp

lemma push_loop_failed:
  "run_state (push_loop ss op body failed le ok) w = ((fl, l, o1), w') \<Longrightarrow>
     (\<exists>n. length fl = length failed + n \<and> n \<le> length ss \<and> (ok \<longrightarrow> o1) \<and> (\<not> o1 \<longleftrightarrow> \<not> ok \<and> n = length ss))"
proof (induction ss arbitrary: failed le ok w)
  case (Cons s ss)
  obtain x w1 where c: "run_state (call (Comet_PushMsg (ss_Server s) [ss_Key s] op body)) w = (x, w1)" by fastforce
  show ?case
  proof (cases x)
    case None
    with Cons.prems c have "run_state (push_loop ss op body failed le True) w1 = ((fl, l, o1), w')" by (simp del: run_call)
    from Cons.IH [OF this] obtain n where "length fl = length failed + n" "n \<le> length ss" "o1" by auto
    then show ?thesis by (intro exI [of _ n]) auto
  next
    case (Some y)
    with Cons.prems c have "run_state (push_loop ss op body (failed @ [s]) (Some y) ok) w1 = ((fl, l, o1), w')"
      by (simp del: run_call)
    from Cons.IH [OF this] obtain n where "length fl = length failed + Suc n" "n \<le> length ss"
      "(ok \<longrightarrow> o1) \<and> (\<not> o1 \<longleftrightarrow> \<not> ok \<and> n = length ss)" by auto
    then show ?thesis by (intro exI [of _ "Suc n"]) auto
  qed
qed auto

text \<open>Property C24. Pushing to connections through the router's service is the same as pushing to them directly:
  the same calls of the Comet nodes, the same connections reported as failed, and an error exactly when the
  direct push has one.\<close>

theorem push_through_router:
  assumes "run_state (directPush (en_pusher e) ss op body) w = ((failed, x), w')"
  shows "\<exists>y. run_state (rdp_DirectPush (Some (srv_DirectPush e)) ss op body) w = ((map strip failed, y), w')
    \<and> (y = None \<longleftrightarrow> x = None)"
proof (cases "en_pusher e")
  case False
  then have "failed = ss" "x \<noteq> None" "w' = w" using assms by (auto simp: directPush_def)
  then show ?thesis
    using False by (cases ss) (auto simp: rdp_DirectPush_def srv_DirectPush_def directPush_def toProtoSessions_def strip_def)
next
  case True
  obtain fl l o1 w1 where p: "run_state (push_loop ss op body [] None False) w = ((fl, l, o1), w1)" by (metis prod.collapse)
  have f: "failed = fl" "w' = w1" "x = (if \<not> o1 \<and> fl \<noteq> [] then Some (Wrapped ''all direct pushes failed'' (the l)) else None)"
    using assms True p by (auto simp: directPush_def)
  obtain n where n: "length fl = n" "n \<le> length ss" "\<not> o1 \<longleftrightarrow> n = length ss"
    using push_loop_failed [OF p] by auto
  have "run_state (push_loop (map strip ss) op body [] None False) w
      = ((map strip fl, l, o1), w1)"
    using push_loop_bare [of ss op body "[]" None False w] p by simp
  then show ?thesis
    using True n by (auto simp: rdp_DirectPush_def srv_DirectPush_def directPush_def toProtoSessions_def strip_def [symmetric] f comp_def
        split: option.splits)
qed

definition demo_ends :: "string \<Rightarrow> Session" where
  "demo_ends key = bare_session (''comet'', key)"

theorem push_through_router_witness:
  "\<exists>w'. run_state (rdp_DirectPush (Some (srv_DirectPush demo_engine)) [demo_ends ''a'', demo_ends ''b''] 9 [1])
      (empty_world\<lparr>w_replies := [None, Some ErrClosed]\<rparr>) = (([demo_ends ''b''], None), w')"
proof -
  have "en_pusher demo_engine" by (simp add: demo_engine_def)
  then obtain w' where "run_state (directPush (en_pusher demo_engine) [demo_ends ''a'', demo_ends ''b''] 9 [1])
      (empty_world\<lparr>w_replies := [None, Some ErrClosed]\<rparr>) = (([demo_ends ''b''], None), w')"
    by (simp add: directPush_def)
  from push_through_router [OF this] show ?thesis by (auto simp: strip_def demo_ends_def)
qed

section \<open>What a reply without an error means\<close>

lemma result_growing [growing]:
  "grows (result_limits e msgID toUID op body sq d)" "grows (result_online e msgID toUID op body sq ss d)"
  unfolding result_limits_def result_online_def Let_def by (intro growing)+

lemma result_limits_takes:
  "takes n op body (\<lambda>l. \<exists>d' r. l = Some ((d', None), r)) (result_limits e msgID toUID op body sq d)"
  unfolding result_limits_def
  by (intro takes_bind growing triple_if triple_option takes_return takes_bind_when [OF reliableEnqueue_takes])
    (auto simp: failed_with_def Let_def intro!: growing takes_return takes_bind takes_bind_when [OF reliableEnqueue_takes] split: option.split)

lemma result_online_takes:
  "ss \<noteq> [] \<Longrightarrow> takes n op body (\<lambda>c. \<exists>d'. c = Some (d', None)) (result_online e msgID toUID op body sq ss d)"
  unfolding result_online_def
  by (intro takes_bind_when [OF directPush_takes])
    (auto simp: Let_def intro!: growing takes_bind takes_return split: prod.splits option.splits)

lemma result_dispatch_takes:
  "takes n op body (\<lambda>r. snd (fst r) = None) (result_dispatch e msgID toUID op body sq d)"
  unfolding result_dispatch_def
proof (rule takes_settle [where g = "\<lambda>r. r"], goal_cases)
  case 1
  show ?case by (rule triple_conseq [OF result_limits_takes]) auto
next
  case 2
  have fallback: "takes n op body (\<lambda>r. snd (fst r) = None) (State_Monad.bind (reliableEnqueue e msgID toUID op body sq ss) (\<lambda>x.
      case x of None \<Rightarrow> do { count_kafka; ret ((d'\<lparr>dr_Path := p\<rparr>, None), False) }
      | Some y \<Rightarrow> ret (failed_with ''reliable_enqueue_failed'' y d', True)))" for ss d' p
    by (intro takes_bind_when [OF reliableEnqueue_takes])
      (auto simp: failed_with_def intro!: growing takes_return split: option.splits)
  show ?case
  proof (rule online_takes, unfold prod.case if_True if_False Let_def, goal_cases)
    case (1 ss)
    show ?case
      by (rule takes_settle [where g = "\<lambda>r. (r, True)"], rule triple_conseq [OF result_online_takes [OF 1]])
        (auto intro: fallback)
  next
    case (2 ss)
    show ?case
      by (rule takes_settle [where g = "\<lambda>r. (r, True)"], rule takes_return) (auto intro: fallback)
  qed
qed

text \<open>How the routing of a request starts: the id of the message and the lock.\<close>

definition result_start :: "engine \<Rightarrow> string \<Rightarrow> (gerr + string \<times> bool \<times> string option) act" where
  "result_start e msgID0 = do {
     g \<leftarrow> (if msgID0 = [] then generateMsgID e else ret (Inr msgID0));
     case g of
       Inl x \<Rightarrow> ret (Inl x)
     | Inr msgID \<Rightarrow> do { b \<leftarrow> BeginDeliveryAttempt (en_ack e) msgID; ret (map_sum id (Pair msgID) b) }
   }"

lemma grows_result_start: "grows (result_start e msgID0)"
  unfolding result_start_def by (intro growing)

definition result_rest ::
  "engine \<Rightarrow> string \<Rightarrow> int \<Rightarrow> i32 \<Rightarrow> byte list \<Rightarrow> int \<Rightarrow> string \<Rightarrow> string option \<Rightarrow> DeliveryResult \<Rightarrow> (DeliveryResult \<times> gerr option) act" where
  "result_rest e tr toUID op body sq msgID token d = do {
     (res, release) \<leftarrow> result_attempt e tr msgID toUID op body sq d;
     (if release then unlock_attempt msgID token else ret ());
     ret res
   }"

lemma result_rest_takes:
  assumes "run_state (TrackMessage (en_ack e) tr msgID 0 toUID op body) w1 = (None, w2)" "from_log n w1"
    and "run_state (result_rest e tr toUID op body sq msgID token d) w1 = ((dr, None), w')"
  shows "handed n op body w'"
proof -
  have f: "from_log n w2"
    using growsD [OF handler_growing(8) assms(1)] assms(2) by (rule from_log_mono [rotated])
  have "takes n op body (\<lambda>x. snd x = None) (do {
     e_publishACK e msgID toUID ''server_received'' [];
     (x, release) \<leftarrow> result_dispatch e msgID toUID op body sq d;
     (if release then unlock_attempt msgID token else ret ());
     ret x
   })"
    by (intro takes_bind growing takes_bind_when [OF result_dispatch_takes])
      (auto intro!: growing takes_bind takes_return split: prod.splits)
  from tripleD [OF this f] assms(1,3) show ?thesis
    by (auto simp: result_rest_def result_attempt_def split: prod.splits)
qed

lemma RouteByUserResult_parts:
  assumes "run_state (RouteByUserResult e ctxTrace msgID0 toUID op body sq) w = ((dr, None), w')"
  shows "\<exists>msgID acquired token w1 tr d. run_state (result_start e msgID0) w = (Inr (msgID, acquired, token), w1)
    \<and> (if acquired then run_state (result_rest e tr toUID op body sq msgID token d) w1 = ((dr, None), w') else w' = w1)"
proof -
  obtain g w0 where g: "run_state (if msgID0 = [] then generateMsgID e else ret (Inr msgID0)) w = (g, w0)" by fastforce
  show ?thesis
  proof (cases g)
    case (Inl x)
    then show ?thesis using assms g by (auto simp: RouteByUserResult_def Let_def failed_with_def)
  next
    case (Inr msgID)
    obtain b w1 where b: "run_state (BeginDeliveryAttempt (en_ack e) msgID) w0 = (b, w1)" by fastforce
    show ?thesis
    proof (cases b)
      case (Inl x)
      then show ?thesis using assms g b Inr by (auto simp: RouteByUserResult_def Let_def failed_with_def)
    next
      case (Inr p)
      obtain acquired token where p: "p = (acquired, token)" by (cases p)
      have st: "run_state (result_start e msgID0) w = (Inr (msgID, acquired, token), w1)"
        using g b Inr p \<open>g = Inr msgID\<close> by (simp add: result_start_def)
      have "\<exists>tr d. if acquired then run_state (result_rest e tr toUID op body sq msgID token d) w1 = ((dr, None), w') else w' = w1"
        using assms g b Inr p \<open>g = Inr msgID\<close>
        by (cases acquired) (simp add: RouteByUserResult_def Let_def result_rest_def, blast,
          simp add: RouteByUserResult_def Let_def)
      with st show ?thesis by blast
    qed
  qed
qed

text \<open>The reply of the router's service without an error code means that in the course of the call a
  connection or the queue took the message, with the two exceptions of the engine: another attempt for the
  message was under way, or tracking it reported an error.\<close>

theorem clean_reply_is_handed_over:
  assumes run: "run_state (srv_RouteByUser e ctxTrace msgID0 toUID op body sq) w = (reply, w')" and "ru_ErrorCode reply = []"
  shows "handed (length (w_log w)) op body w'
    \<or> (\<exists>msgID token. run_state (result_start e msgID0) w = (Inr (msgID, False, token), w'))
    \<or> (\<exists>msgID token w1 tr y w2. run_state (result_start e msgID0) w = (Inr (msgID, True, token), w1)
        \<and> run_state (TrackMessage (en_ack e) tr msgID 0 toUID op body) w1 = (Some y, w2))"
proof -
  obtain dr err where r: "run_state (RouteByUserResult e ctxTrace msgID0 toUID op body sq) w = ((dr, err), w')"
    using run by (auto simp: srv_RouteByUser_def Let_def split: prod.splits)
  have "err = None"
    using run assms(2) by (auto simp: srv_RouteByUser_def Let_def r split: option.splits if_splits)
  with r have r: "run_state (RouteByUserResult e ctxTrace msgID0 toUID op body sq) w = ((dr, None), w')" by simp
  from RouteByUserResult_parts [OF this] obtain msgID acquired token w1 tr d
    where st: "run_state (result_start e msgID0) w = (Inr (msgID, acquired, token), w1)"
    and rest: "if acquired then run_state (result_rest e tr toUID op body sq msgID token d) w1 = ((dr, None), w') else w' = w1"
    by blast
  have l: "from_log (length (w_log w)) w1"
    using growsD [OF grows_result_start st] by (auto simp: from_log_def prefix_def)
  obtain t w2 where t: "run_state (TrackMessage (en_ack e) tr msgID 0 toUID op body) w1 = (t, w2)" by fastforce
  show ?thesis
  proof (cases "acquired \<and> t = None")
    case True
    then show ?thesis using result_rest_takes [OF _ l] t rest by auto
  next
    case False
    then show ?thesis using st t rest by (cases acquired; cases t) auto
  qed
qed

lemma pending_result_start: "run_state (result_start demo_engine (c # m)) w = (Inr (c # m, True, None), w)"
  by (simp add: result_start_def demo_engine_def demo_conf_def BeginDeliveryAttempt_def)

lemma pending_reply: "ru_ErrorCode (fst (run_state (srv_RouteByUser demo_engine [] ''m'' 7 9 [1] 0) pending_world)) = []"
proof -
  have k: "keyUserSessions 7 \<noteq> keyMsgStatus ''m''" "keyMsgStatus ''m'' \<noteq> keyUserSessions 7"
    by (simp_all add: keyUserSessions_def keyMsgStatus_def)
  have e: "en_ack demo_engine = demo_conf" by (simp add: demo_engine_def)
  have b: "run_state (BeginDeliveryAttempt demo_conf ''m'') pending_world = (Inr (True, None), pending_world)"
    by (simp add: BeginDeliveryAttempt_def demo_conf_def)
  have j: "ah_json demo_conf = (\<lambda>_. None)" "ah_jtrace demo_conf = (\<lambda>_. [])" by (simp_all add: demo_conf_def)
  have tr: "traceIDFromBodyOrContext (\<lambda>_. None) (\<lambda>_. []) [] [1] = []"
    by (simp add: traceIDFromBodyOrContext_def parseBizEnvelope.simps UnmarshalMsgBody_def plain_envelope_def Let_def)
  show ?thesis
    by (simp add: srv_RouteByUser_def RouteByUserResult_def e j tr b WithTraceID_def TrimSpace_def result_attempt_def pending_track Let_def)
      (simp add: result_dispatch_def result_limits_def sm_IsOnline_def sm_GetSessions_def reliableEnqueue_def
        AddToOfflineQueue_def GetUserSessions_def e_publishACK_def count_kafka_def unlock_attempt_def
        demo_engine_def pending_world_def empty_world_def empty_redis_def hset_def zadd_def expire_def k Let_def)
qed

theorem clean_reply_is_handed_over_witness:
  "handed 0 9 [1] (snd (run_state (srv_RouteByUser demo_engine [] ''m'' 7 9 [1] 0) pending_world))"
proof -
  obtain reply w' where r: "run_state (srv_RouteByUser demo_engine [] ''m'' 7 9 [1] 0) pending_world = (reply, w')"
    by fastforce
  have "ru_ErrorCode reply = []" using pending_reply r by simp
  moreover have "en_ack demo_engine = demo_conf" "w_log pending_world = []"
    by (simp_all add: demo_engine_def pending_world_def empty_world_def)
  ultimately show ?thesis
    using clean_reply_is_handed_over [OF r] r by (auto simp: pending_result_start pending_track)
qed

end
