(* ===== verification/Rate_Limit.thy ===== *)
theory Rate_Limit
  imports Complex_Main Goim_Prelude "HOL-Library.Signed_Division"
begin

text \<open>
  The rate limiters: \<open>internal/router/ratelimit.go\<close> and \<open>ratelimit_v2.go\<close>. Token buckets count in
  \<open>float64\<close>: the result of each operation of the machine is the exact one after the rounding \<open>fl\<close>, an
  argument. Times are nanoseconds; the clock is an argument and does not advance within a check. Every user
  has a bucket of its own, kept in one of 64 shards.
\<close>

section \<open>Token buckets\<close>

type_synonym rounding = "real \<Rightarrow> real"

record tokenBucket =
  tb_rate :: real
  tb_burst :: real
  tb_tokens :: real
  tb_lastTime :: int

definition allow :: "rounding \<Rightarrow> int \<Rightarrow> tokenBucket \<Rightarrow> bool \<times> tokenBucket" where
  "allow fl now tb =
     (let elapsed = fl (fl (real_of_int (now - tb_lastTime tb)) / 1000000000);
          tokens = fl (tb_tokens tb + fl (elapsed * tb_rate tb));
          tokens = (if tokens > tb_burst tb then tb_burst tb else tokens)
      in if tokens \<ge> 1 then (True, tb\<lparr>tb_lastTime := now, tb_tokens := fl (tokens - 1)\<rparr>)
         else (False, tb\<lparr>tb_lastTime := now, tb_tokens := tokens\<rparr>))"

definition new_bucket :: "int \<Rightarrow> real \<Rightarrow> real \<Rightarrow> tokenBucket" where
  "new_bucket now rate burst = \<lparr>tb_rate = rate, tb_burst = burst, tb_tokens = burst, tb_lastTime = now\<rparr>"

section \<open>The limiter of users\<close>

text \<open>The table of the users' buckets in 64 shards.\<close>

type_synonym buckets = "nat \<Rightarrow> int \<Rightarrow> tokenBucket option"

record RateLimiter =
  rl_global :: tokenBucket
  rl_shards :: buckets

definition NewRateLimiter :: "int \<Rightarrow> real \<Rightarrow> real \<Rightarrow> RateLimiter" where
  "NewRateLimiter now rate burst = \<lparr>rl_global = new_bucket now rate burst, rl_shards = (\<lambda>_ _. None)\<rparr>"

text \<open>The index of a user's shard. The negation of the least number is that number, whose rest is zero.\<close>

definition rateLimitShardIndex :: "64 word \<Rightarrow> nat" where
  "rateLimitShardIndex uid = (let u = (if sint uid < 0 then - uid else uid) in nat (sint u smod 64))"

definition user_allow :: "rounding \<Rightarrow> int \<Rightarrow> tokenBucket \<Rightarrow> 64 word \<Rightarrow> buckets \<Rightarrow> bool \<times> buckets" where
  "user_allow fl now fresh uid shards =
     (let i = rateLimitShardIndex uid;
          tb = (case shards i (sint uid) of Some t \<Rightarrow> t | None \<Rightarrow> fresh);
          (ok, tb') = allow fl now tb
      in (ok, shards(i := (shards i)(sint uid \<mapsto> tb'))))"

definition AllowUser :: "rounding \<Rightarrow> int \<Rightarrow> 64 word \<Rightarrow> real \<Rightarrow> real \<Rightarrow> RateLimiter \<Rightarrow> bool \<times> RateLimiter" where
  "AllowUser fl now uid rate burst r =
     (let (ok, g) = allow fl now (rl_global r); r1 = r\<lparr>rl_global := g\<rparr>
      in if \<not> ok then (False, r1)
         else let (ok', sh) = user_allow fl now (new_bucket now rate burst) uid (rl_shards r1)
              in (ok', r1\<lparr>rl_shards := sh\<rparr>))"

section \<open>The limiter of several dimensions\<close>

record DimConfig =
  dc_Rate :: real
  dc_Burst :: real

record MultiDimConfig =
  mc_User :: DimConfig
  mc_BusinessType :: "string \<Rightarrow> DimConfig option"
  mc_EventType :: "string \<Rightarrow> DimConfig option"
  mc_Priority :: "string \<Rightarrow> DimConfig option"

abbreviation dim :: "real \<Rightarrow> real \<Rightarrow> DimConfig" where
  "dim rate burst \<equiv> \<lparr>dc_Rate = rate, dc_Burst = burst\<rparr>"

definition DefaultMultiDimConfig :: MultiDimConfig where
  "DefaultMultiDimConfig = \<lparr>mc_User = dim 100 200,
     mc_BusinessType = [''order'' \<mapsto> dim 1000 2000, ''marketing'' \<mapsto> dim 200 500],
     mc_EventType = [''order_status_changed'' \<mapsto> dim 800 1000, ''flash_sale_campaign'' \<mapsto> dim 100 200],
     mc_Priority = [''critical'' \<mapsto> dim 2000 3000, ''high'' \<mapsto> dim 1000 2000, ''normal'' \<mapsto> dim 500 1000, ''low'' \<mapsto> dim 100 200]\<rparr>"

record MultiDimRateLimiter =
  md_cfg :: MultiDimConfig
  md_shards :: buckets
  md_bizTypes :: "string \<Rightarrow> tokenBucket option"
  md_evtTypes :: "string \<Rightarrow> tokenBucket option"
  md_prios :: "string \<Rightarrow> tokenBucket option"

definition NewMultiDimRateLimiter :: "MultiDimConfig \<Rightarrow> MultiDimRateLimiter" where
  "NewMultiDimRateLimiter cfg = \<lparr>md_cfg = cfg, md_shards = (\<lambda>_ _. None), md_bizTypes = (\<lambda>_. None),
     md_evtTypes = (\<lambda>_. None), md_prios = (\<lambda>_. None)\<rparr>"

definition newBucket :: "int \<Rightarrow> DimConfig \<Rightarrow> tokenBucket" where
  "newBucket now cfg = \<lparr>tb_rate = dc_Rate cfg, tb_burst = dc_Burst cfg, tb_tokens = dc_Burst cfg, tb_lastTime = now\<rparr>"

definition v2ShardIndex :: "64 word \<Rightarrow> nat" where
  "v2ShardIndex uid = (let u = (if sint uid < 0 then - uid else uid) in nat (sint u smod 64))"

definition md_AllowUser :: "rounding \<Rightarrow> int \<Rightarrow> 64 word \<Rightarrow> MultiDimRateLimiter \<Rightarrow> bool \<times> MultiDimRateLimiter" where
  "md_AllowUser fl now uid m =
     (let i = v2ShardIndex uid;
          tb = (case md_shards m i (sint uid) of Some t \<Rightarrow> t | None \<Rightarrow> newBucket now (mc_User (md_cfg m)));
          (ok, tb') = allow fl now tb
      in (ok, m\<lparr>md_shards := (md_shards m)(i := (md_shards m i)(sint uid \<mapsto> tb'))\<rparr>))"

text \<open>A bucket of a table, made when it is missing.\<close>

definition named_allow :: "rounding \<Rightarrow> int \<Rightarrow> DimConfig \<Rightarrow> string \<Rightarrow> (string \<Rightarrow> tokenBucket option) \<Rightarrow> bool \<times> (string \<Rightarrow> tokenBucket option)" where
  "named_allow fl now cfg k t =
     (let tb = (case t k of Some b \<Rightarrow> b | None \<Rightarrow> newBucket now cfg); (ok, tb') = allow fl now tb in (ok, t(k \<mapsto> tb')))"

definition AllowBusinessType :: "rounding \<Rightarrow> int \<Rightarrow> string \<Rightarrow> MultiDimRateLimiter \<Rightarrow> bool \<times> MultiDimRateLimiter" where
  "AllowBusinessType fl now bizType m =
     (if bizType = [] then (True, m)
      else case mc_BusinessType (md_cfg m) bizType of
        None \<Rightarrow> (True, m)
      | Some cfg \<Rightarrow> let (ok, t) = named_allow fl now cfg bizType (md_bizTypes m) in (ok, m\<lparr>md_bizTypes := t\<rparr>))"

definition AllowEventType :: "rounding \<Rightarrow> int \<Rightarrow> string \<Rightarrow> MultiDimRateLimiter \<Rightarrow> bool \<times> MultiDimRateLimiter" where
  "AllowEventType fl now evtType m =
     (if evtType = [] then (True, m)
      else case mc_EventType (md_cfg m) evtType of
        None \<Rightarrow> (True, m)
      | Some cfg \<Rightarrow> let (ok, t) = named_allow fl now cfg evtType (md_evtTypes m) in (ok, m\<lparr>md_evtTypes := t\<rparr>))"

definition zero_dim :: DimConfig where "zero_dim = dim 0 0"

definition AllowPriority :: "rounding \<Rightarrow> int \<Rightarrow> string \<Rightarrow> MultiDimRateLimiter \<Rightarrow> bool \<times> MultiDimRateLimiter" where
  "AllowPriority fl now priority m =
     (let p = (if priority = [] then ''normal'' else priority);
          cfg = (case mc_Priority (md_cfg m) p of
                   Some c \<Rightarrow> c
                 | None \<Rightarrow> (case mc_Priority (md_cfg m) ''normal'' of Some c \<Rightarrow> c | None \<Rightarrow> zero_dim));
          (ok, t) = named_allow fl now cfg p (md_prios m)
      in (ok, m\<lparr>md_prios := t\<rparr>))"

text \<open>The result of all checks: the dimension that refused and why, or nothing.\<close>

record RateLimitResult =
  rr_Allowed :: bool
  rr_Dimension :: string
  rr_Reason :: string

definition CheckAll :: "rounding \<Rightarrow> int \<Rightarrow> 64 word \<Rightarrow> string \<Rightarrow> string \<Rightarrow> string \<Rightarrow> MultiDimRateLimiter \<Rightarrow> RateLimitResult \<times> MultiDimRateLimiter" where
  "CheckAll fl now uid bizType evtType priority m =
     (let (ok, m) = md_AllowUser fl now uid m
      in if \<not> ok then (\<lparr>rr_Allowed = False, rr_Dimension = ''user'', rr_Reason = ''user rate limit exceeded''\<rparr>, m)
      else let (ok, m) = AllowEventType fl now evtType m
      in if \<not> ok then (\<lparr>rr_Allowed = False, rr_Dimension = ''event_type'', rr_Reason = evtType @ '' rate limit exceeded''\<rparr>, m)
      else let (ok, m) = AllowPriority fl now priority m
      in if \<not> ok then (\<lparr>rr_Allowed = False, rr_Dimension = ''priority'', rr_Reason = priority @ '' rate limit exceeded''\<rparr>, m)
      else (\<lparr>rr_Allowed = True, rr_Dimension = [], rr_Reason = []\<rparr>, m))"

section \<open>How much a bucket lets through\<close>

text \<open>Checks at the given times, one after the other: how many were let through, and the bucket afterwards.\<close>

fun allow_run :: "rounding \<Rightarrow> int list \<Rightarrow> tokenBucket \<Rightarrow> nat \<times> tokenBucket" where
  "allow_run fl [] tb = (0, tb)"
| "allow_run fl (t # ts) tb =
     (let (ok, tb1) = allow fl t tb; (n, tb2) = allow_run fl ts tb1 in (if ok then n + 1 else n, tb2))"

text \<open>Rounding to \<open>float64\<close>, away from underflow: monotone, and off by a factor of at most \<open>1 + u\<close>.\<close>

definition rounds :: "real \<Rightarrow> rounding \<Rightarrow> bool" where
  "rounds u fl \<longleftrightarrow> 0 \<le> u \<and> (\<forall>x \<ge> 0. 0 \<le> fl x \<and> fl x \<le> (1 + u) * x)"

definition bucket_ok :: "real \<Rightarrow> tokenBucket \<Rightarrow> bool" where
  "bucket_ok u tb \<longleftrightarrow> 0 \<le> tb_rate tb \<and> 0 \<le> tb_tokens tb \<and> tb_tokens tb \<le> (1 + u) * tb_burst tb \<and> 0 \<le> tb_burst tb"

text \<open>What flows into a bucket in a time, and the allowance for the rounding of one check.\<close>

definition inflow :: "real \<Rightarrow> real \<Rightarrow> int \<Rightarrow> real" where
  "inflow u rate t = (1 + u) ^ 4 * (rate * (real_of_int t / 1000000000))"

definition slack :: "real \<Rightarrow> real \<Rightarrow> real" where
  "slack u burst = u * (2 + u) * burst"

lemma roundsD:
  assumes "rounds u fl" "0 \<le> x"
  shows "0 \<le> fl x" "fl x \<le> (1 + u) * x"
  using assms by (auto simp: rounds_def)

lemma rounds_le:
  assumes "rounds u fl" "0 \<le> x" "x \<le> (1 + u) ^ n * y"
  shows "fl x \<le> (1 + u) ^ Suc n * y"
proof -
  have "fl x \<le> (1 + u) * x" "0 \<le> 1 + u" using assms(1,2) by (auto simp: rounds_def)
  moreover have "(1 + u) * x \<le> (1 + u) * ((1 + u) ^ n * y)"
    using assms(3) \<open>0 \<le> 1 + u\<close> by (rule mult_left_mono)
  ultimately show ?thesis by (simp add: mult.assoc)
qed

lemma flow_in:
  assumes fl: "rounds u fl" and d: "0 \<le> d" and r: "0 \<le> rate"
  defines "g \<equiv> fl (fl (fl (real_of_int d) / 1000000000) * rate)"
  shows "0 \<le> g" "(1 + u) * g \<le> inflow u rate d"
proof -
  have u: "0 \<le> 1 + u" using fl by (simp add: rounds_def)
  let ?y = "real_of_int d / 1000000000"
  have a: "0 \<le> fl (real_of_int d)" "fl (real_of_int d) / 1000000000 \<le> (1 + u) ^ 1 * ?y"
    using roundsD [OF fl] d by auto
  have b: "0 \<le> fl (fl (real_of_int d) / 1000000000)" using roundsD(1) [OF fl] a(1) by simp
  have "fl (fl (real_of_int d) / 1000000000) \<le> (1 + u) ^ 2 * ?y"
    using rounds_le [OF fl _ a(2)] a(1) by (simp add: numeral_2_eq_2)
  then have c: "fl (fl (real_of_int d) / 1000000000) * rate \<le> (1 + u) ^ 2 * (rate * ?y)"
    using mult_right_mono [OF _ r] by (metis mult.assoc mult.commute)
  show "0 \<le> g" using roundsD(1) [OF fl] b r by (simp add: g_def)
  have "g \<le> (1 + u) ^ 3 * (rate * ?y)"
    unfolding g_def using rounds_le [OF fl _ c] b r by (simp add: numeral_3_eq_3 numeral_2_eq_2)
  then have "(1 + u) * g \<le> (1 + u) * ((1 + u) ^ 3 * (rate * ?y))" using u by (rule mult_left_mono)
  then show "(1 + u) * g \<le> inflow u rate d" by (simp add: inflow_def eval_nat_numeral algebra_simps)
qed

lemma allow_step:
  assumes fl: "rounds u fl" and ok: "bucket_ok u tb" and t: "tb_lastTime tb \<le> now" and a: "allow fl now tb = (b, tb')"
  shows "bucket_ok u tb'" "tb_burst tb' = tb_burst tb" "tb_rate tb' = tb_rate tb" "tb_lastTime tb' = now"
    "tb_tokens tb' + of_bool b \<le> tb_tokens tb + inflow u (tb_rate tb) (now - tb_lastTime tb) + slack u (tb_burst tb)"
proof -
  have u: "0 \<le> u" using fl by (simp add: rounds_def)
  have k: "0 \<le> tb_rate tb" "0 \<le> tb_tokens tb" "tb_tokens tb \<le> (1 + u) * tb_burst tb" "0 \<le> tb_burst tb"
    using ok by (auto simp: bucket_ok_def)
  define g where "g = fl (fl (fl (real_of_int (now - tb_lastTime tb)) / 1000000000) * tb_rate tb)"
  define t1 where "t1 = fl (tb_tokens tb + g)"
  define t2 where "t2 = min t1 (tb_burst tb)"
  have g: "0 \<le> g" "(1 + u) * g \<le> inflow u (tb_rate tb) (now - tb_lastTime tb)"
    using flow_in [OF fl _ k(1), of "now - tb_lastTime tb"] t by (simp_all add: g_def)
  have t1: "0 \<le> t1" "t1 \<le> (1 + u) * (tb_tokens tb + g)"
    using roundsD [OF fl, of "tb_tokens tb + g"] k(2) g(1) by (simp_all add: t1_def)
  have t2: "0 \<le> t2" "t2 \<le> tb_burst tb" "t2 \<le> t1" using t1(1) k(4) by (auto simp: t2_def)
  have run: "b \<longleftrightarrow> t2 \<ge> 1" "tb' = tb\<lparr>tb_lastTime := now, tb_tokens := (if t2 \<ge> 1 then fl (t2 - 1) else t2)\<rparr>"
    using a by (auto simp: allow_def Let_def g_def t1_def t2_def min_def split: if_splits)
  then show "tb_burst tb' = tb_burst tb" "tb_rate tb' = tb_rate tb" "tb_lastTime tb' = now" by simp_all
  have s: "0 \<le> u * tb_burst tb" "u * tb_tokens tb \<le> u * ((1 + u) * tb_burst tb)" "u * (t2 - 1) \<le> u * tb_burst tb"
    using u k t2 by (auto intro!: mult_left_mono)
  have t1': "t1 \<le> tb_tokens tb + u * ((1 + u) * tb_burst tb) + inflow u (tb_rate tb) (now - tb_lastTime tb)"
    using t1(2) g(2) s(2) by (simp add: algebra_simps)
  have f: "t2 \<ge> 1 \<Longrightarrow> 0 \<le> fl (t2 - 1) \<and> fl (t2 - 1) \<le> (t2 - 1) + u * (t2 - 1)"
    using roundsD [OF fl, of "t2 - 1"] by (simp add: algebra_simps)
  have "tb_tokens tb' \<le> (1 + u) * tb_burst tb"
    using f t2(2) s by (auto simp: run(2) distrib_right)
  then show "bucket_ok u tb'" using f k t2(1) by (auto simp: bucket_ok_def run(2))
  have "tb_tokens tb' + of_bool b \<le> t2 + u * tb_burst tb"
    using f s(1,3) by (auto simp: run)
  then show "tb_tokens tb' + of_bool b \<le> tb_tokens tb + inflow u (tb_rate tb) (now - tb_lastTime tb) + slack u (tb_burst tb)"
    using t1' t2(3) by (simp add: slack_def algebra_simps)
qed

lemma inflow_add: "inflow u rate a + inflow u rate b = inflow u rate (a + b)"
  by (simp add: inflow_def algebra_simps add_divide_distrib)

lemma allow_run_bound:
  assumes "rounds u fl" "bucket_ok u tb" "sorted (tb_lastTime tb # ts)" "allow_run fl ts tb = (n, tb')"
  shows "bucket_ok u tb' \<and> real n + tb_tokens tb' \<le> tb_tokens tb
      + inflow u (tb_rate tb) (last (tb_lastTime tb # ts) - tb_lastTime tb) + real (length ts) * slack u (tb_burst tb)"
  using assms
proof (induction ts arbitrary: tb n)
  case Nil
  then show ?case by (simp add: inflow_def)
next
  case (Cons t ts)
  obtain b tb1 where a: "allow fl t tb = (b, tb1)" by (cases "allow fl t tb")
  obtain m where r: "allow_run fl ts tb1 = (m, tb')" and n: "n = m + of_bool b"
    using Cons.prems(4) a by (auto simp: Let_def split: prod.splits if_splits)
  have t: "tb_lastTime tb \<le> t" using Cons.prems(3) by simp
  note s = allow_step [OF Cons.prems(1,2) t a]
  have l: "sorted (tb_lastTime tb1 # ts)" using Cons.prems(3) s(4) by simp
  have i: "inflow u (tb_rate tb) (t - tb_lastTime tb) + inflow u (tb_rate tb) (last (t # ts) - t)
      = inflow u (tb_rate tb) (last (t # ts) - tb_lastTime tb)"
    by (simp add: inflow_add)
  from Cons.IH [OF Cons.prems(1) s(1) l r] s(2-5) i show ?case
    by (simp add: n algebra_simps)
qed

section \<open>How much a user gets through\<close>

text \<open>Checks at the given times for the given users, all with the same limit: the users let through.\<close>

fun limit_run :: "rounding \<Rightarrow> real \<Rightarrow> real \<Rightarrow> (int \<times> 64 word) list \<Rightarrow> RateLimiter \<Rightarrow> 64 word list \<times> RateLimiter" where
  "limit_run fl rate burst [] r = ([], r)"
| "limit_run fl rate burst ((t, uid) # cs) r =
     (let (ok, r1) = AllowUser fl t uid rate burst r; (us, r2) = limit_run fl rate burst cs r1
      in (if ok then uid # us else us, r2))"

abbreviation user_bucket :: "64 word \<Rightarrow> RateLimiter \<Rightarrow> tokenBucket option" where
  "user_bucket uid r \<equiv> rl_shards r (rateLimitShardIndex uid) (sint uid)"

text \<open>The bucket of a user fits the limit and the time, and what the user may get through until then.\<close>

definition user_ok :: "real \<Rightarrow> real \<Rightarrow> real \<Rightarrow> 64 word \<Rightarrow> int \<Rightarrow> RateLimiter \<Rightarrow> bool" where
  "user_ok u rate burst uid t r \<longleftrightarrow>
     (case user_bucket uid r of None \<Rightarrow> True
      | Some tb \<Rightarrow> bucket_ok u tb \<and> tb_rate tb = rate \<and> tb_burst tb = burst \<and> tb_lastTime tb \<le> t)"

definition level :: "real \<Rightarrow> real \<Rightarrow> real \<Rightarrow> 64 word \<Rightarrow> int \<Rightarrow> RateLimiter \<Rightarrow> real" where
  "level u rate burst uid t r =
     (case user_bucket uid r of None \<Rightarrow> burst | Some tb \<Rightarrow> tb_tokens tb + inflow u rate (t - tb_lastTime tb))"

lemma inflow_nonneg: "0 \<le> u \<Longrightarrow> 0 \<le> rate \<Longrightarrow> 0 \<le> t \<Longrightarrow> 0 \<le> inflow u rate t"
  by (simp add: inflow_def)

lemma level_later:
  assumes "0 \<le> u" "0 \<le> rate" "t \<le> t'"
  shows "level u rate burst uid t' r \<le> level u rate burst uid t r + inflow u rate (t' - t)"
    and "user_ok u rate burst uid t r \<Longrightarrow> user_ok u rate burst uid t' r"
proof -
  show "level u rate burst uid t' r \<le> level u rate burst uid t r + inflow u rate (t' - t)"
  proof (cases "user_bucket uid r")
    case None
    then show ?thesis using inflow_nonneg [OF assms(1,2)] assms(3) by (simp add: level_def)
  next
    case (Some tb)
    have "inflow u rate (t' - tb_lastTime tb) = inflow u rate (t - tb_lastTime tb) + inflow u rate (t' - t)"
      by (simp add: inflow_add)
    with Some show ?thesis by (simp add: level_def)
  qed
  show "user_ok u rate burst uid t r \<Longrightarrow> user_ok u rate burst uid t' r"
    using assms(3) by (auto simp: user_ok_def split: option.splits)
qed

lemma AllowUser_step:
  assumes fl: "rounds u fl" and b: "0 \<le> rate" "0 \<le> burst" and ok: "user_ok u rate burst uid t r"
    and a: "AllowUser fl t v rate burst r = (x, r')"
  shows "user_ok u rate burst uid t r'"
    and "level u rate burst uid t r' + of_bool (x \<and> v = uid) \<le> level u rate burst uid t r + slack u burst"
proof -
  have u: "0 \<le> u" using fl by (simp add: rounds_def)
  have s: "0 \<le> slack u burst" using u b by (simp add: slack_def)
  obtain gok g where g: "allow fl t (rl_global r) = (gok, g)" by (cases "allow fl t (rl_global r)")
  let ?tb = "case user_bucket v r of Some t \<Rightarrow> t | None \<Rightarrow> new_bucket t rate burst"
  obtain y tb' where y: "allow fl t ?tb = (y, tb')" by (cases "allow fl t ?tb")
  have ua: "user_allow fl t (new_bucket t rate burst) v (rl_shards r)
      = (y, (rl_shards r)(rateLimitShardIndex v := (rl_shards r (rateLimitShardIndex v))(sint v \<mapsto> tb')))"
    by (simp add: user_allow_def y Let_def)
  have r': "r' = (if gok then r\<lparr>rl_global := g, rl_shards := (rl_shards r)(rateLimitShardIndex v :=
      (rl_shards r (rateLimitShardIndex v))(sint v \<mapsto> tb'))\<rparr> else r\<lparr>rl_global := g\<rparr>)" "x = (gok \<and> y)"
    using a ua by (auto simp: AllowUser_def g Let_def split: if_splits prod.splits)
  have sv: "v \<noteq> uid \<Longrightarrow> sint v \<noteq> sint uid" using signed_word_eqI by blast
  have tb: "bucket_ok u ?tb \<and> tb_rate ?tb = rate \<and> tb_burst ?tb = burst \<and> tb_lastTime ?tb \<le> t"
    if "v = uid"
    using ok b u that by (auto simp: user_ok_def new_bucket_def bucket_ok_def distrib_right split: option.splits)
  have "user_ok u rate burst uid t r'
      \<and> level u rate burst uid t r' + of_bool (x \<and> v = uid) \<le> level u rate burst uid t r + slack u burst"
  proof (cases "gok \<and> v = uid")
    case False
    then have "user_bucket uid r' = user_bucket uid r \<and> (v = uid \<longrightarrow> \<not> x)"
      using sv by (auto simp: r')
    then show ?thesis using ok s by (auto simp: user_ok_def level_def)
  next
    case True
    then have e: "user_bucket uid r' = Some tb'" "x = y"
      by (auto simp: r')
    have t: "bucket_ok u ?tb" "tb_lastTime ?tb \<le> t" "tb_rate ?tb = rate" "tb_burst ?tb = burst" using tb True by auto
    note st = allow_step [OF fl t(1,2) y]
    have "level u rate burst uid t r = tb_tokens ?tb + inflow u rate (t - tb_lastTime ?tb)"
      using True by (simp add: level_def new_bucket_def inflow_def split: option.splits)
    then show ?thesis
      using e st t(3,4) True by (simp add: user_ok_def level_def inflow_def)
  qed
  then show "user_ok u rate burst uid t r'"
    and "level u rate burst uid t r' + of_bool (x \<and> v = uid) \<le> level u rate burst uid t r + slack u burst"
    by blast+
qed

lemma level_nonneg: "0 \<le> u \<Longrightarrow> 0 \<le> rate \<Longrightarrow> 0 \<le> burst \<Longrightarrow> user_ok u rate burst uid t r \<Longrightarrow> 0 \<le> level u rate burst uid t r"
  by (auto simp: user_ok_def level_def bucket_ok_def inflow_nonneg split: option.splits)

lemma limit_run_level:
  assumes "rounds u fl" "0 \<le> rate" "0 \<le> burst" "user_ok u rate burst uid t r" "sorted (t # map fst cs)"
    and "limit_run fl rate burst cs r = (us, r')"
  shows "real (count_list us uid) \<le> level u rate burst uid t r + inflow u rate (last (t # map fst cs) - t)
      + real (length cs) * slack u burst"
  using assms(4-)
proof (induction cs arbitrary: t r us)
  case Nil
  then show ?case using level_nonneg [OF _ assms(2,3)] assms(1) by (auto simp: inflow_def rounds_def)
next
  case (Cons c cs)
  obtain t1 v where c: "c = (t1, v)" by (cases c)
  obtain x r1 where a: "AllowUser fl t1 v rate burst r = (x, r1)" by (cases "AllowUser fl t1 v rate burst r")
  obtain vs where v: "limit_run fl rate burst cs r1 = (vs, r')" and us: "us = (if x then v # vs else vs)"
    using Cons.prems(3) a c by (auto simp: Let_def split: prod.splits)
  have t: "t \<le> t1" and l: "sorted (t1 # map fst cs)" using Cons.prems(2) c by auto
  have u: "0 \<le> u" using assms(1) by (simp add: rounds_def)
  note later = level_later [OF u assms(2) t]
  note s = AllowUser_step [OF assms(1-3) later(2) [OF Cons.prems(1)] a]
  have i: "inflow u rate (t1 - t) + inflow u rate (last (t1 # map fst cs) - t1) = inflow u rate (last (t1 # map fst cs) - t)"
    by (simp add: inflow_add)
  have n: "count_list us uid = count_list vs uid + of_bool (x \<and> v = uid)" by (simp add: us)
  show ?case
    using Cons.IH [OF s(1) l v] s(2) later(1) [of burst uid r] i by (simp add: n c algebra_simps)
qed

text \<open>Property C25. The limiter keeps its promise to the last bit of \<open>float64\<close>: however the checks of all users are
  mixed, a user gets through at most the burst, what the rate yields in the time that has passed, and an allowance
  for rounding that is \<open>2 u + u\<^sup>2\<close> bursts per check, where \<open>u\<close> is the unit of rounding.\<close>

theorem users_limited:
  assumes "rounds u fl" "0 \<le> rate" "0 \<le> burst" "sorted (t0 # map fst cs)"
    and "limit_run fl rate burst cs (NewRateLimiter t0 grate gburst) = (us, r)"
  shows "real (count_list us uid) \<le> burst + inflow u rate (last (t0 # map fst cs) - t0) + real (length cs) * slack u burst"
  using limit_run_level [OF assms(1-3) _ assms(4,5), of uid]
  by (simp add: user_ok_def level_def NewRateLimiter_def)

theorem users_limited_witness:
  "count_list (fst (limit_run (\<lambda>x. x) 1 2 [(0, 7), (0, 7), (0, 7), (1000000000, 7)] (NewRateLimiter 0 10 10))) 7 \<le> 3"
proof -
  let ?cs = "[(0, 7), (0, 7), (0, 7), (1000000000, 7)]" and ?r = "NewRateLimiter 0 10 10"
  obtain us r where r: "limit_run (\<lambda>x. x) 1 2 ?cs ?r = (us, r)" by fastforce
  have "rounds 0 (\<lambda>x. x)" by (simp add: rounds_def)
  from users_limited [OF this _ _ _ r, of 7] show ?thesis
    unfolding r by (simp del: limit_run.simps add: inflow_def slack_def)
qed

text \<open>A message no limit of its own applies to is held back all the same when other users have used up the global
  budget, and a check refused for the user has already taken from it.\<close>

lemma refused_check_spends:
  assumes "allow fl t (rl_global r) = (True, g)"
  shows "rl_global (snd (AllowUser fl t uid rate burst r)) = g"
  using assms by (simp add: AllowUser_def Let_def split: prod.splits)

text \<open>Every name of a priority the configuration does not have gets a bucket of its own, as large as the one of
  normal messages.\<close>

lemma unknown_priority_fresh_bucket:
  assumes "mc_Priority (md_cfg m) p = None" "p \<noteq> []" "mc_Priority (md_cfg m) ''normal'' = Some cfg" "md_prios m p = None"
    and "1 \<le> dc_Burst cfg" "fl 0 = 0" "fl (dc_Burst cfg) = dc_Burst cfg"
  shows "fst (AllowPriority fl now p m)"
  using assms by (simp add: AllowPriority_def named_allow_def newBucket_def allow_def Let_def)

text \<open>The kind of business does not matter to the check of all dimensions.\<close>

lemma business_type_unlimited: "CheckAll fl now uid bizType evtType priority m = CheckAll fl now uid [] evtType priority m"
  by (simp add: CheckAll_def)

end
