(* ===== verification/Node_Pools.thy ===== *)
theory Node_Pools
  imports Wire_Proto Redis_Store "HOL-Library.AList" "HOL-Library.Multiset" "HOL-Library.Signed_Division"
begin

text \<open>
  The connections to other services: the pushers to the Comet nodes of Logic (\<open>internal/logic/comet.go\<close>) and
  of the router (\<open>internal/router/comet_pusher.go\<close>), and Logic's pool of routers
  (\<open>internal/logic/router_client.go\<close>). Connections are numbers; \<open>net\<close> knows the next one and which are
  open. \<open>dial\<close> says which addresses can be reached, \<open>host_of\<close> is what \<open>url.Parse\<close> makes of an address (its
  scheme and host, or nothing), and the answer of a node to a call is an argument. A Go map is the list of
  its entries in the order it is walked.
\<close>

section \<open>Connections\<close>

record instance_info =
  in_Hostname :: string
  in_Addrs :: "string list"

record net =
  nt_next :: nat
  nt_open :: "nat set"

record conn_pool =
  pp_clients :: "(string \<times> nat) list"
  pp_conns :: "(string \<times> nat option) list"

definition empty_pool :: conn_pool where
  "empty_pool = \<lparr>pp_clients = [], pp_conns = []\<rparr>"

type_synonym url_parse = "string \<Rightarrow> (string \<times> string) option"

fun grpcAddress :: "url_parse \<Rightarrow> string list \<Rightarrow> string" where
  "grpcAddress host_of [] = []"
| "grpcAddress host_of (a # as) =
     (case host_of a of
        Some (scheme, host) \<Rightarrow> if scheme = ''grpc'' then host else grpcAddress host_of as
      | None \<Rightarrow> grpcAddress host_of as)"

type_synonym tables = "(string \<times> nat) list \<times> (string \<times> nat option) list"

text \<open>The connections that are there already are kept, the others are dialled, and what is left over is closed.\<close>

definition keep_known :: "conn_pool \<Rightarrow> instance_info list \<Rightarrow> tables" where
  "keep_known p nodes = foldl (\<lambda>(cs, ks) node.
     case map_of (pp_clients p) (in_Hostname node) of
       None \<Rightarrow> (cs, ks)
     | Some c \<Rightarrow> (AList.update (in_Hostname node) c cs,
                  AList.update (in_Hostname node) (case map_of (pp_conns p) (in_Hostname node) of None \<Rightarrow> None | Some k \<Rightarrow> k) ks)) ([], []) nodes"

definition dial_one :: "url_parse \<Rightarrow> (string \<Rightarrow> bool) \<Rightarrow> tables \<times> net \<Rightarrow> instance_info \<Rightarrow> tables \<times> net" where
  "dial_one host_of dial = (\<lambda>((cs, ks), net) node.
     if map_of cs (in_Hostname node) \<noteq> None then ((cs, ks), net)
     else let addr = grpcAddress host_of (in_Addrs node)
          in if addr = [] \<or> \<not> dial addr then ((cs, ks), net)
             else ((AList.update (in_Hostname node) (nt_next net) cs, AList.update (in_Hostname node) (Some (nt_next net)) ks),
                   \<lparr>nt_next = nt_next net + 1, nt_open = insert (nt_next net) (nt_open net)\<rparr>))"

definition close_left :: "(string \<times> nat) list \<Rightarrow> (string \<times> nat option) list \<Rightarrow> net \<Rightarrow> net" where
  "close_left cs old net = net\<lparr>nt_open := nt_open net - {k. \<exists>h. (h, Some k) \<in> set old \<and> map_of cs h = None}\<rparr>"

definition refresh :: "url_parse \<Rightarrow> (string \<Rightarrow> bool) \<Rightarrow> instance_info list \<Rightarrow> conn_pool \<times> net \<Rightarrow> conn_pool \<times> net" where
  "refresh host_of dial nodes = (\<lambda>(p, net).
     let ((cs, ks), net1) = foldl (dial_one host_of dial) (keep_known p nodes, net) nodes
     in (\<lparr>pp_clients = cs, pp_conns = ks\<rparr>, close_left cs (pp_conns p) net1))"

definition close_all :: "conn_pool \<times> net \<Rightarrow> conn_pool \<times> net" where
  "close_all = (\<lambda>(p, net).
     (\<lparr>pp_clients = filter (\<lambda>(h, c). map_of (pp_conns p) h = None) (pp_clients p), pp_conns = []\<rparr>,
      net\<lparr>nt_open := nt_open net - {k. \<exists>h. (h, Some k) \<in> set (pp_conns p)}\<rparr>))"

section \<open>The pushers to Comet\<close>

definition NewCometPusher :: conn_pool where "NewCometPusher = empty_pool"
definition NewRouterCometPusher :: conn_pool where "NewRouterCometPusher = empty_pool"

definition cpu_UpdateNodes :: "url_parse \<Rightarrow> (string \<Rightarrow> bool) \<Rightarrow> instance_info list \<Rightarrow> conn_pool \<times> net \<Rightarrow> conn_pool \<times> net" where
  "cpu_UpdateNodes host_of dial nodes s = (if nodes = [] then s else refresh host_of dial nodes s)"

definition rcp_UpdateNodes :: "url_parse \<Rightarrow> (string \<Rightarrow> bool) \<Rightarrow> instance_info list \<Rightarrow> conn_pool \<times> net \<Rightarrow> conn_pool \<times> net" where
  "rcp_UpdateNodes host_of dial nodes s = (if nodes = [] then s else refresh host_of dial nodes s)"

definition cpu_Close :: "conn_pool \<times> net \<Rightarrow> conn_pool \<times> net" where "cpu_Close = close_all"
definition rcp_Close :: "conn_pool \<times> net \<Rightarrow> conn_pool \<times> net" where "rcp_Close = close_all"

definition wrapProto :: "i32 \<Rightarrow> byte list \<Rightarrow> proto exec" where
  "wrapProto op body =
     (let pb = \<lparr>Ver = 1, Op = op, Seq = 0, Body = Some body\<rparr>
      in exec_bind (WriteTo pb (NewWriterSize (length body + 64))) (\<lambda>buf.
           Ret (pb\<lparr>Body := Some (bw_Buffer buf), Op := OpRaw\<rparr>)))"

text \<open>A call of a node with its arguments, and the answer: an error, an empty reply, or the keys that failed.\<close>

datatype node_call =
    PushMsgReq "string list" i32 proto
  | BroadcastRoomReq string proto
  | BroadcastReq i32 proto i32

type_synonym answers = "nat \<Rightarrow> node_call \<Rightarrow> gerr + string list option"

definition show_keys :: "string list \<Rightarrow> string" where
  "show_keys ks = ''['' @ concat (case ks of [] \<Rightarrow> [] | k # r \<Rightarrow> k # map (\<lambda>k. CHR '' '' # k) r) @ '']''"

definition not_found :: "string \<Rightarrow> gerr" where
  "not_found server = Text (''comet server '' @ server @ '' not found'')"

definition pool_PushMsg :: "answers \<Rightarrow> string \<Rightarrow> string list \<Rightarrow> i32 \<Rightarrow> byte list \<Rightarrow> conn_pool \<Rightarrow> gerr option exec" where
  "pool_PushMsg rpc server ks op body p =
     (case map_of (pp_clients p) server of
        None \<Rightarrow> Ret (Some (not_found server))
      | Some c \<Rightarrow> exec_bind (wrapProto op body) (\<lambda>pb.
          Ret (case rpc c (PushMsgReq ks op pb) of
                 Inl e \<Rightarrow> Some e
               | Inr None \<Rightarrow> Some (Text ''empty comet push reply'')
               | Inr (Some failed) \<Rightarrow>
                   if failed \<noteq> [] then Some (Text (''comet push failed for keys '' @ show_keys failed)) else None)))"

definition KickConnection :: "answers \<Rightarrow> string \<Rightarrow> string \<Rightarrow> conn_pool \<Rightarrow> gerr option" where
  "KickConnection rpc server key p =
     (case map_of (pp_clients p) server of
        None \<Rightarrow> Some (not_found server)
      | Some c \<Rightarrow> (case rpc c (PushMsgReq [key] OpKickConnection \<lparr>Ver = 1, Op = OpKickConnection, Seq = 0, Body = None\<rparr>) of
                    Inl e \<Rightarrow> Some e | Inr _ \<Rightarrow> None))"

text \<open>A call of every node: how many came through, and the last error.\<close>

fun call_nodes :: "answers \<Rightarrow> node_call \<Rightarrow> (string \<times> nat) list \<Rightarrow> nat \<Rightarrow> gerr option \<Rightarrow> nat \<times> gerr option" where
  "call_nodes rpc q [] okCount lastErr = (okCount, lastErr)"
| "call_nodes rpc q ((h, c) # cs) okCount lastErr =
     (case rpc c q of
        Inl e \<Rightarrow> call_nodes rpc q cs okCount (Some e)
      | Inr _ \<Rightarrow> call_nodes rpc q cs (okCount + 1) lastErr)"

definition all_failed :: "string \<Rightarrow> nat \<times> gerr option \<Rightarrow> gerr option" where
  "all_failed what r = (case r of (okCount, lastErr) \<Rightarrow> if okCount = 0 then map_option (Wrapped what) lastErr else None)"

definition pool_BroadcastRoom :: "answers \<Rightarrow> i32 \<Rightarrow> string \<Rightarrow> byte list \<Rightarrow> conn_pool \<Rightarrow> gerr option exec" where
  "pool_BroadcastRoom rpc op roomKey body p =
     exec_bind (wrapProto op body) (\<lambda>pb.
       Ret (all_failed ''all comet broadcast room failed'' (call_nodes rpc (BroadcastRoomReq roomKey pb) (pp_clients p) 0 None)))"

definition divided :: "i32 \<Rightarrow> nat \<Rightarrow> i32" where
  "divided speed n = word_of_int (sint speed sdiv sint (of_nat n :: i32))"

definition rcp_BroadcastAll :: "answers \<Rightarrow> i32 \<Rightarrow> i32 \<Rightarrow> byte list \<Rightarrow> conn_pool \<Rightarrow> gerr option exec" where
  "rcp_BroadcastAll rpc op speed body p =
     exec_bind (wrapProto op body) (\<lambda>pb.
       let n = length (pp_clients p);
           s = (if 0 < n \<and> 0 < sint speed then divided speed n else speed)
       in Ret (all_failed ''all comet broadcast failed'' (call_nodes rpc (BroadcastReq op pb s) (pp_clients p) 0 None)))"

definition cpu_BroadcastAll :: "answers \<Rightarrow> i32 \<Rightarrow> i32 \<Rightarrow> byte list \<Rightarrow> conn_pool \<Rightarrow> gerr option exec" where
  "cpu_BroadcastAll rpc op speed body p =
     exec_bind (wrapProto op body) (\<lambda>pb.
       let n = length (pp_clients p);
           s = (if 0 < n then divided speed n else speed)
       in Ret (all_failed ''all comet broadcast failed'' (call_nodes rpc (BroadcastReq op pb s) (pp_clients p) 0 None)))"

section \<open>The pool of routers\<close>

record router_pool = conn_pool +
  rp_order :: "string list"
  rp_next :: i64

definition base_pool :: "router_pool \<Rightarrow> conn_pool" where
  "base_pool r = \<lparr>pp_clients = pp_clients r, pp_conns = pp_conns r\<rparr>"

definition NewRouterClientPool :: router_pool where
  "NewRouterClientPool = \<lparr>pp_clients = [], pp_conns = [], rp_order = [], rp_next = 0\<rparr>"

text \<open>The order: first the routers that are there already, one entry per instance, then each new one.\<close>

definition kept_order :: "conn_pool \<Rightarrow> instance_info list \<Rightarrow> string list" where
  "kept_order p nodes = filter (\<lambda>h. map_of (pp_clients p) h \<noteq> None) (map in_Hostname nodes)"

definition order_one :: "url_parse \<Rightarrow> (string \<Rightarrow> bool) \<Rightarrow> (tables \<times> net) \<times> string list \<Rightarrow> instance_info \<Rightarrow> (tables \<times> net) \<times> string list" where
  "order_one host_of dial = (\<lambda>(s, order) node.
     let s' = dial_one host_of dial s node
     in (s', if map_of (fst (fst s')) (in_Hostname node) \<noteq> map_of (fst (fst s)) (in_Hostname node)
             then order @ [in_Hostname node] else order))"

definition rp_UpdateNodes :: "url_parse \<Rightarrow> (string \<Rightarrow> bool) \<Rightarrow> instance_info list \<Rightarrow> router_pool \<times> net \<Rightarrow> router_pool \<times> net" where
  "rp_UpdateNodes host_of dial nodes = (\<lambda>(r, net).
     let p = base_pool r;
         (((cs, ks), net1), order) = foldl (order_one host_of dial) ((keep_known p nodes, net), kept_order p nodes) nodes
     in (r\<lparr>pp_clients := cs, pp_conns := ks, rp_order := order\<rparr>, close_left cs (pp_conns r) net1))"

definition rp_Close :: "router_pool \<times> net \<Rightarrow> router_pool \<times> net" where
  "rp_Close = (\<lambda>(r, net).
     let (p, net1) = close_all (base_pool r, net)
     in (r\<lparr>pp_clients := pp_clients p, pp_conns := pp_conns p, rp_order := []\<rparr>, net1))"

definition pick :: "router_pool \<Rightarrow> (gerr + nat) \<times> router_pool" where
  "pick r =
     (if rp_order r = [] then (Inl (Text ''router client has no available nodes''), r)
      else let idx = rp_next r + 1; r1 = r\<lparr>rp_next := idx\<rparr>;
               hostname = rp_order r ! unat ((idx - 1) mod of_nat (length (rp_order r)))
           in (case map_of (pp_clients r) hostname of
                 None \<Rightarrow> (Inl (Text (''router client '' @ hostname @ '' not found'')), r1)
               | Some c \<Rightarrow> (Inr c, r1)))"

text \<open>A request goes to the router that is next.\<close>

definition via :: "(nat \<Rightarrow> gerr + 'a) \<Rightarrow> router_pool \<Rightarrow> (gerr + 'a) \<times> router_pool" where
  "via req r = (case pick r of (Inl e, r1) \<Rightarrow> (Inl e, r1) | (Inr c, r1) \<Rightarrow> (req c, r1))"

section \<open>No connection in use is closed, none is forgotten\<close>

text \<open>The pool is the only user of its connections.\<close>

definition pool_inv :: "conn_pool \<Rightarrow> net \<Rightarrow> bool" where
  "pool_inv p net \<longleftrightarrow> pp_conns p = map (\<lambda>(h, c). (h, Some c)) (pp_clients p) \<and> distinct (map fst (pp_clients p))
     \<and> distinct (map snd (pp_clients p)) \<and> nt_open net = snd ` set (pp_clients p) \<and> (\<forall>k \<in> nt_open net. k < nt_next net)"

text \<open>While nodes are taken over and dialled.\<close>

definition tables_inv :: "conn_pool \<Rightarrow> net \<Rightarrow> tables \<Rightarrow> net \<Rightarrow> bool" where
  "tables_inv p old t net \<longleftrightarrow> snd t = map (\<lambda>(h, c). (h, Some c)) (fst t) \<and> distinct (map fst (fst t))
     \<and> distinct (map snd (fst t))
     \<and> (\<forall>(h, c) \<in> set (fst t). map_of (pp_clients p) h = Some c \<or> map_of (pp_clients p) h = None \<and> nt_next old \<le> c)
     \<and> nt_open net = nt_open old \<union> snd ` set (fst t) \<and> (\<forall>k \<in> nt_open net. k < nt_next net) \<and> nt_next old \<le> nt_next net"

lemma update_new: "map_of xs k = None \<Longrightarrow> AList.update k v xs = xs @ [(k, v)]"
  by (induction xs) (auto split: if_splits)

lemma update_same: "map_of xs k = Some v \<Longrightarrow> AList.update k v xs = xs"
  by (induction xs) (auto split: if_splits)

lemma map_of_conns: "map_of (map (\<lambda>(h, c). (h, Some c)) xs) h = map_option Some (map_of xs h)"
  by (induction xs) auto

lemma tables_add:
  assumes "tables_inv p old (cs, ks) net" "map_of cs h = None" "c \<notin> snd ` set cs"
    and "map_of (pp_clients p) h = Some c \<or> map_of (pp_clients p) h = None \<and> nt_next old \<le> c"
    and "nt_open net' = insert c (nt_open net)" "\<forall>k \<in> nt_open net'. k < nt_next net'" "nt_next net \<le> nt_next net'"
  shows "tables_inv p old (AList.update h c cs, AList.update h (Some c) ks) net'"
proof -
  have k: "map_of ks h = None" and d: "h \<notin> fst ` set cs"
    using assms(1,2) by (simp_all add: tables_inv_def map_of_conns map_of_eq_None_iff)
  show ?thesis
    unfolding update_new [OF assms(2)] update_new [OF k]
    using assms(1,3-) d by (auto simp: tables_inv_def)
qed

lemma keep_known_snoc:
  "keep_known p (nodes @ [node]) =
     (let (cs, ks) = keep_known p nodes
      in case map_of (pp_clients p) (in_Hostname node) of
           None \<Rightarrow> (cs, ks)
         | Some c \<Rightarrow> (AList.update (in_Hostname node) c cs, AList.update (in_Hostname node)
             (case map_of (pp_conns p) (in_Hostname node) of None \<Rightarrow> None | Some k \<Rightarrow> k) ks))"
  by (simp add: keep_known_def split: prod.splits)

lemma keep_known_inv:
  assumes "pool_inv p net"
  shows "tables_inv p net (keep_known p nodes) net \<and> (\<forall>(h, c) \<in> set (fst (keep_known p nodes)). map_of (pp_clients p) h = Some c)
    \<and> (\<forall>node \<in> set nodes. map_of (pp_clients p) (in_Hostname node) \<noteq> None
        \<longrightarrow> map_of (fst (keep_known p nodes)) (in_Hostname node) \<noteq> None)"
proof (induction nodes rule: rev_induct)
  case Nil
  then show ?case using assms by (simp add: keep_known_def tables_inv_def pool_inv_def)
next
  case (snoc node nodes)
  obtain cs ks where t: "keep_known p nodes = (cs, ks)" by fastforce
  let ?h = "in_Hostname node"
  note IH = snoc.IH [unfolded t]
  show ?case
  proof (cases "map_of (pp_clients p) ?h")
    case None
    then show ?thesis using IH by (auto simp: keep_known_snoc t)
  next
    case (Some c)
    note known = Some
    then have m: "map_of (pp_conns p) ?h = Some (Some c)"
      using assms by (simp add: pool_inv_def map_of_conns)
    then have new: "keep_known p (nodes @ [node]) = (AList.update ?h c cs, AList.update ?h (Some c) ks)"
      using Some by (simp add: keep_known_snoc t)
    have c: "c \<in> nt_open net"
      using Some assms map_of_SomeD [OF Some] by (force simp: pool_inv_def)
    show ?thesis
    proof (cases "map_of cs ?h")
      case None
      have f: "c \<notin> snd ` set cs"
      proof
        assume "c \<in> snd ` set cs"
        then obtain h where h: "(h, c) \<in> set cs" by auto
        then have "map_of (pp_clients p) h = Some c" using IH by auto
        then have "h = ?h"
          using Some assms by (fastforce simp: pool_inv_def distinct_map inj_on_def dest!: map_of_SomeD)
        with h None show False by (force simp: map_of_eq_None_iff)
      qed
      have "tables_inv p net (AList.update ?h c cs, AList.update ?h (Some c) ks) net"
        using IH Some c assms by (intro tables_add [OF _ None f]) (auto simp: pool_inv_def)
      then show ?thesis
        using IH Some by (auto simp: new update_new [OF None] map_add_def split: option.splits)
    next
      case (Some c')
      then have "c' = c" using IH known map_of_SomeD [OF Some] by force
      moreover have "map_of ks ?h = Some (Some c')" using IH Some by (auto simp: tables_inv_def map_of_conns)
      ultimately have "keep_known p (nodes @ [node]) = (cs, ks)"
        using Some by (simp add: new update_same)
      then show ?thesis using IH Some by auto
    qed
  qed
qed

lemma dial_one_inv:
  assumes "tables_inv p old (cs, ks) net" "dial_one host_of dial ((cs, ks), net) node = ((cs', ks'), net')"
    and "map_of (pp_clients p) (in_Hostname node) \<noteq> None \<longrightarrow> map_of cs (in_Hostname node) \<noteq> None"
  shows "tables_inv p old (cs', ks') net' \<and> (\<forall>h. map_of cs h \<noteq> None \<longrightarrow> map_of cs' h \<noteq> None)"
proof (cases "map_of cs (in_Hostname node) \<noteq> None \<or> grpcAddress host_of (in_Addrs node) = []
    \<or> \<not> dial (grpcAddress host_of (in_Addrs node))")
  case True
  then show ?thesis using assms(1,2) by (auto simp: dial_one_def Let_def split: if_splits)
next
  case False
  then have n: "map_of cs (in_Hostname node) = None" "map_of (pp_clients p) (in_Hostname node) = None" using assms(3) by auto
  have e: "cs' = AList.update (in_Hostname node) (nt_next net) cs" "ks' = AList.update (in_Hostname node) (Some (nt_next net)) ks"
    "net' = \<lparr>nt_next = nt_next net + 1, nt_open = insert (nt_next net) (nt_open net)\<rparr>"
    using assms(2) False by (auto simp: dial_one_def Let_def)
  have t: "tables_inv p old (cs', ks') net'"
    unfolding e using assms(1) n by (intro tables_add [OF assms(1)]) (auto simp: tables_inv_def intro!: less_SucI)
  then show ?thesis by (auto simp: e(1) update_new [OF n(1)] map_add_def split: option.splits)
qed

lemma dial_all_inv:
  assumes "tables_inv p old t net" "foldl (dial_one host_of dial) (t, net) nodes = (t', net')"
    and "\<forall>node \<in> set nodes. map_of (pp_clients p) (in_Hostname node) \<noteq> None \<longrightarrow> map_of (fst t) (in_Hostname node) \<noteq> None"
  shows "tables_inv p old t' net'"
  using assms
proof (induction nodes arbitrary: t net)
  case (Cons node nodes)
  obtain cs ks where t: "t = (cs, ks)" by (cases t)
  obtain cs1 ks1 net1 where s: "dial_one host_of dial ((cs, ks), net) node = ((cs1, ks1), net1)"
    by (metis prod.collapse)
  note d = dial_one_inv [OF Cons.prems(1) [unfolded t] s]
  show ?case
  proof (rule Cons.IH)
    show "tables_inv p old (cs1, ks1) net1" using d Cons.prems(3) by (simp add: t)
    show "foldl (dial_one host_of dial) ((cs1, ks1), net1) nodes = (t', net')" using Cons.prems(2) by (simp add: t s)
    show "\<forall>node \<in> set nodes. map_of (pp_clients p) (in_Hostname node) \<noteq> None
        \<longrightarrow> map_of (fst (cs1, ks1)) (in_Hostname node) \<noteq> None"
      using d Cons.prems(3) by (auto simp: t)
  qed
qed simp

lemma tables_inv_entry:
  assumes "tables_inv p old (cs, ks) net" "(h, c) \<in> set cs"
  shows "map_of (pp_clients p) h = Some c \<or> map_of (pp_clients p) h = None \<and> nt_next old \<le> c"
  using assms by (auto simp: tables_inv_def)

lemma close_left_inv:
  assumes "pool_inv p old" "tables_inv p old (cs, ks) net"
  shows "pool_inv \<lparr>pp_clients = cs, pp_conns = ks\<rparr> (close_left cs (pp_conns p) net)"
proof -
  let ?gone = "{k. \<exists>h. (h, Some k) \<in> set (pp_conns p) \<and> map_of cs h = None}"
  have gone: "k \<in> ?gone \<longleftrightarrow> (\<exists>h. (h, k) \<in> set (pp_clients p) \<and> map_of cs h = None)" for k
    using assms(1) by (force simp: pool_inv_def)
  have "nt_open net - ?gone = snd ` set cs"
  proof (intro equalityI subsetI)
    fix k assume k: "k \<in> nt_open net - ?gone"
    show "k \<in> snd ` set cs"
    proof (rule ccontr)
      assume no: "k \<notin> snd ` set cs"
      moreover have "nt_open net = snd ` set (pp_clients p) \<union> snd ` set cs"
        using assms by (simp add: tables_inv_def pool_inv_def)
      ultimately obtain h where h: "(h, k) \<in> set (pp_clients p)" using k by auto
      then have "map_of (pp_clients p) h = Some k" using assms(1) by (simp add: pool_inv_def)
      have "\<not> (\<exists>h. (h, k) \<in> set (pp_clients p) \<and> map_of cs h = None)" using k unfolding Diff_iff gone by (rule conjunct2)
      then obtain c where c: "map_of cs h = Some c" using h by (cases "map_of cs h") auto
      then have "c = k" using tables_inv_entry [OF assms(2) map_of_SomeD [OF c]] \<open>map_of (pp_clients p) h = Some k\<close> by simp
      then show False using map_of_SomeD [OF c] no by force
    qed
  next
    fix k assume "k \<in> snd ` set cs"
    then obtain h where h: "(h, k) \<in> set cs" by auto
    have "nt_open net = nt_open old \<union> snd ` set cs" using assms(2) by (simp add: tables_inv_def)
    then have "k \<in> nt_open net" using \<open>k \<in> snd ` set cs\<close> by blast
    moreover have "k \<notin> ?gone"
    proof
      assume "k \<in> ?gone"
      then obtain h' where h': "(h', k) \<in> set (pp_clients p)" "map_of cs h' = None" unfolding gone by blast
      then have "k \<in> nt_open old" using assms(1) by (force simp: pool_inv_def)
      then have "k < nt_next old" using assms(1) by (simp add: pool_inv_def)
      moreover have "map_of (pp_clients p) h = Some k \<or> map_of (pp_clients p) h = None \<and> nt_next old \<le> k"
        by (rule tables_inv_entry [OF assms(2) h])
      ultimately have "(h, k) \<in> set (pp_clients p)" by (auto dest: map_of_SomeD)
      then have "h = h'" using h'(1) assms(1) by (fastforce simp: pool_inv_def distinct_map inj_on_def)
      then show False using h h'(2) by (force simp: map_of_eq_None_iff)
    qed
    ultimately show "k \<in> nt_open net - ?gone" by blast
  qed
  then show ?thesis using assms(2) by (auto simp: pool_inv_def tables_inv_def close_left_def)
qed

lemma refresh_inv:
  assumes "pool_inv p net" "refresh host_of dial nodes (p, net) = (p', net')"
  shows "pool_inv p' net'"
proof -
  obtain cs ks net1 where f: "foldl (dial_one host_of dial) (keep_known p nodes, net) nodes = ((cs, ks), net1)"
    by (metis prod.collapse)
  note k = keep_known_inv [OF assms(1), of nodes]
  have "tables_inv p net (cs, ks) net1" by (rule dial_all_inv [OF _ f]) (use k in auto)
  from close_left_inv [OF assms(1) this] show ?thesis
    using assms(2) by (auto simp: refresh_def f)
qed

lemma close_all_inv:
  assumes "pool_inv p net" "close_all (p, net) = (p', net')"
  shows "pool_inv p' net' \<and> pp_clients p' = [] \<and> nt_open net' = {}"
proof -
  have "{k. \<exists>h. (h, Some k) \<in> set (pp_conns p)} = nt_open net" using assms(1) by (force simp: pool_inv_def)
  moreover have "filter (\<lambda>(h, c). map_of (pp_conns p) h = None) (pp_clients p) = []"
    using assms(1) by (auto simp: pool_inv_def filter_empty_conv map_of_conns)
  ultimately show ?thesis using assms(2) by (auto simp: close_all_def pool_inv_def)
qed

text \<open>What happens to Logic's pusher: news from the service discovery, or the end.\<close>

datatype pool_event = Nodes "instance_info list" | Shut

fun pusher_run :: "url_parse \<Rightarrow> (string \<Rightarrow> bool) \<Rightarrow> pool_event list \<Rightarrow> conn_pool \<times> net \<Rightarrow> conn_pool \<times> net" where
  "pusher_run host_of dial [] s = s"
| "pusher_run host_of dial (Nodes nodes # es) s = pusher_run host_of dial es (cpu_UpdateNodes host_of dial nodes s)"
| "pusher_run host_of dial (Shut # es) s = pusher_run host_of dial es (cpu_Close s)"

lemma pusher_run_inv:
  "pool_inv (fst s) (snd s) \<Longrightarrow> pusher_run host_of dial es s = (p, net) \<Longrightarrow> pool_inv p net"
proof (induction es arbitrary: s)
  case (Cons e es)
  obtain q n where s: "s = (q, n)" by (cases s)
  show ?case
  proof (cases e)
    case (Nodes nodes)
    have "pool_inv (fst (cpu_UpdateNodes host_of dial nodes s)) (snd (cpu_UpdateNodes host_of dial nodes s))"
      using Cons.prems(1) refresh_inv [of q n host_of dial nodes]
      by (cases "refresh host_of dial nodes (q, n)") (auto simp: cpu_UpdateNodes_def s)
    then show ?thesis using Cons.IH Cons.prems(2) by (simp add: Nodes)
  next
    case Shut
    have "pool_inv (fst (cpu_Close s)) (snd (cpu_Close s))"
      using Cons.prems(1) close_all_inv [of q n] by (cases "close_all (q, n)") (auto simp: cpu_Close_def s)
    then show ?thesis using Cons.IH Cons.prems(2) by (simp add: Shut)
  qed
qed simp


definition demo_host :: url_parse where
  "demo_host a = (if take 7 a = ''grpc://'' then Some (''grpc'', drop 7 a) else None)"


section \<open>Requests in turn\<close>

lemma order_one_fst: "fst (foldl (order_one host_of dial) s nodes) = foldl (dial_one host_of dial) (fst s) nodes"
  by (induction nodes arbitrary: s) (auto simp: order_one_def Let_def split: prod.splits)

lemma rp_UpdateNodes_inv:
  assumes "pool_inv (base_pool r) net" "rp_UpdateNodes host_of dial nodes (r, net) = (r', net')"
  shows "pool_inv (base_pool r') net'"
proof -
  obtain cs ks net1 order where f:
    "foldl (order_one host_of dial) ((keep_known (base_pool r) nodes, net), kept_order (base_pool r) nodes) nodes
      = (((cs, ks), net1), order)" by (metis prod.collapse)
  have "foldl (dial_one host_of dial) (keep_known (base_pool r) nodes, net) nodes = ((cs, ks), net1)"
    using order_one_fst [of host_of dial "((keep_known (base_pool r) nodes, net), kept_order (base_pool r) nodes)" nodes]
    by (simp add: f)
  moreover have "r' = r\<lparr>pp_clients := cs, pp_conns := ks, rp_order := order\<rparr>" "net' = close_left cs (pp_conns r) net1"
    using assms(2) by (auto simp: rp_UpdateNodes_def f)
  ultimately have "refresh host_of dial nodes (base_pool r, net) = (base_pool r', net')"
    by (simp add: refresh_def base_pool_def)
  then show ?thesis by (rule refresh_inv [OF assms(1)])
qed

fun pick_run :: "nat \<Rightarrow> router_pool \<Rightarrow> (gerr + nat) list" where
  "pick_run 0 r = []"
| "pick_run (Suc n) r = (let (x, r1) = pick r in x # pick_run n r1)"

definition chosen :: "router_pool \<Rightarrow> string \<Rightarrow> gerr + nat" where
  "chosen r h = (case map_of (pp_clients r) h of None \<Rightarrow> Inl (Text (''router client '' @ h @ '' not found'')) | Some c \<Rightarrow> Inr c)"

lemma unat_mod_len:
  fixes w :: i64
  assumes "0 < n" "n < 2 ^ 63"
  shows "unat (w mod of_nat n) = unat w mod n"
  using assms by (simp add: unat_mod unat_of_nat)

lemma pick_run_turns:
  assumes "rp_order r \<noteq> []" "length (rp_order r) < 2 ^ 63" "unat (rp_next r) + n < 2 ^ 64"
  shows "pick_run n r = map (\<lambda>i. chosen r (rp_order r ! ((unat (rp_next r) + i) mod length (rp_order r)))) [0..<n]"
  using assms
proof (induction n arbitrary: r)
  case (Suc n)
  let ?r = "r\<lparr>rp_next := rp_next r + 1\<rparr>"
  have p: "pick r = (chosen r (rp_order r ! (unat (rp_next r) mod length (rp_order r))), ?r)"
    using Suc.prems by (simp add: pick_def chosen_def unat_mod_len Let_def split: option.split)
  have u: "unat (rp_next r + 1) = unat (rp_next r) + 1"
    using Suc.prems(3) unat_add_lem [of "rp_next r" 1] by simp
  have c: "chosen ?r = chosen r" by (rule ext) (simp add: chosen_def)
  have "pick_run n ?r = map (\<lambda>i. chosen r (rp_order r ! ((unat (rp_next r) + Suc i) mod length (rp_order r)))) [0..<n]"
    using Suc.IH [of ?r] Suc.prems u c by simp
  also have "\<dots> = map (\<lambda>i. chosen r (rp_order r ! ((unat (rp_next r) + i) mod length (rp_order r)))) [1..<Suc n]"
    by (simp add: map_Suc_upt [symmetric] del: upt_Suc)
  finally show ?case using p by (simp add: upt_conv_Cons del: upt_Suc)
qed simp

lemma mset_rotate: "mset (rotate n xs) = mset xs"
proof (induction n)
  case (Suc n)
  have "mset (rotate1 ys) = mset ys" for ys :: "'a list" by (cases ys) auto
  with Suc show ?case by simp
qed simp

text \<open>Requests go to the routers in turn: of as many requests as there are entries in the order, each
  entry gets exactly one, until the counter wraps around.\<close>

theorem routers_in_turn:
  assumes "rp_order r \<noteq> []" "length (rp_order r) < 2 ^ 63" "unat (rp_next r) + length (rp_order r) < 2 ^ 64"
  shows "mset (pick_run (length (rp_order r)) r) = mset (map (chosen r) (rp_order r))"
proof -
  have "pick_run (length (rp_order r)) r = map (chosen r) (rotate (unat (rp_next r)) (rp_order r))"
    unfolding pick_run_turns [OF assms] by (rule nth_equalityI) (auto simp: nth_rotate)
  then show ?thesis by (simp add: mset_rotate)
qed

theorem routers_in_turn_witness:
  "mset (pick_run 3 \<lparr>pp_clients = [(''a'', 4), (''b'', 5)], pp_conns = [], rp_order = [''a'', ''b'', ''a''], rp_next = 7\<rparr>)
    = {#Inr 4, Inr 4, Inr 5#}"
  using routers_in_turn [of "\<lparr>pp_clients = [(''a'', 4), (''b'', 5)], pp_conns = [], rp_order = [''a'', ''b'', ''a''], rp_next = 7\<rparr>"]
  by (simp add: chosen_def numeral_3_eq_3 del: pick_run.simps)

end
