(* ===== verification/Offline_Merge.thy ===== *)
theory Offline_Merge
  imports Msg_Codec
begin

text \<open>
  Merging of offline messages (\<open>internal/router/merge.go\<close>) and the converter between the JSON of the HTTP
  interface and message bodies (\<open>internal/router/protocol.go\<close>). What \<open>encoding/json\<close> makes of bytes and of a
  message are arguments, as are the functions that look up and change stored messages. Text is kept as its
  bytes, times are milliseconds and the clock is an argument. The locale \<open>merge_policy\<close> is the interface
  of a policy.
\<close>

section \<open>Messages and policies\<close>

record OfflineMessage =
  om_MsgID :: string
  om_UserID :: string
  om_Seq :: int
  om_BusinessType :: string
  om_BizID :: string
  om_EventType :: string
  om_Priority :: string
  om_TTLSeconds :: i32
  om_Payload :: "byte list"
  om_TraceID :: string
  om_CreatedAtMS :: int
  om_UpdatedAtMS :: int

definition DefaultOrderMergePolicy :: int where "DefaultOrderMergePolicy = 30000"

text \<open>The policy for orders with its window; messages that are missing are \<open>None\<close>.\<close>

definition ShouldMerge :: "int \<Rightarrow> int \<Rightarrow> OfflineMessage option \<Rightarrow> OfflineMessage option \<Rightarrow> bool" where
  "ShouldMerge windowMS now existing incoming =
     (case (existing, incoming) of
        (Some e, Some i) \<Rightarrow>
          if om_BusinessType e \<noteq> ''order'' \<or> om_BusinessType i \<noteq> ''order'' then False
          else if om_BizID e = [] \<or> om_BizID i = [] then False
          else if om_BizID e \<noteq> om_BizID i then False
          else if om_UserID e \<noteq> om_UserID i then False
          else let window = (if windowMS \<le> 0 then 30000 else windowMS) in \<not> (now - om_CreatedAtMS e > window)
      | _ \<Rightarrow> False)"

definition Merge :: "int \<Rightarrow> OfflineMessage \<Rightarrow> OfflineMessage \<Rightarrow> OfflineMessage" where
  "Merge now existing incoming = existing\<lparr>om_Payload := om_Payload incoming, om_EventType := om_EventType incoming,
     om_Priority := om_Priority incoming, om_TTLSeconds := om_TTLSeconds incoming, om_TraceID := om_TraceID incoming,
     om_BizID := om_BizID incoming, om_UpdatedAtMS := now\<rparr>"

section \<open>The checker\<close>

type_synonym should_merge = "int \<Rightarrow> OfflineMessage option \<Rightarrow> OfflineMessage option \<Rightarrow> bool"
type_synonym merge_fn = "int \<Rightarrow> OfflineMessage \<Rightarrow> OfflineMessage \<Rightarrow> OfflineMessage"

record 's MergeChecker =
  mc_policy :: "(should_merge \<times> merge_fn) option"
  mc_findExisting :: "(string \<Rightarrow> string \<Rightarrow> string \<Rightarrow> 's \<Rightarrow> gerr + OfflineMessage option) option"
  mc_updateExisting :: "(string \<Rightarrow> OfflineMessage \<Rightarrow> 's \<Rightarrow> gerr option \<times> 's) option"

definition NewMergeChecker :: "(should_merge \<times> merge_fn) option \<Rightarrow> 's MergeChecker" where
  "NewMergeChecker policy = \<lparr>mc_policy = policy, mc_findExisting = None, mc_updateExisting = None\<rparr>"

definition SetFindFunc :: "(string \<Rightarrow> string \<Rightarrow> string \<Rightarrow> 's \<Rightarrow> gerr + OfflineMessage option) \<Rightarrow> 's MergeChecker \<Rightarrow> 's MergeChecker" where
  "SetFindFunc fn m = m\<lparr>mc_findExisting := Some fn\<rparr>"

definition SetUpdateFunc :: "(string \<Rightarrow> OfflineMessage \<Rightarrow> 's \<Rightarrow> gerr option \<times> 's) \<Rightarrow> 's MergeChecker \<Rightarrow> 's MergeChecker" where
  "SetUpdateFunc fn m = m\<lparr>mc_updateExisting := Some fn\<rparr>"

definition TryMerge :: "int \<Rightarrow> 's MergeChecker \<Rightarrow> OfflineMessage option \<Rightarrow> 's \<Rightarrow> (bool \<times> string) \<times> 's" where
  "TryMerge now m incoming s =
     (case (mc_policy m, mc_findExisting m, incoming) of
        (Some (should, merge), Some look, Some i) \<Rightarrow>
          (case look (om_UserID i) (om_BusinessType i) (om_BizID i) s of
             Inr (Some e) \<Rightarrow>
               if \<not> should now (Some e) (Some i) then ((False, []), s)
               else
                 (case mc_updateExisting m of
                    None \<Rightarrow> ((True, om_MsgID e), s)
                  | Some update \<Rightarrow>
                      (case update (om_MsgID e) (merge now e i) s of
                         (Some x, s1) \<Rightarrow> ((False, []), s1)
                       | (None, s1) \<Rightarrow> ((True, om_MsgID e), s1)))
           | _ \<Rightarrow> ((False, []), s))
      | _ \<Rightarrow> ((False, []), s))"

text \<open>What the JSON of an envelope holds: business id, business type, event type, priority, time to live, trace.\<close>

type_synonym env_fields = "string \<times> string \<times> string \<times> string \<times> i32 \<times> string"

definition ParseOfflineEnvelope :: "(byte list \<Rightarrow> env_fields option) \<Rightarrow> int \<Rightarrow> byte list \<Rightarrow> string \<Rightarrow> string \<Rightarrow> int \<Rightarrow> OfflineMessage" where
  "ParseOfflineEnvelope json now data msgID userID sq =
     (let msg = \<lparr>om_MsgID = msgID, om_UserID = userID, om_Seq = sq, om_BusinessType = [], om_BizID = [], om_EventType = [],
                om_Priority = [], om_TTLSeconds = 0, om_Payload = [], om_TraceID = [], om_CreatedAtMS = now, om_UpdatedAtMS = 0\<rparr>;
          msg = (case json data of
                   None \<Rightarrow> msg
                 | Some (biz, typ, ev, prio, ttl, tr) \<Rightarrow>
                     msg\<lparr>om_BusinessType := typ, om_BizID := biz, om_EventType := ev, om_Priority := prio,
                         om_TTLSeconds := ttl, om_TraceID := tr\<rparr>)
      in msg\<lparr>om_Payload := data\<rparr>)"

section \<open>What a policy promises\<close>

text \<open>Merged messages keep their identity, and of two messages merged into a third only the later one counts.\<close>

locale merge_policy =
  fixes should :: should_merge and merge :: merge_fn
  assumes keeps_identity: "om_MsgID (merge now e i) = om_MsgID e \<and> om_UserID (merge now e i) = om_UserID e
      \<and> om_Seq (merge now e i) = om_Seq e \<and> om_CreatedAtMS (merge now e i) = om_CreatedAtMS e"
    and later_counts: "merge now2 (merge now1 e i1) i2 = merge now2 e i2"
    and same_window: "should now1 (Some e) (Some i1) \<Longrightarrow> should now2 (Some (merge now1 e i1)) (Some i2)
      \<Longrightarrow> should now2 (Some e) (Some i2)"
begin

text \<open>Any number of messages merged one after the other.\<close>

lemma chain_collapses:
  assumes "foldl (\<lambda>m (now, i). case m of None \<Rightarrow> None
      | Some e \<Rightarrow> if should now (Some e) (Some i) then Some (merge now e i) else None) (Some e) (xs @ [(now, i)]) = Some r"
  shows "r = merge now e i \<and> should now (Some e) (Some i)"
proof -
  let ?step = "\<lambda>m (now, i). case m of None \<Rightarrow> None
      | Some e \<Rightarrow> if should now (Some e) (Some i) then Some (merge now e i) else None"
  have none: "foldl ?step None ys = None" for ys by (induction ys) auto
  have "foldl ?step (Some f) (xs @ [(now, i)]) = Some r \<Longrightarrow> r = merge now f i \<and> should now (Some f) (Some i)" for f
  proof (induction xs arbitrary: f)
    case Nil
    then show ?case by (simp split: if_splits)
  next
    case (Cons x xs)
    obtain t j where x: "x = (t, j)" by (cases x)
    have s: "should t (Some f) (Some j)" using Cons.prems none by (auto simp: x split: if_splits)
    then have "r = merge now (merge t f j) i \<and> should now (Some (merge t f j)) (Some i)"
      using Cons.IH Cons.prems by (simp add: x)
    then show ?case using later_counts same_window [OF s] by metis
  qed
  then show ?thesis using assms by blast
qed

end

lemma ShouldMerge_iff:
  "ShouldMerge w now (Some e) (Some i) \<longleftrightarrow> om_BusinessType e = ''order'' \<and> om_BusinessType i = ''order'' \<and> om_BizID e \<noteq> []
     \<and> om_BizID e = om_BizID i \<and> om_UserID e = om_UserID i \<and> now - om_CreatedAtMS e \<le> (if w \<le> 0 then 30000 else w)"
  by (auto simp: ShouldMerge_def Let_def)

interpretation orders: merge_policy "ShouldMerge w" Merge for w
  by unfold_locales (auto simp: ShouldMerge_iff Merge_def)

text \<open>The messages that are merged into the stored one, or nothing when one of them does not fit.\<close>

definition merge_all :: "int \<Rightarrow> OfflineMessage \<Rightarrow> (int \<times> OfflineMessage) list \<Rightarrow> OfflineMessage option" where
  "merge_all w e xs = foldl (\<lambda>m (now, i). case m of None \<Rightarrow> None
      | Some e \<Rightarrow> if ShouldMerge w now (Some e) (Some i) then Some (Merge now e i) else None) (Some e) xs"

text \<open>Of any number of status changes merged into an offline message only the last one counts, as if it
  alone had been merged: the message keeps its number and its time of creation, so the window does not move and
  every change came within it.\<close>

theorem merges_collapse:
  assumes "merge_all w e (xs @ [(now, i)]) = Some r"
  shows "r = Merge now e i \<and> now - om_CreatedAtMS e \<le> (if w \<le> 0 then 30000 else w)"
  using orders.chain_collapses [of w e xs now i r] assms by (auto simp: merge_all_def ShouldMerge_iff)

definition demo_msg :: "byte list \<Rightarrow> int \<Rightarrow> OfflineMessage" where
  "demo_msg body t = \<lparr>om_MsgID = ''m'', om_UserID = ''7'', om_Seq = t, om_BusinessType = ''order'', om_BizID = ''o1'',
     om_EventType = [], om_Priority = [], om_TTLSeconds = 0, om_Payload = body, om_TraceID = [], om_CreatedAtMS = t, om_UpdatedAtMS = 0\<rparr>"

theorem merges_collapse_witness:
  "merge_all 0 (demo_msg [1] 100) [(200, demo_msg [2] 200), (30100, demo_msg [3] 30100)]
    = Some (Merge 30100 (demo_msg [1] 100) (demo_msg [3] 30100))"
proof -
  obtain r where r: "merge_all 0 (demo_msg [1] 100) ([(200, demo_msg [2] 200)] @ [(30100, demo_msg [3] 30100)]) = Some r"
    by (simp add: merge_all_def ShouldMerge_iff Merge_def demo_msg_def)
  from merges_collapse [OF this] r show ?thesis by simp
qed

section \<open>Messages of the HTTP interface\<close>

record externalMessage =
  em_From :: i64
  em_To :: i64
  em_Text :: "byte list"
  em_Ts :: i64

definition ExternalToInternal :: "(byte list \<Rightarrow> gerr + externalMessage) \<Rightarrow> byte list \<Rightarrow> gerr + byte list" where
  "ExternalToInternal json externalMsg =
     (case json externalMsg of
        Inl e \<Rightarrow> Inl (Wrapped ''unmarshal external message'' e)
      | Inr ext \<Rightarrow>
          if em_From ext = 0 \<or> em_To ext = 0 then Inl (Text ''external message missing from/to fields'')
          else MarshalMsgBody \<lparr>mb_MsgID = [], mb_FromUID = em_From ext, mb_ToUID = em_To ext, mb_Timestamp = em_Ts ext,
                 mb_Seq = 0, mb_Content = em_Text ext\<rparr>)"

definition InternalToExternal :: "(externalMessage \<Rightarrow> gerr + byte list) \<Rightarrow> byte list \<Rightarrow> gerr + byte list" where
  "InternalToExternal to_json internal =
     (case UnmarshalMsgBody internal of
        Inl e \<Rightarrow> Inl (Wrapped ''unmarshal internal message'' e)
      | Inr mb \<Rightarrow> to_json \<lparr>em_From = mb_FromUID mb, em_To = mb_ToUID mb, em_Text = mb_Content mb, em_Ts = mb_Timestamp mb\<rparr>)"

text \<open>A message of the HTTP interface that is turned into a message body and back is written as the very
  message it was read as.\<close>

theorem external_roundtrip:
  assumes "json ext = Inr e" "em_From e \<noteq> 0" "em_To e \<noteq> 0"
  shows "\<exists>d. ExternalToInternal json ext = Inr d \<and> InternalToExternal to_json d = to_json e"
proof -
  let ?mb = "\<lparr>mb_MsgID = [], mb_FromUID = em_From e, mb_ToUID = em_To e, mb_Timestamp = em_Ts e, mb_Seq = 0,
      mb_Content = em_Text e\<rparr>"
  have "mb_valid ?mb" by (simp add: mb_valid_def)
  then obtain d where d: "MarshalMsgBody ?mb = Inr d" using msg.enc_valid by blast
  then have "UnmarshalMsgBody d = Inr ?mb" using msg.dec_of_enc by simp
  with d assms show ?thesis by (cases e) (simp add: ExternalToInternal_def InternalToExternal_def)
qed

theorem external_roundtrip_witness:
  "\<exists>d. ExternalToInternal (\<lambda>x. Inr \<lparr>em_From = 1, em_To = 2, em_Text = x, em_Ts = 3\<rparr>) [104, 105] = Inr d
    \<and> InternalToExternal (\<lambda>m. Inr (em_Text m)) d = Inr [104, 105]"
  using external_roundtrip [of "\<lambda>x. Inr \<lparr>em_From = 1, em_To = 2, em_Text = x, em_Ts = 3\<rparr>" "[104, 105]" _ "\<lambda>m. Inr (em_Text m)"]
  by simp

text \<open>A number of zero is refused, as is a message without a number.\<close>

lemma external_refused:
  assumes "json ext = Inr e" "em_From e = 0 \<or> em_To e = 0"
  shows "ExternalToInternal json ext = Inl (Text ''external message missing from/to fields'')"
  using assms by (simp add: ExternalToInternal_def)

end
