(* ===== verification/Spool_Replay.thy ===== *)
theory Spool_Replay
  imports Handover
begin

text \<open>
  The local spool: the files the engine writes when a message cannot be queued (\<open>writeLocalSpool\<close> of
  \<open>internal/router/dispatch.go\<close>) and the worker that replays them (\<open>internal/router/spool_replay.go\<close>).

  A directory for a day holds files and a subdirectory of expired ones; the root is the list of its
  directories. A file knows whether it can be read and removed; making, renaming and moving files works.
  What \<open>encoding/json\<close> makes of a file is the argument \<open>json\<close>. Times are nanoseconds. Files of the same age
  are taken in the order of their names, which the code leaves open. The ticker of the worker, metrics and
  the count of files are not modelled.
\<close>

section \<open>Files\<close>

record spool_file =
  sf_name :: string
  sf_data :: "byte list"
  sf_modTime :: int
  sf_readable :: bool
  sf_removable :: bool

record spool_dir =
  sd_name :: string
  sd_isDir :: bool
  sd_files :: "spool_file list"
  sd_expired :: "spool_file list"

type_synonym spool_root = "spool_dir list"

text \<open>\<open>time.Parse("20060102", name)\<close>: eight digits that are a day.\<close>

definition number_of :: "string \<Rightarrow> nat" where "number_of s = foldl (\<lambda>n c. n * 10 + digit_val c) 0 s"

definition is_leap :: "nat \<Rightarrow> bool" where
  "is_leap y \<longleftrightarrow> y mod 4 = 0 \<and> (y mod 100 \<noteq> 0 \<or> y mod 400 = 0)"

definition days_in :: "nat \<Rightarrow> nat \<Rightarrow> nat" where
  "days_in y m = (if m = 2 then (if is_leap y then 29 else 28) else if m \<in> {4, 6, 9, 11} then 30 else 31)"

definition is_date :: "string \<Rightarrow> bool" where
  "is_date s \<longleftrightarrow> length s = 8 \<and> list_all is_digit s
     \<and> (let y = number_of (take 4 s); m = number_of (take 2 (drop 4 s)); d = number_of (drop 6 s)
        in 1 \<le> m \<and> m \<le> 12 \<and> 1 \<le> d \<and> d \<le> days_in y m)"

definition has_suffix :: "string \<Rightarrow> string \<Rightarrow> bool" where
  "has_suffix suf s \<longleftrightarrow> length suf \<le> length s \<and> drop (length s - length suf) s = suf"

section \<open>Writing\<close>

text \<open>The file of a record, in the directory of today, which is made when it is missing.\<close>

definition spool_name :: "localSpoolRecord \<Rightarrow> int \<Rightarrow> string" where
  "spool_name rec now = sp_MsgID rec @ ''-'' @ FormatInt now @ ''.json''"

definition put_file :: "spool_file \<Rightarrow> spool_dir \<Rightarrow> spool_dir" where
  "put_file f d = d\<lparr>sd_files := filter (\<lambda>g. sf_name g \<noteq> sf_name f) (sd_files d) @ [f]\<rparr>"

definition writeLocalSpool :: "(localSpoolRecord \<Rightarrow> gerr + byte list) \<Rightarrow> string \<Rightarrow> int \<Rightarrow> localSpoolRecord \<Rightarrow> spool_root \<Rightarrow> gerr option \<times> spool_root" where
  "writeLocalSpool to_json today now rec root =
     (let root1 = (if \<exists>d \<in> set root. sd_name d = today then root
                   else root @ [\<lparr>sd_name = today, sd_isDir = True, sd_files = [], sd_expired = []\<rparr>])
      in case to_json rec of
           Inl e \<Rightarrow> (Some e, root1)
         | Inr data \<Rightarrow>
             let f = \<lparr>sf_name = spool_name rec now, sf_data = data @ [10], sf_modTime = now, sf_readable = True, sf_removable = True\<rparr>
             in (None, map (\<lambda>d. if sd_name d = today then put_file f d else d) root1))"

section \<open>Replaying\<close>

record spool_worker =
  sw_msgDAO :: bool
  sw_producer :: bool
  sw_maxAge :: int
  sw_batchSize :: nat

definition NewSpoolReplayWorker :: "bool \<Rightarrow> bool \<Rightarrow> int \<Rightarrow> int \<Rightarrow> spool_worker" where
  "NewSpoolReplayWorker msgDAO producer maxAge batchSize = \<lparr>sw_msgDAO = msgDAO, sw_producer = producer,
     sw_maxAge = (if maxAge \<le> 0 then 24 * 3600 * 1000000000 else maxAge),
     sw_batchSize = (if batchSize \<le> 0 then 50 else nat batchSize)\<rparr>"

type_synonym spool_json = "byte list \<Rightarrow> gerr + localSpoolRecord"

definition replayRecord :: "spool_worker \<Rightarrow> spool_json \<Rightarrow> byte list \<Rightarrow> gerr option act" where
  "replayRecord sw json data =
     (case json data of
        Inl e \<Rightarrow> ret (Some (Wrapped ''unmarshal'' e))
      | Inr rec \<Rightarrow> do {
          r \<leftarrow> (if sw_msgDAO sw then do { x \<leftarrow> redis_do (\<lambda>w. AddToOfflineQueue (sp_ToUID rec) (sp_MsgID rec) (sp_Seq rec)); ret (err_of x = None) }
                else ret False);
          k \<leftarrow> (if sw_producer sw then do {
                  x \<leftarrow> call (MQ_User (sp_ToUID rec) (FormatInt (sp_ToUID rec))
                         (pushMsgBytes 0 (sp_Op rec) (sp_Server rec) (sp_Keys rec) [] (sp_Body rec) 0) (sp_Headers rec));
                  ret (x = None)
                } else ret False);
          ret (if r \<or> k then None else Some (Text (''both redis and kafka failed for msg '' @ sp_MsgID rec)))
        })"

definition moveToExpired :: "spool_file \<Rightarrow> spool_dir \<Rightarrow> spool_dir" where
  "moveToExpired f d = d\<lparr>sd_files := filter (\<lambda>g. sf_name g \<noteq> sf_name f) (sd_files d),
     sd_expired := filter (\<lambda>g. sf_name g \<noteq> sf_name f) (sd_expired d) @ [f]\<rparr>"

definition remove_file :: "spool_file \<Rightarrow> spool_dir \<Rightarrow> spool_dir" where
  "remove_file f d = (if sf_removable f then d\<lparr>sd_files := filter (\<lambda>g. sf_name g \<noteq> sf_name f) (sd_files d)\<rparr> else d)"

type_synonym counts = "nat \<times> nat \<times> nat"

text \<open>One file: the directory afterwards and the counts of replayed, failed and expired files.\<close>

definition drain_file :: "spool_worker \<Rightarrow> spool_json \<Rightarrow> spool_file \<Rightarrow> spool_dir \<times> counts \<Rightarrow> (spool_dir \<times> counts) act" where
  "drain_file sw json f = (\<lambda>(d, (processed, failed, expired)).
     if \<not> sf_readable f then ret (d, (processed, failed + 1, expired))
     else do {
       now \<leftarrow> asks w_now;
       if now - sf_modTime f > sw_maxAge sw then ret (moveToExpired f d, (processed, failed, expired + 1))
       else do {
         x \<leftarrow> replayRecord sw json (sf_data f);
         case x of
           Some e \<Rightarrow> ret (d, (processed, failed + 1, expired))
         | None \<Rightarrow> ret (remove_file f d, (processed + 1, failed, expired))
       }
     })"

fun drain_files :: "spool_worker \<Rightarrow> spool_json \<Rightarrow> spool_file list \<Rightarrow> spool_dir \<times> counts \<Rightarrow> (spool_dir \<times> counts) act" where
  "drain_files sw json [] s = ret s"
| "drain_files sw json (f # fs) s = do { s1 \<leftarrow> drain_file sw json f s; drain_files sw json fs s1 }"

text \<open>The files of a scan: the oldest, as many as a batch holds.\<close>

definition batch_of :: "spool_worker \<Rightarrow> spool_dir \<Rightarrow> spool_file list" where
  "batch_of sw d = take (sw_batchSize sw) (sort_key sf_modTime (filter (\<lambda>f. has_suffix ''.json'' (sf_name f)) (sd_files d)))"

definition drainDir :: "spool_worker \<Rightarrow> spool_json \<Rightarrow> spool_dir \<Rightarrow> (spool_dir \<times> counts) act" where
  "drainDir sw json d = drain_files sw json (batch_of sw d) (d, (0, 0, 0))"

fun ProcessOnce :: "spool_worker \<Rightarrow> spool_json \<Rightarrow> spool_root \<Rightarrow> spool_root act" where
  "ProcessOnce sw json [] = ret []"
| "ProcessOnce sw json (d # ds) =
     (if \<not> sd_isDir d \<or> \<not> is_date (sd_name d)
      then do { r \<leftarrow> ProcessOnce sw json ds; ret (d # r) }
      else do {
        (d1, n) \<leftarrow> drainDir sw json d;
        r \<leftarrow> ProcessOnce sw json ds;
        ret (d1 # r)
      })"

section \<open>What a scan does to the files\<close>

text \<open>A record was taken: the offline queue answered, or Kafka did.\<close>

definition members :: "redis \<Rightarrow> string \<Rightarrow> string set" where
  "members r k = snd ` set (rd_zset r k)"

definition queued :: "localSpoolRecord \<Rightarrow> world \<Rightarrow> bool" where
  "queued rec w \<longleftrightarrow> sp_MsgID rec \<in> members (w_redis w) (keyOfflineQueue (sp_ToUID rec))
     \<or> (\<exists>p \<in> set (w_log w). snd p = None \<and> carries (sp_Op rec) (sp_Body rec) (fst p))"

lemma zadd_in: "m \<in> members (zadd k s m r) k"
  by (simp add: members_def zadd_def set_insort_key)

lemma zadd_keeps: "members r k' \<subseteq> members (zadd k s m r) k'"
  by (auto simp: members_def zadd_def set_insort_key)

text \<open>Queues and log only grow, and no time passes.\<close>

definition gains :: "world \<Rightarrow> world \<Rightarrow> bool" where
  "gains w w' \<longleftrightarrow> w_now w' = w_now w \<and> prefix (w_log w) (w_log w')
     \<and> (\<forall>k. members (w_redis w) k \<subseteq> members (w_redis w') k)"

lemma gains_refl: "gains w w"
  by (simp add: gains_def)

lemma gains_trans: "gains u v \<Longrightarrow> gains v w \<Longrightarrow> gains u w"
  unfolding gains_def by (auto intro: prefix_order.trans)

lemma queued_mono: "queued rec w \<Longrightarrow> gains w w' \<Longrightarrow> queued rec w'"
  by (auto simp: queued_def gains_def prefix_def)

lemma members_same: "same_data r q \<Longrightarrow> members q k = members r k"
  by (simp add: same_data_def members_def)

lemma members_expire: "members (expire k' t r) k = members r k"
  by (simp add: expire_def members_def)

lemma rtrip_gains:
  assumes f: "\<And>r. members r k \<subseteq> members (snd (f r)) k" and "rtrip f r = (x, r')"
  shows "members r k \<subseteq> members r' k"
proof (rule rtrip_invariant [OF assms(2), where I = "\<lambda>q. members r k \<subseteq> members q k"])
  show "members r k \<subseteq> members r k" ..
  show "members r k \<subseteq> members q' k" if "same_data q q'" "members r k \<subseteq> members q k" for q q'
    using that by (simp add: members_same)
  show "members r k \<subseteq> members (snd (f q)) k" if "members r k \<subseteq> members q k" for q
    using that f [of q] by blast
qed

lemma AddToOfflineQueue_gains:
  assumes "AddToOfflineQueue uid m sq r = (x, r')"
  shows "members r k \<subseteq> members r' k"
proof -
  let ?z = "\<lambda>r. ((), zadd (keyOfflineQueue uid) sq m r)" and ?e = "\<lambda>r. ((), expire (keyOfflineQueue uid) week_ms r)"
  obtain y r1 where y: "rtrip ?z r = (y, r1)" by fastforce
  have a: "members r k \<subseteq> members r1 k"
    by (rule rtrip_gains [OF _ y]) (simp only: snd_conv zadd_keeps)
  show ?thesis
  proof (cases y)
    case (Inl e)
    then show ?thesis using assms y a by (simp add: AddToOfflineQueue_def)
  next
    case (Inr u)
    then have "rtrip ?e r1 = (x, r')" using assms y by (simp add: AddToOfflineQueue_def)
    from rtrip_gains [OF _ this] have "members r1 k \<subseteq> members r' k"
      by (simp add: members_expire)
    with a show ?thesis by blast
  qed
qed

lemma AddToOfflineQueue_queued:
  assumes "AddToOfflineQueue uid m sq r = (Inr u, r')"
  shows "m \<in> members r' (keyOfflineQueue uid)"
proof -
  let ?z = "\<lambda>r. ((), zadd (keyOfflineQueue uid) sq m r)" and ?e = "\<lambda>r. ((), expire (keyOfflineQueue uid) week_ms r)"
  obtain x r1 where x: "rtrip ?z r = (x, r1)" by fastforce
  then obtain y where y: "x = Inr y" "rtrip ?e r1 = (Inr u, r')"
    using assms by (auto simp: AddToOfflineQueue_def split: sum.splits)
  have "m \<in> members r1 (keyOfflineQueue uid)"
    using x unfolding y(1) by (cases "rd_fates r") (auto simp: rtrip_def zadd_in simp del: command_simps split: fate.splits)
  moreover have "members r1 k \<subseteq> members r' k" for k
    by (rule rtrip_gains [OF _ y(2)]) (simp add: members_expire)
  ultimately show ?thesis by blast
qed

lemma replayRecord_spec:
  assumes "run_state (replayRecord sw json data) w = (x, w')"
  shows "gains w w' \<and> (x = None \<longrightarrow> (\<exists>rec. json data = Inr rec \<and> queued rec w'))"
proof (cases "json data")
  case (Inl e)
  then show ?thesis using assms by (auto simp: replayRecord_def gains_refl)
next
  case (Inr rec)
  let ?add = "if sw_msgDAO sw then do { x \<leftarrow> redis_do (\<lambda>w. AddToOfflineQueue (sp_ToUID rec) (sp_MsgID rec) (sp_Seq rec)); ret (err_of x = None) }
              else ret False"
  let ?ev = "MQ_User (sp_ToUID rec) (FormatInt (sp_ToUID rec))
      (pushMsgBytes 0 (sp_Op rec) (sp_Server rec) (sp_Keys rec) [] (sp_Body rec) 0) (sp_Headers rec)"
  obtain r w1 where r: "run_state ?add w = (r, w1)" by fastforce
  obtain k w2 where k: "run_state (if sw_producer sw then do { x \<leftarrow> call ?ev; ret (x = None) } else ret False) w1 = (k, w2)"
    by fastforce
  have g1: "gains w w1 \<and> (r \<longrightarrow> queued rec w1)"
  proof (cases "sw_msgDAO sw")
    case True
    obtain y q where y: "AddToOfflineQueue (sp_ToUID rec) (sp_MsgID rec) (sp_Seq rec) (w_redis w) = (y, q)" by fastforce
    then have "w1 = w\<lparr>w_redis := q\<rparr>" "r = (err_of y = None)" using r True by auto
    then show ?thesis
      using AddToOfflineQueue_gains [OF y] AddToOfflineQueue_queued y by (cases y) (auto simp: gains_def queued_def)
  next
    case False
    then show ?thesis using r by (simp add: gains_refl)
  qed
  have g2: "gains w1 w2 \<and> (k \<longrightarrow> queued rec w2)"
    using k by (auto simp: gains_def queued_def pushMsgBytes_def split: if_splits)
  have "x = (if r \<or> k then None else Some (Text (''both redis and kafka failed for msg '' @ sp_MsgID rec)))" "w' = w2"
    using assms r k by (auto simp: replayRecord_def Inr)
  then show ?thesis
    using g1 g2 Inr gains_trans queued_mono by (auto split: if_splits)
qed

text \<open>What has become of a file of a directory.\<close>

definition file_fate :: "spool_worker \<Rightarrow> spool_json \<Rightarrow> spool_file \<Rightarrow> spool_dir \<Rightarrow> world \<Rightarrow> bool" where
  "file_fate sw json f d w \<longleftrightarrow> f \<in> set (sd_files d)
     \<or> f \<in> set (sd_expired d) \<and> w_now w - sf_modTime f > sw_maxAge sw
     \<or> (\<exists>rec. json (sf_data f) = Inr rec \<and> queued rec w)"

lemma file_fate_later: "file_fate sw json f d w \<Longrightarrow> gains w w' \<Longrightarrow> file_fate sw json f d w'"
proof -
  assume f: "file_fate sw json f d w" and g: "gains w w'"
  have "w_now w' = w_now w" using g by (simp add: gains_def)
  then show ?thesis using f queued_mono [OF _ g] by (auto simp: file_fate_def)
qed

lemma drain_file_spec:
  assumes "run_state (drain_file sw json f (d, n)) w = ((d', n'), w')"
    and "sf_name f = sf_name g \<Longrightarrow> f = g" "file_fate sw json g d w"
  shows "gains w w' \<and> file_fate sw json g d' w'"
proof -
  obtain a b c where n: "n = (a, b, c)" by (cases n)
  consider (unread) "\<not> sf_readable f" | (old) "sf_readable f" "w_now w - sf_modTime f > sw_maxAge sw"
    | (fresh) "sf_readable f" "\<not> (w_now w - sf_modTime f > sw_maxAge sw)" by blast
  then show ?thesis
  proof cases
    case unread
    then show ?thesis using assms(1,3) by (simp add: drain_file_def n gains_refl)
  next
    case old
    then have "d' = moveToExpired f d" "w' = w" using assms(1) by (auto simp: drain_file_def n)
    then show ?thesis using assms(2,3) old by (auto simp: file_fate_def moveToExpired_def gains_refl)
  next
    case fresh
    obtain x w1 where x: "run_state (replayRecord sw json (sf_data f)) w = (x, w1)" by fastforce
    note r = replayRecord_spec [OF x]
    then have later: "file_fate sw json g d w1" using file_fate_later assms(3) by blast
    show ?thesis
    proof (cases x)
      case None
      then have "d' = remove_file f d" "w' = w1" using assms(1) x fresh by (auto simp: drain_file_def n)
      then show ?thesis using r None later assms(2) by (auto simp: file_fate_def remove_file_def)
    next
      case (Some e)
      then have "d' = d" "w' = w1" using assms(1) x fresh by (auto simp: drain_file_def n)
      then show ?thesis using r later by simp
    qed
  qed
qed

lemma drain_files_spec:
  assumes "run_state (drain_files sw json fs (d, n)) w = ((d', n'), w')"
    and "\<forall>f \<in> set fs. sf_name f = sf_name g \<longrightarrow> f = g" "file_fate sw json g d w"
  shows "gains w w' \<and> file_fate sw json g d' w'"
  using assms
proof (induction fs arbitrary: d n w)
  case Nil
  then show ?case by (simp add: gains_refl)
next
  case (Cons f fs)
  obtain d1 n1 w1 where s: "run_state (drain_file sw json f (d, n)) w = ((d1, n1), w1)" by (metis prod.collapse)
  have g1: "gains w w1 \<and> file_fate sw json g d1 w1"
    by (rule drain_file_spec [OF s]) (use Cons.prems(2,3) in auto)
  have "run_state (drain_files sw json fs (d1, n1)) w1 = ((d', n'), w')" using Cons.prems(1) s by simp
  from Cons.IH [OF this] g1 Cons.prems(2) show ?case using gains_trans by auto
qed

lemma drain_files_gains:
  "run_state (drain_files sw json fs (d, n)) w = (r, w') \<Longrightarrow> gains w w'"
proof (induction fs arbitrary: d n w)
  case Nil
  then show ?case by (simp add: gains_refl)
next
  case (Cons f fs)
  obtain d1 n1 w1 where s: "run_state (drain_file sw json f (d, n)) w = ((d1, n1), w1)" by (metis prod.collapse)
  obtain a b c where n: "n = (a, b, c)" by (cases n)
  have "gains w w1"
    using s replayRecord_spec [of sw json "sf_data f" w]
    by (auto simp: drain_file_def n gains_refl split: if_splits option.splits prod.splits)
  moreover have "run_state (drain_files sw json fs (d1, n1)) w1 = (r, w')" using Cons.prems s by simp
  ultimately show ?case using Cons.IH gains_trans by blast
qed

lemma ProcessOnce_gains:
  "run_state (ProcessOnce sw json root) w = (root', w') \<Longrightarrow> gains w w' \<and> length root' = length root"
proof (induction root arbitrary: w root' w')
  case Nil
  then show ?case by (simp add: gains_refl)
next
  case (Cons d ds)
  show ?case
  proof (cases "\<not> sd_isDir d \<or> \<not> is_date (sd_name d)")
    case True
    obtain r w1 where r: "run_state (ProcessOnce sw json ds) w = (r, w1)" by fastforce
    then show ?thesis using Cons.prems Cons.IH [OF r] True by auto
  next
    case False
    obtain d1 n w1 where d: "run_state (drainDir sw json d) w = ((d1, n), w1)" by (metis prod.collapse)
    obtain r w2 where r: "run_state (ProcessOnce sw json ds) w1 = (r, w2)" by fastforce
    have "gains w w1" using d unfolding drainDir_def by (rule drain_files_gains)
    then show ?thesis using Cons.prems Cons.IH [OF r] False d r gains_trans by auto
  qed
qed

lemma batch_of_files: "set (batch_of sw d) \<subseteq> set (sd_files d)"
  by (auto simp: batch_of_def dest: in_set_takeD)

definition names_distinct :: "spool_dir \<Rightarrow> bool" where
  "names_distinct d \<longleftrightarrow> distinct (map sf_name (sd_files d))"

lemma drainDir_fate:
  assumes "run_state (drainDir sw json d) w = ((d', n'), w')" "names_distinct d" "g \<in> set (sd_files d)"
  shows "gains w w' \<and> file_fate sw json g d' w'"
proof (rule drain_files_spec [OF assms(1) [unfolded drainDir_def]])
  show "\<forall>f \<in> set (batch_of sw d). sf_name f = sf_name g \<longrightarrow> f = g"
    using assms(2,3) batch_of_files [of sw d] by (auto simp: names_distinct_def distinct_map inj_on_def)
  show "file_fate sw json g d w" using assms(3) by (simp add: file_fate_def)
qed

text \<open>Property C27. A scan of the spool loses no message: every file is still where it was, or it has been set aside
  because it is too old, or its message is in the offline queue of its user or was taken by Kafka.\<close>

theorem spool_keeps_messages:
  assumes "run_state (ProcessOnce sw json root) w = (root', w')" "\<forall>d \<in> set root. names_distinct d"
    and "i < length root" "f \<in> set (sd_files (root ! i))"
  shows "file_fate sw json f (root' ! i) w'"
  using assms
proof (induction root arbitrary: w root' i)
  case (Cons d ds)
  show ?case
  proof (cases "\<not> sd_isDir d \<or> \<not> is_date (sd_name d)")
    case True
    obtain r w1 where r: "run_state (ProcessOnce sw json ds) w = (r, w1)" by fastforce
    then have e: "root' = d # r" "w' = w1" using Cons.prems(1) True by auto
    show ?thesis
    proof (cases i)
      case 0
      then show ?thesis using Cons.prems(4) e by (simp add: file_fate_def)
    next
      case (Suc j)
      then show ?thesis using Cons.IH [OF r [folded e(2)], of j] Cons.prems(2-4) e by simp
    qed
  next
    case False
    obtain d1 n w1 where d: "run_state (drainDir sw json d) w = ((d1, n), w1)" by (metis prod.collapse)
    obtain r w2 where r: "run_state (ProcessOnce sw json ds) w1 = (r, w2)" by fastforce
    then have e: "root' = d1 # r" "w' = w2" using Cons.prems(1) False d by auto
    show ?thesis
    proof (cases i)
      case 0
      have "gains w1 w2" using ProcessOnce_gains [OF r] by simp
      then show ?thesis
        using drainDir_fate [OF d, of f] file_fate_later Cons.prems(2,4) e 0 by auto
    next
      case (Suc j)
      then show ?thesis using Cons.IH [OF r [folded e(2)], of j] Cons.prems(2-4) e by simp
    qed
  qed
qed simp

definition demo_record :: localSpoolRecord where
  "demo_record = \<lparr>sp_MsgID = ''m'', sp_ToUID = 7, sp_Op = 9, sp_Body = [1], sp_Seq = 3, sp_Server = [], sp_Keys = [''uid:7''],
     sp_Headers = [], sp_Reason = [], sp_CreatedAt = 0\<rparr>"

definition demo_file :: spool_file where
  "demo_file = \<lparr>sf_name = ''m-1.json'', sf_data = [123], sf_modTime = 1699999999000000000, sf_readable = True, sf_removable = True\<rparr>"

definition demo_worker :: spool_worker where
  "demo_worker = NewSpoolReplayWorker True True 0 0"

theorem spool_keeps_messages_witness:
  "\<exists>root' w'. run_state (ProcessOnce demo_worker (\<lambda>_. Inr demo_record)
      [\<lparr>sd_name = ''20240229'', sd_isDir = True, sd_files = [demo_file], sd_expired = []\<rparr>]) empty_world = (root', w')
    \<and> sd_files (root' ! 0) = [] \<and> queued demo_record w'"
proof -
  let ?d = "\<lparr>sd_name = ''20240229'', sd_isDir = True, sd_files = [demo_file], sd_expired = []\<rparr>"
  obtain root' w' where r: "run_state (ProcessOnce demo_worker (\<lambda>_. Inr demo_record) [?d]) empty_world = (root', w')"
    by fastforce
  have date: "is_date ''20240229''"
    by (simp add: is_date_def number_of_def is_digit_def digit_val_def days_in_def is_leap_def Let_def)
  have b: "batch_of demo_worker ?d = [demo_file]"
    by (simp add: batch_of_def demo_worker_def NewSpoolReplayWorker_def demo_file_def has_suffix_def)
  have w: "w_redis empty_world = empty_redis" "w_replies empty_world = []" "w_now empty_world = 1700000000000000000"
    by (simp_all add: empty_world_def)
  have sw: "sw_msgDAO demo_worker" "sw_producer demo_worker" "sw_maxAge demo_worker = 86400000000000"
    by (simp_all add: demo_worker_def NewSpoolReplayWorker_def)
  obtain q where q: "AddToOfflineQueue 7 ''m'' 3 empty_redis = (Inr (), q)"
    by (simp add: AddToOfflineQueue_def empty_redis_def)
  obtain w1 where w1: "run_state (replayRecord demo_worker (\<lambda>_. Inr demo_record) (sf_data demo_file)) empty_world = (None, w1)"
    by (simp add: replayRecord_def sw w q demo_record_def)
  have "run_state (drain_file demo_worker (\<lambda>_. Inr demo_record) demo_file (?d, (0, 0, 0))) empty_world
      = ((remove_file demo_file ?d, (1, 0, 0)), w1)"
    using w1 by (simp add: drain_file_def w sw) (simp add: demo_file_def)
  then have "root' = [remove_file demo_file ?d]"
    using r by (auto simp: date drainDir_def b)
  then have e: "root' ! 0 = \<lparr>sd_name = ''20240229'', sd_isDir = True, sd_files = [], sd_expired = []\<rparr>"
    by (simp add: remove_file_def demo_file_def)
  have "file_fate demo_worker (\<lambda>_. Inr demo_record) demo_file (root' ! 0) w'"
    using spool_keeps_messages [OF r, of 0 demo_file] by (simp add: names_distinct_def)
  then show ?thesis using r e by (auto simp: file_fate_def)
qed

text \<open>Files that cannot be parsed stay, and they are tried again at every scan: when a batch is full of them, nothing
  else of their directory is replayed until they expire.\<close>

lemma bad_files_block:
  assumes "\<And>f. f \<in> set fs \<Longrightarrow> sf_readable f \<and> w_now w - sf_modTime f \<le> sw_maxAge sw \<and> (\<exists>e. json (sf_data f) = Inl e)"
  shows "run_state (drain_files sw json fs (d, (a, b, c))) w = ((d, (a, b + length fs, c)), w)"
  using assms
proof (induction fs arbitrary: b)
  case (Cons f fs)
  obtain e where "sf_readable f" "w_now w - sf_modTime f \<le> sw_maxAge sw" "json (sf_data f) = Inl e"
    using Cons.prems [of f] by auto
  then have "run_state (drain_file sw json f (d, (a, b, c))) w = ((d, (a, b + 1, c)), w)"
    by (simp add: drain_file_def replayRecord_def)
  with Cons show ?case by simp
qed simp

end
