(* ===== verification/Comet_Session.thy ===== *)
theory Comet_Session
  imports Comet_Queues "HOL-Library.Sublist"
begin

text \<open>
  The life of a client connection after its handshake: the goroutine that reads packets and the one that
  writes them (\<open>ServeTCP\<close> and \<open>dispatchTCP\<close> of \<open>internal/comet/server_tcp.go\<close>; those of
  \<open>server_websocket.go\<close> have the same steps with other functions for the wire), and everybody else who has
  the channel in hand: senders of packets, who also signal, and the caller that closes the connection.

  Each goroutine is a program counter and every step of one is a label; a run is any sequence of labels, so
  every interleaving is a run. A step that would block is not enabled. What the network does, whether the
  rate limiter lets a packet pass and what Logic answers are arguments of the labels. A packet is handed to
  the writer of the connection whole; its bytes on the wire are the subject of \<open>Wire_Proto\<close> and \<open>Websocket\<close>.
  The body of a packet is a value here; in the code it is a slice of the read buffer. Timers, which only
  close the connection, are failing reads and writes here; logs are not modelled.
\<close>

section \<open>State\<close>

datatype reader_pc = R_set | R_read | R_signal | R_close | R_wait | R_gone

datatype writer_pc = W_pop | W_select | W_drain | W_flush | W_done

datatype sent = Reply proto | Heart proto i32 | Pushed proto

record comet_session =
  se_ring :: "proto ring"
  se_sig :: pqueue
  se_reader :: reader_pc
  se_writer :: writer_pc
  se_failing :: bool
  se_online :: i32
  se_open :: bool
  se_out :: "sent list"

text \<open>A session after a handshake: \<open>Reset\<close> of the channel made its queues, with the sizes of the configuration.\<close>

definition session_start :: "i64 \<Rightarrow> int \<Rightarrow> comet_session" where
  "session_start cli svr = \<lparr>se_ring = NewRing ProtoReady cli, se_sig = NewPriorityQueue svr (svr * 8), se_reader = R_set,
     se_writer = W_pop, se_failing = False, se_online = 0, se_open = True, se_out = []\<rparr>"

section \<open>What happens to a packet\<close>

text \<open>\<open>Receive\<close>: Logic answers with an error, without a packet, or with one whose operation and body are taken.\<close>

type_synonym logic_answer = "gerr + (i32 \<times> byte list option) option"

definition comet_Receive :: "logic_answer \<Rightarrow> proto \<Rightarrow> gerr option \<times> proto" where
  "comet_Receive ans p =
     (case ans of
        Inl e \<Rightarrow> (Some e, p)
      | Inr None \<Rightarrow> (None, p)
      | Inr (Some (op, body)) \<Rightarrow> (None, p\<lparr>Op := op, Body := body\<rparr>))"

text \<open>What \<open>Operate\<close> makes of the packet.\<close>

definition operate_packet :: "logic_answer \<Rightarrow> proto \<Rightarrow> proto" where
  "operate_packet ans p =
     (if Op p = OpChangeRoom then p\<lparr>Op := OpChangeRoomReply\<rparr>
      else if Op p = OpSub then p\<lparr>Op := OpSubReply\<rparr>
      else if Op p = OpUnsub then p\<lparr>Op := OpUnsubReply\<rparr>
      else if Op p = OpSyncReq then (case comet_Receive ans p of (None, q) \<Rightarrow> q | (Some e, q) \<Rightarrow> q\<lparr>Body := None\<rparr>)
      else (snd (comet_Receive ans p))\<lparr>Body := None\<rparr>)"

section \<open>Steps\<close>

datatype label =
    Set_slot
  | Read_packet proto bool logic_answer
  | Read_error
  | Signal_ready
  | Close_channel
  | Channel_done
  | Pop_high bool
  | Pop_blocks
  | Pop_normal bool
  | Drain bool "i32 option"
  | Flush_out bool
  | Push proto
  | Outside_signal
  | Kick

text \<open>The reader leaves its loop and closes the connection.\<close>

definition leave :: "comet_session \<Rightarrow> comet_session" where
  "leave s = s\<lparr>se_reader := R_close, se_open := False\<rparr>"

text \<open>The slot is filled and handed to the writer.\<close>

definition advance :: "proto \<Rightarrow> reader_pc \<Rightarrow> comet_session \<Rightarrow> comet_session option" where
  "advance p pc s = map_option (\<lambda>r. s\<lparr>se_ring := r, se_reader := pc\<rparr>) (ring_enq (se_ring s) p)"

definition read_packet :: "proto \<Rightarrow> bool \<Rightarrow> logic_answer \<Rightarrow> comet_session \<Rightarrow> comet_session option" where
  "read_packet p allowed ans s =
     (if Op p \<noteq> OpHeartbeat \<and> \<not> allowed then advance p R_set s
      else if Op p = OpHeartbeat then advance (p\<lparr>Op := OpHeartbeatReply, Body := None\<rparr>) R_signal s
      else if Op p = OpPushMsgAck then Some (s\<lparr>se_reader := R_set\<rparr>)
      else advance (operate_packet ans p) R_signal s)"

definition send_high :: "proto \<Rightarrow> comet_session \<Rightarrow> comet_session option" where
  "send_high p s = map_option (\<lambda>c. s\<lparr>se_sig := (se_sig s)\<lparr>pq_high := c\<rparr>\<rparr>) (chan_send (pq_high (se_sig s)) p)"

text \<open>The writer fails: it closes the connection and empties its queue until the reader says it is done.\<close>

definition writer_fails :: "comet_session \<Rightarrow> comet_session" where
  "writer_fails s = s\<lparr>se_failing := True, se_open := False, se_writer := W_pop\<rparr>"

text \<open>The writer has a packet in hand; \<open>ok\<close> says whether writing it works.\<close>

definition got :: "proto \<Rightarrow> bool \<Rightarrow> comet_session \<Rightarrow> comet_session" where
  "got p ok s =
     (if se_failing s then s\<lparr>se_writer := (if p = ProtoFinish then W_done else W_pop)\<rparr>
      else if p = ProtoFinish then s\<lparr>se_writer := W_done, se_open := False\<rparr>
      else if p = ProtoReady then s\<lparr>se_writer := W_drain\<rparr>
      else if ok then s\<lparr>se_out := se_out s @ [Pushed p], se_writer := W_flush\<rparr>
      else writer_fails s)"

definition drain_one :: "bool \<Rightarrow> i32 option \<Rightarrow> comet_session \<Rightarrow> comet_session" where
  "drain_one ok room s =
     (case ring_deq (se_ring s) of
        None \<Rightarrow> s\<lparr>se_writer := W_flush\<rparr>
      | Some (p, r) \<Rightarrow>
          let s1 = (if Op p = OpHeartbeatReply then s\<lparr>se_online := case_option (se_online s) id room\<rparr> else s);
              f = (if Op p = OpHeartbeatReply then Heart p (se_online s1) else Reply p)
          in if ok then s1\<lparr>se_ring := r, se_out := se_out s1 @ [f]\<rparr> else writer_fails s1)"

definition pop_high :: "bool \<Rightarrow> comet_session \<Rightarrow> comet_session option" where
  "pop_high ok s =
     (case chan_recv (pq_high (se_sig s)) of
        None \<Rightarrow> None
      | Some (p, c) \<Rightarrow> Some (got p ok (s\<lparr>se_sig := (se_sig s)\<lparr>pq_high := c\<rparr>\<rparr>)))"

definition pop_normal :: "bool \<Rightarrow> comet_session \<Rightarrow> comet_session option" where
  "pop_normal ok s =
     (case chan_recv (pq_normal (se_sig s)) of
        None \<Rightarrow> None
      | Some (p, c) \<Rightarrow> Some (got p ok (s\<lparr>se_sig := (se_sig s)\<lparr>pq_normal := c\<rparr>\<rparr>)))"

fun sess_step :: "label \<Rightarrow> comet_session \<Rightarrow> comet_session option" where
  "sess_step Set_slot s =
     (if se_reader s \<noteq> R_set then None
      else case ring_Set (se_ring s) of
             Ret (Inr i) \<Rightarrow> Some (s\<lparr>se_reader := R_read\<rparr>)
           | _ \<Rightarrow> Some (leave s))"
| "sess_step (Read_packet p allowed ans) s = (if se_reader s = R_read then read_packet p allowed ans s else None)"
| "sess_step Read_error s = (if se_reader s = R_read then Some (leave s) else None)"
| "sess_step Signal_ready s =
     (if se_reader s = R_signal then map_option (se_reader_update (\<lambda>_. R_set)) (send_high ProtoReady s) else None)"
| "sess_step Close_channel s =
     (if se_reader s = R_close then map_option (se_reader_update (\<lambda>_. R_wait)) (send_high ProtoFinish s) else None)"
| "sess_step Channel_done s =
     (if se_reader s = R_wait \<and> se_writer s = W_done then Some (s\<lparr>se_reader := R_gone\<rparr>) else None)"
| "sess_step (Pop_high ok) s = (if se_writer s \<in> {W_pop, W_select} then pop_high ok s else None)"
| "sess_step Pop_blocks s =
     (if se_writer s = W_pop \<and> gc_items (pq_high (se_sig s)) = [] then Some (s\<lparr>se_writer := W_select\<rparr>) else None)"
| "sess_step (Pop_normal ok) s = (if se_writer s = W_select then pop_normal ok s else None)"
| "sess_step (Drain ok room) s = (if se_writer s = W_drain then Some (drain_one ok room s) else None)"
| "sess_step (Flush_out ok) s =
     (if se_writer s = W_flush then Some (if ok then s\<lparr>se_writer := W_pop\<rparr> else writer_fails s) else None)"
| "sess_step (Push p) s =
     (if p = ProtoReady \<or> p = ProtoFinish then None else Some (s\<lparr>se_sig := snd (pq_Push (se_sig s) p)\<rparr>))"
| "sess_step Outside_signal s = send_high ProtoReady s"
| "sess_step Kick s = send_high ProtoFinish s"

fun sess_run :: "label list \<Rightarrow> comet_session \<Rightarrow> comet_session option" where
  "sess_run [] s = Some s"
| "sess_run (l # ls) s = (case sess_step l s of None \<Rightarrow> None | Some s' \<Rightarrow> sess_run ls s')"

section \<open>Every packet is answered once, in order\<close>

fun entered :: "label \<Rightarrow> proto list" where
  "entered (Read_packet p allowed ans) =
     (if Op p \<noteq> OpHeartbeat \<and> \<not> allowed then [p]
      else if Op p = OpHeartbeat then [p\<lparr>Op := OpHeartbeatReply, Body := None\<rparr>]
      else if Op p = OpPushMsgAck then []
      else [operate_packet ans p])"
| "entered _ = []"

definition replies :: "sent list \<Rightarrow> proto list" where
  "replies out = concat (map (\<lambda>x. case x of Reply p \<Rightarrow> [p] | Heart p n \<Rightarrow> [p] | Pushed p \<Rightarrow> []) out)"

definition pushes :: "bool \<Rightarrow> sent list \<Rightarrow> proto list" where
  "pushes hi out = concat (map (\<lambda>x. case x of Pushed p \<Rightarrow> if isHighPriority (Op p) = hi then [p] else [] | _ \<Rightarrow> []) out)"

definition marker :: "proto \<Rightarrow> bool" where
  "marker p \<longleftrightarrow> p = ProtoReady \<or> p = ProtoFinish"

text \<open>The packets of a class that wait, and those a step takes in.\<close>

definition waiting :: "bool \<Rightarrow> comet_session \<Rightarrow> proto list" where
  "waiting hi s = filter (\<lambda>p. \<not> marker p) (gc_items (if hi then pq_high (se_sig s) else pq_normal (se_sig s)))"

fun accepted :: "bool \<Rightarrow> label \<Rightarrow> comet_session \<Rightarrow> proto list" where
  "accepted hi (Push p) s =
     (if \<not> marker p \<and> isHighPriority (Op p) = hi \<and> fst (pq_Push (se_sig s) p) = None then [p] else [])"
| "accepted hi _ s = []"

fun accepted_run :: "bool \<Rightarrow> label list \<Rightarrow> comet_session \<Rightarrow> proto list" where
  "accepted_run hi [] s = []"
| "accepted_run hi (l # ls) s = accepted hi l s @ (case sess_step l s of None \<Rightarrow> [] | Some s' \<Rightarrow> accepted_run hi ls s')"

definition sess_ok :: "comet_session \<Rightarrow> bool" where
  "sess_ok s \<longleftrightarrow> ring_ok (se_ring s) \<and> pq_ok (se_sig s)
     \<and> (\<forall>p \<in> set (gc_items (pq_high (se_sig s))). isHighPriority (Op p))
     \<and> (\<forall>p \<in> set (gc_items (pq_normal (se_sig s))). \<not> isHighPriority (Op p))"

lemma replies_simps [simp]:
  "replies [] = []" "replies (xs @ ys) = replies xs @ replies ys"
  "replies [Reply p] = [p]" "replies [Heart p n] = [p]" "replies [Pushed p] = []"
  by (simp_all add: replies_def)

lemma pushes_simps [simp]:
  "pushes hi [] = []" "pushes hi (xs @ ys) = pushes hi xs @ pushes hi ys"
  "pushes hi [Reply p] = []" "pushes hi [Heart p n] = []" "pushes hi [Pushed p] = (if isHighPriority (Op p) = hi then [p] else [])"
  by (simp_all add: pushes_def)

lemma marker_high: "marker p \<Longrightarrow> isHighPriority (Op p)"
  by (auto simp: marker_def isHighPriority_def ProtoReady_def ProtoFinish_def)

lemma start_ok: "unat cli \<le> 2 ^ 63 \<Longrightarrow> sess_ok (session_start cli svr)"
  by (simp add: sess_ok_def session_start_def NewRing_def ring_ok_Reset NewPriorityQueue_def, simp add: pq_Reset_def make_chan_def)

lemma start_ring: "unat cli \<le> 2 ^ 63 \<Longrightarrow> ring_items (se_ring (session_start cli svr)) = []"
  by (simp add: session_start_def NewRing_def ring_ok_Reset)

lemma chan_send_Some: "chan_send c x = Some c' \<longleftrightarrow> length (gc_items c) < gc_cap c \<and> c' = c\<lparr>gc_items := gc_items c @ [x]\<rparr>"
  by (auto simp: chan_send_def)

lemma chan_recv_Some: "chan_recv c = Some (x, c') \<longleftrightarrow> (\<exists>xs. gc_items c = x # xs \<and> c' = c\<lparr>gc_items := xs\<rparr>)"
  by (auto simp: chan_recv_def split: list.splits)

text \<open>What one step does to the replies and to the packets of each class.\<close>

definition follows :: "comet_session \<Rightarrow> proto list \<Rightarrow> (bool \<Rightarrow> proto list) \<Rightarrow> comet_session \<Rightarrow> bool" where
  "follows s ps acc s' \<longleftrightarrow> sess_ok s' \<and> replies (se_out s') @ ring_items (se_ring s') = replies (se_out s) @ ring_items (se_ring s) @ ps
     \<and> (se_failing s \<longrightarrow> se_failing s' \<and> (\<forall>hi. pushes hi (se_out s') = pushes hi (se_out s)))
     \<and> (\<forall>hi. se_failing s' \<longrightarrow> prefix (pushes hi (se_out s')) (pushes hi (se_out s) @ waiting hi s @ acc hi))
     \<and> (\<not> se_failing s' \<longrightarrow> (\<forall>hi. pushes hi (se_out s') @ waiting hi s' = pushes hi (se_out s) @ waiting hi s @ acc hi))"

lemma advance_follows: "sess_ok s \<Longrightarrow> advance p pc s = Some s' \<Longrightarrow> follows s [p] (\<lambda>_. []) s'"
  by (auto simp: advance_def follows_def sess_ok_def waiting_def dest: ring.enq_items)

lemma send_high_follows: "sess_ok s \<Longrightarrow> marker p \<Longrightarrow> send_high p s = Some s' \<Longrightarrow> follows s [] (\<lambda>_. []) s'"
  by (auto simp: send_high_def follows_def sess_ok_def waiting_def chan_send_Some pq_ok_def chan_ok_def dest: marker_high)

lemma follows_same:
  "follows s ps acc (s'\<lparr>se_reader := pc\<rparr>) = follows s ps acc s'" "follows s ps acc (s'\<lparr>se_writer := wc\<rparr>) = follows s ps acc s'"
  "follows s ps acc (s'\<lparr>se_open := b\<rparr>) = follows s ps acc s'"
  by (simp_all add: follows_def sess_ok_def waiting_def)

lemma follows_refl: "sess_ok s \<Longrightarrow> follows s [] (\<lambda>_. []) s"
  by (simp add: follows_def)

lemma pop_high_follows: "sess_ok s \<Longrightarrow> pop_high ok s = Some s' \<Longrightarrow> follows s [] (\<lambda>_. []) s'"
  by (auto simp: pop_high_def chan_recv_Some got_def writer_fails_def follows_def sess_ok_def pq_ok_def chan_ok_def waiting_def marker_def
        split: option.splits if_splits)

lemma pop_normal_follows: "sess_ok s \<Longrightarrow> pop_normal ok s = Some s' \<Longrightarrow> follows s [] (\<lambda>_. []) s'"
  by (auto simp: pop_normal_def chan_recv_Some got_def writer_fails_def follows_def sess_ok_def pq_ok_def chan_ok_def waiting_def marker_def
        dest: marker_high [unfolded marker_def] split: option.splits if_splits)

lemma drain_one_follows: "sess_ok s \<Longrightarrow> follows s [] (\<lambda>_. []) (drain_one ok room s)"
  by (auto simp: drain_one_def Let_def writer_fails_def follows_def sess_ok_def waiting_def dest: ring.deq_items split: option.splits)

lemma push_follows: "sess_ok s \<Longrightarrow> \<not> marker p \<Longrightarrow>
    follows s [] (\<lambda>hi. accepted hi (Push p) s) (s\<lparr>se_sig := snd (pq_Push (se_sig s) p)\<rparr>)"
  by (auto simp: pq_Push_def chan_send_Some follows_def sess_ok_def waiting_def pq_ok_def chan_ok_def split: option.splits)

lemma read_follows: "sess_ok s \<Longrightarrow> read_packet p allowed ans s = Some s' \<Longrightarrow> follows s (entered (Read_packet p allowed ans)) (\<lambda>_. []) s'"
  by (auto simp: read_packet_def follows_same intro: advance_follows follows_refl split: if_splits)

lemma step_follows:
  assumes "sess_ok s" "sess_step l s = Some s'"
  shows "follows s (entered l) (\<lambda>hi. accepted hi l s) s'"
proof (cases l)
  case (Read_packet p allowed ans)
  then have r: "read_packet p allowed ans s = Some s'" using assms(2) by (simp split: if_splits)
  show ?thesis using read_follows [OF assms(1) r] unfolding Read_packet by (simp only: accepted.simps)
next
  case (Push p)
  then show ?thesis using assms push_follows [of s p] by (simp add: marker_def split: if_splits)
next
  case Set_slot
  then show ?thesis using assms follows_refl [OF assms(1)]
    by (auto simp: leave_def follows_same split: if_splits exec.splits sum.splits)
next
  case Read_error
  then show ?thesis using assms follows_refl [OF assms(1)] by (auto simp: leave_def follows_same split: if_splits)
next
  case Signal_ready
  then show ?thesis using assms send_high_follows [OF assms(1), of ProtoReady]
    by (auto simp: follows_same marker_def split: if_splits)
next
  case Close_channel
  then show ?thesis using assms send_high_follows [OF assms(1), of ProtoFinish]
    by (auto simp: follows_same marker_def split: if_splits)
next
  case (Drain ok room)
  then show ?thesis using assms drain_one_follows [OF assms(1)] by (auto split: if_splits)
next
  case (Flush_out ok)
  then show ?thesis using assms by (auto simp: writer_fails_def follows_def sess_ok_def waiting_def split: if_splits)
qed (use assms in \<open>auto simp: follows_same marker_def intro: follows_refl send_high_follows pop_high_follows pop_normal_follows split: if_splits\<close>)

lemma run_fifo:
  assumes "sess_ok s" "sess_run tr s = Some s'"
  shows "replies (se_out s') @ ring_items (se_ring s') = replies (se_out s) @ ring_items (se_ring s) @ concat (map entered tr)
    \<and> (se_failing s \<longrightarrow> se_failing s' \<and> pushes hi (se_out s') = pushes hi (se_out s))
    \<and> prefix (pushes hi (se_out s')) (pushes hi (se_out s) @ waiting hi s @ accepted_run hi tr s)
    \<and> (\<not> se_failing s' \<longrightarrow> pushes hi (se_out s') @ waiting hi s' = pushes hi (se_out s) @ waiting hi s @ accepted_run hi tr s)"
  using assms
proof (induction tr arbitrary: s)
  case (Cons l tr)
  then obtain s1 where s1: "sess_step l s = Some s1" "sess_run tr s1 = Some s'" by (auto split: option.splits)
  have f: "follows s (entered l) (\<lambda>hi. accepted hi l s) s1" using step_follows [OF Cons.prems(1) s1(1)] .
  then have ok: "sess_ok s1" and r: "replies (se_out s1) @ ring_items (se_ring s1) = replies (se_out s) @ ring_items (se_ring s) @ entered l"
    by (simp_all add: follows_def)
  note ih = Cons.IH [OF ok s1(2)]
  have acc: "accepted_run hi (l # tr) s = accepted hi l s @ accepted_run hi tr s1" using s1(1) by simp
  have reps: "replies (se_out s') @ ring_items (se_ring s') = replies (se_out s) @ ring_items (se_ring s) @ concat (map entered (l # tr))"
    using ih r by (metis append.assoc concat.simps(2) list.simps(9))
  show ?case
  proof (cases "se_failing s1")
    case True
    then have "prefix (pushes hi (se_out s1)) (pushes hi (se_out s) @ waiting hi s @ accepted hi l s)"
      using f by (simp add: follows_def)
    from prefix_prefix [OF this, of "accepted_run hi tr s1"]
    have "prefix (pushes hi (se_out s1)) (pushes hi (se_out s) @ waiting hi s @ accepted_run hi (l # tr) s)"
      unfolding acc by simp
    moreover have "se_failing s'" "pushes hi (se_out s') = pushes hi (se_out s1)" using ih True by auto
    moreover have "se_failing s \<longrightarrow> pushes hi (se_out s1) = pushes hi (se_out s)" using f by (simp add: follows_def)
    ultimately show ?thesis using reps by metis
  next
    case False
    then have "\<not> se_failing s" "pushes hi (se_out s1) @ waiting hi s1 = pushes hi (se_out s) @ waiting hi s @ accepted hi l s"
      using f by (auto simp: follows_def)
    then show ?thesis using ih reps unfolding acc by (metis append.assoc)
  qed
qed simp

text \<open>Property C28. In every interleaving: the packets the reader took in are answered once each and in their
  order (those not answered yet are in the ring), and of each class of pushes the client gets the accepted ones,
  in their order and none twice, and all but the waiting ones unless writing failed.\<close>

theorem session_fifo:
  assumes "unat cli \<le> 2 ^ 63" and "sess_run tr (session_start cli svr) = Some s"
  shows "replies (se_out s) @ ring_items (se_ring s) = concat (map entered tr)
    \<and> prefix (pushes hi (se_out s)) (accepted_run hi tr (session_start cli svr))
    \<and> (se_failing s \<or> pushes hi (se_out s) @ waiting hi s = accepted_run hi tr (session_start cli svr))"
proof -
  let ?s0 = "session_start cli svr"
  have "replies (se_out ?s0) = []" "pushes hi (se_out ?s0) = []" "waiting hi ?s0 = []"
    by (simp_all add: session_start_def waiting_def NewPriorityQueue_def pq_Reset_def make_chan_def)
  then show ?thesis using run_fifo [OF start_ok [OF assms(1)] assms(2), of hi] start_ring [OF assms(1)] by auto
qed

definition demo_packet :: "i32 \<Rightarrow> proto" where
  "demo_packet op = \<lparr>Ver = 1, Op = op, Seq = 5, Body = Some [1]\<rparr>"

definition demo_labels :: "label list" where
  "demo_labels = [Set_slot, Read_packet (demo_packet OpHeartbeat) True (Inr None), Push (demo_packet OpRaw), Signal_ready,
     Pop_high True, Drain True (Some 3), Set_slot, Read_packet (demo_packet OpSub) False (Inr None)]"

lemma normalizeRingSize_1: "normalizeRingSize 1 = 1"
  by (simp add: normalizeRingSize_def clear_low_bits.simps)

lemma demo_session_start: "session_start 1 1 =
    \<lparr>se_ring = \<lparr>rg_rp = 0, rg_num = 1, rg_mask = 0, rg_wp = 0, rg_data = [ProtoReady]\<rparr>,
     se_sig = \<lparr>pq_high = \<lparr>gc_items = [], gc_cap = 1\<rparr>, pq_normal = \<lparr>gc_items = [], gc_cap = 8\<rparr>\<rparr>, se_reader = R_set,
     se_writer = W_pop, se_failing = False, se_online = 0, se_open = True, se_out = []\<rparr>"
  by (simp add: session_start_def NewRing_def ring_Reset_def normalizeRingSize_1 NewPriorityQueue_def pq_Reset_def make_chan_def Let_def)

lemma session_fifo_witness:
  "\<exists>s. sess_run demo_labels (session_start 1 1) = Some s
    \<and> replies (se_out s) @ ring_items (se_ring s)
      = [(demo_packet OpHeartbeat)\<lparr>Op := OpHeartbeatReply, Body := None\<rparr>, demo_packet OpSub]"
proof -
  have "sess_run demo_labels (session_start 1 1) \<noteq> None"
    unfolding demo_session_start demo_labels_def
    by (simp add: ring_Set_def slot_def read_packet_def advance_def ring_enq_def ring_SetAdv_def send_high_def chan_send_def
        pop_high_def chan_recv_def got_def drain_one_def ring_deq_def ring_Get_def ring_GetAdv_def pq_Push_def isHighPriority_def
        demo_packet_def ProtoReady_def ProtoFinish_def OpHeartbeat_def OpHeartbeatReply_def OpSub_def OpPushMsgAck_def OpRaw_def
        OpProtoReady_def OpProtoFinish_def OpSyncReply_def OpSendMsgAck_def Let_def)
  then obtain s where s: "sess_run demo_labels (session_start 1 1) = Some s" by blast
  have "replies (se_out s) @ ring_items (se_ring s) = concat (map entered demo_labels)"
    using session_fifo [OF _ s, of True] by simp
  then show ?thesis using s
    by (simp add: demo_labels_def demo_packet_def OpHeartbeat_def OpSub_def)
qed

section \<open>A session that nobody kicks comes to its end\<close>

definition own_step :: "label \<Rightarrow> bool" where
  "own_step l \<longleftrightarrow> (case l of Push p \<Rightarrow> False | Outside_signal \<Rightarrow> False | Kick \<Rightarrow> False | _ \<Rightarrow> True)"

text \<open>The signal that ends the writer is sent by the reader's \<open>Close\<close> and by nobody else.\<close>

definition finish_ok :: "comet_session \<Rightarrow> bool" where
  "finish_ok s \<longleftrightarrow> 0 < gc_cap (pq_high (se_sig s))
     \<and> (if se_reader s = R_wait then ProtoFinish \<in> set (gc_items (pq_high (se_sig s))) \<or> se_writer s = W_done
        else se_reader s \<noteq> R_gone \<longrightarrow> ProtoFinish \<notin> set (gc_items (pq_high (se_sig s))) \<and> se_writer s \<noteq> W_done)"

lemma ready_not_finish [simp]: "ProtoReady \<noteq> ProtoFinish" "ProtoFinish \<noteq> ProtoReady"
  by (simp_all add: ProtoReady_def ProtoFinish_def OpProtoReady_def OpProtoFinish_def)

lemma got_same [simp]:
  "se_reader (got p ok s) = se_reader s" "se_sig (got p ok s) = se_sig s" "se_reader (drain_one ok room s) = se_reader s"
  "se_sig (drain_one ok room s) = se_sig s"
  by (auto simp: got_def writer_fails_def drain_one_def Let_def split: option.splits)

lemma got_done: "se_writer (got p ok s) = W_done \<longleftrightarrow> p = ProtoFinish"
  by (auto simp: got_def writer_fails_def)

lemma drain_not_done: "se_writer s = W_drain \<Longrightarrow> se_writer (drain_one ok room s) \<noteq> W_done"
  by (auto simp: drain_one_def Let_def writer_fails_def split: option.splits)

lemma finish_ok_advance: "finish_ok s \<Longrightarrow> se_reader s = R_read \<Longrightarrow> pc \<notin> {R_wait, R_gone} \<Longrightarrow> advance p pc s = Some s' \<Longrightarrow> finish_ok s'"
  by (auto simp: advance_def finish_ok_def)

lemma finish_ok_read: "finish_ok s \<Longrightarrow> se_reader s = R_read \<Longrightarrow> read_packet p allowed ans s = Some s' \<Longrightarrow> finish_ok s'"
  by (auto simp: read_packet_def intro: finish_ok_advance split: if_splits) (auto simp: finish_ok_def)

lemma finish_ok_pop: "finish_ok s \<Longrightarrow> se_writer s \<in> {W_pop, W_select} \<Longrightarrow> pop_high ok s = Some s' \<Longrightarrow> finish_ok s'"
  by (auto simp: pop_high_def chan_recv_Some finish_ok_def got_done split: option.splits if_splits)

lemma finish_ok_pop_normal:
  "finish_ok s \<Longrightarrow> sess_ok s \<Longrightarrow> se_writer s = W_select \<Longrightarrow> pop_normal ok s = Some s' \<Longrightarrow> finish_ok s'"
  by (auto simp: pop_normal_def chan_recv_Some finish_ok_def got_done sess_ok_def marker_high [unfolded marker_def]
      split: option.splits if_splits)

lemma finish_ok_push: "finish_ok s \<Longrightarrow> \<not> marker p \<Longrightarrow> finish_ok (s\<lparr>se_sig := snd (pq_Push (se_sig s) p)\<rparr>)"
  by (auto simp: finish_ok_def pq_Push_def chan_send_Some marker_def split: option.splits)

lemma finish_ok_step:
  assumes "finish_ok s" "sess_ok s" "sess_step l s = Some s'" "l \<noteq> Kick"
  shows "finish_ok s'"
proof (cases l)
  case (Push p)
  then show ?thesis using assms finish_ok_push [of s p] by (simp add: marker_def split: if_splits)
next
  case (Drain ok room)
  then show ?thesis using assms drain_not_done [of s ok room] by (auto simp: finish_ok_def split: if_splits)
next
  case (Read_packet p allowed ans)
  then have "se_reader s = R_read" "read_packet p allowed ans s = Some s'" using assms(3) by (auto split: if_splits)
  then show ?thesis using finish_ok_read [OF assms(1)] by simp
next
  case (Pop_high ok)
  then have "se_writer s \<in> {W_pop, W_select}" "pop_high ok s = Some s'" using assms(3) by (auto split: if_splits)
  then show ?thesis using finish_ok_pop [OF assms(1)] by simp
next
  case (Pop_normal ok)
  then have "se_writer s = W_select" "pop_normal ok s = Some s'" using assms(3) by (auto split: if_splits)
  then show ?thesis using finish_ok_pop_normal [OF assms(1,2)] by simp
qed (use assms in \<open>auto simp: finish_ok_def leave_def send_high_def chan_send_Some writer_fails_def split: if_splits exec.splits sum.splits\<close>)

lemma reaches_ok:
  assumes "finish_ok s" "sess_ok s" "sess_run tr s = Some s'" "Kick \<notin> set tr"
  shows "finish_ok s' \<and> sess_ok s'"
  using assms
proof (induction tr arbitrary: s)
  case (Cons l tr)
  then obtain s1 where s1: "sess_step l s = Some s1" "sess_run tr s1 = Some s'" by (auto split: option.splits)
  moreover have "sess_ok s1" using step_follows [OF Cons.prems(2) s1(1)] by (simp add: follows_def)
  moreover have "finish_ok s1" using finish_ok_step [OF Cons.prems(1,2) s1(1)] Cons.prems(4) by auto
  ultimately show ?case using Cons.IH [of s1] Cons.prems(4) by simp
qed simp

lemma own_simps [simp]:
  "own_step Set_slot" "own_step (Read_packet p allowed ans)" "own_step Read_error" "own_step Signal_ready" "own_step Close_channel" "own_step Channel_done"
  "own_step (Pop_high ok)" "own_step Pop_blocks" "own_step (Pop_normal ok)" "own_step (Drain ok room)" "own_step (Flush_out ok)"
  "\<not> own_step (Push p)" "\<not> own_step Outside_signal" "\<not> own_step Kick"
  by (simp_all add: own_step_def)

lemma possible: "own_step l \<Longrightarrow> sess_step l s \<noteq> None \<Longrightarrow> \<exists>l. own_step l \<and> sess_step l s \<noteq> None"
  by blast

text \<open>Some step of the session is possible until the reader is gone.\<close>

lemma session_progress:
  assumes "finish_ok s" "se_reader s \<in> {R_close, R_wait}"
  shows "\<exists>l. own_step l \<and> sess_step l s \<noteq> None"
proof (cases "se_writer s = W_done \<and> se_reader s = R_wait")
  case True
  then show ?thesis by (intro possible [of Channel_done]) auto
next
  case False
  then have nd: "se_writer s \<noteq> W_done" using assms by (auto simp: finish_ok_def)
  show ?thesis
  proof (cases "se_writer s")
    case W_drain
    then show ?thesis by (intro possible [of "Drain True None"]) auto
  next
    case W_flush
    then show ?thesis by (intro possible [of "Flush_out True"]) auto
  next
    case W_pop
    then have "sess_step Pop_blocks s \<noteq> None \<or> sess_step (Pop_high True) s \<noteq> None"
      by (cases "gc_items (pq_high (se_sig s))") (auto simp: pop_high_def chan_recv_def)
    then show ?thesis using possible own_simps by metis
  next
    case W_select
    show ?thesis
    proof (cases "gc_items (pq_high (se_sig s))")
      case (Cons p ps)
      then show ?thesis using W_select by (intro possible [of "Pop_high True"]) (auto simp: pop_high_def chan_recv_def)
    next
      case Nil
      then have "se_reader s = R_close" using assms W_select by (auto simp: finish_ok_def)
      then show ?thesis using Nil assms(1)
        by (intro possible [of Close_channel]) (auto simp: send_high_def chan_send_def finish_ok_def)
    qed
  qed (use nd in simp)
qed

fun writer_rank :: "writer_pc \<Rightarrow> nat" where
  "writer_rank W_pop = 2" | "writer_rank W_select = 1" | "writer_rank W_drain = 4" | "writer_rank W_flush = 3" | "writer_rank W_done = 0"

fun reader_rank :: "reader_pc \<Rightarrow> nat" where
  "reader_rank R_close = 6" | "reader_rank R_wait = 1" | "reader_rank _ = 0"

definition rank :: "comet_session \<Rightarrow> nat" where
  "rank s = reader_rank (se_reader s) + writer_rank (se_writer s) + length (ring_items (se_ring s))
     + 4 * (length (gc_items (pq_high (se_sig s))) + length (gc_items (pq_normal (se_sig s))))"

lemma rank_got: "writer_rank (se_writer (got p ok s)) < 5" "writer_rank (se_writer (got p ok s)) < 6" "se_ring (got p ok s) = se_ring s"
  by (auto simp: got_def writer_fails_def)

lemma rank_drain:
  assumes "sess_ok s" "se_writer s = W_drain"
  shows "rank (drain_one ok room s) < rank s"
proof (cases "ring_deq (se_ring s)")
  case None
  then show ?thesis using assms by (simp add: drain_one_def rank_def)
next
  case (Some pr)
  obtain p r where pr: "pr = (p, r)" by (cases pr)
  have "ring_items (se_ring s) = p # ring_items r" using ring.deq_items [of "se_ring s" p r] assms(1) Some pr by (simp add: sess_ok_def)
  then show ?thesis using assms(2) Some pr by (simp add: drain_one_def Let_def writer_fails_def rank_def)
qed

lemma rank_step:
  assumes "sess_ok s" "own_step l" "se_reader s \<in> {R_close, R_wait, R_gone}" "sess_step l s = Some s'"
  shows "rank s' < rank s \<and> se_reader s' \<in> {R_close, R_wait, R_gone}"
proof (cases l)
  case (Drain ok room)
  then show ?thesis using assms rank_drain [OF assms(1), of ok room] by (auto split: if_splits)
next
  case (Pop_high ok)
  then show ?thesis using assms
    by (auto simp: pop_high_def chan_recv_Some rank_def rank_got split: option.splits if_splits)
next
  case (Pop_normal ok)
  then show ?thesis using assms
    by (auto simp: pop_normal_def chan_recv_Some rank_def rank_got split: option.splits if_splits)
qed (use assms in \<open>auto simp: own_step_def rank_def send_high_def chan_send_Some writer_fails_def split: if_splits\<close>)

lemma own_run_bound:
  assumes "sess_ok s" "se_reader s \<in> {R_close, R_wait, R_gone}" "\<forall>l \<in> set tr. own_step l" "sess_run tr s = Some s'"
  shows "length tr + rank s' \<le> rank s \<and> se_reader s' \<in> {R_close, R_wait, R_gone}"
  using assms
proof (induction tr arbitrary: s)
  case (Cons l tr)
  then obtain s1 where s1: "sess_step l s = Some s1" "sess_run tr s1 = Some s'" by (auto split: option.splits)
  moreover have "sess_ok s1" using step_follows [OF Cons.prems(1) s1(1)] by (simp add: follows_def)
  moreover have "rank s1 < rank s" "se_reader s1 \<in> {R_close, R_wait, R_gone}"
    using rank_step [OF Cons.prems(1) _ Cons.prems(2) s1(1)] Cons.prems(3) by auto
  ultimately show ?case using Cons.IH [of s1] Cons.prems(3) by fastforce
qed simp

lemma start_finish_ok: "finish_ok (session_start cli svr)"
  by (simp add: finish_ok_def session_start_def NewPriorityQueue_def pq_Reset_def make_chan_def)

lemma writer_stays_done: "se_writer s = W_done \<Longrightarrow> sess_step l s = Some s' \<Longrightarrow> se_writer s' = W_done"
  by (cases l) (auto simp: leave_def read_packet_def advance_def send_high_def split: if_splits exec.splits sum.splits)

lemma gone_step: "se_reader s = R_gone \<longrightarrow> se_writer s = W_done \<Longrightarrow> sess_step l s = Some s' \<Longrightarrow> se_reader s' = R_gone \<longrightarrow> se_writer s' = W_done"
  by (cases l) (auto simp: leave_def read_packet_def advance_def send_high_def pop_high_def pop_normal_def writer_fails_def
      split: if_splits exec.splits sum.splits option.splits)

lemma gone_done: "sess_run tr s = Some s' \<Longrightarrow> se_reader s = R_gone \<longrightarrow> se_writer s = W_done \<Longrightarrow> se_reader s' = R_gone \<longrightarrow> se_writer s' = W_done"
proof (induction tr arbitrary: s)
  case (Cons l tr)
  then show ?case using gone_step by (auto split: option.splits)
qed simp

text \<open>Property C29. Once the reader of a connection that was not kicked has left its loop, the session comes to
  its end whatever the interleaving: there is a bound on its further steps, and when none is possible any more
  the writer has stopped and Logic was told of the end.\<close>

theorem sessions_end:
  assumes "unat cli \<le> 2 ^ 63" and "sess_run tr (session_start cli svr) = Some s" and "Kick \<notin> set tr"
    and "se_reader s \<in> {R_close, R_wait}"
  shows "\<exists>n. \<forall>tr' s'. (\<forall>l \<in> set tr'. own_step l) \<longrightarrow> sess_run tr' s = Some s' \<longrightarrow>
    length tr' \<le> n \<and> ((\<forall>l. own_step l \<longrightarrow> sess_step l s' = None) \<longrightarrow> se_reader s' = R_gone \<and> se_writer s' = W_done)"
proof -
  have ok: "finish_ok s" "sess_ok s" using reaches_ok [OF start_finish_ok start_ok [OF assms(1)] assms(2,3)] by simp_all
  have "length tr' \<le> rank s \<and> ((\<forall>l. own_step l \<longrightarrow> sess_step l s' = None) \<longrightarrow> se_reader s' = R_gone \<and> se_writer s' = W_done)"
    if o: "\<forall>l \<in> set tr'. own_step l" and r: "sess_run tr' s = Some s'" for tr' s'
  proof -
    have "Kick \<notin> set tr'" using o own_simps(14) by blast
    then have ok': "finish_ok s'" "sess_ok s'" using reaches_ok [OF ok r] by simp_all
    have b: "length tr' + rank s' \<le> rank s" "se_reader s' \<in> {R_close, R_wait, R_gone}"
      using own_run_bound [OF ok(2) _ o r] assms(4) by auto
    have "se_reader s' = R_gone \<longrightarrow> se_writer s' = W_done"
      using gone_done [OF r] assms(4) by auto
    then show ?thesis using b session_progress [OF ok'(1)] by fastforce
  qed
  then show ?thesis by blast
qed

theorem sessions_end_witness:
  "\<exists>s n. sess_run [Set_slot, Read_error] (session_start 1 1) = Some s \<and>
    (\<forall>tr' s'. (\<forall>l \<in> set tr'. own_step l) \<longrightarrow> sess_run tr' s = Some s' \<longrightarrow>
    length tr' \<le> n \<and> ((\<forall>l. own_step l \<longrightarrow> sess_step l s' = None) \<longrightarrow> se_reader s' = R_gone \<and> se_writer s' = W_done))"
proof -
  have "\<exists>s. sess_run [Set_slot, Read_error] (session_start 1 1) = Some s \<and> se_reader s = R_close"
    unfolding demo_session_start by (simp add: ring_Set_def slot_def leave_def)
  then obtain s where s: "sess_run [Set_slot, Read_error] (session_start 1 1) = Some s" "se_reader s = R_close" by blast
  show ?thesis using sessions_end [of 1 _ 1 s, OF _ s(1)] s by auto
qed

section \<open>A kicked connection\<close>

text \<open>\<open>Kick\<close> stops the writer, and nobody empties the queue any more.\<close>

definition stuck :: "comet_session \<Rightarrow> bool" where
  "stuck s \<longleftrightarrow> se_writer s = W_done \<and> se_reader s = R_close \<and> gc_cap (pq_high (se_sig s)) \<le> length (gc_items (pq_high (se_sig s)))"

lemma stuck_step: "stuck s \<Longrightarrow> sess_step l s = Some s' \<Longrightarrow> stuck s'"
  by (cases l) (auto simp: stuck_def send_high_def chan_send_Some pq_Push_def split: if_splits option.splits)

lemma stuck_run: "stuck s \<Longrightarrow> sess_run tr s = Some s' \<Longrightarrow> stuck s'"
proof (induction tr arbitrary: s)
  case (Cons l tr)
  then show ?case using stuck_step by (auto split: option.splits)
qed simp

lemma sess_run_append: "sess_run (xs @ ys) s = (case sess_run xs s of None \<Rightarrow> None | Some s' \<Rightarrow> sess_run ys s')"
  by (induction xs arbitrary: s) (auto split: option.splits)

lemma signals_fill:
  assumes "length (gc_items (pq_high (se_sig s))) + n \<le> gc_cap (pq_high (se_sig s))"
  shows "sess_run (replicate n Outside_signal) s
    = Some (s\<lparr>se_sig := (se_sig s)\<lparr>pq_high := (pq_high (se_sig s))\<lparr>gc_items := gc_items (pq_high (se_sig s)) @ replicate n ProtoReady\<rparr>\<rparr>\<rparr>)"
  using assms
proof (induction n arbitrary: s)
  case (Suc n)
  then show ?case by (simp add: send_high_def chan_send_def)
qed simp

definition queue_size :: "int \<Rightarrow> nat" where
  "queue_size svr = (if svr \<le> 0 then 1 else nat svr)"

text \<open>Property C30. A connection is kicked while its queue fills with the signals of packets pushed to it: the
  writer stops, the queue stays full, and in no continuation does the reader get past closing its channel, so
  Logic is never told that the connection is gone.\<close>

theorem kicked_session_stuck:
  assumes "unat cli \<le> 2 ^ 63"
  shows "\<exists>s. sess_run ([Kick] @ replicate (queue_size svr - 1) Outside_signal @ [Pop_high True, Outside_signal, Set_slot, Read_error])
      (session_start cli svr) = Some s
    \<and> (\<forall>tr s'. sess_run tr s = Some s' \<longrightarrow> se_reader s' = R_close)"
proof -
  let ?s0 = "session_start cli svr" and ?n = "queue_size svr"
  have n: "0 < ?n" by (simp add: queue_size_def)
  have q: "pq_high (se_sig ?s0) = \<lparr>gc_items = [], gc_cap = ?n\<rparr>"
    "se_reader ?s0 = R_set" "se_writer ?s0 = W_pop" "\<not> se_failing ?s0"
    by (simp_all add: session_start_def NewPriorityQueue_def pq_Reset_def make_chan_def queue_size_def)
  let ?s1 = "?s0\<lparr>se_sig := (se_sig ?s0)\<lparr>pq_high := \<lparr>gc_items = [ProtoFinish], gc_cap = ?n\<rparr>\<rparr>\<rparr>"
  let ?s2 = "?s0\<lparr>se_sig := (se_sig ?s0)\<lparr>pq_high := \<lparr>gc_items = ProtoFinish # replicate (?n - 1) ProtoReady, gc_cap = ?n\<rparr>\<rparr>\<rparr>"
  have k: "sess_run [Kick] ?s0 = Some ?s1" using n by (simp add: q send_high_def chan_send_def)
  have f: "sess_run (replicate (?n - 1) Outside_signal) ?s1 = Some ?s2"
    using n by (subst signals_fill) (auto simp: q)
  have ok: "ring_ok (se_ring ?s0)" "ring_items (se_ring ?s0) = []" using start_ok [OF assms] start_ring [OF assms] by (simp_all add: sess_ok_def)
  have "0 < unat (rg_num (se_ring ?s0))" using ok(1) by (auto simp: ring_ok_def unat_2p)
  then have "ring_enq (se_ring ?s0) ProtoReady \<noteq> None" using ring.enq_full [OF ok(1), of ProtoReady] ok(2) by simp
  then obtain i where i: "ring_Set (se_ring ?s0) = Ret (Inr i)" by (auto simp: ring_enq_def split: exec.splits sum.splits)
  have "\<exists>s. sess_run [Pop_high True, Outside_signal, Set_slot, Read_error] ?s2 = Some s \<and> stuck s"
    using n by (simp add: q i pop_high_def chan_recv_def got_def send_high_def chan_send_def leave_def stuck_def)
  then obtain s where s: "sess_run [Pop_high True, Outside_signal, Set_slot, Read_error] ?s2 = Some s" "stuck s" by blast
  have "sess_run ([Kick] @ replicate (?n - 1) Outside_signal @ [Pop_high True, Outside_signal, Set_slot, Read_error]) ?s0 = Some s"
    using s(1) by (simp only: sess_run_append k f option.case)
  moreover have "\<forall>tr s'. sess_run tr s = Some s' \<longrightarrow> se_reader s' = R_close" using stuck_run [OF s(2)] by (auto simp: stuck_def)
  ultimately show ?thesis by blast
qed

theorem kicked_session_stuck_witness:
  "\<exists>s. sess_run [Kick, Outside_signal, Pop_high True, Outside_signal, Set_slot, Read_error] (session_start 8 2) = Some s
    \<and> (\<forall>tr s'. sess_run tr s = Some s' \<longrightarrow> se_reader s' = R_close)"
  using kicked_session_stuck [of 8 2] by (simp add: queue_size_def numeral_2_eq_2 [symmetric])

section \<open>No signal is lost\<close>

text \<open>The packets the reader took in since it last signalled.\<close>

fun unsignalled :: "label list \<Rightarrow> nat \<Rightarrow> nat" where
  "unsignalled [] n = n"
| "unsignalled (Signal_ready # tr) n = unsignalled tr 0"
| "unsignalled (l # tr) n = unsignalled tr (n + length (entered l))"

definition awake :: "nat \<Rightarrow> comet_session \<Rightarrow> bool" where
  "awake n s \<longleftrightarrow> se_failing s \<or> se_writer s = W_done \<or> length (ring_items (se_ring s)) \<le> n
     \<or> ProtoReady \<in> set (gc_items (pq_high (se_sig s))) \<or> se_writer s = W_drain"

lemma ring_items_advance: "sess_ok s \<Longrightarrow> advance p pc s = Some s' \<Longrightarrow>
    ring_items (se_ring s') = ring_items (se_ring s) @ [p] \<and> se_sig s' = se_sig s \<and> se_writer s' = se_writer s \<and> se_failing s' = se_failing s"
  by (auto simp: advance_def sess_ok_def dest: ring.enq_items)

lemma awake_read: "sess_ok s \<Longrightarrow> awake n s \<Longrightarrow> read_packet p allowed ans s = Some s' \<Longrightarrow> awake (n + length (entered (Read_packet p allowed ans))) s'"
  by (auto simp: read_packet_def awake_def dest!: ring_items_advance split: if_splits)

lemma awake_drain: "sess_ok s \<Longrightarrow> awake n s \<Longrightarrow> se_writer s = W_drain \<Longrightarrow> awake n (drain_one ok room s)"
  using ring.deq_empty [of "se_ring s"] by (auto simp: drain_one_def Let_def awake_def sess_ok_def writer_fails_def split: option.splits)

lemma awake_step:
  assumes "sess_ok s" "awake n s" "sess_step l s = Some s'"
  shows "awake (unsignalled [l] n) s'"
proof (cases l)
  case (Read_packet p allowed ans)
  then show ?thesis using assms awake_read [OF assms(1,2), of p allowed ans s'] by (simp split: if_splits)
next
  case (Drain ok room)
  then show ?thesis using assms awake_drain by (auto split: if_splits)
next
  case (Pop_high ok)
  then show ?thesis using assms by (auto simp: pop_high_def chan_recv_Some got_def awake_def writer_fails_def split: option.splits if_splits)
next
  case (Pop_normal ok)
  then show ?thesis using assms by (auto simp: pop_normal_def chan_recv_Some got_def awake_def writer_fails_def split: option.splits if_splits)
next
  case (Push p)
  then show ?thesis using assms by (auto simp: pq_Push_def chan_send_Some awake_def split: option.splits if_splits)
qed (use assms in \<open>auto simp: awake_def leave_def send_high_def chan_send_Some writer_fails_def split: if_splits exec.splits sum.splits\<close>)

lemma unsignalled_Cons: "unsignalled (l # tr) n = unsignalled tr (unsignalled [l] n)"
  by (cases l) simp_all

text \<open>In every interleaving, while the writer is well: every packet the reader signalled is out of
  the ring, or the signal is in the queue, or the writer is emptying the ring. So only packets that were let
  pass without a signal, those refused by the rate limiter, can wait for another one.\<close>

theorem no_signal_lost:
  assumes "unat cli \<le> 2 ^ 63" and "sess_run tr (session_start cli svr) = Some s"
    and "\<not> se_failing s" and "se_writer s \<notin> {W_done, W_drain}" and "ProtoReady \<notin> set (gc_items (pq_high (se_sig s)))"
  shows "length (ring_items (se_ring s)) \<le> unsignalled tr 0"
proof -
  have "awake (unsignalled tr n) s'" if "sess_ok s0" "awake n s0" "sess_run tr s0 = Some s'" for tr n s0 s'
    using that
  proof (induction tr arbitrary: n s0)
    case (Cons l tr)
    then obtain s1 where s1: "sess_step l s0 = Some s1" "sess_run tr s1 = Some s'" by (auto split: option.splits)
    have "sess_ok s1" using step_follows [OF Cons.prems(1) s1(1)] by (simp add: follows_def)
    then show ?case using Cons.IH [of s1 "unsignalled [l] n"] awake_step [OF Cons.prems(1,2) s1(1)] s1(2)
      by (subst unsignalled_Cons) simp
  qed simp
  moreover have "awake 0 (session_start cli svr)" using start_ring [OF assms(1)] by (simp add: awake_def)
  ultimately have "awake (unsignalled tr 0) s" using start_ok [OF assms(1)] assms(2) by blast
  then show ?thesis using assms(3-) by (auto simp: awake_def)
qed

end
