(* ===== verification/Comet_Server.thy ===== *)
theory Comet_Server
  imports Comet_Session Room_Bucket Websocket Int_Strings Free_Pool
begin

text \<open>
  The Comet server around its buckets: the handshake of a connection (\<open>ServeTCP\<close> and \<open>authTCP\<close> of
  \<open>internal/comet/server_tcp.go\<close>, \<open>ServeWebsocket\<close> and \<open>authWebsocket\<close> of \<open>server_websocket.go\<close>), the operations
  of a client (\<open>operation.go\<close>), the calls of the other services (\<open>internal/comet/grpc/server.go\<close>), the
  queues of room broadcasts (\<open>bucket.go\<close>), the exchange of online numbers (\<open>server.go\<close>), the shared pools
  (\<open>round.go\<close>) and the debugging list (\<open>whitelist.go\<close>).

  The hash that spreads keys over the buckets is the argument \<open>hash\<close>, the answers of Logic are arguments, and
  so is the order in which Go walks through a table. A send on a full queue that nobody empties is \<open>Spin\<close>.
\<close>

section \<open>The server and its buckets\<close>

type_synonym room_queue = "(string \<times> proto) gochan"

record routines =
  rt_num :: i64
  rt_chans :: "room_queue list"

record server =
  sv_id :: string
  sv_buckets :: "bucket list"
  sv_routines :: "routines list"

type_synonym key_hash = "string \<Rightarrow> i32"

definition NewBucket :: "store \<Rightarrow> nat \<Rightarrow> nat \<Rightarrow> bucket \<times> routines" where
  "NewBucket st routineAmount routineSize =
     (\<lparr>bk_chs = (\<lambda>_. None), bk_rooms = (\<lambda>_. None), bk_ipCnts = (\<lambda>_. None), bk_st = st\<rparr>,
      \<lparr>rt_num = 0, rt_chans = replicate routineAmount (make_chan routineSize)\<rparr>)"

definition NewServer :: "string \<Rightarrow> store \<Rightarrow> int \<Rightarrow> nat \<Rightarrow> nat \<Rightarrow> server" where
  "NewServer host st size1 routineAmount routineSize =
     (let n = (if size1 \<le> 0 then 1 else nat size1); (b, r) = NewBucket st routineAmount routineSize
      in \<lparr>sv_id = host, sv_buckets = replicate n b, sv_routines = replicate n r\<rparr>)"

definition bucket_index :: "key_hash \<Rightarrow> server \<Rightarrow> string \<Rightarrow> nat" where
  "bucket_index hash s subKey = unat (hash subKey mod of_nat (length (sv_buckets s)))"

definition srv_Bucket :: "key_hash \<Rightarrow> server \<Rightarrow> string \<Rightarrow> bucket" where
  "srv_Bucket hash s subKey = sv_buckets s ! bucket_index hash s subKey"

definition put_bucket :: "nat \<Rightarrow> bucket \<Rightarrow> server \<Rightarrow> server" where
  "put_bucket i b s = s\<lparr>sv_buckets := (sv_buckets s)[i := b]\<rparr>"

text \<open>The tokens of \<open>RandServerHearbeat\<close>, in minutes: \<open>r\<close> is the random number.\<close>

definition minServerHeartbeat :: int where "minServerHeartbeat = 10 * 60 * 1000000000"
definition maxServerHeartbeat :: int where "maxServerHeartbeat = 30 * 60 * 1000000000"

definition RandServerHearbeat :: "(int \<Rightarrow> int) \<Rightarrow> int" where
  "RandServerHearbeat rand = minServerHeartbeat + rand (maxServerHeartbeat - minServerHeartbeat)"

section \<open>Broadcasts to rooms\<close>

definition bk_BroadcastRoom :: "string \<times> proto \<Rightarrow> routines \<Rightarrow> routines exec" where
  "bk_BroadcastRoom arg rt =
     (if rt_chans rt = [] then Panic ''integer divide by zero''
      else let n = rt_num rt + 1; i = unat (n mod of_nat (length (rt_chans rt)))
           in case chan_send (rt_chans rt ! i) arg of
                None \<Rightarrow> Spin
              | Some c \<Rightarrow> Ret \<lparr>rt_num = n, rt_chans = (rt_chans rt)[i := c]\<rparr>)"

text \<open>A turn of the goroutine of queue \<open>i\<close>; \<open>None\<close> where it waits.\<close>

definition roomproc_turn :: "nat \<Rightarrow> bucket \<times> routines \<Rightarrow> (bucket \<times> routines) exec option" where
  "roomproc_turn i = (\<lambda>(b, rt).
     if length (rt_chans rt) \<le> i then None
     else case chan_recv (rt_chans rt ! i) of
            None \<Rightarrow> None
          | Some ((rid, p), c) \<Rightarrow>
              Some (exec_bind (roomproc_step b rid p) (\<lambda>b1. Ret (b1, rt\<lparr>rt_chans := (rt_chans rt)[i := c]\<rparr>))))"

section \<open>The online numbers\<close>

text \<open>\<open>onlineproc\<close>: the numbers of all buckets are added up, sent to Logic, and what Logic knows of all servers is
  put into the rooms.\<close>

definition rooms_total :: "server \<Rightarrow> string \<Rightarrow> i32 option" where
  "rooms_total s rid =
     (let cs = concat (map (\<lambda>b. case Bucket_RoomsCount b rid of None \<Rightarrow> [] | Some n \<Rightarrow> [n]) (sv_buckets s))
      in if cs = [] then None else Some (sum_list cs))"

definition online_turn :: "((string \<Rightarrow> i32 option) \<Rightarrow> gerr + (string \<Rightarrow> i32 option)) \<Rightarrow> server \<Rightarrow> server" where
  "online_turn renew s =
     (case renew (rooms_total s) of
        Inl e \<Rightarrow> s
      | Inr allRooms \<Rightarrow> s\<lparr>sv_buckets := map (Bucket_UpRoomsCount allRooms) (sv_buckets s)\<rparr>)"

section \<open>The operations of a client\<close>

definition go_string :: "byte list \<Rightarrow> string" where
  "go_string bs = map (\<lambda>x. char_of (unat x)) bs"

definition with_chan :: "ref \<Rightarrow> (chan \<Rightarrow> chan) \<Rightarrow> bucket \<Rightarrow> bucket" where
  "with_chan c f b = b\<lparr>bk_st := upd_chan c f (bk_st b)\<rparr>"

definition Operate :: "logic_answer \<Rightarrow> proto \<Rightarrow> ref \<Rightarrow> bucket \<Rightarrow> (proto \<times> bucket) exec" where
  "Operate ans p c b =
     (let body = go_string (body_bytes p); q = operate_packet ans p in
      if Op p = OpChangeRoom then exec_bind (Bucket_ChangeRoom body c b) (\<lambda>(e, b1). Ret (q, b1))
      else if Op p = OpSub
      then Ret (q, case SplitInt32s body '','' of Inl e \<Rightarrow> b | Inr ops \<Rightarrow> with_chan c (Channel_Watch ops) b)
      else if Op p = OpUnsub
      then Ret (q, case SplitInt32s body '','' of Inl e \<Rightarrow> b | Inr ops \<Rightarrow> with_chan c (Channel_UnWatch ops) b)
      else Ret (q, b))"

section \<open>The calls of other services\<close>

datatype push_answer = Pushed_key | Failed_key | Push_error gerr

definition push_key :: "key_hash \<Rightarrow> i32 \<Rightarrow> proto \<Rightarrow> string \<Rightarrow> server \<Rightarrow> (push_answer \<times> server) exec" where
  "push_key hash op p key s =
     (let i = bucket_index hash s key; b = srv_Bucket hash s key in
      case Bucket_Channel b key of
        None \<Rightarrow> Ret (Failed_key, s)
      | Some c \<Rightarrow>
          if op = OpKickConnection
          then exec_bind (Channel_Close c (bk_st b)) (\<lambda>st. Ret (Pushed_key, put_bucket i (b\<lparr>bk_st := st\<rparr>) s))
          else if \<not> Channel_NeedPush op (st_chan (bk_st b) c) then Ret (Failed_key, s)
          else let (e, st) = Channel_Push p c (bk_st b)
               in case e of
                    Some err \<Rightarrow> Ret (Push_error err, put_bucket i (b\<lparr>bk_st := st\<rparr>) s)
                  | None \<Rightarrow> exec_bind (Channel_Signal c st) (\<lambda>st1. Ret (Pushed_key, put_bucket i (b\<lparr>bk_st := st1\<rparr>) s)))"

fun push_keys :: "key_hash \<Rightarrow> i32 \<Rightarrow> proto \<Rightarrow> string list \<Rightarrow> string list \<Rightarrow> server \<Rightarrow> ((gerr + string list) \<times> server) exec" where
  "push_keys hash op p [] failed s = Ret (Inr failed, s)"
| "push_keys hash op p (k # ks) failed s =
     exec_bind (push_key hash op p k s) (\<lambda>(a, s1).
       case a of
         Pushed_key \<Rightarrow> push_keys hash op p ks failed s1
       | Failed_key \<Rightarrow> push_keys hash op p ks (failed @ [k]) s1
       | Push_error e \<Rightarrow> Ret (Inl e, s1))"

definition cs_PushMsg :: "key_hash \<Rightarrow> string list \<Rightarrow> i32 \<Rightarrow> proto option \<Rightarrow> server \<Rightarrow> ((gerr + string list) \<times> server) exec" where
  "cs_PushMsg hash ks op po s =
     (case po of
        None \<Rightarrow> Ret (Inl (Text ''rpc pushmsg arg error''), s)
      | Some p \<Rightarrow> if ks = [] then Ret (Inl (Text ''rpc pushmsg arg error''), s) else push_keys hash op p ks [] s)"

text \<open>\<open>Broadcast\<close> goes through the buckets in a goroutine of its own: one bucket a turn, then it waits so many seconds.\<close>

definition broadcast_bucket :: "proto \<Rightarrow> i32 \<Rightarrow> ref list \<Rightarrow> nat \<Rightarrow> server \<Rightarrow> server exec" where
  "broadcast_bucket p op order i s =
     exec_bind (Bucket_Broadcast p op order (bk_st (sv_buckets s ! i)))
       (\<lambda>st. Ret (put_bucket i ((sv_buckets s ! i)\<lparr>bk_st := st\<rparr>) s))"

definition broadcast_wait :: "i32 \<Rightarrow> bucket \<Rightarrow> int" where
  "broadcast_wait speed b =
     (if 0 <s speed \<and> 0 < Bucket_ChannelCount b then int (Bucket_ChannelCount b) div sint speed else 0)"

fun room_each :: "string \<times> proto \<Rightarrow> routines list \<Rightarrow> routines list exec" where
  "room_each arg [] = Ret []"
| "room_each arg (r # rs) = exec_bind (bk_BroadcastRoom arg r) (\<lambda>r1. exec_bind (room_each arg rs) (\<lambda>rs1. Ret (r1 # rs1)))"

definition cs_BroadcastRoom :: "string \<Rightarrow> proto option \<Rightarrow> server \<Rightarrow> (gerr option \<times> server) exec" where
  "cs_BroadcastRoom rid po s =
     (case po of
        None \<Rightarrow> Ret (Some (Text ''rpc broadcast  room arg error''), s)
      | Some p \<Rightarrow>
          if rid = [] then Ret (Some (Text ''rpc broadcast  room arg error''), s)
          else exec_bind (room_each (rid, p) (sv_routines s)) (\<lambda>rs. Ret (None, s\<lparr>sv_routines := rs\<rparr>)))"

definition cs_Rooms :: "server \<Rightarrow> string set" where
  "cs_Rooms s = (\<Union>b \<in> set (sv_buckets s). Bucket_Rooms b)"

section \<open>The handshake\<close>

record connect_reply =
  cr_Mid :: i64
  cr_Key :: string
  cr_RoomID :: string
  cr_Accepts :: "i32 list"
  cr_Heartbeat :: int

type_synonym connect = "proto \<Rightarrow> string \<Rightarrow> gerr + connect_reply"

text \<open>Packets are read until one asks for authentication, Logic is asked, and its consent is told to the client.
  The answer of Logic stays known when telling the client fails. Waiting for the packet can last for ever; the
  timer of the handshake then closes the connection, which is an error of \<open>read\<close>.\<close>

definition auth_wait :: "(proto \<Rightarrow> 's \<Rightarrow> (gerr option \<times> proto \<times> 's) exec) \<Rightarrow> proto \<Rightarrow> 's \<Rightarrow> (gerr option \<times> proto \<times> 's) exec" where
  "auth_wait read p s =
     exec_bind (exec_loop (\<lambda>(more, e, p, s). more)
        (\<lambda>(more, e, p, s). exec_bind (read p s) (\<lambda>(e1, p1, s1). Ret (e1 = None \<and> Op p1 \<noteq> OpAuth, e1, p1, s1)))
        (True, None, p, s)) (\<lambda>(more, e, p, s). Ret (e, p, s))"

definition auth :: "(proto \<Rightarrow> 's \<Rightarrow> (gerr option \<times> proto \<times> 's) exec) \<Rightarrow> (proto \<Rightarrow> 's \<Rightarrow> (gerr option \<times> 's) exec) \<Rightarrow>
    ('s \<Rightarrow> (gerr option \<times> 's) exec) \<Rightarrow> connect \<Rightarrow> string \<Rightarrow> proto \<Rightarrow> 's \<Rightarrow>
    ((gerr option \<times> connect_reply option) \<times> proto \<times> 's) exec" where
  "auth read write flush connect cookie p s =
     exec_bind (auth_wait read p s) (\<lambda>(e, p1, s1).
       case e of
         Some err \<Rightarrow> Ret ((Some err, None), p1, s1)
       | None \<Rightarrow>
           (case connect p1 cookie of
              Inl err \<Rightarrow> Ret ((Some err, None), p1, s1)
            | Inr reply \<Rightarrow>
                let p2 = p1\<lparr>Op := OpAuthReply, Body := None\<rparr>
                in exec_bind (write p2 s1) (\<lambda>(e2, s2).
                     case e2 of
                       Some err \<Rightarrow> Ret ((Some err, Some reply), p2, s2)
                     | None \<Rightarrow> exec_bind (flush s2) (\<lambda>(e3, s3). Ret ((e3, Some reply), p2, s3)))))"

definition authTCP :: "'r rd_fun \<Rightarrow> 'w wr_fun \<Rightarrow> connect \<Rightarrow> proto \<Rightarrow> 'r bufr \<times> 'w bufw \<Rightarrow>
    ((gerr option \<times> connect_reply option) \<times> proto \<times> 'r bufr \<times> 'w bufw) exec" where
  "authTCP rd wr connect p =
     auth (\<lambda>p (r, w). exec_bind (ReadTCP rd p r) (\<lambda>(e, p1, r1). Ret (e, p1, (r1, w))))
          (\<lambda>p (r, w). exec_bind (WriteTCP wr p w) (\<lambda>(e, w1). Ret (e, (r, w1))))
          (\<lambda>(r, w). exec_bind (w_Flush wr w) (\<lambda>(e, w1). Ret (e, (r, w1)))) connect [] p"

definition authWebsocket :: "'r rd_fun \<Rightarrow> 'w wr_fun \<Rightarrow> (nat \<Rightarrow> nat \<Rightarrow> nat) \<Rightarrow> connect \<Rightarrow> string \<Rightarrow> proto \<Rightarrow> ('r, 'w) ws_conn \<Rightarrow>
    ((gerr option \<times> connect_reply option) \<times> proto \<times> ('r, 'w) ws_conn) exec" where
  "authWebsocket rd wr room connect cookie p =
     auth (ReadWebsocket rd wr room)
          (\<lambda>p c. exec_bind (WriteWebsocket wr p (ws_w c)) (\<lambda>(e, w1). Ret (e, c\<lparr>ws_w := w1\<rparr>)))
          (\<lambda>c. exec_bind (w_Flush wr (ws_w c)) (\<lambda>(e, w1). Ret (e, c\<lparr>ws_w := w1\<rparr>))) connect cookie p"

text \<open>What both do with the outcome: the channel \<open>c\<close>, fresh from its pool, gets its names and goes into its bucket.
  The last part says whether Logic has a session that nobody will end.\<close>

definition register :: "key_hash \<Rightarrow> int \<Rightarrow> string \<Rightarrow> ref \<Rightarrow> gerr option \<times> connect_reply option \<Rightarrow> server \<Rightarrow>
    (gerr option \<times> server \<times> bool) exec" where
  "register hash svr ip c res s =
     (case res of
        (Some e, reply) \<Rightarrow> Ret (Some e, s, reply \<noteq> None)
      | (None, None) \<Rightarrow> Ret (None, s, False)
      | (None, Some reply) \<Rightarrow>
          let i = bucket_index hash s (cr_Key reply);
              b = with_chan c (\<lambda>ch. Channel_Watch (cr_Accepts reply)
                    ((Channel_Reset svr ch)\<lparr>ch_Mid := cr_Mid reply, ch_Key := cr_Key reply, ch_IP := ip\<rparr>)) (sv_buckets s ! i)
          in exec_bind (Bucket_Put (cr_RoomID reply) c b) (\<lambda>(e, b1). Ret (e, put_bucket i b1 s, e \<noteq> None)))"

section \<open>Pools and lists\<close>

record round =
  rd_readers :: "byte_pool list"
  rd_writers :: "byte_pool list"
  rd_timers :: nat

fun new_pools :: "nat \<Rightarrow> int \<Rightarrow> int \<Rightarrow> byte_pool list exec" where
  "new_pools 0 num size1 = Ret []"
| "new_pools (Suc n) num size1 = exec_bind (NewPool num size1) (\<lambda>p. exec_bind (new_pools n num size1) (\<lambda>ps. Ret (p # ps)))"

definition NewRound :: "nat \<Rightarrow> int \<Rightarrow> int \<Rightarrow> nat \<Rightarrow> int \<Rightarrow> int \<Rightarrow> nat \<Rightarrow> round exec" where
  "NewRound readers readBuf readBufSize writers writeBuf writeBufSize timers =
     exec_bind (new_pools readers readBuf readBufSize) (\<lambda>rs.
     exec_bind (new_pools writers writeBuf writeBufSize) (\<lambda>ws.
       Ret \<lparr>rd_readers = rs, rd_writers = ws, rd_timers = timers\<rparr>))"

definition round_index :: "nat \<Rightarrow> nat \<Rightarrow> nat exec" where
  "round_index rn n = (if n = 0 then Panic ''integer divide by zero'' else Ret (rn mod n))"

definition round_Timer :: "round \<Rightarrow> nat \<Rightarrow> nat exec" where "round_Timer r rn = round_index rn (rd_timers r)"
definition round_Reader :: "round \<Rightarrow> nat \<Rightarrow> nat exec" where "round_Reader r rn = round_index rn (length (rd_readers r))"
definition round_Writer :: "round \<Rightarrow> nat \<Rightarrow> nat exec" where "round_Writer r rn = round_index rn (length (rd_writers r))"

text \<open>\<open>acceptTCP\<close> numbers its connections.\<close>

definition maxInt :: int where "maxInt = 2 ^ 31 - 1"

definition next_conn :: "int \<Rightarrow> int" where
  "next_conn r = (if r + 1 = maxInt then 0 else r + 1)"

definition whitelist_Contains :: "i64 set option \<Rightarrow> i64 \<Rightarrow> bool" where
  "whitelist_Contains w mid = (case w of None \<Rightarrow> False | Some l \<Rightarrow> 0 <s mid \<and> mid \<in> l)"

section \<open>Whom a push reaches\<close>

text \<open>The connection of a key, and whether it asked for the operation.\<close>

definition conn_of :: "key_hash \<Rightarrow> server \<Rightarrow> string \<Rightarrow> ref option" where
  "conn_of hash s key = Bucket_Channel (srv_Bucket hash s key) key"

definition chan_of :: "key_hash \<Rightarrow> server \<Rightarrow> string \<Rightarrow> ref \<Rightarrow> chan" where
  "chan_of hash s key c = st_chan (bk_st (srv_Bucket hash s key)) c"

definition wants :: "key_hash \<Rightarrow> server \<Rightarrow> i32 \<Rightarrow> string \<Rightarrow> bool" where
  "wants hash s op key \<longleftrightarrow> (\<exists>c. conn_of hash s key = Some c \<and> Channel_NeedPush op (chan_of hash s key c))"

definition own_conns :: "key_hash \<Rightarrow> server \<Rightarrow> bool" where
  "own_conns hash s \<longleftrightarrow> sv_buckets s \<noteq> [] \<and>
     (\<forall>k1 k2 c. k1 \<noteq> k2 \<longrightarrow> bucket_index hash s k1 = bucket_index hash s k2 \<longrightarrow> conn_of hash s k1 = Some c \<longrightarrow> conn_of hash s k2 \<noteq> Some c)"

lemma bucket_index_less: "sv_buckets s \<noteq> [] \<Longrightarrow> length (sv_buckets s) < 2 ^ 32 \<Longrightarrow> bucket_index hash s key < length (sv_buckets s)"
  by (simp add: bucket_index_def unat_mod unat_of_nat)

text \<open>A push that is not a kick either fails, or leaves the packet and the signal with the connection, and changes
  nothing else.\<close>

definition pushed_to :: "key_hash \<Rightarrow> proto \<Rightarrow> string \<Rightarrow> server \<Rightarrow> server \<Rightarrow> bool" where
  "pushed_to hash p key s s' \<longleftrightarrow> (\<exists>c q. conn_of hash s key = Some c \<and> fst (pq_Push (ch_sig (chan_of hash s key c)) p) = None
     \<and> deliver p (ch_sig (chan_of hash s key c)) = Some q
     \<and> s' = put_bucket (bucket_index hash s key) (with_chan c (ch_sig_update (\<lambda>_. q)) (srv_Bucket hash s key)) s)"

lemma push_key_cases:
  assumes "op \<noteq> OpKickConnection" "push_key hash op p key s = Ret (a, s')"
  shows "(a = Failed_key \<longleftrightarrow> \<not> wants hash s op key) \<and> (a = Failed_key \<longrightarrow> s' = s) \<and> (a = Pushed_key \<longrightarrow> pushed_to hash p key s s')"
proof (cases "conn_of hash s key")
  case None
  then show ?thesis using assms by (simp add: push_key_def conn_of_def wants_def Let_def)
next
  case (Some c)
  let ?b = "srv_Bucket hash s key"
  obtain e q where q: "pq_Push (ch_sig (st_chan (bk_st ?b) c)) p = (e, q)" by fastforce
  show ?thesis
  proof (cases "Channel_NeedPush op (st_chan (bk_st ?b) c)")
    case False
    then show ?thesis using Some assms by (simp add: push_key_def conn_of_def wants_def chan_of_def Let_def)
  next
    case True
    then have w: "wants hash s op key" using Some by (auto simp: wants_def chan_of_def)
    show ?thesis
    proof (cases e)
      case (Some err)
      then show ?thesis using w q True assms \<open>conn_of hash s key = Some c\<close>
        by (auto simp: push_key_def conn_of_def Channel_Push_def Let_def)
    next
      case None
      then show ?thesis using w q True assms Some
        by (auto simp: push_key_def conn_of_def chan_of_def Channel_Push_def Let_def pushed_to_def deliver_def with_chan_def
            Channel_Signal_def Channel_send_high_def exec_bind_eq_Ret_iff upd_chan_def comp_def split: option.splits)
    qed
  qed
qed

lemma pushed_to_frame:
  assumes "pushed_to hash p key s s'" "own_conns hash s" "length (sv_buckets s) < 2 ^ 32"
  shows "own_conns hash s'" "length (sv_buckets s') = length (sv_buckets s)" "conn_of hash s' = conn_of hash s"
    "wants hash s' op = wants hash s op" "k \<noteq> key \<Longrightarrow> conn_of hash s k = Some c \<Longrightarrow> chan_of hash s' k c = chan_of hash s k c"
proof -
  obtain c' q where c': "conn_of hash s key = Some c'"
    "s' = put_bucket (bucket_index hash s key) (with_chan c' (ch_sig_update (\<lambda>_. q)) (srv_Bucket hash s key)) s"
    using assms(1) by (auto simp: pushed_to_def)
  have i: "bucket_index hash s x < length (sv_buckets s)" for x
    using bucket_index_less assms(2,3) by (simp add: own_conns_def)
  have ix: "bucket_index hash s' = bucket_index hash s" "length (sv_buckets s') = length (sv_buckets s)"
    by (auto simp: bucket_index_def c'(2) put_bucket_def fun_eq_iff)
  have sv: "sv_buckets s' = (sv_buckets s)[bucket_index hash s key := with_chan c' (ch_sig_update (\<lambda>_. q)) (srv_Bucket hash s key)]"
    by (simp add: c'(2) put_bucket_def)
  have b: "srv_Bucket hash s' x = (if bucket_index hash s x = bucket_index hash s key
      then with_chan c' (ch_sig_update (\<lambda>_. q)) (srv_Bucket hash s x) else srv_Bucket hash s x)" for x
    using i [of x] by (simp add: srv_Bucket_def ix(1) sv nth_list_update)
  show co: "conn_of hash s' = conn_of hash s"
    by (auto simp: fun_eq_iff conn_of_def b with_chan_def Bucket_Channel_def)
  show "length (sv_buckets s') = length (sv_buckets s)" by (rule ix)
  then have "sv_buckets s' \<noteq> []" using assms(2) by (auto simp: own_conns_def)
  then show "own_conns hash s'" using assms(2) by (auto simp: own_conns_def ix co)
  have ch: "ch_watchOps (chan_of hash s' x c) = ch_watchOps (chan_of hash s x c)" for x c
    by (auto simp: chan_of_def b with_chan_def upd_chan_def)
  show "wants hash s' op = wants hash s op" by (auto simp: fun_eq_iff wants_def co ch Channel_NeedPush_def)
  assume "k \<noteq> key" "conn_of hash s k = Some c"
  then show "chan_of hash s' k c = chan_of hash s k c"
    using c'(1) assms(2) unfolding own_conns_def by (auto simp: chan_of_def b with_chan_def upd_chan_def)
qed

lemma push_keys_spec:
  assumes "op \<noteq> OpKickConnection" "push_keys hash op p ks failed s = Ret (Inr failed', s')"
    "own_conns hash s" "length (sv_buckets s) < 2 ^ 32" "distinct ks"
  shows "failed' = failed @ filter (\<lambda>k. \<not> wants hash s op k) ks
    \<and> (\<forall>k c. conn_of hash s k = Some c \<longrightarrow> k \<notin> set ks \<longrightarrow> chan_of hash s' k c = chan_of hash s k c)
    \<and> (\<forall>k \<in> set ks. wants hash s op k \<longrightarrow> (\<exists>c q. conn_of hash s k = Some c \<and> deliver p (ch_sig (chan_of hash s k c)) = Some q
         \<and> fst (pq_Push (ch_sig (chan_of hash s k c)) p) = None \<and> ch_sig (chan_of hash s' k c) = q))"
  using assms
proof (induction ks arbitrary: s failed)
  case (Cons k ks)
  obtain as1 where as1: "push_key hash op p k s = Ret as1" using Cons.prems(2) unfolding push_keys.simps(2) exec_bind_eq_Ret_iff by blast
  obtain a s1 where e: "as1 = (a, s1)" by (cases as1)
  have a: "push_key hash op p k s = Ret (a, s1)" "\<forall>x. a \<noteq> Push_error x" using as1 e Cons.prems(2) by auto
  have cases: "a = Failed_key \<longleftrightarrow> \<not> wants hash s op k" "a = Failed_key \<longrightarrow> s1 = s" "a = Pushed_key \<longrightarrow> pushed_to hash p k s s1"
    using push_key_cases [OF Cons.prems(1) a(1)] by auto
  show ?case
  proof (cases a)
    case Failed_key
    then have "s1 = s" "\<not> wants hash s op k" using cases by auto
    moreover have "push_keys hash op p ks (failed @ [k]) s = Ret (Inr failed', s')"
      using Cons.prems(2) a(1) Failed_key \<open>s1 = s\<close> by simp
    moreover from Cons.IH [OF Cons.prems(1) this Cons.prems(3,4)] Cons.prems(5)
    have "failed' = (failed @ [k]) @ filter (\<lambda>k. \<not> wants hash s op k) ks" by simp
    ultimately show ?thesis using Cons.IH [OF Cons.prems(1) _ Cons.prems(3,4), of "failed @ [k]"] Cons.prems(5) by auto
  next
    case Pushed_key
    then have w: "wants hash s op k" and pt: "pushed_to hash p k s s1" using cases by auto
    note fr = pushed_to_frame [OF pt Cons.prems(3,4)]
    have "push_keys hash op p ks failed s1 = Ret (Inr failed', s')" using Cons.prems(2) a(1) Pushed_key by simp
    note ih = Cons.IH [OF Cons.prems(1) this fr(1)]
    have ih1: "failed' = failed @ filter (\<lambda>k. \<not> wants hash s op k) ks"
      "conn_of hash s x = Some c \<Longrightarrow> x \<notin> set ks \<Longrightarrow> chan_of hash s' x c = chan_of hash s1 x c"
      "x \<in> set ks \<Longrightarrow> wants hash s op x \<Longrightarrow> (\<exists>c q. conn_of hash s x = Some c \<and> deliver p (ch_sig (chan_of hash s1 x c)) = Some q
         \<and> fst (pq_Push (ch_sig (chan_of hash s1 x c)) p) = None \<and> ch_sig (chan_of hash s' x c) = q)" for x c
      using ih fr(2-4) Cons.prems(4,5) by auto
    obtain c q where c: "conn_of hash s k = Some c" "fst (pq_Push (ch_sig (chan_of hash s k c)) p) = None"
      "deliver p (ch_sig (chan_of hash s k c)) = Some q"
      "s1 = put_bucket (bucket_index hash s k) (with_chan c (ch_sig_update (\<lambda>_. q)) (srv_Bucket hash s k)) s"
      using pt by (auto simp: pushed_to_def)
    have "bucket_index hash s k < length (sv_buckets s)" using bucket_index_less Cons.prems(3,4) by (simp add: own_conns_def)
    then have "ch_sig (chan_of hash s1 k c) = q"
      by (simp add: chan_of_def srv_Bucket_def c(4) put_bucket_def with_chan_def bucket_index_def upd_chan_def)
    then have "ch_sig (chan_of hash s' k c) = q" using ih1(2) [OF c(1)] Cons.prems(5) by simp
    have same: "chan_of hash s1 x c = chan_of hash s x c" if "x \<noteq> k" "conn_of hash s x = Some c" for x c
      using fr(5) that by simp
    have "\<exists>c q. conn_of hash s x = Some c \<and> deliver p (ch_sig (chan_of hash s x c)) = Some q
         \<and> fst (pq_Push (ch_sig (chan_of hash s x c)) p) = None \<and> ch_sig (chan_of hash s' x c) = q"
      if "x \<in> set (k # ks)" "wants hash s op x" for x
    proof (cases "x = k")
      case True
      then show ?thesis using c \<open>ch_sig (chan_of hash s' k c) = q\<close> by blast
    next
      case False
      then show ?thesis using ih1(3) [of x] same [OF False] that by auto
    qed
    moreover have "chan_of hash s' x c = chan_of hash s x c" if "conn_of hash s x = Some c" "x \<notin> set (k # ks)" for x c
      using ih1(2) [OF that(1)] same that by simp
    ultimately show ?thesis using ih1(1) w by simp
  qed (use a in simp)
qed simp

text \<open>Property C31. When \<open>PushMsg\<close> answers without an error, the keys it reports as failed are exactly those
  without a connection that asked for the operation; each other connection got the packet, with the signal for
  its writer, and no other connection changed.\<close>

theorem PushMsg_reaches:
  assumes "op \<noteq> OpKickConnection" and "cs_PushMsg hash ks op (Some p) s = Ret (Inr failed, s')"
    and "own_conns hash s" and "length (sv_buckets s) < 2 ^ 32" and "distinct ks"
  shows "failed = filter (\<lambda>k. \<not> wants hash s op k) ks
    \<and> (\<forall>k c. conn_of hash s k = Some c \<longrightarrow> k \<notin> set ks \<longrightarrow> chan_of hash s' k c = chan_of hash s k c)
    \<and> (\<forall>k \<in> set ks. wants hash s op k \<longrightarrow> (\<exists>c q. conn_of hash s k = Some c \<and> deliver p (ch_sig (chan_of hash s k c)) = Some q
         \<and> fst (pq_Push (ch_sig (chan_of hash s k c)) p) = None \<and> ch_sig (chan_of hash s' k c) = q))"
proof -
  have "push_keys hash op p ks [] s = Ret (Inr failed, s')" using assms(2) by (simp add: cs_PushMsg_def split: if_splits)
  then show ?thesis using push_keys_spec [OF assms(1) _ assms(3-5)] by fastforce
qed

section \<open>From the handshake to a push\<close>

lemma Room_Put_sig: "ch_sig (st_chan (snd (Room_Put r c st)) x) = ch_sig (st_chan st x)"
  "ch_watchOps (st_chan (snd (Room_Put r c st)) x) = ch_watchOps (st_chan st x)"
  by (auto simp: Room_Put_def Let_def split: option.splits)

lemma get_room_chans: "get_room rid b = (r, b1) \<Longrightarrow> bk_chs b1 = bk_chs b \<and> st_chan (bk_st b1) = st_chan (bk_st b)"
  by (auto simp: get_room_def Let_def split: option.splits)

lemma Bucket_Put_new:
  assumes "bk_chs b (ch_Key (st_chan (bk_st b) c)) = None" "Bucket_Put rid c b = Ret (e, b')"
  shows "bk_chs b' = (bk_chs b)(ch_Key (st_chan (bk_st b) c) \<mapsto> c) \<and> ch_sig (st_chan (bk_st b') c) = ch_sig (st_chan (bk_st b) c)
    \<and> ch_watchOps (st_chan (bk_st b') c) = ch_watchOps (st_chan (bk_st b) c)"
proof (cases "rid = []")
  case True
  then show ?thesis using assms by (auto simp: Bucket_Put_def Let_def)
next
  case False
  let ?b1 = "b\<lparr>bk_chs := (bk_chs b)(ch_Key (st_chan (bk_st b) c) \<mapsto> c)\<rparr>"
  obtain r b2 where g: "get_room rid ?b1 = (r, b2)" by fastforce
  let ?st = "upd_chan c (ch_Room_update (\<lambda>_. Some r)) (bk_st b2)"
  obtain e1 st where p: "Room_Put r c ?st = (e1, st)" by fastforce
  have "bk_chs b' = bk_chs b2" "bk_st b' = st" using False assms g p by (auto simp: Bucket_Put_def Let_def)
  moreover have "ch_sig (st_chan st c) = ch_sig (st_chan ?st c)" "ch_watchOps (st_chan st c) = ch_watchOps (st_chan ?st c)"
    using Room_Put_sig [of r c ?st c] p by simp_all
  ultimately show ?thesis using get_room_chans [OF g] by simp
qed

lemma fresh_queue:
  assumes "\<not> isHighPriority (Op p)"
  shows "\<exists>q. deliver p (pq_Reset svr (svr * 8)) = Some q \<and> fst (pq_Push (pq_Reset svr (svr * 8)) p) = None
    \<and> gc_items (pq_normal q) = [p] \<and> gc_items (pq_high q) = [ProtoReady]"
proof -
  obtain h n where "pq_Reset svr (svr * 8) = \<lparr>pq_high = \<lparr>gc_items = [], gc_cap = Suc h\<rparr>, pq_normal = \<lparr>gc_items = [], gc_cap = Suc n\<rparr>\<rparr>"
    by (rule that [of "(if svr \<le> 0 then 1 else nat svr) - 1" "(if svr \<le> 0 then 1 else nat (svr * 8)) - 1"])
      (auto simp: pq_Reset_def make_chan_def)
  then show ?thesis using assms by (simp add: deliver_def pq_Push_def chan_send_def)
qed

lemma push_key_ok:
  assumes "Bucket_Channel (srv_Bucket hash s key) key = Some c" "op \<noteq> OpKickConnection"
    "Channel_NeedPush op (st_chan (bk_st (srv_Bucket hash s key)) c)"
    "fst (pq_Push (ch_sig (st_chan (bk_st (srv_Bucket hash s key)) c)) p) = None"
    "deliver p (ch_sig (st_chan (bk_st (srv_Bucket hash s key)) c)) = Some q"
  shows "push_key hash op p key s
    = Ret (Pushed_key, put_bucket (bucket_index hash s key) (with_chan c (ch_sig_update (\<lambda>_. q)) (srv_Bucket hash s key)) s)"
  using assms by (cases "pq_Push (ch_sig (st_chan (bk_st (srv_Bucket hash s key)) c)) p")
    (auto simp: push_key_def Channel_Push_def Let_def deliver_def with_chan_def Channel_Signal_def Channel_send_high_def
      upd_chan_def comp_def split: option.splits)

text \<open>Property C32. A client whose handshake succeeded is found by its key: a push of an operation it asked for is
  not refused, and afterwards the packet waits for its writer, with a signal.\<close>

theorem connected_gets_push:
  assumes "register hash svr ip c (None, Some reply) s = Ret (None, s1, lost)"
    and "sv_buckets s \<noteq> []" and "length (sv_buckets s) < 2 ^ 32" and "conn_of hash s (cr_Key reply) = None"
    and "op \<in> set (cr_Accepts reply)" and "op \<noteq> OpKickConnection" and "\<not> isHighPriority (Op p)"
  shows "\<exists>s2. cs_PushMsg hash [cr_Key reply] op (Some p) s1 = Ret (Inr [], s2)
    \<and> conn_of hash s2 (cr_Key reply) = Some c
    \<and> gc_items (pq_normal (ch_sig (chan_of hash s2 (cr_Key reply) c))) = [p]
    \<and> gc_items (pq_high (ch_sig (chan_of hash s2 (cr_Key reply) c))) = [ProtoReady]"
proof -
  let ?key = "cr_Key reply" and ?i = "bucket_index hash s (cr_Key reply)"
  let ?b = "with_chan c (\<lambda>ch. Channel_Watch (cr_Accepts reply)
    ((Channel_Reset svr ch)\<lparr>ch_Mid := cr_Mid reply, ch_Key := ?key, ch_IP := ip\<rparr>)) (sv_buckets s ! ?i)"
  obtain b1 where b1: "Bucket_Put (cr_RoomID reply) c ?b = Ret (None, b1)" "s1 = put_bucket ?i b1 s"
    using assms(1) by (auto simp: register_def Let_def exec_bind_eq_Ret_iff)
  have k: "ch_Key (st_chan (bk_st ?b) c) = ?key" "ch_sig (st_chan (bk_st ?b) c) = pq_Reset svr (svr * 8)"
    "ch_watchOps (st_chan (bk_st ?b) c) = set (cr_Accepts reply)"
    by (simp_all add: with_chan_def Channel_Watch_def Channel_Reset_def)
  have "bk_chs ?b ?key = None" using assms(4) by (simp add: with_chan_def conn_of_def Bucket_Channel_def srv_Bucket_def)
  then have put: "bk_chs b1 ?key = Some c" "ch_sig (st_chan (bk_st b1) c) = pq_Reset svr (svr * 8)"
    "ch_watchOps (st_chan (bk_st b1) c) = set (cr_Accepts reply)"
    using Bucket_Put_new [of ?b c "cr_RoomID reply" None b1] b1(1) k by simp_all
  have i: "?i < length (sv_buckets s)" by (rule bucket_index_less [OF assms(2,3)])
  have ix: "bucket_index hash (put_bucket j b' s') = bucket_index hash s'" for j b' s'
    by (auto simp: bucket_index_def put_bucket_def fun_eq_iff)
  have sb: "srv_Bucket hash s1 ?key = b1" "bucket_index hash s1 = bucket_index hash s" "length (sv_buckets s1) = length (sv_buckets s)"
    using i by (auto simp: srv_Bucket_def b1(2) ix) (simp_all add: put_bucket_def)
  then have nth: "sv_buckets s1 ! ?i = b1" by (simp add: srv_Bucket_def)
  obtain q where q: "deliver p (pq_Reset svr (svr * 8)) = Some q" "fst (pq_Push (pq_Reset svr (svr * 8)) p) = None"
    "gc_items (pq_normal q) = [p]" "gc_items (pq_high q) = [ProtoReady]"
    using fresh_queue [OF assms(7), of svr] by blast
  let ?b2 = "with_chan c (ch_sig_update (\<lambda>_. q)) b1"
  have "push_key hash op p ?key s1 = Ret (Pushed_key, put_bucket ?i ?b2 s1)"
    using push_key_ok [of hash s1 ?key c op p q] q put assms(5,6) by (simp add: sb nth Bucket_Channel_def Channel_NeedPush_def)
  then have "cs_PushMsg hash [?key] op (Some p) s1 = Ret (Inr [], put_bucket ?i ?b2 s1)" by (simp add: cs_PushMsg_def)
  moreover have "srv_Bucket hash (put_bucket ?i ?b2 s1) ?key = ?b2"
    using i sb(2,3) by (simp add: srv_Bucket_def ix) (simp add: put_bucket_def)
  ultimately show ?thesis using q(3,4) put(1)
    by (intro exI [of _ "put_bucket ?i ?b2 s1"]) (simp add: conn_of_def chan_of_def with_chan_def Bucket_Channel_def upd_chan_def)
qed

section \<open>Messages of a room can overtake each other\<close>

text \<open>Property C33. The messages of a room are spread over the bucket's queues, each with a goroutine of its own: with
  more than one queue, the message broadcast second can be pushed to the members of the room while the first still waits.\<close>

theorem room_messages_overtake:
  assumes "rt_chans rt = replicate n (make_chan k)" and "1 < n" and "n < 2 ^ 64" and "0 < k" and "unat (rt_num rt) < 2 ^ 64 - 2"
  shows "\<exists>rt1 rt2 rt3 i j. bk_BroadcastRoom (rid, p1) rt = Ret rt1 \<and> bk_BroadcastRoom (rid, p2) rt1 = Ret rt2 \<and> i \<noteq> j
    \<and> roomproc_turn j (b, rt2) = Some (exec_bind (roomproc_step b rid p2) (\<lambda>b1. Ret (b1, rt3)))
    \<and> gc_items (rt_chans rt3 ! i) = [(rid, p1)]"
proof -
  let ?n = "rt_num rt" and ?N = "of_nat n :: i64"
  have N: "unat ?N = n" using assms(3) by (simp add: unat_of_nat)
  define i where "i = unat ((?n + 1) mod ?N)"
  define j where "j = unat ((?n + 2) mod ?N)"
  have u: "unat (?n + 1) = unat ?n + 1" "unat (?n + 2) = unat ?n + 2"
    using assms(5) by (auto simp: unat_word_ariths)
  have ij: "i = (unat ?n + 1) mod n" "j = (unat ?n + 2) mod n"
    unfolding i_def j_def by (simp_all add: unat_mod N u)
  have lt: "i < n" "j < n" using assms(2) unfolding ij by simp_all
  have ne: "i \<noteq> j"
  proof
    assume "i = j"
    then have "Suc (unat ?n + 1) mod n = (unat ?n + 1) mod n" unfolding ij by simp
    then show False using assms(2) by (simp add: mod_Suc split: if_splits)
  qed
  let ?rt1 = "\<lparr>rt_num = ?n + 1, rt_chans = (rt_chans rt)[i := (make_chan k)\<lparr>gc_items := [(rid, p1)]\<rparr>]\<rparr>"
  let ?rt2 = "\<lparr>rt_num = ?n + 2, rt_chans = (rt_chans ?rt1)[j := (make_chan k)\<lparr>gc_items := [(rid, p2)]\<rparr>]\<rparr>"
  have e: "rt_chans rt \<noteq> []" "length (rt_chans rt) = n" using assms(1,2) by auto
  have b1: "bk_BroadcastRoom (rid, p1) rt = Ret ?rt1"
    using e lt assms(1,4) by (simp add: bk_BroadcastRoom_def Let_def i_def [symmetric] chan_send_def make_chan_def)
  have b2: "bk_BroadcastRoom (rid, p2) ?rt1 = Ret ?rt2"
    using e lt ne assms(1,4) by (simp add: bk_BroadcastRoom_def Let_def j_def [symmetric] chan_send_def make_chan_def add.assoc)
  have r: "(rt_chans ?rt1)[j := make_chan k] = rt_chans ?rt1"
    using lt ne assms(1) by (simp add: list_update_same_conv)
  have "roomproc_turn j (b, ?rt2) = Some (exec_bind (roomproc_step b rid p2) (\<lambda>b1. Ret (b1, ?rt2\<lparr>rt_chans := rt_chans ?rt1\<rparr>)))"
    using e lt ne r by (simp add: roomproc_turn_def chan_recv_def make_chan_def)
  moreover have "gc_items (rt_chans (?rt2\<lparr>rt_chans := rt_chans ?rt1\<rparr>) ! i) = [(rid, p1)]" using e(2) lt by simp
  ultimately show ?thesis using b1 b2 ne by (intro exI conjI) (assumption+)
qed

theorem room_messages_overtake_witness:
  "\<exists>rt1 rt2 rt3 i j. bk_BroadcastRoom (''r1'', ProtoReady) \<lparr>rt_num = 0, rt_chans = replicate 2 (make_chan 1)\<rparr> = Ret rt1
    \<and> bk_BroadcastRoom (''r1'', ProtoFinish) rt1 = Ret rt2 \<and> i \<noteq> j
    \<and> roomproc_turn j (demo_bucket, rt2) = Some (exec_bind (roomproc_step demo_bucket ''r1'' ProtoFinish) (\<lambda>b1. Ret (b1, rt3)))
    \<and> gc_items (rt_chans rt3 ! i) = [(''r1'', ProtoReady)]"
  by (rule room_messages_overtake [of _ 2 1]) simp_all

section \<open>An example server\<close>

definition demo_server :: server where
  "demo_server = \<lparr>sv_id = ''c1'', sv_buckets = [demo_bucket], sv_routines = []\<rparr>"

definition demo_note :: proto where
  "demo_note = \<lparr>Ver = 1, Op = OpRaw, Seq = 0, Body = Some [7]\<rparr>"

definition demo_reply :: connect_reply where
  "demo_reply = \<lparr>cr_Mid = 5, cr_Key = ''k9'', cr_RoomID = [], cr_Accepts = [1000], cr_Heartbeat = 60\<rparr>"

lemma demo_push_low: "\<not> isHighPriority (Op demo_note)"
  by (simp add: demo_note_def isHighPriority_def OpRaw_def OpProtoReady_def OpProtoFinish_def OpHeartbeatReply_def
      OpPushMsgAck_def OpSyncReply_def OpSendMsgAck_def)

theorem connected_gets_push_witness:
  "\<exists>s1 s2. register (\<lambda>_. 0) 10 ''ip'' 7 (None, Some demo_reply) demo_server = Ret (None, s1, False)
    \<and> cs_PushMsg (\<lambda>_. 0) [''k9''] 1000 (Some demo_note) s1 = Ret (Inr [], s2)
    \<and> gc_items (pq_normal (ch_sig (chan_of (\<lambda>_. 0) s2 ''k9'' 7))) = [demo_note]"
proof -
  have none: "bk_chs demo_bucket ''k9'' = None" by (simp add: demo_bucket_def)
  have "\<exists>s1. register (\<lambda>_. 0) 10 ''ip'' 7 (None, Some demo_reply) demo_server = Ret (None, s1, False)"
    using none by (simp add: register_def demo_reply_def demo_server_def bucket_index_def Let_def Bucket_Put_def with_chan_def
        Channel_Watch_def Channel_Reset_def)
  then obtain s1 where r: "register (\<lambda>_. 0) 10 ''ip'' 7 (None, Some demo_reply) demo_server = Ret (None, s1, False)" by blast
  have "conn_of (\<lambda>_. 0) demo_server (cr_Key demo_reply) = None"
    using none by (simp add: conn_of_def srv_Bucket_def bucket_index_def demo_server_def Bucket_Channel_def demo_reply_def)
  moreover have "sv_buckets demo_server \<noteq> []" "length (sv_buckets demo_server) < 2 ^ 32" "1000 \<in> set (cr_Accepts demo_reply)"
    "(1000 :: i32) \<noteq> OpKickConnection" by (simp_all add: demo_server_def demo_reply_def OpKickConnection_def)
  ultimately have "\<exists>s2. cs_PushMsg (\<lambda>_. 0) [cr_Key demo_reply] 1000 (Some demo_note) s1 = Ret (Inr [], s2)
      \<and> conn_of (\<lambda>_. 0) s2 (cr_Key demo_reply) = Some 7
      \<and> gc_items (pq_normal (ch_sig (chan_of (\<lambda>_. 0) s2 (cr_Key demo_reply) 7))) = [demo_note]
      \<and> gc_items (pq_high (ch_sig (chan_of (\<lambda>_. 0) s2 (cr_Key demo_reply) 7))) = [ProtoReady]"
    using connected_gets_push [OF r _ _ _ _ _ demo_push_low] by blast
  then show ?thesis using r by (auto simp: demo_reply_def)
qed

definition demo_watching :: server where
  "demo_watching = put_bucket 0 (with_chan 0 (Channel_Watch [1000]) demo_bucket) demo_server"

lemma demo_own_conns: "own_conns (\<lambda>_. 0) demo_watching"
  by (auto simp: own_conns_def demo_watching_def put_bucket_def with_chan_def demo_server_def conn_of_def srv_Bucket_def
      bucket_index_def Bucket_Channel_def demo_bucket_def split: if_splits)

theorem PushMsg_reaches_witness:
  "\<exists>s'. cs_PushMsg (\<lambda>_. 0) [''k0'', ''k1''] 1000 (Some demo_note) demo_watching = Ret (Inr [''k1''], s')
    \<and> chan_of (\<lambda>_. 0) s' ''k2'' 2 = chan_of (\<lambda>_. 0) demo_watching ''k2'' 2"
proof -
  obtain q where q: "deliver demo_note (pq_Reset 2 (2 * 8)) = Some q" "fst (pq_Push (pq_Reset 2 (2 * 8)) demo_note) = None"
    using fresh_queue [OF demo_push_low, of 2] by blast
  let ?b = "with_chan 0 (Channel_Watch [1000]) demo_bucket"
  have b: "srv_Bucket (\<lambda>_. 0) demo_watching k = ?b" "bucket_index (\<lambda>_. 0) demo_watching k = 0" for k
    by (simp_all add: srv_Bucket_def bucket_index_def demo_watching_def put_bucket_def demo_server_def)
  have kick: "(1000 :: i32) \<noteq> OpKickConnection" by (simp add: OpKickConnection_def)
  have "push_key (\<lambda>_. 0) 1000 demo_note ''k0'' demo_watching
      = Ret (Pushed_key, put_bucket 0 (with_chan 0 (ch_sig_update (\<lambda>_. q)) ?b) demo_watching)"
    using push_key_ok [of "\<lambda>_. 0" demo_watching "''k0''" 0 1000 demo_note q] q kick unfolding b
    by (simp add: Bucket_Channel_def with_chan_def demo_bucket_def demo_chan_def Channel_NeedPush_def Channel_Watch_def)
  moreover have "push_key (\<lambda>_. 0) 1000 demo_note ''k1'' (put_bucket 0 (with_chan 0 (ch_sig_update (\<lambda>_. q)) ?b) demo_watching)
      = Ret (Failed_key, put_bucket 0 (with_chan 0 (ch_sig_update (\<lambda>_. q)) ?b) demo_watching)"
    using kick by (simp add: push_key_def Let_def srv_Bucket_def bucket_index_def demo_watching_def put_bucket_def demo_server_def
        Bucket_Channel_def with_chan_def demo_bucket_def demo_chan_def Channel_NeedPush_def)
  ultimately obtain s' failed where r: "cs_PushMsg (\<lambda>_. 0) [''k0'', ''k1''] 1000 (Some demo_note) demo_watching = Ret (Inr failed, s')"
    "failed = [''k1'']" by (simp add: cs_PushMsg_def)
  have "conn_of (\<lambda>_. 0) demo_watching ''k2'' = Some 2" by (simp add: conn_of_def b Bucket_Channel_def with_chan_def demo_bucket_def)
  moreover have "length (sv_buckets demo_watching) < 2 ^ 32" by (simp add: demo_watching_def put_bucket_def demo_server_def)
  ultimately have "chan_of (\<lambda>_. 0) s' ''k2'' 2 = chan_of (\<lambda>_. 0) demo_watching ''k2'' 2"
    using PushMsg_reaches [OF kick r(1) demo_own_conns] by simp
  then show ?thesis using r by blast
qed

end
