(* ===== verification/Logic_Api.thy ===== *)
theory Logic_Api
  imports Sync Router_Api Msg_Codec Comet_Server Mq
begin

text \<open>
  The Logic service (\<open>internal/logic\<close>): connecting and disconnecting clients and what their packets ask for
  (\<open>conn.go\<close>), pushes on behalf of the HTTP interface (\<open>push.go\<close>), pushes and acknowledgements through the router
  (\<open>logic.go\<close>, \<open>router_client.go\<close>), and the gRPC handlers that Comet calls (\<open>grpc/server.go\<close>). Redis, the clock,
  the queue and the router's engine are those of \<open>World\<close>.

  A call of the router has a fate: it is answered, or its request or its reply is lost. The JSON token of a
  client comes parsed, the random ids are arguments, and so is the order in which Go walks through a table.
\<close>

section \<open>Calling the router\<close>

definition rpc :: "fate \<Rightarrow> engine option \<Rightarrow> (engine \<Rightarrow> 'a act) \<Rightarrow> (gerr + 'a) act" where
  "rpc f router m =
     (case router of
        None \<Rightarrow> ret (Inl (Text ''router client has no available nodes''))
      | Some e \<Rightarrow>
          (case f of
             Request_lost \<Rightarrow> ret (Inl ErrClosed)
           | Answered \<Rightarrow> do { x \<leftarrow> m e; ret (Inr x) }
           | Reply_lost \<Rightarrow> do { x \<leftarrow> m e; ret (Inl ErrClosed) }))"

definition rpc_done :: "gerr + gerr option \<Rightarrow> gerr option" where
  "rpc_done x = (case x of Inl e \<Rightarrow> Some e | Inr y \<Rightarrow> y)"

definition lg_PushToUser :: "fate \<Rightarrow> engine option \<Rightarrow> string \<Rightarrow> string \<Rightarrow> int \<Rightarrow> i32 \<Rightarrow> byte list \<Rightarrow> int \<Rightarrow> gerr option act" where
  "lg_PushToUser f router tr msgID toUID op body sq = do {
     x \<leftarrow> rpc f router (\<lambda>e. srv_RouteByUser e tr msgID toUID op body sq);
     ret (case x of
            Inl e \<Rightarrow> Some e
          | Inr reply \<Rightarrow> if ru_ErrorCode reply \<noteq> []
              then Some (Text (''router route by user failed: '' @ ru_ErrorCode reply @ '': '' @ ru_ErrorMessage reply)) else None)
   }"

definition lg_AckMessage :: "fate \<Rightarrow> engine option \<Rightarrow> string \<Rightarrow> int \<Rightarrow> string \<Rightarrow> gerr option act" where
  "lg_AckMessage f router tr mid msgID = do { x \<leftarrow> rpc f router (\<lambda>e. srv_HandleACK e tr mid msgID); ret (rpc_done x) }"

section \<open>Connections\<close>

record connect_params =
  cp_Mid :: int
  cp_Key :: string
  cp_RoomID :: string
  cp_Platform :: string
  cp_DeviceID :: string
  cp_Accepts :: "i32 list"
  cp_LastSeq :: int

definition connect_session :: "string \<Rightarrow> string \<Rightarrow> string \<Rightarrow> connect_params \<Rightarrow> int \<Rightarrow> Session" where
  "connect_session server sid uuid p now =
     (let key = (if cp_Key p = [] then uuid else cp_Key p)
      in \<lparr>ss_SID = sid, ss_UID = cp_Mid p, ss_Key = key,
          ss_DeviceID = (if cp_DeviceID p = [] then cp_Platform p @ '':'' @ key else cp_DeviceID p),
          ss_Platform = cp_Platform p, ss_Server = server, ss_CreatedAt = now, ss_LastHBAt = now, ss_cachedAt = 0\<rparr>)"

definition lg_Connect :: "int \<Rightarrow> i64 \<Rightarrow> i64 \<Rightarrow> string \<Rightarrow> string \<Rightarrow> string \<Rightarrow> gerr + connect_params \<Rightarrow> (gerr + connect_reply) act" where
  "lg_Connect life heartbeat heartbeatMax server sid uuid token =
     (case token of
        Inl e \<Rightarrow> ret (Inl e)
      | Inr p \<Rightarrow> do {
          now \<leftarrow> asks now_ms;
          let sess = connect_session server sid uuid p now;
          x \<leftarrow> sm_Create True True life sess;
          ret (case x of
                 Some e \<Rightarrow> Inl e
               | None \<Rightarrow> Inr \<lparr>cr_Mid = word_of_int (cp_Mid p), cr_Key = ss_Key sess, cr_RoomID = cp_RoomID p,
                                cr_Accepts = cp_Accepts p, cr_Heartbeat = sint (heartbeat * heartbeatMax)\<rparr>)
        })"

text \<open>What \<open>Connect\<close> leaves to a goroutine.\<close>

definition connect_sync :: "bool \<Rightarrow> connect_params \<Rightarrow> gerr option act" where
  "connect_sync batch p = OnUserOnline batch True (cp_Mid p) (cp_LastSeq p)"

definition lg_Disconnect :: "int \<Rightarrow> string \<Rightarrow> (gerr option \<times> bool) act" where
  "lg_Disconnect mid key = do {
     x \<leftarrow> sm_Disconnect True True mid key;
     ret (x, x = None)
   }"

definition lg_Heartbeat :: "int \<Rightarrow> int \<Rightarrow> string \<Rightarrow> gerr option act" where
  "lg_Heartbeat life mid key = sm_Heartbeat life key mid"

text \<open>What a packet of a client asks of Logic: the answer is the packet as \<open>Receive\<close> leaves it.\<close>

definition lg_Receive :: "bool \<Rightarrow> fate \<Rightarrow> engine option \<Rightarrow> string \<Rightarrow> int \<Rightarrow> proto \<Rightarrow> (gerr option \<times> proto) act" where
  "lg_Receive batch f router tr mid p =
     (if Op p = OpPushMsgAck then
        (case UnmarshalAckBody (body_bytes p) of
           Inl e \<Rightarrow> ret (Some e, p)
         | Inr ack \<Rightarrow> do {
             x \<leftarrow> rpc f router (\<lambda>e. srv_HandleACKWithDevice e tr mid (go_string (ab_MsgID ack)) (go_string (ab_DeviceID ack))
                                     (go_string (ab_SessionID ack)));
             ret (rpc_done x, p)
           })
      else if Op p = OpSyncReq then
        (case UnmarshalSyncReq (body_bytes p) of
           Inl e \<Rightarrow> ret (Some e, p)
         | Inr req \<Rightarrow> do {
             x \<leftarrow> GetOfflineMessages batch mid (sint (sq_LastSeq req)) (sint (sq_Limit req));
             ret (case x of
                    Inl e \<Rightarrow> (Some e, p)
                  | Inr reply \<Rightarrow>
                      (case MarshalSyncReply reply of
                         Inl e \<Rightarrow> (Some e, p)
                       | Inr bytes \<Rightarrow> (None, p\<lparr>Op := OpSyncReply, Body := Some bytes\<rparr>)))
           })
      else ret (None, p))"

section \<open>The handlers that Comet calls\<close>

definition srv_Receive :: "bool \<Rightarrow> fate \<Rightarrow> engine option \<Rightarrow> string \<Rightarrow> int \<Rightarrow> proto \<Rightarrow> logic_answer act" where
  "srv_Receive batch f router tr mid p = do {
     (x, q) \<leftarrow> lg_Receive batch f router tr mid p;
     ret (case x of Some e \<Rightarrow> Inl e | None \<Rightarrow> Inr (Some (Op q, Body q)))
   }"

definition srv_Disconnect :: "int \<Rightarrow> string \<Rightarrow> (gerr + bool) act" where
  "srv_Disconnect mid key = do {
     (x, has) \<leftarrow> lg_Disconnect mid key;
     ret (case x of Some e \<Rightarrow> Inl e | None \<Rightarrow> Inr has)
   }"

definition srv_SyncOffline :: "bool \<Rightarrow> int \<Rightarrow> int \<Rightarrow> int \<Rightarrow> (gerr + i64 \<times> bool) act" where
  "srv_SyncOffline batch mid lastSeq limit = do {
     x \<leftarrow> GetOfflineMessages batch mid lastSeq limit;
     ret (case x of Inl e \<Rightarrow> Inl e | Inr reply \<Rightarrow> Inr (sr_CurrentSeq reply, sr_HasMore reply))
   }"

text \<open>What a Comet node makes of a packet of its client \<open>mid\<close>, with Logic at the other end of the call.\<close>

definition client_packet :: "bool \<Rightarrow> fate \<Rightarrow> engine option \<Rightarrow> string \<Rightarrow> int \<Rightarrow> proto \<Rightarrow> proto act" where
  "client_packet batch f router tr mid p = do {
     ans \<leftarrow> (if Op p \<in> {OpChangeRoom, OpSub, OpUnsub} then ret (Inr None) else srv_Receive batch f router tr mid p);
     ret (operate_packet ans p)
   }"

section \<open>Pushes of the HTTP interface\<close>

definition GenerateMsgID :: "string act" where
  "GenerateMsgID = State (\<lambda>w. case w_ids w of
      [] \<Rightarrow> ([], w)
    | Inl x # xs \<Rightarrow> ([], w\<lparr>w_ids := xs\<rparr>)
    | Inr s # xs \<Rightarrow> (s, w\<lparr>w_ids := xs\<rparr>))"

definition wrapAsMsgBody :: "int \<Rightarrow> string \<Rightarrow> int \<Rightarrow> byte list \<Rightarrow> byte list" where
  "wrapAsMsgBody now msgID toUID content =
     (case MarshalMsgBody \<lparr>mb_MsgID = bytes_of msgID, mb_FromUID = 0, mb_ToUID = word_of_int toUID,
             mb_Timestamp = word_of_int now, mb_Seq = 0, mb_Content = content\<rparr> of
        Inl e \<Rightarrow> content
      | Inr body \<Rightarrow> body)"

text \<open>\<open>PushViaMQ\<close> and its siblings of \<open>dao/kafka.go\<close>; \<open>mq\<close> says whether a producer is configured. The keys of a push are not empty.\<close>

definition PushViaMQ :: "bool \<Rightarrow> i32 \<Rightarrow> string \<Rightarrow> string list \<Rightarrow> byte list \<Rightarrow> event" where
  "PushViaMQ mq op server ks msg =
     (if mq then MQ_User 0 (hd ks) (pushMsgBytes 0 op server ks [] msg 0) [] else Kafka_PushMsg op server ks msg)"

definition BroadcastRoomViaMQ :: "bool \<Rightarrow> i32 \<Rightarrow> string \<Rightarrow> byte list \<Rightarrow> event" where
  "BroadcastRoomViaMQ mq op room msg =
     (if mq then MQ_Room room (pushMsgBytes 1 op [] [] room msg 0) else Kafka_BroadcastRoomMsg op room msg)"

definition BroadcastViaMQ :: "bool \<Rightarrow> i32 \<Rightarrow> i32 \<Rightarrow> byte list \<Rightarrow> event" where
  "BroadcastViaMQ mq op speed msg =
     (if mq then MQ_Broadcast (pushMsgBytes 2 op [] [] [] msg speed) speed else Kafka_BroadcastMsg op speed msg)"

type_synonym key_groups = "(string \<times> string list) list"

fun add_key :: "string \<Rightarrow> string \<Rightarrow> key_groups \<Rightarrow> key_groups" where
  "add_key server key [] = [(server, [key])]"
| "add_key server key ((s, ks) # gs) = (if s = server then (s, ks @ [key]) # gs else (s, ks) # add_key server key gs)"

fun lookup_keys :: "string list \<Rightarrow> int \<Rightarrow> key_groups \<Rightarrow> (int \<times> key_groups) act" where
  "lookup_keys [] uid gs = ret (uid, gs)"
| "lookup_keys (key # ks) uid gs =
     (if key = [] then lookup_keys ks uid gs
      else do {
        x \<leftarrow> redis_do (\<lambda>w. GetSessionByKey key);
        let sid = (case x of Inl e \<Rightarrow> [] | Inr s \<Rightarrow> s);
        (if sid = [] then lookup_keys ks uid gs
         else do {
           y \<leftarrow> redis_do (\<lambda>w. GetSession sid);
           let sess = (case y of Inl e \<Rightarrow> Map.empty | Inr h \<Rightarrow> h);
           (if sess = Map.empty then lookup_keys ks uid gs
            else let server = str_or_empty (sess ''server'');
                     gs1 = (if server \<noteq> [] then add_key server key gs else gs);
                     uid1 = (if uid = 0 then parse_lossy (str_or_empty (sess ''uid'')) else uid)
                 in lookup_keys ks uid1 gs1)
         })
      })"

fun push_groups :: "bool \<Rightarrow> i32 \<Rightarrow> byte list \<Rightarrow> key_groups \<Rightarrow> gerr option act" where
  "push_groups mq op body [] = ret None"
| "push_groups mq op body ((server, ks) # gs) = do {
     x \<leftarrow> call (PushViaMQ mq op server ks body);
     (case x of Some e \<Rightarrow> ret (Some e) | None \<Rightarrow> push_groups mq op body gs)
   }"

definition lg_PushKeys :: "bool \<Rightarrow> (key_groups \<Rightarrow> key_groups) \<Rightarrow> i32 \<Rightarrow> string list \<Rightarrow> byte list \<Rightarrow> (string list \<times> gerr option) act" where
  "lg_PushKeys mq walk op ks msg = do {
     (uid, gs) \<leftarrow> lookup_keys ks 0 [];
     msgID \<leftarrow> GenerateMsgID;
     now \<leftarrow> asks now_ms;
     x \<leftarrow> push_groups mq op (wrapAsMsgBody now msgID uid msg) (walk gs);
     ret ([msgID], x)
   }"

definition deliveryResultFromReply :: "RouteByUserReply option \<Rightarrow> string \<Rightarrow> RouteByUserReply" where
  "deliveryResultFromReply reply fallbackMsgID =
     (case reply of
        None \<Rightarrow> \<lparr>ru_MsgId = fallbackMsgID, ru_Path = ''failed'', ru_TargetNode = [], ru_ErrorCode = ''empty_router_reply'', ru_ErrorMessage = []\<rparr>
      | Some r \<Rightarrow> r\<lparr>ru_MsgId := (if ru_MsgId r = [] then fallbackMsgID else ru_MsgId r)\<rparr>)"

text \<open>The user ids, each with the fate of its call.\<close>

fun lg_PushMidsDetailed :: "engine option \<Rightarrow> string \<Rightarrow> i32 \<Rightarrow> (int \<times> fate) list \<Rightarrow> byte list \<Rightarrow>
    (RouteByUserReply list \<times> gerr option) act" where
  "lg_PushMidsDetailed router tr op [] msg = ret ([], None)"
| "lg_PushMidsDetailed router tr op ((mid, f) # mids) msg = do {
     msgID \<leftarrow> GenerateMsgID;
     now \<leftarrow> asks now_ms;
     x \<leftarrow> rpc f router (\<lambda>e. srv_RouteByUser e tr msgID mid op (wrapAsMsgBody now msgID mid msg) 0);
     let result = deliveryResultFromReply (case x of Inl e \<Rightarrow> None | Inr r \<Rightarrow> Some r) msgID;
     let err = (case x of Inl e \<Rightarrow> Some e
                | Inr r \<Rightarrow> if ru_ErrorCode result \<noteq> []
                    then Some (Text (''router route by user failed: '' @ ru_ErrorCode result @ '': '' @ ru_ErrorMessage result)) else None);
     (results, firstErr) \<leftarrow> lg_PushMidsDetailed router tr op mids msg;
     ret (result\<lparr>ru_MsgId := (if ru_MsgId result = [] then msgID else ru_MsgId result)\<rparr> # results,
          case err of None \<Rightarrow> firstErr | Some e \<Rightarrow> Some e)
   }"

definition lg_PushMids :: "engine option \<Rightarrow> string \<Rightarrow> i32 \<Rightarrow> (int \<times> fate) list \<Rightarrow> byte list \<Rightarrow> (string list \<times> gerr option) act" where
  "lg_PushMids router tr op mids msg = do {
     (results, err) \<leftarrow> lg_PushMidsDetailed router tr op mids msg;
     ret (map ru_MsgId results, err)
   }"

definition EncodeRoomKey :: "string \<Rightarrow> string \<Rightarrow> string" where
  "EncodeRoomKey typ room = typ @ ''://'' @ room"

definition lg_PushRoom :: "fate \<Rightarrow> engine option \<Rightarrow> i32 \<Rightarrow> string \<Rightarrow> string \<Rightarrow> byte list \<Rightarrow> (string \<times> gerr option) act" where
  "lg_PushRoom f router op typ room msg = do {
     msgID \<leftarrow> GenerateMsgID;
     now \<leftarrow> asks now_ms;
     x \<leftarrow> rpc f router (\<lambda>e. srv_RouteByRoom e op (EncodeRoomKey typ room) (wrapAsMsgBody now msgID 0 msg));
     ret (msgID, rpc_done x)
   }"

definition lg_PushAll :: "fate \<Rightarrow> engine option \<Rightarrow> i32 \<Rightarrow> i32 \<Rightarrow> byte list \<Rightarrow> (string \<times> gerr option) act" where
  "lg_PushAll f router op speed msg = do {
     msgID \<leftarrow> GenerateMsgID;
     now \<leftarrow> asks now_ms;
     x \<leftarrow> rpc f router (\<lambda>e. srv_RouteBroadcast e op speed (wrapAsMsgBody now msgID 0 msg));
     ret (msgID, rpc_done x)
   }"

section \<open>Missed messages over the wire\<close>

lemma go_string_bytes [simp]: "go_string (bytes_of s) = s"
  by (induction s) (simp_all add: go_string_def bytes_of_def unat_of_nat of_char_of)

definition sync_packet :: "i64 \<Rightarrow> i32 \<Rightarrow> proto" where
  "sync_packet lastSeq limit = \<lparr>Ver = 1, Op = OpSyncReq, Seq = 0,
     Body = Some (MarshalSyncReq \<lparr>sq_LastSeq = lastSeq, sq_Limit = limit\<rparr>)\<rparr>"

text \<open>A client that asks for page after page: each request and each reply is a packet.\<close>

fun wire_pull :: "bool \<Rightarrow> fate \<Rightarrow> engine option \<Rightarrow> int \<Rightarrow> i32 \<Rightarrow> nat \<Rightarrow> i64 \<Rightarrow> (gerr + msg_body list) option act" where
  "wire_pull batch f router uid limit 0 lastSeq = ret None"
| "wire_pull batch f router uid limit (Suc n) lastSeq = do {
     q \<leftarrow> client_packet batch f router [] uid (sync_packet lastSeq limit);
     (if Op q \<noteq> OpSyncReply then ret (Some (Inl ErrClosed))
      else case UnmarshalSyncReply (body_bytes q) of
             Inl e \<Rightarrow> ret (Some (Inl e))
           | Inr rep \<Rightarrow>
               if sr_HasMore rep then do {
                 y \<leftarrow> wire_pull batch f router uid limit n (sr_CurrentSeq rep);
                 ret (map_option (map_sum id ((@) (sr_Messages rep))) y)
               } else ret (Some (Inr (sr_Messages rep))))
   }"

definition msg_fits :: "msg_body \<Rightarrow> bool" where
  "msg_fits m \<longleftrightarrow> length (mb_MsgID m) \<le> 65535 \<and> 34 + length (mb_MsgID m) + length (mb_Content m) < 2 ^ 32"

lemma ops_apart [simp]:
  "OpSyncReq \<noteq> OpChangeRoom" "OpSyncReq \<noteq> OpSub" "OpSyncReq \<noteq> OpUnsub" "OpSyncReq \<noteq> OpPushMsgAck"
  "OpPushMsgAck \<noteq> OpChangeRoom" "OpPushMsgAck \<noteq> OpSub" "OpPushMsgAck \<noteq> OpUnsub"
  by (simp_all add: OpSyncReq_def OpChangeRoom_def OpSub_def OpUnsub_def OpPushMsgAck_def)

lemma sync_packet_answer:
  assumes "run_state (GetOfflineMessages batch uid (sint lastSeq) (sint limit)) w = (Inr rep, w')"
    and "\<forall>m \<in> set (sr_Messages rep). msg_fits m" "length (sr_Messages rep) < 2 ^ 32"
  shows "\<exists>q. run_state (client_packet batch f router tr uid (sync_packet lastSeq limit)) w = (q, w') \<and> Op q = OpSyncReply
    \<and> UnmarshalSyncReply (body_bytes q) = Inr (rep\<lparr>sr_ServerMaxSeq := max_seq rep\<rparr>)"
proof -
  have "reply_valid rep \<and> reply_fits rep"
    using assms(2,3) by (simp add: reply_valid_def mb_valid_def reply_fits_def msg_fits_def)
  then obtain d where d: "MarshalSyncReply rep = Inr d" "UnmarshalSyncReply d = Inr (rep\<lparr>sr_ServerMaxSeq := max_seq rep\<rparr>)"
    using reply.enc_valid reply.dec_enc by blast
  have "UnmarshalSyncReq (MarshalSyncReq r) = Inr r" for r using req.dec_enc [of r] by simp
  then show ?thesis
    using assms(1) d
    by (simp add: client_packet_def srv_Receive_def lg_Receive_def sync_packet_def body_bytes_def operate_packet_def comet_Receive_def)
qed

lemma wire_pull_is_pull:
  assumes "fst (run_state (pull batch uid (sint limit) n (sint lastSeq)) w) = Some (Inr ms)"
    and "\<forall>m \<in> set ms. msg_fits m" "length ms < 2 ^ 32"
  shows "fst (run_state (wire_pull batch f router uid limit n lastSeq) w) = Some (Inr ms)"
  using assms
proof (induction n arbitrary: lastSeq w ms)
  case (Suc n)
  obtain x w1 where g: "run_state (GetOfflineMessages batch uid (sint lastSeq) (sint limit)) w = (x, w1)" by fastforce
  then obtain rep where rep: "x = Inr rep" using Suc.prems(1) by (cases x) simp_all
  show ?case
  proof (cases "sr_HasMore rep")
    case True
    obtain y where y: "fst (run_state (pull batch uid (sint limit) n (sint (sr_CurrentSeq rep))) w1) = y" by blast
    have "map_option (map_sum id ((@) (sr_Messages rep))) y = Some (Inr ms)"
      using Suc.prems(1) g rep True y by (simp add: split_beta)
    then obtain ms' where ms': "y = Some (Inr ms')" "ms = sr_Messages rep @ ms'"
      by (cases y) (auto, metis obj_sumE map_sum.simps sum.inject(2) Inl_Inr_False)
    have f: "\<forall>m \<in> set (sr_Messages rep). msg_fits m" "length (sr_Messages rep) < 2 ^ 32"
      "\<forall>m \<in> set ms'. msg_fits m" "length ms' < 2 ^ 32"
      using Suc.prems(2,3) ms'(2) by auto
    obtain q where q: "run_state (client_packet batch f router [] uid (sync_packet lastSeq limit)) w = (q, w1)" "Op q = OpSyncReply"
      "UnmarshalSyncReply (body_bytes q) = Inr (rep\<lparr>sr_ServerMaxSeq := max_seq rep\<rparr>)"
      using sync_packet_answer [OF g [unfolded rep] f(1,2)] by blast
    have "fst (run_state (wire_pull batch f router uid limit n (sr_CurrentSeq rep)) w1) = Some (Inr ms')"
      using Suc.IH [OF _ f(3,4)] y ms'(1) by simp
    then show ?thesis using q True ms'(2) by (simp add: split_beta)
  next
    case False
    then have "ms = sr_Messages rep" using Suc.prems(1) g rep by simp
    then obtain q where "run_state (client_packet batch f router [] uid (sync_packet lastSeq limit)) w = (q, w1)" "Op q = OpSyncReply"
      "UnmarshalSyncReply (body_bytes q) = Inr (rep\<lparr>sr_ServerMaxSeq := max_seq rep\<rparr>)"
      using sync_packet_answer [OF g [unfolded rep]] Suc.prems(2,3) by blast
    with False show ?thesis using \<open>ms = sr_Messages rep\<close> by simp
  qed
qed simp



section \<open>Acknowledgements over the wire\<close>

text \<open>Property C35. The packet of a client that acknowledges message \<open>m\<close> has the effect of the router's
  acknowledgement by this user, with the same message, device and session, and no other; nothing of
  it depends on the sequence number the client put in.\<close>

theorem ack_packet_acknowledges:
  assumes "MarshalAckBody \<lparr>ab_MsgID = bytes_of m, ab_Seq = sq, ab_DeviceID = bytes_of dev, ab_SessionID = bytes_of sess\<rparr> = Inr d"
  shows "run_state (client_packet batch f router tr uid \<lparr>Ver = v, Op = OpPushMsgAck, Seq = s, Body = Some d\<rparr>) w
    = (\<lparr>Ver = v, Op = OpPushMsgAck, Seq = s, Body = None\<rparr>,
       snd (run_state (rpc f router (\<lambda>e. HandleACKWithDevice (en_ack e) tr uid m dev sess)) w))"
proof -
  let ?a = "\<lparr>ab_MsgID = bytes_of m, ab_Seq = sq, ab_DeviceID = bytes_of dev, ab_SessionID = bytes_of sess\<rparr>"
  have "ack_valid ?a" using assms ack.enc_invalid [of ?a] by fastforce
  then have u: "UnmarshalAckBody d = Inr ?a" using ack.dec_enc [OF _ assms] by simp
  obtain x w' where r: "run_state (rpc f router (\<lambda>e. HandleACKWithDevice (en_ack e) tr uid m dev sess)) w = (x, w')" by fastforce
  have "OpPushMsgAck \<noteq> OpSyncReq" by (rule ops_apart(4) [symmetric])
  then show ?thesis
    using r by (auto simp: client_packet_def srv_Receive_def lg_Receive_def body_bytes_def u srv_HandleACKWithDevice_def
        operate_packet_def comet_Receive_def rpc_done_def split: option.split sum.split)
qed

theorem ack_packet_acknowledges_witness:
  "\<exists>d. snd (run_state (client_packet True Answered (Some demo_engine) [] 7 \<lparr>Ver = 1, Op = OpPushMsgAck, Seq = 0, Body = Some d\<rparr>) empty_world)
    = snd (run_state (HandleACKWithDevice (en_ack demo_engine) [] 7 ''m'' ''ios'' []) empty_world)"
proof -
  have "ack_valid \<lparr>ab_MsgID = bytes_of ''m'', ab_Seq = 3, ab_DeviceID = bytes_of ''ios'', ab_SessionID = bytes_of []\<rparr>"
    by (simp add: ack_valid_def bytes_of_def)
  then obtain d where "MarshalAckBody \<lparr>ab_MsgID = bytes_of ''m'', ab_Seq = 3, ab_DeviceID = bytes_of ''ios'', ab_SessionID = bytes_of []\<rparr> = Inr d"
    using ack.enc_valid by blast
  from ack_packet_acknowledges [OF this, of True Answered "Some demo_engine" "[]" 7 1 0 empty_world]
  show ?thesis by (intro exI [of _ d]) (simp add: rpc_def split_beta)
qed

section \<open>A push without an error\<close>

lemma rpc_answer: "run_state (rpc f router m) w = (Inr x, w') \<Longrightarrow> \<exists>e. router = Some e \<and> run_state (m e) w = (x, w')"
  by (cases router; cases f) (auto simp: rpc_def split_beta)

text \<open>Property C36. Pushing to a user through the router without an error means that in the course of the call
  a connection or the queue took the message, with two exceptions: another attempt for the message was under way, or
  tracking it reported an error. A call whose request or reply is lost is an error.\<close>

theorem PushToUser_handed:
  assumes "run_state (lg_PushToUser f router tr0 msgID0 toUID op body sq) w = (None, w')"
  shows "\<exists>e. router = Some e \<and> (handed (length (w_log w)) op body w'
    \<or> (\<exists>msgID token. run_state (result_start e msgID0) w = (Inr (msgID, False, token), w'))
    \<or> (\<exists>msgID token w1 tr y w2. run_state (result_start e msgID0) w = (Inr (msgID, True, token), w1)
        \<and> run_state (TrackMessage (en_ack e) tr msgID 0 toUID op body) w1 = (Some y, w2)))"
proof -
  obtain x w1 where x1: "run_state (rpc f router (\<lambda>e. srv_RouteByUser e tr0 msgID0 toUID op body sq)) w = (x, w1)" by fastforce
  then have x: "run_state (rpc f router (\<lambda>e. srv_RouteByUser e tr0 msgID0 toUID op body sq)) w = (x, w')"
    using assms by (simp add: lg_PushToUser_def)
  have err: "(case x of Inl e \<Rightarrow> Some e | Inr reply \<Rightarrow> if ru_ErrorCode reply \<noteq> []
      then Some (Text (''router route by user failed: '' @ ru_ErrorCode reply @ '': '' @ ru_ErrorMessage reply)) else None) = None"
    using assms x1 by (simp add: lg_PushToUser_def)
  obtain reply where reply: "x = Inr reply" "ru_ErrorCode reply = []"
    using err by (cases x; cases "ru_ErrorCode (projr x)") simp_all
  then obtain e where e: "router = Some e" "run_state (srv_RouteByUser e tr0 msgID0 toUID op body sq) w = (reply, w')"
    using rpc_answer [OF x [unfolded reply(1)]] by blast
  from clean_reply_is_handed_over [OF e(2) reply(2)] e(1) show ?thesis by blast
qed

theorem PushToUser_handed_witness:
  "handed 0 9 [1] (snd (run_state (lg_PushToUser Answered (Some demo_engine) [] ''m'' 7 9 [1] 0) pending_world))"
proof -
  obtain x w' where r: "run_state (lg_PushToUser Answered (Some demo_engine) [] ''m'' 7 9 [1] 0) pending_world = (x, w')"
    by fastforce
  have "x = None" using pending_reply r by (simp add: lg_PushToUser_def rpc_def split_beta)
  moreover have "en_ack demo_engine = demo_conf" "w_log pending_world = []"
    by (simp_all add: demo_engine_def pending_world_def empty_world_def)
  ultimately show ?thesis
    using PushToUser_handed [OF r [unfolded \<open>x = None\<close>]] r by (auto simp: pending_result_start pending_track)
qed

section \<open>Pushes by key\<close>

text \<open>The Comet node of a key, when it has a session.\<close>

definition key_server :: "redis \<Rightarrow> string \<Rightarrow> string option" where
  "key_server r key =
     (let server = str_or_empty (rd_hash r (keySession (str_or_empty (rd_str r (keyKeySession key)))) ''server'')
      in if key = [] \<or> str_or_empty (rd_str r (keyKeySession key)) = [] \<or> server = [] then None else Some server)"

definition add_known :: "redis \<Rightarrow> key_groups \<Rightarrow> string \<Rightarrow> key_groups" where
  "add_known r gs key = (case key_server r key of None \<Rightarrow> gs | Some server \<Rightarrow> add_key server key gs)"

lemma lookup_keys_run:
  assumes "rd_fates (w_redis w) = []"
  shows "\<exists>u. run_state (lookup_keys ks uid gs) w = ((u, foldl (add_known (w_redis w)) gs ks), w)"
proof (induction ks arbitrary: uid gs)
  case (Cons key ks)
  have e: "str_or_empty None = []" by (simp add: str_or_empty_def)
  show ?case
    using assms Cons.IH
    by (auto simp: GetSessionByKey_def GetSession_def add_known_def key_server_def Let_def e)
qed simp

definition groups_ok :: "redis \<Rightarrow> string list \<Rightarrow> key_groups \<Rightarrow> bool" where
  "groups_ok r ks gs \<longleftrightarrow> distinct (map fst gs)
     \<and> (\<forall>server. map_of gs server = (case filter (\<lambda>k. key_server r k = Some server) ks of [] \<Rightarrow> None | k # ks' \<Rightarrow> Some (k # ks')))"

lemma add_key_map_of:
  "map_of (add_key server key gs) s = (if s = server then Some (case_option [] id (map_of gs server) @ [key]) else map_of gs s)"
  by (induction server key gs rule: add_key.induct) auto

lemma add_key_servers: "fst ` set (add_key server key gs) = insert server (fst ` set gs)"
  by (induction server key gs rule: add_key.induct) auto

lemma add_key_distinct: "distinct (map fst gs) \<Longrightarrow> distinct (map fst (add_key server key gs))"
  by (induction server key gs rule: add_key.induct) (auto simp: add_key_servers)

lemma groups_ok_add: "groups_ok r ks gs \<Longrightarrow> groups_ok r (ks @ [key]) (add_known r gs key)"
  by (auto simp: groups_ok_def add_known_def add_key_map_of add_key_distinct split: option.splits list.splits)

lemma groups_ok_fold: "groups_ok r ks gs \<Longrightarrow> groups_ok r (ks @ ks') (foldl (add_known r) gs ks')"
proof (induction ks' arbitrary: ks gs)
  case (Cons k ks')
  from Cons.IH [OF groups_ok_add [OF Cons.prems, of k]] show ?case by simp
qed simp

lemma push_groups_run:
  "w_replies w = [] \<Longrightarrow> run_state (push_groups mq op body gs) w
    = (None, w\<lparr>w_log := w_log w @ map (\<lambda>(server, ks). (PushViaMQ mq op server ks body, None)) gs\<rparr>)"
proof (induction gs arbitrary: w)
  case (Cons g gs)
  then show ?case by (cases g) (simp add: Cons.IH)
qed simp

text \<open>Property C37. Pushing to keys, when Redis and the queue answer, queues one message for each Comet node: it names
  exactly the given keys whose session is on that node, in their order; keys without a session get nothing
  and are not reported.\<close>

theorem PushKeys_queues:
  assumes "rd_fates (w_redis w) = []" and "w_replies w = []" and "\<And>gs. mset (walk gs) = mset gs"
    and "run_state (lg_PushKeys mq walk op ks msg) w = ((ids, err), w')"
  shows "err = None \<and> (\<exists>gs body. w_log w' = w_log w @ map (\<lambda>(server, ks'). (PushViaMQ mq op server ks' body, None)) gs
    \<and> distinct (map fst gs)
    \<and> (\<forall>server. map_of gs server = (case filter (\<lambda>k. key_server (w_redis w) k = Some server) ks of [] \<Rightarrow> None | k # ks' \<Rightarrow> Some (k # ks'))))"
proof -
  let ?g = "foldl (add_known (w_redis w)) [] ks"
  obtain uid where l: "run_state (lookup_keys ks 0 []) w = ((uid, ?g), w)" using lookup_keys_run [OF assms(1)] by blast
  obtain msgID w1 where i: "run_state GenerateMsgID w = (msgID, w1)" by fastforce
  then have w1: "w_replies w1 = []" "w_log w1 = w_log w"
    using assms(2) by (auto simp: GenerateMsgID_def split: list.splits sum.splits)
  have r: "err = None" "w_log w' = w_log w @ map (\<lambda>(server, ks'). (PushViaMQ mq op server ks' (wrapAsMsgBody (now_ms w1) msgID uid msg), None)) (walk ?g)"
    using assms(4) l i w1 push_groups_run [of w1] by (auto simp: lg_PushKeys_def)
  have ok: "groups_ok (w_redis w) ([] @ ks) ?g" by (rule groups_ok_fold) (simp add: groups_ok_def)
  have m: "mset (map fst (walk ?g)) = mset (map fst ?g)" using assms(3) [of ?g] by (metis mset_map)
  then have "distinct (map fst (walk ?g))" using ok by (metis groups_ok_def mset_eq_imp_distinct_iff)
  moreover from this have "map_of (walk ?g) = map_of ?g"
    using ok mset_eq_setD [OF assms(3) [of ?g]] by (intro map_of_inject_set [THEN iffD2]) (simp_all add: groups_ok_def)
  ultimately show ?thesis using r ok by (auto simp: groups_ok_def)
qed

definition keyed_world :: world where
  "keyed_world = empty_world\<lparr>w_redis := empty_redis\<lparr>
     rd_str := [keyKeySession ''k1'' \<mapsto> ''s1'', keyKeySession ''k2'' \<mapsto> ''s2''],
     rd_hash := (\<lambda>_ _. None)(keySession ''s1'' := [''server'' \<mapsto> ''c1''], keySession ''s2'' := [''server'' \<mapsto> ''c1''])\<rparr>\<rparr>"

theorem PushKeys_queues_witness:
  "\<exists>body. w_log (snd (run_state (lg_PushKeys True id 9 [''k1'', ''k0'', ''k2''] [5]) keyed_world))
    = [(PushViaMQ True 9 ''c1'' [''k1'', ''k2''] body, None)]"
proof -
  have f: "rd_fates (w_redis keyed_world) = []" "w_replies keyed_world = []" "w_log keyed_world = []"
    by (simp_all add: keyed_world_def empty_world_def empty_redis_def)
  have ks: "key_server (w_redis keyed_world) ''k1'' = Some ''c1''" "key_server (w_redis keyed_world) ''k2'' = Some ''c1''"
    "key_server (w_redis keyed_world) ''k0'' = None"
    by (simp_all add: key_server_def keyed_world_def keyKeySession_def keySession_def str_or_empty_def)
  obtain ids err w' where r: "run_state (lg_PushKeys True id 9 [''k1'', ''k0'', ''k2''] [5]) keyed_world = ((ids, err), w')"
    by (metis prod.collapse)
  obtain gs body where g: "w_log w' = map (\<lambda>(server, ks'). (PushViaMQ True 9 server ks' body, None)) gs" "distinct (map fst gs)"
    "\<And>server. map_of gs server = (case filter (\<lambda>k. key_server (w_redis keyed_world) k = Some server) [''k1'', ''k0'', ''k2''] of [] \<Rightarrow> None | k # ks' \<Rightarrow> Some (k # ks'))"
    using PushKeys_queues [OF f(1,2) _ r] f(3) by auto
  have m: "map_of gs server = (if server = ''c1'' then Some [''k1'', ''k2''] else None)" for server
    using g(3) [of server] ks by simp
  then have "set gs = {(''c1'', [''k1'', ''k2''])}" 

    unfolding set_eq_iff by (auto simp: map_of_eq_Some_iff [OF g(2), symmetric] m split: if_splits)
  moreover have "distinct gs" using g(2) by (simp add: distinct_map)
  ultimately have "length gs = 1" using distinct_card [of gs] by simp
  then obtain g where "gs = [g]" by (auto simp: length_Suc_conv)
  with \<open>set gs = _\<close> have "gs = [(''c1'', [''k1'', ''k2''])]" by simp
  then show ?thesis using g(1) r by auto
qed

end
