(* ===== verification/Notify_Store.thy ===== *)
theory Notify_Store
  imports Redis_Store
begin

text \<open>
  The database of the notification server (\<open>internal/notify/store/store.go\<close> and \<open>store_phase3.go\<close>): orders and
  their history, notifications, the outbox of notifications to send, delivery attempts, acknowledgements, dead
  letters and the answers kept for repeated requests.

  A table is the list of its rows. A method is one transaction: its statements run on the database one after
  another, and an error leaves the database as it was. A transaction has a fate like a request of Redis: it may
  never reach the server, or its commit may take effect and the answer be lost. Columns that are only stored
  and read back (titles, prices, latencies, trace ids) are left out. Times are nanoseconds since 1970.
\<close>

section \<open>Rows\<close>

record outbox =
  ob_id :: string
  ob_notify :: string
  ob_user :: string
  ob_order :: string
  ob_business :: string
  ob_event :: string
  ob_payload :: string
  ob_priority :: string
  ob_ttl :: int
  ob_status :: string
  ob_retry :: int
  ob_nextRetry :: "int option"
  ob_lockedBy :: "string option"
  ob_lockedUntil :: "int option"
  ob_lastError :: "string option"
  ob_strategy :: string
  ob_created :: int
  ob_updated :: int

record notification =
  nt_id :: string
  nt_user :: string
  nt_status :: string
  nt_policy :: string
  nt_expected :: int
  nt_acked :: int
  nt_business :: string
  nt_devices :: "string list"
  nt_primary :: string
  nt_created :: int
  nt_updated :: int

record attempt =
  at_id :: string
  at_notify :: string
  at_channel :: string
  at_target :: string
  at_status :: string
  at_path :: string
  at_node :: string
  at_code :: string
  at_error :: string
  at_no :: int
  at_started :: int
  at_finished :: "int option"

record ack_row =
  ak_id :: string
  ak_notify :: string
  ak_user :: string
  ak_msg :: string
  ak_device :: string
  ak_session :: string
  ak_key :: string
  ak_satisfied :: "int option"
  ak_created :: int

record dead_letter =
  dq_id :: string
  dq_notify :: string
  dq_outbox :: string
  dq_user :: string
  dq_order :: string
  dq_reason :: string
  dq_lastError :: string
  dq_payload :: string
  dq_retry :: int
  dq_strategy :: string
  dq_created :: int
  dq_resolvedAt :: "int option"
  dq_resolvedBy :: string
  dq_resolution :: string

record order_row =
  or_id :: string
  or_user :: string
  or_status :: string
  or_created :: int
  or_updated :: int

record status_event =
  ev_id :: string
  ev_order :: string
  ev_from :: string
  ev_to :: string
  ev_key :: string
  ev_created :: int

record db =
  db_orders :: "order_row list"
  db_events :: "status_event list"
  db_notes :: "notification list"
  db_outbox :: "outbox list"
  db_attempts :: "attempt list"
  db_acks :: "ack_row list"
  db_dlq :: "dead_letter list"
  db_targets :: "(string \<times> string) list"
  db_idem :: "((string \<times> string) \<times> string) list"

definition empty_db :: db where
  "empty_db = \<lparr>db_orders = [], db_events = [], db_notes = [], db_outbox = [], db_attempts = [], db_acks = [], db_dlq = [],
     db_targets = [], db_idem = []\<rparr>"

section \<open>Statements\<close>

definition update_where :: "('a \<Rightarrow> bool) \<Rightarrow> ('a \<Rightarrow> 'a) \<Rightarrow> 'a list \<Rightarrow> 'a list" where
  "update_where p f rows = map (\<lambda>r. if p r then f r else r) rows"

definition Duplicate_key :: gerr where "Duplicate_key = Text ''Duplicate entry''"
definition ErrNotFound :: gerr where "ErrNotFound = Text ''not found''"
definition ErrOrderStateChanged :: gerr where "ErrOrderStateChanged = Text ''order status changed''"
definition Foreign_key :: gerr where "Foreign_key = Text ''foreign key constraint fails''"

text \<open>A table with a primary key.\<close>

definition insert_row :: "('a \<Rightarrow> 'k) \<Rightarrow> 'a \<Rightarrow> 'a list \<Rightarrow> gerr + 'a list" where
  "insert_row key r rows = (if key r \<in> key ` set rows then Inl Duplicate_key else Inr (rows @ [r]))"

definition tx :: "fate \<Rightarrow> (db \<Rightarrow> gerr + 'a \<times> db) \<Rightarrow> db \<Rightarrow> (gerr + 'a) \<times> db" where
  "tx f m d =
     (case f of
        Request_lost \<Rightarrow> (Inl ErrClosed, d)
      | Answered \<Rightarrow> (case m d of Inl e \<Rightarrow> (Inl e, d) | Inr (x, d1) \<Rightarrow> (Inr x, d1))
      | Reply_lost \<Rightarrow> (case m d of Inl e \<Rightarrow> (Inl e, d) | Inr (x, d1) \<Rightarrow> (Inl ErrClosed, d1)))"

text \<open>The server compares times by their text, \<open>formatTime\<close>, whose fraction of a second has no trailing zeros. The
  part up to the seconds has a fixed width and orders as the seconds do.\<close>

definition second :: int where "second = 1000000000"

definition fraction_digits :: "int \<Rightarrow> string" where
  "fraction_digits n = rev (dropWhile (\<lambda>c. c = CHR ''0'')
     (rev (map (\<lambda>i. char_of (48 + nat (n div 10 ^ (8 - i) mod 10))) [0..<9])))"

definition fraction_text :: "int \<Rightarrow> string" where
  "fraction_text n = (if n = 0 then ''Z'' else CHR ''.'' # fraction_digits n @ ''Z'')"

definition time_text :: "int \<Rightarrow> int \<times> string" where
  "time_text t = (t div second, fraction_text (t mod second))"

definition past :: "int option \<Rightarrow> int \<Rightarrow> bool" where
  "past u now = (case u of None \<Rightarrow> True | Some t \<Rightarrow> time_text t \<le> time_text now)"

text \<open>Two times in different seconds compare as they should.\<close>

lemma past_bounds:
  "past (Some u) now \<Longrightarrow> u < now + second" "\<not> past (Some u) now \<Longrightarrow> now < u + second"
proof -
  have q: "x div second * second \<le> x" "x < x div second * second + second" for x
    by (simp_all add: second_def)
  show "past (Some u) now \<Longrightarrow> u < now + second" using q [of u] q [of now]
    by (auto simp: past_def time_text_def less_eq_prod_def second_def)
  show "\<not> past (Some u) now \<Longrightarrow> now < u + second" using q [of u] q [of now]
    by (auto simp: past_def time_text_def less_eq_prod_def second_def)
qed

section \<open>Creating notifications\<close>

definition normalizeNotificationAckDefaults :: "notification \<Rightarrow> notification" where
  "normalizeNotificationAckDefaults n =
     (let n1 = (if nt_policy n = [] then n\<lparr>nt_policy := ''any_device''\<rparr> else n);
          n2 = (if nt_devices n1 \<noteq> [] then n1\<lparr>nt_expected := int (length (nt_devices n1))\<rparr> else n1);
          none = nt_policy n2 = ''none'' \<or> nt_policy n2 = ''best_effort'';
          n3 = (if nt_expected n2 \<le> 0 \<and> \<not> none then n2\<lparr>nt_expected := 1\<rparr> else n2);
          n4 = (if none then n3\<lparr>nt_business := ''satisfied''\<rparr> else n3)
      in if nt_business n4 = [] then n4\<lparr>nt_business := ''pending''\<rparr> else n4)"

definition insertOrderTx :: "order_row \<Rightarrow> db \<Rightarrow> gerr + db" where
  "insertOrderTx order d = map_sum id (\<lambda>rows. d\<lparr>db_orders := rows\<rparr>) (insert_row or_id order (db_orders d))"

definition insertNotificationTx :: "notification \<Rightarrow> db \<Rightarrow> gerr + db" where
  "insertNotificationTx n d =
     map_sum id (\<lambda>rows. d\<lparr>db_notes := rows\<rparr>) (insert_row nt_id (normalizeNotificationAckDefaults n) (db_notes d))"

definition insertOutboxTx :: "outbox \<Rightarrow> db \<Rightarrow> gerr + db" where
  "insertOutboxTx ob d =
     (if ob_notify ob \<notin> nt_id ` set (db_notes d) then Inl Foreign_key
      else map_sum id (\<lambda>rows. d\<lparr>db_outbox := rows\<rparr>)
        (insert_row ob_id (ob\<lparr>ob_strategy := (if ob_strategy ob = [] then ''retry_then_dlq'' else ob_strategy ob)\<rparr>) (db_outbox d)))"

definition saveIdempotencyTx :: "string \<Rightarrow> string \<Rightarrow> string \<Rightarrow> db \<Rightarrow> gerr + db" where
  "saveIdempotencyTx scope key snapshot d =
     (if key = [] then Inr d
      else map_sum id (\<lambda>rows. d\<lparr>db_idem := rows\<rparr>) (insert_row fst ((scope, key), snapshot) (db_idem d)))"

definition insert_event :: "status_event \<Rightarrow> db \<Rightarrow> gerr + db" where
  "insert_event ev d =
     (if ev_order ev \<notin> or_id ` set (db_orders d) then Inl Foreign_key
      else map_sum id (\<lambda>rows. d\<lparr>db_events := rows\<rparr>) (insert_row ev_id ev (db_events d)))"

fun steps :: "(db \<Rightarrow> gerr + db) list \<Rightarrow> db \<Rightarrow> gerr + db" where
  "steps [] d = Inr d"
| "steps (f # fs) d = (case f d of Inl e \<Rightarrow> Inl e | Inr d1 \<Rightarrow> steps fs d1)"

definition commit :: "gerr + db \<Rightarrow> gerr + unit \<times> db" where
  "commit x = map_sum id (Pair ()) x"

definition CreateNotificationOutbox :: "notification \<Rightarrow> outbox \<Rightarrow> string \<Rightarrow> string \<Rightarrow> string \<Rightarrow> db \<Rightarrow> gerr + unit \<times> db" where
  "CreateNotificationOutbox n ob scope key snapshot d =
     commit (steps [insertNotificationTx n, insertOutboxTx ob, saveIdempotencyTx scope key snapshot] d)"

definition CreateOrderNotificationOutbox ::
  "order_row \<Rightarrow> notification \<Rightarrow> outbox \<Rightarrow> string \<Rightarrow> string \<Rightarrow> string \<Rightarrow> db \<Rightarrow> gerr + unit \<times> db" where
  "CreateOrderNotificationOutbox order n ob scope key snapshot d =
     commit (steps [insertOrderTx order, insertNotificationTx n, insertOutboxTx ob, saveIdempotencyTx scope key snapshot] d)"

text \<open>The purchase order of several recipients; its conversation is not modelled.\<close>

definition CreatePurchaseOrderNotificationOutbox ::
  "order_row \<Rightarrow> status_event \<Rightarrow> notification list \<Rightarrow> outbox list \<Rightarrow> string \<Rightarrow> string \<Rightarrow> string \<Rightarrow> db \<Rightarrow> gerr + unit \<times> db" where
  "CreatePurchaseOrderNotificationOutbox order ev ns obs scope key snapshot d =
     (if length ns \<noteq> length obs then Inl (Text ''notifications/outboxes length mismatch'')
      else commit (steps ([insertOrderTx order, insert_event ev] @ map insertNotificationTx ns @ map insertOutboxTx obs
             @ [saveIdempotencyTx scope key snapshot]) d))"

definition update_order :: "string \<Rightarrow> string \<Rightarrow> string \<Rightarrow> int \<Rightarrow> db \<Rightarrow> gerr + db" where
  "update_order oid from_st to_st now d =
     (let p = (\<lambda>r. or_id r = oid \<and> or_status r = from_st)
      in if \<exists>r \<in> set (db_orders d). p r
         then Inr (d\<lparr>db_orders := update_where p (\<lambda>r. r\<lparr>or_status := to_st, or_updated := now\<rparr>) (db_orders d)\<rparr>)
         else Inl ErrOrderStateChanged)"

definition UpdateOrderStatusAndInsertEvent :: "string \<Rightarrow> status_event \<Rightarrow> int \<Rightarrow> db \<Rightarrow> gerr + unit \<times> db" where
  "UpdateOrderStatusAndInsertEvent oid ev now d = commit (steps [update_order oid (ev_from ev) (ev_to ev) now, insert_event ev] d)"

definition ChangeOrderNotificationOutbox ::
  "string \<Rightarrow> status_event \<Rightarrow> int \<Rightarrow> notification \<Rightarrow> outbox \<Rightarrow> string \<Rightarrow> string \<Rightarrow> string \<Rightarrow> db \<Rightarrow> gerr + unit \<times> db" where
  "ChangeOrderNotificationOutbox oid ev now n ob scope key snapshot d =
     commit (steps [update_order oid (ev_from ev) (ev_to ev) now, insert_event ev, insertNotificationTx n, insertOutboxTx ob,
       saveIdempotencyTx scope key snapshot] d)"

definition GetIdempotency :: "string \<Rightarrow> string \<Rightarrow> db \<Rightarrow> string option" where
  "GetIdempotency scope key d = map_of (db_idem d) (scope, key)"

definition GetOrder :: "string \<Rightarrow> db \<Rightarrow> gerr + order_row" where
  "GetOrder oid d = (case filter (\<lambda>r. or_id r = oid) (db_orders d) of [] \<Rightarrow> Inl ErrNotFound | r # _ \<Rightarrow> Inr r)"

definition GetNotification :: "string \<Rightarrow> db \<Rightarrow> gerr + notification" where
  "GetNotification nid d = (case filter (\<lambda>r. nt_id r = nid) (db_notes d) of [] \<Rightarrow> Inl ErrNotFound | r # _ \<Rightarrow> Inr r)"

definition GetOutbox :: "string \<Rightarrow> db \<Rightarrow> gerr + outbox" where
  "GetOutbox oid d = (case filter (\<lambda>r. ob_id r = oid) (db_outbox d) of [] \<Rightarrow> Inl ErrNotFound | r # _ \<Rightarrow> Inr r)"

section \<open>Claims\<close>

definition priority_rank :: "string \<Rightarrow> nat" where
  "priority_rank p = (if p = ''critical'' then 0 else if p = ''high'' then 1 else if p = ''normal'' then 2 else 3)"

definition outbox_due :: "int \<Rightarrow> outbox \<Rightarrow> bool" where
  "outbox_due now r \<longleftrightarrow> (ob_status r \<in> {''pending'', ''failed''} \<and> past (ob_nextRetry r) now
     \<or> ob_status r = ''processing'' \<and> past (ob_lockedUntil r) now) \<and> past (ob_lockedUntil r) now"

text \<open>Rows that another transaction has locked are skipped.\<close>

definition claim_ids :: "(string \<Rightarrow> bool) \<Rightarrow> int \<Rightarrow> int \<Rightarrow> db \<Rightarrow> string list" where
  "claim_ids skipped batchSize now d =
     map ob_id (take (nat (if batchSize \<le> 0 then 100 else batchSize))
       (sort_key (\<lambda>r. (priority_rank (ob_priority r), time_text (ob_created r)))
         (filter (\<lambda>r. outbox_due now r \<and> \<not> skipped (ob_id r)) (db_outbox d))))"

definition claimable :: "int \<Rightarrow> string \<Rightarrow> outbox \<Rightarrow> bool" where
  "claimable now oid r \<longleftrightarrow> ob_id r = oid \<and> ob_status r \<in> {''pending'', ''failed'', ''processing''} \<and> past (ob_lockedUntil r) now"

fun claim_each :: "string \<Rightarrow> int \<Rightarrow> int \<Rightarrow> string list \<Rightarrow> outbox list \<Rightarrow> string list \<times> outbox list" where
  "claim_each workerID now lockTTL [] rows = ([], rows)"
| "claim_each workerID now lockTTL (oid # ids) rows =
     (let hit = (\<exists>r \<in> set rows. claimable now oid r);
          rows1 = update_where (claimable now oid)
            (\<lambda>r. r\<lparr>ob_status := ''processing'', ob_lockedBy := Some workerID, ob_lockedUntil := Some (now + lockTTL), ob_updated := now\<rparr>) rows;
          (claimed, rows2) = claim_each workerID now lockTTL ids rows1
      in (if hit then oid # claimed else claimed, rows2))"

definition ClaimOutbox :: "string \<Rightarrow> int \<Rightarrow> int \<Rightarrow> (string \<Rightarrow> bool) \<Rightarrow> int \<Rightarrow> db \<Rightarrow> gerr + outbox list \<times> db" where
  "ClaimOutbox workerID batchSize lockTTL skipped now d =
     (let (claimed, rows) = claim_each workerID now lockTTL (claim_ids skipped batchSize now d) (db_outbox d)
      in Inr (filter (\<lambda>r. ob_id r \<in> set claimed) rows, d\<lparr>db_outbox := rows\<rparr>))"

definition claimable_published :: "int \<Rightarrow> string \<Rightarrow> outbox \<Rightarrow> bool" where
  "claimable_published now oid r \<longleftrightarrow> ob_id r = oid
     \<and> (ob_status r = ''published'' \<or> ob_status r = ''delivering'' \<and> past (ob_lockedUntil r) now)"

definition ClaimPublishedOutbox :: "string \<Rightarrow> string \<Rightarrow> int \<Rightarrow> int \<Rightarrow> db \<Rightarrow> gerr + outbox option \<times> db" where
  "ClaimPublishedOutbox oid workerID lockTTL now d =
     (if \<exists>r \<in> set (db_outbox d). claimable_published now oid r
      then let d1 = d\<lparr>db_outbox := update_where (claimable_published now oid)
             (\<lambda>r. r\<lparr>ob_status := ''delivering'', ob_lockedBy := Some workerID, ob_lockedUntil := Some (now + lockTTL), ob_updated := now\<rparr>)
             (db_outbox d)\<rparr>
           in map_sum id (\<lambda>r. (Some r, d1)) (GetOutbox oid d1)
      else Inr (None, d))"

section \<open>Outcomes of sending\<close>

definition insertAttemptTx :: "attempt \<Rightarrow> db \<Rightarrow> gerr + db" where
  "insertAttemptTx a d =
     (if at_notify a \<notin> nt_id ` set (db_notes d) then Inl Foreign_key
      else map_sum id (\<lambda>rows. d\<lparr>db_attempts := rows\<rparr>)
        (insert_row at_id (a\<lparr>at_path := (if at_path a = [] then ''unknown'' else at_path a), at_no := (if at_no a = 0 then 1 else at_no a)\<rparr>)
          (db_attempts d)))"

definition insert_attempt_opt :: "attempt option \<Rightarrow> db \<Rightarrow> gerr + db" where
  "insert_attempt_opt a d = (case a of None \<Rightarrow> Inr d | Some x \<Rightarrow> insertAttemptTx x d)"

text \<open>The new status of a row; its lock is released.\<close>

definition row_settled :: "string \<Rightarrow> string option \<Rightarrow> int \<Rightarrow> outbox \<Rightarrow> outbox" where
  "row_settled status err now r =
     r\<lparr>ob_status := status, ob_lockedBy := None, ob_lockedUntil := None, ob_lastError := err, ob_updated := now\<rparr>"

definition set_outbox :: "(outbox \<Rightarrow> bool) \<Rightarrow> (outbox \<Rightarrow> outbox) \<Rightarrow> db \<Rightarrow> db" where
  "set_outbox p f d = d\<lparr>db_outbox := update_where p f (db_outbox d)\<rparr>"

definition set_note :: "string \<Rightarrow> string list \<Rightarrow> string \<Rightarrow> int \<Rightarrow> db \<Rightarrow> db" where
  "set_note nid unless status now d =
     d\<lparr>db_notes := update_where (\<lambda>n. nt_id n = nid \<and> nt_status n \<notin> set unless) (\<lambda>n. n\<lparr>nt_status := status, nt_updated := now\<rparr>) (db_notes d)\<rparr>"

definition set_target :: "string \<Rightarrow> string \<Rightarrow> db \<Rightarrow> db" where
  "set_target nid status d = d\<lparr>db_targets := update_where (\<lambda>t. fst t = nid) (\<lambda>t. (fst t, status)) (db_targets d)\<rparr>"

definition MarkOutboxSent :: "string \<Rightarrow> attempt \<Rightarrow> int \<Rightarrow> db \<Rightarrow> gerr + unit \<times> db" where
  "MarkOutboxSent oid a now d =
     (case insertAttemptTx a d of
        Inl e \<Rightarrow> Inl e
      | Inr d1 \<Rightarrow> Inr ((), set_target (at_notify a) ''sent'' (set_note (at_notify a) [''acked''] ''delivered'' now
          (set_outbox (\<lambda>r. ob_id r = oid) (row_settled ''sent'' None now) d1))))"

text \<open>Only the worker that holds the lock of the row may report what became of publishing it.\<close>

definition held :: "string \<Rightarrow> string \<Rightarrow> outbox \<Rightarrow> bool" where
  "held oid workerID r \<longleftrightarrow> ob_id r = oid \<and> ob_status r = ''processing'' \<and> ob_lockedBy r = Some workerID"

definition MarkOutboxPublished :: "string \<Rightarrow> string \<Rightarrow> attempt option \<Rightarrow> int \<Rightarrow> db \<Rightarrow> gerr + unit \<times> db" where
  "MarkOutboxPublished oid workerID a now d =
     (case insert_attempt_opt a d of
        Inl e \<Rightarrow> Inl e
      | Inr d1 \<Rightarrow>
          if \<not> (\<exists>r \<in> set (db_outbox d1). held oid workerID r) then Inl ErrNotFound
          else let d2 = set_outbox (held oid workerID) (row_settled ''published'' None now) d1
               in Inr ((), case a of None \<Rightarrow> d2
                           | Some x \<Rightarrow> set_target (at_notify x) ''queued'' (set_note (at_notify x) [''acked'', ''delivered''] ''queued'' now d2)))"

definition MarkOutboxPublishRetry :: "string \<Rightarrow> string \<Rightarrow> int \<Rightarrow> int \<Rightarrow> string \<Rightarrow> attempt option \<Rightarrow> int \<Rightarrow> db \<Rightarrow> gerr + unit \<times> db" where
  "MarkOutboxPublishRetry oid workerID retryCount nextRetryAt lastError a now d =
     (case insert_attempt_opt a d of
        Inl e \<Rightarrow> Inl e
      | Inr d1 \<Rightarrow>
          if \<not> (\<exists>r \<in> set (db_outbox d1). held oid workerID r) then Inl ErrNotFound
          else let d2 = set_outbox (held oid workerID)
                 (\<lambda>r. (row_settled ''failed'' (Some lastError) now r)\<lparr>ob_retry := retryCount, ob_nextRetry := Some nextRetryAt\<rparr>) d1
               in Inr ((), case a of None \<Rightarrow> d2
                           | Some x \<Rightarrow> set_target (at_notify x) ''retrying'' (set_note (at_notify x) [''acked''] ''retrying'' now d2)))"

definition MarkOutboxExpired :: "string \<Rightarrow> string \<Rightarrow> string \<Rightarrow> int \<Rightarrow> db \<Rightarrow> gerr + unit \<times> db" where
  "MarkOutboxExpired oid nid lastError now d =
     (let live = (\<lambda>r. ob_status r \<notin> {''sent'', ''dlq'', ''expired''});
          d1 = (if oid \<noteq> [] then set_outbox (\<lambda>r. ob_id r = oid \<and> live r) (row_settled ''expired'' (Some lastError) now) d
                else if nid \<noteq> [] then set_outbox (\<lambda>r. ob_notify r = nid \<and> live r) (row_settled ''expired'' (Some lastError) now) d
                else d)
      in Inr ((), if nid \<noteq> [] then set_target nid ''expired'' (set_note nid [''acked''] ''expired'' now d1) else d1))"

definition MarkOutboxRetry :: "string \<Rightarrow> int \<Rightarrow> int \<Rightarrow> string \<Rightarrow> attempt \<Rightarrow> int \<Rightarrow> db \<Rightarrow> gerr + unit \<times> db" where
  "MarkOutboxRetry oid retryCount nextRetryAt lastError a now d =
     (case insertAttemptTx a d of
        Inl e \<Rightarrow> Inl e
      | Inr d1 \<Rightarrow> Inr ((), set_target (at_notify a) ''retrying'' (set_outbox (\<lambda>r. ob_id r = oid)
          (\<lambda>r. (row_settled ''failed'' (Some lastError) now r)\<lparr>ob_retry := retryCount, ob_nextRetry := Some nextRetryAt\<rparr>) d1)))"

text \<open>A dead letter is kept unless there is one of the same id or of the same outbox row.\<close>

definition insert_ignore_dlq :: "dead_letter \<Rightarrow> dead_letter list \<Rightarrow> dead_letter list" where
  "insert_ignore_dlq q rows = (if dq_id q \<in> dq_id ` set rows \<or> dq_outbox q \<in> dq_outbox ` set rows then rows
     else rows @ [q\<lparr>dq_resolvedAt := None, dq_resolvedBy := [], dq_resolution := []\<rparr>])"

definition MoveOutboxToDLQ :: "outbox \<Rightarrow> dead_letter \<Rightarrow> attempt option \<Rightarrow> string \<Rightarrow> db \<Rightarrow> gerr + unit \<times> db" where
  "MoveOutboxToDLQ ob q a status d =
     (case insert_attempt_opt a d of
        Inl e \<Rightarrow> Inl e
      | Inr d1 \<Rightarrow>
          let d2 = set_target (ob_notify ob) (if status = ''dlq'' then ''dlq'' else ''failed'')
                (set_note (ob_notify ob) [] status (dq_created q)
                (set_outbox (\<lambda>r. ob_id r = ob_id ob) (row_settled status (Some (dq_lastError q)) (dq_created q)) d1));
              q1 = q\<lparr>dq_strategy := (if dq_strategy q = [] then ob_strategy ob else dq_strategy q)\<rparr>
          in Inr ((), if status = ''dlq'' then d2\<lparr>db_dlq := insert_ignore_dlq q1 (db_dlq d2)\<rparr> else d2))"

definition MarkOutboxDropped :: "string \<Rightarrow> string \<Rightarrow> attempt option \<Rightarrow> int \<Rightarrow> db \<Rightarrow> gerr + unit \<times> db" where
  "MarkOutboxDropped oid lastError a now d =
     (case insert_attempt_opt a d of
        Inl e \<Rightarrow> Inl e
      | Inr d1 \<Rightarrow>
          let d2 = set_outbox (\<lambda>r. ob_id r = oid) (row_settled ''dropped'' (Some lastError) now) d1
          in Inr ((), case a of None \<Rightarrow> d2 | Some x \<Rightarrow> set_target (at_notify x) ''dropped'' (set_note (at_notify x) [] ''dropped'' now d2)))"

section \<open>Acknowledgements\<close>

definition normalizeAckKey :: "ack_row \<Rightarrow> string" where
  "normalizeAckKey ak =
     (if ak_key ak \<noteq> [] then ak_key ak
      else if ak_device ak \<noteq> [] \<or> ak_session ak \<noteq> [] then ak_msg ak @ ''|'' @ ak_device ak @ ''|'' @ ak_session ak
      else if ak_msg ak \<noteq> [] then ak_msg ak
      else ''legacy'')"

definition ackPolicySatisfied :: "string \<Rightarrow> string \<Rightarrow> string \<Rightarrow> string list \<Rightarrow> int \<Rightarrow> int \<Rightarrow> bool" where
  "ackPolicySatisfied policy device primary devices acked expected =
     (if policy = ''none'' \<or> policy = ''best_effort'' then True
      else if policy = ''primary_device'' then (if primary = [] then 0 < acked else device = primary)
      else if policy = ''all_devices''
      then (if devices \<noteq> [] then int (length devices) \<le> acked else 0 < expected \<and> expected \<le> acked)
      else if policy = ''any_device'' \<or> policy = [] then 0 < acked
      else 0 < expected \<and> expected \<le> acked)"

definition ackSnapshot :: "bool \<Rightarrow> string \<Rightarrow> string" where
  "ackSnapshot recorded fallback =
     (if fallback \<noteq> [] then fallback else if recorded then ''{\"recorded\":true}'' else ''{\"recorded\":false}'')"

definition satisfied_already :: "notification \<Rightarrow> bool" where
  "satisfied_already n \<longleftrightarrow> nt_business n = ''satisfied'' \<and> nt_policy n \<in> {''any_device'', ''none'', ''best_effort'', []}"

text \<open>The transaction of an acknowledgement, from the row \<open>n\<close> it read when it began. Another transaction may commit in between.\<close>

definition record_ack_on :: "notification \<Rightarrow> ack_row \<Rightarrow> string \<Rightarrow> string \<Rightarrow> string \<Rightarrow> db \<Rightarrow> gerr + bool \<times> db" where
  "record_ack_on n ak scope key snapshot d =
     (let key1 = normalizeAckKey ak;
          known = (\<exists>r \<in> set (db_acks d). ak_id r = ak_id ak \<or> ak_notify r = ak_notify ak \<and> ak_key r = key1)
      in if satisfied_already n \<or> known
         then map_sum id (Pair False) (saveIdempotencyTx scope key (ackSnapshot False snapshot) d)
         else let counts = nt_policy n \<noteq> ''all_devices'' \<or> nt_devices n = [] \<or> ak_device ak \<in> set (nt_devices n);
                  acked = (if counts then nt_acked n + 1 else nt_acked n);
                  ok = ackPolicySatisfied (nt_policy n) (ak_device ak) (nt_primary n) (nt_devices n) acked (nt_expected n);
                  row = ak\<lparr>ak_key := key1, ak_satisfied := (if ok then Some (ak_created ak) else None)\<rparr>;
                  d1 = d\<lparr>db_acks := db_acks d @ [row],
                         db_notes := update_where (\<lambda>m. nt_id m = ak_notify ak)
                           (\<lambda>m. m\<lparr>nt_status := (if ok then ''acked'' else nt_status n), nt_acked := acked,
                                  nt_business := (if ok then ''satisfied'' else ''pending''), nt_updated := ak_created ak\<rparr>) (db_notes d)\<rparr>;
                  d2 = (if ok then set_target (ak_notify ak) ''acked'' d1 else d1)
              in map_sum id (Pair True) (saveIdempotencyTx scope key (ackSnapshot True snapshot) d2))"

definition RecordAckWithIdempotency :: "ack_row \<Rightarrow> string \<Rightarrow> string \<Rightarrow> string \<Rightarrow> db \<Rightarrow> gerr + bool \<times> db" where
  "RecordAckWithIdempotency ak scope key snapshot d =
     (case GetNotification (ak_notify ak) d of
        Inl e \<Rightarrow> Inr (False, d)
      | Inr n \<Rightarrow> record_ack_on n ak scope key snapshot d)"

definition RecordAck :: "ack_row \<Rightarrow> db \<Rightarrow> gerr + bool \<times> db" where
  "RecordAck ak = RecordAckWithIdempotency ak [] [] []"

section \<open>Single statements\<close>

definition InsertOrder :: "order_row \<Rightarrow> db \<Rightarrow> gerr + unit \<times> db" where
  "InsertOrder order d = commit (insertOrderTx order d)"

definition InsertNotification :: "notification \<Rightarrow> db \<Rightarrow> gerr + unit \<times> db" where
  "InsertNotification n d = commit (insertNotificationTx n d)"

definition InsertAttempt :: "attempt \<Rightarrow> db \<Rightarrow> gerr + unit \<times> db" where
  "InsertAttempt a d = commit (insertAttemptTx a d)"

definition SaveIdempotency :: "string \<Rightarrow> string \<Rightarrow> string \<Rightarrow> db \<Rightarrow> gerr + unit \<times> db" where
  "SaveIdempotency scope key snapshot d = commit (saveIdempotencyTx scope key snapshot d)"

definition UpdateNotificationStatus :: "string \<Rightarrow> string \<Rightarrow> int \<Rightarrow> db \<Rightarrow> gerr + unit \<times> db" where
  "UpdateNotificationStatus nid status now d = Inr ((), set_note nid [] status now d)"

section \<open>Dead letters\<close>

definition ReplayDLQ :: "string \<Rightarrow> string \<Rightarrow> int \<Rightarrow> db \<Rightarrow> gerr + unit \<times> db" where
  "ReplayDLQ qid resolvedBy now d =
     (case filter (\<lambda>q. dq_id q = qid) (db_dlq d) of
        [] \<Rightarrow> Inl ErrNotFound
      | q # _ \<Rightarrow>
          let d1 = set_outbox (\<lambda>r. ob_id r = dq_outbox q) (\<lambda>r. (row_settled ''pending'' None now r)\<lparr>ob_nextRetry := None\<rparr>) d
          in Inr ((), d1\<lparr>db_dlq := update_where (\<lambda>x. dq_id x = qid)
               (\<lambda>x. x\<lparr>dq_resolvedAt := Some now, dq_resolvedBy := resolvedBy, dq_resolution := ''replay''\<rparr>) (db_dlq d1)\<rparr>))"

definition ResolveDLQ :: "string \<Rightarrow> string \<Rightarrow> string \<Rightarrow> int \<Rightarrow> db \<Rightarrow> gerr + unit \<times> db" where
  "ResolveDLQ qid resolvedBy resolution now d =
     (if \<exists>q \<in> set (db_dlq d). dq_id q = qid
      then Inr ((), d\<lparr>db_dlq := update_where (\<lambda>x. dq_id x = qid)
             (\<lambda>x. x\<lparr>dq_resolvedAt := Some now, dq_resolvedBy := resolvedBy, dq_resolution := resolution\<rparr>) (db_dlq d)\<rparr>)
      else Inl ErrNotFound)"

definition CleanupStaleIdempotencyKeys :: "((string \<times> string) \<Rightarrow> bool) \<Rightarrow> db \<Rightarrow> gerr + int \<times> db" where
  "CleanupStaleIdempotencyKeys old d =
     Inr (int (length (filter (old \<circ> fst) (db_idem d))), d\<lparr>db_idem := filter (\<lambda>r. \<not> old (fst r)) (db_idem d)\<rparr>)"

end
