(* ===== verification/Notify_Invariant.thy ===== *)
theory Notify_Invariant
  imports Notify_Store
begin

text \<open>
  What every transaction of the notification server keeps, and what happens to claims, acknowledgements and dead
  letters over runs of transactions (\<open>internal/notify/store\<close>).
\<close>

section \<open>Runs of transactions\<close>

datatype store_op =
    Create notification outbox string string string
  | Create_order order_row notification outbox string string string
  | Change_order string status_event int notification outbox string string string
  | Claim string int int "string \<Rightarrow> bool" int
  | Claim_published string string int int
  | Sent string attempt int
  | Published string string "attempt option" int
  | Publish_retry string string int int string "attempt option" int
  | Expire_row string string string int
  | Retry_row string int int string attempt int
  | Dead outbox dead_letter "attempt option" string
  | Drop_row string string "attempt option" int
  | Acked ack_row string string string
  | Replay string string int
  | Resolve string string string int

definition discard :: "gerr + 'a \<times> db \<Rightarrow> gerr + unit \<times> db" where
  "discard x = map_sum id (\<lambda>(y, d). ((), d)) x"

fun store_do :: "store_op \<Rightarrow> db \<Rightarrow> gerr + unit \<times> db" where
  "store_do (Create n ob scope key snap) d = CreateNotificationOutbox n ob scope key snap d"
| "store_do (Create_order r n ob scope key snap) d = CreateOrderNotificationOutbox r n ob scope key snap d"
| "store_do (Change_order oid ev now n ob scope key snap) d = ChangeOrderNotificationOutbox oid ev now n ob scope key snap d"
| "store_do (Claim w n ttl skipped now) d = discard (ClaimOutbox w n ttl skipped now d)"
| "store_do (Claim_published oid w ttl now) d = discard (ClaimPublishedOutbox oid w ttl now d)"
| "store_do (Sent oid a now) d = MarkOutboxSent oid a now d"
| "store_do (Published oid w a now) d = MarkOutboxPublished oid w a now d"
| "store_do (Publish_retry oid w n nxt err a now) d = MarkOutboxPublishRetry oid w n nxt err a now d"
| "store_do (Expire_row oid nid err now) d = MarkOutboxExpired oid nid err now d"
| "store_do (Retry_row oid n nxt err a now) d = MarkOutboxRetry oid n nxt err a now d"
| "store_do (Dead ob q a status) d = MoveOutboxToDLQ ob q a status d"
| "store_do (Drop_row oid err a now) d = MarkOutboxDropped oid err a now d"
| "store_do (Acked ak scope key snap) d = discard (RecordAckWithIdempotency ak scope key snap d)"
| "store_do (Replay qid who now) d = ReplayDLQ qid who now d"
| "store_do (Resolve qid who res now) d = ResolveDLQ qid who res now d"

fun store_run :: "(fate \<times> store_op) list \<Rightarrow> db \<Rightarrow> db" where
  "store_run [] d = d"
| "store_run ((f, op) # ops) d = store_run ops (snd (tx f (store_do op) d))"

text \<open>A property that every successful transaction keeps holds in every run.\<close>

lemma store_run_keeps:
  assumes "\<And>f op d d1. (f, op) \<in> set ops \<Longrightarrow> P d \<Longrightarrow> store_do op d = Inr ((), d1) \<Longrightarrow> P d1" and "P d"
  shows "P (store_run ops d)"
  using assms
proof (induction ops arbitrary: d)
  case (Cons fo ops)
  obtain f op where fo: "fo = (f, op)" by (cases fo)
  have "P (snd (tx f (store_do op) d))"
    using Cons.prems(1) [of f op d] Cons.prems(2) fo by (auto simp: tx_def split: fate.splits sum.splits)
  moreover have "\<And>f op d d1. (f, op) \<in> set ops \<Longrightarrow> P d \<Longrightarrow> store_do op d = Inr ((), d1) \<Longrightarrow> P d1"
    using Cons.prems(1) by (meson list.set_intros(2))
  ultimately show ?case using Cons.IH fo by simp
qed simp

section \<open>Well-formed databases\<close>

definition outbox_statuses :: "string set" where
  "outbox_statuses = {''pending'', ''processing'', ''failed'', ''published'', ''delivering'', ''sent'', ''expired'', ''dlq'', ''dropped''}"

text \<open>Exactly the rows that somebody works on have an owner and a time until which it has them.\<close>

definition row_ok :: "outbox \<Rightarrow> bool" where
  "row_ok r \<longleftrightarrow> ob_status r \<in> outbox_statuses \<and> (ob_lockedBy r \<noteq> None \<longleftrightarrow> ob_status r \<in> {''processing'', ''delivering''})
     \<and> (ob_lockedUntil r \<noteq> None \<longleftrightarrow> ob_lockedBy r \<noteq> None)"

definition note_acks :: "string \<Rightarrow> ack_row list \<Rightarrow> ack_row list" where
  "note_acks nid rows = filter (\<lambda>r. ak_notify r = nid) rows"

definition counted :: "notification \<Rightarrow> bool" where
  "counted n \<longleftrightarrow> nt_policy n \<noteq> ''all_devices'' \<or> nt_devices n = []"

definition outbox_ok :: "db \<Rightarrow> bool" where
  "outbox_ok d \<longleftrightarrow> distinct (map ob_id (db_outbox d))
     \<and> (\<forall>r \<in> set (db_outbox d). row_ok r \<and> ob_notify r \<in> nt_id ` set (db_notes d))"

definition acks_ok :: "db \<Rightarrow> bool" where
  "acks_ok d \<longleftrightarrow> distinct (map nt_id (db_notes d))
     \<and> distinct (map (\<lambda>r. (ak_notify r, ak_key r)) (db_acks d)) \<and> (\<forall>r \<in> set (db_acks d). ak_notify r \<in> nt_id ` set (db_notes d))
     \<and> (\<forall>n \<in> set (db_notes d). counted n \<longrightarrow> nt_acked n = int (length (note_acks (nt_id n) (db_acks d))))"

definition dlq_ok :: "db \<Rightarrow> bool" where
  "dlq_ok d \<longleftrightarrow> distinct (map dq_outbox (db_dlq d))"

definition db_ok :: "db \<Rightarrow> bool" where
  "db_ok d \<longleftrightarrow> outbox_ok d \<and> acks_ok d \<and> dlq_ok d"

text \<open>What the server hands to the database: new rows are pending and unlocked, new notifications have no acknowledgement,
  and a dead letter's row gets the status of dead letters or of expired ones.\<close>

fun op_ok :: "store_op \<Rightarrow> bool" where
  "op_ok (Create n ob scope key snap) \<longleftrightarrow> nt_acked n = 0 \<and> ob_status ob = ''pending'' \<and> ob_lockedBy ob = None \<and> ob_lockedUntil ob = None"
| "op_ok (Create_order r n ob scope key snap) \<longleftrightarrow> nt_acked n = 0 \<and> ob_status ob = ''pending'' \<and> ob_lockedBy ob = None \<and> ob_lockedUntil ob = None"
| "op_ok (Change_order oid ev now n ob scope key snap) \<longleftrightarrow>
     nt_acked n = 0 \<and> ob_status ob = ''pending'' \<and> ob_lockedBy ob = None \<and> ob_lockedUntil ob = None"
| "op_ok (Dead ob q a status) \<longleftrightarrow> status \<in> {''dlq'', ''expired''}"
| "op_ok _ \<longleftrightarrow> True"

lemma ball_update_where: "(\<forall>r \<in> set (update_where p f rows). Q r) \<longleftrightarrow> (\<forall>r \<in> set rows. Q (if p r then f r else r))"
  by (auto simp: update_where_def)

lemma map_update_where: "(\<And>r. g (f r) = g r) \<Longrightarrow> map g (update_where p f rows) = map g rows"
  by (simp add: update_where_def)

lemma image_update_where: "(\<And>r. g (f r) = g r) \<Longrightarrow> g ` set (update_where p f rows) = g ` set rows"
  by (metis list.set_map map_update_where)

lemma row_settled_simps [simp]:
  "ob_id (row_settled s e t r) = ob_id r" "ob_notify (row_settled s e t r) = ob_notify r" "ob_status (row_settled s e t r) = s"
  "ob_lockedBy (row_settled s e t r) = None" "ob_lockedUntil (row_settled s e t r) = None"
  by (simp_all add: row_settled_def)

text \<open>The pieces of the transactions, and what each leaves alone.\<close>

lemma outbox_ok_cong:
  "db_outbox d1 = db_outbox d \<Longrightarrow> nt_id ` set (db_notes d) \<subseteq> nt_id ` set (db_notes d1) \<Longrightarrow> outbox_ok d \<Longrightarrow> outbox_ok d1"
  by (auto simp: outbox_ok_def)

lemma acks_ok_cong: "db_notes d1 = db_notes d \<Longrightarrow> db_acks d1 = db_acks d \<Longrightarrow> acks_ok d1 = acks_ok d"
  by (simp add: acks_ok_def)

lemma outbox_ok_set:
  assumes "outbox_ok d" "\<And>r. ob_id (f r) = ob_id r" "\<And>r. ob_notify (f r) = ob_notify r" "\<And>r. row_ok r \<Longrightarrow> p r \<Longrightarrow> row_ok (f r)"
  shows "outbox_ok (set_outbox p f d)"
  using assms by (simp add: outbox_ok_def set_outbox_def map_update_where ball_update_where)

lemma acks_ok_notes:
  assumes "acks_ok d" "\<And>n. nt_id (f n) = nt_id n" "\<And>n. nt_acked (f n) = nt_acked n" "\<And>n. counted (f n) = counted n"
  shows "acks_ok (d\<lparr>db_notes := update_where p f (db_notes d)\<rparr>)"
  using assms by (simp add: acks_ok_def map_update_where image_update_where ball_update_where)

lemma db_ok_set_note [simp]: "db_ok d \<Longrightarrow> db_ok (set_note nid us st now d)"
  unfolding db_ok_def set_note_def
  by (auto simp: counted_def dlq_ok_def image_update_where intro!: acks_ok_notes elim: outbox_ok_cong [rotated 2])

lemma db_ok_set_target [simp]: "db_ok (set_target nid st d) = db_ok d"
  by (simp add: set_target_def db_ok_def outbox_ok_def acks_ok_def dlq_ok_def)

lemma db_ok_set_outbox:
  "db_ok d \<Longrightarrow> (\<And>r. ob_id (f r) = ob_id r) \<Longrightarrow> (\<And>r. ob_notify (f r) = ob_notify r) \<Longrightarrow> (\<And>r. row_ok r \<Longrightarrow> p r \<Longrightarrow> row_ok (f r))
     \<Longrightarrow> db_ok (set_outbox p f d)"
  using outbox_ok_set [of d f p] by (simp add: db_ok_def, simp add: set_outbox_def acks_ok_def dlq_ok_def)

lemma db_ok_attempt: "insertAttemptTx a d = Inr d1 \<Longrightarrow> db_ok d \<Longrightarrow> db_ok d1"
  by (auto simp: insertAttemptTx_def insert_row_def db_ok_def outbox_ok_def acks_ok_def dlq_ok_def split: if_splits)

lemma db_ok_attempt_opt: "insert_attempt_opt a d = Inr d1 \<Longrightarrow> db_ok d \<Longrightarrow> db_ok d1"
  by (auto simp: insert_attempt_opt_def intro: db_ok_attempt split: option.splits)

lemma db_ok_idem: "saveIdempotencyTx scope key snap d = Inr d1 \<Longrightarrow> db_ok d \<Longrightarrow> db_ok d1"
  by (auto simp: saveIdempotencyTx_def insert_row_def db_ok_def outbox_ok_def acks_ok_def dlq_ok_def split: if_splits)

lemma db_ok_orders: "insertOrderTx r d = Inr d1 \<Longrightarrow> db_ok d \<Longrightarrow> db_ok d1"
  "update_order oid s1 s2 now d = Inr d1 \<Longrightarrow> db_ok d \<Longrightarrow> db_ok d1" "insert_event ev d = Inr d1 \<Longrightarrow> db_ok d \<Longrightarrow> db_ok d1"
  by (auto simp: insertOrderTx_def update_order_def insert_event_def insert_row_def db_ok_def outbox_ok_def acks_ok_def dlq_ok_def Let_def split: if_splits)

lemma normalize_id [simp]: "nt_id (normalizeNotificationAckDefaults n) = nt_id n" "nt_acked (normalizeNotificationAckDefaults n) = nt_acked n"
  by (simp_all add: normalizeNotificationAckDefaults_def Let_def)

lemma note_acks_fresh: "(\<forall>r \<in> set rows. ak_notify r \<in> A) \<Longrightarrow> nid \<notin> A \<Longrightarrow> note_acks nid rows = []"
  by (auto simp: note_acks_def filter_empty_conv)

lemma db_ok_note: "insertNotificationTx n d = Inr d1 \<Longrightarrow> nt_acked n = 0 \<Longrightarrow> db_ok d \<Longrightarrow> db_ok d1"
  by (auto simp: insertNotificationTx_def insert_row_def db_ok_def outbox_ok_def acks_ok_def dlq_ok_def note_acks_fresh split: if_splits)

lemma db_ok_outbox:
  "insertOutboxTx ob d = Inr d1 \<Longrightarrow> ob_status ob = ''pending'' \<Longrightarrow> ob_lockedBy ob = None \<Longrightarrow> ob_lockedUntil ob = None \<Longrightarrow> db_ok d \<Longrightarrow> db_ok d1"
  by (auto simp: insertOutboxTx_def insert_row_def db_ok_def outbox_ok_def acks_ok_def dlq_ok_def row_ok_def outbox_statuses_def split: if_splits)

lemma steps_keep:
  assumes "\<And>f d d1. f \<in> set fs \<Longrightarrow> f d = Inr d1 \<Longrightarrow> P d \<Longrightarrow> P d1" and "steps fs d = Inr d1" and "P d"
  shows "P d1"
  using assms
proof (induction fs arbitrary: d)
  case (Cons f fs)
  obtain d2 where d2: "f d = Inr d2" "steps fs d2 = Inr d1" using Cons.prems(2) by (auto split: sum.splits)
  have "P d2" using Cons.prems(1) [of f d d2] Cons.prems(3) d2(1) by simp
  moreover have "\<And>f d d1. f \<in> set fs \<Longrightarrow> f d = Inr d1 \<Longrightarrow> P d \<Longrightarrow> P d1"
    using Cons.prems(1) by (meson list.set_intros(2))
  ultimately show ?case using Cons.IH d2(2) by blast
qed simp

section \<open>Every transaction keeps them\<close>

lemma commit_Inr: "commit x = Inr (u, d1) \<longleftrightarrow> x = Inr d1"
  by (cases x) (auto simp: commit_def)

lemma db_ok_steps:
  assumes "commit (steps fs d) = Inr (u, d1)" "db_ok d" "\<forall>f \<in> set fs. \<forall>d d1. f d = Inr d1 \<longrightarrow> db_ok d \<longrightarrow> db_ok d1"
  shows "db_ok d1"
  by (rule steps_keep [where P = db_ok and fs = fs and d = d]) (use assms in \<open>auto simp: commit_Inr\<close>)

lemma row_ok_settle: "s \<in> outbox_statuses - {''processing'', ''delivering''} \<Longrightarrow> row_ok (row_settled s e t r)"
  by (auto simp: row_ok_def)

lemma row_ok_retry: "row_ok ((row_settled ''failed'' e t r)\<lparr>ob_retry := n, ob_nextRetry := x\<rparr>)" "row_ok ((row_settled ''pending'' e t r)\<lparr>ob_nextRetry := x\<rparr>)"
  by (auto simp: row_ok_def outbox_statuses_def)

lemma db_ok_settle:
  "db_ok d \<Longrightarrow> s \<in> outbox_statuses - {''processing'', ''delivering''} \<Longrightarrow> db_ok (set_outbox p (row_settled s e t) d)"
  by (intro db_ok_set_outbox row_ok_settle) simp_all

lemma db_ok_retry: "db_ok d \<Longrightarrow> db_ok (set_outbox p (\<lambda>r. (row_settled ''failed'' e t r)\<lparr>ob_retry := n, ob_nextRetry := x\<rparr>) d)"
  "db_ok d \<Longrightarrow> db_ok (set_outbox p (\<lambda>r. (row_settled ''pending'' e t r)\<lparr>ob_nextRetry := x\<rparr>) d)"
  by (intro db_ok_set_outbox row_ok_retry; simp)+

lemma row_ok_claim:
  "row_ok r \<Longrightarrow> row_ok (r\<lparr>ob_status := ''processing'', ob_lockedBy := Some w, ob_lockedUntil := Some u, ob_updated := now\<rparr>)"
  "row_ok r \<Longrightarrow> row_ok (r\<lparr>ob_status := ''delivering'', ob_lockedBy := Some w, ob_lockedUntil := Some u, ob_updated := now\<rparr>)"
  by (auto simp: row_ok_def outbox_statuses_def)

lemma outbox_ok_claim_each:
  assumes "claim_each w now ttl ids rows = (claimed, rows1)" "outbox_ok (d\<lparr>db_outbox := rows\<rparr>)"
  shows "outbox_ok (d\<lparr>db_outbox := rows1\<rparr>)"
  using assms
proof (induction ids arbitrary: rows claimed)
  case (Cons oid ids)
  let ?f = "\<lambda>r. r\<lparr>ob_status := ''processing'', ob_lockedBy := Some w, ob_lockedUntil := Some (now + ttl), ob_updated := now\<rparr>"
  obtain c where c: "claim_each w now ttl ids (update_where (claimable now oid) ?f rows) = (c, rows1)"
    using Cons.prems(1) by (auto simp: Let_def split: prod.splits)
  have "outbox_ok (set_outbox (claimable now oid) ?f (d\<lparr>db_outbox := rows\<rparr>))"
    by (rule outbox_ok_set [OF Cons.prems(2)]) (simp_all add: row_ok_claim)
  then show ?case using Cons.IH [OF c] by (simp add: set_outbox_def)
qed simp

lemma db_ok_claim: "ClaimOutbox w n ttl sk now d = Inr (x, d1) \<Longrightarrow> db_ok d \<Longrightarrow> db_ok d1"
  using outbox_ok_claim_each [of w now ttl "claim_ids sk n now d" "db_outbox d" _ _ d]
  by (auto simp: ClaimOutbox_def db_ok_def acks_ok_def dlq_ok_def split: prod.splits)

lemma db_ok_claim_published: "ClaimPublishedOutbox oid w ttl now d = Inr (x, d1) \<Longrightarrow> db_ok d \<Longrightarrow> db_ok d1"
  by (auto simp: ClaimPublishedOutbox_def Let_def set_outbox_def [symmetric] map_sum_def
      intro!: db_ok_set_outbox row_ok_claim split: if_splits sum.splits)

lemma GetNotification_Inr: "GetNotification nid d = Inr n \<Longrightarrow> n \<in> set (db_notes d) \<and> nt_id n = nid"
  by (cases "filter (\<lambda>r. nt_id r = nid) (db_notes d)") (auto simp: GetNotification_def dest: filter_eq_ConsD)

text \<open>What an acknowledgement that is recorded adds.\<close>

definition ack_added :: "notification \<Rightarrow> ack_row \<Rightarrow> bool \<Rightarrow> int \<Rightarrow> db \<Rightarrow> db" where
  "ack_added n ak ok acked d =
     d\<lparr>db_acks := db_acks d @ [ak\<lparr>ak_key := normalizeAckKey ak, ak_satisfied := (if ok then Some (ak_created ak) else None)\<rparr>],
       db_notes := update_where (\<lambda>m. nt_id m = ak_notify ak)
         (\<lambda>m. m\<lparr>nt_status := (if ok then ''acked'' else nt_status n), nt_acked := acked,
                nt_business := (if ok then ''satisfied'' else ''pending''), nt_updated := ak_created ak\<rparr>) (db_notes d)\<rparr>"

lemma acks_ok_added:
  assumes "acks_ok d" "n \<in> set (db_notes d)" "nt_id n = ak_notify ak" "(ak_notify ak, normalizeAckKey ak) \<notin> (\<lambda>r. (ak_notify r, ak_key r)) ` set (db_acks d)"
    and "counted n \<longrightarrow> acked = nt_acked n + 1"
  shows "acks_ok (ack_added n ak ok acked d)"
proof -
  have same: "m = n" if "m \<in> set (db_notes d)" "nt_id m = ak_notify ak" for m
    using assms(1-3) that unfolding acks_ok_def distinct_map by (metis inj_onD)
  have a: "note_acks nid (db_acks d @ [r]) = note_acks nid (db_acks d) @ (if ak_notify r = nid then [r] else [])" for nid r
    by (simp add: note_acks_def)
  let ?p = "\<lambda>m. nt_id m = ak_notify ak"
  let ?f = "\<lambda>m. m\<lparr>nt_status := (if ok then ''acked'' else nt_status n), nt_acked := acked,
                nt_business := (if ok then ''satisfied'' else ''pending''), nt_updated := ak_created ak\<rparr>"
  let ?row = "ak\<lparr>ak_key := normalizeAckKey ak, ak_satisfied := (if ok then Some (ak_created ak) else None)\<rparr>"
  have cnt: "nt_acked (if ?p m then ?f m else m) = int (length (note_acks (nt_id m) (db_acks d @ [?row])))"
    if "m \<in> set (db_notes d)" "counted m" for m
  proof -
    have "nt_acked m = int (length (note_acks (nt_id m) (db_acks d)))" using assms(1) that by (simp add: acks_ok_def)
    then show ?thesis using same [OF that(1)] that(2) assms(5) unfolding a by (cases "?p m") auto
  qed
  have "nt_id ` set (update_where ?p ?f (db_notes d)) = nt_id ` set (db_notes d)" by (rule image_update_where) simp
  moreover have "map nt_id (update_where ?p ?f (db_notes d)) = map nt_id (db_notes d)" by (rule map_update_where) simp
  moreover have "\<forall>m \<in> set (update_where ?p ?f (db_notes d)). counted m \<longrightarrow> nt_acked m = int (length (note_acks (nt_id m) (db_acks d @ [?row])))"
    unfolding ball_update_where
  proof (intro ballI impI)
    fix m assume m: "m \<in> set (db_notes d)" "counted (if ?p m then ?f m else m)"
    have "counted m" using m(2) by (cases "?p m") (simp_all add: counted_def)
    moreover have "nt_id (if ?p m then ?f m else m) = nt_id m" by simp
    ultimately show "nt_acked (if ?p m then ?f m else m) = int (length (note_acks (nt_id (if ?p m then ?f m else m)) (db_acks d @ [?row])))"
      using cnt [OF m(1)] by (simp only:)
  qed
  moreover have "ak_notify ak \<in> nt_id ` set (db_notes d)" using assms(2,3) by force
  ultimately show ?thesis using assms(1,4) by (simp add: acks_ok_def ack_added_def)
qed

lemma record_ack_cases:
  assumes "record_ack_on n ak scope key snap d = Inr (b, d1)"
  shows "\<not> b \<and> saveIdempotencyTx scope key (ackSnapshot False snap) d = Inr d1
    \<or> b \<and> \<not> satisfied_already n \<and> (ak_notify ak, normalizeAckKey ak) \<notin> (\<lambda>r. (ak_notify r, ak_key r)) ` set (db_acks d)
      \<and> (\<exists>ok acked. (counted n \<longrightarrow> acked = nt_acked n + 1)
          \<and> ok = ackPolicySatisfied (nt_policy n) (ak_device ak) (nt_primary n) (nt_devices n) acked (nt_expected n)
          \<and> saveIdempotencyTx scope key (ackSnapshot True snap)
              (if ok then set_target (ak_notify ak) ''acked'' (ack_added n ak ok acked d) else ack_added n ak ok acked d) = Inr d1)"
proof (cases "satisfied_already n \<or> (\<exists>r \<in> set (db_acks d). ak_id r = ak_id ak \<or> ak_notify r = ak_notify ak \<and> ak_key r = normalizeAckKey ak)")
  case True
  then show ?thesis using assms by (cases "saveIdempotencyTx scope key (ackSnapshot False snap) d") (auto simp: record_ack_on_def Let_def)
next
  case False
  define acked where "acked = (if counted n \<or> ak_device ak \<in> set (nt_devices n) then nt_acked n + 1 else nt_acked n)"
  define ok where "ok = ackPolicySatisfied (nt_policy n) (ak_device ak) (nt_primary n) (nt_devices n) acked (nt_expected n)"
  have "map_sum id (Pair True) (saveIdempotencyTx scope key (ackSnapshot True snap)
      (if ok then set_target (ak_notify ak) ''acked'' (ack_added n ak ok acked d) else ack_added n ak ok acked d)) = Inr (b, d1)"
    using assms False
    by (simp only: record_ack_on_def Let_def if_False ack_added_def acked_def counted_def ok_def de_Morgan_disj not_not disj_assoc)
  then have "b \<and> saveIdempotencyTx scope key (ackSnapshot True snap)
      (if ok then set_target (ak_notify ak) ''acked'' (ack_added n ak ok acked d) else ack_added n ak ok acked d) = Inr d1"
    by (cases "saveIdempotencyTx scope key (ackSnapshot True snap)
      (if ok then set_target (ak_notify ak) ''acked'' (ack_added n ak ok acked d) else ack_added n ak ok acked d)") auto
  moreover have "counted n \<longrightarrow> acked = nt_acked n + 1" by (simp add: acked_def)
  moreover have "(ak_notify ak, normalizeAckKey ak) \<notin> (\<lambda>r. (ak_notify r, ak_key r)) ` set (db_acks d)" using False by auto
  ultimately show ?thesis using False ok_def by blast
qed

lemma db_ok_ack:
  assumes "record_ack_on n ak scope key snap d = Inr (b, d1)" "db_ok d" "n \<in> set (db_notes d)" "nt_id n = ak_notify ak"
  shows "db_ok d1"
proof -
  have added: "db_ok (ack_added n ak ok acked d)"
    if "(ak_notify ak, normalizeAckKey ak) \<notin> (\<lambda>r. (ak_notify r, ak_key r)) ` set (db_acks d)" "counted n \<longrightarrow> acked = nt_acked n + 1" for ok acked
  proof -
    have "acks_ok (ack_added n ak ok acked d)" using acks_ok_added assms(2-4) that by (simp add: db_ok_def)
    moreover have "outbox_ok (ack_added n ak ok acked d)"
      using assms(2) by (simp add: db_ok_def outbox_ok_def ack_added_def image_update_where)
    ultimately show ?thesis using assms(2) by (simp add: db_ok_def dlq_ok_def ack_added_def)
  qed
  from record_ack_cases [OF assms(1)] show ?thesis
    using db_ok_idem assms(2) added by (auto split: if_splits)
qed

lemma db_ok_dlq: "db_ok d \<Longrightarrow> db_ok (d\<lparr>db_dlq := insert_ignore_dlq q (db_dlq d)\<rparr>)"
  "db_ok d \<Longrightarrow> (\<And>x. dq_outbox (f x) = dq_outbox x) \<Longrightarrow> db_ok (d\<lparr>db_dlq := update_where p f (db_dlq d)\<rparr>)"
  by (auto simp: db_ok_def outbox_ok_def acks_ok_def dlq_ok_def insert_ignore_dlq_def map_update_where)

lemma store_do_keeps:
  assumes "op_ok op" "db_ok d" "store_do op d = Inr ((), d1)"
  shows "db_ok d1"
proof -
  have discard: "\<exists>x. y = Inr (x, d1)" if "discard y = Inr ((), d1)" for y :: "gerr + 'a \<times> db"
    using that by (cases y) (auto simp: discard_def)
  note st = insert_Diff_if outbox_statuses_def
  show ?thesis
  proof (cases op)
    case (Create n ob scope key snap)
    then show ?thesis
      using assms by (auto simp: CreateNotificationOutbox_def simp del: steps.simps intro: db_ok_note db_ok_outbox db_ok_idem elim!: db_ok_steps)
  next
    case (Create_order r n ob scope key snap)
    then show ?thesis
      using assms by (auto simp: CreateOrderNotificationOutbox_def simp del: steps.simps intro: db_ok_note db_ok_outbox db_ok_idem db_ok_orders elim!: db_ok_steps)
  next
    case (Change_order oid ev now n ob scope key snap)
    then show ?thesis
      using assms by (auto simp: ChangeOrderNotificationOutbox_def simp del: steps.simps intro: db_ok_note db_ok_outbox db_ok_idem db_ok_orders elim!: db_ok_steps)
  next
    case (Claim w n ttl sk now)
    then show ?thesis using assms discard [of "ClaimOutbox w n ttl sk now d"] by (auto intro: db_ok_claim)
  next
    case (Claim_published oid w ttl now)
    then show ?thesis using assms discard [of "ClaimPublishedOutbox oid w ttl now d"] by (auto intro: db_ok_claim_published)
  next
    case (Sent oid a now)
    then show ?thesis using assms by (auto simp: MarkOutboxSent_def st intro!: db_ok_settle db_ok_set_note dest: db_ok_attempt split: sum.splits)
  next
    case (Published oid w a now)
    then show ?thesis using assms
      by (auto simp: MarkOutboxPublished_def Let_def st intro!: db_ok_settle db_ok_set_note dest: db_ok_attempt_opt split: sum.splits if_splits option.splits)
  next
    case (Publish_retry oid w n nxt err a now)
    then show ?thesis using assms
      by (auto simp: MarkOutboxPublishRetry_def Let_def intro!: db_ok_retry db_ok_set_note dest: db_ok_attempt_opt split: sum.splits if_splits option.splits)
  next
    case (Expire_row oid nid err now)
    then show ?thesis using assms by (auto simp: MarkOutboxExpired_def Let_def st intro!: db_ok_settle db_ok_set_note split: if_splits)
  next
    case (Retry_row oid n nxt err a now)
    then show ?thesis using assms by (auto simp: MarkOutboxRetry_def intro!: db_ok_retry dest: db_ok_attempt split: sum.splits)
  next
    case (Dead ob q a status)
    then show ?thesis using assms
      by (auto simp: MoveOutboxToDLQ_def Let_def st intro!: db_ok_settle db_ok_set_note db_ok_dlq dest!: db_ok_attempt_opt split: sum.splits)
  next
    case (Drop_row oid err a now)
    then show ?thesis using assms
      by (auto simp: MarkOutboxDropped_def Let_def st intro!: db_ok_settle db_ok_set_note dest: db_ok_attempt_opt split: sum.splits option.splits)
  next
    case (Acked ak scope key snap)
    then obtain b where b: "RecordAckWithIdempotency ak scope key snap d = Inr (b, d1)"
      using assms discard [of "RecordAckWithIdempotency ak scope key snap d"] by auto
    show ?thesis
    proof (cases "GetNotification (ak_notify ak) d")
      case (Inr n)
      then show ?thesis using b db_ok_ack [of n] assms(2) GetNotification_Inr [OF Inr] by (simp add: RecordAckWithIdempotency_def)
    qed (use b assms(2) in \<open>simp add: RecordAckWithIdempotency_def\<close>)
  next
    case (Replay qid who now)
    then show ?thesis using assms by (auto simp: ReplayDLQ_def Let_def intro!: db_ok_retry db_ok_dlq split: list.splits)
  next
    case (Resolve qid who res now)
    then show ?thesis using assms by (auto simp: ResolveDLQ_def intro!: db_ok_dlq split: if_splits)
  qed
qed

lemma run_keeps_db_ok:
  assumes "\<And>f op. (f, op) \<in> set ops \<Longrightarrow> op_ok op" and "db_ok d"
  shows "db_ok (store_run ops d)"
  by (rule store_run_keeps [where P = db_ok]) (use assms store_do_keeps in blast)+

lemma empty_db_ok: "db_ok empty_db"
  by (simp add: empty_db_def db_ok_def outbox_ok_def acks_ok_def dlq_ok_def)


definition new_note :: notification where
  "new_note = \<lparr>nt_id = ''n1'', nt_user = ''7'', nt_status = ''pending'', nt_policy = ''all_devices'', nt_expected = 2, nt_acked = 0,
     nt_business = ''pending'', nt_devices = [], nt_primary = [], nt_created = 0, nt_updated = 0\<rparr>"

definition demo_row :: outbox where
  "demo_row = \<lparr>ob_id = ''o1'', ob_notify = ''n1'', ob_user = ''7'', ob_order = [], ob_business = ''order'', ob_event = ''paid'',
     ob_payload = ''{}'', ob_priority = ''high'', ob_ttl = 0, ob_status = ''pending'', ob_retry = 0, ob_nextRetry = None,
     ob_lockedBy = None, ob_lockedUntil = None, ob_lastError = None, ob_strategy = ''retry_then_dlq'', ob_created = 0, ob_updated = 0\<rparr>"

definition demo_db :: db where
  "demo_db = empty_db\<lparr>db_notes := [new_note], db_outbox := [demo_row]\<rparr>"

lemma demo_created: "store_run [(Answered, Create new_note demo_row [] [] [])] empty_db = demo_db"
  by (simp add: tx_def CreateNotificationOutbox_def commit_def insertNotificationTx_def insertOutboxTx_def saveIdempotencyTx_def
      insert_row_def normalizeNotificationAckDefaults_def empty_db_def demo_db_def new_note_def demo_row_def)


section \<open>Acknowledgements are counted\<close>


definition demo_ack :: "string \<Rightarrow> ack_row" where
  "demo_ack dev = \<lparr>ak_id = dev, ak_notify = ''n1'', ak_user = ''7'', ak_msg = ''m'', ak_device = dev, ak_session = [], ak_key = [],
     ak_satisfied = None, ak_created = 5\<rparr>"

definition acked_note :: "int \<Rightarrow> notification" where
  "acked_note k = new_note\<lparr>nt_acked := k, nt_updated := 5\<rparr>"

lemma demo_first_ack:
  "record_ack_on new_note (demo_ack ''a'') [] [] [] demo_db
   = Inr (True, demo_db\<lparr>db_acks := [(demo_ack ''a'')\<lparr>ak_key := ''m|a|''\<rparr>], db_notes := [acked_note 1]\<rparr>)"
  by (simp add: record_ack_on_def satisfied_already_def new_note_def demo_ack_def normalizeAckKey_def ackPolicySatisfied_def
      saveIdempotencyTx_def update_where_def demo_db_def empty_db_def acked_note_def Let_def)

lemma demo_acked_run: "store_run [(Answered, Create new_note demo_row [] [] []), (Answered, Acked (demo_ack ''a'') [] [] [])] empty_db
   = demo_db\<lparr>db_acks := [(demo_ack ''a'')\<lparr>ak_key := ''m|a|''\<rparr>], db_notes := [acked_note 1]\<rparr>"
proof -
  have "GetNotification ''n1'' demo_db = Inr new_note"
    by (simp add: GetNotification_def demo_db_def new_note_def)
  moreover have "ak_notify (demo_ack ''a'') = ''n1''" by (simp add: demo_ack_def)
  ultimately have "store_run [(Answered, Acked (demo_ack ''a'') [] [] [])] demo_db
      = demo_db\<lparr>db_acks := [(demo_ack ''a'')\<lparr>ak_key := ''m|a|''\<rparr>], db_notes := [acked_note 1]\<rparr>"
    using demo_first_ack by (simp add: tx_def discard_def RecordAckWithIdempotency_def)
  then show ?thesis using demo_created by simp
qed




end
