(* ===== verification/Notify_Claims.thy ===== *)
theory Notify_Claims
  imports Notify_Invariant
begin

text \<open>
  What a claim of an outbox row is worth while other transactions run, and what becomes of a row that fails again after
  its dead letter was replayed (\<open>ClaimOutbox\<close>, \<open>MoveOutboxToDLQ\<close>, \<open>ReplayDLQ\<close> of
  \<open>internal/notify/store/store.go\<close>).
\<close>

section \<open>The row of an id\<close>

definition rows_of :: "string \<Rightarrow> outbox list \<Rightarrow> outbox list" where
  "rows_of oid rows = filter (\<lambda>r. ob_id r = oid) rows"

lemma rows_of_update:
  assumes "\<And>r. ob_id (f r) = ob_id r"
  shows "rows_of oid (update_where p f rows) = map (\<lambda>r. if p r then f r else r) (rows_of oid rows)"
  using assms by (induction rows) (auto simp: rows_of_def update_where_def)

lemma rows_of_distinct: "distinct (map ob_id rows) \<Longrightarrow> r \<in> set rows \<Longrightarrow> rows_of (ob_id r) rows = [r]"
  by (induction rows) (auto simp: rows_of_def filter_empty_conv intro: rev_image_eqI)

lemma rows_of_self: "r \<in> set rows \<Longrightarrow> r \<in> set (rows_of (ob_id r) rows)"
  by (simp add: rows_of_def)

lemma rows_of_mem: "r \<in> set rows \<Longrightarrow> rows_of (ob_id r) rows = [x] \<Longrightarrow> x = r"
  using rows_of_self by fastforce

lemma rows_of_in:
  assumes "rows_of oid rows = [r]"
  shows "r \<in> set rows \<and> ob_id r = oid"
proof -
  have "r \<in> set (rows_of oid rows)" using assms by simp
  then show ?thesis by (simp add: rows_of_def)
qed

lemma rows_of_set_outbox:
  assumes "rows_of oid (db_outbox d) = [r]" "\<And>x. ob_id (f x) = ob_id x" "ob_id r = oid \<Longrightarrow> \<not> p r"
  shows "rows_of oid (db_outbox (set_outbox p f d)) = [r]"
proof -
  have "ob_id r = oid" using rows_of_in [OF assms(1)] by simp
  then show ?thesis using assms by (simp add: set_outbox_def rows_of_update)
qed

lemma GetOutbox_rows: "rows_of oid (db_outbox d) = [r] \<Longrightarrow> GetOutbox oid d = Inr r"
  by (simp add: GetOutbox_def rows_of_def)

lemma db_outbox_pieces [simp]:
  "db_outbox (set_note nid us st now d) = db_outbox d" "db_outbox (set_target nid st d) = db_outbox d"
  by (simp_all add: set_note_def set_target_def)

section \<open>Claiming\<close>

text \<open>The rows a worker claims are locked by it; a row that is locked beyond the time of the claim is not touched.\<close>

definition locked_by :: "string \<Rightarrow> int \<Rightarrow> outbox \<Rightarrow> bool" where
  "locked_by w u r \<longleftrightarrow> ob_status r = ''processing'' \<and> ob_lockedBy r = Some w \<and> ob_lockedUntil r = Some u"

lemma claim_each_locks:
  assumes "claim_each w now ttl ids rows = (claimed, rows1)" "distinct (map ob_id rows)"
  shows "(\<forall>r \<in> set rows1. ob_id r \<in> set claimed \<or> (\<forall>x \<in> set (rows_of (ob_id r) rows). locked_by w (now + ttl) x) \<longrightarrow> locked_by w (now + ttl) r)
    \<and> map ob_id rows1 = map ob_id rows"
  using assms
proof (induction ids arbitrary: rows claimed)
  case Nil
  then show ?case using rows_of_self by fastforce
next
  case (Cons oid ids)
  let ?f = "\<lambda>r. r\<lparr>ob_status := ''processing'', ob_lockedBy := Some w, ob_lockedUntil := Some (now + ttl), ob_updated := now\<rparr>"
  let ?rows = "update_where (claimable now oid) ?f rows"
  obtain c where c: "claim_each w now ttl ids ?rows = (c, rows1)" using Cons.prems(1) by (auto simp: Let_def split: prod.splits)
  have claimed: "claimed = (if \<exists>r \<in> set rows. claimable now oid r then oid # c else c)"
    using Cons.prems(1) c by (simp add: Let_def)
  have ids: "map ob_id ?rows = map ob_id rows" by (simp add: map_update_where)
  have "distinct (map ob_id ?rows)" using ids Cons.prems(2) by simp
  note IH = Cons.IH [OF c this]
  have rows: "rows_of x ?rows = map (\<lambda>r. if claimable now oid r then ?f r else r) (rows_of x rows)" for x
    by (simp add: rows_of_update)
  have hit: "\<forall>y \<in> set (rows_of oid ?rows). locked_by w (now + ttl) y" if any: "\<exists>r \<in> set rows. claimable now oid r"
  proof -
    obtain r where r: "r \<in> set rows" "claimable now oid r" using any by blast
    then have "rows_of oid rows = [r]" using rows_of_distinct [OF Cons.prems(2) r(1)] by (simp add: claimable_def)
    then show ?thesis using r(2) rows [of oid] by (simp add: locked_by_def)
  qed
  have old: "\<forall>y \<in> set (rows_of x ?rows). locked_by w (now + ttl) y" if "\<forall>y \<in> set (rows_of x rows). locked_by w (now + ttl) y" for x
    using that rows [of x] by (auto simp: locked_by_def)
  have "locked_by w (now + ttl) r"
    if r: "r \<in> set rows1" "ob_id r \<in> set claimed \<or> (\<forall>x \<in> set (rows_of (ob_id r) rows). locked_by w (now + ttl) x)" for r
  proof -
    have "ob_id r \<in> set c \<or> (\<forall>y \<in> set (rows_of (ob_id r) ?rows). locked_by w (now + ttl) y)"
      using r(2) claimed hit old [of "ob_id r"] by (auto split: if_splits)
    then show ?thesis using conjunct1 [OF IH] r(1) by blast
  qed
  then show ?case using conjunct2 [OF IH] ids by simp
qed

lemma claim_each_skips:
  assumes "claim_each w now ttl ids rows = (claimed, rows1)" "rows_of oid rows = [r]" "\<not> claimable now oid r"
  shows "oid \<notin> set claimed \<and> rows_of oid rows1 = [r]"
  using assms
proof (induction ids arbitrary: rows claimed)
  case (Cons x ids)
  let ?f = "\<lambda>r. r\<lparr>ob_status := ''processing'', ob_lockedBy := Some w, ob_lockedUntil := Some (now + ttl), ob_updated := now\<rparr>"
  let ?rows = "update_where (claimable now x) ?f rows"
  obtain c where c: "claim_each w now ttl ids ?rows = (c, rows1)" using Cons.prems(1) by (auto simp: Let_def split: prod.splits)
  have claimed: "claimed = (if \<exists>r \<in> set rows. claimable now x r then x # c else c)"
    using Cons.prems(1) c by (simp add: Let_def)
  have no: "\<not> claimable now x r" using Cons.prems(3) rows_of_in [OF Cons.prems(2)] by (auto simp: claimable_def)
  have "rows_of oid ?rows = [r]" using Cons.prems(2) no by (simp add: rows_of_update)
  then have IH: "oid \<notin> set c \<and> rows_of oid rows1 = [r]" using Cons.IH [OF c] Cons.prems(3) by simp
  have "\<not> (\<exists>y \<in> set rows. claimable now oid y)" if "x = oid"
  proof
    assume "\<exists>y \<in> set rows. claimable now oid y"
    then obtain y where y: "y \<in> set rows" "claimable now oid y" by blast
    then have "ob_id y = oid" by (simp add: claimable_def)
    then have "r = y" using rows_of_mem [OF y(1)] Cons.prems(2) by simp
    then show False using y(2) no that by simp
  qed
  then show ?case using IH claimed by auto
qed (auto simp: rows_of_def)

lemma claimed_locked:
  assumes "ClaimOutbox w n ttl sk now d = Inr (rows, d1)" "r \<in> set rows" "outbox_ok d"
  shows "locked_by w (now + ttl) r \<and> rows_of (ob_id r) (db_outbox d1) = [r]"
proof -
  obtain claimed rows1 where c: "claim_each w now ttl (claim_ids sk n now d) (db_outbox d) = (claimed, rows1)" by (metis surj_pair)
  then have d1: "db_outbox d1 = rows1" "r \<in> set rows1" "ob_id r \<in> set claimed" using assms(1,2) by (auto simp: ClaimOutbox_def)
  have dis: "distinct (map ob_id (db_outbox d))" using assms(3) by (simp add: outbox_ok_def)
  then show ?thesis using claim_each_locks [OF c dis] d1 rows_of_distinct [of rows1 r] by metis
qed

section \<open>Other transactions\<close>

text \<open>Transactions that ask who holds the row, or that are about other rows: every new notification and order, claims
  until a second before the lock ends, reports of publishing by other workers, acknowledgements, and for rows
  of other ids the transactions that do not ask.\<close>

fun leaves_row :: "string \<Rightarrow> string \<Rightarrow> int \<Rightarrow> store_op \<Rightarrow> bool" where
  "leaves_row oid w u (Claim w1 n ttl sk now) \<longleftrightarrow> now + second \<le> u"
| "leaves_row oid w u (Published oid1 w1 a now) \<longleftrightarrow> w1 \<noteq> w \<or> oid1 \<noteq> oid"
| "leaves_row oid w u (Publish_retry oid1 w1 n nxt err a now) \<longleftrightarrow> w1 \<noteq> w \<or> oid1 \<noteq> oid"
| "leaves_row oid w u (Sent oid1 a now) \<longleftrightarrow> oid1 \<noteq> oid"
| "leaves_row oid w u (Expire_row oid1 nid err now) \<longleftrightarrow> oid1 \<noteq> [] \<and> oid1 \<noteq> oid"
| "leaves_row oid w u (Retry_row oid1 n nxt err a now) \<longleftrightarrow> oid1 \<noteq> oid"
| "leaves_row oid w u (Dead ob q a status) \<longleftrightarrow> ob_id ob \<noteq> oid"
| "leaves_row oid w u (Drop_row oid1 err a now) \<longleftrightarrow> oid1 \<noteq> oid"
| "leaves_row oid w u (Replay qid who now) \<longleftrightarrow> False"
| "leaves_row oid w u _ \<longleftrightarrow> True"

lemma rows_of_inserted:
  assumes "insertOutboxTx ob d = Inr d1" "rows_of oid (db_outbox d) = [r]"
  shows "rows_of oid (db_outbox d1) = [r]"
proof -
  have r: "r \<in> set (db_outbox d)" "ob_id r = oid" using rows_of_in [OF assms(2)] by simp_all
  then have "ob_id ob \<noteq> oid" using assms(1) by (auto simp: insertOutboxTx_def insert_row_def split: if_splits)
  then show ?thesis using assms by (auto simp: insertOutboxTx_def insert_row_def rows_of_def split: if_splits)
qed

lemma outbox_alone:
  "insertNotificationTx n d = Inr d1 \<Longrightarrow> db_outbox d1 = db_outbox d" "insertOrderTx o1 d = Inr d1 \<Longrightarrow> db_outbox d1 = db_outbox d"
  "insert_event ev d = Inr d1 \<Longrightarrow> db_outbox d1 = db_outbox d" "update_order oid s1 s2 now d = Inr d1 \<Longrightarrow> db_outbox d1 = db_outbox d"
  "saveIdempotencyTx scope key snap d = Inr d1 \<Longrightarrow> db_outbox d1 = db_outbox d"
  "insertAttemptTx a d = Inr d1 \<Longrightarrow> db_outbox d1 = db_outbox d" "insert_attempt_opt a1 d = Inr d1 \<Longrightarrow> db_outbox d1 = db_outbox d"
  by (auto simp: insertNotificationTx_def insertOrderTx_def insert_event_def update_order_def saveIdempotencyTx_def
      insert_attempt_opt_def insertAttemptTx_def insert_row_def Let_def split: if_splits option.splits)

lemma rows_steps:
  assumes "commit (steps fs d) = Inr (u, d1)" "rows_of oid (db_outbox d) = [r]"
    "\<forall>f \<in> set fs. \<forall>d d1. f d = Inr d1 \<longrightarrow> rows_of oid (db_outbox d) = [r] \<longrightarrow> rows_of oid (db_outbox d1) = [r]"
  shows "rows_of oid (db_outbox d1) = [r]"
  by (rule steps_keep [where P = "\<lambda>d. rows_of oid (db_outbox d) = [r]" and fs = fs and d = d]) (use assms in \<open>auto simp: commit_Inr\<close>)

lemma leaves_row_keeps:
  assumes "leaves_row oid w u op" "rows_of oid (db_outbox d) = [r]" "locked_by w u r" "store_do op d = Inr ((), d1)"
  shows "rows_of oid (db_outbox d1) = [r]"
proof -
  have oid: "ob_id r = oid" using rows_of_in [OF assms(2)] by simp
  have st: "ob_status r = ''processing''" "ob_lockedBy r = Some w" "ob_lockedUntil r = Some u" using assms(3) by (simp_all add: locked_by_def)
  note pieces = rows_of_set_outbox [where oid = oid and r = r] outbox_alone
  show ?thesis
  proof (cases op)
    case (Create n ob scope key snap)
    show ?thesis using assms(2,4) Create
      by (auto simp: CreateNotificationOutbox_def outbox_alone simp del: steps.simps intro: rows_of_inserted elim!: rows_steps)
  next
    case (Create_order r1 n ob scope key snap)
    show ?thesis using assms(2,4) Create_order
      by (auto simp: CreateOrderNotificationOutbox_def outbox_alone simp del: steps.simps intro: rows_of_inserted elim!: rows_steps)
  next
    case (Change_order oid1 ev now n ob scope key snap)
    show ?thesis using assms(2,4) Change_order
      by (auto simp: ChangeOrderNotificationOutbox_def outbox_alone simp del: steps.simps intro: rows_of_inserted elim!: rows_steps)
  next
    case (Claim w1 n ttl sk now)
    obtain claimed rows1 where c: "claim_each w1 now ttl (claim_ids sk n now d) (db_outbox d) = (claimed, rows1)" by (metis surj_pair)
    have "\<not> claimable now oid r" using past_bounds(1) [of u now] assms(1) Claim st by (fastforce simp: claimable_def)
    then show ?thesis using claim_each_skips [OF c assms(2)] c Claim assms(4) by (auto simp: discard_def ClaimOutbox_def)
  next
    case (Claim_published oid1 w1 ttl now)
    have "\<not> claimable_published now oid1 r" using st by (simp add: claimable_published_def)
    then show ?thesis using assms(2,4) Claim_published
      by (auto simp: discard_def ClaimPublishedOutbox_def rows_of_update Let_def map_sum_def split: if_splits sum.splits)
  next
    case (Sent oid1 a now)
    obtain d2 where "insertAttemptTx a d = Inr d2" "db_outbox d1 = db_outbox (set_outbox (\<lambda>r. ob_id r = oid1) (row_settled ''sent'' None now) d2)"
      using assms(4) Sent by (auto simp: MarkOutboxSent_def split: sum.splits)
    then show ?thesis using assms(1,2) Sent oid by (simp add: pieces)
  next
    case (Published oid1 w1 a now)
    obtain d2 where "insert_attempt_opt a d = Inr d2" "db_outbox d1 = db_outbox (set_outbox (held oid1 w1) (row_settled ''published'' None now) d2)"
      using assms(4) Published by (auto simp: MarkOutboxPublished_def Let_def split: sum.splits if_splits option.splits)
    moreover have "\<not> held oid1 w1 r" using assms(1) Published oid st by (auto simp: held_def)
    ultimately show ?thesis using assms(2) by (simp add: pieces)
  next
    case (Publish_retry oid1 w1 n nxt err a now)
    obtain d2 where "insert_attempt_opt a d = Inr d2" "db_outbox d1 = db_outbox (set_outbox (held oid1 w1)
        (\<lambda>r. (row_settled ''failed'' (Some err) now r)\<lparr>ob_retry := n, ob_nextRetry := Some nxt\<rparr>) d2)"
      using assms(4) Publish_retry by (auto simp: MarkOutboxPublishRetry_def Let_def split: sum.splits if_splits option.splits)
    moreover have "\<not> held oid1 w1 r" using assms(1) Publish_retry oid st by (auto simp: held_def)
    ultimately show ?thesis using assms(2) by (simp add: pieces)
  next
    case (Expire_row oid1 nid err now)
    have "db_outbox d1 = db_outbox (set_outbox (\<lambda>r. ob_id r = oid1 \<and> ob_status r \<notin> {''sent'', ''dlq'', ''expired''}) (row_settled ''expired'' (Some err) now) d)"
      using assms(1,4) Expire_row by (auto simp: MarkOutboxExpired_def Let_def split: if_splits)
    moreover have "oid \<noteq> oid1" using assms(1) Expire_row by auto
    ultimately show ?thesis using assms(2) by (simp add: pieces)
  next
    case (Retry_row oid1 n nxt err a now)
    obtain d2 where "insertAttemptTx a d = Inr d2" "db_outbox d1 = db_outbox (set_outbox (\<lambda>r. ob_id r = oid1)
        (\<lambda>r. (row_settled ''failed'' (Some err) now r)\<lparr>ob_retry := n, ob_nextRetry := Some nxt\<rparr>) d2)"
      using assms(4) Retry_row by (auto simp: MarkOutboxRetry_def split: sum.splits)
    then show ?thesis using assms(1,2) Retry_row oid by (simp add: pieces)
  next
    case (Dead ob q a status)
    obtain d2 where "insert_attempt_opt a d = Inr d2"
        "db_outbox d1 = db_outbox (set_outbox (\<lambda>r. ob_id r = ob_id ob) (row_settled status (Some (dq_lastError q)) (dq_created q)) d2)"
      using assms(4) Dead by (auto simp: MoveOutboxToDLQ_def Let_def split: sum.splits if_splits)
    then show ?thesis using assms(1,2) Dead oid by (simp add: pieces)
  next
    case (Drop_row oid1 err a now)
    obtain d2 where "insert_attempt_opt a d = Inr d2"
        "db_outbox d1 = db_outbox (set_outbox (\<lambda>r. ob_id r = oid1) (row_settled ''dropped'' (Some err) now) d2)"
      using assms(4) Drop_row by (auto simp: MarkOutboxDropped_def Let_def split: sum.splits option.splits)
    then show ?thesis using assms(1,2) Drop_row oid by (simp add: pieces)
  next
    case (Acked ak scope key snap)
    have "db_outbox d1 = db_outbox d"
    proof (cases "GetNotification (ak_notify ak) d")
      case (Inr n)
      then obtain b where b: "record_ack_on n ak scope key snap d = Inr (b, d1)"
        using assms(4) Acked by (auto simp: discard_def RecordAckWithIdempotency_def map_sum_def split: sum.splits)
      then show ?thesis using record_ack_cases [OF b] by (auto simp: ack_added_def dest!: outbox_alone(5) split: if_splits)
    qed (use assms(4) Acked in \<open>simp add: discard_def RecordAckWithIdempotency_def\<close>)
    then show ?thesis using assms(2) by simp
  next
    case (Replay qid who now)
    then show ?thesis using assms(1) by simp
  next
    case (Resolve qid who res now)
    then show ?thesis using assms(2,4) by (auto simp: ResolveDLQ_def split: if_splits)
  qed
qed

text \<open>Property C0. A row that a relay claimed is its own until a second before the lock ends: whatever other relays,
  consumers and clients do in the meantime, the row stays as it was claimed, no other claim returns it, and the
  relay can report that it published it. (The transactions that do not ask for the owner must be about other
  rows, and a dead letter must not be replayed.)\<close>

theorem claimed_row_kept:
  assumes "db_ok d" and "ClaimOutbox w n ttl sk now d = Inr (rows, d1)" and "r \<in> set rows"
    and "\<And>f op. (f, op) \<in> set ops \<Longrightarrow> leaves_row (ob_id r) w (now + ttl) op"
  shows "GetOutbox (ob_id r) (store_run ops d1) = Inr r
    \<and> (\<forall>w1 n1 ttl1 sk1 t rows1 d2. t + second \<le> now + ttl \<longrightarrow> ClaimOutbox w1 n1 ttl1 sk1 t (store_run ops d1) = Inr (rows1, d2)
        \<longrightarrow> ob_id r \<notin> ob_id ` set rows1)
    \<and> (\<exists>d2. MarkOutboxPublished (ob_id r) w None t (store_run ops d1) = Inr ((), d2)
        \<and> (\<forall>x \<in> set (db_outbox d2). ob_id x = ob_id r \<longrightarrow> ob_status x = ''published''))"
proof -
  have l: "locked_by w (now + ttl) r" and r1: "rows_of (ob_id r) (db_outbox d1) = [r]"
    using claimed_locked [OF assms(2,3)] assms(1) by (simp_all add: db_ok_def)
  have k: "rows_of (ob_id r) (db_outbox (store_run ops d1)) = [r]"
    by (rule store_run_keeps [where P = "\<lambda>d. rows_of (ob_id r) (db_outbox d) = [r]"]) (use leaves_row_keeps l assms(4) r1 in blast)+
  have others: "ob_id r \<notin> ob_id ` set rows1"
    if t: "t + second \<le> now + ttl" "ClaimOutbox w1 n1 ttl1 sk1 t (store_run ops d1) = Inr (rows1, d2)" for w1 n1 ttl1 sk1 t rows1 d2
  proof -
    obtain claimed rows2 where c: "claim_each w1 t ttl1 (claim_ids sk1 n1 t (store_run ops d1)) (db_outbox (store_run ops d1)) = (claimed, rows2)"
      by (metis surj_pair)
    have "\<not> claimable t (ob_id r) r" using past_bounds(1) [of "now + ttl" t] l t(1) by (fastforce simp: locked_by_def claimable_def)
    then have "ob_id r \<notin> set claimed" using claim_each_skips [OF c k] by simp
    then show ?thesis using c t(2) by (auto simp: ClaimOutbox_def)
  qed
  have "r \<in> set (db_outbox (store_run ops d1))" using rows_of_in [OF k] by simp
  then have "\<exists>x \<in> set (db_outbox (store_run ops d1)). held (ob_id r) w x" using l by (auto simp: held_def locked_by_def)
  then have pub: "MarkOutboxPublished (ob_id r) w None t (store_run ops d1)
      = Inr ((), set_outbox (held (ob_id r) w) (row_settled ''published'' None t) (store_run ops d1))"
    by (simp add: MarkOutboxPublished_def insert_attempt_opt_def Let_def)
  have "x = r" if "x \<in> set (db_outbox (store_run ops d1))" "ob_id x = ob_id r" for x using rows_of_mem k that by metis
  then have "\<forall>x \<in> set (db_outbox (set_outbox (held (ob_id r) w) (row_settled ''published'' None t) (store_run ops d1))).
      ob_id x = ob_id r \<longrightarrow> ob_status x = ''published''"
    using l by (auto simp: set_outbox_def ball_update_where held_def locked_by_def)
  then have "\<exists>d2. MarkOutboxPublished (ob_id r) w None t (store_run ops d1) = Inr ((), d2)
        \<and> (\<forall>x \<in> set (db_outbox d2). ob_id x = ob_id r \<longrightarrow> ob_status x = ''published'')"
    using pub by blast
  moreover have "GetOutbox (ob_id r) (store_run ops d1) = Inr r" by (rule GetOutbox_rows [OF k])
  ultimately show ?thesis using others by (intro conjI) (assumption | intro allI impI)+
qed

definition demo_relay :: outbox where
  "demo_relay = demo_row\<lparr>ob_status := ''processing'', ob_lockedBy := Some ''w'', ob_lockedUntil := Some (30 * second + 100), ob_updated := 100\<rparr>"

lemma demo_claim: "ClaimOutbox ''w'' 10 (30 * second) (\<lambda>_. False) 100 demo_db = Inr ([demo_relay], demo_db\<lparr>db_outbox := [demo_relay]\<rparr>)"
  by (simp add: ClaimOutbox_def claim_ids_def outbox_due_def claimable_def past_def update_where_def demo_db_def demo_row_def demo_relay_def)

theorem claimed_row_kept_witness:
  "GetOutbox (ob_id demo_relay) (store_run [(Answered, Claim ''x'' 10 second (\<lambda>_. False) second),
     (Reply_lost, Published (ob_id demo_relay) ''x'' None second)] (demo_db\<lparr>db_outbox := [demo_relay]\<rparr>)) = Inr demo_relay"
proof -
  have "db_ok demo_db" using run_keeps_db_ok [of "[(Answered, Create new_note demo_row [] [] [])]", OF _ empty_db_ok]
    by (simp add: demo_created del: store_run.simps) (simp add: new_note_def demo_row_def)
  moreover have "leaves_row (ob_id demo_relay) ''w'' (100 + 30 * second) op"
    if "(f, op) \<in> set [(Answered, Claim ''x'' 10 second (\<lambda>_. False) second), (Reply_lost, Published (ob_id demo_relay) ''x'' None second)]"
    for f op using that by (auto simp: second_def)
  ultimately show ?thesis
    using claimed_row_kept [of demo_db "''w''" 10 "30 * second" "\<lambda>_. False" 100 "[demo_relay]" "demo_db\<lparr>db_outbox := [demo_relay]\<rparr>" demo_relay
        "[(Answered, Claim ''x'' 10 second (\<lambda>_. False) second), (Reply_lost, Published (ob_id demo_relay) ''x'' None second)]"] demo_claim
    by (simp del: store_run.simps)
qed

section \<open>Dead letters of a replayed row\<close>

text \<open>Property C0. A row that fails for good, whose dead letter is replayed, and that fails for good again is hidden from
  the operators: the table has one dead letter per row and ignores the second one, so the only dead letter of the row stays
  marked as resolved while the row stays among the dead ones.\<close>

theorem dead_letter_hidden:
  assumes "ob_id ob \<notin> dq_outbox ` set (db_dlq d)" and "dq_id q \<notin> dq_id ` set (db_dlq d)"
    and "dq_outbox q = ob_id ob" and "dq_outbox q2 = ob_id ob" and "ob_id ob2 = ob_id ob"
    and "MoveOutboxToDLQ ob q a ''dlq'' d = Inr ((), d1)" and "ReplayDLQ (dq_id q) who now d1 = Inr ((), d2)"
    and "MoveOutboxToDLQ ob2 q2 a2 ''dlq'' d2 = Inr ((), d3)"
  shows "(\<forall>x \<in> set (db_dlq d3). dq_outbox x = ob_id ob \<longrightarrow> dq_resolvedAt x = Some now)
    \<and> length (filter (\<lambda>x. dq_outbox x = ob_id ob) (db_dlq d3)) = 1
    \<and> (\<forall>r \<in> set (db_outbox d3). ob_id r = ob_id ob \<longrightarrow> ob_status r = ''dlq'')"
proof -
  have one: "db_dlq y = insert_ignore_dlq (p\<lparr>dq_strategy := (if dq_strategy p = [] then ob_strategy o1 else dq_strategy p)\<rparr>) (db_dlq x)
      \<and> (\<forall>r \<in> set (db_outbox y). ob_id r = ob_id o1 \<longrightarrow> ob_status r = ''dlq'')"
    if moved: "MoveOutboxToDLQ o1 p b ''dlq'' x = Inr ((), y)" for o1 p b x y
  proof -
    obtain x1 where x1: "insert_attempt_opt b x = Inr x1"
      using moved by (cases "insert_attempt_opt b x") (auto simp: MoveOutboxToDLQ_def)
    then have "db_dlq x1 = db_dlq x"
      by (auto simp: insert_attempt_opt_def insertAttemptTx_def insert_row_def split: if_splits option.splits)
    moreover have "db_dlq y = insert_ignore_dlq (p\<lparr>dq_strategy := (if dq_strategy p = [] then ob_strategy o1 else dq_strategy p)\<rparr>) (db_dlq x1)"
      "db_outbox y = db_outbox (set_outbox (\<lambda>r. ob_id r = ob_id o1) (row_settled ''dlq'' (Some (dq_lastError p)) (dq_created p)) x1)"
      using moved x1 by (auto simp: MoveOutboxToDLQ_def Let_def set_outbox_def set_note_def set_target_def)
    ultimately show ?thesis by (simp add: set_outbox_def ball_update_where)
  qed
  obtain q1 where q1: "db_dlq d1 = db_dlq d @ [q1]" "dq_outbox q1 = ob_id ob" "dq_id q1 = dq_id q"
    using one [OF assms(6)] assms(1-3) by (auto simp: insert_ignore_dlq_def split: if_splits)
  have d2: "db_dlq d2 = db_dlq d @ [q1\<lparr>dq_resolvedAt := Some now, dq_resolvedBy := who, dq_resolution := ''replay''\<rparr>]"
  proof -
    have "db_dlq d2 = update_where (\<lambda>x. dq_id x = dq_id q)
        (\<lambda>x. x\<lparr>dq_resolvedAt := Some now, dq_resolvedBy := who, dq_resolution := ''replay''\<rparr>) (db_dlq d1)"
      using assms(7) by (auto simp: ReplayDLQ_def Let_def set_outbox_def split: list.splits)
    moreover have "dq_id x \<noteq> dq_id q" if "x \<in> set (db_dlq d)" for x using assms(2) that by (metis imageI)
    then have "update_where (\<lambda>x. dq_id x = dq_id q) f (db_dlq d) = db_dlq d" for f
      by (simp add: update_where_def map_idI)
    ultimately show ?thesis using q1 by (simp add: update_where_def)
  qed
  have "db_dlq d3 = db_dlq d2" using one [OF assms(8)] assms(4) q1(2) d2 by (simp add: insert_ignore_dlq_def)
  moreover have no: "dq_outbox x \<noteq> ob_id ob" if "x \<in> set (db_dlq d)" for x using assms(1) that by (metis imageI)
  then have "filter (\<lambda>x. dq_outbox x = ob_id ob) (db_dlq d) = []" by (auto simp: filter_empty_conv)
  ultimately show ?thesis using d2 q1(2) no assms(5) one [OF assms(8)] by auto
qed

definition demo_letter :: "string \<Rightarrow> dead_letter" where
  "demo_letter qid = \<lparr>dq_id = qid, dq_notify = ''n1'', dq_outbox = ''o1'', dq_user = ''7'', dq_order = [], dq_reason = ''timeout'',
     dq_lastError = ''timeout'', dq_payload = ''{}'', dq_retry = 0, dq_strategy = ''retry_then_dlq'', dq_created = 1, dq_resolvedAt = None,
     dq_resolvedBy = [], dq_resolution = []\<rparr>"

theorem dead_letter_hidden_witness:
  "\<exists>d3 :: db. length (filter (\<lambda>x. dq_outbox x = ''o1'') (db_dlq d3)) = 1
     \<and> (\<forall>x \<in> set (db_dlq d3). dq_outbox x = ''o1'' \<longrightarrow> dq_resolvedAt x = Some 9)"
proof -
  obtain d1 where d1: "MoveOutboxToDLQ demo_row (demo_letter ''q1'') None ''dlq'' demo_db = Inr ((), d1)"
    by (auto simp: MoveOutboxToDLQ_def insert_attempt_opt_def Let_def)
  moreover obtain d2 where "ReplayDLQ (dq_id (demo_letter ''q1'')) ''op'' 9 d1 = Inr ((), d2)"
    using d1 by (auto simp: MoveOutboxToDLQ_def insert_attempt_opt_def Let_def insert_ignore_dlq_def ReplayDLQ_def demo_letter_def
        demo_db_def empty_db_def set_target_def set_note_def set_outbox_def)
  moreover obtain d3 where "MoveOutboxToDLQ demo_row (demo_letter ''q2'') None ''dlq'' d2 = Inr ((), d3)"
    by (auto simp: MoveOutboxToDLQ_def insert_attempt_opt_def Let_def)
  moreover have "ob_id demo_row = ''o1''" "dq_outbox (demo_letter q) = ''o1''" "db_dlq demo_db = []" for q
    by (simp_all add: demo_row_def demo_letter_def demo_db_def empty_db_def)
  ultimately have "(\<forall>x \<in> set (db_dlq d3). dq_outbox x = ''o1'' \<longrightarrow> dq_resolvedAt x = Some 9)
      \<and> length (filter (\<lambda>x. dq_outbox x = ''o1'') (db_dlq d3)) = 1"
    using dead_letter_hidden [of demo_row demo_db "demo_letter ''q1''" "demo_letter ''q2''" demo_row None d1 "''op''" 9 d2 None d3] by simp
  then show ?thesis by blast
qed

end
