(* ===== verification/Spec2Isabelle.thy ===== *)
theory Spec2Isabelle
  imports Websocket Msg_Codec Room_Bucket Timer_Heap Snowflake Tracking Sync Worker Ack_Batcher Router_Api Rate_Limit
    Node_Pools Offline_Merge Spool_Replay Logic_Api Notify_Claims
begin

text \<open>
  Header to be written.
\<close>

end
